(* ===== verification/Prelude.thy ===== *)
theory Prelude
  imports Main "HOL-Library.Word"
begin

text \<open>
  Shared vocabulary of the development: the machine types of the LP64 configuration
  (\<open>src/src/core/inc/types.h\<close>), the outcome of a call that may run into the \<open>ERROR\<close>
  macro (\<open>src/src/core/inc/bao.h\<close>), counting loops, and the generic lemmas on words,
  lists and intervals that the component theories share.
\<close>

unbundle bit_operations_syntax

section \<open>Machine types\<close>

type_synonym u8 = "8 word"
type_synonym u32 = "32 word"
type_synonym u64 = "64 word"

text \<open>
  \<open>unsigned long\<close>, \<open>size_t\<close>, \<open>paddr_t\<close>, \<open>vaddr_t\<close>, \<open>cpumap_t\<close> and \<open>colormap_t\<close> are 64 bits
  wide. A \<open>size_t\<close> that only counts or indexes (a loop counter, a page number, a bit number)
  is a \<open>nat\<close>; one whose wrap-around the code can reach is a word.
\<close>

definition ULONG_MAX :: u64 where
  "ULONG_MAX = - 1"

section \<open>Collections of facts\<close>

named_theorems bm_simps \<open>what the bitmap operations do to the bits of a bitmap\<close>
named_theorems inv_intros \<open>preservation of the components' invariants\<close>

section \<open>Outcomes\<close>

text \<open>
  \<open>ERROR(...)\<close> prints and then loops forever: the call never returns. A function that can
  reach it has a result in \<open>'a outcome\<close>: \<open>Inl\<close> of the reason the processor was halted, or
  \<open>Inr\<close> of the value returned.
\<close>

datatype hyp_error =
    ERROR string        \<comment> \<open>the \<open>ERROR\<close> macro was reached\<close>
  | NULL_DEREF          \<comment> \<open>a null pointer was dereferenced\<close>
  | OUT_OF_BOUNDS       \<comment> \<open>an array was indexed beyond its end\<close>
  | NO_RETURN           \<comment> \<open>a loop of the code never ends\<close>

type_synonym 'a outcome = "hyp_error + 'a"

definition obind :: "'a outcome \<Rightarrow> ('a \<Rightarrow> 'b outcome) \<Rightarrow> 'b outcome" where
  "obind m f = (case m of Inl e \<Rightarrow> Inl e | Inr x \<Rightarrow> f x)"

lemma obind_simps [simp]:
  "obind (Inl e) f = Inl e"
  "obind (Inr x) f = f x"
  by (simp_all add: obind_def)

lemma obind_eq_Inr:
  "obind m f = Inr y \<longleftrightarrow> (\<exists>x. m = Inr x \<and> f x = Inr y)"
  by (cases m) auto

lemma obind_eq_Inl:
  "obind m f = Inl e \<longleftrightarrow> m = Inl e \<or> (\<exists>x. m = Inr x \<and> f x = Inl e)"
  by (cases m) auto

fun ofold :: "('a \<Rightarrow> 's \<Rightarrow> 's outcome) \<Rightarrow> 'a list \<Rightarrow> 's \<Rightarrow> 's outcome" where
  "ofold f [] s = Inr s"
| "ofold f (x # xs) s = obind (f x s) (ofold f xs)"

lemma ofold_invariant:
  assumes "\<And>x s s'. x \<in> set xs \<Longrightarrow> P s \<Longrightarrow> f x s = Inr s' \<Longrightarrow> P s'"
    and "P s" and "ofold f xs s = Inr s'"
  shows "P s'"
  using assms
  by (induction xs arbitrary: s) (auto simp: obind_eq_Inr)

section \<open>Words\<close>

text \<open>The simplifier writes \<open>1 << n\<close>, \<open>push_bit n 1\<close>, as \<open>2 ^ n\<close>.\<close>

lemma and_shl1_eq_0 [simp]:
  "(w :: 'a::len word) AND 2 ^ n = 0 \<longleftrightarrow> \<not> bit w n"
  by (simp add: and_exp_eq_0_iff_not_bit)

lemma xor_eq_0_iff_eq: "(a :: 'a::len word) XOR b = 0 \<longleftrightarrow> a = b"
  by (auto simp: bit_eq_iff bit_xor_iff)

lemma nat_div_mod_32 [simp]:
  "32 * (i div 32) + i mod 32 = (i::nat)"
  by simp

lemma div_eq_mod_eq_imp_eq:
  "i div 32 = j div 32 \<Longrightarrow> i mod 32 = j mod 32 \<Longrightarrow> i = (j::nat)"
  by (metis mult_div_mod_eq)

lemma unat_add_no_wrap:
  fixes a b :: "'a::len word"
  assumes "unat a + unat b < 2 ^ LENGTH('a)"
  shows "unat (a + b) = unat a + unat b"
  using assms by (simp add: unat_word_ariths)

lemma unat_mult_no_wrap:
  fixes a b :: "'a::len word"
  assumes "unat a * unat b < 2 ^ LENGTH('a)"
  shows "unat (a * b) = unat a * unat b"
  using assms by (simp add: unat_word_ariths)

lemma of_nat_unat_u64 [simp]: "(of_nat (unat (w :: u64)) :: u64) = w"
  by simp

end
