(* ===== verification/Fifo_Interface.thy ===== *)
theory Fifo_Interface
  imports Prelude
begin

text \<open>
  The contract that the hypervisor's queues offer to their clients. A client enqueues at one
  end and dequeues at the other; \<open>elems\<close> is what is stored, \<open>accepts\<close> when an enqueue is legal
  (for the bounded queue: not full; for the intrusive list: the node is not linked already).
  Its consequence for a client is the delivery law: over any sequence of operations, what was
  stored at the start followed by what was accepted is what was delivered followed by what is
  stored at the end. Nothing is lost, duplicated or reordered.
\<close>

datatype 'a fifo_op = Enq 'a | Deq

text \<open>A run of operations: the elements accepted, the elements delivered, the final queue.\<close>

fun fifo_run :: "('q \<Rightarrow> 'a \<Rightarrow> bool \<times> 'q) \<Rightarrow> ('q \<Rightarrow> 'a option \<times> 'q) \<Rightarrow> 'q \<Rightarrow> 'a fifo_op list \<Rightarrow>
    'a list \<times> 'a list \<times> 'q" where
  "fifo_run enq deq q [] = ([], [], q)"
| "fifo_run enq deq q (Enq x # ops) =
     (let (ok, q') = enq q x; (acc, del, q'') = fifo_run enq deq q' ops
      in ((if ok then x # acc else acc), del, q''))"
| "fifo_run enq deq q (Deq # ops) =
     (let (r, q') = deq q; (acc, del, q'') = fifo_run enq deq q' ops
      in (acc, (case r of None \<Rightarrow> del | Some x \<Rightarrow> x # del), q''))"

fun fifo_legal :: "('q \<Rightarrow> 'a \<Rightarrow> bool) \<Rightarrow> ('q \<Rightarrow> 'a \<Rightarrow> bool \<times> 'q) \<Rightarrow> ('q \<Rightarrow> 'a option \<times> 'q) \<Rightarrow>
    'q \<Rightarrow> 'a fifo_op list \<Rightarrow> bool" where
  "fifo_legal accepts enq deq q [] \<longleftrightarrow> True"
| "fifo_legal accepts enq deq q (Enq x # ops) \<longleftrightarrow>
     accepts q x \<and> fifo_legal accepts enq deq (snd (enq q x)) ops"
| "fifo_legal accepts enq deq q (Deq # ops) \<longleftrightarrow> fifo_legal accepts enq deq (snd (deq q)) ops"

locale fifo =
  fixes invar :: "'q \<Rightarrow> bool"
    and elems :: "'q \<Rightarrow> 'a list"
    and accepts :: "'q \<Rightarrow> 'a \<Rightarrow> bool"
    and enq :: "'q \<Rightarrow> 'a \<Rightarrow> bool \<times> 'q"
    and deq :: "'q \<Rightarrow> 'a option \<times> 'q"
  assumes enq_accepted: "invar q \<Longrightarrow> accepts q x \<Longrightarrow>
      fst (enq q x) \<and> invar (snd (enq q x)) \<and> elems (snd (enq q x)) = elems q @ [x]"
    and deq_result: "invar q \<Longrightarrow> fst (deq q) = (case elems q of [] \<Rightarrow> None | x # _ \<Rightarrow> Some x)"
    and deq_rest: "invar q \<Longrightarrow> invar (snd (deq q)) \<and> elems (snd (deq q)) = tl (elems q)"
begin

lemma legal_run_delivers:
  assumes "invar q" and "fifo_legal accepts enq deq q ops"
    and "fifo_run enq deq q ops = (acc, del, q')"
  shows "invar q' \<and> elems q @ acc = del @ elems q'"
  using assms
proof (induction ops arbitrary: q acc del)
  case Nil
  then show ?case by simp
next
  case (Cons opn ops)
  show ?case
  proof (cases opn)
    case (Enq x)
    then obtain acc' where run: "fifo_run enq deq (snd (enq q x)) ops = (acc', del, q')"
        and acc: "acc = (if fst (enq q x) then x # acc' else acc')"
      using Cons.prems(3) by (auto simp: Let_def split: prod.splits)
    with Enq Cons.IH [of "snd (enq q x)" acc' del] Cons.prems enq_accepted [of q x]
    show ?thesis by auto
  next
    case Deq
    then obtain del' where run: "fifo_run enq deq (snd (deq q)) ops = (acc, del', q')"
        and del: "del = (case fst (deq q) of None \<Rightarrow> del' | Some x \<Rightarrow> x # del')"
      using Cons.prems(3) by (auto simp: Let_def split: prod.splits)
    with Deq Cons.IH [of "snd (deq q)" acc del'] Cons.prems deq_rest [of q] deq_result [of q]
    show ?thesis by (cases "elems q") auto
  qed
qed

end

text \<open>A queue that refuses what it does not accept, and then is unchanged: every run is legal for it.\<close>

locale bounded_fifo = fifo +
  assumes enq_refused: "invar q \<Longrightarrow> \<not> accepts q x \<Longrightarrow> enq q x = (False, q)"
begin

lemma run_delivers:
  assumes "invar q" and "fifo_run enq deq q ops = (acc, del, q')"
  shows "invar q' \<and> elems q @ acc = del @ elems q'"
  using assms
proof (induction ops arbitrary: q acc del)
  case Nil
  then show ?case by simp
next
  case (Cons opn ops)
  show ?case
  proof (cases opn)
    case (Enq x)
    then obtain acc' where run: "fifo_run enq deq (snd (enq q x)) ops = (acc', del, q')"
        and acc: "acc = (if fst (enq q x) then x # acc' else acc')"
      using Cons.prems(2) by (auto simp: Let_def split: prod.splits)
    show ?thesis
    proof (cases "accepts q x")
      case True
      with run acc Cons.IH [of "snd (enq q x)" acc' del] Cons.prems(1) enq_accepted [of q x]
      show ?thesis by auto
    next
      case False
      with run acc Cons.IH [of q acc' del] Cons.prems(1) enq_refused [of q x]
      show ?thesis by auto
    qed
  next
    case Deq
    then obtain del' where run: "fifo_run enq deq (snd (deq q)) ops = (acc, del', q')"
        and del: "del = (case fst (deq q) of None \<Rightarrow> del' | Some x \<Rightarrow> x # del')"
      using Cons.prems(2) by (auto simp: Let_def split: prod.splits)
    with Deq Cons.IH [of "snd (deq q)" acc del'] Cons.prems(1) deq_rest [of q] deq_result [of q]
    show ?thesis by (cases "elems q") auto
  qed
qed

lemma drain_delivers_all:
  assumes "invar q" and "fifo_run enq deq q (replicate (length (elems q)) Deq) = (acc, del, q')"
  shows "del = elems q \<and> elems q' = []"
proof -
  have "fifo_run enq deq p (replicate n Deq) = (acc, del, q') \<Longrightarrow> invar p \<Longrightarrow> n = length (elems p) \<Longrightarrow>
      del = elems p \<and> elems q' = []" for n p acc del
  proof (induction n arbitrary: p acc del)
    case 0
    then show ?case by simp
  next
    case (Suc n)
    from Suc.prems(1) obtain acc' del'
      where run: "fifo_run enq deq (snd (deq p)) (replicate n Deq) = (acc', del', q')"
        and del: "del = (case fst (deq p) of None \<Rightarrow> del' | Some x \<Rightarrow> x # del')"
      by (auto simp: Let_def split: prod.splits)
    from Suc.IH [OF run] Suc.prems deq_rest [of p] deq_result [of p] del
    show ?case by (cases "elems p") auto
  qed
  with assms show ?thesis by blast
qed

end

end
