(* ===== verification/Circular_Queue.thy ===== *)
theory Circular_Queue
  imports Fifo_Interface
begin

text \<open>
  The bounded message queue of \<open>src/src/lib/inc/circular_queue.h\<close>. The buffer of \<open>capacity\<close>
  slots of \<open>elem_size\<close> bytes is a list of slots, and the \<open>memcpy\<close> of a slot is the assignment of
  an element; \<open>front\<close> and \<open>rear\<close> are the code's \<open>int\<close> indexes, \<open>-1\<close> when the queue is empty.
  Each operation runs under the queue's lock, so it is one step. The queue refines a bounded
  first-in first-out sequence: the interpretation of \<open>bounded_fifo\<close> at the end.
\<close>

record 'a circular_queue =
  buf :: "'a list"
  capacity :: nat
  front :: int
  rear :: int

definition circular_queue_init :: "'a list \<Rightarrow> nat \<Rightarrow> 'a circular_queue" where
  "circular_queue_init b cap = \<lparr>buf = b, capacity = cap, front = - 1, rear = - 1\<rparr>"

definition circular_queue_is_full :: "'a circular_queue \<Rightarrow> bool" where
  "circular_queue_is_full cq \<longleftrightarrow> (rear cq + 1) mod int (capacity cq) = front cq"

definition circular_queue_is_empty :: "'a circular_queue \<Rightarrow> bool" where
  "circular_queue_is_empty cq \<longleftrightarrow> front cq = - 1"

definition circular_queue_push :: "'a circular_queue \<Rightarrow> 'a \<Rightarrow> bool \<times> 'a circular_queue" where
  "circular_queue_push cq data =
     (let ok = \<not> circular_queue_is_full cq
      in if ok then
           (let cq = (if front cq = - 1 then cq\<lparr>front := 0\<rparr> else cq);
                cq = cq\<lparr>rear := (rear cq + 1) mod int (capacity cq)\<rparr>;
                cq = cq\<lparr>buf := (buf cq)[nat (rear cq) := data]\<rparr>
            in (ok, cq))
         else (ok, cq))"

definition circular_queue_pop :: "'a circular_queue \<Rightarrow> 'a option \<times> 'a circular_queue" where
  "circular_queue_pop cq =
     (let ok = \<not> circular_queue_is_empty cq
      in if ok then
           (let data = buf cq ! nat (front cq);
                cq = (if front cq = rear cq then cq\<lparr>front := - 1, rear := - 1\<rparr>
                      else cq\<lparr>front := (front cq + 1) mod int (capacity cq)\<rparr>)
            in (Some data, cq))
         else (None, cq))"

section \<open>The abstract queue\<close>

text \<open>A non-empty queue: \<open>d + 1\<close> elements from slot \<open>f\<close> on, round the end of the buffer.\<close>

definition cq_at :: "'a circular_queue \<Rightarrow> nat \<Rightarrow> nat \<Rightarrow> bool" where
  "cq_at cq f d \<longleftrightarrow> f < capacity cq \<and> d < capacity cq \<and> front cq = int f \<and>
     rear cq = int ((f + d) mod capacity cq)"

definition cq_invar :: "'a circular_queue \<Rightarrow> bool" where
  "cq_invar cq \<longleftrightarrow> 0 < capacity cq \<and> length (buf cq) = capacity cq \<and>
     ((front cq = - 1 \<and> rear cq = - 1) \<or>
      (0 \<le> front cq \<and> front cq < int (capacity cq) \<and> 0 \<le> rear cq \<and> rear cq < int (capacity cq)))"

definition cq_count :: "'a circular_queue \<Rightarrow> nat" where
  "cq_count cq =
     (if front cq = - 1 then 0
      else Suc ((nat (rear cq) + capacity cq - nat (front cq)) mod capacity cq))"

definition cq_elems :: "'a circular_queue \<Rightarrow> 'a list" where
  "cq_elems cq = map (\<lambda>k. buf cq ! ((nat (front cq) + k) mod capacity cq)) [0..<cq_count cq]"

definition cq_accepts :: "'a circular_queue \<Rightarrow> 'a \<Rightarrow> bool" where
  "cq_accepts cq x \<longleftrightarrow> length (cq_elems cq) < capacity cq"

lemma length_cq_elems [simp]: "length (cq_elems cq) = cq_count cq"
  by (simp add: cq_elems_def)

lemma add_mod_diff_mod:
  assumes "f < c" and "d < (c :: nat)"
  shows "((f + d) mod c + c - f) mod c = d"
proof (cases "f + d < c")
  case True
  with assms show ?thesis by simp
next
  case False
  with assms have "(f + d) mod c = f + d - c" by (simp add: mod_if)
  with assms False show ?thesis by simp
qed

lemma mod_diff_add_mod:
  assumes "f < c" and "r < (c :: nat)"
  shows "(f + (r + c - f) mod c) mod c = r"
proof -
  have "(f + (r + c - f) mod c) mod c = (f + (r + c - f)) mod c" by (simp add: mod_add_right_eq)
  also have "f + (r + c - f) = r + c" using assms by simp
  finally show ?thesis using assms by simp
qed

lemma cq_count_at [simp]: "cq_at cq f d \<Longrightarrow> cq_count cq = Suc d"
  by (auto simp: cq_at_def cq_count_def add_mod_diff_mod)

lemma cq_elems_at:
  "cq_at cq f d \<Longrightarrow> cq_elems cq = map (\<lambda>k. buf cq ! ((f + k) mod capacity cq)) [0..<Suc d]"
  unfolding cq_elems_def by (simp only: cq_count_at) (simp add: cq_at_def)

lemma cq_invar_cases:
  assumes "cq_invar cq"
  obtains (empty) "front cq = - 1" "rear cq = - 1" "cq_elems cq = []"
  | (elements) f d where "cq_at cq f d"
proof (cases "front cq = - 1")
  case True
  with assms show thesis
    by (intro empty) (auto simp: cq_invar_def cq_elems_def cq_count_def)
next
  case False
  define f r where "f = nat (front cq)" and "r = nat (rear cq)"
  from False assms have fr: "front cq = int f" "rear cq = int r" "f < capacity cq" "r < capacity cq"
    by (auto simp: cq_invar_def f_def r_def)
  then have "cq_at cq f ((r + capacity cq - f) mod capacity cq)"
    by (auto simp: cq_at_def mod_diff_add_mod)
  then show thesis by (rule elements)
qed

lemma cq_at_invar:
  "cq_at cq f d \<Longrightarrow> length (buf cq) = capacity cq \<Longrightarrow> cq_invar cq"
  by (auto simp: cq_at_def cq_invar_def)

lemma cq_full_at:
  assumes "cq_at cq f d"
  shows "circular_queue_is_full cq \<longleftrightarrow> Suc d = capacity cq"
proof -
  let ?c = "capacity cq"
  from assms have c: "f < ?c" "d < ?c" "front cq = int f" "rear cq = int ((f + d) mod ?c)"
    by (auto simp: cq_at_def)
  have "(int ((f + d) mod ?c) + 1) mod int ?c = int ((f + Suc d) mod ?c)"
    by (metis (no_types, opaque_lifting) add_Suc_right mod_Suc_eq of_nat_Suc of_nat_mod add.commute)
  then have "circular_queue_is_full cq \<longleftrightarrow> (f + Suc d) mod ?c = f"
    by (simp add: circular_queue_is_full_def c)
  also have "\<dots> \<longleftrightarrow> Suc d = ?c"
    using c(1,2) by (cases "f + Suc d < ?c") (auto simp: mod_if)
  finally show ?thesis .
qed

lemma cq_push_empty:
  assumes "cq_invar cq" and "front cq = - 1"
  shows "circular_queue_push cq x =
    (True, cq\<lparr>front := 0, rear := 0, buf := (buf cq)[0 := x]\<rparr>)"
  using assms by (auto simp: circular_queue_push_def circular_queue_is_full_def cq_invar_def Let_def)

lemma cq_push_at:
  assumes "cq_at cq f d" and "Suc d < capacity cq" and len: "length (buf cq) = capacity cq"
    and push: "circular_queue_push cq x = (ok, cq')"
  shows "ok \<and> cq_at cq' f (Suc d) \<and> cq_elems cq' = cq_elems cq @ [x] \<and>
    length (buf cq') = capacity cq'"
proof -
  let ?c = "capacity cq"
  let ?r = "(f + Suc d) mod ?c"
  have c: "f < ?c" "d < ?c" "front cq = int f" "rear cq = int ((f + d) mod ?c)"
    using assms(1) by (auto simp: cq_at_def)
  have r: "(int ((f + d) mod ?c) + 1) mod int ?c = int ?r"
    by (metis (no_types, opaque_lifting) add_Suc_right mod_Suc_eq of_nat_Suc of_nat_mod add.commute)
  have "\<not> circular_queue_is_full cq" using cq_full_at [OF assms(1)] assms(2) by simp
  then have eq: "ok" "cq' = cq\<lparr>rear := int ?r, buf := (buf cq)[?r := x]\<rparr>"
    using push by (auto simp: circular_queue_push_def Let_def c r)
  then have at': "cq_at cq' f (Suc d)" using c assms(2) by (simp add: cq_at_def)
  have "?r \<noteq> (f + k) mod ?c" if "k < Suc d" for k
  proof
    assume "?r = (f + k) mod ?c"
    then have "((f + k) mod ?c + ?c - f) mod ?c = (?r + ?c - f) mod ?c" by simp
    then show False using that assms(2) c(1,2) by (simp add: add_mod_diff_mod del: add_Suc_right)
  qed
  moreover have "?r < length (buf cq)" using len c(1) by simp
  moreover have "buf cq' = (buf cq)[?r := x]" "capacity cq' = ?c" using eq by simp_all
  ultimately have "cq_elems cq' = cq_elems cq @ [x]" and "length (buf cq') = capacity cq'"
    using len unfolding cq_elems_at [OF at'] cq_elems_at [OF assms(1)]
    by (simp_all del: add_Suc_right)
  with eq(1) at' show ?thesis by simp
qed

lemma cq_pop_at:
  assumes "cq_at cq f d" and len: "length (buf cq) = capacity cq"
    and pop: "circular_queue_pop cq = (r, cq')"
  shows "r = Some (hd (cq_elems cq)) \<and> cq_invar cq' \<and> cq_elems cq' = tl (cq_elems cq)"
proof -
  let ?c = "capacity cq"
  have c: "f < ?c" "d < ?c" "front cq = int f" "rear cq = int ((f + d) mod ?c)"
    using assms(1) by (auto simp: cq_at_def)
  have "r = Some (buf cq ! f)"
    using pop c(3) by (auto simp: circular_queue_pop_def circular_queue_is_empty_def Let_def)
  then have hd: "r = Some (hd (cq_elems cq))"
    using c(1) by (simp add: cq_elems_at [OF assms(1)] hd_map upt_conv_Cons del: upt_Suc)
  have same: "front cq = rear cq \<longleftrightarrow> d = 0"
    using c by (cases "f + d < ?c") (auto simp: mod_if)
  show ?thesis
  proof (cases d)
    case 0
    with same pop have "cq' = cq\<lparr>front := - 1, rear := - 1\<rparr>"
      using c(3) by (auto simp: circular_queue_pop_def circular_queue_is_empty_def Let_def)
    with 0 hd c(1) len show ?thesis
      by (simp add: cq_elems_at [OF assms(1)] cq_invar_def) (simp add: cq_elems_def cq_count_def)
  next
    case (Suc d')
    have "(int f + 1) mod int ?c = int (Suc f mod ?c)" by (simp add: zmod_int add.commute)
    with Suc same pop have eq: "cq' = cq\<lparr>front := int (Suc f mod ?c)\<rparr>"
      using c(3) by (auto simp: circular_queue_pop_def circular_queue_is_empty_def Let_def)
    have at': "cq_at cq' (Suc f mod ?c) d'"
      using c Suc eq by (auto simp: cq_at_def mod_add_left_eq)
    have "cq_elems cq' = map (\<lambda>k. buf cq ! ((f + Suc k) mod ?c)) [0..<Suc d']"
      using eq unfolding cq_elems_at [OF at'] by (simp add: mod_add_left_eq del: upt_Suc)
    also have "\<dots> = tl (cq_elems cq)"
      unfolding cq_elems_at [OF assms(1)] Suc map_tl [symmetric] tl_upt
      by (simp add: map_Suc_upt [symmetric] del: upt_Suc)
    finally show ?thesis using hd at' len eq by (simp add: cq_at_invar)
  qed
qed

section \<open>The queue is a bounded first-in first-out sequence\<close>

lemma cq_init_invar:
  assumes "0 < cap" and "length b = cap"
  shows "cq_invar (circular_queue_init b cap) \<and> cq_elems (circular_queue_init b cap) = []"
  using assms by (simp add: circular_queue_init_def cq_invar_def cq_elems_def cq_count_def)

interpretation cq: bounded_fifo cq_invar cq_elems cq_accepts circular_queue_push circular_queue_pop
proof unfold_locales
  fix q :: "'a circular_queue" and x
  assume q: "cq_invar q" and acc: "cq_accepts q x"
  then have len: "length (buf q) = capacity q" "0 < capacity q" by (auto simp: cq_invar_def)
  from q show "fst (circular_queue_push q x) \<and> cq_invar (snd (circular_queue_push q x)) \<and>
      cq_elems (snd (circular_queue_push q x)) = cq_elems q @ [x]"
  proof (cases rule: cq_invar_cases)
    case empty
    with q len show ?thesis
      by (auto simp: cq_push_empty cq_invar_def) (simp add: cq_elems_def cq_count_def)
  next
    case (elements f d)
    obtain ok q' where push: "circular_queue_push q x = (ok, q')" by (metis surj_pair)
    have "Suc d < capacity q" using acc elements by (simp add: cq_accepts_def)
    from cq_push_at [OF elements this len(1) push] show ?thesis
      using push by (auto intro: cq_at_invar)
  qed
next
  fix q :: "'a circular_queue"
  assume q: "cq_invar q"
  then have len: "length (buf q) = capacity q" by (simp add: cq_invar_def)
  obtain r q' where pop: "circular_queue_pop q = (r, q')" by (metis surj_pair)
  have "r = (case cq_elems q of [] \<Rightarrow> None | x # _ \<Rightarrow> Some x) \<and> cq_invar q' \<and> cq_elems q' = tl (cq_elems q)"
    using q
  proof (cases rule: cq_invar_cases)
    case empty
    with pop q show ?thesis
      by (auto simp: circular_queue_pop_def circular_queue_is_empty_def)
  next
    case (elements f d)
    then have "cq_elems q \<noteq> []" by (metis cq_count_at length_cq_elems list.size(3) nat.distinct(1))
    with cq_pop_at [OF elements len pop] show ?thesis by (cases "cq_elems q") auto
  qed
  then show "fst (circular_queue_pop q) = (case cq_elems q of [] \<Rightarrow> None | x # _ \<Rightarrow> Some x)"
    and "cq_invar (snd (circular_queue_pop q)) \<and> cq_elems (snd (circular_queue_pop q)) = tl (cq_elems q)"
    using pop by auto
next
  fix q :: "'a circular_queue" and x
  assume q: "cq_invar q" and acc: "\<not> cq_accepts q x"
  from q show "circular_queue_push q x = (False, q)"
  proof (cases rule: cq_invar_cases)
    case empty
    with q acc show ?thesis by (auto simp: cq_accepts_def cq_invar_def)
  next
    case (elements f d)
    then have "circular_queue_is_full q"
      using acc by (auto simp: cq_full_at cq_accepts_def cq_at_def)
    then show ?thesis by (simp add: circular_queue_push_def Let_def)
  qed
qed

lemma cq_push_accepts:
  "cq_invar q \<Longrightarrow> fst (circular_queue_push q x) \<longleftrightarrow> length (cq_elems q) < capacity q"
  using cq.enq_accepted [of q x] cq.enq_refused [of q x]
  by (cases "cq_accepts q x") (auto simp: cq_accepts_def)

text \<open>C6: over any sequence of pushes and pops of a queue, the elements stored before, followed
  by those accepted, are those delivered, followed by those still stored; none is lost, repeated
  or reordered, and a push is refused exactly when the capacity is used up.\<close>
theorem circular_queue_delivers:
  assumes "cq_invar q"
    and "fifo_run circular_queue_push circular_queue_pop q ops = (acc, del, q')"
  shows "cq_invar q' \<and> cq_elems q @ acc = del @ cq_elems q' \<and>
    (fst (circular_queue_push q' x) \<longleftrightarrow> length (cq_elems q') < capacity q')"
  using cq.run_delivers [OF assms] cq_push_accepts [of q' x] by blast

theorem circular_queue_delivers_witness:
  "cq_elems (circular_queue_init [0, 0 :: nat] 2) @ [5, 6] =
   [5] @ cq_elems \<lparr>buf = [5, 6], capacity = 2, front = 1, rear = 1\<rparr>"
proof -
  have "fifo_run circular_queue_push circular_queue_pop (circular_queue_init [0, 0 :: nat] 2)
      [Enq 5, Enq 6, Enq 7, Deq] = ([5, 6], [5], \<lparr>buf = [5, 6], capacity = 2, front = 1, rear = 1\<rparr>)"
    by (simp add: circular_queue_init_def circular_queue_push_def circular_queue_pop_def
      circular_queue_is_full_def circular_queue_is_empty_def Let_def)
  from circular_queue_delivers [OF conjunct1 [OF cq_init_invar] this] show ?thesis by simp
qed

end
