(* ===== verification/Cpu.thy ===== *)
theory Cpu
  imports Circular_Queue
begin

text \<open>
  The messages between processors of \<open>src/src/core/cpu.c\<close> and \<open>src/src/core/inc/cpu.h\<close>. Every
  processor has an interface with a bounded queue of messages; a sender appends to the queue of
  the target and then raises an inter-processor interrupt there, and the target handles all it
  finds. The state is an extensible record, \<open>machine\<close>, to which the components that send and
  handle messages add their own. The queues are used through the facts of the interpretation
  \<open>cq\<close> of the bounded first-in first-out contract.
\<close>

section \<open>Messages\<close>

record cpu_msg =
  msg_handler :: u32
  msg_event :: u32
  msg_data :: u64

definition IPI_MAX_EVENTS :: nat where
  "IPI_MAX_EVENTS = 253"

text \<open>
  The interfaces of all processors, the inter-processor interrupts that are pending, and the flag
  of \<open>struct cpu\<close> that a processor is handling messages.
\<close>

record machine =
  cpu_interfaces :: "nat \<Rightarrow> cpu_msg circular_queue"
  ipi_pending :: "nat \<Rightarrow> bool"
  handling_msgs :: "nat \<Rightarrow> bool"

text \<open>The part of \<open>cpu_init\<close> that concerns messages, and the numbering of the handlers by the master.\<close>

definition cpu_init :: "nat \<Rightarrow> 'a machine_scheme \<Rightarrow> 'a machine_scheme" where
  "cpu_init cpu_id st =
     st\<lparr>handling_msgs := (handling_msgs st)(cpu_id := False),
        cpu_interfaces := (cpu_interfaces st)
          (cpu_id := circular_queue_init (buf (cpu_interfaces st cpu_id)) IPI_MAX_EVENTS)\<rparr>"

fun number_handlers :: "nat \<Rightarrow> nat list \<Rightarrow> nat list" where
  "number_handlers i [] = []"
| "number_handlers i (_ # ids) = i # number_handlers (i + 1) ids"

definition interrupts_cpu_sendipi :: "nat \<Rightarrow> 'a machine_scheme \<Rightarrow> 'a machine_scheme" where
  "interrupts_cpu_sendipi target_cpu st = st\<lparr>ipi_pending := (ipi_pending st)(target_cpu := True)\<rparr>"

definition cpu_send_msg :: "nat \<Rightarrow> cpu_msg \<Rightarrow> 'a machine_scheme \<Rightarrow> 'a machine_scheme" where
  "cpu_send_msg trgtcpu msg st =
     (let (ok, q) = circular_queue_push (cpu_interfaces st trgtcpu) msg;
          st = st\<lparr>cpu_interfaces := (cpu_interfaces st)(trgtcpu := q)\<rparr>
      in if ok then interrupts_cpu_sendipi trgtcpu st else st)"

definition cpu_get_msg :: "nat \<Rightarrow> 'a machine_scheme \<Rightarrow> cpu_msg option \<times> 'a machine_scheme" where
  "cpu_get_msg c st =
     (let (r, q) = circular_queue_pop (cpu_interfaces st c)
      in (r, st\<lparr>cpu_interfaces := (cpu_interfaces st)(c := q)\<rparr>))"

text \<open>
  A handler runs on the processor that got the message. The table \<open>ipi_cpumsg_handlers\<close> is an
  argument: which handlers a build links is decided by the linker.
\<close>

type_synonym 'a msg_handler = "u32 \<Rightarrow> u64 \<Rightarrow> 'a \<Rightarrow> 'a outcome"

definition dispatch :: "'a msg_handler option list \<Rightarrow> cpu_msg \<Rightarrow> 'a \<Rightarrow> 'a outcome" where
  "dispatch handlers msg st =
     (if unat (msg_handler msg) < length handlers then
        (case handlers ! unat (msg_handler msg) of
           None \<Rightarrow> Inr st
         | Some h \<Rightarrow> h (msg_event msg) (msg_data msg) st)
      else Inr st)"

partial_function (option) cpu_msg_loop ::
    "('a machine_scheme) msg_handler option list \<Rightarrow> nat \<Rightarrow> 'a machine_scheme \<Rightarrow> 'a machine_scheme outcome option" where
  "cpu_msg_loop handlers c st =
     (case cpu_get_msg c st of
        (None, st') \<Rightarrow> Some (Inr st')
      | (Some msg, st') \<Rightarrow>
          (case dispatch handlers msg st' of
             Inl e \<Rightarrow> Some (Inl e)
           | Inr st'' \<Rightarrow> cpu_msg_loop handlers c st''))"

definition cpu_msg_handler ::
    "('a machine_scheme) msg_handler option list \<Rightarrow> nat \<Rightarrow> 'a machine_scheme \<Rightarrow> 'a machine_scheme outcome option" where
  "cpu_msg_handler handlers c st =
     map_option (\<lambda>r. obind r (\<lambda>st. Inr (st\<lparr>handling_msgs := (handling_msgs st)(c := False)\<rparr>)))
       (cpu_msg_loop handlers c (st\<lparr>handling_msgs := (handling_msgs st)(c := True)\<rparr>))"

section \<open>The messages that wait for a processor\<close>

definition machine_ok :: "'a machine_scheme \<Rightarrow> bool" where
  "machine_ok st \<longleftrightarrow> (\<forall>c. cq_invar (cpu_interfaces st c))"

definition inbox :: "'a machine_scheme \<Rightarrow> nat \<Rightarrow> cpu_msg list" where
  "inbox st c = cq_elems (cpu_interfaces st c)"

definition has_room :: "'a machine_scheme \<Rightarrow> nat \<Rightarrow> bool" where
  "has_room st c \<longleftrightarrow> length (inbox st c) < capacity (cpu_interfaces st c)"

lemma number_handlers_upt: "number_handlers i ids = [i..<i + length ids]"
proof (induction ids arbitrary: i)
  case (Cons a ids)
  then show ?case by (simp add: upt_rec [of i] Suc_le_eq)
qed simp

lemma cpu_send_msg_room:
  assumes "machine_ok st" and "has_room st t"
  shows "machine_ok (cpu_send_msg t msg st)"
    and "inbox (cpu_send_msg t msg st) = (inbox st)(t := inbox st t @ [msg])"
    and "ipi_pending (cpu_send_msg t msg st) = (ipi_pending st)(t := True)"
proof -
  obtain ok q where push: "circular_queue_push (cpu_interfaces st t) msg = (ok, q)" by (metis surj_pair)
  have "cq_accepts (cpu_interfaces st t) msg" using assms(2) by (simp add: has_room_def inbox_def cq_accepts_def)
  then have "ok" "cq_invar q" "cq_elems q = inbox st t @ [msg]"
    using cq.enq_accepted [of "cpu_interfaces st t" msg] assms(1) push by (auto simp: machine_ok_def inbox_def)
  then show "machine_ok (cpu_send_msg t msg st)"
    and "inbox (cpu_send_msg t msg st) = (inbox st)(t := inbox st t @ [msg])"
    and "ipi_pending (cpu_send_msg t msg st) = (ipi_pending st)(t := True)"
    using assms(1) push
    by (auto simp: cpu_send_msg_def interrupts_cpu_sendipi_def machine_ok_def inbox_def fun_eq_iff)
qed

text \<open>A full queue drops the message; nothing else happens.\<close>

lemma cpu_send_msg_full:
  assumes "machine_ok st" and "\<not> has_room st t"
  shows "cpu_send_msg t msg st = st"
proof -
  have "\<not> cq_accepts (cpu_interfaces st t) msg" using assms(2) by (simp add: has_room_def inbox_def cq_accepts_def)
  then have "circular_queue_push (cpu_interfaces st t) msg = (False, cpu_interfaces st t)"
    using cq.enq_refused [of "cpu_interfaces st t" msg] assms(1) by (simp add: machine_ok_def)
  then show ?thesis by (simp add: cpu_send_msg_def)
qed

lemma cpu_send_msg_more: "machine.more (cpu_send_msg t msg st) = machine.more st"
  by (simp add: cpu_send_msg_def interrupts_cpu_sendipi_def Let_def split: prod.splits)

lemma cpu_send_msg_ok: "machine_ok st \<Longrightarrow> machine_ok (cpu_send_msg t msg st)"
  using cpu_send_msg_room(1) [of st t msg] cpu_send_msg_full [of st t msg] by (cases "has_room st t") auto

lemma inbox_cpu_send_msg:
  "machine_ok st \<Longrightarrow>
     inbox (cpu_send_msg t msg st) = (if has_room st t then (inbox st)(t := inbox st t @ [msg]) else inbox st)"
  using cpu_send_msg_room(2) [of st t msg] cpu_send_msg_full [of st t msg] by simp

lemma circular_queue_push_capacity: "capacity (snd (circular_queue_push q x)) = capacity q"
  by (simp add: circular_queue_push_def Let_def)

lemma circular_queue_pop_capacity: "capacity (snd (circular_queue_pop q)) = capacity q"
  by (simp add: circular_queue_pop_def Let_def)

lemma capacity_cpu_send_msg:
  "capacity (cpu_interfaces (cpu_send_msg t msg st) c) = capacity (cpu_interfaces st c)"
  using circular_queue_push_capacity [of "cpu_interfaces st t" msg]
  by (auto simp: cpu_send_msg_def interrupts_cpu_sendipi_def Let_def split: prod.splits)

lemma capacity_cpu_get_msg:
  "capacity (cpu_interfaces (snd (cpu_get_msg t st)) c) = capacity (cpu_interfaces st c)"
  using circular_queue_pop_capacity [of "cpu_interfaces st t"]
  by (auto simp: cpu_get_msg_def split: prod.splits)

lemma cpu_get_msg_cases:
  assumes "machine_ok st"
  shows "fst (cpu_get_msg c st) = (case inbox st c of [] \<Rightarrow> None | m # _ \<Rightarrow> Some m)"
    and "machine_ok (snd (cpu_get_msg c st))"
    and "inbox (snd (cpu_get_msg c st)) = (inbox st)(c := tl (inbox st c))"
    and "machine.more (snd (cpu_get_msg c st)) = machine.more st"
proof -
  obtain r q where pop: "circular_queue_pop (cpu_interfaces st c) = (r, q)" by (metis surj_pair)
  then have "r = (case inbox st c of [] \<Rightarrow> None | m # _ \<Rightarrow> Some m)" "cq_invar q" "cq_elems q = tl (inbox st c)"
    using cq.deq_result [of "cpu_interfaces st c"] cq.deq_rest [of "cpu_interfaces st c"] assms
    by (auto simp: machine_ok_def inbox_def)
  then show "fst (cpu_get_msg c st) = (case inbox st c of [] \<Rightarrow> None | m # _ \<Rightarrow> Some m)"
    and "machine_ok (snd (cpu_get_msg c st))"
    and "inbox (snd (cpu_get_msg c st)) = (inbox st)(c := tl (inbox st c))"
    and "machine.more (snd (cpu_get_msg c st)) = machine.more st"
    using assms pop by (auto simp: cpu_get_msg_def machine_ok_def inbox_def fun_eq_iff)
qed

text \<open>The same message to several processors: each gets it once, if its queue has room.\<close>

lemma send_to_all:
  assumes "machine_ok st" and "distinct ts"
  shows "machine_ok (fold (\<lambda>t. cpu_send_msg t msg) ts st)"
    and "inbox (fold (\<lambda>t. cpu_send_msg t msg) ts st) d =
      inbox st d @ (if d \<in> set ts \<and> has_room st d then [msg] else [])"
    and "machine.more (fold (\<lambda>t. cpu_send_msg t msg) ts st) = machine.more st"
proof -
  have "machine_ok (fold (\<lambda>t. cpu_send_msg t msg) ts st) \<and>
    inbox (fold (\<lambda>t. cpu_send_msg t msg) ts st) d =
      inbox st d @ (if d \<in> set ts \<and> has_room st d then [msg] else []) \<and>
    machine.more (fold (\<lambda>t. cpu_send_msg t msg) ts st) = machine.more st"
    using assms
  proof (induction ts arbitrary: st)
    case (Cons t ts)
    let ?st = "cpu_send_msg t msg st"
    have box: "inbox ?st = (if has_room st t then (inbox st)(t := inbox st t @ [msg]) else inbox st)"
      using inbox_cpu_send_msg [OF Cons.prems(1)] .
    have "has_room ?st d = has_room st d" if "d \<noteq> t"
      using that box capacity_cpu_send_msg [of t msg st d] by (simp add: has_room_def)
    with Cons.IH [of ?st] cpu_send_msg_ok [OF Cons.prems(1), of t msg] box Cons.prems(2)
      cpu_send_msg_more [of t msg st] show ?case by auto
  qed simp
  then show "machine_ok (fold (\<lambda>t. cpu_send_msg t msg) ts st)"
    and "inbox (fold (\<lambda>t. cpu_send_msg t msg) ts st) d =
      inbox st d @ (if d \<in> set ts \<and> has_room st d then [msg] else [])"
    and "machine.more (fold (\<lambda>t. cpu_send_msg t msg) ts st) = machine.more st" by blast+
qed

section \<open>Handling\<close>

text \<open>
  A handler that does not touch the queue of its own processor: it may send to others. The loop
  then handles exactly the messages that were there, in the order of their arrival, and ends.
\<close>

definition leaves_inbox :: "nat \<Rightarrow> ('a machine_scheme) msg_handler option list \<Rightarrow> bool" where
  "leaves_inbox c handlers \<longleftrightarrow>
     (\<forall>msg st st'. machine_ok st \<longrightarrow> dispatch handlers msg st = Inr st' \<longrightarrow>
        machine_ok st' \<and> inbox st' c = inbox st c)"

text \<open>The reference: take and handle the messages one by one.\<close>

fun handle_all :: "('a machine_scheme) msg_handler option list \<Rightarrow> nat \<Rightarrow> nat \<Rightarrow> 'a machine_scheme \<Rightarrow> 'a machine_scheme outcome" where
  "handle_all handlers c 0 st = Inr (snd (cpu_get_msg c st))"
| "handle_all handlers c (Suc n) st =
     obind (dispatch handlers (hd (inbox st c)) (snd (cpu_get_msg c st))) (handle_all handlers c n)"

lemma cpu_msg_loop_handles_all:
  assumes "machine_ok st" and "leaves_inbox c handlers"
  shows "cpu_msg_loop handlers c st = Some (handle_all handlers c (length (inbox st c)) st) \<and>
    (\<forall>st'. handle_all handlers c (length (inbox st c)) st = Inr st' \<longrightarrow> machine_ok st' \<and> inbox st' c = [])"
  using assms(1)
proof (induction "inbox st c" arbitrary: st)
  case Nil
  note get = cpu_get_msg_cases [OF Nil(2), of c]
  have e: "inbox st c = []" using Nil(1) by simp
  have "fst (cpu_get_msg c st) = None" using get(1) e by simp
  then have "cpu_msg_loop handlers c st = Some (Inr (snd (cpu_get_msg c st)))"
    by (subst cpu_msg_loop.simps) (cases "cpu_get_msg c st", simp)
  then show ?case using e get(2,3) by simp
next
  case (Cons m ms)
  note get = cpu_get_msg_cases [OF Cons(3), of c]
  let ?st = "snd (cpu_get_msg c st)"
  have e: "inbox st c = m # ms" using Cons(2) by simp
  have box: "inbox ?st c = ms" using get(3) e by simp
  have "fst (cpu_get_msg c st) = Some m" using get(1) e by simp
  then have loop: "cpu_msg_loop handlers c st =
      (case dispatch handlers m ?st of Inl e \<Rightarrow> Some (Inl e) | Inr st'' \<Rightarrow> cpu_msg_loop handlers c st'')"
    by (subst cpu_msg_loop.simps) (cases "cpu_get_msg c st", simp)
  show ?case
  proof (cases "dispatch handlers m ?st")
    case (Inl err)
    then show ?thesis using loop e by simp
  next
    case (Inr st2)
    then have "machine_ok st2" "inbox st2 c = ms"
      using assms(2) get(2) box unfolding leaves_inbox_def by blast+
    with Cons(1) [of st2] Inr loop e show ?thesis by simp
  qed
qed

text \<open>A single message that waits: the handler runs once, on the state with an empty queue.\<close>

lemma cpu_msg_handler_one:
  assumes "machine_ok st" and "inbox st c = [m]"
    and "\<And>s. machine_ok s \<Longrightarrow> machine.more s = machine.more st \<Longrightarrow>
       \<exists>s'. dispatch handlers m s = Inr s' \<and> machine_ok s' \<and> inbox s' c = inbox s c \<and> Q s'"
    and "\<And>s s'. Q s \<Longrightarrow> machine.more s = machine.more s' \<Longrightarrow> Q s'"
  shows "\<exists>st'. cpu_msg_handler handlers c st = Some (Inr st') \<and> machine_ok st' \<and> inbox st' c = [] \<and> Q st'"
proof -
  let ?st = "st\<lparr>handling_msgs := (handling_msgs st)(c := True)\<rparr>"
  have ok: "machine_ok ?st" and box: "inbox ?st c = [m]" and more: "machine.more ?st = machine.more st"
    using assms(1,2) by (simp_all add: machine_ok_def inbox_def)
  note get = cpu_get_msg_cases [OF ok, of c]
  obtain s1 where g1: "cpu_get_msg c ?st = (Some m, s1)" using get(1) box by (cases "cpu_get_msg c ?st") simp
  have s1: "machine_ok s1" "inbox s1 c = []" "machine.more s1 = machine.more st"
    using get(2-4) g1 box more by simp_all
  obtain s2 where d: "dispatch handlers m s1 = Inr s2" and s2: "machine_ok s2" "inbox s2 c = []" "Q s2"
    using assms(3) [OF s1(1,3)] s1(2) by auto
  note get2 = cpu_get_msg_cases [OF s2(1), of c]
  obtain s3 where g2: "cpu_get_msg c s2 = (None, s3)" using get2(1) s2(2) by (cases "cpu_get_msg c s2") simp
  have s3: "machine_ok s3" "inbox s3 c = []" "machine.more s2 = machine.more s3"
    using get2(2-4) g2 s2(2) by simp_all
  have "cpu_msg_loop handlers c s2 = Some (Inr s3)" by (subst cpu_msg_loop.simps) (simp add: g2)
  then have "cpu_msg_loop handlers c ?st = Some (Inr s3)" by (subst cpu_msg_loop.simps) (simp add: g1 d)
  then have h: "cpu_msg_handler handlers c st = Some (Inr (s3\<lparr>handling_msgs := (handling_msgs s3)(c := False)\<rparr>))"
    by (simp add: cpu_msg_handler_def)
  have "Q (s3\<lparr>handling_msgs := (handling_msgs s3)(c := False)\<rparr>)"
    by (rule assms(4) [OF s2(3)]) (simp add: s3(3))
  with s3(1,2) h show ?thesis by (auto simp: machine_ok_def inbox_def)
qed

text \<open>The interfaces after every processor ran \<open>cpu_init\<close>: nothing waits, and there is room for messages.\<close>

definition idle_interfaces :: "nat \<Rightarrow> cpu_msg circular_queue" where
  "idle_interfaces c =
     circular_queue_init (replicate IPI_MAX_EVENTS \<lparr>msg_handler = 0, msg_event = 0, msg_data = 0\<rparr>) IPI_MAX_EVENTS"

lemma idle_machine:
  assumes "cpu_interfaces st = idle_interfaces"
  shows "machine_ok st" and "inbox st c = []" and "has_room st c"
proof -
  have "cq_invar (idle_interfaces c) \<and> cq_elems (idle_interfaces c) = []" for c
    unfolding idle_interfaces_def by (rule cq_init_invar) (simp_all add: IPI_MAX_EVENTS_def)
  moreover have "capacity (idle_interfaces c) = 253"
    by (simp add: idle_interfaces_def circular_queue_init_def IPI_MAX_EVENTS_def)
  ultimately show "machine_ok st" and "inbox st c = []" and "has_room st c"
    using assms by (simp_all add: machine_ok_def inbox_def has_room_def del: length_cq_elems)
qed

end
