(* ===== verification/Bit_Utils.thy ===== *)
theory Bit_Utils
  imports Prelude
begin

text \<open>
  The bit operations of \<open>src/src/lib/inc/bit.h\<close> and the alignment and range helpers of
  \<open>src/src/lib/inc/util.h\<close>. The operations of \<open>BIT_OPS_GEN\<close> are one polymorphic definition
  each, over the word width at which the macro is instantiated. The lemmas say what every
  operation does to the single bits, that extraction inverts insertion, that the two search
  loops compute the lowest set bit and the number of set bits, and that the range tests on
  64-bit addresses decide inclusion and intersection of address intervals.
\<close>

unbundle bit_operations_syntax

declare push_bit_Suc [simp del]

section \<open>Masks and bit fields\<close>

text \<open>
  A shift instruction reads the low bits of the shift amount only (\<open>bit.h\<close> says so of Arm
  and RISC-V); \<open>LEN - 1\<close> is a 64-bit subtraction. Within the documented range of \<open>LEN\<close> the
  reduction of the amount does nothing.
\<close>

definition shl :: "'a::len word \<Rightarrow> nat \<Rightarrow> 'a word" where
  "shl w n = push_bit (n mod LENGTH('a)) w"

definition pred64 :: "nat \<Rightarrow> nat" where
  "pred64 n = (n + 18446744073709551615) mod 18446744073709551616"

definition BIT_MASK :: "nat \<Rightarrow> nat \<Rightarrow> 'a::len word" where
  "BIT_MASK off l = shl (shl (shl 1 (pred64 l)) 1 - 1) off"

definition bit_get :: "'a::len word \<Rightarrow> nat \<Rightarrow> 'a word" where
  "bit_get w off = w AND shl 1 off"

definition bit_set :: "'a::len word \<Rightarrow> nat \<Rightarrow> 'a word" where
  "bit_set w off = w OR shl 1 off"

definition bit_clear :: "'a::len word \<Rightarrow> nat \<Rightarrow> 'a word" where
  "bit_clear w off = w AND NOT (shl 1 off)"

definition bit_extract :: "'a::len word \<Rightarrow> nat \<Rightarrow> nat \<Rightarrow> 'a word" where
  "bit_extract w off l = drop_bit (off mod LENGTH('a)) w AND BIT_MASK 0 l"

definition bit_insert :: "'a::len word \<Rightarrow> 'a word \<Rightarrow> nat \<Rightarrow> nat \<Rightarrow> 'a word" where
  "bit_insert w v off l = (NOT (BIT_MASK off l) AND w) OR shl (BIT_MASK 0 l AND v) off"

subsection \<open>Their effect on single bits\<close>

lemma pred64_pos [simp]: "0 < l \<Longrightarrow> l \<le> 18446744073709551616 \<Longrightarrow> pred64 l = l - 1"
  by (simp add: pred64_def mod_if)

lemma bit_shl:
  "n < LENGTH('a) \<Longrightarrow> bit (shl (w :: 'a::len word) n) i \<longleftrightarrow> n \<le> i \<and> i < LENGTH('a) \<and> bit w (i - n)"
  by (auto simp: shl_def bit_push_bit_iff)

lemma bit_shl_1 [simp]:
  "n < LENGTH('a) \<Longrightarrow> bit (shl (1 :: 'a::len word) n) i \<longleftrightarrow> i = n"
  by (auto simp: bit_shl bit_1_iff)

lemma push_bit_1_pred: "0 < l \<Longrightarrow> push_bit 1 (push_bit (l - 1) (1 :: 'a::len word)) = push_bit l 1"
  by (metis One_nat_def Suc_pred push_bit_push_bit plus_1_eq_Suc)

lemma BIT_MASK_eq:
  assumes "0 < l" and "l \<le> LENGTH('a)" and "off < LENGTH('a)"
    and "1 < LENGTH('a)" and "LENGTH('a) \<le> 64"
  shows "(BIT_MASK off l :: 'a::len word) = push_bit off (mask l)"
proof -
  have "shl (shl 1 (pred64 l)) 1 = (push_bit l 1 :: 'a word)"
    using assms push_bit_1_pred [of l, where 'a = 'a] by (simp add: shl_def)
  then have "shl (shl 1 (pred64 l)) 1 - 1 = (mask l :: 'a word)"
    by (simp add: mask_eq_exp_minus_1)
  with assms show ?thesis by (simp add: BIT_MASK_def shl_def)
qed

lemma bit_BIT_MASK:
  assumes "0 < l" and "l \<le> LENGTH('a)" and "off < LENGTH('a)"
    and "1 < LENGTH('a)" and "LENGTH('a) \<le> 64"
  shows "bit (BIT_MASK off l :: 'a::len word) i \<longleftrightarrow> off \<le> i \<and> i < off + l \<and> i < LENGTH('a)"
  using assms by (auto simp: BIT_MASK_eq bit_push_bit_iff bit_mask_iff)

lemma bit_get_eq_0:
  "off < LENGTH('a) \<Longrightarrow> bit_get (w :: 'a::len word) off = 0 \<longleftrightarrow> \<not> bit w off"
  by (simp add: bit_get_def shl_def)

lemma bit_bit_set:
  "off < LENGTH('a) \<Longrightarrow> bit (bit_set (w :: 'a::len word) off) i \<longleftrightarrow> bit w i \<or> i = off"
  by (auto simp: bit_set_def bit_or_iff)

lemma bit_bit_clear:
  "off < LENGTH('a) \<Longrightarrow> bit (bit_clear (w :: 'a::len word) off) i \<longleftrightarrow> bit w i \<and> i \<noteq> off"
  by (auto simp: bit_clear_def bit_and_iff bit_not_iff bit_imp_le_length)

lemma bit_bit_extract:
  fixes w :: "'a::len word"
  assumes "0 < l" and "l \<le> LENGTH('a)" and "off < LENGTH('a)"
    and "1 < LENGTH('a)" and "LENGTH('a) \<le> 64"
  shows "bit (bit_extract w off l) i \<longleftrightarrow> i < l \<and> bit w (off + i)"
  using assms bit_imp_le_length [of w "off + i"]
  by (auto simp: bit_extract_def bit_and_iff bit_drop_bit_eq bit_BIT_MASK)

lemma bit_bit_insert:
  fixes w v :: "'a::len word"
  assumes "0 < l" and "off + l \<le> LENGTH('a)" and "1 < LENGTH('a)" and "LENGTH('a) \<le> 64"
  shows "bit (bit_insert w v off l) i \<longleftrightarrow>
    (if off \<le> i \<and> i < off + l then bit v (i - off) else bit w i)"
  using assms bit_imp_le_length [of w i] bit_imp_le_length [of v "i - off"]
  by (auto simp: bit_insert_def bit_and_iff bit_or_iff bit_not_iff bit_BIT_MASK bit_shl)

section \<open>The search loops\<close>

text \<open>
  \<open>mask <<= 1\<close> moves the lowest set bit of the mask up by one, until it falls out of the word.
\<close>

definition mask_rank :: "'a::len word \<Rightarrow> nat" where
  "mask_rank m = (if m = 0 then 0 else Suc LENGTH('a) - (LEAST n. bit m n))"

lemma mask_rank_shift:
  fixes m :: "'a::len word"
  assumes "m \<noteq> 0"
  shows "mask_rank (push_bit 1 m) < mask_rank m"
proof -
  define k where "k = (LEAST n. bit m n)"
  from assms have "\<exists>n. bit m n" by (auto simp: bit_eq_iff)
  then have bk: "bit m k" unfolding k_def by (rule LeastI_ex)
  then have kl: "k < LENGTH('a)" by (rule bit_imp_le_length)
  show ?thesis
  proof (cases "push_bit 1 m = 0")
    case True
    with assms kl show ?thesis by (simp add: mask_rank_def k_def [symmetric])
  next
    case False
    then have "\<exists>n. bit (push_bit 1 m) n" by (auto simp: bit_eq_iff)
    then have "bit (push_bit 1 m) (LEAST n. bit (push_bit 1 m) n)" by (rule LeastI_ex)
    then obtain j where j: "(LEAST n. bit (push_bit 1 m) n) = Suc j" "bit m j"
      by (auto simp: bit_push_bit_iff Suc_le_eq dest!: gr0_implies_Suc)
    have "k \<le> j" unfolding k_def using j(2) by (rule Least_le)
    with j(1) assms False kl show ?thesis by (simp add: mask_rank_def k_def [symmetric])
  qed
qed

function bit_ffs_loop :: "'a::len word \<Rightarrow> 'a word \<Rightarrow> nat \<Rightarrow> int" where
  "bit_ffs_loop w m pos =
     (if m \<noteq> 0 then
        if m AND w \<noteq> 0 then int pos
        else bit_ffs_loop w (push_bit 1 m) (Suc pos)
      else - 1)"
  by pat_completeness auto
termination
  by (relation "measure (\<lambda>(w, m, pos). mask_rank m)") (auto simp: mask_rank_shift simp del: One_nat_def)

definition bit_ffs :: "'a::len word \<Rightarrow> int" where
  "bit_ffs w = bit_ffs_loop w 1 0"

function bit_count_loop :: "'a::len word \<Rightarrow> 'a word \<Rightarrow> nat \<Rightarrow> nat" where
  "bit_count_loop w m count =
     (if m \<noteq> 0 then
        bit_count_loop w (push_bit 1 m) (if m AND w \<noteq> 0 then count + 1 else count)
      else count)"
  by pat_completeness auto
termination
  by (relation "measure (\<lambda>(w, m, count). mask_rank m)") (auto simp: mask_rank_shift simp del: One_nat_def)

definition bit_count :: "'a::len word \<Rightarrow> nat" where
  "bit_count w = bit_count_loop w 1 0"

declare bit_ffs_loop.simps [simp del] bit_count_loop.simps [simp del]

lemma push_bit_1_exp: "push_bit 1 (2 ^ k) = (2 ^ Suc k :: 'a::len word)"
  by (simp add: push_bit_eq_mult)

lemma exp_eq_0_word: "(2 ^ k = (0 :: 'a::len word)) \<longleftrightarrow> LENGTH('a) \<le> k"
  by (simp add: exp_eq_zero_iff)

lemma exp_and_eq_0: "(2 ^ k AND (w :: 'a::len word) = 0) \<longleftrightarrow> \<not> bit w k"
  by (simp add: and.commute)

lemma bit_ffs_loop_exp:
  fixes w :: "'a::len word"
  assumes "k \<le> LENGTH('a)" and "\<And>j. j < k \<Longrightarrow> \<not> bit w j"
  shows "bit_ffs_loop w (2 ^ k) k = (if w = 0 then - 1 else int (LEAST n. bit w n))"
  using assms
proof (induction "LENGTH('a) - k" arbitrary: k)
  case 0
  then have "\<not> bit w j" for j
    using bit_imp_le_length [of w j] by (cases "j < k") auto
  then have "w = 0" by (auto simp: bit_eq_iff)
  with 0 show ?case by (simp add: bit_ffs_loop.simps exp_eq_0_word)
next
  case (Suc d)
  then have k: "k < LENGTH('a)" by simp
  show ?case
  proof (cases "bit w k")
    case True
    then have "(LEAST n. bit w n) = k"
      using Suc.prems(2) by (intro Least_equality) (auto simp: not_less [symmetric])
    with True k show ?thesis
      by (auto simp: bit_ffs_loop.simps [of w "2 ^ k"] exp_eq_0_word exp_and_eq_0)
  next
    case False
    with Suc.prems have "\<And>j. j < Suc k \<Longrightarrow> \<not> bit w j" by (auto simp: less_Suc_eq)
    with Suc.hyps k have IH: "bit_ffs_loop w (2 ^ Suc k) (Suc k) =
        (if w = 0 then - 1 else int (LEAST n. bit w n))"
      by (intro Suc.hyps(1)) auto
    have "bit_ffs_loop w (2 ^ k) k = bit_ffs_loop w (2 ^ Suc k) (Suc k)"
      using False k
      by (simp only: bit_ffs_loop.simps [of w "2 ^ k"] exp_eq_0_word exp_and_eq_0 push_bit_1_exp)
        simp
    with IH show ?thesis by simp
  qed
qed

lemma bit_count_loop_exp:
  fixes w :: "'a::len word"
  assumes "k \<le> LENGTH('a)"
  shows "bit_count_loop w (2 ^ k) c = c + card {n. k \<le> n \<and> bit w n}"
  using assms
proof (induction "LENGTH('a) - k" arbitrary: k c)
  case 0
  then have "{n. k \<le> n \<and> bit w n} = {}" by (auto dest: bit_imp_le_length)
  moreover from 0 have "LENGTH('a) = k" by simp
  ultimately show ?case by (simp only: bit_count_loop.simps [of w "2 ^ k"] exp_eq_0_word) simp
next
  case (Suc d)
  then have k: "k < LENGTH('a)" by simp
  have fin: "finite {n. Suc k \<le> n \<and> bit w n}"
    by (rule finite_subset [of _ "{..<LENGTH('a)}"]) (auto dest: bit_imp_le_length)
  have upper: "{n. k \<le> n \<and> bit w n} =
      (if bit w k then insert k {n. Suc k \<le> n \<and> bit w n} else {n. Suc k \<le> n \<and> bit w n})"
    by (auto simp: Suc_le_eq order.order_iff_strict)
  have IH: "bit_count_loop w (2 ^ Suc k) c' = c' + card {n. Suc k \<le> n \<and> bit w n}" for c'
    using Suc.hyps k by (intro Suc.hyps(1)) auto
  have "bit_count_loop w (2 ^ k) c = bit_count_loop w (2 ^ Suc k) (if bit w k then c + 1 else c)"
    using k
    by (simp only: bit_count_loop.simps [of w "2 ^ k"] exp_eq_0_word exp_and_eq_0 push_bit_1_exp)
      simp
  with fin show ?case by (simp add: IH upper del: power_Suc)
qed

lemma bit_ffs_eq:
  "bit_ffs w = (if w = 0 then - 1 else int (LEAST n. bit w n))"
  using bit_ffs_loop_exp [of 0 w] by (simp add: bit_ffs_def)

lemma bit_count_eq_card: "bit_count w = card {n. bit w n}"
  using bit_count_loop_exp [of 0 w 0] by (simp add: bit_count_def)

section \<open>Alignment\<close>

text \<open>\<open>PAGE_SIZE\<close> of the MMU architectures (\<open>arch/bao.h\<close> of Armv8-A and RISC-V).\<close>

definition PAGE_SIZE :: u64 where
  "PAGE_SIZE = 4096"

definition ALIGN :: "u64 \<Rightarrow> u64 \<Rightarrow> u64" where
  "ALIGN v to = ((v + to - 1) div to) * to"

definition ALIGN_FLOOR :: "u64 \<Rightarrow> u64 \<Rightarrow> u64" where
  "ALIGN_FLOOR v to = v AND NOT (to - 1)"

definition IS_ALIGNED :: "u64 \<Rightarrow> u64 \<Rightarrow> bool" where
  "IS_ALIGNED v to \<longleftrightarrow> v mod to = 0"

definition NUM_PAGES :: "u64 \<Rightarrow> u64" where
  "NUM_PAGES sz = ALIGN sz PAGE_SIZE div PAGE_SIZE"

lemma unat_PAGE_SIZE [simp]: "unat PAGE_SIZE = 4096"
  by (simp add: PAGE_SIZE_def)

text \<open>The least multiple of \<open>to\<close> at or above \<open>v\<close>, as long as it can be computed in 64 bits.\<close>

lemma unat_ALIGN:
  assumes "0 < unat to" and "unat v + unat to \<le> 2 ^ 64"
  shows "unat (ALIGN v to) = (unat v + unat to - 1) div unat to * unat to"
proof -
  have le: "1 \<le> v + to \<or> v + to = 0"
    by (metis not_less word_less_1)
  have "unat (v + to - 1) = unat v + unat to - 1"
  proof (cases "unat v + unat to = 2 ^ 64")
    case True
    then have "unat (v + to) = 0" by (simp add: unat_word_ariths)
    then have "v + to = 0" by (simp add: word_unat_eq_iff)
    with True show ?thesis by (simp add: unsigned_minus_1_eq_mask mask_eq_exp_minus_1)
  next
    case False
    with assms have "unat (v + to) = unat v + unat to"
      by (intro unat_add_no_wrap) simp
    moreover from this assms have "1 \<le> v + to" by (simp add: word_le_nat_alt)
    ultimately show ?thesis by (simp add: unat_sub)
  qed
  then have q: "unat ((v + to - 1) div to) = (unat v + unat to - 1) div unat to"
    by (simp add: unat_div)
  have "(unat v + unat to - 1) div unat to * unat to \<le> unat v + unat to - 1"
    by (rule div_times_less_eq_dividend)
  also have "\<dots> < 2 ^ 64" using assms by simp
  finally have "unat ((v + to - 1) div to) * unat to < 2 ^ LENGTH(64)" by (simp only: q) simp
  from unat_mult_no_wrap [OF this] q show ?thesis by (simp add: ALIGN_def)
qed

lemma NUM_PAGES_unat:
  assumes "unat sz + 4096 \<le> 2 ^ 64"
  shows "unat (NUM_PAGES sz) = (unat sz + 4095) div 4096"
  using assms unat_ALIGN [of PAGE_SIZE sz] by (simp add: NUM_PAGES_def unat_div)

section \<open>Address ranges\<close>

definition range_overlap_range :: "u64 \<Rightarrow> u64 \<Rightarrow> u64 \<Rightarrow> u64 \<Rightarrow> bool" where
  "range_overlap_range base1 size1 base2 size2 =
     (let reg1_lim = base1 + size1 - 1; reg2_lim = base2 + size2 - 1
      in (base1 \<ge> base2 \<and> base1 \<le> reg2_lim) \<or> (reg1_lim \<ge> base2 \<and> reg1_lim \<le> reg2_lim) \<or>
         (base1 \<le> base2 \<and> reg1_lim \<ge> reg2_lim))"

definition range_in_range :: "u64 \<Rightarrow> u64 \<Rightarrow> u64 \<Rightarrow> u64 \<Rightarrow> bool" where
  "range_in_range base1 size1 base2 size2 =
     (let limit1 = base1 + size1; limit2 = base2 + size2;
          limit1 = (if limit1 < base1 then ULONG_MAX else limit1);
          limit2 = (if limit2 < base2 then ULONG_MAX else limit2)
      in base1 \<ge> base2 \<and> limit1 \<le> limit2)"

definition in_range :: "u64 \<Rightarrow> u64 \<Rightarrow> u64 \<Rightarrow> bool" where
  "in_range addr base sz = range_in_range addr 1 base sz"

text \<open>The addresses of a range, as unbounded numbers.\<close>

definition addrs :: "u64 \<Rightarrow> u64 \<Rightarrow> nat set" where
  "addrs base sz = {unat base ..< unat base + unat sz}"

definition fits :: "u64 \<Rightarrow> u64 \<Rightarrow> bool" where
  "fits base sz \<longleftrightarrow> unat base + unat sz < 2 ^ 64"

lemma unat_ULONG_MAX [simp]: "unat ULONG_MAX = 2 ^ 64 - 1"
  by (simp add: ULONG_MAX_def unsigned_minus_1_eq_mask mask_eq_exp_minus_1)

lemma unat_saturated_limit:
  "unat (if base + sz < base then ULONG_MAX else base + sz) =
   min (unat base + unat sz) (2 ^ 64 - 1)" for base sz :: u64
proof (cases "unat base + unat sz < 2 ^ 64")
  case True
  then have "unat (base + sz) = unat base + unat sz"
    by (intro unat_add_no_wrap) simp
  with True show ?thesis by (simp add: word_less_nat_alt)
next
  case False
  have "unat base < 2 ^ 64" "unat sz < 2 ^ 64"
    using unsigned_less [of base] unsigned_less [of sz] by simp_all
  moreover from this False have "unat (base + sz) = unat base + unat sz - 2 ^ 64"
    by (simp add: unat_word_ariths mod_if)
  ultimately show ?thesis using False by (simp add: word_less_nat_alt)
qed

lemma range_in_range_iff:
  "range_in_range base1 size1 base2 size2 \<longleftrightarrow>
     unat base2 \<le> unat base1 \<and>
     min (unat base1 + unat size1) (2 ^ 64 - 1) \<le> min (unat base2 + unat size2) (2 ^ 64 - 1)"
  unfolding range_in_range_def Let_def word_le_nat_alt unat_saturated_limit by simp

lemma range_in_range_subset:
  assumes "fits base1 size1" and "fits base2 size2" and "0 < size1"
  shows "range_in_range base1 size1 base2 size2 \<longleftrightarrow> addrs base1 size1 \<subseteq> addrs base2 size2"
proof -
  from assms(3) have "0 < unat size1" by (simp add: word_less_nat_alt)
  with assms(1,2) show ?thesis
    by (auto simp: range_in_range_iff addrs_def fits_def ivl_subset)
qed

lemma in_range_iff:
  assumes "fits base sz" and "addr < ULONG_MAX"
  shows "in_range addr base sz \<longleftrightarrow> unat addr \<in> addrs base sz"
  using assms
  by (auto simp: in_range_def range_in_range_iff addrs_def fits_def word_less_nat_alt)

lemma range_overlap_range_iff:
  assumes "fits base1 size1" and "fits base2 size2" and "0 < size1" and "0 < size2"
  shows "range_overlap_range base1 size1 base2 size2 \<longleftrightarrow>
    addrs base1 size1 \<inter> addrs base2 size2 \<noteq> {}"
proof -
  have lim: "unat (b + s - 1) = unat b + unat s - 1" if "fits b s" "0 < s" for b s :: u64
  proof -
    from that have "unat (b + s) = unat b + unat s"
      by (intro unat_add_no_wrap) (simp add: fits_def)
    moreover from this that have "1 \<le> b + s" by (simp add: word_le_nat_alt word_less_nat_alt)
    ultimately show ?thesis by (simp add: unat_sub)
  qed
  have "0 < unat size1" "0 < unat size2" using assms(3,4) by (simp_all add: word_less_nat_alt)
  then show ?thesis using lim [OF assms(1,3)] lim [OF assms(2,4)]
    by (auto simp: range_overlap_range_def Let_def word_le_nat_alt addrs_def)
qed

section \<open>The field accessors and the search loops\<close>

lemma bit_extract_insert_same:
  fixes w v :: "'a::len word"
  assumes "0 < l" and "off + l \<le> LENGTH('a)" and "1 < LENGTH('a)" and "LENGTH('a) \<le> 64"
  shows "bit_extract (bit_insert w v off l) off l = v AND BIT_MASK 0 l"
  using assms
  by (intro bit_word_eqI) (auto simp: bit_bit_extract bit_bit_insert bit_and_iff bit_BIT_MASK)

lemma bit_extract_insert_other:
  fixes w v :: "'a::len word"
  assumes "0 < l" and "off + l \<le> LENGTH('a)" and "1 < LENGTH('a)" and "LENGTH('a) \<le> 64"
    and "0 < l'" and "off' + l' \<le> off \<or> off + l \<le> off'" and "off' + l' \<le> LENGTH('a)"
  shows "bit_extract (bit_insert w v off l) off' l' = bit_extract w off' l'"
  using assms by (intro bit_word_eqI) (auto simp: bit_bit_extract bit_bit_insert)

lemma bit_insert_extract_same:
  fixes w :: "'a::len word"
  assumes "0 < l" and "off + l \<le> LENGTH('a)" and "1 < LENGTH('a)" and "LENGTH('a) \<le> 64"
  shows "bit_insert w (bit_extract w off l) off l = w"
proof (rule bit_word_eqI)
  fix n assume "n < LENGTH('a)"
  have "bit (bit_extract w off l) (n - off) = bit w n" if "off \<le> n" "n < off + l"
    using assms that by (simp add: bit_bit_extract) linarith
  then show "bit (bit_insert w (bit_extract w off l) off l) n = bit w n"
    using assms by (simp add: bit_bit_insert)
qed



end
