(* ===== verification/Bitmap.thy ===== *)
theory Bitmap
  imports Bit_Utils
begin

text \<open>
  The bitmaps of \<open>src/src/lib/inc/bitmap.h\<close> and \<open>src/src/lib/bitmap.c\<close>. A \<open>bitmap_t*\<close> is the
  memory from its address on, a function from granule numbers to 32-bit granules: as in C there
  is no bound, and a bit beyond the end of a bitmap is a bit of whatever is stored behind it.

  The operations are characterised by the bits they read and write: the two search functions
  return the n-th bit and the first run of n bits of the wanted value, \<open>bitmap_count_consecutive\<close>
  counts a run of equal bits, and the update functions change exactly the bits of their range.
  Bit numbers and sizes are naturals: a bitmap has fewer than \<open>2 ^ 63\<close> bits, so that the
  conversions between \<open>size_t\<close> and \<open>ssize_t\<close> change nothing.
\<close>

unbundle bit_operations_syntax

type_synonym bitmap = "nat \<Rightarrow> u32"

abbreviation BITMAP_GRANULE_LEN :: nat where
  "BITMAP_GRANULE_LEN \<equiv> 32"

abbreviation BITMAP_SET :: bool where "BITMAP_SET \<equiv> True"
abbreviation BITMAP_NOT_SET :: bool where "BITMAP_NOT_SET \<equiv> False"

definition SIZE_MAX :: nat where
  "SIZE_MAX = 18446744073709551615"

definition BITMAP_GRANULE_MASK :: "nat \<Rightarrow> nat \<Rightarrow> u32" where
  "BITMAP_GRANULE_MASK off l = BIT_MASK off l"

definition BITMAP_SIZE :: "nat \<Rightarrow> nat \<Rightarrow> nat" where
  "BITMAP_SIZE num_bits bits_per_unit =
     num_bits div bits_per_unit + (if num_bits mod bits_per_unit \<noteq> 0 then 1 else 0)"

definition BITMAP_SIZE_IN_GRANULE :: "nat \<Rightarrow> nat" where
  "BITMAP_SIZE_IN_GRANULE num_bits = BITMAP_SIZE num_bits BITMAP_GRANULE_LEN"

definition BITMAP_SIZE_IN_BYTES :: "nat \<Rightarrow> nat" where
  "BITMAP_SIZE_IN_BYTES num_bits = BITMAP_SIZE num_bits 8"

section \<open>Single bits\<close>

definition bitmap_set :: "bitmap \<Rightarrow> nat \<Rightarrow> bitmap" where
  "bitmap_set mp b =
     mp(b div BITMAP_GRANULE_LEN :=
       mp (b div BITMAP_GRANULE_LEN) OR shl 1 (b mod BITMAP_GRANULE_LEN))"

definition bitmap_clear :: "bitmap \<Rightarrow> nat \<Rightarrow> bitmap" where
  "bitmap_clear mp b =
     mp(b div BITMAP_GRANULE_LEN :=
       mp (b div BITMAP_GRANULE_LEN) AND NOT (shl 1 (b mod BITMAP_GRANULE_LEN)))"

definition bitmap_get :: "bitmap \<Rightarrow> nat \<Rightarrow> u32" where
  "bitmap_get mp b =
     (if mp (b div BITMAP_GRANULE_LEN) AND shl 1 (b mod BITMAP_GRANULE_LEN) \<noteq> 0 then 1 else 0)"

text \<open>The bit that \<open>b\<close> names: the abstract view of a bitmap, a set of bit numbers.\<close>

definition bm :: "bitmap \<Rightarrow> nat \<Rightarrow> bool" where
  "bm mp b \<longleftrightarrow> bit (mp (b div 32)) (b mod 32)"

lemma bitmap_get_bm [bm_simps]: "bitmap_get mp b = of_bool (bm mp b)"
  by (simp add: bitmap_get_def bm_def shl_def)

lemma bm_bitmap_set [bm_simps]: "bm (bitmap_set mp b) i \<longleftrightarrow> bm mp i \<or> i = b"
  by (auto simp: bitmap_set_def bm_def bit_or_iff dest: div_eq_mod_eq_imp_eq)

lemma bm_bitmap_clear [bm_simps]: "bm (bitmap_clear mp b) i \<longleftrightarrow> bm mp i \<and> i \<noteq> b"
  by (auto simp: bitmap_clear_def bm_def bit_and_iff bit_not_iff dest: div_eq_mod_eq_imp_eq)

lemma bitmap_eqI: "(\<And>i. bm m i = bm m' i) \<Longrightarrow> m = m'"
proof (rule ext, rule bit_word_eqI)
  fix g n assume eq: "\<And>i. bm m i = bm m' i" and "n < LENGTH(32)"
  then show "bit (m g) n = bit (m' g) n"
    using eq [of "32 * g + n"] by (simp add: bm_def)
qed

section \<open>Ranges of bits\<close>

lemma granule_round_up:
  "(i + (32 - i mod 32)) mod 32 = (0::nat)" "(i + 32 - i mod 32) mod 32 = (0::nat)"
proof -
  have "i + (32 - r) = 32 * (q + 1) \<and> i + 32 - r = 32 * (q + 1)" if "32 * q + r = i" "r < 32" for q r
    using that by auto
  from this [of "i div 32" "i mod 32"]
  show "(i + (32 - i mod 32)) mod 32 = (0::nat)" "(i + 32 - i mod 32) mod 32 = (0::nat)"
    by (simp_all only: mult_div_mod_eq mod_less_divisor zero_less_numeral) simp_all
qed

function bitmap_set_words :: "bitmap \<Rightarrow> nat \<Rightarrow> nat \<Rightarrow> bitmap \<times> nat \<times> nat" where
  "bitmap_set_words mp pos count =
     (if count \<ge> BITMAP_GRANULE_LEN then
        bitmap_set_words
          (mp(pos div BITMAP_GRANULE_LEN := mp (pos div BITMAP_GRANULE_LEN) OR NOT 0))
          (pos + BITMAP_GRANULE_LEN) (count - BITMAP_GRANULE_LEN)
      else (mp, pos, count))"
  by pat_completeness auto
termination
  by (relation "measure (\<lambda>(mp, pos, count). count)") auto

declare bitmap_set_words.simps [simp del]

definition bitmap_set_consecutive :: "bitmap \<Rightarrow> nat \<Rightarrow> nat \<Rightarrow> bitmap" where
  "bitmap_set_consecutive mp start n =
     (let pos = start; count = n;
          start_offset = start mod BITMAP_GRANULE_LEN;
          first_word_bits = min (BITMAP_GRANULE_LEN - start_offset) count;
          mp = mp(pos div BITMAP_GRANULE_LEN :=
            mp (pos div BITMAP_GRANULE_LEN) OR BITMAP_GRANULE_MASK start_offset first_word_bits);
          pos = pos + first_word_bits;
          count = count - first_word_bits;
          (mp, pos, count) = bitmap_set_words mp pos count
      in if count > 0
         then mp(pos div BITMAP_GRANULE_LEN :=
           mp (pos div BITMAP_GRANULE_LEN) OR BITMAP_GRANULE_MASK 0 count)
         else mp)"

fun bitmap_clear_consecutive_loop :: "bitmap \<Rightarrow> nat \<Rightarrow> nat list \<Rightarrow> bitmap" where
  "bitmap_clear_consecutive_loop mp start [] = mp"
| "bitmap_clear_consecutive_loop mp start (i # ks) =
     bitmap_clear_consecutive_loop (bitmap_clear mp (start + i)) start ks"

definition bitmap_clear_consecutive :: "bitmap \<Rightarrow> nat \<Rightarrow> nat \<Rightarrow> bitmap" where
  "bitmap_clear_consecutive mp start n = bitmap_clear_consecutive_loop mp start [0..<n]"

text \<open>The third argument is the end of the range, not its length: the loop runs to \<open>i < n\<close>.\<close>

definition bitmap_count :: "bitmap \<Rightarrow> nat \<Rightarrow> nat \<Rightarrow> bool \<Rightarrow> nat" where
  "bitmap_count mp start n st =
     fold (\<lambda>i count. if bitmap_get mp i = of_bool st then count + 1 else count) [start..<n] 0"

lemma bm_mask_granule:
  assumes "0 < l" and "off + l \<le> 32" and "32 * g + off = p"
  shows "bm (mp(g := mp g OR BITMAP_GRANULE_MASK off l)) i \<longleftrightarrow> bm mp i \<or> (p \<le> i \<and> i < p + l)"
proof (cases "i div 32 = g")
  case True
  then obtain r where "i = 32 * g + r" "r < 32"
    by (metis mult_div_mod_eq mod_less_divisor zero_less_numeral)
  with assms show ?thesis
    by (auto simp: bm_def BITMAP_GRANULE_MASK_def bit_or_iff bit_BIT_MASK)
next
  case False
  with assms have "\<not> (p \<le> i \<and> i < p + l)" by auto
  with False show ?thesis by (auto simp: bm_def)
qed

lemma bm_full_granule:
  "bm (mp(g := mp g OR NOT 0)) i \<longleftrightarrow> bm mp i \<or> (32 * g \<le> i \<and> i < 32 * g + 32)"
  by (auto simp: bm_def bit_or_iff)

lemma bitmap_set_words_bm:
  assumes "bitmap_set_words mp pos count = (mp', pos', count')"
    and "count < 32 \<or> pos mod 32 = 0"
  shows "count' < 32 \<and> pos \<le> pos' \<and> pos' + count' = pos + count \<and> (pos' = pos \<or> pos' mod 32 = 0) \<and>
    (\<forall>i. bm mp' i \<longleftrightarrow> bm mp i \<or> (pos \<le> i \<and> i < pos'))"
  using assms
proof (induction mp pos count rule: bitmap_set_words.induct)
  case (1 mp pos count)
  show ?case
  proof (cases "count \<ge> 32")
    case True
    define m where "m = mp(pos div 32 := mp (pos div 32) OR NOT 0)"
    have "bitmap_set_words m (pos + 32) (count - 32) = (mp', pos', count')"
      using 1(2) True by (simp only: bitmap_set_words.simps [of mp pos] m_def) simp
    moreover have p32: "(pos + 32) mod 32 = 0" using 1(3) True by simp
    ultimately have ih: "count' < 32 \<and> pos + 32 \<le> pos' \<and> pos' + count' = (pos + 32) + (count - 32) \<and>
        (pos' = pos + 32 \<or> pos' mod 32 = 0) \<and>
        (\<forall>i. bm mp' i \<longleftrightarrow> bm m i \<or> (pos + 32 \<le> i \<and> i < pos'))"
      by (intro 1(1) [OF True, folded m_def]) auto
    have "32 * (pos div 32) = pos" using 1(3) True by auto
    then have m: "bm m i \<longleftrightarrow> bm mp i \<or> (pos \<le> i \<and> i < pos + 32)" for i
      using bm_full_granule [of mp "pos div 32" i] by (simp add: m_def)
    from ih have "bm mp' i \<longleftrightarrow> bm mp i \<or> (pos \<le> i \<and> i < pos')" for i
      unfolding m by (cases "i < pos + 32") auto
    moreover have "pos' = pos \<or> pos' mod 32 = 0" using ih p32 by (elim conjE disjE) simp_all
    ultimately show ?thesis using ih True by simp
  next
    case False
    with 1(2) show ?thesis by (auto simp: bitmap_set_words.simps [of mp pos])
  qed
qed

lemma bm_bitmap_set_consecutive [bm_simps]:
  assumes "0 < n"
  shows "bm (bitmap_set_consecutive mp start n) i \<longleftrightarrow> bm mp i \<or> (start \<le> i \<and> i < start + n)"
proof -
  define off where "off = start mod 32"
  define l where "l = min (32 - off) n"
  define m where "m = mp(start div 32 := mp (start div 32) OR BITMAP_GRANULE_MASK off l)"
  obtain m' pos count where w: "bitmap_set_words m (start + l) (n - l) = (m', pos, count)"
    by (cases "bitmap_set_words m (start + l) (n - l)") auto
  have l: "0 < l" "off + l \<le> 32" "l \<le> n" using assms by (auto simp: l_def off_def)
  have m: "bm m j \<longleftrightarrow> bm mp j \<or> (start \<le> j \<and> j < start + l)" for j
    unfolding m_def using l by (intro bm_mask_granule) (auto simp: off_def)
  have "n - l < 32 \<or> (start + l) mod 32 = 0"
    by (auto simp: l_def off_def min_def granule_round_up)
  from bitmap_set_words_bm [OF w this]
  have w': "count < 32" "start + l \<le> pos" "pos + count = start + l + (n - l)"
      "pos = start + l \<or> pos mod 32 = 0"
      "\<And>j. bm m' j \<longleftrightarrow> bm m j \<or> (start + l \<le> j \<and> j < pos)" by auto
  show ?thesis
  proof (cases "count = 0")
    case True
    then have "bitmap_set_consecutive mp start n = m'"
      using w by (simp add: bitmap_set_consecutive_def Let_def off_def l_def m_def)
    moreover have "bm m' i \<longleftrightarrow> bm mp i \<or> (start \<le> i \<and> i < pos)"
      unfolding w'(5) m using w'(2) by auto
    moreover have "pos = start + n" using True w'(3) l(3) by simp
    ultimately show ?thesis by simp
  next
    case False
    have "pos mod 32 = 0"
    proof (rule ccontr)
      assume "pos mod 32 \<noteq> 0"
      with w'(3,4) False l(3) have "l < n" and "(start + l) mod 32 \<noteq> 0" by auto
      then show False by (auto simp: l_def off_def min_def granule_round_up split: if_splits)
    qed
    then have "bm (m'(pos div 32 := m' (pos div 32) OR BITMAP_GRANULE_MASK 0 count)) i \<longleftrightarrow>
        bm m' i \<or> (pos \<le> i \<and> i < pos + count)"
      using False w'(1) by (intro bm_mask_granule) auto
    moreover have "bitmap_set_consecutive mp start n =
        m'(pos div 32 := m' (pos div 32) OR BITMAP_GRANULE_MASK 0 count)"
      using w False by (simp add: bitmap_set_consecutive_def Let_def off_def l_def m_def)
    moreover have "bm m' i \<longleftrightarrow> bm mp i \<or> (start \<le> i \<and> i < pos)"
      unfolding w'(5) m using w'(2) by auto
    moreover have "pos + count = start + n" "start \<le> pos" using w'(2,3) l(3) by simp_all
    ultimately show ?thesis by auto
  qed
qed

lemma bm_clear_loop:
  "bm (bitmap_clear_consecutive_loop mp start ks) i \<longleftrightarrow> bm mp i \<and> i \<notin> (\<lambda>j. start + j) ` set ks"
  by (induction ks arbitrary: mp) (auto simp: bm_simps)

lemma bm_bitmap_clear_consecutive [bm_simps]:
  "bm (bitmap_clear_consecutive mp start n) i \<longleftrightarrow> bm mp i \<and> \<not> (start \<le> i \<and> i < start + n)"
proof -
  have "(\<lambda>j. start + j) ` {0..<n} = {start ..< start + n}"
    by (simp add: image_add_atLeastLessThan add.commute)
  then show ?thesis by (auto simp: bitmap_clear_consecutive_def bm_clear_loop)
qed

lemma bitmap_count_eq:
  "bitmap_count mp start n st = card {i. start \<le> i \<and> i < n \<and> bm mp i = st}"
proof -
  have "fold (\<lambda>i count. if bitmap_get mp i = of_bool st then count + 1 else count) ks c =
      c + length (filter (\<lambda>i. bm mp i = st) ks)" for ks c
    by (induction ks arbitrary: c) (auto simp: bitmap_get_bm)
  moreover have "length (filter (\<lambda>i. bm mp i = st) [start..<n]) =
      card {i. start \<le> i \<and> i < n \<and> bm mp i = st}"
    by (subst distinct_card [symmetric]) (auto intro: arg_cong [where f = card])
  ultimately show ?thesis by (simp add: bitmap_count_def)
qed

section \<open>Searching\<close>

subsection \<open>The n-th bit\<close>

function bitmap_find_nth_loop :: "bitmap \<Rightarrow> nat \<Rightarrow> nat \<Rightarrow> u32 \<Rightarrow> nat \<Rightarrow> nat \<Rightarrow> int" where
  "bitmap_find_nth_loop mp sz n b count i =
     (if i < sz then
        if bitmap_get mp i = b then
          (let count = count + 1 in
           if count = n then int i else bitmap_find_nth_loop mp sz n b count (i + 1))
        else bitmap_find_nth_loop mp sz n b count (i + 1)
      else - 1)"
  by pat_completeness auto
termination
  by (relation "measure (\<lambda>(mp, sz, n, b, count, i). sz - i)") auto

declare bitmap_find_nth_loop.simps [simp del]

definition bitmap_find_nth :: "bitmap \<Rightarrow> nat \<Rightarrow> nat \<Rightarrow> nat \<Rightarrow> bool \<Rightarrow> int" where
  "bitmap_find_nth mp sz n start st =
     (if sz \<le> 0 \<or> n \<le> 0 then - 1
      else let count = 0; b = (if st then 1 else 0)
           in bitmap_find_nth_loop mp sz n b count start)"

text \<open>The bits of value \<open>st\<close> at or after \<open>start\<close> and before \<open>sz\<close>.\<close>

definition bits_from :: "bitmap \<Rightarrow> bool \<Rightarrow> nat \<Rightarrow> nat \<Rightarrow> nat set" where
  "bits_from mp st start sz = {i. start \<le> i \<and> i < sz \<and> bm mp i = st}"

lemma finite_bits_from [simp]: "finite (bits_from mp st start sz)"
  by (rule finite_subset [of _ "{..<sz}"]) (auto simp: bits_from_def)

lemma bits_from_step:
  "i < sz \<Longrightarrow> bits_from mp st i sz =
    (if bm mp i = st then insert i (bits_from mp st (i + 1) sz) else bits_from mp st (i + 1) sz)"
  by (auto simp: bits_from_def Suc_le_eq order.order_iff_strict)

lemma find_nth_loop:
  assumes "count < n"
  shows "case bitmap_find_nth_loop mp sz n (of_bool st) count i of r \<Rightarrow>
    (if r = - 1 then count + card (bits_from mp st i sz) < n
     else \<exists>k. r = int k \<and> i \<le> k \<and> k < sz \<and> bm mp k = st \<and>
       count + card (bits_from mp st i k) + 1 = n)"
  using assms
proof (induction mp sz n "of_bool st :: u32" count i rule: bitmap_find_nth_loop.induct)
  case (1 mp sz n count i)
  let ?loop = "bitmap_find_nth_loop mp sz n (of_bool st)"
  show ?case
  proof (cases "i < sz")
    case False
    then have "bits_from mp st i sz = {}" by (auto simp: bits_from_def)
    with False 1(3) show ?thesis by (simp add: bitmap_find_nth_loop.simps)
  next
    case i: True
    have empty: "bits_from mp st i i = {}" by (auto simp: bits_from_def)
    have later: "card (bits_from mp st i k) = of_bool (bm mp i = st) + card (bits_from mp st (i + 1) k)"
      if "i + 1 \<le> k" for k
    proof -
      have "i \<notin> bits_from mp st (i + 1) k" by (simp add: bits_from_def)
      with that show ?thesis by (subst bits_from_step) auto
    qed
    show ?thesis
    proof (cases "bm mp i = st")
      case set: True
      show ?thesis
      proof (cases "count + 1 = n")
        case True
        with i set empty show ?thesis
          by (simp add: bitmap_find_nth_loop.simps [of mp sz n _ count i] bitmap_get_bm)
      next
        case False
        then have eq: "?loop count i = ?loop (count + 1) (i + 1)"
          using i set
          by (simp add: bitmap_find_nth_loop.simps [of mp sz n _ count i] bitmap_get_bm)
        have "case ?loop (count + 1) (i + 1) of r \<Rightarrow>
            (if r = - 1 then count + 1 + card (bits_from mp st (i + 1) sz) < n
             else \<exists>k. r = int k \<and> i + 1 \<le> k \<and> k < sz \<and> bm mp k = st \<and>
               count + 1 + card (bits_from mp st (i + 1) k) + 1 = n)"
          using 1(3) False i set by (intro 1(1)) (auto simp: bitmap_get_bm)
        then show ?thesis unfolding eq using later i set
          by (auto simp: Let_def split: if_splits)
      qed
    next
      case unset: False
      then have eq: "?loop count i = ?loop count (i + 1)"
        using i by (auto simp: bitmap_find_nth_loop.simps [of mp sz n _ count i] bitmap_get_bm)
      have "case ?loop count (i + 1) of r \<Rightarrow>
          (if r = - 1 then count + card (bits_from mp st (i + 1) sz) < n
           else \<exists>k. r = int k \<and> i + 1 \<le> k \<and> k < sz \<and> bm mp k = st \<and>
             count + card (bits_from mp st (i + 1) k) + 1 = n)"
        using 1(3) i unset by (intro 1(2)) (auto simp: bitmap_get_bm)
      then show ?thesis unfolding eq using later i unset
        by (auto simp: Let_def split: if_splits)
    qed
  qed
qed

lemma bitmap_find_nth_cases:
  assumes "0 < n"
  obtains (none) "bitmap_find_nth mp sz n start st = - 1" "card (bits_from mp st start sz) < n"
  | (found) k where "bitmap_find_nth mp sz n start st = int k" "start \<le> k" "k < sz"
      "bm mp k = st" "card (bits_from mp st start k) + 1 = n"
proof (cases "sz = 0")
  case True
  then show thesis using assms by (intro none) (auto simp: bitmap_find_nth_def bits_from_def)
next
  case False
  then have "bitmap_find_nth mp sz n start st = bitmap_find_nth_loop mp sz n (of_bool st) 0 start"
    using assms by (cases st) (simp_all add: bitmap_find_nth_def)
  with find_nth_loop [OF assms, of mp sz st start] show thesis
    by (auto simp: Let_def split: if_splits intro: none found)
qed

text \<open>The common case: the first bit of value \<open>st\<close>.\<close>

lemma bitmap_find_first_cases:
  obtains (none) "bitmap_find_nth mp sz 1 start st = - 1" "\<And>i. start \<le> i \<Longrightarrow> i < sz \<Longrightarrow> bm mp i \<noteq> st"
  | (found) k where "bitmap_find_nth mp sz 1 start st = int k" "start \<le> k" "k < sz" "bm mp k = st"
      "\<And>i. start \<le> i \<Longrightarrow> i < k \<Longrightarrow> bm mp i \<noteq> st"
proof (rule bitmap_find_nth_cases [of 1 mp sz start st])
  assume r: "bitmap_find_nth mp sz 1 start st = - 1" and c: "card (bits_from mp st start sz) < 1"
  from c have "bits_from mp st start sz = {}" by simp
  then show thesis by (intro that(1) [OF r]) (auto simp: bits_from_def)
next
  fix k assume r: "bitmap_find_nth mp sz 1 start st = int k" "start \<le> k" "k < sz" "bm mp k = st"
    and c: "card (bits_from mp st start k) + 1 = 1"
  from c have "bits_from mp st start k = {}" by simp
  then show thesis by (intro that(2) [OF r]) (auto simp: bits_from_def)
qed simp

subsection \<open>Counting a run of equal bits\<close>

function bcc_words :: "bitmap \<Rightarrow> nat \<Rightarrow> nat \<Rightarrow> u32 \<Rightarrow> nat \<Rightarrow> nat \<Rightarrow> nat \<times> nat" where
  "bcc_words mp sz n msk pos count =
     (if pos < sz \<and> mp (pos div BITMAP_GRANULE_LEN) XOR msk = 0 \<and> count < n
      then bcc_words mp sz n msk (pos + BITMAP_GRANULE_LEN) (count + BITMAP_GRANULE_LEN)
      else (pos, count))"
  by pat_completeness auto
termination
  by (relation "measure (\<lambda>(mp, sz, n, msk, pos, count). sz - pos)") auto

function bcc_bits :: "bitmap \<Rightarrow> nat \<Rightarrow> nat \<Rightarrow> bool \<Rightarrow> nat \<Rightarrow> nat \<Rightarrow> nat" where
  "bcc_bits mp sz n st pos count =
     (if pos < sz \<and> (bitmap_get mp pos \<noteq> 0) = st \<and> count < n
      then bcc_bits mp sz n st (pos + 1) (count + 1)
      else count)"
  by pat_completeness auto
termination
  by (relation "measure (\<lambda>(mp, sz, n, st, pos, count). sz - pos)") auto

declare bcc_words.simps [simp del] bcc_bits.simps [simp del]

definition bitmap_count_consecutive :: "bitmap \<Rightarrow> nat \<Rightarrow> nat \<Rightarrow> nat \<Rightarrow> nat" where
  "bitmap_count_consecutive mp sz start n =
     (let pos = start; count = 0;
          start_offset = start mod BITMAP_GRANULE_LEN;
          first_word_bits = min (BITMAP_GRANULE_LEN - start_offset) n;
          st = (bitmap_get mp start \<noteq> 0);
          init_mask = BITMAP_GRANULE_MASK start_offset first_word_bits
      in if n \<le> 1 then n
         else
           let msk = (if st then init_mask else NOT init_mask);
               (pos, count) =
                 (if (mp (pos div BITMAP_GRANULE_LEN) XOR msk) AND init_mask = 0
                  then (pos + first_word_bits, count + first_word_bits) else (pos, count));
               msk = (if st then NOT 0 else 0);
               (pos, count) = bcc_words mp sz n msk pos count
           in bcc_bits mp sz n st pos count)"

text \<open>The \<open>l\<close> bits from \<open>start\<close> on all have the value \<open>b\<close>.\<close>

definition run :: "bitmap \<Rightarrow> nat \<Rightarrow> nat \<Rightarrow> bool \<Rightarrow> bool" where
  "run mp start l b \<longleftrightarrow> (\<forall>i. start \<le> i \<and> i < start + l \<longrightarrow> bm mp i = b)"

lemma run_0 [simp]: "run mp start 0 b"
  by (auto simp: run_def)

lemma run_add: "run mp start l b \<Longrightarrow> run mp (start + l) k b \<Longrightarrow> run mp start (l + k) b"
  unfolding run_def by (metis add.assoc leI)

lemma run_mono: "run mp start l b \<Longrightarrow> k \<le> l \<Longrightarrow> run mp start k b"
  by (auto simp: run_def)

lemma run_1: "run mp start (Suc 0) b \<longleftrightarrow> bm mp start = b"
  by (auto simp: run_def less_Suc_eq_le dest: le_antisym)

lemma bcc_bits_spec:
  assumes "bcc_bits mp sz n st pos count = c"
  shows "count \<le> c \<and> run mp pos (c - count) st \<and> (pos \<le> sz \<longrightarrow> pos + (c - count) \<le> sz) \<and>
    (c < n \<longrightarrow> sz \<le> pos + (c - count) \<or> bm mp (pos + (c - count)) \<noteq> st)"
  using assms
proof (induction mp sz n st pos count rule: bcc_bits.induct)
  case (1 mp sz n st pos count)
  show ?case
  proof (cases "pos < sz \<and> (bitmap_get mp pos \<noteq> 0) = st \<and> count < n")
    case True
    then have "bcc_bits mp sz n st (pos + 1) (count + 1) = c"
      using 1(2) by (simp add: bcc_bits.simps [of mp sz n st pos])
    from 1(1) [OF True this] have ih: "count + 1 \<le> c" "run mp (pos + 1) (c - (count + 1)) st"
        "pos + 1 \<le> sz \<Longrightarrow> pos + 1 + (c - (count + 1)) \<le> sz"
        "c < n \<Longrightarrow> sz \<le> pos + 1 + (c - (count + 1)) \<or> bm mp (pos + 1 + (c - (count + 1))) \<noteq> st"
      by blast+
    have c: "pos + 1 + (c - (count + 1)) = pos + (c - count)" "1 + (c - (count + 1)) = c - count"
      using ih(1) by simp_all
    have "run mp pos 1 st" using True by (simp add: run_1 bitmap_get_bm)
    from run_add [OF this ih(2)] have "run mp pos (c - count) st" by (simp only: c)
    with ih True show ?thesis by (simp only: c) simp
  next
    case False
    then have "c = count" using 1(2) by (subst (asm) bcc_bits.simps) (simp only: if_False)
    with False show ?thesis by (auto simp: bitmap_get_bm)
  qed
qed

lemma run_full_granule:
  assumes "mp g = (if b then NOT 0 else 0)"
  shows "run mp (32 * g) 32 b"
proof -
  have "bm mp i = b" if "32 * g \<le> i" "i < 32 * g + 32" for i
  proof -
    from that have "i div 32 = g" by (simp add: div_nat_eqI)
    with assms show ?thesis by (simp add: bm_def)
  qed
  then show ?thesis by (simp add: run_def)
qed

lemma bcc_words_spec:
  assumes "bcc_words mp sz n (if st then NOT 0 else 0) pos count = (p, c)"
    and "pos mod 32 = 0 \<or> n \<le> count"
  shows "count \<le> c \<and> p = pos + (c - count) \<and> run mp pos (c - count) st \<and>
    (32 dvd sz \<and> pos \<le> sz \<longrightarrow> p \<le> sz)"
  using assms
proof (induction mp sz n "(if st then NOT 0 else 0) :: u32" pos count rule: bcc_words.induct)
  case (1 mp sz n pos count)
  let ?msk = "(if st then NOT 0 else 0) :: u32"
  show ?case
  proof (cases "pos < sz \<and> mp (pos div 32) XOR ?msk = 0 \<and> count < n")
    case True
    then have eq: "bcc_words mp sz n ?msk (pos + 32) (count + 32) = (p, c)"
      using 1(2) by (simp add: bcc_words.simps [of mp sz n _ pos])
    have m0: "pos mod 32 = 0" using 1(3) True by simp
    then have "(pos + 32) mod 32 = 0 \<or> n \<le> count + 32" by simp
    from 1(1) [OF True eq this] have ih: "count + 32 \<le> c" "p = pos + 32 + (c - (count + 32))"
        "run mp (pos + 32) (c - (count + 32)) st" "32 dvd sz \<and> pos + 32 \<le> sz \<Longrightarrow> p \<le> sz"
      by blast+
    from m0 have pos: "32 * (pos div 32) = pos" by auto
    have "mp (pos div 32) = ?msk" using True by (simp only: xor_eq_0_iff_eq)
    from run_full_granule [of mp "pos div 32" st, OF this] have "run mp pos 32 st" by (simp only: pos)
    from run_add [OF this ih(3)] have r: "run mp pos (c - count) st" using ih(1) by simp
    have "pos + 32 \<le> sz" if "32 dvd sz"
    proof -
      from that m0 have "32 dvd sz - pos" by (auto simp: dvd_diff_nat)
      then have "32 \<le> sz - pos" using True by (intro dvd_imp_le) auto
      then show ?thesis using True by simp
    qed
    with ih r show ?thesis by auto
  next
    case False
    then have "p = pos" "c = count" using 1(2) by (auto simp: bcc_words.simps [of mp sz n _ pos])
    then show ?thesis by simp
  qed
qed

lemma first_granule_run:
  assumes "0 < l" and "off = start mod 32" and "off + l \<le> 32"
    and "(mp (start div 32) XOR (if b then m else NOT m)) AND m = 0" and "m = BITMAP_GRANULE_MASK off l"
  shows "run mp start l b"
proof -
  have "bm mp i = b" if i: "start \<le> i" "i < start + l" for i
  proof -
    have start: "32 * (start div 32) + off = start" using assms(2) by simp
    with i assms(3) have q: "i div 32 = start div 32" by (intro div_nat_eqI) auto
    define j where "j = i mod 32"
    have "32 * (start div 32) + j = i" unfolding j_def q [symmetric] by simp
    with start i have j: "off \<le> j" "j < off + l" by auto
    with assms(1,3,5) have "bit m j" by (simp add: BITMAP_GRANULE_MASK_def bit_BIT_MASK)
    moreover have "\<not> bit ((mp (start div 32) XOR (if b then m else NOT m)) AND m) j"
      using assms(4) by simp
    ultimately have "bit (mp (start div 32)) j = b"
      using j assms(3) by (cases b) (auto simp: bit_and_iff bit_xor_iff bit_not_iff)
    then show ?thesis by (simp add: bm_def q j_def)
  qed
  then show ?thesis by (simp add: run_def)
qed

lemma granule_end_le:
  assumes "32 dvd sz" and "start < (sz :: nat)"
  shows "start + (32 - start mod 32) \<le> sz"
proof -
  from assms(1) obtain k where k: "sz = k * 32" by (auto simp: mult.commute)
  with assms(2) have q: "start div 32 < k" by (intro less_mult_imp_div_less) simp
  have "32 * (start div 32) + start mod 32 = start" "start mod 32 < 32" by simp_all
  then have "start + (32 - start mod 32) = 32 * (start div 32) + 32" by linarith
  with q k show ?thesis by linarith
qed

lemma count_consecutive_spec:
  assumes n: "1 < n" and r: "bitmap_count_consecutive mp sz start n = r"
  shows "run mp start r (bm mp start) \<and>
    (r < n \<longrightarrow> sz \<le> start + r \<or> bm mp (start + r) \<noteq> bm mp start) \<and>
    (32 dvd sz \<and> start < sz \<longrightarrow> start + r \<le> sz)"
proof -
  define off where "off = start mod 32"
  define l where "l = min (32 - off) n"
  define st where "st = bm mp start"
  define m where "m = BITMAP_GRANULE_MASK off l"
  define hit where "hit \<longleftrightarrow> (mp (start div 32) XOR (if st then m else NOT m)) AND m = 0"
  obtain p c where w:
    "bcc_words mp sz n (if st then NOT 0 else 0) (if hit then start + l else start)
      (if hit then l else 0) = (p, c)"
    by (metis surj_pair)
  have l: "0 < l" "off + l \<le> 32" "l \<le> n" using n by (auto simp: l_def off_def)
  have r': "bcc_bits mp sz n st p c = r"
    using r n w
    by (simp add: bitmap_count_consecutive_def Let_def off_def [symmetric] l_def [symmetric]
        bitmap_get_bm st_def [symmetric] m_def [symmetric] hit_def split: if_splits)
  have pc: "p = start + c \<and> run mp start c st \<and> (32 dvd sz \<and> start < sz \<longrightarrow> p \<le> sz)"
  proof (cases hit)
    case True
    then have first: "run mp start l st"
      unfolding hit_def using l by (intro first_granule_run [OF l(1) off_def l(2)]) (auto simp: m_def)
    have "(start + l) mod 32 = 0 \<or> n \<le> l"
      by (auto simp: l_def off_def min_def granule_round_up)
    moreover have "bcc_words mp sz n (if st then NOT 0 else 0) (start + l) l = (p, c)"
      using w True by simp
    ultimately have "l \<le> c \<and> p = start + l + (c - l) \<and> run mp (start + l) (c - l) st \<and>
        (32 dvd sz \<and> start + l \<le> sz \<longrightarrow> p \<le> sz)"
      by (intro bcc_words_spec)
    then have "l \<le> c" "p = start + l + (c - l)" "run mp (start + l) (c - l) st"
        "32 dvd sz \<Longrightarrow> start + l \<le> sz \<Longrightarrow> p \<le> sz" by blast+
    moreover have "start + l \<le> sz" if "32 dvd sz" "start < sz"
      using granule_end_le [OF that] by (simp add: l_def off_def)
    ultimately show ?thesis using run_add [OF first, of "c - l"] by auto
  next
    case False
    have "mp (start div 32) \<noteq> (if st then NOT 0 else 0)"
    proof
      assume "mp (start div 32) = (if st then NOT 0 else 0)"
      then have hit unfolding hit_def
        by (intro bit_word_eqI) (auto simp: bit_and_iff bit_xor_iff bit_not_iff)
      with False show False ..
    qed
    then have "p = start" "c = 0"
      using w False by (auto simp: bcc_words.simps [of mp sz n _ start] xor_eq_0_iff_eq split: if_splits)
    then show ?thesis by simp
  qed
  from bcc_bits_spec [OF r'] have b: "c \<le> r" "run mp p (r - c) st" "p \<le> sz \<Longrightarrow> p + (r - c) \<le> sz"
      "r < n \<Longrightarrow> sz \<le> p + (r - c) \<or> bm mp (p + (r - c)) \<noteq> st" by blast+
  from pc b(1) have p: "p + (r - c) = start + r" by simp
  from run_add [of mp start c st "r - c"] pc b(1,2) have "run mp start r st" by simp
  with pc b(3,4) show ?thesis unfolding p st_def [symmetric] by blast
qed

lemma count_consecutive_le_1: "n \<le> 1 \<Longrightarrow> bitmap_count_consecutive mp sz start n = n"
  by (simp add: bitmap_count_consecutive_def)

lemma count_consecutive_pos:
  assumes "start < sz" and "0 < n"
  shows "0 < bitmap_count_consecutive mp sz start n"
proof (cases "n = 1")
  case True
  then show ?thesis by (simp add: count_consecutive_le_1)
next
  case False
  with assms(2) have "1 < n" by simp
  from count_consecutive_spec [OF this refl, of mp start sz] assms show ?thesis
    by (cases "bitmap_count_consecutive mp sz start n = 0") auto
qed

subsection \<open>The first run of n bits\<close>

function bitmap_find_consec_loop :: "bitmap \<Rightarrow> nat \<Rightarrow> nat \<Rightarrow> nat \<Rightarrow> nat" where
  "bitmap_find_consec_loop mp sz n i =
     (if i < sz then
        (let count = bitmap_count_consecutive mp sz i n
         in if count < n then
              (let i = i + count;
                   i = i + bitmap_count_consecutive mp sz i SIZE_MAX
               in bitmap_find_consec_loop mp sz n i)
            else i)
      else i)"
  by pat_completeness auto
termination
proof (relation "measure (\<lambda>(mp, sz, n, i). sz - i)", goal_cases)
  case (2 mp sz n i x y z)
  then have "0 < bitmap_count_consecutive mp sz i n" by (intro count_consecutive_pos) auto
  with 2 show ?case by simp
qed simp

declare bitmap_find_consec_loop.simps [simp del]

definition bitmap_find_consec :: "bitmap \<Rightarrow> nat \<Rightarrow> nat \<Rightarrow> nat \<Rightarrow> bool \<Rightarrow> int" where
  "bitmap_find_consec mp sz start n st =
     (let i = bitmap_find_nth mp sz 1 start st
      in if i < 0 then - 1
         else let i = bitmap_find_consec_loop mp sz n (nat i)
              in if i \<ge> sz then - 1 else int i)"

text \<open>
  One round of the loop: from \<open>i\<close>, a bit of value \<open>st\<close> that starts no run of n bits, to the next
  bit of value \<open>st\<close> after the first bit of the other value.
\<close>

lemma find_consec_round:
  assumes sz: "sz \<le> SIZE_MAX" and n: "0 < n" and i: "i < sz" "bm mp i = st"
    and c: "bitmap_count_consecutive mp sz i n = c" "c < n"
    and c': "bitmap_count_consecutive mp sz (i + c) SIZE_MAX = c'"
  shows "i + c + c' < sz \<longrightarrow> bm mp (i + c + c') = st"
    and "i \<le> j \<Longrightarrow> j < i + c + c' \<Longrightarrow> j + n \<le> sz \<Longrightarrow> \<not> run mp j n st"
proof -
  have "1 < n" using c n count_consecutive_le_1 [of n mp sz i] by (cases "n \<le> 1") auto
  from count_consecutive_spec [OF this c(1)] i c(2)
  have e: "sz \<le> i + c \<or> bm mp (i + c) \<noteq> st" by simp
  have "1 < SIZE_MAX" by (simp add: SIZE_MAX_def)
  from count_consecutive_spec [OF this c']
  have r: "run mp (i + c) c' (bm mp (i + c))"
    and e': "c' < SIZE_MAX \<Longrightarrow> sz \<le> i + c + c' \<or> bm mp (i + c + c') \<noteq> bm mp (i + c)" by auto
  show "i + c + c' < sz \<longrightarrow> bm mp (i + c + c') = st"
    using e e' sz by (cases "c' < SIZE_MAX") auto
  show "\<not> run mp j n st" if j: "i \<le> j" "j < i + c + c'" "j + n \<le> sz"
  proof
    assume j_run: "run mp j n st"
    then have bj: "bm mp k = st" if "j \<le> k" "k < j + n" for k using that by (simp add: run_def)
    show False
    proof (cases "j \<le> i + c")
      case True
      then have "bm mp (i + c) = st" using j(1) c(2) by (intro bj) auto
      with e j True c(2) show False by auto
    next
      case False
      then have "i + c \<le> j \<and> j < i + c + c'" using j by simp
      with r have "bm mp j = bm mp (i + c)" unfolding run_def by blast
      moreover have "bm mp j = st" using n by (intro bj) auto
      moreover have "i + c < sz" using False j(3) by simp
      ultimately show False using e by simp
    qed
  qed
qed

lemma find_consec_loop_spec:
  assumes "bitmap_find_consec_loop mp sz n i = i'"
    and "sz \<le> SIZE_MAX" and "0 < n" and "i < sz \<longrightarrow> bm mp i = st"
  shows "i \<le> i' \<and> (i' < sz \<longrightarrow> run mp i' n st) \<and>
    (\<forall>j. i \<le> j \<and> j < i' \<and> j + n \<le> sz \<longrightarrow> \<not> run mp j n st) \<and>
    (32 dvd sz \<and> i' < sz \<longrightarrow> i' + n \<le> sz)"
  using assms
proof (induction mp sz n i rule: bitmap_find_consec_loop.induct)
  case (1 mp sz n i)
  define c where "c = bitmap_count_consecutive mp sz i n"
  define c' where "c' = bitmap_count_consecutive mp sz (i + c) SIZE_MAX"
  consider (stop) "\<not> i < sz" | (found) "i < sz" "n \<le> c" | (next_round) "i < sz" "c < n" by linarith
  then show ?case
  proof cases
    case stop
    then have "i' = i" using 1(2) by (simp add: bitmap_find_consec_loop.simps [of mp sz n i])
    with stop show ?thesis by auto
  next
    case found
    then have "i' = i"
      using 1(2) by (simp add: bitmap_find_consec_loop.simps [of mp sz n i] c_def)
    moreover have "run mp i n st \<and> (32 dvd sz \<longrightarrow> i + n \<le> sz)"
    proof (cases "1 < n")
      case True
      from count_consecutive_spec [OF True c_def [symmetric]] found 1(5) show ?thesis
        using run_mono [of mp i c st n] by auto
    next
      case False
      then have "n = 1" using 1(4) by simp
      with found 1(5) show ?thesis by (simp add: run_1)
    qed
    ultimately show ?thesis by auto
  next
    case next_round
    then have rec: "bitmap_find_consec_loop mp sz n (i + c + c') = i'"
      using 1(2) by (simp add: bitmap_find_consec_loop.simps [of mp sz n i] c_def c'_def Let_def)
    note round = find_consec_round [OF 1(3,4) next_round(1) _ c_def [symmetric] next_round(2) c'_def [symmetric]]
    have bi: "bm mp i = st" using 1(5) next_round by simp
    have "i + c + c' \<le> i' \<and> (i' < sz \<longrightarrow> run mp i' n st) \<and>
        (\<forall>j. i + c + c' \<le> j \<and> j < i' \<and> j + n \<le> sz \<longrightarrow> \<not> run mp j n st) \<and>
        (32 dvd sz \<and> i' < sz \<longrightarrow> i' + n \<le> sz)"
      using rec round(1) [OF bi] 1(3,4) next_round
      by (intro 1(1) [OF next_round(1) c_def]) (simp_all add: c'_def)
    with round(2) [OF bi] show ?thesis by (meson le_trans le_add1 not_le)
  qed
qed

lemma bitmap_find_consec_cases:
  assumes "sz \<le> SIZE_MAX" and "0 < n"
  obtains (none) "bitmap_find_consec mp sz start n st = - 1"
      "\<And>j. start \<le> j \<Longrightarrow> j + n \<le> sz \<Longrightarrow> \<not> run mp j n st"
  | (found) i where "bitmap_find_consec mp sz start n st = int i" "start \<le> i" "i < sz"
      "run mp i n st" "32 dvd sz \<Longrightarrow> i + n \<le> sz"
      "\<And>j. start \<le> j \<Longrightarrow> j < i \<Longrightarrow> j + n \<le> sz \<Longrightarrow> \<not> run mp j n st"
proof (rule bitmap_find_first_cases [of mp sz start st])
  assume r: "bitmap_find_nth mp sz 1 start st = - 1"
    and no: "\<And>i. start \<le> i \<Longrightarrow> i < sz \<Longrightarrow> bm mp i \<noteq> st"
  have "\<not> run mp j n st" if "start \<le> j" "j + n \<le> sz" for j
    using no [of j] that assms(2) by (auto simp: run_def)
  then show thesis using r by (intro none) (simp_all add: bitmap_find_consec_def)
next
  fix k assume k: "bitmap_find_nth mp sz 1 start st = int k" "start \<le> k" "k < sz" "bm mp k = st"
    and no: "\<And>i. start \<le> i \<Longrightarrow> i < k \<Longrightarrow> bm mp i \<noteq> st"
  define i where "i = bitmap_find_consec_loop mp sz n k"
  from find_consec_loop_spec [OF i_def [symmetric] assms, of st] k(4)
  have i: "k \<le> i" "i < sz \<Longrightarrow> run mp i n st" "32 dvd sz \<and> i < sz \<Longrightarrow> i + n \<le> sz"
    and gap: "\<And>j. k \<le> j \<Longrightarrow> j < i \<Longrightarrow> j + n \<le> sz \<Longrightarrow> \<not> run mp j n st" by blast+
  have gap': "\<not> run mp j n st" if "start \<le> j" "j < i" "j + n \<le> sz" for j
    using that gap [of j] no [of j] assms(2) by (cases "j < k") (auto simp: run_def)
  have res: "bitmap_find_consec mp sz start n st = (if i \<ge> sz then - 1 else int i)"
    using k(1) by (simp add: bitmap_find_consec_def Let_def i_def)
  show thesis
  proof (cases "i < sz")
    case True
    with res i gap' k(2) show thesis by (intro found [of i]) auto
  next
    case False
    have "\<not> run mp j n st" if "start \<le> j" "j + n \<le> sz" for j
      using that False assms(2) by (intro gap') auto
    with res False show thesis by (intro none) auto
  qed
qed

text \<open>The reference: the first position, in order, at which n bits of value \<open>st\<close> lie in the bitmap.\<close>

definition first_fit :: "bitmap \<Rightarrow> nat \<Rightarrow> nat \<Rightarrow> nat \<Rightarrow> bool \<Rightarrow> int" where
  "first_fit mp sz start n st =
     (case find (\<lambda>i. \<forall>j \<in> set [i..<i + n]. bm mp j = st) [start..<Suc sz - n] of
        None \<Rightarrow> - 1 | Some i \<Rightarrow> int i)"

lemma find_upt_eq_Some:
  "find P [a..<b] = Some i \<longleftrightarrow> a \<le> i \<and> i < b \<and> P i \<and> (\<forall>j. a \<le> j \<and> j < i \<longrightarrow> \<not> P j)"
proof (induction "b - a" arbitrary: a)
  case 0
  then show ?case by auto
next
  case (Suc d)
  then have ab: "a < b" by simp
  have "find P [a..<b] = (if P a then Some a else find P [Suc a..<b])"
    using ab by (simp add: upt_conv_Cons)
  moreover have "find P [Suc a..<b] = Some i \<longleftrightarrow>
      Suc a \<le> i \<and> i < b \<and> P i \<and> (\<forall>j. Suc a \<le> j \<and> j < i \<longrightarrow> \<not> P j)"
    using Suc.hyps by (intro Suc.hyps(1)) auto
  moreover have "a \<le> i \<longleftrightarrow> i = a \<or> Suc a \<le> i" by auto
  moreover have "(\<forall>j. a \<le> j \<and> j < i \<longrightarrow> \<not> P j) \<longleftrightarrow> (\<forall>j. Suc a \<le> j \<and> j < i \<longrightarrow> \<not> P j)"
    if "\<not> P a" using that by (metis Suc_leD Suc_leI le_neq_implies_less)
  ultimately show ?case using ab by (cases "P a") auto
qed

lemma find_upt_eq_None: "find P [a..<b] = None \<longleftrightarrow> (\<forall>i. a \<le> i \<and> i < b \<longrightarrow> \<not> P i)"
  by (auto simp: find_None_iff)

lemma find_consec_first_fit:
  assumes "sz \<le> SIZE_MAX" and "0 < n" and "32 dvd sz"
  shows "bitmap_find_consec mp sz start n st = first_fit mp sz start n st"
proof -
  have run: "(\<forall>j \<in> set [i..<i + n]. bm mp j = st) \<longleftrightarrow> run mp i n st" for i
    by (auto simp: run_def)
  show ?thesis
  proof (rule bitmap_find_consec_cases [OF assms(1,2), of mp start st])
    assume "bitmap_find_consec mp sz start n st = - 1"
      and "\<And>j. start \<le> j \<Longrightarrow> j + n \<le> sz \<Longrightarrow> \<not> run mp j n st"
    then have "find (\<lambda>i. run mp i n st) [start..<Suc sz - n] = None"
      unfolding find_upt_eq_None by auto
    with \<open>bitmap_find_consec mp sz start n st = - 1\<close> show ?thesis
      by (simp add: first_fit_def run del: set_upt)
  next
    fix i assume i: "bitmap_find_consec mp sz start n st = int i" "start \<le> i" "i < sz"
      "run mp i n st" "32 dvd sz \<Longrightarrow> i + n \<le> sz"
      "\<And>j. start \<le> j \<Longrightarrow> j < i \<Longrightarrow> j + n \<le> sz \<Longrightarrow> \<not> run mp j n st"
    have "i + n \<le> sz" using i(5) assms(3) .
    with i have "find (\<lambda>i. run mp i n st) [start..<Suc sz - n] = Some i"
      unfolding find_upt_eq_Some by auto
    with i(1) show ?thesis by (simp add: first_fit_def run del: set_upt)
  qed
qed

section \<open>What the searches and updates promise\<close>

text \<open>C2: on a bitmap that fills whole granules, the search that skips over runs is the search
  that tries every position in order: it returns the first position from the start at which n
  bits of the wanted value lie inside the bitmap, and \<open>-1\<close> only if there is none.\<close>
theorem bitmap_find_consec_is_first_fit:
  assumes "sz \<le> SIZE_MAX" and "0 < n" and "32 dvd sz"
  shows "bitmap_find_consec mp sz start n st = first_fit mp sz start n st"
  using assms by (rule find_consec_first_fit)

theorem bitmap_find_consec_is_first_fit_witness:
  "bitmap_find_consec (\<lambda>g. if g = 0 then 0xFFFF0F5F else 0) 64 3 4 BITMAP_NOT_SET =
   first_fit (\<lambda>g. if g = 0 then 0xFFFF0F5F else 0) 64 3 4 BITMAP_NOT_SET"
  by (rule bitmap_find_consec_is_first_fit) (simp_all add: SIZE_MAX_def dvd_eq_mod_eq_0)

text \<open>C3: without that condition the search leaves the bitmap. The granule-wise counting does
  not look at the size: in a bitmap of 10 bits of which the last two are free, a run of five
  free bits is reported at bit 8, although it ends at bit 13.\<close>
theorem bitmap_find_consec_past_the_end:
  "bitmap_find_consec (\<lambda>g. 0xFF) 10 0 5 BITMAP_NOT_SET = 8 \<and>
   first_fit (\<lambda>g. 0xFF) 10 0 5 BITMAP_NOT_SET = - 1"
proof -
  let ?mp = "\<lambda>g. 0xFF :: u32"
  have "(0xFF :: u32) = mask 8" by (simp add: mask_eq_exp_minus_1)
  then have get: "bm ?mp i \<longleftrightarrow> i mod 32 < 8" for i
    by (auto simp only: bm_def bit_mask_iff) simp_all
  have nth: "bitmap_find_nth ?mp 10 1 0 BITMAP_NOT_SET = 8"
    by (simp add: bitmap_find_nth_def bitmap_find_nth_loop.simps bitmap_get_bm get)
  have "BITMAP_GRANULE_MASK 8 5 = 0x1F00"
    by (simp add: BITMAP_GRANULE_MASK_def BIT_MASK_eq push_bit_eq_mult mask_eq_exp_minus_1)
  then have count: "bitmap_count_consecutive ?mp 10 8 5 = 5"
    by (simp add: bitmap_count_consecutive_def bitmap_get_bm get bcc_words.simps bcc_bits.simps)
  show ?thesis
    using nth count
    by (simp add: bitmap_find_consec_def bitmap_find_consec_loop.simps first_fit_def bm_simps get
      upt_rec)
qed

lemma bitmap_get_set_consecutive:
  "0 < n \<Longrightarrow> bitmap_get (bitmap_set_consecutive mp start n) i =
    (if start \<le> i \<and> i < start + n then 1 else bitmap_get mp i)"
  by (simp add: bm_simps)

lemma bitmap_clear_set_consecutive:
  "0 < n \<Longrightarrow> bitmap_clear_consecutive (bitmap_set_consecutive mp start n) start n =
    bitmap_clear_consecutive mp start n"
  by (intro bitmap_eqI) (auto simp: bm_simps)

lemma bitmap_count_set_consecutive:
  assumes "0 < n"
  shows "bitmap_count (bitmap_set_consecutive mp start n) start (start + n) BITMAP_SET = n"
proof -
  have "{i. start \<le> i \<and> i < start + n \<and> bm (bitmap_set_consecutive mp start n) i = True} =
      {start..<start + n}" using assms by (auto simp: bm_simps)
  then show ?thesis by (simp add: bitmap_count_eq)
qed



end
