(* ===== verification/Interrupts.thy ===== *)
theory Interrupts
  imports Bitmap
begin

text \<open>
  The ownership of interrupts, \<open>src/src/core/interrupts.c\<close>: an interrupt is reserved by the
  hypervisor, with a handler, or assigned to virtual machines, and a global bitmap records the
  interrupts that are taken. What counts as a conflict is decided per architecture
  (\<open>interrupts_arch_conflict\<close>); the four versions are records of type \<open>irq_arch\<close>, and the locale
  \<open>irq_policy\<close> states what they have in common: an interrupt conflicts when it is taken, unless it
  is one that may be shared. The theorem is proved from that contract and holds for each of them.
\<close>

type_synonym irqid = u32

definition INVALID_IRQID :: irqid where
  "INVALID_IRQID = - 1"

section \<open>The architectures\<close>

record irq_arch =
  arch_conflict :: "bitmap \<Rightarrow> irqid \<Rightarrow> bool"
  arch_reserve :: "irqid \<Rightarrow> irqid"
  arch_irq_is_forwardable :: "irqid \<Rightarrow> bool"
  MAX_INTERRUPT_LINES :: nat
  MAX_INTERRUPT_HANDLERS :: nat

definition GIC_CPU_PRIV :: nat where
  "GIC_CPU_PRIV = 16 + 16"

definition interrupts_arch_conflict_armv8 :: "bitmap \<Rightarrow> irqid \<Rightarrow> bool" where
  "interrupts_arch_conflict_armv8 b int_id \<longleftrightarrow> bitmap_get b (unat int_id) \<noteq> 0 \<and> unat int_id > GIC_CPU_PRIV"

definition interrupts_arch_conflict_riscv :: "bitmap \<Rightarrow> irqid \<Rightarrow> bool" where
  "interrupts_arch_conflict_riscv b int_id \<longleftrightarrow> bitmap_get b (unat int_id) \<noteq> 0"

definition interrupts_arch_conflict_tricore :: "bitmap \<Rightarrow> irqid \<Rightarrow> bool" where
  "interrupts_arch_conflict_tricore b int_id \<longleftrightarrow> bitmap_get b (unat int_id) \<noteq> 0"

text \<open>The number of IPIR channels and the channel of the hypervisor are set by the platform.\<close>

definition interrupts_arch_conflict_rh850 :: "nat \<Rightarrow> irqid \<Rightarrow> bitmap \<Rightarrow> irqid \<Rightarrow> bool" where
  "interrupts_arch_conflict_rh850 IPIR_NUM_CHANNELS IPI_HYP_IRQ_ID b int_id \<longleftrightarrow>
     bitmap_get b (unat int_id) \<noteq> 0 \<and> \<not> (unat int_id < IPIR_NUM_CHANNELS \<and> int_id \<noteq> IPI_HYP_IRQ_ID)"

definition interrupts_arch_reserve :: "irqid \<Rightarrow> irqid" where
  "interrupts_arch_reserve pint_id = pint_id"

definition irq_armv8 :: irq_arch where
  "irq_armv8 = \<lparr>arch_conflict = interrupts_arch_conflict_armv8, arch_reserve = interrupts_arch_reserve,
     arch_irq_is_forwardable = (\<lambda>_. True), MAX_INTERRUPT_LINES = 1024, MAX_INTERRUPT_HANDLERS = 1024\<rparr>"

definition irq_riscv :: "nat \<Rightarrow> irq_arch" where
  "irq_riscv lines = \<lparr>arch_conflict = interrupts_arch_conflict_riscv, arch_reserve = interrupts_arch_reserve,
     arch_irq_is_forwardable = (\<lambda>_. True), MAX_INTERRUPT_LINES = lines, MAX_INTERRUPT_HANDLERS = lines\<rparr>"

definition irq_tricore :: "nat \<Rightarrow> irq_arch" where
  "irq_tricore lines = \<lparr>arch_conflict = interrupts_arch_conflict_tricore, arch_reserve = interrupts_arch_reserve,
     arch_irq_is_forwardable = (\<lambda>_. False), MAX_INTERRUPT_LINES = lines, MAX_INTERRUPT_HANDLERS = lines\<rparr>"

definition irq_rh850 :: "nat \<Rightarrow> irqid \<Rightarrow> nat \<Rightarrow> irq_arch" where
  "irq_rh850 IPIR_NUM_CHANNELS IPI_HYP_IRQ_ID lines =
     \<lparr>arch_conflict = interrupts_arch_conflict_rh850 IPIR_NUM_CHANNELS IPI_HYP_IRQ_ID,
      arch_reserve = interrupts_arch_reserve, arch_irq_is_forwardable = (\<lambda>_. False),
      MAX_INTERRUPT_LINES = lines, MAX_INTERRUPT_HANDLERS = lines\<rparr>"

section \<open>The operations\<close>

text \<open>
  Virtual machines are numbered; a handler is a value of a type of its own. \<open>arch_assigned\<close> records
  the calls of \<open>interrupts_arch_vm_assign\<close>, which set up the interrupt controller.
\<close>

record 'h irq_state =
  global_interrupt_bitmap :: bitmap
  interrupt_handlers :: "nat \<Rightarrow> 'h option"
  interrupt_bitmap :: "nat \<Rightarrow> bitmap"
  arch_assigned :: "(nat \<times> irqid) list"

definition irq_state_init :: "'h irq_state" where
  "irq_state_init = \<lparr>global_interrupt_bitmap = (\<lambda>_. 0), interrupt_handlers = (\<lambda>_. None),
     interrupt_bitmap = (\<lambda>_ _. 0), arch_assigned = []\<rparr>"

definition interrupt_assigned_to_hyp :: "irq_arch \<Rightarrow> 'h irq_state \<Rightarrow> irqid \<Rightarrow> bool" where
  "interrupt_assigned_to_hyp A s int_id \<longleftrightarrow>
     unat int_id < MAX_INTERRUPT_HANDLERS A \<and> interrupt_handlers s (unat int_id) \<noteq> None"

definition interrupt_assigned :: "'h irq_state \<Rightarrow> irqid \<Rightarrow> bool" where
  "interrupt_assigned s int_id \<longleftrightarrow> bitmap_get (global_interrupt_bitmap s) (unat int_id) \<noteq> 0"

definition vm_has_interrupt :: "'h irq_state \<Rightarrow> nat \<Rightarrow> irqid \<Rightarrow> bool" where
  "vm_has_interrupt s vm int_id \<longleftrightarrow> bitmap_get (interrupt_bitmap s vm) (unat int_id) \<noteq> 0"

definition interrupts_vm_assign :: "irq_arch \<Rightarrow> nat \<Rightarrow> irqid \<Rightarrow> 'h irq_state \<Rightarrow> bool \<times> 'h irq_state" where
  "interrupts_vm_assign A vm id' s =
     (if \<not> arch_conflict A (global_interrupt_bitmap s) id' then
        (True, s\<lparr>arch_assigned := arch_assigned s @ [(vm, id')],
                 interrupt_bitmap := (interrupt_bitmap s)(vm := bitmap_set (interrupt_bitmap s vm) (unat id')),
                 global_interrupt_bitmap := bitmap_set (global_interrupt_bitmap s) (unat id')\<rparr>)
      else (False, s))"

definition interrupts_reserve :: "irq_arch \<Rightarrow> irqid \<Rightarrow> 'h \<Rightarrow> 'h irq_state \<Rightarrow> irqid \<times> 'h irq_state" where
  "interrupts_reserve A pint_id handler s =
     (if unat pint_id < MAX_INTERRUPT_LINES A \<and> \<not> interrupt_assigned s pint_id then
        (let s = s\<lparr>global_interrupt_bitmap := bitmap_set (global_interrupt_bitmap s) (unat pint_id)\<rparr>;
             tmp_id = arch_reserve A pint_id
         in if tmp_id \<noteq> INVALID_IRQID \<and> unat tmp_id < MAX_INTERRUPT_HANDLERS A then
              (tmp_id, s\<lparr>interrupt_handlers := (interrupt_handlers s)(unat tmp_id := Some handler)\<rparr>)
            else (INVALID_IRQID, s))
      else (INVALID_IRQID, s))"

text \<open>\<open>interrupts_handle\<close>: who gets the interrupt, the virtual machine that runs or a handler.\<close>

datatype 'h irq_res = HANDLED_BY_HYP 'h | FORWARD_TO_VM

definition interrupts_handle :: "irq_arch \<Rightarrow> nat \<Rightarrow> irqid \<Rightarrow> 'h irq_state \<Rightarrow> 'h irq_res outcome" where
  "interrupts_handle A vm int_id s =
     (if arch_irq_is_forwardable A int_id \<and> vm_has_interrupt s vm int_id then Inr FORWARD_TO_VM
      else if interrupt_assigned_to_hyp A s int_id then
        Inr (HANDLED_BY_HYP (the (interrupt_handlers s (unat int_id))))
      else Inl (ERROR ''received unknown interrupt id''))"

section \<open>Exclusive ownership\<close>

datatype 'h irq_op = Assign nat irqid | Reserve irqid 'h

fun irq_run :: "irq_arch \<Rightarrow> 'h irq_op list \<Rightarrow> 'h irq_state \<Rightarrow> 'h irq_state" where
  "irq_run A [] s = s"
| "irq_run A (Assign vm i # ops) s = irq_run A ops (snd (interrupts_vm_assign A vm i s))"
| "irq_run A (Reserve i h # ops) s = irq_run A ops (snd (interrupts_reserve A i h s))"

text \<open>The owners of an interrupt: \<open>None\<close> is the hypervisor.\<close>

definition irq_owners :: "irq_arch \<Rightarrow> 'h irq_state \<Rightarrow> irqid \<Rightarrow> nat option set" where
  "irq_owners A s i =
     {Some vm | vm. vm_has_interrupt s vm i} \<union> (if interrupt_assigned_to_hyp A s i then {None} else {})"

definition irq_exclusive :: "irq_arch \<Rightarrow> 'h irq_state \<Rightarrow> irqid \<Rightarrow> bool" where
  "irq_exclusive A s i \<longleftrightarrow>
     (\<forall>o1 \<in> irq_owners A s i. \<forall>o2 \<in> irq_owners A s i. o1 = o2) \<and>
     (irq_owners A s i \<noteq> {} \<longrightarrow> interrupt_assigned s i)"

lemma irq_exclusive_init: "irq_exclusive A irq_state_init i"
  by (simp add: irq_exclusive_def irq_owners_def irq_state_init_def vm_has_interrupt_def
    interrupt_assigned_to_hyp_def bitmap_get_def)

lemma irq_exclusive_owner:
  assumes "irq_exclusive A s i" and "irq_owners A s i = {} \<or> interrupt_assigned s i"
  shows "(irq_owners A s i = {}) \<or> (\<exists>x. irq_owners A s i = {x} \<and> interrupt_assigned s i)"
proof (cases "irq_owners A s i = {}")
  case False
  then obtain x where "x \<in> irq_owners A s i" by blast
  with assms(1) have "irq_owners A s i = {x}" by (auto simp: irq_exclusive_def)
  with assms(1) show ?thesis by (auto simp: irq_exclusive_def)
qed simp

locale irq_policy =
  fixes A :: irq_arch
    and shared :: "irqid \<Rightarrow> bool"
  assumes conflict_iff: "arch_conflict A b i \<longleftrightarrow> bm b (unat i) \<and> \<not> shared i"
    and reserve_id: "arch_reserve A i = i"
begin

lemma assign_exclusive:
  assumes "irq_exclusive A s i" and "\<not> shared i"
  shows "irq_exclusive A (snd (interrupts_vm_assign A vm j s)) i"
proof (cases "arch_conflict A (global_interrupt_bitmap s) j")
  case True
  then show ?thesis using assms(1) by (simp add: interrupts_vm_assign_def)
next
  case no: False
  let ?s = "snd (interrupts_vm_assign A vm j s)"
  have glob: "interrupt_assigned ?s k \<longleftrightarrow> interrupt_assigned s k \<or> k = j"
    and vms: "vm_has_interrupt ?s v k \<longleftrightarrow> vm_has_interrupt s v k \<or> v = vm \<and> k = j"
    and hyp: "interrupt_assigned_to_hyp A ?s k \<longleftrightarrow> interrupt_assigned_to_hyp A s k" for v k
    using no by (auto simp: interrupts_vm_assign_def interrupt_assigned_def vm_has_interrupt_def
      interrupt_assigned_to_hyp_def bm_simps word_unat_eq_iff)
  show ?thesis
  proof (cases "i = j")
    case False
    then have "irq_owners A ?s i = irq_owners A s i" by (simp add: irq_owners_def vms hyp)
    with assms(1) glob show ?thesis by (auto simp: irq_exclusive_def)
  next
    case True
    then have "\<not> interrupt_assigned s i"
      using no assms(2) conflict_iff by (simp add: interrupt_assigned_def bm_simps)
    then have "irq_owners A s i = {}" using assms(1) by (auto simp: irq_exclusive_def)
    then have "irq_owners A ?s i = {Some vm}"
      using True by (auto simp: irq_owners_def vms hyp split: if_splits)
    with True glob show ?thesis by (simp add: irq_exclusive_def)
  qed
qed

lemma reserve_exclusive:
  assumes "irq_exclusive A s i" and "\<not> shared i"
  shows "irq_exclusive A (snd (interrupts_reserve A j h s)) i"
proof (cases "unat j < MAX_INTERRUPT_LINES A \<and> \<not> interrupt_assigned s j")
  case False
  then show ?thesis using assms(1) by (auto simp: interrupts_reserve_def)
next
  case ok: True
  let ?s = "snd (interrupts_reserve A j h s)"
  have glob: "interrupt_assigned ?s k \<longleftrightarrow> interrupt_assigned s k \<or> k = j"
    and vms: "vm_has_interrupt ?s v k \<longleftrightarrow> vm_has_interrupt s v k"
    and hyp: "interrupt_assigned_to_hyp A ?s k \<longrightarrow> interrupt_assigned_to_hyp A s k \<or> k = j" for v k
    using ok by (auto simp: interrupts_reserve_def interrupt_assigned_def vm_has_interrupt_def
      interrupt_assigned_to_hyp_def bm_simps word_unat_eq_iff reserve_id Let_def split: if_splits)
  show ?thesis
  proof (cases "i = j")
    case False
    then have "irq_owners A ?s i \<subseteq> irq_owners A s i" using hyp [of i] by (auto simp: irq_owners_def vms)
    with assms(1) glob [of i] show ?thesis unfolding irq_exclusive_def by blast
  next
    case True
    then have "irq_owners A s i = {}" using assms(1) ok by (auto simp: irq_exclusive_def)
    then have "irq_owners A ?s i \<subseteq> {None}" by (auto simp: irq_owners_def vms)
    with True glob show ?thesis by (auto simp: irq_exclusive_def)
  qed
qed

lemma run_exclusive:
  assumes "irq_exclusive A s i" and "\<not> shared i"
  shows "irq_exclusive A (irq_run A ops s) i"
  using assms(1)
proof (induction ops arbitrary: s)
  case (Cons opn ops)
  then show ?case
    by (cases opn) (simp_all add: assign_exclusive [OF _ assms(2)] reserve_exclusive [OF _ assms(2)])
qed simp

end

interpretation armv8_irqs: irq_policy irq_armv8 "\<lambda>i. unat i \<le> GIC_CPU_PRIV"
  by unfold_locales
    (auto simp: irq_armv8_def interrupts_arch_conflict_armv8_def interrupts_arch_reserve_def bm_simps)

interpretation riscv_irqs: irq_policy "irq_riscv lines" "\<lambda>_. False" for lines
  by unfold_locales
    (simp_all add: irq_riscv_def interrupts_arch_conflict_riscv_def interrupts_arch_reserve_def bm_simps)

interpretation tricore_irqs: irq_policy "irq_tricore lines" "\<lambda>_. False" for lines
  by unfold_locales
    (simp_all add: irq_tricore_def interrupts_arch_conflict_tricore_def interrupts_arch_reserve_def bm_simps)

interpretation rh850_irqs: irq_policy "irq_rh850 channels hyp lines" "\<lambda>i. unat i < channels \<and> i \<noteq> hyp"
  for channels hyp lines
  by unfold_locales
    (auto simp: irq_rh850_def interrupts_arch_conflict_rh850_def interrupts_arch_reserve_def bm_simps)

section \<open>Properties\<close>




end
