(* ===== verification/Config.thy ===== *)
theory Config
  imports Bit_Utils
begin

text \<open>
  The static configuration: \<open>struct config\<close> and \<open>struct vm_config\<close> of
  \<open>src/src/core/inc/config.h\<close>, the platform descriptions of \<open>src/src/core/inc/vm.h\<close>,
  \<open>ipc.h\<close>, \<open>shmem.h\<close> and \<open>remio.h\<close>, and the adjustments made to it at boot by
  \<open>src/src/core/config.c\<close> and, on MPU systems, by \<open>src/src/core/mpu/config.c\<close>. An array and
  its length field are one list; the architecture's own fields are left out.
\<close>

record vm_mem_region =
  rg_base :: u64
  rg_size :: u64
  rg_colors :: u64
  rg_place_phys :: bool
  rg_phys :: u64
  rg_reserved :: bool

record vm_dev_region =
  dev_pa :: u64
  dev_va :: u64
  dev_size :: u64
  dev_interrupts :: "u32 list"
  dev_id :: u32

record ipc =
  ipc_base :: u64
  ipc_size :: u64
  ipc_shmem_id :: nat
  ipc_interrupts :: "u32 list"

text \<open>\<open>base\<close> and \<open>phys\<close> of a shared memory are one field (a union).\<close>

record shmem =
  sh_size :: u64
  sh_colors :: u64
  sh_place_phys :: bool
  sh_phys :: u64
  sh_reserved :: bool
  sh_cpu_masters :: u64

datatype REMIO_DEV_TYPE = REMIO_DEV_FRONTEND | REMIO_DEV_BACKEND

record remio_dev =
  rd_va :: u64
  rd_size :: u64
  rd_interrupt :: u32
  rd_bind_key :: u64
  rd_type :: REMIO_DEV_TYPE
  rd_shmem_base :: u64
  rd_shmem_size :: u64
  rd_shmem_id :: nat

record vm_platform =
  plat_cpu_num :: nat
  plat_regions :: "vm_mem_region list"
  plat_ipcs :: "ipc list"
  plat_devs :: "vm_dev_region list"
  plat_remio_devs :: "remio_dev list"

record vm_config =
  img_base_addr :: u64
  img_load_addr :: u64
  img_size :: u64
  img_separately_loaded :: bool
  img_inplace :: bool
  img_reserved :: bool
  vmc_entry :: u64
  vmc_cpu_affinity :: u64
  vmc_colors :: u64
  vmc_platform :: vm_platform

record config =
  hyp_colors :: u64
  shmemlist :: "shmem list"
  vmlist :: "vm_config list"

section \<open>Adjustments at boot\<close>

text \<open>A built-in image's address is its offset from the hypervisor's link address.\<close>

definition config_adjust_vm_image_addr :: "u64 \<Rightarrow> u64 \<Rightarrow> config \<Rightarrow> config" where
  "config_adjust_vm_image_addr bao_vas_base img_addr cfg =
     cfg\<lparr>vmlist := map (\<lambda>vm. if \<not> img_separately_loaded vm
        then vm\<lparr>img_load_addr := (img_load_addr vm - bao_vas_base) + img_addr\<rparr> else vm) (vmlist cfg)\<rparr>"

text \<open>The weak default of \<open>config_mem_prot_init\<close> does nothing; this is the MPU version.\<close>

definition config_mem_prot_init_default :: "config \<Rightarrow> config outcome" where
  "config_mem_prot_init_default cfg = Inr cfg"

definition mpu_region :: "vm_mem_region \<Rightarrow> vm_mem_region" where
  "mpu_region r = r\<lparr>rg_place_phys := True, rg_phys := rg_base r\<rparr>"

fun mpu_check_ipcs :: "shmem list \<Rightarrow> ipc list \<Rightarrow> unit outcome" where
  "mpu_check_ipcs shms [] = Inr ()"
| "mpu_check_ipcs shms (i # ids) =
     (if ipc_shmem_id i < length shms then
        (if ipc_base i \<noteq> sh_phys (shms ! ipc_shmem_id i)
         then Inl (ERROR ''IPC base addr must be the same as its shmem base addr.'')
         else mpu_check_ipcs shms ids)
      else Inl OUT_OF_BOUNDS)"

fun mpu_config_vms :: "shmem list \<Rightarrow> vm_config list \<Rightarrow> vm_config list outcome" where
  "mpu_config_vms shms [] = Inr []"
| "mpu_config_vms shms (vm # vms) =
     (let plat = vmc_platform vm;
          vm = vm\<lparr>vmc_platform := plat\<lparr>plat_regions := map mpu_region (plat_regions plat)\<rparr>\<rparr>
      in obind (mpu_check_ipcs shms (plat_ipcs plat))
           (\<lambda>_. obind (mpu_config_vms shms vms) (\<lambda>vms. Inr (vm # vms))))"

definition config_mem_prot_init_mpu :: "config \<Rightarrow> config outcome" where
  "config_mem_prot_init_mpu cfg =
     obind (mpu_config_vms (shmemlist cfg) (vmlist cfg))
       (\<lambda>vms. Inr (cfg\<lparr>vmlist := vms, shmemlist := map (\<lambda>s. s\<lparr>sh_place_phys := True\<rparr>) (shmemlist cfg)\<rparr>))"

definition config_init :: "(config \<Rightarrow> config outcome) \<Rightarrow> u64 \<Rightarrow> u64 \<Rightarrow> config \<Rightarrow> config outcome" where
  "config_init mem_prot_init bao_vas_base img_addr cfg =
     mem_prot_init (config_adjust_vm_image_addr bao_vas_base img_addr cfg)"

lemma mpu_check_ipcs_ok:
  "mpu_check_ipcs shms ids = Inr () \<Longrightarrow> i \<in> set ids \<Longrightarrow>
     ipc_shmem_id i < length shms \<and> ipc_base i = sh_phys (shms ! ipc_shmem_id i)"
  by (induction shms ids rule: mpu_check_ipcs.induct) (auto split: if_splits)

lemma mpu_config_vms_ok:
  assumes "mpu_config_vms shms vms = Inr vms'" and "vm' \<in> set vms'"
  shows "(\<forall>r \<in> set (plat_regions (vmc_platform vm')). rg_place_phys r \<and> rg_phys r = rg_base r) \<and>
    (\<forall>i \<in> set (plat_ipcs (vmc_platform vm')).
       ipc_shmem_id i < length shms \<and> ipc_base i = sh_phys (shms ! ipc_shmem_id i))"
  using assms
proof (induction shms vms arbitrary: vms' rule: mpu_config_vms.induct)
  case (2 shms vm vms)
  from 2(2) obtain vs where ok: "mpu_check_ipcs shms (plat_ipcs (vmc_platform vm)) = Inr ()"
    and rest: "mpu_config_vms shms vms = Inr vs"
    and vms': "vms' = vm\<lparr>vmc_platform := (vmc_platform vm)
      \<lparr>plat_regions := map mpu_region (plat_regions (vmc_platform vm))\<rparr>\<rparr> # vs"
    by (auto simp: Let_def obind_eq_Inr)
  show ?case
  proof (cases "vm' \<in> set vs")
    case True
    with 2(1) [OF refl refl rest] show ?thesis .
  next
    case False
    with 2(3) vms' mpu_check_ipcs_ok [OF ok] show ?thesis by (auto simp: mpu_region_def)
  qed
qed simp

end
