(* ===== verification/Vm.thy ===== *)
theory Vm
  imports Cpu Interrupts Config
begin

text \<open>
  Virtual machines and virtual processors, \<open>src/src/core/vm.c\<close> and \<open>src/src/core/inc/vm.h\<close>: the
  numbering of virtual processors and its translation to physical processors, single and as
  masks, the lookup of emulation handlers, the broadcast to the processors of a machine, and what
  a processor does next (\<open>vcpu_run\<close>, \<open>cpu_standby_wakeup\<close>, \<open>cpu_powerdown_wakeup\<close>). A processor
  number that the code compares with \<open>INVALID_CPUID\<close> is an option. The address space of a machine
  is not part of these operations.
\<close>

section \<open>Data\<close>

text \<open>
  A virtual processor: its registers, and the interrupts injected into it, most recent last, which
  stand for the effect of the architecture's \<open>vcpu_inject_irq\<close>.
\<close>

record vcpu =
  vcpu_id :: nat
  phys_id :: nat
  vcpu_active :: bool
  vcpu_regs :: "nat \<Rightarrow> u64"
  vcpu_irqs :: "irqid list"

record emul_mem =
  emu_va_base :: u64
  emu_size :: u64
  emu_handler :: nat

record emul_reg =
  emu_addr :: u64
  emu_reg_handler :: nat

record vm =
  vm_id :: nat
  vm_master :: nat
  vm_cpu_num :: nat
  vm_cpus :: u64
  vm_vcpus :: "nat \<Rightarrow> vcpu"
  emul_mem_list :: "emul_mem list"
  emul_reg_list :: "emul_reg list"
  vm_ipcs :: "ipc list"
  vm_remio_devs :: "remio_dev list"

section \<open>Initialisation\<close>

definition vm_master_init :: "nat \<Rightarrow> nat \<Rightarrow> nat \<Rightarrow> vm \<Rightarrow> vm" where
  "vm_master_init c cpu_num i vm =
     vm\<lparr>vm_master := c, vm_cpu_num := cpu_num, vm_id := i, emul_mem_list := [], emul_reg_list := []\<rparr>"

definition vm_cpu_init :: "nat \<Rightarrow> vm \<Rightarrow> vm" where
  "vm_cpu_init c vm = vm\<lparr>vm_cpus := vm_cpus vm OR shl 1 c\<rparr>"

fun calc_vcpu_id_loop :: "u64 \<Rightarrow> nat \<Rightarrow> nat list \<Rightarrow> nat" where
  "calc_vcpu_id_loop cpus vid [] = vid"
| "calc_vcpu_id_loop cpus vid (i # is') =
     calc_vcpu_id_loop cpus (if bit_get cpus i \<noteq> 0 then vid + 1 else vid) is'"

definition vm_calc_vcpu_id :: "nat \<Rightarrow> vm \<Rightarrow> nat" where
  "vm_calc_vcpu_id c vm = calc_vcpu_id_loop (vm_cpus vm) 0 [0..<c]"

definition vm_get_vcpu :: "vm \<Rightarrow> nat \<Rightarrow> vcpu option" where
  "vm_get_vcpu vm vcpuid = (if vcpuid < vm_cpu_num vm then Some (vm_vcpus vm vcpuid) else None)"

text \<open>\<open>arch_reset\<close> stands for \<open>vcpu_arch_init\<close> and \<open>vcpu_arch_reset\<close>, which set up the registers.\<close>

definition vm_vcpu_init :: "(nat \<Rightarrow> u64) \<Rightarrow> nat \<Rightarrow> vm \<Rightarrow> vm outcome" where
  "vm_vcpu_init arch_reset c vm =
     (let vid = vm_calc_vcpu_id c vm
      in case vm_get_vcpu vm vid of
           None \<Rightarrow> Inl NULL_DEREF
         | Some vcpu \<Rightarrow>
             Inr (vm\<lparr>vm_vcpus := (vm_vcpus vm)
               (vid := vcpu\<lparr>vcpu_id := vid, phys_id := c, vcpu_active := True, vcpu_regs := arch_reset\<rparr>)\<rparr>))"

section \<open>Translation between virtual and physical processors\<close>

definition vm_translate_to_pcpuid :: "vm \<Rightarrow> nat \<Rightarrow> nat option" where
  "vm_translate_to_pcpuid vm vcpuid =
     (case vm_get_vcpu vm vcpuid of None \<Rightarrow> None | Some vcpu \<Rightarrow> Some (phys_id vcpu))"

definition vm_translate_to_vcpuid :: "vm \<Rightarrow> nat \<Rightarrow> nat option" where
  "vm_translate_to_vcpuid vm pcpuid =
     (if vm_cpus vm AND shl 1 pcpuid \<noteq> 0 then Some (bit_count (vm_cpus vm AND (shl 1 pcpuid - 1)))
      else None)"

fun translate_mask_loop :: "(nat \<Rightarrow> nat option) \<Rightarrow> u64 \<Rightarrow> u64 \<Rightarrow> nat list \<Rightarrow> u64" where
  "translate_mask_loop tr msk pmask [] = pmask"
| "translate_mask_loop tr msk pmask (i # is') =
     translate_mask_loop tr msk
       (if msk AND shl 1 i \<noteq> 0 then (case tr i of None \<Rightarrow> pmask | Some s \<Rightarrow> pmask OR shl 1 s) else pmask) is'"

definition vm_translate_to_pcpu_mask :: "vm \<Rightarrow> u64 \<Rightarrow> nat \<Rightarrow> u64" where
  "vm_translate_to_pcpu_mask vm msk len = translate_mask_loop (vm_translate_to_pcpuid vm) msk 0 [0..<len]"

definition vm_translate_to_vcpu_mask :: "vm \<Rightarrow> u64 \<Rightarrow> nat \<Rightarrow> u64" where
  "vm_translate_to_vcpu_mask vm msk len = translate_mask_loop (vm_translate_to_vcpuid vm) msk 0 [0..<len]"

section \<open>Emulation\<close>

definition vm_emul_add_mem :: "emul_mem \<Rightarrow> vm \<Rightarrow> vm" where
  "vm_emul_add_mem emu vm = vm\<lparr>emul_mem_list := emul_mem_list vm @ [emu]\<rparr>"

definition vm_emul_add_reg :: "emul_reg \<Rightarrow> vm \<Rightarrow> vm" where
  "vm_emul_add_reg emu vm = vm\<lparr>emul_reg_list := emul_reg_list vm @ [emu]\<rparr>"

fun emul_mem_find :: "emul_mem list \<Rightarrow> u64 \<Rightarrow> nat option" where
  "emul_mem_find [] addr = None"
| "emul_mem_find (emu # emus) addr =
     (if addr \<ge> emu_va_base emu \<and> addr < emu_va_base emu + emu_size emu then Some (emu_handler emu)
      else emul_mem_find emus addr)"

fun emul_reg_find :: "emul_reg list \<Rightarrow> u64 \<Rightarrow> nat option" where
  "emul_reg_find [] addr = None"
| "emul_reg_find (emu # emus) addr =
     (if emu_addr emu = addr then Some (emu_reg_handler emu) else emul_reg_find emus addr)"

definition vm_emul_get_mem :: "vm \<Rightarrow> u64 \<Rightarrow> nat option" where
  "vm_emul_get_mem vm addr = emul_mem_find (emul_mem_list vm) addr"

definition vm_emul_get_reg :: "vm \<Rightarrow> u64 \<Rightarrow> nat option" where
  "vm_emul_get_reg vm addr = emul_reg_find (emul_reg_list vm) addr"

section \<open>Broadcast and execution\<close>

text \<open>
  \<open>1U << i\<close> is a 32-bit shift, taken modulo the width. The bound \<open>cpu_num - 1\<close> is unsigned. The
  loop ends only when it has found that many processors.
\<close>

partial_function (option) broadcast_loop ::
    "vm \<Rightarrow> nat \<Rightarrow> cpu_msg \<Rightarrow> nat \<Rightarrow> nat \<Rightarrow> 'a machine_scheme \<Rightarrow> 'a machine_scheme option" where
  "broadcast_loop vm c msg i n st =
     (if n < pred64 (vm_cpu_num vm) then
        (if ucast (shl (1 :: u32) i) AND vm_cpus vm \<noteq> 0 \<and> i \<noteq> c
         then broadcast_loop vm c msg (i + 1) (n + 1) (cpu_send_msg i msg st)
         else broadcast_loop vm c msg (i + 1) n st)
      else Some st)"

definition vm_msg_broadcast :: "nat \<Rightarrow> vm \<Rightarrow> cpu_msg \<Rightarrow> 'a machine_scheme \<Rightarrow> 'a machine_scheme option" where
  "vm_msg_broadcast c vm msg st = broadcast_loop vm c msg 0 0 st"

text \<open>What a processor goes on to do; \<open>is_on\<close> is the architecture's \<open>vcpu_arch_is_on\<close>.\<close>

datatype cpu_action = VCPU_ENTRY | CPU_STANDBY | CPU_POWERDOWN

definition vcpu_run :: "bool \<Rightarrow> vcpu \<Rightarrow> cpu_action" where
  "vcpu_run is_on vcpu =
     (if is_on then (if vcpu_active vcpu then VCPU_ENTRY else CPU_STANDBY) else CPU_POWERDOWN)"

definition interrupts_ipi_clear :: "nat \<Rightarrow> 'a machine_scheme \<Rightarrow> 'a machine_scheme" where
  "interrupts_ipi_clear c st = st\<lparr>ipi_pending := (ipi_pending st)(c := False)\<rparr>"

text \<open>
  A woken processor handles its messages first; the virtual processor it has, if any, is looked up
  after that, in the state the handlers left.
\<close>

definition wakeup_msgs ::
    "('a machine_scheme) msg_handler option list \<Rightarrow> nat \<Rightarrow> 'a machine_scheme \<Rightarrow> 'a machine_scheme outcome option" where
  "wakeup_msgs handlers c st =
     (if ipi_pending st c then cpu_msg_handler handlers c (interrupts_ipi_clear c st) else Some (Inr st))"

definition wakeup_action :: "cpu_action \<Rightarrow> ('b \<Rightarrow> bool) \<Rightarrow> ('b \<Rightarrow> vcpu option) \<Rightarrow> 'b \<Rightarrow> 'b \<times> cpu_action" where
  "wakeup_action idle is_on vcpu_at st =
     (st, case vcpu_at st of Some vcpu \<Rightarrow> vcpu_run (is_on st) vcpu | None \<Rightarrow> idle)"

definition cpu_standby_wakeup where
  "cpu_standby_wakeup handlers is_on vcpu_at c st =
     map_option (\<lambda>r. obind r (\<lambda>st. Inr (wakeup_action CPU_STANDBY is_on vcpu_at st))) (wakeup_msgs handlers c st)"

definition cpu_powerdown_wakeup where
  "cpu_powerdown_wakeup handlers is_on vcpu_at c st =
     map_option (\<lambda>r. obind r (\<lambda>st. Inr (wakeup_action CPU_POWERDOWN is_on vcpu_at st))) (wakeup_msgs handlers c st)"

section \<open>The numbering of virtual processors\<close>

text \<open>The number of processors of a map below a given one.\<close>

definition cpu_rank :: "u64 \<Rightarrow> nat \<Rightarrow> nat" where
  "cpu_rank cpus c = card {i. i < c \<and> bit cpus i}"

lemma finite_bits [simp]: "finite {i. bit (w :: 'a::len word) i}"
  by (rule finite_subset [of _ "{..<LENGTH('a)}"]) (auto dest: bit_imp_le_length)

lemma cpu_rank_less: "c < d \<Longrightarrow> bit cpus c \<Longrightarrow> cpu_rank cpus c < cpu_rank cpus d"
  unfolding cpu_rank_def by (rule psubset_card_mono) auto

lemma cpu_rank_bound: "bit cpus c \<Longrightarrow> cpu_rank cpus c < card {i. bit cpus i}"
  unfolding cpu_rank_def by (rule psubset_card_mono) auto

lemma cpu_rank_inj: "bit cpus c \<Longrightarrow> bit cpus d \<Longrightarrow> cpu_rank cpus c = cpu_rank cpus d \<Longrightarrow> c = d"
  using cpu_rank_less [of c d cpus] cpu_rank_less [of d c cpus] by (cases c d rule: linorder_cases) auto

text \<open>Every number below the size of the map is the rank of one of its processors.\<close>

lemma cpu_rank_surj:
  assumes "v < card {i. bit cpus i}"
  shows "\<exists>c. bit cpus c \<and> cpu_rank cpus c = v"
proof -
  let ?S = "{i. bit cpus i}"
  have "inj_on (cpu_rank cpus) ?S" by (auto intro: inj_onI cpu_rank_inj)
  then have "card (cpu_rank cpus ` ?S) = card {..<card ?S}" by (simp add: card_image)
  moreover have "cpu_rank cpus ` ?S \<subseteq> {..<card ?S}" using cpu_rank_bound by auto
  ultimately have "cpu_rank cpus ` ?S = {..<card ?S}" by (intro card_subset_eq) auto
  with assms show ?thesis by (metis (mono_tags, lifting) imageE lessThan_iff mem_Collect_eq)
qed

lemma calc_vcpu_id_loop_card:
  "calc_vcpu_id_loop cpus v is' = v + length (filter (\<lambda>i. bit_get cpus i \<noteq> 0) is')"
  by (induction is' arbitrary: v) auto

lemma vm_calc_vcpu_id_rank:
  assumes "c \<le> 64"
  shows "vm_calc_vcpu_id c vm = cpu_rank (vm_cpus vm) c"
proof -
  have "length (filter (\<lambda>i. bit_get (vm_cpus vm) i \<noteq> 0) [0..<c]) = card {i. i < c \<and> bit (vm_cpus vm) i}"
    using assms by (simp add: length_filter_conv_card bit_get_eq_0 cong: conj_cong)
  then show ?thesis by (simp add: vm_calc_vcpu_id_def calc_vcpu_id_loop_card cpu_rank_def)
qed

lemma shl_one_u64: "c < 64 \<Longrightarrow> shl (1 :: u64) c = 2 ^ c"
  by (simp add: shl_def)

lemma vm_translate_to_vcpuid_rank:
  assumes "c < 64"
  shows "vm_translate_to_vcpuid vm c = (if bit (vm_cpus vm) c then Some (cpu_rank (vm_cpus vm) c) else None)"
proof -
  have "bit (vm_cpus vm AND (2 ^ c - 1)) i \<longleftrightarrow> i < c \<and> bit (vm_cpus vm) i" for i
    using assms bit_imp_le_length [of "vm_cpus vm" i]
    by (auto simp: bit_and_iff bit_mask_iff simp flip: mask_eq_exp_minus_1)
  then show ?thesis
    using assms by (simp add: vm_translate_to_vcpuid_def shl_one_u64 bit_count_eq_card cpu_rank_def)
qed

text \<open>The machine's processors are numbered in the order of the physical ones.\<close>

definition vcpus_numbered :: "vm \<Rightarrow> bool" where
  "vcpus_numbered vm \<longleftrightarrow> vm_cpu_num vm = card {c. bit (vm_cpus vm) c} \<and>
     (\<forall>c. bit (vm_cpus vm) c \<longrightarrow>
        phys_id (vm_vcpus vm (cpu_rank (vm_cpus vm) c)) = c \<and>
        vcpu_id (vm_vcpus vm (cpu_rank (vm_cpus vm) c)) = cpu_rank (vm_cpus vm) c \<and>
        vcpu_active (vm_vcpus vm (cpu_rank (vm_cpus vm) c)))"

lemma fold_vm_cpu_init:
  assumes "\<forall>c \<in> set cs. c < 64"
  shows "(bit (vm_cpus (fold vm_cpu_init cs vm)) c \<longleftrightarrow> bit (vm_cpus vm) c \<or> c \<in> set cs) \<and>
    vm_cpu_num (fold vm_cpu_init cs vm) = vm_cpu_num vm"
  using assms
proof (induction cs arbitrary: vm)
  case (Cons a cs)
  have "bit (vm_cpus (vm_cpu_init a vm)) c \<longleftrightarrow> bit (vm_cpus vm) c \<or> c = a"
    using Cons.prems by (auto simp: vm_cpu_init_def shl_one_u64 bit_or_iff bit_exp_iff)
  moreover have "vm_cpu_num (vm_cpu_init a vm) = vm_cpu_num vm" by (simp add: vm_cpu_init_def)
  ultimately show ?case using Cons.IH [of "vm_cpu_init a vm"] Cons.prems by auto
qed simp

lemma ofold_vm_vcpu_init:
  assumes "distinct cs" and "\<forall>c \<in> set cs. bit (vm_cpus vm) c" and "vm_cpu_num vm = card {c. bit (vm_cpus vm) c}"
  shows "\<exists>vm'. ofold (vm_vcpu_init r) cs vm = Inr vm' \<and> vm_cpus vm' = vm_cpus vm \<and> vm_cpu_num vm' = vm_cpu_num vm \<and>
    (\<forall>c \<in> set cs. phys_id (vm_vcpus vm' (cpu_rank (vm_cpus vm) c)) = c \<and>
       vcpu_id (vm_vcpus vm' (cpu_rank (vm_cpus vm) c)) = cpu_rank (vm_cpus vm) c \<and>
       vcpu_active (vm_vcpus vm' (cpu_rank (vm_cpus vm) c))) \<and>
    (\<forall>v. v \<notin> cpu_rank (vm_cpus vm) ` set cs \<longrightarrow> vm_vcpus vm' v = vm_vcpus vm v)"
  using assms
proof (induction cs arbitrary: vm)
  case Nil
  then show ?case by simp
next
  case (Cons a cs)
  let ?r = "cpu_rank (vm_cpus vm)"
  let ?vm = "vm\<lparr>vm_vcpus := (vm_vcpus vm)(?r a := (vm_vcpus vm (?r a))
      \<lparr>vcpu_id := ?r a, phys_id := a, vcpu_active := True, vcpu_regs := r\<rparr>)\<rparr>"
  have a: "bit (vm_cpus vm) a" "a < 64" using Cons.prems(2) bit_imp_le_length [of "vm_cpus vm" a] by auto
  then have "?r a < vm_cpu_num vm" using cpu_rank_bound Cons.prems(3) by simp
  then have init: "vm_vcpu_init r a vm = Inr ?vm"
    using a by (simp add: vm_vcpu_init_def vm_calc_vcpu_id_rank vm_get_vcpu_def Let_def)
  obtain vm' where vm': "ofold (vm_vcpu_init r) cs ?vm = Inr vm'" "vm_cpus vm' = vm_cpus vm" "vm_cpu_num vm' = vm_cpu_num vm"
      "\<forall>c \<in> set cs. phys_id (vm_vcpus vm' (?r c)) = c \<and> vcpu_id (vm_vcpus vm' (?r c)) = ?r c \<and> vcpu_active (vm_vcpus vm' (?r c))"
      "\<forall>v. v \<notin> ?r ` set cs \<longrightarrow> vm_vcpus vm' v = vm_vcpus ?vm v"
    using Cons.IH [of ?vm] Cons.prems by auto
  have "?r a \<notin> ?r ` set cs" using Cons.prems(1,2) cpu_rank_inj a(1) by fastforce
  then have "vm_vcpus vm' (?r a) = vm_vcpus ?vm (?r a)" using vm'(5) by blast
  with init vm' show ?case by (intro exI [of _ vm']) simp
qed

lemma vcpus_numbered_init:
  assumes "distinct cs" and "\<forall>c \<in> set cs. c < 64" and "length cs = vm_cpu_num vm" and "vm_cpus vm = 0"
    and "distinct cs'" and "set cs' = set cs"
  shows "\<exists>vm'. ofold (vm_vcpu_init r) cs' (fold vm_cpu_init cs vm) = Inr vm' \<and> vcpus_numbered vm' \<and>
    (\<forall>c. bit (vm_cpus vm') c \<longleftrightarrow> c \<in> set cs)"
proof -
  let ?vm = "fold vm_cpu_init cs vm"
  have bits: "bit (vm_cpus ?vm) c \<longleftrightarrow> c \<in> set cs" for c
    using fold_vm_cpu_init [OF assms(2), of vm c] assms(4) by simp
  then have card: "vm_cpu_num ?vm = card {c. bit (vm_cpus ?vm) c}"
    using fold_vm_cpu_init [OF assms(2), of vm] assms(1,3) by (simp add: distinct_card)
  have "\<forall>c \<in> set cs'. bit (vm_cpus ?vm) c" using bits assms(6) by simp
  from ofold_vm_vcpu_init [OF assms(5) this card] obtain vm' where
    vm': "ofold (vm_vcpu_init r) cs' ?vm = Inr vm'" "vm_cpus vm' = vm_cpus ?vm" "vm_cpu_num vm' = vm_cpu_num ?vm"
      "\<forall>c \<in> set cs'. phys_id (vm_vcpus vm' (cpu_rank (vm_cpus ?vm) c)) = c \<and>
        vcpu_id (vm_vcpus vm' (cpu_rank (vm_cpus ?vm) c)) = cpu_rank (vm_cpus ?vm) c \<and>
        vcpu_active (vm_vcpus vm' (cpu_rank (vm_cpus ?vm) c))" by blast
  have "vm_cpu_num vm' = card {c. bit (vm_cpus vm') c}" unfolding vm'(2,3) by (rule card)
  with bits assms(6) vm'(2,4) have "vcpus_numbered vm'" by (simp add: vcpus_numbered_def)
  with vm'(1,2) bits show ?thesis by (intro exI [of _ vm']) simp
qed

lemma vcpus_numbered_translate:
  assumes "vcpus_numbered vm" and "bit (vm_cpus vm) c"
  shows "vm_translate_to_vcpuid vm c = Some (cpu_rank (vm_cpus vm) c)"
    and "vm_translate_to_pcpuid vm (cpu_rank (vm_cpus vm) c) = Some c"
proof -
  have "c < 64" using bit_imp_le_length [OF assms(2)] by simp
  then show "vm_translate_to_vcpuid vm c = Some (cpu_rank (vm_cpus vm) c)"
    using assms(2) by (simp add: vm_translate_to_vcpuid_rank)
  show "vm_translate_to_pcpuid vm (cpu_rank (vm_cpus vm) c) = Some c"
    using assms cpu_rank_bound [OF assms(2)]
    by (simp add: vm_translate_to_pcpuid_def vm_get_vcpu_def vcpus_numbered_def)
qed

lemma vm_translate_to_pcpuid_eq:
  assumes "vcpus_numbered vm"
  shows "vm_translate_to_pcpuid vm v = Some c \<longleftrightarrow> bit (vm_cpus vm) c \<and> cpu_rank (vm_cpus vm) c = v"
proof
  assume t: "vm_translate_to_pcpuid vm v = Some c"
  then have "v < vm_cpu_num vm" by (simp add: vm_translate_to_pcpuid_def vm_get_vcpu_def split: if_splits)
  then obtain d where d: "bit (vm_cpus vm) d" "cpu_rank (vm_cpus vm) d = v"
    using cpu_rank_surj assms by (auto simp: vcpus_numbered_def)
  with vcpus_numbered_translate(2) [OF assms d(1)] t show "bit (vm_cpus vm) c \<and> cpu_rank (vm_cpus vm) c = v"
    by simp
qed (use vcpus_numbered_translate(2) [OF assms] in auto)

section \<open>Masks\<close>

lemma bit_translate_mask_loop:
  assumes "\<forall>i \<in> set is'. i < 64" and "\<And>i s. i \<in> set is' \<Longrightarrow> tr i = Some s \<Longrightarrow> s < 64"
  shows "bit (translate_mask_loop tr msk pmask is') j \<longleftrightarrow>
    bit pmask j \<or> (\<exists>i \<in> set is'. bit msk i \<and> tr i = Some j)"
  using assms
proof (induction is' arbitrary: pmask)
  case Nil
  then show ?case by simp
next
  case (Cons i is')
  have i: "i < 64" "\<And>s. tr i = Some s \<Longrightarrow> s < 64" using Cons.prems by auto
  let ?p = "if msk AND shl 1 i \<noteq> 0 then (case tr i of None \<Rightarrow> pmask | Some s \<Rightarrow> pmask OR shl 1 s) else pmask"
  have p: "bit ?p j \<longleftrightarrow> bit pmask j \<or> (bit msk i \<and> tr i = Some j)"
    using i by (auto simp: shl_one_u64 bit_or_iff bit_exp_iff split: option.splits)
  have "bit (translate_mask_loop tr msk ?p is') j \<longleftrightarrow> bit ?p j \<or> (\<exists>i \<in> set is'. bit msk i \<and> tr i = Some j)"
    by (rule Cons.IH) (use Cons.prems in auto)
  then show ?case unfolding translate_mask_loop.simps p by auto
qed

lemma bit_to_pcpu_mask:
  assumes "vcpus_numbered vm" and "len \<le> 64"
  shows "bit (vm_translate_to_pcpu_mask vm msk len) c \<longleftrightarrow>
    bit (vm_cpus vm) c \<and> cpu_rank (vm_cpus vm) c < len \<and> bit msk (cpu_rank (vm_cpus vm) c)"
proof -
  have "bit (vm_translate_to_pcpu_mask vm msk len) c \<longleftrightarrow>
      (\<exists>i \<in> set [0..<len]. bit msk i \<and> vm_translate_to_pcpuid vm i = Some c)"
    unfolding vm_translate_to_pcpu_mask_def using assms(2) vm_translate_to_pcpuid_eq [OF assms(1)]
    by (subst bit_translate_mask_loop) (auto dest: bit_imp_le_length)
  then show ?thesis using vm_translate_to_pcpuid_eq [OF assms(1)] by auto
qed

lemma cpu_rank_le: "cpu_rank cpus c \<le> c"
proof -
  have "card {i. i < c \<and> bit cpus i} \<le> card {..<c}" by (rule card_mono) auto
  then show ?thesis by (simp add: cpu_rank_def)
qed

lemma bit_to_vcpu_mask:
  assumes "vcpus_numbered vm" and "len \<le> 64"
  shows "bit (vm_translate_to_vcpu_mask vm msk len) v \<longleftrightarrow>
    (\<exists>c<len. bit msk c \<and> bit (vm_cpus vm) c \<and> cpu_rank (vm_cpus vm) c = v)"
proof -
  have tr: "vm_translate_to_vcpuid vm c = Some v \<longleftrightarrow> bit (vm_cpus vm) c \<and> cpu_rank (vm_cpus vm) c = v"
    if "c < len" for c v
    using that assms(2) by (auto simp: vm_translate_to_vcpuid_rank)
  have "bit (vm_translate_to_vcpu_mask vm msk len) v \<longleftrightarrow>
      (\<exists>i \<in> set [0..<len]. bit msk i \<and> vm_translate_to_vcpuid vm i = Some v)"
  proof -
    have "s < 64" if "i < len" "vm_translate_to_vcpuid vm i = Some s" for i s
      using that tr [of i s] cpu_rank_le [of "vm_cpus vm" i] assms(2) by simp
    then show ?thesis unfolding vm_translate_to_vcpu_mask_def using assms(2)
      by (subst bit_translate_mask_loop) auto
  qed
  then show ?thesis using tr by auto
qed

lemma mask_round_trip:
  assumes "vcpus_numbered vm" and "\<And>v. bit msk v \<Longrightarrow> v < vm_cpu_num vm"
  shows "vm_translate_to_vcpu_mask vm (vm_translate_to_pcpu_mask vm msk 64) 64 = msk"
proof (rule bit_word_eqI)
  fix v :: nat
  assume v: "v < LENGTH(64)"
  have "bit (vm_translate_to_vcpu_mask vm (vm_translate_to_pcpu_mask vm msk 64) 64) v \<longleftrightarrow>
      (\<exists>c<64. bit (vm_cpus vm) c \<and> bit msk v \<and> cpu_rank (vm_cpus vm) c = v)"
    using v by (auto simp: bit_to_vcpu_mask [OF assms(1)] bit_to_pcpu_mask [OF assms(1)])
  also have "\<dots> \<longleftrightarrow> bit msk v"
  proof
    assume m: "bit msk v"
    then have "v < card {i. bit (vm_cpus vm) i}" using assms by (simp add: vcpus_numbered_def)
    then obtain c where "bit (vm_cpus vm) c" "cpu_rank (vm_cpus vm) c = v" using cpu_rank_surj by blast
    with m bit_imp_le_length [of "vm_cpus vm" c]
    show "\<exists>c<64. bit (vm_cpus vm) c \<and> bit msk v \<and> cpu_rank (vm_cpus vm) c = v"
      by (intro exI [of _ c]) simp
  qed blast
  finally show "bit (vm_translate_to_vcpu_mask vm (vm_translate_to_pcpu_mask vm msk 64) 64) v \<longleftrightarrow> bit msk v" .
qed

section \<open>The broadcast\<close>

definition broadcast_targets :: "vm \<Rightarrow> nat \<Rightarrow> nat list" where
  "broadcast_targets vm c = filter (\<lambda>i. bit (vm_cpus vm) i \<and> i \<noteq> c) [0..<32]"

lemma broadcast_test:
  "i < 32 \<Longrightarrow> ucast (shl (1 :: u32) i) AND cpus \<noteq> 0 \<longleftrightarrow> bit (cpus :: u64) i"
proof -
  assume i: "i < 32"
  have "ucast (shl (1 :: u32) i) = (2 ^ i :: u64)"
    using i by (intro bit_word_eqI) (auto simp: shl_def bit_ucast_iff bit_exp_iff)
  then show ?thesis by (simp add: and.commute [of _ cpus])
qed

lemma broadcast_loop_sends:
  fixes st :: "'a machine_scheme"
  assumes "pred64 (vm_cpu_num vm) = length (broadcast_targets vm c)" and "i \<le> 32"
    and "n = length (filter (\<lambda>i. bit (vm_cpus vm) i \<and> i \<noteq> c) [0..<i])"
  shows "broadcast_loop vm c msg i n st =
    Some (fold (\<lambda>t. cpu_send_msg t msg) (filter (\<lambda>i. bit (vm_cpus vm) i \<and> i \<noteq> c) [i..<32]) st)"
  using assms(2,3)
proof (induction "32 - i" arbitrary: i n st)
  case 0
  then have "i = 32" by simp
  with 0 assms(1) show ?case by (subst broadcast_loop.simps) (simp add: broadcast_targets_def)
next
  case (Suc k)
  let ?P = "\<lambda>i. bit (vm_cpus vm) i \<and> i \<noteq> c"
  have i: "i < 32" using Suc(2) by simp
  have split: "filter ?P [0..<32] = filter ?P [0..<i] @ filter ?P [i..<32]"
    using upt_add_eq_append [of 0 i "32 - i"] i by simp
  show ?case
  proof (cases "n < pred64 (vm_cpu_num vm)")
    case False
    then have "filter ?P [i..<32] = []" using assms(1) split Suc.prems(2) by (simp add: broadcast_targets_def)
    with False show ?thesis by (subst broadcast_loop.simps) simp
  next
    case True
    have IH: "broadcast_loop vm c msg (i + 1) (length (filter ?P [0..<i + 1])) st' =
        Some (fold (\<lambda>t. cpu_send_msg t msg) (filter ?P [i + 1..<32]) st')" for st' :: "'a machine_scheme"
      by (rule Suc.hyps(1)) (use Suc.hyps(2) i in auto)
    have "[i..<32] = i # [i + 1..<32]" using i upt_conv_Cons by simp
    show ?thesis
    proof (cases "?P i")
      case P: True
      then have "length (filter ?P [0..<i + 1]) = n + 1" using Suc.prems(2) by simp
      with IH [of "cpu_send_msg i msg st"] True P \<open>[i..<32] = i # [i + 1..<32]\<close> show ?thesis
        by (subst broadcast_loop.simps) (simp add: broadcast_test [OF i])
    next
      case P: False
      then have "length (filter ?P [0..<i + 1]) = n" using Suc.prems(2) by auto
      with IH [of st] True P \<open>[i..<32] = i # [i + 1..<32]\<close> show ?thesis
        by (subst broadcast_loop.simps) (auto simp add: broadcast_test [OF i])
    qed
  qed
qed

lemma vm_msg_broadcast_sends:
  assumes "vcpus_numbered vm" and "\<forall>i. bit (vm_cpus vm) i \<longrightarrow> i < 32" and "bit (vm_cpus vm) c"
  shows "vm_msg_broadcast c vm msg st = Some (fold (\<lambda>t. cpu_send_msg t msg) (broadcast_targets vm c) st)"
proof -
  let ?S = "{i. bit (vm_cpus vm) i}"
  have "set (broadcast_targets vm c) = ?S - {c}" using assms(2) by (auto simp: broadcast_targets_def)
  moreover have "distinct (broadcast_targets vm c)" by (simp add: broadcast_targets_def)
  ultimately have "length (broadcast_targets vm c) = card (?S - {c})" by (metis distinct_card)
  also have "\<dots> = card ?S - 1" using assms(3) by (simp add: card_Diff_singleton)
  finally have "length (broadcast_targets vm c) = vm_cpu_num vm - 1" using assms(1) by (simp add: vcpus_numbered_def)
  moreover have "0 < vm_cpu_num vm"
    using assms(1,3) by (auto simp: vcpus_numbered_def card_gt_0_iff)
  moreover have "vm_cpu_num vm \<le> 64"
  proof -
    have "?S \<subseteq> {..<64}" by (auto dest: bit_imp_le_length)
    then have "card ?S \<le> 64" using card_mono [of "{..<64 :: nat}" ?S] by simp
    then show ?thesis using assms(1) by (simp add: vcpus_numbered_def)
  qed
  ultimately have "pred64 (vm_cpu_num vm) = length (broadcast_targets vm c)" by simp
  from broadcast_loop_sends [OF this, of 0 0 msg st] show ?thesis
    by (simp add: vm_msg_broadcast_def broadcast_targets_def)
qed

section \<open>Properties\<close>

text \<open>C23: whatever the order in which its processors initialise, a machine that got as many processors
  as it asked for ends with its virtual processors numbered from 0 in the order of the physical
  ones: no virtual processor is missing, the translations between the two numberings are inverse to
  each other and reject everything else, and a mask of virtual processors is the same after its
  translation to physical processors and back.\<close>
theorem vcpu_numbering:
  assumes "distinct cs" and "\<forall>c \<in> set cs. c < 64" and "length cs = vm_cpu_num vm" and "vm_cpus vm = 0"
    and "distinct cs'" and "set cs' = set cs"
  shows "\<exists>vm'. ofold (vm_vcpu_init r) cs' (fold vm_cpu_init cs vm) = Inr vm' \<and>
    (\<forall>c<64. \<forall>v. vm_translate_to_vcpuid vm' c = Some v \<longleftrightarrow> vm_translate_to_pcpuid vm' v = Some c) \<and>
    (\<forall>c<64. vm_translate_to_vcpuid vm' c \<noteq> None \<longleftrightarrow> c \<in> set cs) \<and>
    (\<forall>v. vm_translate_to_pcpuid vm' v \<noteq> None \<longleftrightarrow> v < length cs) \<and>
    (\<forall>c d v w. vm_translate_to_pcpuid vm' v = Some c \<and> vm_translate_to_pcpuid vm' w = Some d \<and> v < w \<longrightarrow> c < d) \<and>
    (\<forall>msk. (\<forall>v. bit msk v \<longrightarrow> v < length cs) \<longrightarrow>
      vm_translate_to_vcpu_mask vm' (vm_translate_to_pcpu_mask vm' msk 64) 64 = msk)"
proof -
  obtain vm' where vm': "ofold (vm_vcpu_init r) cs' (fold vm_cpu_init cs vm) = Inr vm'"
    "vcpus_numbered vm'" "\<And>c. bit (vm_cpus vm') c \<longleftrightarrow> c \<in> set cs"
    using vcpus_numbered_init [OF assms] by blast
  note eq = vm_translate_to_pcpuid_eq [OF vm'(2)]
  have num: "vm_cpu_num vm' = length cs" using vm'(2,3) assms(1) by (simp add: vcpus_numbered_def distinct_card)
  have "vm_translate_to_vcpuid vm' c = Some v \<longleftrightarrow> vm_translate_to_pcpuid vm' v = Some c" if "c < 64" for c v
    using that by (auto simp: eq vm_translate_to_vcpuid_rank)
  moreover have "vm_translate_to_vcpuid vm' c \<noteq> None \<longleftrightarrow> c \<in> set cs" if "c < 64" for c
    using that vm'(3) by (simp add: vm_translate_to_vcpuid_rank)
  moreover have "vm_translate_to_pcpuid vm' v \<noteq> None \<longleftrightarrow> v < length cs" for v
    by (simp add: vm_translate_to_pcpuid_def vm_get_vcpu_def num)
  moreover have "c < d" if "vm_translate_to_pcpuid vm' v = Some c" "vm_translate_to_pcpuid vm' w = Some d" "v < w" for c d v w
    using that cpu_rank_less [of d c "vm_cpus vm'"] unfolding eq by (metis less_asym less_irrefl_nat linorder_neqE_nat)
  moreover have "vm_translate_to_vcpu_mask vm' (vm_translate_to_pcpu_mask vm' msk 64) 64 = msk"
    if "\<forall>v. bit msk v \<longrightarrow> v < length cs" for msk
    using mask_round_trip [OF vm'(2)] that num by simp
  ultimately show ?thesis using vm'(1) by blast
qed

definition demo_vm_state :: vm where
  "demo_vm_state = \<lparr>vm_id = 0, vm_master = 2, vm_cpu_num = 2, vm_cpus = 0,
     vm_vcpus = (\<lambda>_. \<lparr>vcpu_id = 0, phys_id = 0, vcpu_active = False, vcpu_regs = (\<lambda>_. 0), vcpu_irqs = []\<rparr>),
     emul_mem_list = [], emul_reg_list = [], vm_ipcs = [], vm_remio_devs = []\<rparr>"

theorem vcpu_numbering_witness:
  "\<exists>vm'. ofold (vm_vcpu_init (\<lambda>_. 0)) [2, 5] (fold vm_cpu_init [5, 2] demo_vm_state) = Inr vm' \<and>
     vm_translate_to_pcpuid vm' 1 \<noteq> None \<and> vm_translate_to_pcpuid vm' 2 = None"
proof -
  have "distinct [5, 2 :: nat]" "\<forall>c \<in> set [5, 2 :: nat]. c < 64" "length [5, 2 :: nat] = vm_cpu_num demo_vm_state"
    "vm_cpus demo_vm_state = 0" "distinct [2, 5 :: nat]" "set [2, 5 :: nat] = set [5, 2]"
    by (auto simp: demo_vm_state_def)
  from vcpu_numbering [OF this, of "\<lambda>_. 0"] obtain vm' where
    run: "ofold (vm_vcpu_init (\<lambda>_. 0)) [2, 5] (fold vm_cpu_init [5, 2] demo_vm_state) = Inr vm'"
    and ids: "\<forall>v. vm_translate_to_pcpuid vm' v \<noteq> None \<longleftrightarrow> v < length [5, 2 :: nat]" by blast
  have "vm_translate_to_pcpuid vm' 1 \<noteq> None" "vm_translate_to_pcpuid vm' 2 = None"
    using spec [OF ids, of 1] spec [OF ids, of 2] by simp_all
  with run show ?thesis by blast
qed

text \<open>C24: on a machine whose processors are numbered below 32, a broadcast ends, and every other
  processor of the machine gets the message exactly once, behind what it had, unless its queue is
  full; the sender and the processors of other machines get nothing.\<close>
theorem broadcast_reaches_all:
  assumes "vcpus_numbered vm" and "\<forall>i. bit (vm_cpus vm) i \<longrightarrow> i < 32" and "bit (vm_cpus vm) c"
    and "machine_ok st"
  shows "\<exists>st'. vm_msg_broadcast c vm msg st = Some st' \<and>
    (\<forall>d. inbox st' d = inbox st d @ (if bit (vm_cpus vm) d \<and> d \<noteq> c \<and> has_room st d then [msg] else []))"
proof -
  have "distinct (broadcast_targets vm c)" by (simp add: broadcast_targets_def)
  note sent = send_to_all [OF assms(4) this]
  have "d \<in> set (broadcast_targets vm c) \<longleftrightarrow> bit (vm_cpus vm) d \<and> d \<noteq> c" for d
    using assms(2) by (auto simp: broadcast_targets_def)
  then show ?thesis using vm_msg_broadcast_sends [OF assms(1-3), of msg st] sent(2) [of msg] by auto
qed

theorem broadcast_reaches_all_witness:
  "\<exists>vm st'. vm_msg_broadcast 2 vm \<lparr>msg_handler = 0, msg_event = 0, msg_data = 7\<rparr>
       \<lparr>cpu_interfaces = idle_interfaces, ipi_pending = (\<lambda>_. False), handling_msgs = (\<lambda>_. False)\<rparr> = Some st' \<and>
     inbox st' 5 = [\<lparr>msg_handler = 0, msg_event = 0, msg_data = 7\<rparr>] \<and> inbox st' 2 = [] \<and> inbox st' 3 = []"
proof -
  let ?st = "\<lparr>cpu_interfaces = idle_interfaces, ipi_pending = (\<lambda>_. False), handling_msgs = (\<lambda>_. False)\<rparr>"
  have "distinct [5, 2 :: nat]" "\<forall>c \<in> set [5, 2 :: nat]. c < 64" "length [5, 2 :: nat] = vm_cpu_num demo_vm_state"
    "vm_cpus demo_vm_state = 0" "distinct [2, 5 :: nat]" "set [2, 5 :: nat] = set [5, 2]"
    by (auto simp: demo_vm_state_def)
  from vcpus_numbered_init [OF this, of "\<lambda>_. 0"] obtain vm' where
    vm': "vcpus_numbered vm'" "\<And>c. bit (vm_cpus vm') c \<longleftrightarrow> c \<in> set [5, 2]" by blast
  have idle: "machine_ok ?st" "inbox ?st c = []" "has_room ?st c" for c
    by (rule idle_machine, simp)+
  have "\<forall>i. bit (vm_cpus vm') i \<longrightarrow> i < 32" "bit (vm_cpus vm') 2" using vm'(2) by auto
  from broadcast_reaches_all [OF vm'(1) this idle(1), of "\<lparr>msg_handler = 0, msg_event = 0, msg_data = 7\<rparr>"]
  obtain st' where st': "vm_msg_broadcast 2 vm' \<lparr>msg_handler = 0, msg_event = 0, msg_data = 7\<rparr> ?st = Some st'"
    and box: "\<And>d. inbox st' d = inbox ?st d @
      (if bit (vm_cpus vm') d \<and> d \<noteq> 2 \<and> has_room ?st d then [\<lparr>msg_handler = 0, msg_event = 0, msg_data = 7\<rparr>] else [])"
    by blast
  have "inbox st' 5 = [\<lparr>msg_handler = 0, msg_event = 0, msg_data = 7\<rparr>]" "inbox st' 2 = []" "inbox st' 3 = []"
    unfolding box idle(2) vm'(2) using idle(3) by simp_all
  with st' show ?thesis by blast
qed

end
