(* ===== verification/Hv_State.thy ===== *)
theory Hv_State
  imports Vm
begin

text \<open>
  The state the hypercalls and message handlers of the hypervisor work on: the machine of
  \<open>Cpu\<close> with the virtual machines, the virtual processor each processor runs (\<open>cpu()->vcpu\<close>) and
  the table of shared memories (\<open>src/src/core/shmem.c\<close>). It is extensible: the Remote I/O adds its
  devices and requests. Access to the virtual processor of a core that runs none is the null
  pointer access of the code.
\<close>

text \<open>\<open>hv_vcpu\<close> gives the machine and the number of the virtual processor.\<close>

record hv = machine +
  hv_vm :: "nat \<Rightarrow> vm"
  hv_vcpu :: "nat \<Rightarrow> (nat \<times> nat) option"
  hv_shmem :: "shmem list"

definition cpu_vcpu :: "nat \<Rightarrow> 'a hv_scheme \<Rightarrow> vcpu option" where
  "cpu_vcpu c st = (case hv_vcpu st c of None \<Rightarrow> None | Some (v, i) \<Rightarrow> Some (vm_vcpus (hv_vm st v) i))"

definition cpu_vm :: "nat \<Rightarrow> 'a hv_scheme \<Rightarrow> vm option" where
  "cpu_vm c st = (case hv_vcpu st c of None \<Rightarrow> None | Some (v, i) \<Rightarrow> Some (hv_vm st v))"

definition cpu_vcpu_update :: "nat \<Rightarrow> (vcpu \<Rightarrow> vcpu) \<Rightarrow> 'a hv_scheme \<Rightarrow> 'a hv_scheme outcome" where
  "cpu_vcpu_update c f st =
     (case hv_vcpu st c of
        None \<Rightarrow> Inl NULL_DEREF
      | Some (v, i) \<Rightarrow>
          Inr (st\<lparr>hv_vm := (hv_vm st)(v := (hv_vm st v)
            \<lparr>vm_vcpus := (vm_vcpus (hv_vm st v))(i := f (vm_vcpus (hv_vm st v) i))\<rparr>)\<rparr>))"

section \<open>Registers and interrupts of the running virtual processor\<close>

text \<open>
  The register file of AArch64: number 31 reads as zero and is not written. The RISC-V one differs
  from it at 0, which is its zero register, and at 31; hypercalls use neither.
\<close>

definition vcpu_readreg :: "nat \<Rightarrow> vcpu \<Rightarrow> u64" where
  "vcpu_readreg r vcpu = (if r > 30 then 0 else vcpu_regs vcpu r)"

definition vcpu_writereg :: "nat \<Rightarrow> u64 \<Rightarrow> vcpu \<Rightarrow> vcpu" where
  "vcpu_writereg r v vcpu = (if r > 30 then vcpu else vcpu\<lparr>vcpu_regs := (vcpu_regs vcpu)(r := v)\<rparr>)"

lemma vcpu_writereg_active [simp]: "vcpu_active (vcpu_writereg r v vcpu) = vcpu_active vcpu"
  by (simp add: vcpu_writereg_def)

definition vcpu_inject_irq :: "irqid \<Rightarrow> vcpu \<Rightarrow> vcpu" where
  "vcpu_inject_irq i vcpu = vcpu\<lparr>vcpu_irqs := vcpu_irqs vcpu @ [i]\<rparr>"

text \<open>Where an architecture keeps the arguments and the results of a hypercall.\<close>

record hypercall_regs =
  HYPCALL_IN_ARG_REG :: "nat \<Rightarrow> nat"
  HYPCALL_OUT_ARG_REG :: "nat \<Rightarrow> nat"

definition hypercall_regs_armv8 :: hypercall_regs where
  "hypercall_regs_armv8 = \<lparr>HYPCALL_IN_ARG_REG = (\<lambda>a. a + 1), HYPCALL_OUT_ARG_REG = (\<lambda>a. a + 1)\<rparr>"

definition hypercall_regs_riscv :: hypercall_regs where
  "hypercall_regs_riscv = \<lparr>HYPCALL_IN_ARG_REG = (\<lambda>a. a + 10), HYPCALL_OUT_ARG_REG = (\<lambda>a. a + 2 + 10)\<rparr>"

definition hypercall_get_arg :: "hypercall_regs \<Rightarrow> vcpu \<Rightarrow> nat \<Rightarrow> u64" where
  "hypercall_get_arg R vcpu arg_index = vcpu_readreg (HYPCALL_IN_ARG_REG R arg_index) vcpu"

definition hypercall_set_ret :: "hypercall_regs \<Rightarrow> nat \<Rightarrow> u64 \<Rightarrow> vcpu \<Rightarrow> vcpu" where
  "hypercall_set_ret R arg_index v vcpu = vcpu_writereg (HYPCALL_OUT_ARG_REG R arg_index) v vcpu"

text \<open>The results of a hypercall are negated error codes, as \<open>long int\<close>.\<close>

definition HC_E_SUCCESS :: int where "HC_E_SUCCESS = 0"
definition HC_E_FAILURE :: int where "HC_E_FAILURE = 1"
definition HC_E_INVAL_ID :: int where "HC_E_INVAL_ID = 2"
definition HC_E_INVAL_ARGS :: int where "HC_E_INVAL_ARGS = 3"

section \<open>Facts\<close>

lemma cpu_vcpu_update_fields:
  assumes "cpu_vcpu_update c f st = Inr st'"
  shows "cpu_interfaces st' = cpu_interfaces st" and "ipi_pending st' = ipi_pending st"
    and "handling_msgs st' = handling_msgs st" and "hv_vcpu st' = hv_vcpu st" and "hv_shmem st' = hv_shmem st"
    and "hv.more st' = hv.more st"
    and "vm_id (hv_vm st' v) = vm_id (hv_vm st v)" and "vm_cpus (hv_vm st' v) = vm_cpus (hv_vm st v)"
    and "vm_cpu_num (hv_vm st' v) = vm_cpu_num (hv_vm st v)"
    and "vm_ipcs (hv_vm st' v) = vm_ipcs (hv_vm st v)" and "vm_remio_devs (hv_vm st' v) = vm_remio_devs (hv_vm st v)"
  using assms by (auto simp: cpu_vcpu_update_def split: option.splits)

lemma cpu_vcpu_update_some:
  assumes "hv_vcpu st c = Some (v, i)"
  shows "\<exists>st'. cpu_vcpu_update c f st = Inr st' \<and> cpu_vcpu c st' = Some (f (vm_vcpus (hv_vm st v) i))"
  using assms by (simp add: cpu_vcpu_update_def cpu_vcpu_def)

text \<open>No two processors run the same virtual processor.\<close>

definition vcpus_apart :: "'a hv_scheme \<Rightarrow> bool" where
  "vcpus_apart st \<longleftrightarrow> (\<forall>c d p. hv_vcpu st c = Some p \<and> hv_vcpu st d = Some p \<longrightarrow> c = d)"

lemma cpu_vcpu_update_other:
  assumes "cpu_vcpu_update c f st = Inr st'" and "vcpus_apart st" and "d \<noteq> c"
  shows "cpu_vcpu d st' = cpu_vcpu d st"
proof -
  obtain v i where c: "hv_vcpu st c = Some (v, i)"
    using assms(1) by (auto simp: cpu_vcpu_update_def split: option.splits)
  with assms(2,3) have "hv_vcpu st d \<noteq> Some (v, i)" by (auto simp: vcpus_apart_def)
  with assms(1) c show ?thesis by (auto simp: cpu_vcpu_update_def cpu_vcpu_def split: option.splits)
qed

lemma cpu_vcpu_update_own:
  "cpu_vcpu_update c f st = Inr st' \<Longrightarrow> cpu_vcpu c st' = map_option f (cpu_vcpu c st)"
  by (auto simp: cpu_vcpu_update_def cpu_vcpu_def split: option.splits)

text \<open>Sending and fetching messages leaves these components alone.\<close>

lemma hv_more_cong:
  assumes "machine.more a = machine.more b"
  shows "hv_vm a = hv_vm b" and "hv_vcpu a = hv_vcpu b" and "hv_shmem a = hv_shmem b" and "hv.more a = hv.more b"
    and "cpu_vcpu c a = cpu_vcpu c b" and "cpu_vm c a = cpu_vm c b"
proof -
  have "hv_vm a = hv_vm b \<and> hv_vcpu a = hv_vcpu b \<and> hv_shmem a = hv_shmem b \<and> hv.more a = hv.more b"
    using assms by (cases a, cases b) simp
  then show "hv_vm a = hv_vm b" and "hv_vcpu a = hv_vcpu b" and "hv_shmem a = hv_shmem b" and "hv.more a = hv.more b"
    and "cpu_vcpu c a = cpu_vcpu c b" and "cpu_vm c a = cpu_vm c b"
    by (simp_all add: cpu_vcpu_def cpu_vm_def cong: option.case_cong)
qed

end
