(* ===== verification/Object_Pool.thy ===== *)
theory Object_Pool
  imports Bitmap
begin

text \<open>
  The object pools of \<open>src/src/core/objpool.c\<close> and \<open>src/src/core/inc/objpool.h\<close>: a static array of
  \<open>num\<close> objects of \<open>objsize\<close> bytes and a bitmap of the objects in use. Pointers to objects are
  addresses and \<open>NULL\<close> is \<open>None\<close>. The contents of the objects belong to the client; only
  \<open>objpool_init\<close> writes them, with zeros. The pools provide the contract \<open>object_pool\<close>: an object is
  handed out only when nobody holds it, whatever allocations and releases went before.
\<close>

section \<open>The contract\<close>

datatype 'a pool_op = Get | Put 'a

text \<open>A run of a client: the objects it holds, most recent first, and the pool.\<close>

fun pool_run :: "('p \<Rightarrow> 'a option \<times> 'p) \<Rightarrow> ('p \<Rightarrow> 'a \<Rightarrow> 'p) \<Rightarrow> 'p \<times> 'a list \<Rightarrow> 'a pool_op list \<Rightarrow> 'p \<times> 'a list" where
  "pool_run alloc release (p, held) [] = (p, held)"
| "pool_run alloc release (p, held) (Get # ops) =
     (case alloc p of
        (None, p') \<Rightarrow> pool_run alloc release (p', held) ops
      | (Some x, p') \<Rightarrow> pool_run alloc release (p', x # held) ops)"
| "pool_run alloc release (p, held) (Put x # ops) =
     (if x \<in> set held then pool_run alloc release (release p x, remove1 x held) ops
      else pool_run alloc release (p, held) ops)"

locale object_pool =
  fixes invar :: "'p \<Rightarrow> bool"
    and objects :: "'p \<Rightarrow> 'a set"
    and used :: "'p \<Rightarrow> 'a set"
    and alloc :: "'p \<Rightarrow> 'a option \<times> 'p"
    and release :: "'p \<Rightarrow> 'a \<Rightarrow> 'p"
  assumes alloc_some: "invar p \<Longrightarrow> alloc p = (Some x, p') \<Longrightarrow>
      invar p' \<and> x \<in> objects p \<and> x \<notin> used p \<and> used p' = insert x (used p) \<and> objects p' = objects p"
    and alloc_none: "invar p \<Longrightarrow> alloc p = (None, p') \<Longrightarrow> p' = p \<and> used p = objects p"
    and release_used: "invar p \<Longrightarrow> x \<in> used p \<Longrightarrow>
      invar (release p x) \<and> used (release p x) = used p - {x} \<and> objects (release p x) = objects p"
    and used_objects: "invar p \<Longrightarrow> used p \<subseteq> objects p"
begin

lemma run_owned_once:
  assumes "invar p" and "distinct held" and "set held = used p"
    and "pool_run alloc release (p, held) ops = (p', held')"
  shows "invar p' \<and> distinct held' \<and> set held' = used p' \<and> objects p' = objects p"
  using assms
proof (induction ops arbitrary: p held)
  case Nil
  then show ?case by simp
next
  case (Cons opn ops)
  show ?case
  proof (cases opn)
    case Get
    obtain r q where a: "alloc p = (r, q)" by (metis surj_pair)
    show ?thesis
    proof (cases r)
      case None
      with a Get Cons alloc_none [of p q] show ?thesis by simp
    next
      case (Some x)
      with a Cons.prems(1) have "invar q" "x \<notin> used p" "used q = insert x (used p)" "objects q = objects p"
        using alloc_some [of p x q] by auto
      with Cons.IH [of q "x # held"] a Get Some Cons.prems show ?thesis by simp
    qed
  next
    case (Put x)
    show ?thesis
    proof (cases "x \<in> set held")
      case True
      with Cons.prems have "invar (release p x)" "used (release p x) = used p - {x}"
        "objects (release p x) = objects p"
        using release_used [of p x] by auto
      with Cons.IH [of "release p x" "remove1 x held"] True Put Cons.prems show ?thesis
        by (simp add: set_remove1_eq)
    next
      case False
      with Cons Put show ?thesis by simp
    qed
  qed
qed

text \<open>An allocation fails only when every object is held.\<close>

lemma run_exhausted:
  assumes "invar p" and "distinct held" and "set held = used p"
    and "pool_run alloc release (p, held) ops = (p', held')" and "fst (alloc p') = None"
  shows "set held' = objects p'"
  using run_owned_once [OF assms(1-4)] alloc_none [of p' "snd (alloc p')"] assms(5)
  by (metis prod.collapse)

end

section \<open>The pools\<close>

record objpool =
  pool :: u64
  op_bitmap :: bitmap
  objsize :: u64
  num :: nat

text \<open>\<open>memset\<close> of the bitmap: the bytes of the bits below the number of objects.\<close>

definition objpool_init :: "objpool \<Rightarrow> objpool" where
  "objpool_init p = p\<lparr>op_bitmap := bitmap_clear_consecutive (op_bitmap p) 0 (8 * BITMAP_SIZE_IN_BYTES (num p))\<rparr>"

definition objpool_alloc_with_id :: "objpool \<Rightarrow> u64 option \<times> u64 \<times> objpool" where
  "objpool_alloc_with_id p =
     (let n = bitmap_find_nth (op_bitmap p) (num p) 1 0 BITMAP_NOT_SET;
          (obj, p) =
            (if n \<ge> 0 then (Some (pool p + objsize p * of_int n), p\<lparr>op_bitmap := bitmap_set (op_bitmap p) (nat n)\<rparr>)
             else (None, p))
      in (obj, of_int n, p))"

definition objpool_alloc :: "objpool \<Rightarrow> u64 option \<times> objpool" where
  "objpool_alloc p = (let (obj, id, p) = objpool_alloc_with_id p in (obj, p))"

definition objpool_free :: "objpool \<Rightarrow> u64 \<Rightarrow> objpool" where
  "objpool_free p obj =
     (let in_pool = in_range obj (pool p) (objsize p * of_nat (num p));
          aligned = IS_ALIGNED (obj - pool p) (objsize p)
      in if in_pool \<and> aligned then
           (let n = (obj - pool p) div objsize p in p\<lparr>op_bitmap := bitmap_clear (op_bitmap p) (unat n)\<rparr>)
         else p)"

definition objpool_get_by_id :: "objpool \<Rightarrow> u64 \<Rightarrow> u64 option" where
  "objpool_get_by_id p i = (if i < of_nat (num p) then Some (pool p + objsize p * i) else None)"

section \<open>The objects of a pool\<close>

definition objpool_ok :: "objpool \<Rightarrow> bool" where
  "objpool_ok p \<longleftrightarrow> 0 < objsize p \<and> unat (pool p) + unat (objsize p) * num p < 2 ^ 64 - 1"

definition objpool_obj :: "objpool \<Rightarrow> nat \<Rightarrow> u64" where
  "objpool_obj p n = pool p + objsize p * of_nat n"

definition objpool_objects :: "objpool \<Rightarrow> u64 set" where
  "objpool_objects p = objpool_obj p ` {..<num p}"

definition objpool_used :: "objpool \<Rightarrow> u64 set" where
  "objpool_used p = objpool_obj p ` {n. n < num p \<and> bm (op_bitmap p) n}"

lemma objpool_num_small:
  assumes "objpool_ok p"
  shows "num p < 2 ^ 64"
proof -
  have "1 \<le> unat (objsize p)" using assms by (simp add: objpool_ok_def word_less_nat_alt)
  then have "num p \<le> unat (objsize p) * num p" by (metis mult_le_mono1 nat_mult_1)
  moreover have "unat (objsize p) * num p < 2 ^ 64" using assms by (simp add: objpool_ok_def)
  ultimately show ?thesis by linarith
qed

lemma objpool_unat:
  assumes "objpool_ok p" and "n < num p"
  shows "unat (objsize p * of_nat n) = unat (objsize p) * n"
    and "unat (objpool_obj p n) = unat (pool p) + unat (objsize p) * n"
proof -
  have n: "unat (of_nat n :: u64) = n"
    using assms objpool_num_small [OF assms(1)] by (simp add: unat_of_nat)
  have "unat (objsize p) * n \<le> unat (objsize p) * num p" using assms(2) by (intro mult_le_mono2) simp
  moreover have "unat (pool p) + unat (objsize p) * num p < 2 ^ 64" using assms(1) by (simp add: objpool_ok_def)
  ultimately have b: "unat (pool p) + unat (objsize p) * n < 2 ^ 64" by linarith
  show m: "unat (objsize p * of_nat n) = unat (objsize p) * n"
    using b n by (simp add: unat_mult_no_wrap)
  show "unat (objpool_obj p n) = unat (pool p) + unat (objsize p) * n"
    unfolding objpool_obj_def using b m by (simp add: unat_add_no_wrap)
qed

lemma objpool_obj_inj:
  assumes "objpool_ok p" and "m < num p" and "n < num p" and "objpool_obj p m = objpool_obj p n"
  shows "m = n"
proof -
  have "unat (objsize p) * m = unat (objsize p) * n"
    using objpool_unat(2) [OF assms(1,2)] objpool_unat(2) [OF assms(1,3)] assms(4)
    by (metis add_left_cancel)
  moreover have "0 < unat (objsize p)" using assms(1) by (simp add: objpool_ok_def word_less_nat_alt)
  ultimately show ?thesis by (metis mult_cancel1 not_gr_zero)
qed

lemma objpool_used_iff:
  "objpool_ok p \<Longrightarrow> n < num p \<Longrightarrow> objpool_obj p n \<in> objpool_used p \<longleftrightarrow> bm (op_bitmap p) n"
  by (auto simp: objpool_used_def dest: objpool_obj_inj)

lemma objpool_get_by_id_obj:
  "objpool_ok p \<Longrightarrow> objpool_get_by_id p i = (if unat i < num p then Some (objpool_obj p (unat i)) else None)"
  using objpool_num_small [of p]
  by (simp add: objpool_get_by_id_def objpool_obj_def word_less_nat_alt unat_of_nat)

lemma objpool_alloc_with_id_cases:
  assumes "objpool_ok p"
  obtains (none) "objpool_alloc_with_id p = (None, - 1, p)" "objpool_used p = objpool_objects p"
  | (some) n where "n < num p" "objpool_obj p n \<notin> objpool_used p"
      "objpool_alloc_with_id p = (Some (objpool_obj p n), of_nat n, p\<lparr>op_bitmap := bitmap_set (op_bitmap p) n\<rparr>)"
proof (cases rule: bitmap_find_first_cases [of "op_bitmap p" "num p" 0 BITMAP_NOT_SET])
  case none
  then show ?thesis
    by (intro that(1)) (auto simp: objpool_alloc_with_id_def objpool_used_def objpool_objects_def)
next
  case (found k)
  then show ?thesis using objpool_used_iff [OF assms found(3)]
    by (intro that(2) [of k]) (simp_all add: objpool_alloc_with_id_def objpool_obj_def)
qed

lemma objpool_free_obj:
  assumes "objpool_ok p" and "n < num p"
  shows "objpool_free p (objpool_obj p n) = p\<lparr>op_bitmap := bitmap_clear (op_bitmap p) n\<rparr>"
proof -
  note u = objpool_unat [OF assms]
  have sz: "0 < unat (objsize p)" using assms(1) by (simp add: objpool_ok_def word_less_nat_alt)
  have "unat (objsize p) * num p < 2 ^ 64" using assms(1) by (simp add: objpool_ok_def)
  then have t: "unat (objsize p * of_nat (num p)) = unat (objsize p) * num p"
    using objpool_num_small [OF assms(1)] by (simp add: unat_mult_no_wrap unat_of_nat)
  have lt: "unat (objsize p) * n < unat (objsize p) * num p" using assms(2) sz by simp
  have "fits (pool p) (objsize p * of_nat (num p))"
    using assms(1) t by (simp add: fits_def objpool_ok_def)
  moreover have "objpool_obj p n < ULONG_MAX"
  proof -
    have "unat (objpool_obj p n) < 2 ^ 64 - 1" using u(2) lt assms(1) unfolding objpool_ok_def by linarith
    then show ?thesis by (simp add: word_less_nat_alt)
  qed
  ultimately have "in_range (objpool_obj p n) (pool p) (objsize p * of_nat (num p))"
    using u(2) t lt by (simp add: in_range_iff addrs_def)
  moreover have d: "objpool_obj p n - pool p = objsize p * of_nat n" by (simp add: objpool_obj_def)
  moreover have "IS_ALIGNED (objsize p * of_nat n) (objsize p)"
    using u(1) by (simp add: IS_ALIGNED_def word_arith_nat_mod)
  moreover have "unat ((objsize p * of_nat n) div objsize p) = n"
    using u(1) sz by (simp add: unat_div)
  ultimately show ?thesis by (simp add: objpool_free_def Let_def)
qed

lemma objpool_used_set:
  assumes "objpool_ok p" and "n < num p"
  shows "objpool_used (p\<lparr>op_bitmap := bitmap_set (op_bitmap p) n\<rparr>) = insert (objpool_obj p n) (objpool_used p)"
    and "objpool_used (p\<lparr>op_bitmap := bitmap_clear (op_bitmap p) n\<rparr>) = objpool_used p - {objpool_obj p n}"
  using assms objpool_obj_inj [OF assms(1) _ assms(2)]
  by (auto simp: objpool_used_def objpool_obj_def bm_simps)

lemma objpool_update [simp]:
  "objpool_ok (p\<lparr>op_bitmap := b\<rparr>) = objpool_ok p"
  "objpool_objects (p\<lparr>op_bitmap := b\<rparr>) = objpool_objects p"
  "objpool_obj (p\<lparr>op_bitmap := b\<rparr>) n = objpool_obj p n"
  by (simp_all add: objpool_ok_def objpool_objects_def objpool_obj_def)

lemma objpool_init_empty: "objpool_used (objpool_init p) = {}"
proof -
  have "num p \<le> 8 * BITMAP_SIZE_IN_BYTES (num p)"
    by (simp add: BITMAP_SIZE_IN_BYTES_def BITMAP_SIZE_def) presburger
  then show ?thesis by (auto simp: objpool_used_def objpool_init_def bm_simps)
qed

interpretation objects: object_pool objpool_ok objpool_objects objpool_used objpool_alloc objpool_free
proof unfold_locales
  fix p p' x assume ok: "objpool_ok p" and a: "objpool_alloc p = (Some x, p')"
  show "objpool_ok p' \<and> x \<in> objpool_objects p \<and> x \<notin> objpool_used p \<and>
      objpool_used p' = insert x (objpool_used p) \<and> objpool_objects p' = objpool_objects p"
    using ok
  proof (cases rule: objpool_alloc_with_id_cases)
    case none
    with a show ?thesis by (simp add: objpool_alloc_def)
  next
    case (some n)
    with a ok show ?thesis by (auto simp: objpool_alloc_def objpool_used_set objpool_objects_def)
  qed
next
  fix p p' assume ok: "objpool_ok p" and a: "objpool_alloc p = (None, p')"
  show "p' = p \<and> objpool_used p = objpool_objects p"
    using ok
  proof (cases rule: objpool_alloc_with_id_cases)
    case none
    with a show ?thesis by (simp add: objpool_alloc_def)
  next
    case (some n)
    with a show ?thesis by (simp add: objpool_alloc_def)
  qed
next
  fix p x assume ok: "objpool_ok p" and x: "x \<in> objpool_used p"
  then obtain n where "n < num p" "x = objpool_obj p n" by (auto simp: objpool_used_def)
  with ok show "objpool_ok (objpool_free p x) \<and> objpool_used (objpool_free p x) = objpool_used p - {x} \<and>
      objpool_objects (objpool_free p x) = objpool_objects p"
    by (simp add: objpool_free_obj objpool_used_set)
qed (auto simp: objpool_used_def objpool_objects_def)

end
