(* ===== verification/Allocator_Interface.thy ===== *)
theory Allocator_Interface
  imports Prelude
begin

text \<open>
  The contract of a page allocator towards the code that uses its pages. \<open>frames p\<close> are the
  frames the allocator manages, \<open>used p\<close> those in use; an allocation that succeeds grants frames
  not in use and marks exactly these, one that fails changes nothing, and a release unmarks what
  was granted. \<open>valid\<close> says that a grant is one of this allocator. Its consequence for the clients: whatever is allocated and released in whatever
  order, no frame ever belongs to two live allocations.
\<close>

datatype 'r alloc_op = Alloc 'r | Release nat

text \<open>
  A run over the allocator and the ledger of the live allocations: a grant is added at the
  end of the ledger, \<open>Release k\<close> gives the k-th live allocation back.
\<close>

fun alloc_run :: "('p \<Rightarrow> 'r \<Rightarrow> 'g option \<times> 'p) \<Rightarrow> ('p \<Rightarrow> 'g \<Rightarrow> 'p) \<Rightarrow>
    'r alloc_op list \<Rightarrow> 'p \<times> 'g list \<Rightarrow> 'p \<times> 'g list" where
  "alloc_run alloc release [] s = s"
| "alloc_run alloc release (Alloc r # ops) (p, live) =
     (case alloc p r of
        (Some g, p') \<Rightarrow> alloc_run alloc release ops (p', live @ [g])
      | (None, p') \<Rightarrow> alloc_run alloc release ops (p', live))"
| "alloc_run alloc release (Release k # ops) (p, live) =
     (if k < length live
      then alloc_run alloc release ops (release p (live ! k), take k live @ drop (Suc k) live)
      else alloc_run alloc release ops (p, live))"

fun disjoint_list :: "nat set list \<Rightarrow> bool" where
  "disjoint_list [] \<longleftrightarrow> True"
| "disjoint_list (fs # live) \<longleftrightarrow> fs \<inter> \<Union> (set live) = {} \<and> disjoint_list live"

lemma disjoint_list_append:
  "disjoint_list (xs @ ys) \<longleftrightarrow>
     disjoint_list xs \<and> disjoint_list ys \<and> \<Union> (set xs) \<inter> \<Union> (set ys) = {}"
  by (induction xs) (simp_all, blast)

lemma disjoint_list_nth:
  assumes "disjoint_list live" and "i < j" and "j < length live"
  shows "live ! i \<inter> live ! j = {}"
  using assms
proof (induction live arbitrary: i j)
  case (Cons fs live)
  obtain j' where j: "j = Suc j'" "j' < length live" using Cons.prems by (cases j) auto
  then have "live ! j' \<subseteq> \<Union> (set live)" by (simp add: Sup_upper)
  with Cons j show ?case by (cases i) (simp_all, blast)
qed simp

locale page_allocator =
  fixes wf :: "'p \<Rightarrow> bool"
    and frames :: "'p \<Rightarrow> nat set"
    and used :: "'p \<Rightarrow> nat set"
    and granted :: "'g \<Rightarrow> nat set"
    and valid :: "'p \<Rightarrow> 'g \<Rightarrow> bool"
    and alloc :: "'p \<Rightarrow> 'r \<Rightarrow> 'g option \<times> 'p"
    and release :: "'p \<Rightarrow> 'g \<Rightarrow> 'p"
  assumes alloc_granted: "wf p \<Longrightarrow> alloc p r = (Some g, p') \<Longrightarrow>
      wf p' \<and> granted g \<subseteq> frames p \<and> granted g \<inter> used p = {} \<and> used p' = used p \<union> granted g \<and>
      valid p' g"
    and alloc_refused: "wf p \<Longrightarrow> alloc p r = (None, p') \<Longrightarrow> p' = p"
    and alloc_valid: "wf p \<Longrightarrow> alloc p r = (res, p') \<Longrightarrow> frames p' = frames p \<and> (valid p h \<longrightarrow> valid p' h)"
    and release_unmarks: "wf p \<Longrightarrow> valid p g \<Longrightarrow> granted g \<subseteq> used p \<Longrightarrow>
      wf (release p g) \<and> used (release p g) = used p - granted g"
    and release_valid: "wf p \<Longrightarrow> frames (release p g) = frames p \<and> (valid p h \<longrightarrow> valid (release p g) h)"
begin

definition owned :: "'p \<times> 'g list \<Rightarrow> bool" where
  "owned s \<longleftrightarrow> wf (fst s) \<and> disjoint_list (map granted (snd s)) \<and>
     (\<forall>g \<in> set (snd s). granted g \<subseteq> used (fst s) \<and> valid (fst s) g)"

lemma owned_alloc:
  assumes "owned (p, live)" and "alloc p r = (Some g, p')"
  shows "owned (p', live @ [g])"
proof -
  from assms(1) have o: "wf p" "disjoint_list (map granted live)"
    "\<And>h. h \<in> set live \<Longrightarrow> granted h \<subseteq> used p \<and> valid p h" by (auto simp: owned_def)
  note g = alloc_granted [OF o(1) assms(2)] and v = alloc_valid [OF o(1) assms(2)]
  have "\<Union> (set (map granted live)) \<inter> granted g = {}" using g o(3) by fastforce
  then have "disjoint_list (map granted (live @ [g]))" using o(2) by (simp add: disjoint_list_append)
  moreover have "granted h \<subseteq> used p' \<and> valid p' h" if "h \<in> set (live @ [g])" for h
    using that g v o(3) [of h] by auto
  ultimately show ?thesis using g by (simp add: owned_def)
qed

lemma owned_release:
  assumes "owned (p, live)" and "k < length live"
  shows "owned (release p (live ! k), take k live @ drop (Suc k) live)"
proof -
  define us vs where "us = take k live" and "vs = drop (Suc k) live"
  have live: "live = us @ live ! k # vs"
    using assms(2) by (simp add: us_def vs_def id_take_nth_drop)
  from assms(1) have o: "wf p" "disjoint_list (map granted (us @ live ! k # vs))"
    "\<And>h. h \<in> set (us @ live ! k # vs) \<Longrightarrow> granted h \<subseteq> used p \<and> valid p h"
    by (auto simp: owned_def live [symmetric])
  from o(3) have "valid p (live ! k)" "granted (live ! k) \<subseteq> used p" by auto
  from release_unmarks [OF o(1) this] o(2,3) release_valid [OF o(1), of "live ! k"]
  have "wf (release p (live ! k))" "disjoint_list (map granted (us @ vs))"
    "\<And>h. h \<in> set (us @ vs) \<Longrightarrow> granted h \<subseteq> used (release p (live ! k)) \<and> valid (release p (live ! k)) h"
    by (auto simp: disjoint_list_append)
  then show ?thesis by (simp add: owned_def us_def [symmetric] vs_def [symmetric])
qed

lemma run_owned:
  assumes "owned s" and "alloc_run alloc release ops s = s'"
  shows "owned s'"
  using assms
proof (induction ops arbitrary: s)
  case Nil
  then show ?case by simp
next
  case (Cons opn ops)
  obtain p live where s: "s = (p, live)" by (cases s)
  show ?case
  proof (cases opn)
    case (Alloc r)
    obtain res p' where r: "alloc p r = (res, p')" by (cases "alloc p r")
    show ?thesis
    proof (cases res)
      case None
      with r Cons.prems s have "p' = p" by (auto simp: owned_def intro: alloc_refused)
      with None r Alloc s Cons show ?thesis by simp
    next
      case (Some g)
      with r Cons.prems s have "owned (p', live @ [g])" by (blast intro: owned_alloc)
      with Some r Alloc s Cons show ?thesis by simp
    qed
  next
    case (Release k)
    show ?thesis
    proof (cases "k < length live")
      case True
      with Cons.prems s have "owned (release p (live ! k), take k live @ drop (Suc k) live)"
        by (blast intro: owned_release)
      with True Release s Cons show ?thesis by simp
    next
      case False
      with Release s Cons show ?thesis by simp
    qed
  qed
qed

text \<open>No frame belongs to two live allocations, and every live frame is marked as used.\<close>

lemma no_double_ownership:
  assumes "wf p" and "alloc_run alloc release ops (p, []) = (p', live)" and "i < j" and "j < length live"
  shows "granted (live ! i) \<inter> granted (live ! j) = {} \<and> granted (live ! i) \<union> granted (live ! j) \<subseteq> used p'"
proof -
  have "owned (p, [])" using assms(1) by (simp add: owned_def)
  from run_owned [OF this assms(2)] have "owned (p', live)" .
  then have live: "disjoint_list (map granted live)" "\<And>g. g \<in> set live \<Longrightarrow> granted g \<subseteq> used p'"
    by (auto simp: owned_def)
  have "live ! i \<in> set live" "live ! j \<in> set live" using assms(3,4) by simp_all
  with live(2) have "granted (live ! i) \<union> granted (live ! j) \<subseteq> used p'" by blast
  with disjoint_list_nth [OF live(1), of i j] assms(3,4) show ?thesis by simp
qed

text \<open>
  What was in use before the run, and is no grant of it, stays in use and is never granted.
\<close>

lemma run_avoids:
  assumes "owned s" and "R \<subseteq> used (fst s)" and "\<forall>g \<in> set (snd s). granted g \<inter> R = {}"
    and "alloc_run alloc release ops s = s'"
  shows "R \<subseteq> used (fst s') \<and> (\<forall>g \<in> set (snd s'). granted g \<inter> R = {})"
  using assms
proof (induction ops arbitrary: s)
  case Nil
  then show ?case by simp
next
  case (Cons opn ops)
  obtain p live where s: "s = (p, live)" by (cases s)
  have wf: "wf p" using Cons.prems(1) s by (simp add: owned_def)
  show ?case
  proof (cases opn)
    case (Alloc r)
    obtain res p' where r: "alloc p r = (res, p')" by (cases "alloc p r")
    show ?thesis
    proof (cases res)
      case None
      with r wf have "p' = p" by (auto intro: alloc_refused)
      with None r Alloc s Cons show ?thesis by simp
    next
      case (Some g)
      with r have a: "alloc p r = (Some g, p')" by simp
      have own: "owned (p', live @ [g])" using Cons.prems(1) s a by (blast intro: owned_alloc)
      have g: "granted g \<inter> R = {}" "R \<subseteq> used (fst (p', live @ [g]))"
        using alloc_granted [OF wf a] Cons.prems(2) s by auto
      have "\<forall>h \<in> set (snd (p', live @ [g])). granted h \<inter> R = {}" using g(1) Cons.prems(3) s by simp
      moreover have "alloc_run alloc release ops (p', live @ [g]) = s'" using Cons.prems(4) s Alloc a by simp
      ultimately show ?thesis by (rule Cons.IH [OF own g(2)])
    qed
  next
    case (Release k)
    show ?thesis
    proof (cases "k < length live")
      case True
      let ?s = "(release p (live ! k), take k live @ drop (Suc k) live)"
      have own: "owned ?s" using Cons.prems(1) s True by (blast intro: owned_release)
      have k: "live ! k \<in> set live" using True by simp
      then have "valid p (live ! k)" "granted (live ! k) \<subseteq> used p"
        using Cons.prems(1) s by (auto simp: owned_def)
      from release_unmarks [OF wf this] have "used (release p (live ! k)) = used p - granted (live ! k)" ..
      moreover have "granted (live ! k) \<inter> R = {}" using Cons.prems(3) s k by simp
      ultimately have used: "R \<subseteq> used (fst ?s)" using Cons.prems(2) s by auto
      have "\<forall>g \<in> set (snd ?s). granted g \<inter> R = {}"
        using Cons.prems(3) s by (auto dest: in_set_takeD in_set_dropD)
      moreover have "alloc_run alloc release ops ?s = s'" using Cons.prems(4) s Release True by simp
      ultimately show ?thesis by (rule Cons.IH [OF own used])
    next
      case False
      with Cons s Release show ?thesis by simp
    qed
  qed
qed

lemma grants_avoid:
  assumes "wf p" and "alloc_run alloc release ops (p, []) = (p', live)" and "g \<in> set live"
  shows "granted g \<inter> used p = {}" and "used p \<subseteq> used p'"
proof -
  have "owned (p, [])" using assms(1) by (simp add: owned_def)
  from run_avoids [OF this _ _ assms(2), of "used p"] assms(3)
  show "granted g \<inter> used p = {}" and "used p \<subseteq> used p'" by auto
qed

end

end
