(* ===== verification/Page_Pool.thy ===== *)
theory Page_Pool
  imports Bitmap Allocator_Interface
begin

text \<open>
  The physical page pools of \<open>src/src/core/mem.c\<close> and the colored allocation of
  \<open>src/src/core/mmu/mem.c\<close>. A pool has a base address, a number of pages, a bitmap with one bit
  per page, the count \<open>pp_free\<close> of free pages and the hint \<open>pp_last\<close> where the next search
  starts. Every operation runs under the lock of its pool, so it is one step on the pool.

  \<open>COLOR_NUM\<close> and \<open>COLOR_SIZE\<close>, globals computed from the cache geometry, are the arguments
  \<open>cn\<close> and \<open>cs\<close>. The loop over the next color need not end (it does not when no color is
  selected), so the operations that run it return an option.
\<close>

unbundle bit_operations_syntax

record ppages =
  pa_base :: u64
  pa_num :: nat
  pa_colors :: u64

record page_pool =
  pp_base :: u64
  pp_num_pages :: nat
  pp_free :: u64
  pp_last :: nat
  pp_bitmap :: bitmap

text \<open>The kinds of address space and the address that stands for none (\<open>types.h\<close>).\<close>

datatype AS_TYPE = AS_HYP | AS_VM | AS_HYP_CPY

definition MAX_VA :: u64 where "MAX_VA = - 1"

definition INVALID_VA :: u64 where "INVALID_VA = MAX_VA"

definition mem_ppages_get :: "u64 \<Rightarrow> nat \<Rightarrow> ppages" where
  "mem_ppages_get base n = \<lparr>pa_base = base, pa_num = n, pa_colors = 0\<rparr>"

definition all_clrs :: "nat \<Rightarrow> u64 \<Rightarrow> bool" where
  "all_clrs cn clrs =
     (let msk = shl 1 cn - 1; masked_colors = clrs AND msk
      in masked_colors = 0 \<or> masked_colors = msk)"

section \<open>The bitmaps of the pools\<close>

text \<open>
  \<open>pp_bitmap_alloc\<close> carves the bitmaps out of a static array of \<open>plat\<close> bytes; \<open>last_index\<close> is
  the first byte not handed out. The result is the offset of the bitmap in the array.
\<close>

definition pp_bitmap_alloc :: "nat \<Rightarrow> nat \<Rightarrow> nat \<Rightarrow> bool \<times> nat \<times> nat option" where
  "pp_bitmap_alloc plat last_index pool_num_pages =
     (if (plat - last_index) * 8 \<ge> pool_num_pages
      then (True, last_index + BITMAP_SIZE_IN_BYTES pool_num_pages, Some last_index)
      else (False, last_index, None))"

lemma bytes_enough:
  assumes "pool_num_pages \<le> (plat - last_index) * 8" and "last_index \<le> plat"
  shows "last_index + BITMAP_SIZE_IN_BYTES pool_num_pages \<le> plat"
proof -
  have "BITMAP_SIZE_IN_BYTES n = (n + 7) div 8" for n
  proof -
    obtain q r where n: "n = 8 * q + r" "r < 8"
      by (metis mult_div_mod_eq mod_less_divisor zero_less_numeral)
    have "(8 * q + r + 7) div 8 = q + (r + 7) div 8"
      using div_mult_self4 [of 8 q "r + 7"] by (simp add: add.assoc)
    with n show ?thesis by (auto simp: BITMAP_SIZE_IN_BYTES_def BITMAP_SIZE_def)
  qed
  then have "BITMAP_SIZE_IN_BYTES pool_num_pages = (pool_num_pages + 7) div 8" .
  also have "\<dots> \<le> plat - last_index" using assms(1) by simp
  finally show ?thesis using assms(2) by simp
qed

lemma bits_in_bytes: "pool_num_pages \<le> 8 * BITMAP_SIZE_IN_BYTES pool_num_pages"
  unfolding BITMAP_SIZE_IN_BYTES_def BITMAP_SIZE_def by (cases "pool_num_pages mod 8 = 0") auto

section \<open>Contiguous allocation\<close>

definition pp_start :: "page_pool \<Rightarrow> nat \<Rightarrow> nat" where
  "pp_start pool n = unat (pp_base pool div PAGE_SIZE) mod n"

definition pp_next_aligned :: "page_pool \<Rightarrow> nat \<Rightarrow> nat" where
  "pp_next_aligned pool n = (n - unat (pp_base pool div PAGE_SIZE) mod n) mod n"

lemma find_consec_bounds:
  "0 \<le> bitmap_find_consec mp sz cur n st \<Longrightarrow>
     cur \<le> nat (bitmap_find_consec mp sz cur n st) \<and> nat (bitmap_find_consec mp sz cur n st) < sz"
proof (rule bitmap_find_first_cases [of mp sz cur st])
  assume "bitmap_find_nth mp sz 1 cur st = - 1" "0 \<le> bitmap_find_consec mp sz cur n st"
  then show ?thesis by (simp add: bitmap_find_consec_def)
next
  fix k assume k: "bitmap_find_nth mp sz 1 cur st = int k" "cur \<le> k" "k < sz"
  have "i \<le> bitmap_find_consec_loop mp sz n i" for i
  proof (induction mp sz n i rule: bitmap_find_consec_loop.induct)
    case (1 mp sz n i)
    let ?i' = "i + bitmap_count_consecutive mp sz i n +
      bitmap_count_consecutive mp sz (i + bitmap_count_consecutive mp sz i n) SIZE_MAX"
    show ?case
    proof (cases "i < sz \<and> bitmap_count_consecutive mp sz i n < n")
      case True
      with 1 have "?i' \<le> bitmap_find_consec_loop mp sz n ?i'" by auto
      with True show ?thesis
        by (simp add: bitmap_find_consec_loop.simps [of mp sz n i] Let_def)
    next
      case False
      then show ?thesis by (auto simp: bitmap_find_consec_loop.simps [of mp sz n i] Let_def)
    qed
  qed
  then have "k \<le> bitmap_find_consec_loop mp sz n k" .
  moreover assume "0 \<le> bitmap_find_consec mp sz cur n st"
  ultimately show ?thesis using k
    by (auto simp: bitmap_find_consec_def Let_def split: if_splits)
qed

text \<open>The inner loop: \<open>Inr\<close> of the page found, or \<open>Inl\<close> of the index for the next iteration.\<close>

function pp_alloc_while :: "page_pool \<Rightarrow> nat \<Rightarrow> bool \<Rightarrow> nat \<Rightarrow> nat \<Rightarrow> nat + nat" where
  "pp_alloc_while pool n aligned start cur =
     (if pp_free pool \<noteq> 0 then
        (let b = bitmap_find_consec (pp_bitmap pool) (pp_num_pages pool) cur n BITMAP_NOT_SET
         in if b < 0 then Inl (if aligned then pp_next_aligned pool n else 0)
            else if aligned \<and> (nat b + start) mod n \<noteq> 0
              then pp_alloc_while pool n aligned start (nat b + (nat b + start) mod n)
            else Inr (nat b))
      else Inl cur)"
  by pat_completeness auto

termination
proof (relation "measure (\<lambda>(pool, n, aligned, start, cur). pp_num_pages pool - cur)", goal_cases)
  case (2 pool n aligned start cur b)
  then have "0 \<le> b" by simp
  with 2 find_consec_bounds [of "pp_bitmap pool" "pp_num_pages pool" cur n BITMAP_NOT_SET]
  have "cur \<le> nat b" "nat b < pp_num_pages pool" by auto
  moreover have "0 < (nat b + start) mod n" using 2 by simp
  ultimately show ?case by simp
qed simp

declare pp_alloc_while.simps [simp del]

text \<open>The two searches, the second from the index that the first left.\<close>

definition pp_alloc_search :: "page_pool \<Rightarrow> nat \<Rightarrow> bool \<Rightarrow> nat + nat" where
  "pp_alloc_search pool n aligned =
     (let start = (if aligned then pp_start pool n else 0);
          cur = (if aligned then pp_last pool + (pp_last pool + start) mod n else pp_last pool)
      in case pp_alloc_while pool n aligned start cur of
           Inl cur \<Rightarrow> pp_alloc_while pool n aligned start cur
         | Inr b \<Rightarrow> Inr b)"

definition pp_alloc :: "page_pool \<Rightarrow> nat \<Rightarrow> bool \<Rightarrow> ppages \<Rightarrow> bool \<times> page_pool \<times> ppages" where
  "pp_alloc pool n aligned pg =
     (let pg = pg\<lparr>pa_colors := 0, pa_num := 0\<rparr>
      in if n = 0 then (True, pool, pg)
         else (case pp_alloc_search pool n aligned of
                 Inl _ \<Rightarrow> (False, pool, pg)
               | Inr b \<Rightarrow>
                   (True,
                    pool\<lparr>pp_bitmap := bitmap_set_consecutive (pp_bitmap pool) b n,
                         pp_free := pp_free pool - of_nat n,
                         pp_last := b + n\<rparr>,
                    pg\<lparr>pa_base := pp_base pool + of_nat b * PAGE_SIZE, pa_num := n\<rparr>)))"

section \<open>Reservation\<close>

definition mem_ppages_in_pool :: "page_pool \<Rightarrow> ppages \<Rightarrow> bool" where
  "mem_ppages_in_pool pool pg =
     range_in_range (pa_base pg) (of_nat (pa_num pg) * PAGE_SIZE)
       (pp_base pool) (of_nat (pp_num_pages pool) * PAGE_SIZE)"

definition mem_are_ppages_reserved_in_pool :: "page_pool \<Rightarrow> ppages \<Rightarrow> bool" where
  "mem_are_ppages_reserved_in_pool pool pg =
     (if mem_ppages_in_pool pool pg then
        (let pageoff = unat (NUM_PAGES (pa_base pg - pp_base pool));
             is_alloced = bitmap_get (pp_bitmap pool) pageoff \<noteq> 0;
             avlbl = bitmap_count_consecutive (pp_bitmap pool) (pp_num_pages pool) pageoff (pa_num pg)
         in is_alloced \<or> avlbl < pa_num pg)
      else False)"

definition mem_reserve_ppool_ppages :: "page_pool \<Rightarrow> ppages \<Rightarrow> bool \<times> page_pool" where
  "mem_reserve_ppool_ppages pool pg =
     (if mem_ppages_in_pool pool pg \<and> \<not> mem_are_ppages_reserved_in_pool pool pg
      then (let pageoff = unat (NUM_PAGES (pa_base pg - pp_base pool))
            in (True, pool\<lparr>pp_bitmap := bitmap_set_consecutive (pp_bitmap pool) pageoff (pa_num pg),
                           pp_free := pp_free pool - of_nat (pa_num pg)\<rparr>))
      else (False, pool))"


section \<open>The abstract pool\<close>

text \<open>
  \<open>pp_wf\<close>: the pool is page aligned, ends below \<open>2 ^ 64\<close>, its bitmap fills whole granules (the
  number of pages is a multiple of 32, which the boundary example of the bitmap search shows
  to be needed) and the search hint is inside.
\<close>

definition pp_wf :: "page_pool \<Rightarrow> bool" where
  "pp_wf p \<longleftrightarrow> unat (pp_base p) mod 4096 = 0 \<and> unat (pp_base p) + pp_num_pages p * 4096 < 2 ^ 64 \<and>
     32 dvd pp_num_pages p \<and> pp_last p \<le> pp_num_pages p"

definition pp_frame0 :: "page_pool \<Rightarrow> nat" where
  "pp_frame0 p = unat (pp_base p) div 4096"

definition pp_frames :: "page_pool \<Rightarrow> nat set" where
  "pp_frames p = {pp_frame0 p ..< pp_frame0 p + pp_num_pages p}"

definition pp_used :: "page_pool \<Rightarrow> nat set" where
  "pp_used p = {pp_frame0 p + i | i. i < pp_num_pages p \<and> bm (pp_bitmap p) i}"

definition ppages_frames :: "ppages \<Rightarrow> nat set" where
  "ppages_frames g = {unat (pa_base g) div 4096 ..< unat (pa_base g) div 4096 + pa_num g}"

lemma pp_wf_size: "pp_wf p \<Longrightarrow> pp_num_pages p \<le> SIZE_MAX"
  by (simp add: pp_wf_def SIZE_MAX_def)

lemma pp_wf_upd [simp]:
  "pp_wf (p\<lparr>pp_bitmap := bmp, pp_free := f\<rparr>) = pp_wf p"
  "pp_wf (p\<lparr>pp_bitmap := bmp\<rparr>) = pp_wf p"
  by (simp_all add: pp_wf_def)

lemma unat_page_addr:
  assumes "pp_wf p" and "b \<le> pp_num_pages p"
  shows "unat (pp_base p + of_nat b * PAGE_SIZE) = unat (pp_base p) + b * 4096"
proof -
  have b: "unat (pp_base p) + b * 4096 < 2 ^ 64"
    using assms mult_le_mono1 [OF assms(2), of 4096] by (simp add: pp_wf_def)
  then have "unat (of_nat b :: u64) = b" by (simp add: unat_of_nat)
  with b have "unat (of_nat b * PAGE_SIZE) = b * 4096"
    using unat_mult_no_wrap [of "of_nat b" PAGE_SIZE] by simp
  with b show ?thesis using unat_add_no_wrap [of "pp_base p" "of_nat b * PAGE_SIZE"] by simp
qed

lemma page_addr_frame:
  assumes "pp_wf p" and "b \<le> pp_num_pages p"
  shows "unat (pp_base p + of_nat b * PAGE_SIZE) div 4096 = pp_frame0 p + b"
  using unat_page_addr [OF assms] by (simp add: pp_frame0_def)

lemma frame_range: "{f + i | i. b \<le> i \<and> i < b + n} = {f + b ..< f + b + n}" for f b n :: nat
proof -
  have "x \<in> {f + i | i. b \<le> i \<and> i < b + n}" if "f + b \<le> x" "x < f + b + n" for x
    using that by (intro CollectI exI [of _ "x - f"]) auto
  then show ?thesis by auto
qed

lemma pp_frame0_word: "unat (pp_base p div PAGE_SIZE) = pp_frame0 p"
  by (simp add: pp_frame0_def unat_div)

subsection \<open>The search\<close>

lemma pp_alloc_while_found:
  assumes "pp_alloc_while pool n aligned start cur = Inr b" and "pp_wf pool" and "0 < n"
  shows "b + n \<le> pp_num_pages pool \<and> run (pp_bitmap pool) b n False \<and>
    (aligned \<longrightarrow> (b + start) mod n = 0)"
  using assms
proof (induction pool n aligned start cur rule: pp_alloc_while.induct)
  case (1 pool n aligned start cur)
  let ?b = "bitmap_find_consec (pp_bitmap pool) (pp_num_pages pool) cur n BITMAP_NOT_SET"
  have free: "pp_free pool \<noteq> 0" and b: "\<not> ?b < 0"
    using 1(2) by (auto simp: pp_alloc_while.simps [of pool n aligned start cur] Let_def split: if_splits)
  show ?case
  proof (cases "aligned \<and> (nat ?b + start) mod n \<noteq> 0")
    case True
    with free b 1(2)
    have "pp_alloc_while pool n aligned start (nat ?b + (nat ?b + start) mod n) = Inr b"
      by (simp add: pp_alloc_while.simps [of pool n True start cur] Let_def)
    from 1(1) [OF free refl b True this 1(3,4)] show ?thesis .
  next
    case False
    with free b 1(2) have "nat ?b = b" and al: "aligned \<longrightarrow> (b + start) mod n = 0"
      by (auto simp: pp_alloc_while.simps [of pool n aligned start cur] Let_def)
    then have bb: "?b = int b" using b by linarith
    have d: "32 dvd pp_num_pages pool" using 1(3) by (simp add: pp_wf_def)
    show ?thesis
      by (rule bitmap_find_consec_cases [OF pp_wf_size [OF 1(3)] 1(4), of "pp_bitmap pool" cur False])
        (use bb al d in auto)
  qed
qed

lemma pp_alloc_while_unaligned:
  assumes "pp_alloc_while pool n False start cur = Inl c" and "pp_wf pool" and "0 < n"
    and "pp_free pool \<noteq> 0"
  shows "c = 0 \<and> (\<forall>j. cur \<le> j \<and> j + n \<le> pp_num_pages pool \<longrightarrow> \<not> run (pp_bitmap pool) j n False)"
proof -
  let ?b = "bitmap_find_consec (pp_bitmap pool) (pp_num_pages pool) cur n BITMAP_NOT_SET"
  from assms(1,4) have b: "?b < 0" and c: "c = 0"
    by (auto simp: pp_alloc_while.simps [of pool n False start cur] Let_def split: if_splits)
  show ?thesis
    by (rule bitmap_find_consec_cases [OF pp_wf_size [OF assms(2)] assms(3), of "pp_bitmap pool" cur False])
      (use b c in auto)
qed

lemma pp_alloc_search_found:
  assumes "pp_alloc_search pool n aligned = Inr b" and "pp_wf pool" and "0 < n"
  shows "b + n \<le> pp_num_pages pool \<and> run (pp_bitmap pool) b n False \<and>
    (aligned \<longrightarrow> (pp_frame0 pool + b) mod n = 0)"
proof -
  let ?s = "if aligned then pp_start pool n else 0"
  obtain cur where "pp_alloc_while pool n aligned ?s cur = Inr b"
    using assms(1) by (auto simp: pp_alloc_search_def Let_def split: sum.splits)
  from pp_alloc_while_found [OF this assms(2,3)] show ?thesis
    by (auto simp: pp_start_def pp_frame0_word mod_add_right_eq add.commute)
qed

lemma pp_alloc_search_unaligned_none:
  assumes "pp_alloc_search pool n False = Inl c" and "pp_wf pool" and "0 < n" and "pp_free pool \<noteq> 0"
    and "j + n \<le> pp_num_pages pool"
  shows "\<not> run (pp_bitmap pool) j n False"
proof -
  obtain c' where "pp_alloc_while pool n False 0 (pp_last pool) = Inl c'"
    and second: "pp_alloc_while pool n False 0 c' = Inl c"
    using assms(1) by (auto simp: pp_alloc_search_def Let_def split: sum.splits)
  with pp_alloc_while_unaligned [OF this(1) assms(2-4)] have "c' = 0" by simp
  with pp_alloc_while_unaligned [OF second assms(2-4)] assms(5) show ?thesis by simp
qed

subsection \<open>The result of an allocation\<close>

lemma pp_alloc_cases:
  assumes "pp_alloc pool n aligned pg = (ok, pool', pg')" and "0 < n"
  obtains (refused) c where "\<not> ok" "pool' = pool" "pg' = pg\<lparr>pa_colors := 0, pa_num := 0\<rparr>"
      "pp_alloc_search pool n aligned = Inl c"
  | (granted) b where "ok" "pp_alloc_search pool n aligned = Inr b"
      "pool' = pool\<lparr>pp_bitmap := bitmap_set_consecutive (pp_bitmap pool) b n,
        pp_free := pp_free pool - of_nat n, pp_last := b + n\<rparr>"
      "pg' = pg\<lparr>pa_colors := 0, pa_base := pp_base pool + of_nat b * PAGE_SIZE, pa_num := n\<rparr>"
  using assms by (auto simp: pp_alloc_def Let_def split: sum.splits)

lemma pp_alloc_grants:
  assumes alloc: "pp_alloc pool n aligned pg = (True, pool', pg')" and wf: "pp_wf pool" and n: "0 < n"
  shows "pp_wf pool' \<and> pp_frames pool' = pp_frames pool \<and> pp_frame0 pool' = pp_frame0 pool \<and>
    ppages_frames pg' \<subseteq> pp_frames pool \<and> ppages_frames pg' \<inter> pp_used pool = {} \<and>
    pp_used pool' = pp_used pool \<union> ppages_frames pg' \<and> pa_num pg' = n \<and> pa_colors pg' = 0 \<and>
    unat (pa_base pg') mod 4096 = 0 \<and> (aligned \<longrightarrow> unat (pa_base pg') div 4096 mod n = 0)"
  using alloc n
proof (cases rule: pp_alloc_cases)
  case refused
  then show ?thesis by simp
next
  case (granted b)
  note b = pp_alloc_search_found [OF granted(2) wf n]
  have f: "unat (pa_base pg') div 4096 = pp_frame0 pool + b"
    using granted(4) b page_addr_frame [OF wf, of b] by simp
  then have fr: "ppages_frames pg' = {pp_frame0 pool + b ..< pp_frame0 pool + b + n}"
    using granted(4) by (simp add: ppages_frames_def)
  have "unat (pa_base pg') mod 4096 = 0"
    using granted(4) b unat_page_addr [OF wf, of b] wf by (simp add: pp_wf_def mod_simps)
  moreover have "pp_wf pool'" "pp_frames pool' = pp_frames pool" "pp_frame0 pool' = pp_frame0 pool"
    using granted(3) wf b by (auto simp: pp_wf_def pp_frames_def pp_frame0_def)
  moreover have "ppages_frames pg' \<subseteq> pp_frames pool" using b by (auto simp: fr pp_frames_def)
  moreover have "ppages_frames pg' \<inter> pp_used pool = {}"
    using b by (auto simp: fr pp_used_def run_def)
  moreover have "pp_used pool' = pp_used pool \<union> ppages_frames pg'"
  proof -
    have "pp_used pool' = {pp_frame0 pool + i | i. i < pp_num_pages pool \<and>
        (bm (pp_bitmap pool) i \<or> b \<le> i \<and> i < b + n)}"
      using granted(3) n by (simp add: pp_used_def pp_frame0_def bm_simps)
    also have "\<dots> = pp_used pool \<union> {pp_frame0 pool + i | i. b \<le> i \<and> i < b + n}"
      using b by (auto simp: pp_used_def)
    also have "{pp_frame0 pool + i | i. b \<le> i \<and> i < b + n} = ppages_frames pg'"
      unfolding fr by (rule frame_range)
    finally show ?thesis .
  qed
  ultimately show ?thesis using granted(4) b f by simp
qed


subsection \<open>Accounting\<close>

text \<open>As long as no page is given back, the counter is the number of free pages.\<close>

definition pp_exact :: "page_pool \<Rightarrow> bool" where
  "pp_exact p \<longleftrightarrow> unat (pp_free p) + card (pp_used p) = pp_num_pages p"

lemma pp_used_subset: "pp_used p \<subseteq> pp_frames p"
  by (auto simp: pp_used_def pp_frames_def)

lemma finite_pp_used [simp]: "finite (pp_used p)"
  using finite_subset [OF pp_used_subset, of p] by (simp add: pp_frames_def)

lemma card_ppages_frames [simp]: "card (ppages_frames g) = pa_num g"
  by (simp add: ppages_frames_def)

lemma card_pp_frames [simp]: "card (pp_frames p) = pp_num_pages p"
  by (simp add: pp_frames_def)

lemma finite_ppages_frames [simp]: "finite (ppages_frames g)"
  by (simp add: ppages_frames_def)

lemma word_unat_lt: "unat (w :: u64) < 18446744073709551616"
  using unsigned_less [of w, where ?'a = nat] by simp

lemma pp_exact_mark:
  assumes "pp_exact p" and "ppages_frames g \<inter> pp_used p = {}" and "pp_used p' = pp_used p \<union> ppages_frames g"
    and "ppages_frames g \<subseteq> pp_frames p"
    and "pp_free p' = pp_free p - of_nat (pa_num g)" and "pp_num_pages p' = pp_num_pages p"
  shows "pp_exact p'"
proof -
  have card: "card (pp_used p') = card (pp_used p) + pa_num g"
    using assms(2,3) by (simp add: card_Un_disjoint Int_commute)
  have "card (pp_used p') \<le> card (pp_frames p)"
    using assms(3,4) pp_used_subset [of p] by (intro card_mono) (auto simp: pp_frames_def)
  with card have le: "pa_num g \<le> unat (pp_free p)" using assms(1) by (simp add: pp_exact_def)
  then have "unat (of_nat (pa_num g) :: u64) = pa_num g"
    using word_unat_lt [of "pp_free p"] by (simp add: unat_of_nat)
  with le assms(5) have "unat (pp_free p') = unat (pp_free p) - pa_num g"
    by (simp add: unat_sub word_le_nat_alt)
  with le card assms(1,6) show ?thesis by (simp add: pp_exact_def)
qed

lemma pp_alloc_exact:
  assumes "pp_alloc pool n aligned pg = (ok, pool', pg')" and "pp_wf pool" and "pp_exact pool"
  shows "pp_exact pool'"
proof (cases "n = 0")
  case True
  with assms show ?thesis by (simp add: pp_alloc_def Let_def)
next
  case False
  then have n: "0 < n" by simp
  from assms(1) n show ?thesis
  proof (cases rule: pp_alloc_cases)
    case refused
    with assms(3) show ?thesis by simp
  next
    case (granted b)
    with assms(1) have "pp_alloc pool n aligned pg = (True, pool', pg')" by simp
    note g = pp_alloc_grants [OF this assms(2) n]
    show ?thesis
    proof (rule pp_exact_mark)
      show "pp_exact pool" by (rule assms(3))
      show "ppages_frames pg' \<inter> pp_used pool = {}" using g by blast
      show "pp_used pool' = pp_used pool \<union> ppages_frames pg'" using g by blast
      show "ppages_frames pg' \<subseteq> pp_frames pool" using g by blast
    qed (use granted in simp_all)
  qed
qed

text \<open>Some position of the pool at which n unused frames start.\<close>

definition pp_has_run :: "page_pool \<Rightarrow> nat \<Rightarrow> bool" where
  "pp_has_run p n \<longleftrightarrow> (\<exists>j. j + n \<le> pp_num_pages p \<and>
     {pp_frame0 p + j ..< pp_frame0 p + j + n} \<inter> pp_used p = {})"

lemma run_unused:
  assumes "j + n \<le> pp_num_pages p"
  shows "run (pp_bitmap p) j n False \<longleftrightarrow> {pp_frame0 p + j ..< pp_frame0 p + j + n} \<inter> pp_used p = {}"
proof
  assume "run (pp_bitmap p) j n False"
  then show "{pp_frame0 p + j ..< pp_frame0 p + j + n} \<inter> pp_used p = {}"
    by (auto simp: run_def pp_used_def)
next
  assume no: "{pp_frame0 p + j ..< pp_frame0 p + j + n} \<inter> pp_used p = {}"
  have "\<not> bm (pp_bitmap p) i" if i: "j \<le> i" "i < j + n" for i
  proof
    assume "bm (pp_bitmap p) i"
    then have "pp_frame0 p + i \<in> pp_used p" using i assms by (auto simp: pp_used_def)
    moreover have "pp_frame0 p + i \<in> {pp_frame0 p + j ..< pp_frame0 p + j + n}" using i by simp
    ultimately show False using no by blast
  qed
  then show "run (pp_bitmap p) j n False" by (simp add: run_def)
qed

lemma pp_alloc_complete:
  assumes "pp_alloc pool n False pg = (ok, pool', pg')" and wf: "pp_wf pool" and "pp_exact pool" and n: "0 < n"
  shows "ok \<longleftrightarrow> pp_has_run pool n"
  using assms(1) n
proof (cases rule: pp_alloc_cases)
  case (refused c)
  have False if "pp_has_run pool n"
  proof -
    from that obtain j where j: "j + n \<le> pp_num_pages pool"
      "{pp_frame0 pool + j ..< pp_frame0 pool + j + n} \<inter> pp_used pool = {}"
      by (auto simp: pp_has_run_def)
    have "pp_used pool \<noteq> pp_frames pool" using j n by (force simp: pp_frames_def)
    then have "card (pp_used pool) < card (pp_frames pool)"
      using pp_used_subset [of pool] by (intro psubset_card_mono) (auto simp: pp_frames_def)
    then have "pp_free pool \<noteq> 0" using assms(3) by (auto simp: pp_exact_def)
    from pp_alloc_search_unaligned_none [OF refused(4) wf n this j(1)] run_unused [OF j(1)] j(2)
    show False by simp
  qed
  with refused(1) show ?thesis by blast
next
  case (granted b)
  with pp_alloc_search_found [OF granted(2) wf n] run_unused [of b n pool] show ?thesis
    by (auto simp: pp_has_run_def)
qed

section \<open>Reserving given pages\<close>

text \<open>Page-aligned pages that do not wrap around the address space.\<close>

definition ppages_ok :: "ppages \<Rightarrow> bool" where
  "ppages_ok g \<longleftrightarrow> 0 < pa_num g \<and> unat (pa_base g) mod 4096 = 0 \<and> unat (pa_base g) + pa_num g * 4096 < 2 ^ 64"

lemma unat_size_bytes:
  "n * 4096 < 2 ^ 64 \<Longrightarrow> unat (of_nat n * PAGE_SIZE) = n * 4096"
  using unat_mult_no_wrap [of "of_nat n" PAGE_SIZE] by (simp add: unat_of_nat)

lemma mem_ppages_in_pool_iff:
  assumes "pp_wf p" and "ppages_ok g"
  shows "mem_ppages_in_pool p g \<longleftrightarrow> ppages_frames g \<subseteq> pp_frames p"
proof -
  have s: "unat (of_nat (pa_num g) * PAGE_SIZE) = pa_num g * 4096"
    "unat (of_nat (pp_num_pages p) * PAGE_SIZE) = pp_num_pages p * 4096"
    using assms by (simp_all add: unat_size_bytes ppages_ok_def pp_wf_def)
  define f f0 where "f = unat (pa_base g) div 4096" and "f0 = pp_frame0 p"
  have b: "unat (pa_base g) = f * 4096" "unat (pp_base p) = f0 * 4096"
    using assms by (auto simp: f_def f0_def pp_frame0_def ppages_ok_def pp_wf_def)
  have "mem_ppages_in_pool p g \<longleftrightarrow> f0 * 4096 \<le> f * 4096 \<and>
      f * 4096 + pa_num g * 4096 \<le> f0 * 4096 + pp_num_pages p * 4096"
    using assms by (simp add: mem_ppages_in_pool_def range_in_range_iff s b ppages_ok_def pp_wf_def)
  also have "\<dots> \<longleftrightarrow> f0 \<le> f \<and> f + pa_num g \<le> f0 + pp_num_pages p" by linarith
  also have "\<dots> \<longleftrightarrow> ppages_frames g \<subseteq> pp_frames p"
    using assms(2) by (auto simp: ppages_frames_def pp_frames_def f_def [symmetric] f0_def [symmetric]
      ppages_ok_def ivl_subset)
  finally show ?thesis .
qed


lemma pageoff_eq:
  assumes "pp_wf p" and "ppages_ok g" and "ppages_frames g \<subseteq> pp_frames p"
  shows "pp_frame0 p + unat (NUM_PAGES (pa_base g - pp_base p)) = unat (pa_base g) div 4096"
    and "unat (NUM_PAGES (pa_base g - pp_base p)) + pa_num g \<le> pp_num_pages p"
proof -
  define f f0 where "f = unat (pa_base g) div 4096" and "f0 = pp_frame0 p"
  have b: "unat (pa_base g) = f * 4096" "unat (pp_base p) = f0 * 4096"
    using assms by (auto simp: f_def f0_def pp_frame0_def ppages_ok_def pp_wf_def)
  have "f0 \<le> f" and fn: "f + pa_num g \<le> f0 + pp_num_pages p"
    using assms(2,3) by (auto simp: ppages_frames_def pp_frames_def f_def [symmetric] f0_def [symmetric]
      ppages_ok_def ivl_subset)
  then have "unat (pa_base g - pp_base p) = (f - f0) * 4096"
    by (simp add: unat_sub word_le_nat_alt b diff_mult_distrib)
  moreover have "(f - f0) * 4096 + 4096 \<le> 2 ^ 64"
  proof -
    have "1 \<le> pa_num g" using assms(2) by (simp add: ppages_ok_def)
    then have "(f - f0) * 4096 + 4096 \<le> f * 4096 + pa_num g * 4096"
      by (intro add_mono mult_le_mono1) simp_all
    then show ?thesis using assms(2) by (simp add: ppages_ok_def b)
  qed
  ultimately have "unat (NUM_PAGES (pa_base g - pp_base p)) = f - f0"
    using NUM_PAGES_unat [of "pa_base g - pp_base p"] by (simp add: div_mult_self4)
  with \<open>f0 \<le> f\<close> fn show "pp_frame0 p + unat (NUM_PAGES (pa_base g - pp_base p)) = unat (pa_base g) div 4096"
    and "unat (NUM_PAGES (pa_base g - pp_base p)) + pa_num g \<le> pp_num_pages p"
    by (simp_all add: f_def f0_def)
qed

lemma not_reserved_run:
  assumes "mem_ppages_in_pool p g" and "0 < pa_num g"
    and "off = unat (NUM_PAGES (pa_base g - pp_base p))" and "off + pa_num g \<le> pp_num_pages p"
  shows "\<not> mem_are_ppages_reserved_in_pool p g \<longleftrightarrow> run (pp_bitmap p) off (pa_num g) False"
proof (cases "pa_num g = 1")
  case True
  then show ?thesis
    using assms by (simp add: mem_are_ppages_reserved_in_pool_def Let_def bitmap_get_bm
      count_consecutive_le_1 run_1)
next
  case False
  define n where "n = pa_num g"
  define r where "r = bitmap_count_consecutive (pp_bitmap p) (pp_num_pages p) off n"
  have n: "1 < n" using False assms(2) by (simp add: n_def)
  from count_consecutive_spec [OF n r_def [symmetric]]
  have c: "run (pp_bitmap p) off r (bm (pp_bitmap p) off)"
    "r < n \<Longrightarrow> pp_num_pages p \<le> off + r \<or> bm (pp_bitmap p) (off + r) \<noteq> bm (pp_bitmap p) off" by auto
  have "\<not> bm (pp_bitmap p) off \<and> n \<le> r \<longleftrightarrow> run (pp_bitmap p) off n False"
  proof
    assume "\<not> bm (pp_bitmap p) off \<and> n \<le> r"
    with c(1) show "run (pp_bitmap p) off n False" using run_mono by fastforce
  next
    assume f: "run (pp_bitmap p) off n False"
    then have "\<not> bm (pp_bitmap p) off" using n by (simp add: run_def)
    moreover have "n \<le> r"
    proof (rule ccontr)
      assume "\<not> n \<le> r"
      with f c(2) assms(4) \<open>\<not> bm (pp_bitmap p) off\<close> show False by (auto simp: run_def n_def)
    qed
    ultimately show "\<not> bm (pp_bitmap p) off \<and> n \<le> r" by simp
  qed
  with assms(1,3) show ?thesis
    by (auto simp: mem_are_ppages_reserved_in_pool_def Let_def bitmap_get_bm n_def r_def)
qed

lemma mem_reserve_result:
  assumes wf: "pp_wf p" and ok: "ppages_ok g" and r: "mem_reserve_ppool_ppages p g = (r, p')"
  shows "(r \<longleftrightarrow> ppages_frames g \<subseteq> pp_frames p \<and> ppages_frames g \<inter> pp_used p = {}) \<and>
    pp_wf p' \<and> pp_frames p' = pp_frames p \<and> pp_frame0 p' = pp_frame0 p \<and>
    pp_used p' = (if r then pp_used p \<union> ppages_frames g else pp_used p) \<and>
    (pp_exact p \<longrightarrow> pp_exact p')"
proof (cases "ppages_frames g \<subseteq> pp_frames p")
  case False
  then have "(r, p') = (False, p)"
    using r mem_ppages_in_pool_iff [OF wf ok] by (simp add: mem_reserve_ppool_ppages_def)
  with False wf show ?thesis by simp
next
  case True
  define off where "off = unat (NUM_PAGES (pa_base g - pp_base p))"
  note po = pageoff_eq [OF wf ok True, folded off_def]
  have n: "0 < pa_num g" using ok by (simp add: ppages_ok_def)
  have inp: "mem_ppages_in_pool p g" using True mem_ppages_in_pool_iff [OF wf ok] by simp
  have fr: "ppages_frames g = {pp_frame0 p + off ..< pp_frame0 p + off + pa_num g}"
    by (simp add: ppages_frames_def po(1))
  have free: "\<not> mem_are_ppages_reserved_in_pool p g \<longleftrightarrow> ppages_frames g \<inter> pp_used p = {}"
    using not_reserved_run [OF inp n off_def po(2)] run_unused [OF po(2)] fr by simp
  show ?thesis
  proof (cases "mem_are_ppages_reserved_in_pool p g")
    case True
    then have "(r, p') = (False, p)" using r by (simp add: mem_reserve_ppool_ppages_def)
    with True free wf show ?thesis by simp
  next
    case False
    then have rp: "r" "p' = p\<lparr>pp_bitmap := bitmap_set_consecutive (pp_bitmap p) off (pa_num g),
        pp_free := pp_free p - of_nat (pa_num g)\<rparr>"
      using r inp by (auto simp: mem_reserve_ppool_ppages_def off_def Let_def)
    have "pp_used p' = {pp_frame0 p + i | i. i < pp_num_pages p \<and>
        (bm (pp_bitmap p) i \<or> off \<le> i \<and> i < off + pa_num g)}"
      using rp(2) n by (simp add: pp_used_def pp_frame0_def bm_simps)
    also have "\<dots> = pp_used p \<union> {pp_frame0 p + i | i. off \<le> i \<and> i < off + pa_num g}"
      using po(2) by (auto simp: pp_used_def)
    also have "{pp_frame0 p + i | i. off \<le> i \<and> i < off + pa_num g} = ppages_frames g"
      unfolding fr by (rule frame_range)
    finally have used: "pp_used p' = pp_used p \<union> ppages_frames g" .
    have "pp_wf p'" "pp_frames p' = pp_frames p" "pp_frame0 p' = pp_frame0 p"
      using rp(2) wf by (auto simp: pp_wf_def pp_frames_def pp_frame0_def)
    moreover have "pp_exact p'" if "pp_exact p"
      by (rule pp_exact_mark [OF that _ used True]) (use False free rp(2) in simp_all)
    ultimately show ?thesis using True used rp(1) False free by simp
  qed
qed


section \<open>Giving pages back\<close>

text \<open>
  \<open>pp_next_clr\<close> looks for the next page whose color is selected; it runs forever when there is
  none. \<open>mem_free_ppages\<close> visits the pools of the list; the pages are cleared in each pool whose
  range holds the first one. The counter \<open>pp_free\<close> is not touched. The variant of
  \<open>src/src/core/mpu/mem.c\<close> clears contiguously whatever the colors.
\<close>

definition clr_offset :: "nat \<Rightarrow> nat \<Rightarrow> u64 \<Rightarrow> nat" where
  "clr_offset cn cs base = unat (base div PAGE_SIZE) mod (cn * cs)"

partial_function (option) pp_next_clr_loop :: "nat \<Rightarrow> nat \<Rightarrow> nat \<Rightarrow> u64 \<Rightarrow> nat \<Rightarrow> nat option" where
  "pp_next_clr_loop cn cs off colors index =
     (if drop_bit ((index + off) div cs mod cn) colors AND 1 \<noteq> 0 then Some index
      else pp_next_clr_loop cn cs off colors (index + 1))"

definition pp_next_clr :: "nat \<Rightarrow> nat \<Rightarrow> u64 \<Rightarrow> nat \<Rightarrow> u64 \<Rightarrow> nat option" where
  "pp_next_clr cn cs base from_index colors =
     pp_next_clr_loop cn cs (clr_offset cn cs base) colors from_index"

fun free_clr_loop :: "nat \<Rightarrow> nat \<Rightarrow> page_pool \<Rightarrow> u64 \<Rightarrow> nat \<Rightarrow> nat \<Rightarrow> page_pool option" where
  "free_clr_loop cn cs pool colors 0 index = Some pool"
| "free_clr_loop cn cs pool colors (Suc n) index =
     Option.bind (pp_next_clr cn cs (pp_base pool) index colors)
       (\<lambda>index. free_clr_loop cn cs (pool\<lparr>pp_bitmap := bitmap_clear (pp_bitmap pool) index\<rparr>) colors n
                 (index + 1))"

definition mem_free_ppages_pool :: "nat \<Rightarrow> nat \<Rightarrow> page_pool \<Rightarrow> ppages \<Rightarrow> page_pool option" where
  "mem_free_ppages_pool cn cs pool pg =
     (if in_range (pa_base pg) (pp_base pool) (of_nat (pp_num_pages pool) * PAGE_SIZE) then
        (let index = unat ((pa_base pg - pp_base pool) div PAGE_SIZE)
         in if \<not> all_clrs cn (pa_colors pg)
            then free_clr_loop cn cs pool (pa_colors pg) (pa_num pg) index
            else Some (pool\<lparr>pp_bitmap := bitmap_clear_consecutive (pp_bitmap pool) index (pa_num pg)\<rparr>))
      else Some pool)"

definition mem_free_ppages_pool_mpu :: "page_pool \<Rightarrow> ppages \<Rightarrow> page_pool" where
  "mem_free_ppages_pool_mpu pool pg =
     (if in_range (pa_base pg) (pp_base pool) (of_nat (pp_num_pages pool) * PAGE_SIZE) then
        (let index = unat ((pa_base pg - pp_base pool) div PAGE_SIZE)
         in pool\<lparr>pp_bitmap := bitmap_clear_consecutive (pp_bitmap pool) index (pa_num pg)\<rparr>)
      else pool)"

fun mem_free_ppages :: "nat \<Rightarrow> nat \<Rightarrow> page_pool list \<Rightarrow> ppages \<Rightarrow> page_pool list option" where
  "mem_free_ppages cn cs [] pg = Some []"
| "mem_free_ppages cn cs (pool # pools) pg =
     Option.bind (mem_free_ppages_pool cn cs pool pg)
       (\<lambda>pool. Option.bind (mem_free_ppages cn cs pools pg) (\<lambda>pools. Some (pool # pools)))"

definition mem_free_ppages_mpu :: "page_pool list \<Rightarrow> ppages \<Rightarrow> page_pool list" where
  "mem_free_ppages_mpu pools pg = map (\<lambda>pool. mem_free_ppages_pool_mpu pool pg) pools"

text \<open>The first page of the grant is a page of the pool.\<close>

definition pp_owns :: "page_pool \<Rightarrow> ppages \<Rightarrow> bool" where
  "pp_owns p g \<longleftrightarrow> unat (pa_base g) mod 4096 = 0 \<and> unat (pa_base g) div 4096 \<in> pp_frames p"

lemma all_clrs_0 [simp]: "all_clrs cn 0"
  by (simp add: all_clrs_def)

lemma pp_owns_iff_in_range:
  assumes wf: "pp_wf p" and al: "unat (pa_base g) mod 4096 = 0"
  shows "in_range (pa_base g) (pp_base p) (of_nat (pp_num_pages p) * PAGE_SIZE) \<longleftrightarrow> pp_owns p g"
proof -
  define f f0 where "f = unat (pa_base g) div 4096" and "f0 = pp_frame0 p"
  have b: "unat (pa_base g) = f * 4096" "unat (pp_base p) = f0 * 4096"
    using assms by (auto simp: f_def f0_def pp_frame0_def pp_wf_def)
  have s: "unat (of_nat (pp_num_pages p) * PAGE_SIZE) = pp_num_pages p * 4096"
    using wf by (simp add: unat_size_bytes pp_wf_def)
  have lim: "f0 * 4096 + pp_num_pages p * 4096 < 2 ^ 64" using wf by (simp add: pp_wf_def b)
  have "in_range (pa_base g) (pp_base p) (of_nat (pp_num_pages p) * PAGE_SIZE) \<longleftrightarrow>
      f0 * 4096 \<le> f * 4096 \<and> min (f * 4096 + 1) (2 ^ 64 - 1) \<le> f0 * 4096 + pp_num_pages p * 4096"
    using lim by (simp add: in_range_def range_in_range_iff s b)
  also have "\<dots> \<longleftrightarrow> f0 \<le> f \<and> f < f0 + pp_num_pages p"
    using lim word_unat_lt [of "pa_base g"] unfolding b by (cases "f * 4096 + 1 \<le> 2 ^ 64 - 1") auto
  finally show ?thesis using al by (simp add: pp_owns_def pp_frames_def f_def f0_def)
qed

lemma pp_owns_index:
  assumes wf: "pp_wf p" and g: "pp_owns p g"
  shows "pp_frame0 p + unat ((pa_base g - pp_base p) div PAGE_SIZE) = unat (pa_base g) div 4096"
proof -
  define f f0 where "f = unat (pa_base g) div 4096" and "f0 = pp_frame0 p"
  have b: "unat (pa_base g) = f * 4096" "unat (pp_base p) = f0 * 4096"
    using assms by (auto simp: f_def f0_def pp_frame0_def pp_wf_def pp_owns_def)
  have le: "f0 \<le> f" using g by (simp add: pp_owns_def pp_frames_def f_def f0_def)
  then have "unat (pa_base g - pp_base p) = f * 4096 - f0 * 4096"
    by (simp add: unat_sub word_le_nat_alt b)
  also have "\<dots> = (f - f0) * 4096" by (simp add: diff_mult_distrib)
  finally show ?thesis using le by (simp add: unat_div f_def [symmetric] f0_def [symmetric])
qed

lemma mem_free_mpu_used:
  assumes wf: "pp_wf p" and g: "pp_owns p g"
  shows "pp_used (mem_free_ppages_pool_mpu p g) = pp_used p - ppages_frames g"
proof -
  define off where "off = unat ((pa_base g - pp_base p) div PAGE_SIZE)"
  have fr: "ppages_frames g = {pp_frame0 p + off ..< pp_frame0 p + off + pa_num g}"
    by (simp add: ppages_frames_def pp_owns_index [OF assms, folded off_def])
  have "in_range (pa_base g) (pp_base p) (of_nat (pp_num_pages p) * PAGE_SIZE)"
    using pp_owns_iff_in_range [OF wf] g by (simp add: pp_owns_def)
  then show ?thesis
    by (auto simp: mem_free_ppages_pool_mpu_def Let_def off_def [symmetric] pp_used_def
      pp_frame0_def [of "_ \<lparr>pp_bitmap := _\<rparr>"] pp_frame0_def [symmetric] fr bm_simps)
qed

lemma mem_free_contiguous:
  "all_clrs cn (pa_colors g) \<Longrightarrow> mem_free_ppages_pool cn cs p g = Some (mem_free_ppages_pool_mpu p g)"
  by (simp add: mem_free_ppages_pool_def mem_free_ppages_pool_mpu_def Let_def)

lemma mem_free_same [simp]:
  "pp_frames (mem_free_ppages_pool_mpu p g) = pp_frames p"
  "pp_frame0 (mem_free_ppages_pool_mpu p g) = pp_frame0 p"
  "pp_wf (mem_free_ppages_pool_mpu p g) = pp_wf p"
  by (simp_all add: mem_free_ppages_pool_mpu_def Let_def pp_frames_def pp_frame0_def pp_wf_def)


section \<open>Colored pages\<close>

text \<open>
  A page of the frame \<open>f\<close> has the color \<open>f div cs mod cn\<close>. The pages of a colored grant are
  the first n frames of a selected color from its base on.
\<close>

definition frame_selected :: "nat \<Rightarrow> nat \<Rightarrow> u64 \<Rightarrow> nat \<Rightarrow> bool" where
  "frame_selected cn cs colors f \<longleftrightarrow> bit colors (f div cs mod cn)"

definition next_sat :: "(nat \<Rightarrow> bool) \<Rightarrow> nat \<Rightarrow> nat" where
  "next_sat P i = (LEAST j. i \<le> j \<and> P j)"

fun first_sat :: "(nat \<Rightarrow> bool) \<Rightarrow> nat \<Rightarrow> nat \<Rightarrow> nat list" where
  "first_sat P i 0 = []"
| "first_sat P i (Suc n) = next_sat P i # first_sat P (next_sat P i + 1) n"

definition unbounded_sat :: "(nat \<Rightarrow> bool) \<Rightarrow> bool" where
  "unbounded_sat P \<longleftrightarrow> (\<forall>i. \<exists>j \<ge> i. P j)"

lemma next_sat_props:
  assumes "unbounded_sat P"
  shows "i \<le> next_sat P i" and "P (next_sat P i)" and "i \<le> k \<Longrightarrow> k < next_sat P i \<Longrightarrow> \<not> P k"
proof -
  from assms obtain j where "i \<le> j \<and> P j" by (auto simp: unbounded_sat_def)
  then have "i \<le> next_sat P i \<and> P (next_sat P i)"
    unfolding next_sat_def by (rule LeastI)
  then show "i \<le> next_sat P i" and "P (next_sat P i)" by auto
  show "i \<le> k \<Longrightarrow> k < next_sat P i \<Longrightarrow> \<not> P k"
    unfolding next_sat_def using not_less_Least by blast
qed

lemma next_sat_here: "P i \<Longrightarrow> next_sat P i = i"
  by (auto simp: next_sat_def intro: Least_equality)

lemma next_sat_skip: "\<not> P i \<Longrightarrow> next_sat P (Suc i) = next_sat P i"
  unfolding next_sat_def by (rule arg_cong [where f = Least], rule ext)
    (metis Suc_leD Suc_leI le_neq_implies_less)

lemma next_sat_shift:
  assumes "unbounded_sat P"
  shows "F + next_sat (\<lambda>i. P (F + i)) i = next_sat P (F + i)"
proof -
  let ?j = "next_sat P (F + i)"
  have "F + i \<le> ?j" "P ?j" using next_sat_props [OF assms] by auto
  then have "next_sat (\<lambda>i. P (F + i)) i = ?j - F"
    unfolding next_sat_def [of "\<lambda>i. P (F + i)"]
    using next_sat_props(3) [OF assms, of "F + i"]
    by (intro Least_equality) (auto simp: not_less [symmetric] less_diff_conv)
  with \<open>F + i \<le> ?j\<close> show ?thesis by simp
qed

lemma first_sat_shift:
  assumes "unbounded_sat P"
  shows "map ((+) F) (first_sat (\<lambda>i. P (F + i)) i n) = first_sat P (F + i) n"
  by (induction n arbitrary: i) (simp_all add: next_sat_shift [OF assms] add.assoc [symmetric])

lemma unbounded_shift: "unbounded_sat P \<Longrightarrow> unbounded_sat (\<lambda>i. P (F + i))"
  unfolding unbounded_sat_def by (metis add_leD1 le_Suc_ex add_le_cancel_left le_add1 order_trans)

lemma first_sat_bounds:
  assumes "unbounded_sat P" and "x \<in> set (first_sat P i n)"
  shows "i \<le> x \<and> P x"
  using assms(2)
proof (induction n arbitrary: i)
  case (Suc n)
  then show ?case using next_sat_props(1,2) [OF assms(1), of i] by fastforce
qed simp

lemma selected_exists:
  assumes "\<not> all_clrs cn colors" and "0 < cs"
  shows "unbounded_sat (frame_selected cn cs colors)"
proof -
  have "colors AND (shl 1 cn - 1) \<noteq> 0" using assms(1) by (auto simp: all_clrs_def Let_def)
  then obtain k where k: "bit colors k" "bit (shl 1 cn - 1 :: u64) k"
    by (auto simp: bit_eq_iff bit_and_iff)
  have "(shl 1 cn - 1 :: u64) = mask (cn mod 64)" by (simp add: shl_def mask_eq_exp_minus_1)
  with k(2) have "k < cn mod 64" by (simp add: bit_mask_iff)
  then have kc: "k < cn" by (metis less_le_trans mod_less_eq_dividend)
  have "frame_selected cn cs colors (cs * (cn * i + k))" for i
    using k(1) kc assms(2) by (simp add: frame_selected_def)
  moreover have "i \<le> cs * (cn * i + k)" for i
  proof -
    have "1 * (1 * i) \<le> cs * (cn * i)" using assms(2) kc by (intro mult_le_mono) auto
    also have "\<dots> \<le> cs * (cn * i + k)" by (simp add: add_mult_distrib2)
    finally show ?thesis by simp
  qed
  ultimately show ?thesis unfolding unbounded_sat_def by blast
qed

lemma color_of_index:
  assumes "0 < cs"
  shows "(i + F mod (cn * cs)) div cs mod cn = (F + i) div cs mod (cn :: nat)"
proof -
  define q r where "q = F div (cn * cs)" and "r = F mod (cn * cs)"
  have "F = cn * cs * q + r" by (simp only: q_def r_def mult_div_mod_eq)
  then have "F + i = (i + r) + cs * (cn * q)" by (simp add: mult.commute mult.left_commute)
  then have "(F + i) div cs = (i + r + cs * (cn * q)) div cs" by (rule arg_cong)
  also have "\<dots> = cn * q + (i + r) div cs" using assms by (intro div_mult_self2) simp
  finally show ?thesis by (simp add: r_def)
qed

lemma pp_next_clr_loop_sat:
  assumes "unbounded_sat (\<lambda>i. bit colors ((i + off) div cs mod cn))"
  shows "pp_next_clr_loop cn cs off colors i = Some (next_sat (\<lambda>i. bit colors ((i + off) div cs mod cn)) i)"
proof -
  let ?P = "\<lambda>i. bit colors ((i + off) div cs mod cn)"
  have bit: "drop_bit k colors AND 1 \<noteq> 0 \<longleftrightarrow> bit colors k" for k
    by (simp add: and_one_eq bit_iff_odd_drop_bit odd_iff_mod_2_eq_one)
  have "pp_next_clr_loop cn cs off colors i = Some (next_sat ?P i)" if "next_sat ?P i - i = d" for d i
    using that
  proof (induction d arbitrary: i)
    case 0
    then have "next_sat ?P i = i" using next_sat_props(1) [OF assms, of i] by simp
    moreover from this next_sat_props(2) [OF assms, of i] have "?P i" by simp
    ultimately show ?case by (simp add: pp_next_clr_loop.simps bit)
  next
    case (Suc d)
    then have "i < next_sat ?P i" by simp
    then have no: "\<not> ?P i" using next_sat_props(3) [OF assms, of i i] by simp
    from next_sat_skip [of ?P, OF no] Suc have "pp_next_clr_loop cn cs off colors (Suc i) = Some (next_sat ?P i)"
      by simp
    with no show ?case by (simp add: pp_next_clr_loop.simps [of cn cs off colors i] bit)
  qed
  then show ?thesis by simp
qed

text \<open>The selected pages of a pool, by index.\<close>

definition page_selected :: "nat \<Rightarrow> nat \<Rightarrow> u64 \<Rightarrow> page_pool \<Rightarrow> nat \<Rightarrow> bool" where
  "page_selected cn cs colors p i = frame_selected cn cs colors (pp_frame0 p + i)"

lemma pp_next_clr_eq:
  assumes "\<not> all_clrs cn colors" and "0 < cs"
  shows "pp_next_clr cn cs (pp_base p) i colors = Some (next_sat (page_selected cn cs colors p) i)"
proof -
  have P: "(\<lambda>i. bit colors ((i + clr_offset cn cs (pp_base p)) div cs mod cn)) = page_selected cn cs colors p"
    using color_of_index [OF assms(2)]
    by (auto simp: page_selected_def frame_selected_def clr_offset_def pp_frame0_word)
  have "unbounded_sat (page_selected cn cs colors p)"
    unfolding page_selected_def by (rule unbounded_shift [OF selected_exists [OF assms]])
  with pp_next_clr_loop_sat [of colors "clr_offset cn cs (pp_base p)" cs cn i] show ?thesis
    by (simp add: P pp_next_clr_def)
qed

end
