(* ===== verification/Vmpu.thy ===== *)
theory Vmpu
  imports Hv_State Object_Pool Page_Pool
begin

text \<open>
  The virtual MPU of the hypervisor on systems with memory protection units,
  \<open>src/src/core/mpu/mem.c\<close> and \<open>src/src/core/mpu/inc/mem_prot/mem.h\<close>: an address space is a table of
  64 entries and the list of the valid ones in the order of their bases; the regions are put into
  the physical MPU of the processor by the operations of \<open>mpu_ops\<close>, which each architecture
  provides, and other processors that share the region are told by messages.

  A processor's own address space and those of the machines are named by \<open>as_ref\<close>. The intrusive
  list is the sequence of the entries' numbers (\<open>Linked_List\<close>). \<open>Inl NO_RETURN\<close> is the result of a
  loop or of the wait for a lock that never ends.
\<close>

section \<open>Data\<close>

record mem_flags =
  mf_prbar :: "16 word"
  mf_prlar :: "16 word"

definition mf_raw :: "mem_flags \<Rightarrow> u64" where
  "mf_raw f = ucast (mf_prbar f) OR push_bit 16 (ucast (mf_prlar f))"

definition SEC_HYP_GLOBAL :: int where "SEC_HYP_GLOBAL = 0"
definition SEC_HYP_IMAGE :: int where "SEC_HYP_IMAGE = 1"
definition SEC_HYP_PRIVATE :: int where "SEC_HYP_PRIVATE = 2"
definition SEC_HYP_VM :: int where "SEC_HYP_VM = 3"
definition SEC_VM_ANY :: int where "SEC_VM_ANY = 0"
definition SEC_UNKNOWN :: int where "SEC_UNKNOWN = - 1"

lemmas sec_defs = SEC_HYP_GLOBAL_def SEC_HYP_IMAGE_def SEC_HYP_PRIVATE_def SEC_HYP_VM_def SEC_VM_ANY_def SEC_UNKNOWN_def

definition VMPU_NUM_ENTRIES :: nat where "VMPU_NUM_ENTRIES = 64"

record mp_region =
  mr_base :: u64
  mr_size :: u64
  mr_flags :: mem_flags
  mr_sec :: int

datatype mpe_state = MPE_S_FREE | MPE_S_INVALID | MPE_S_VALID

record mpe =
  mp_state :: mpe_state
  mp_lock :: bool
  mp_region :: mp_region
  mp_mpid :: nat

record addr_space =
  as_id :: u64
  as_type :: AS_TYPE
  as_colors :: u64
  as_list :: "nat list"
  as_node :: "nat \<Rightarrow> mpe"
  as_lock :: bool

datatype as_ref = CPU_AS nat | VM_AS nat

record shared_region =
  shr_type :: AS_TYPE
  shr_asid :: u64
  shr_region :: mp_region
  shr_lock :: bool

text \<open>
  The physical MPU of a processor. The first two arguments are the identifiers of the processor's
  own address space and of that of the machine it runs, if any. \<open>mpu_map\<close> adjusts the flags of the
  region it is given.
\<close>

record 'm mpu_ops =
  mpu_map :: "u64 \<Rightarrow> u64 option \<Rightarrow> u64 \<Rightarrow> AS_TYPE \<Rightarrow> mp_region \<Rightarrow> bool \<Rightarrow> 'm \<Rightarrow> (bool \<times> mp_region \<times> 'm) outcome"
  mpu_unmap :: "u64 \<Rightarrow> u64 option \<Rightarrow> u64 \<Rightarrow> mp_region \<Rightarrow> 'm \<Rightarrow> (bool \<times> 'm) outcome"
  mpu_update :: "u64 \<Rightarrow> mp_region \<Rightarrow> 'm \<Rightarrow> bool \<times> 'm"
  mpu_perms_compatible :: "u64 \<Rightarrow> u64 \<Rightarrow> bool"
  mpu_granularity :: u64

text \<open>The number of processors and the number of the message handler are the platform's.\<close>

record 'm mps_params =
  mk_ops :: "'m mpu_ops"
  PLAT_CPU_NUM :: nat
  MEM_PROT_SYNC :: u32

record 'm mps = hv +
  ms_spaces :: "as_ref \<Rightarrow> addr_space"
  ms_mpu :: "nat \<Rightarrow> 'm"
  ms_pool :: objpool
  ms_nodes :: "u64 \<Rightarrow> shared_region"
  ms_asid :: u64

type_synonym ('m, 'a) mps_st = "('m, 'a) mps_scheme"

definition as_update :: "as_ref \<Rightarrow> (addr_space \<Rightarrow> addr_space) \<Rightarrow> ('m, 'a) mps_st \<Rightarrow> ('m, 'a) mps_st" where
  "as_update r f st = st\<lparr>ms_spaces := (ms_spaces st)(r := f (ms_spaces st r))\<rparr>"

definition mpe_update :: "nat \<Rightarrow> (mpe \<Rightarrow> mpe) \<Rightarrow> addr_space \<Rightarrow> addr_space" where
  "mpe_update i f as = as\<lparr>as_node := (as_node as)(i := f (as_node as i))\<rparr>"

definition mpu_ids :: "nat \<Rightarrow> ('m, 'a) mps_st \<Rightarrow> u64 \<times> u64 option" where
  "mpu_ids c st = (as_id (ms_spaces st (CPU_AS c)),
     case hv_vcpu st c of None \<Rightarrow> None | Some (v, i) \<Rightarrow> Some (as_id (ms_spaces st (VM_AS v))))"

section \<open>Entries\<close>

definition mem_vmpu_get_entry :: "addr_space \<Rightarrow> nat option \<Rightarrow> mpe option" where
  "mem_vmpu_get_entry as mpid =
     (case mpid of None \<Rightarrow> None | Some i \<Rightarrow> if i < VMPU_NUM_ENTRIES then Some (as_node as i) else None)"

definition vmpu_node_cmp :: "mpe \<Rightarrow> mpe \<Rightarrow> int" where
  "vmpu_node_cmp n1 n2 =
     (if mr_base (mp_region n1) > mr_base (mp_region n2) then 1
      else if mr_base (mp_region n1) < mr_base (mp_region n2) then - 1 else 0)"

text \<open>\<open>list_insert_ordered\<close> with the comparison: before the first greater entry.\<close>

fun vmpu_list_insert :: "(nat \<Rightarrow> mpe) \<Rightarrow> nat \<Rightarrow> nat list \<Rightarrow> nat list" where
  "vmpu_list_insert nodes i [] = [i]"
| "vmpu_list_insert nodes i (j # js) =
     (if vmpu_node_cmp (nodes j) (nodes i) > 0 then i # j # js else j # vmpu_list_insert nodes i js)"

definition mem_vmpu_set_entry :: "nat \<Rightarrow> mp_region \<Rightarrow> bool \<Rightarrow> addr_space \<Rightarrow> addr_space" where
  "mem_vmpu_set_entry mpid mpr locked as =
     (let as = mpe_update mpid (\<lambda>e. e\<lparr>mp_region := mpr, mp_state := MPE_S_VALID, mp_mpid := mpid, mp_lock := locked\<rparr>) as
      in as\<lparr>as_list := vmpu_list_insert (as_node as) mpid (as_list as)\<rparr>)"

definition PTE_INVALID :: mem_flags where
  "PTE_INVALID = \<lparr>mf_prbar = 0, mf_prlar = 0\<rparr>"

definition mem_vmpu_clear_entry :: "nat \<Rightarrow> addr_space \<Rightarrow> addr_space" where
  "mem_vmpu_clear_entry mpid =
     mpe_update mpid (\<lambda>e. e\<lparr>mp_region := \<lparr>mr_base = 0, mr_size = 0, mr_flags = PTE_INVALID, mr_sec = SEC_UNKNOWN\<rparr>,
       mp_state := MPE_S_INVALID, mp_lock := False\<rparr>)"

definition mem_vmpu_free_entry :: "nat \<Rightarrow> addr_space \<Rightarrow> addr_space" where
  "mem_vmpu_free_entry mpid as =
     (let as = mpe_update mpid (\<lambda>e. e\<lparr>mp_state := MPE_S_FREE\<rparr>) (mem_vmpu_clear_entry mpid as)
      in as\<lparr>as_list := remove1 mpid (as_list as)\<rparr>)"

fun vmpu_find :: "(mpe \<Rightarrow> bool) \<Rightarrow> (nat \<Rightarrow> mpe) \<Rightarrow> nat list \<Rightarrow> nat option" where
  "vmpu_find P nodes [] = None"
| "vmpu_find P nodes (i # is') = (if P (nodes i) then Some i else vmpu_find P nodes is')"

definition mem_vmpu_allocate_entry :: "addr_space \<Rightarrow> (nat \<times> addr_space) outcome" where
  "mem_vmpu_allocate_entry as =
     (case vmpu_find (\<lambda>e. mp_state e = MPE_S_FREE) (as_node as) [0..<VMPU_NUM_ENTRIES] of
        None \<Rightarrow> Inl (ERROR ''no free vMPU entry: VMPU_NUM_ENTRIES is too small'')
      | Some i \<Rightarrow> Inr (i, mpe_update i (\<lambda>e. e\<lparr>mp_state := MPE_S_INVALID\<rparr>) as))"

definition mem_vmpu_get_entry_by_addr :: "addr_space \<Rightarrow> u64 \<Rightarrow> nat option" where
  "mem_vmpu_get_entry_by_addr as addr =
     vmpu_find (\<lambda>e. mp_state e = MPE_S_VALID \<and> addr \<ge> mr_base (mp_region e) \<and>
       addr < mr_base (mp_region e) + mr_size (mp_region e)) (as_node as) [0..<VMPU_NUM_ENTRIES]"

definition mem_regions_overlap :: "mp_region \<Rightarrow> mp_region \<Rightarrow> bool" where
  "mem_regions_overlap reg1 reg2 = range_in_range (mr_base reg1) (mr_size reg1) (mr_base reg2) (mr_size reg2)"

definition mem_vmpu_find_overlapping_region :: "addr_space \<Rightarrow> mp_region \<Rightarrow> nat option" where
  "mem_vmpu_find_overlapping_region as region =
     vmpu_find (\<lambda>e. mp_state e = MPE_S_VALID \<and> mem_regions_overlap region (mp_region e)) (as_node as)
       [0..<VMPU_NUM_ENTRIES]"

section \<open>Telling other processors\<close>

definition MEM_INSERT_REGION :: u32 where "MEM_INSERT_REGION = 0"
definition MEM_REMOVE_REGION :: u32 where "MEM_REMOVE_REGION = 1"
definition MEM_UPDATE_REGION :: u32 where "MEM_UPDATE_REGION = 2"

definition mem_section_shared_cpus :: "nat \<Rightarrow> nat \<Rightarrow> addr_space \<Rightarrow> int \<Rightarrow> ('m, 'a) mps_st \<Rightarrow> u64 outcome" where
  "mem_section_shared_cpus n c as sec st =
     (if as_type as = AS_HYP then
        (if sec = SEC_HYP_GLOBAL \<or> sec = SEC_HYP_IMAGE then Inr (BIT_MASK 0 n)
         else if sec = SEC_HYP_VM then (case cpu_vm c st of Some vm \<Rightarrow> Inr (vm_cpus vm) | None \<Rightarrow> Inr 0)
         else Inr 0)
      else (case cpu_vm c st of Some vm \<Rightarrow> Inr (vm_cpus vm) | None \<Rightarrow> Inl NULL_DEREF))"

fun mem_broadcast_loop ::
    "'m mps_params \<Rightarrow> nat \<Rightarrow> u64 \<Rightarrow> shared_region \<Rightarrow> u32 \<Rightarrow> nat list \<Rightarrow> ('m, 'a) mps_st \<Rightarrow> ('m, 'a) mps_st outcome" where
  "mem_broadcast_loop K c shared_cpus sh opn [] st = Inr st"
| "mem_broadcast_loop K c shared_cpus sh opn (cpuid # cpuids) st =
     (if c \<noteq> cpuid \<and> bit_get shared_cpus cpuid \<noteq> 0 then
        (case objpool_alloc (ms_pool st) of
           (None, p) \<Rightarrow> Inl (ERROR ''Failed allocating shared region node'')
         | (Some node, p) \<Rightarrow>
             (let st = st\<lparr>ms_pool := p, ms_nodes := (ms_nodes st)(node := sh)\<rparr>;
                  msg = \<lparr>msg_handler = MEM_PROT_SYNC K, msg_event = opn, msg_data = node\<rparr>
              in mem_broadcast_loop K c shared_cpus sh opn cpuids (cpu_send_msg cpuid msg st)))
      else mem_broadcast_loop K c shared_cpus sh opn cpuids st)"

definition mem_region_broadcast ::
    "'m mps_params \<Rightarrow> nat \<Rightarrow> as_ref \<Rightarrow> mp_region \<Rightarrow> u32 \<Rightarrow> bool \<Rightarrow> ('m, 'a) mps_st \<Rightarrow> ('m, 'a) mps_st outcome" where
  "mem_region_broadcast K c r mpr opn locked st =
     obind (mem_section_shared_cpus (PLAT_CPU_NUM K) c (ms_spaces st r) (mr_sec mpr) st) (\<lambda>shared_cpus.
       if shared_cpus = 0 then Inr st
       else mem_broadcast_loop K c shared_cpus
              \<lparr>shr_type = as_type (ms_spaces st r), shr_asid = as_id (ms_spaces st r), shr_region = mpr, shr_lock = locked\<rparr>
              opn [0..<PLAT_CPU_NUM K] st)"

definition mem_broadcast :: "addr_space \<Rightarrow> mp_region \<Rightarrow> bool \<Rightarrow> bool" where
  "mem_broadcast as mpr broadcast =
     (if as_type as = AS_HYP \<and> mr_sec mpr = SEC_HYP_PRIVATE then False else broadcast)"

definition mem_check_forced_locked :: "mp_region \<Rightarrow> bool \<Rightarrow> bool" where
  "mem_check_forced_locked mpr locked =
     (if mr_sec mpr = SEC_HYP_PRIVATE \<or> mr_sec mpr = SEC_HYP_VM \<or> mr_sec mpr = SEC_HYP_IMAGE then True else locked)"

text \<open>The broadcast of a change, when it is to be told.\<close>

definition tell ::
    "'m mps_params \<Rightarrow> nat \<Rightarrow> as_ref \<Rightarrow> mp_region \<Rightarrow> u32 \<Rightarrow> bool \<Rightarrow> bool \<Rightarrow> ('m, 'a) mps_st \<Rightarrow> ('m, 'a) mps_st outcome" where
  "tell K c r mpr opn broadcast locked st =
     (if mem_broadcast (ms_spaces st r) mpr broadcast then mem_region_broadcast K c r mpr opn locked st else Inr st)"

section \<open>Regions\<close>

definition mem_vmpu_insert_region ::
    "'m mps_params \<Rightarrow> nat \<Rightarrow> as_ref \<Rightarrow> nat option \<Rightarrow> mp_region \<Rightarrow> bool \<Rightarrow> bool \<Rightarrow> ('m, 'a) mps_st \<Rightarrow> (bool \<times> ('m, 'a) mps_st) outcome" where
  "mem_vmpu_insert_region K c r mpid mpr broadcast locked st =
     (let lock = mem_check_forced_locked mpr locked
      in case mpid of
           None \<Rightarrow> Inr (False, st)
         | Some mpid \<Rightarrow>
             (let as = ms_spaces st r; (hyp_id, vm_id) = mpu_ids c st
              in obind (mpu_map (mk_ops K) hyp_id vm_id (as_id as) (as_type as) mpr lock (ms_mpu st c))
                   (\<lambda>(ok, mpr, m).
                     let st = st\<lparr>ms_mpu := (ms_mpu st)(c := m)\<rparr>
                     in if ok then
                          obind (tell K c r mpr MEM_INSERT_REGION broadcast lock (as_update r (mem_vmpu_set_entry mpid mpr lock) st))
                            (\<lambda>st. Inr (True, st))
                        else Inr (False, st))))"

definition mem_vmpu_update_region ::
    "'m mps_params \<Rightarrow> nat \<Rightarrow> as_ref \<Rightarrow> nat \<Rightarrow> mp_region \<Rightarrow> bool \<Rightarrow> bool \<Rightarrow> ('m, 'a) mps_st \<Rightarrow> (bool \<times> ('m, 'a) mps_st) outcome" where
  "mem_vmpu_update_region K c r mpid merge_reg broadcast locked st =
     (let (ok, m) = mpu_update (mk_ops K) (as_id (ms_spaces st r)) merge_reg (ms_mpu st c);
          st = st\<lparr>ms_mpu := (ms_mpu st)(c := m)\<rparr>
      in if ok then
           obind (tell K c r merge_reg MEM_UPDATE_REGION broadcast locked
                    (as_update r (mpe_update mpid (\<lambda>e. e\<lparr>mp_region := merge_reg\<rparr>)) st))
             (\<lambda>st. Inr (True, st))
         else Inr (False, st))"

definition mem_vmpu_remove_region ::
    "'m mps_params \<Rightarrow> nat \<Rightarrow> as_ref \<Rightarrow> nat option \<Rightarrow> bool \<Rightarrow> ('m, 'a) mps_st \<Rightarrow> (bool \<times> ('m, 'a) mps_st) outcome" where
  "mem_vmpu_remove_region K c r mpid broadcast st =
     (case (mpid, mem_vmpu_get_entry (ms_spaces st r) mpid) of
        (Some i, Some mpe) \<Rightarrow>
          if mp_state mpe = MPE_S_VALID then
            (let lock = mp_lock mpe; region = mp_region mpe
             in obind (tell K c r region MEM_REMOVE_REGION broadcast lock st) (\<lambda>st.
                  let (hyp_id, vm_id) = mpu_ids c st
                  in obind (mpu_unmap (mk_ops K) hyp_id vm_id (as_id (ms_spaces st r)) region (ms_mpu st c)) (\<lambda>(ok, m).
                       Inr (True, as_update r (mem_vmpu_free_entry i) (st\<lparr>ms_mpu := (ms_mpu st)(c := m)\<rparr>)))))
          else Inr (False, st)
      | _ \<Rightarrow> Inr (False, st))"

text \<open>The first adjacent pair of the list, \<open>(prev, cur)\<close>, that can become one region.\<close>

fun vmpu_find_mergeable :: "(u64 \<Rightarrow> u64 \<Rightarrow> bool) \<Rightarrow> (nat \<Rightarrow> mpe) \<Rightarrow> nat list \<Rightarrow> (nat \<times> nat) option" where
  "vmpu_find_mergeable perms_ok nodes (prev # cur # is') =
     (let p = mp_region (nodes prev); q = mp_region (nodes cur);
          contiguous = (mr_base p + mr_size p = mr_base q);
          perms_compatible = perms_ok (mf_raw (mr_flags p)) (mf_raw (mr_flags q));
          lock_compatible = (\<not> mp_lock (nodes prev) \<and> \<not> mp_lock (nodes cur))
      in if contiguous \<and> perms_compatible \<and> lock_compatible then Some (prev, cur)
         else vmpu_find_mergeable perms_ok nodes (cur # is'))"
| "vmpu_find_mergeable perms_ok nodes _ = None"

partial_function (option) vmpu_coalesce_loop ::
    "'m mps_params \<Rightarrow> nat \<Rightarrow> as_ref \<Rightarrow> bool \<Rightarrow> ('m, 'a) mps_st \<Rightarrow> ('m, 'a) mps_st outcome option" where
  "vmpu_coalesce_loop K c r broadcast st =
     (case vmpu_find_mergeable (mpu_perms_compatible (mk_ops K)) (as_node (ms_spaces st r)) (as_list (ms_spaces st r)) of
        None \<Rightarrow> Some (Inr st)
      | Some (prev, cur) \<Rightarrow>
          (let p = as_node (ms_spaces st r) prev; q = as_node (ms_spaces st r) cur;
               merged_reg = \<lparr>mr_base = mr_base (mp_region p), mr_size = mr_size (mp_region p) + mr_size (mp_region q),
                             mr_flags = mr_flags (mp_region q), mr_sec = 0\<rparr>
           in case mem_vmpu_update_region K c r prev merged_reg broadcast (mp_lock p) st of
                Inl e \<Rightarrow> Some (Inl e)
              | Inr (merged, st') \<Rightarrow>
                  if merged then
                    (case mem_vmpu_remove_region K c r (Some cur) broadcast st' of
                       Inl e \<Rightarrow> Some (Inl e)
                     | Inr (removed, st'') \<Rightarrow> vmpu_coalesce_loop K c r broadcast st'')
                  else vmpu_coalesce_loop K c r broadcast st'))"

definition mem_vmpu_coalesce_contiguous ::
    "'m mps_params \<Rightarrow> nat \<Rightarrow> as_ref \<Rightarrow> bool \<Rightarrow> ('m, 'a) mps_st \<Rightarrow> ('m, 'a) mps_st outcome" where
  "mem_vmpu_coalesce_contiguous K c r broadcast st =
     (case vmpu_coalesce_loop K c r broadcast st of None \<Rightarrow> Inl NO_RETURN | Some res \<Rightarrow> res)"

section \<open>Mapping and unmapping\<close>

definition spin_lock :: "as_ref \<Rightarrow> ('m, 'a) mps_st \<Rightarrow> ('m, 'a) mps_st outcome" where
  "spin_lock r st =
     (if as_lock (ms_spaces st r) then Inl NO_RETURN else Inr (as_update r (\<lambda>as. as\<lparr>as_lock := True\<rparr>) st))"

definition spin_unlock :: "as_ref \<Rightarrow> ('m, 'a) mps_st \<Rightarrow> ('m, 'a) mps_st" where
  "spin_unlock r st = as_update r (\<lambda>as. as\<lparr>as_lock := False\<rparr>) st"

text \<open>The allocation never gives \<open>INVALID_MPID\<close>, so that the branch that deallocates it is left out.\<close>

definition mem_map ::
    "'m mps_params \<Rightarrow> nat \<Rightarrow> as_ref \<Rightarrow> mp_region \<Rightarrow> bool \<Rightarrow> bool \<Rightarrow> ('m, 'a) mps_st \<Rightarrow> (bool \<times> ('m, 'a) mps_st) outcome" where
  "mem_map K c r mpr broadcast locked st =
     (if mr_size mpr = 0 then Inr (True, st)
      else if mr_size mpr mod mpu_granularity (mk_ops K) \<noteq> 0
      then Inl (ERROR ''trying to set mpu region which is not a multiple of granularity'')
      else
        obind (spin_lock r st) (\<lambda>st.
        obind (if mem_vmpu_find_overlapping_region (ms_spaces st r) mpr = None then
                 obind (mem_vmpu_allocate_entry (ms_spaces st r)) (\<lambda>(mpid, as).
                   mem_vmpu_insert_region K c r (Some mpid) mpr broadcast locked (as_update r (\<lambda>_. as) st))
               else Inr (False, st)) (\<lambda>(mapped, st).
        obind (if mapped \<and> \<not> locked then mem_vmpu_coalesce_contiguous K c r broadcast st else Inr st) (\<lambda>st.
        Inr (mapped, spin_unlock r st)))))"

text \<open>
  One round of the loop of \<open>mem_unmap_range\<close>: \<open>Inr (None, st)\<close> when nothing overlaps, the result
  \<open>Inr (Some (Some d), st)\<close> when \<open>d\<close> bytes were unmapped, and \<open>Inr (Some None, st)\<close> for the early
  return, which leaves the lock taken.
\<close>

definition unmap_round ::
    "'m mps_params \<Rightarrow> nat \<Rightarrow> as_ref \<Rightarrow> u64 \<Rightarrow> u64 \<Rightarrow> bool \<Rightarrow> ('m, 'a) mps_st \<Rightarrow>
     (u64 option option \<times> ('m, 'a) mps_st) outcome" where
  "unmap_round K c r vaddr size0 broadcast st =
     (case mem_vmpu_find_overlapping_region (ms_spaces st r)
             \<lparr>mr_base = vaddr, mr_size = size0, mr_flags = PTE_INVALID, mr_sec = SEC_UNKNOWN\<rparr> of
        None \<Rightarrow> Inr (None, st)
      | Some mpid \<Rightarrow>
          (let mpe = as_node (ms_spaces st r) mpid; reg = mp_region mpe; locked = mp_lock mpe;
               limit = vaddr + size0; r_limit = mr_base reg + mr_size reg; r_base = mr_base reg;
               top_size = (if limit \<ge> r_limit then 0 else r_limit - limit);
               bottom_size = (if vaddr \<le> r_base then 0 else vaddr - r_base)
           in obind (mem_vmpu_remove_region K c r (Some mpid) broadcast st) (\<lambda>(_, st).
              obind (if top_size > 0 then
                       obind (mem_vmpu_allocate_entry (ms_spaces st r)) (\<lambda>(top_mpid, as).
                         mem_vmpu_insert_region K c r (Some top_mpid) (reg\<lparr>mr_base := limit, mr_size := top_size\<rparr>)
                           broadcast locked (as_update r (\<lambda>_. as) st))
                     else Inr (True, st)) (\<lambda>(ok, st).
              if \<not> ok then Inr (Some None, st)
              else
                obind (if bottom_size > 0 then
                         obind (mem_vmpu_allocate_entry (ms_spaces st r)) (\<lambda>(bottom_mpid, as).
                           mem_vmpu_insert_region K c r (Some bottom_mpid) (reg\<lparr>mr_size := bottom_size\<rparr>)
                             broadcast locked (as_update r (\<lambda>_. as) st))
                       else Inr (True, st)) (\<lambda>(ok, st).
                if \<not> ok then Inr (Some None, st)
                else Inr (Some (Some (mr_size reg - top_size - bottom_size)), st))))))"

partial_function (option) unmap_loop ::
    "'m mps_params \<Rightarrow> nat \<Rightarrow> as_ref \<Rightarrow> u64 \<Rightarrow> u64 \<Rightarrow> bool \<Rightarrow> u64 \<Rightarrow> ('m, 'a) mps_st \<Rightarrow>
     (bool \<times> ('m, 'a) mps_st) outcome option" where
  "unmap_loop K c r vaddr size0 broadcast size_left st =
     (if size_left > 0 then
        (case unmap_round K c r vaddr size0 broadcast st of
           Inl e \<Rightarrow> Some (Inl e)
         | Inr (res, st') \<Rightarrow>
             (case res of
                None \<Rightarrow> Some (Inr (size_left = 0, spin_unlock r st'))
              | Some None \<Rightarrow> Some (Inr (False, st'))
              | Some (Some d) \<Rightarrow> unmap_loop K c r vaddr size0 broadcast (size_left - d) st'))
      else Some (Inr (size_left = 0, spin_unlock r st)))"

definition mem_unmap_range ::
    "'m mps_params \<Rightarrow> nat \<Rightarrow> as_ref \<Rightarrow> u64 \<Rightarrow> u64 \<Rightarrow> bool \<Rightarrow> ('m, 'a) mps_st \<Rightarrow> (bool \<times> ('m, 'a) mps_st) outcome" where
  "mem_unmap_range K c r vaddr size0 broadcast st =
     obind (spin_lock r st) (\<lambda>st.
       case unmap_loop K c r vaddr size0 broadcast size0 st of None \<Rightarrow> Inl NO_RETURN | Some res \<Rightarrow> res)"

text \<open>The pages are freed without a look at colors, \<open>mem_free_ppages_mpu\<close>.\<close>

definition mem_unmap ::
    "'m mps_params \<Rightarrow> nat \<Rightarrow> as_ref \<Rightarrow> u64 \<Rightarrow> nat \<Rightarrow> bool \<Rightarrow> page_pool list \<times> ('m, 'a) mps_st \<Rightarrow>
     (page_pool list \<times> ('m, 'a) mps_st) outcome" where
  "mem_unmap K c r at num_pages free_ppages ps =
     (let (pools, st) = ps
      in obind (mem_unmap_range K c r at (of_nat num_pages * PAGE_SIZE) True st) (\<lambda>(ok, st).
           Inr (if ok \<and> free_ppages then mem_free_ppages_mpu pools (mem_ppages_get at num_pages) else pools, st)))"

definition mem_map_cpy ::
    "'m mps_params \<Rightarrow> nat \<Rightarrow> as_ref \<Rightarrow> as_ref \<Rightarrow> int \<Rightarrow> u64 \<Rightarrow> u64 \<Rightarrow> nat \<Rightarrow> ('m, 'a) mps_st \<Rightarrow> (u64 \<times> ('m, 'a) mps_st) outcome" where
  "mem_map_cpy K c ass asd asd_section vas vad num_pages st =
     (if ass \<noteq> asd \<and> (vad = INVALID_VA \<or> vad = vas) then
        obind (spin_lock ass st) (\<lambda>st.
          case mem_vmpu_get_entry (ms_spaces st ass) (mem_vmpu_get_entry_by_addr (ms_spaces st ass) vas) of
            None \<Rightarrow> Inl NULL_DEREF
          | Some mpe \<Rightarrow>
              (let mpr = (mp_region mpe)\<lparr>mr_sec := asd_section\<rparr>;
                   st = spin_unlock ass st
               in if of_nat num_pages * PAGE_SIZE > mr_size mpr then Inr (INVALID_VA, st)
                  else
                    (let mpr = mpr\<lparr>mr_size := of_nat num_pages * PAGE_SIZE\<rparr>;
                         broadcast = mem_broadcast (ms_spaces st asd) mpr True
                     in obind (mem_map K c asd mpr broadcast False st) (\<lambda>(ok, st).
                          Inr (if ok then vas else INVALID_VA, st)))))
      else Inr (INVALID_VA, st))"

definition mem_translate :: "addr_space \<Rightarrow> u64 \<Rightarrow> u64 option" where
  "mem_translate as va = (if mem_vmpu_get_entry_by_addr as va \<noteq> None then Some va else None)"

definition mem_alloc_map ::
    "'m mps_params \<Rightarrow> nat \<Rightarrow> as_ref \<Rightarrow> int \<Rightarrow> ppages option \<Rightarrow> u64 \<Rightarrow> nat \<Rightarrow> mem_flags \<Rightarrow> ('m, 'a) mps_st \<Rightarrow>
     (u64 \<times> ('m, 'a) mps_st) outcome" where
  "mem_alloc_map K c r sec ppages at num_pages flags st =
     (if at = INVALID_VA \<and> ppages = None then
        Inl (ERROR ''Cannot map an MPU region because neither the virtual or physical address was specified.'')
      else if at \<noteq> INVALID_VA \<and> ppages \<noteq> None \<and> at \<noteq> pa_base (the ppages) then Inl (ERROR ''Trying to map non identity'')
      else
        (let (at, pg) =
               (if at = INVALID_VA then (pa_base (the ppages), the ppages)
                else (at, case ppages of None \<Rightarrow> mem_ppages_get at num_pages | Some pg \<Rightarrow> pg));
             mpr = \<lparr>mr_base = pa_base pg, mr_size = of_nat num_pages * PAGE_SIZE, mr_flags = flags, mr_sec = sec\<rparr>
         in obind (mem_map K c r mpr True False st) (\<lambda>(mapped, st). Inr (at, st))))"

definition mem_alloc_map_dev ::
    "'m mps_params \<Rightarrow> mem_flags \<Rightarrow> mem_flags \<Rightarrow> nat \<Rightarrow> as_ref \<Rightarrow> int \<Rightarrow> u64 \<Rightarrow> u64 \<Rightarrow> nat \<Rightarrow> ('m, 'a) mps_st \<Rightarrow>
     (u64 \<times> ('m, 'a) mps_st) outcome" where
  "mem_alloc_map_dev K PTE_HYP_DEV_FLAGS PTE_VM_DEV_FLAGS c r sec at pa num_pages st =
     mem_alloc_map K c r sec (Some (mem_ppages_get pa num_pages)) at num_pages
       (if as_type (ms_spaces st r) = AS_HYP then PTE_HYP_DEV_FLAGS else PTE_VM_DEV_FLAGS) st"

section \<open>Initialisation\<close>

definition as_id_alloc :: "as_ref \<Rightarrow> ('m, 'a) mps_st \<Rightarrow> u64 \<times> ('m, 'a) mps_st" where
  "as_id_alloc r st =
     (if as_type (ms_spaces st r) \<noteq> AS_HYP then (ms_asid st, st\<lparr>ms_asid := ms_asid st + 1\<rparr>) else (0, st))"

definition as_init :: "as_ref \<Rightarrow> AS_TYPE \<Rightarrow> ('m, 'a) mps_st \<Rightarrow> ('m, 'a) mps_st" where
  "as_init r type st =
     (let st = as_update r (\<lambda>as. as\<lparr>as_type := type, as_colors := 0\<rparr>) st;
          (i, st) = as_id_alloc r st
      in as_update r (\<lambda>as. fold mem_vmpu_free_entry [0..<VMPU_NUM_ENTRIES]
           (as\<lparr>as_id := i, as_lock := False, as_list := []\<rparr>)) st)"

section \<open>What other processors do with a message\<close>

definition mem_handle_broadcast_insert ::
    "'m mps_params \<Rightarrow> nat \<Rightarrow> as_ref \<Rightarrow> mp_region \<Rightarrow> bool \<Rightarrow> ('m, 'a) mps_st \<Rightarrow> ('m, 'a) mps_st outcome" where
  "mem_handle_broadcast_insert K c r mpr locked st =
     (if as_type (ms_spaces st r) = AS_HYP then
        obind (mem_map K c (CPU_AS c) mpr False locked st) (\<lambda>(_, st). Inr st)
      else
        (let (hyp_id, vm_id) = mpu_ids c st; as = ms_spaces st r
         in obind (mpu_map (mk_ops K) hyp_id vm_id (as_id as) (as_type as) mpr locked (ms_mpu st c))
              (\<lambda>(_, _, m). Inr (st\<lparr>ms_mpu := (ms_mpu st)(c := m)\<rparr>))))"

definition mem_handle_broadcast_remove ::
    "'m mps_params \<Rightarrow> nat \<Rightarrow> as_ref \<Rightarrow> mp_region \<Rightarrow> ('m, 'a) mps_st \<Rightarrow> ('m, 'a) mps_st outcome" where
  "mem_handle_broadcast_remove K c r mpr st =
     (if as_type (ms_spaces st r) = AS_HYP then
        obind (mem_unmap_range K c (CPU_AS c) (mr_base mpr) (mr_size mpr) False st) (\<lambda>(_, st). Inr st)
      else
        (let (hyp_id, vm_id) = mpu_ids c st
         in obind (mpu_unmap (mk_ops K) hyp_id vm_id (as_id (ms_spaces st r)) mpr (ms_mpu st c))
              (\<lambda>(_, m). Inr (st\<lparr>ms_mpu := (ms_mpu st)(c := m)\<rparr>))))"

definition mem_update ::
    "'m mps_params \<Rightarrow> nat \<Rightarrow> as_ref \<Rightarrow> mp_region \<Rightarrow> bool \<Rightarrow> bool \<Rightarrow> ('m, 'a) mps_st \<Rightarrow> (bool \<times> ('m, 'a) mps_st) outcome" where
  "mem_update K c r mpr broadcast locked st =
     (case vmpu_find (\<lambda>e. mr_base (mp_region e) = mr_base mpr \<and> mr_size (mp_region e) \<noteq> mr_size mpr)
             (as_node (ms_spaces st r)) (as_list (ms_spaces st r)) of
        None \<Rightarrow> Inr (False, st)
      | Some i \<Rightarrow> mem_vmpu_update_region K c r (mp_mpid (as_node (ms_spaces st r) i)) mpr broadcast locked st)"

definition mem_handle_broadcast_update ::
    "'m mps_params \<Rightarrow> nat \<Rightarrow> as_ref \<Rightarrow> mp_region \<Rightarrow> bool \<Rightarrow> ('m, 'a) mps_st \<Rightarrow> ('m, 'a) mps_st outcome" where
  "mem_handle_broadcast_update K c r mpr locked st =
     (if as_type (ms_spaces st r) = AS_HYP then
        obind (mem_update K c (CPU_AS c) mpr False locked st) (\<lambda>(_, st). Inr st)
      else
        (let (_, m) = mpu_update (mk_ops K) (as_id (ms_spaces st r)) mpr (ms_mpu st c)
         in Inr (st\<lparr>ms_mpu := (ms_mpu st)(c := m)\<rparr>)))"

definition mem_handle_broadcast_region ::
    "'m mps_params \<Rightarrow> nat \<Rightarrow> u32 \<Rightarrow> u64 \<Rightarrow> ('m, 'a) mps_st \<Rightarrow> ('m, 'a) mps_st outcome" where
  "mem_handle_broadcast_region K c event data st =
     (if data = 0 then Inr st
      else
        (let sh = ms_nodes st data
         in obind (if shr_type sh = AS_HYP then Inr (CPU_AS c)
                   else (case hv_vcpu st c of
                           None \<Rightarrow> Inl NULL_DEREF
                         | Some (v, i) \<Rightarrow>
                             if as_id (ms_spaces st (VM_AS v)) \<noteq> shr_asid sh
                             then Inl (ERROR ''Received shared region for unknown vm address space.'')
                             else Inr (VM_AS v))) (\<lambda>r.
            obind (if event = MEM_INSERT_REGION then mem_handle_broadcast_insert K c r (shr_region sh) (shr_lock sh) st
                   else if event = MEM_REMOVE_REGION then mem_handle_broadcast_remove K c r (shr_region sh) st
                   else if event = MEM_UPDATE_REGION then mem_handle_broadcast_update K c r (shr_region sh) (shr_lock sh) st
                   else Inl (ERROR ''unknown mem broadcast msg'')) (\<lambda>st.
            Inr (st\<lparr>ms_pool := objpool_free (ms_pool st) data\<rparr>)))))"

definition mem_msg_handler :: "'m mps_params \<Rightarrow> nat \<Rightarrow> (('m, 'a) mps_st) msg_handler" where
  "mem_msg_handler K c event data st = mem_handle_broadcast_region K c event data st"

end
