(* ===== verification/Vmpu_Entries.thy ===== *)
theory Vmpu_Entries
  imports Vmpu
begin

text \<open>
  The table of an address space as a set of disjoint regions: the invariant, and what setting,
  freeing and merging entries does to the regions and to the attributes of each address.
\<close>

section \<open>The invariant\<close>

definition vmpu_valid :: "addr_space \<Rightarrow> nat set" where
  "vmpu_valid as = {i. i < VMPU_NUM_ENTRIES \<and> mp_state (as_node as i) = MPE_S_VALID}"

definition vmpu_free :: "addr_space \<Rightarrow> nat set" where
  "vmpu_free as = {i. i < VMPU_NUM_ENTRIES \<and> mp_state (as_node as i) = MPE_S_FREE}"

abbreviation vmpu_region :: "addr_space \<Rightarrow> nat \<Rightarrow> mp_region" where
  "vmpu_region as i \<equiv> mp_region (as_node as i)"

definition rgn_addrs :: "mp_region \<Rightarrow> nat set" where
  "rgn_addrs reg = addrs (mr_base reg) (mr_size reg)"

definition rgn_ok :: "mp_region \<Rightarrow> bool" where
  "rgn_ok reg \<longleftrightarrow> fits (mr_base reg) (mr_size reg) \<and> 0 < mr_size reg"

definition vmpu_ok :: "addr_space \<Rightarrow> bool" where
  "vmpu_ok as \<longleftrightarrow> set (as_list as) = vmpu_valid as \<and> distinct (as_list as) \<and>
     sorted_wrt (\<lambda>i j. mr_base (vmpu_region as i) < mr_base (vmpu_region as j)) (as_list as) \<and>
     (\<forall>i \<in> vmpu_valid as. rgn_ok (vmpu_region as i) \<and> mp_mpid (as_node as i) = i) \<and>
     (\<forall>i \<in> vmpu_valid as. \<forall>j \<in> vmpu_valid as. i \<noteq> j \<longrightarrow> rgn_addrs (vmpu_region as i) \<inter> rgn_addrs (vmpu_region as j) = {})"

text \<open>What is mapped at an address: the attributes of the region that contains it.\<close>

definition vmpu_attrs :: "addr_space \<Rightarrow> nat \<Rightarrow> mem_flags set" where
  "vmpu_attrs as a = {mr_flags (vmpu_region as i) | i. i \<in> vmpu_valid as \<and> a \<in> rgn_addrs (vmpu_region as i)}"

text \<open>The regions as the physical MPU should have them.\<close>

definition rgn_key :: "mp_region \<Rightarrow> u64 \<times> u64 \<times> mem_flags" where
  "rgn_key reg = (mr_base reg, mr_size reg, mr_flags reg)"

definition vmpu_regions :: "addr_space \<Rightarrow> (u64 \<times> u64 \<times> mem_flags) set" where
  "vmpu_regions as = (\<lambda>i. rgn_key (vmpu_region as i)) ` vmpu_valid as"

lemma rgn_base_in: "rgn_ok reg \<Longrightarrow> unat (mr_base reg) \<in> rgn_addrs reg"
  by (simp add: rgn_ok_def rgn_addrs_def addrs_def word_less_nat_alt)

lemma vmpu_apart:
  "vmpu_ok as \<Longrightarrow> i \<in> vmpu_valid as \<Longrightarrow> j \<in> vmpu_valid as \<Longrightarrow> i \<noteq> j \<Longrightarrow>
     rgn_addrs (vmpu_region as i) \<inter> rgn_addrs (vmpu_region as j) = {}"
  by (simp add: vmpu_ok_def)

lemma vmpu_base_inj:
  assumes "vmpu_ok as" and "i \<in> vmpu_valid as" and "j \<in> vmpu_valid as"
    and "mr_base (vmpu_region as i) = mr_base (vmpu_region as j)"
  shows "i = j"
proof (rule ccontr)
  assume "i \<noteq> j"
  then have "rgn_addrs (vmpu_region as i) \<inter> rgn_addrs (vmpu_region as j) = {}" using assms(1-3) by (auto simp: vmpu_ok_def)
  moreover have "rgn_ok (vmpu_region as i)" "rgn_ok (vmpu_region as j)" using assms(1-3) by (auto simp: vmpu_ok_def)
  ultimately show False using rgn_base_in assms(4) by (metis disjoint_iff)
qed

lemma vmpu_key_inj: "vmpu_ok as \<Longrightarrow> inj_on (\<lambda>i. rgn_key (vmpu_region as i)) (vmpu_valid as)"
  by (rule inj_onI) (simp add: rgn_key_def vmpu_base_inj)

lemma vmpu_regions_minus:
  assumes "vmpu_ok as" and "i \<in> vmpu_valid as"
  shows "vmpu_regions as - {rgn_key (vmpu_region as i)} = (\<lambda>j. rgn_key (vmpu_region as j)) ` (vmpu_valid as - {i})"
proof -
  have "(\<lambda>j. rgn_key (vmpu_region as j)) ` (vmpu_valid as - {i}) =
      (\<lambda>j. rgn_key (vmpu_region as j)) ` vmpu_valid as - (\<lambda>j. rgn_key (vmpu_region as j)) ` {i}"
    using assms(2) by (intro inj_on_image_set_diff [OF vmpu_key_inj [OF assms(1)]]) auto
  then show ?thesis by (simp add: vmpu_regions_def)
qed

lemma vmpu_find_some: "vmpu_find P nodes is' = Some i \<Longrightarrow> i \<in> set is' \<and> P (nodes i)"
  by (induction is') (auto split: if_splits)

lemma vmpu_find_none: "vmpu_find P nodes is' = None \<longleftrightarrow> (\<forall>i \<in> set is'. \<not> P (nodes i))"
  by (induction is') auto

lemma vmpu_find_unique:
  assumes "i \<in> set is'" and "P (nodes i)" and "\<And>j. j \<in> set is' \<Longrightarrow> P (nodes j) \<Longrightarrow> j = i"
  shows "vmpu_find P nodes is' = Some i"
proof (cases "vmpu_find P nodes is'")
  case None
  with assms(1,2) show ?thesis by (simp add: vmpu_find_none)
next
  case (Some j)
  with vmpu_find_some [OF Some] assms(3) show ?thesis by simp
qed

section \<open>Changes of entries\<close>

text \<open>An entry that is not valid before and after a change does not matter.\<close>

lemma vmpu_invalid_update:
  assumes "mp_state (as_node as i) \<noteq> MPE_S_VALID" and "mp_state (f (as_node as i)) \<noteq> MPE_S_VALID"
  shows "vmpu_valid (mpe_update i f as) = vmpu_valid as" and "vmpu_ok (mpe_update i f as) = vmpu_ok as"
    and "vmpu_attrs (mpe_update i f as) = vmpu_attrs as" and "vmpu_regions (mpe_update i f as) = vmpu_regions as"
proof -
  show v: "vmpu_valid (mpe_update i f as) = vmpu_valid as"
    using assms by (auto simp: vmpu_valid_def mpe_update_def)
  have n: "as_node (mpe_update i f as) j = as_node as j" if "j \<in> vmpu_valid as" for j
    using that assms(1) by (auto simp: vmpu_valid_def mpe_update_def)
  have l: "as_list (mpe_update i f as) = as_list as" by (simp add: mpe_update_def)
  have s: "sorted_wrt (\<lambda>i' j'. mr_base (vmpu_region (mpe_update i f as) i') < mr_base (vmpu_region (mpe_update i f as) j')) (as_list as) =
      sorted_wrt (\<lambda>i' j'. mr_base (vmpu_region as i') < mr_base (vmpu_region as j')) (as_list as)"
    if "set (as_list as) = vmpu_valid as"
    using that n by (intro iffI; elim sorted_wrt_mono_rel [rotated]) simp_all
  show "vmpu_ok (mpe_update i f as) = vmpu_ok as"
    unfolding vmpu_ok_def v l using s n by (simp cong: conj_cong ball_cong)
  show "vmpu_attrs (mpe_update i f as) = vmpu_attrs as"
    unfolding vmpu_attrs_def v fun_eq_iff using n by (auto; metis)
  show "vmpu_regions (mpe_update i f as) = vmpu_regions as"
    unfolding vmpu_regions_def v using n by (intro image_cong) simp_all
qed

lemma vmpu_allocate:
  assumes "mem_vmpu_allocate_entry as = Inr (i, as')"
  shows "i < VMPU_NUM_ENTRIES" and "i \<notin> vmpu_valid as'" and "vmpu_ok as' = vmpu_ok as"
    and "vmpu_attrs as' = vmpu_attrs as" and "vmpu_regions as' = vmpu_regions as" and "vmpu_valid as' = vmpu_valid as"
    and "as_id as' = as_id as" and "as_type as' = as_type as" and "as_list as' = as_list as" and "as_lock as' = as_lock as"
    and "\<And>j. j \<in> vmpu_valid as \<Longrightarrow> as_node as' j = as_node as j"
    and "i \<in> vmpu_free as" and "vmpu_free as' = vmpu_free as - {i}"
proof -
  have i: "vmpu_find (\<lambda>e. mp_state e = MPE_S_FREE) (as_node as) [0..<VMPU_NUM_ENTRIES] = Some i"
    and as': "as' = mpe_update i (\<lambda>e. e\<lparr>mp_state := MPE_S_INVALID\<rparr>) as"
    using assms by (auto simp: mem_vmpu_allocate_entry_def split: option.splits)
  have f: "i < VMPU_NUM_ENTRIES" "mp_state (as_node as i) = MPE_S_FREE" using vmpu_find_some [OF i] by auto
  show "i < VMPU_NUM_ENTRIES" by (rule f(1))
  show "i \<notin> vmpu_valid as'" by (simp add: as' vmpu_valid_def mpe_update_def)
  show "vmpu_ok as' = vmpu_ok as" "vmpu_attrs as' = vmpu_attrs as" "vmpu_regions as' = vmpu_regions as"
    "vmpu_valid as' = vmpu_valid as"
    unfolding as' using f(2) by (simp_all add: vmpu_invalid_update)
  show "as_id as' = as_id as" "as_type as' = as_type as" "as_list as' = as_list as" "as_lock as' = as_lock as"
    by (simp_all add: as' mpe_update_def)
  show "as_node as' j = as_node as j" if "j \<in> vmpu_valid as" for j
    using that f(2) by (auto simp: as' mpe_update_def vmpu_valid_def)
  show "i \<in> vmpu_free as" using f by (simp add: vmpu_free_def)
  show "vmpu_free as' = vmpu_free as - {i}" by (auto simp: as' mpe_update_def vmpu_free_def)
qed

lemma vmpu_allocate_room:
  assumes "vmpu_free as \<noteq> {}"
  shows "\<exists>i as'. mem_vmpu_allocate_entry as = Inr (i, as')"
proof -
  have "vmpu_find (\<lambda>e. mp_state e = MPE_S_FREE) (as_node as) [0..<VMPU_NUM_ENTRIES] \<noteq> None"
    using assms by (auto simp: vmpu_find_none vmpu_free_def)
  then show ?thesis by (auto simp: mem_vmpu_allocate_entry_def)
qed

lemma vmpu_list_insert_set: "set (vmpu_list_insert nodes i is') = insert i (set is')"
  by (induction is') auto

lemma vmpu_list_insert_distinct: "distinct is' \<Longrightarrow> i \<notin> set is' \<Longrightarrow> distinct (vmpu_list_insert nodes i is')"
  by (induction is') (auto simp: vmpu_list_insert_set)

lemma vmpu_list_insert_sorted:
  assumes "sorted_wrt (\<lambda>i j. mr_base (mp_region (nodes i)) < mr_base (mp_region (nodes j))) is'"
    and "\<And>j. j \<in> set is' \<Longrightarrow> mr_base (mp_region (nodes j)) \<noteq> mr_base (mp_region (nodes i))"
  shows "sorted_wrt (\<lambda>i j. mr_base (mp_region (nodes i)) < mr_base (mp_region (nodes j))) (vmpu_list_insert nodes i is')"
  using assms
proof (induction is')
  case (Cons j js)
  show ?case
  proof (cases "vmpu_node_cmp (nodes j) (nodes i) > 0")
    case True
    then have "mr_base (mp_region (nodes i)) < mr_base (mp_region (nodes j))"
      by (simp add: vmpu_node_cmp_def split: if_splits)
    with Cons.prems(1) True show ?thesis by (auto intro: less_trans)
  next
    case False
    then have "mr_base (mp_region (nodes j)) < mr_base (mp_region (nodes i))"
      using Cons.prems(2) [of j] by (auto simp: vmpu_node_cmp_def split: if_splits)
    with Cons False show ?thesis by (auto simp: vmpu_list_insert_set)
  qed
qed simp

lemma vmpu_set_entry:
  fixes l :: bool
  assumes ok: "vmpu_ok as" and i: "i < VMPU_NUM_ENTRIES" "i \<notin> vmpu_valid as" and reg: "rgn_ok reg"
    and apart: "\<forall>j \<in> vmpu_valid as. rgn_addrs reg \<inter> rgn_addrs (vmpu_region as j) = {}"
  defines "as' \<equiv> mem_vmpu_set_entry i reg l as"
  shows "vmpu_ok as'" and "vmpu_regions as' = insert (rgn_key reg) (vmpu_regions as)"
    and "vmpu_attrs as' = (\<lambda>a. if a \<in> rgn_addrs reg then {mr_flags reg} else vmpu_attrs as a)"
    and "vmpu_valid as' = insert i (vmpu_valid as)" and "vmpu_free as' = vmpu_free as - {i}"
    and "as_id as' = as_id as" and "as_type as' = as_type as" and "as_lock as' = as_lock as"
proof -
  have node: "as_node as' j = (if j = i then (as_node as i)\<lparr>mp_region := reg, mp_state := MPE_S_VALID, mp_mpid := i, mp_lock := l\<rparr>
      else as_node as j)" for j
    by (simp add: as'_def mem_vmpu_set_entry_def mpe_update_def Let_def)
  show valid: "vmpu_valid as' = insert i (vmpu_valid as)"
    using i(1) node by (auto simp: vmpu_valid_def)
  show "vmpu_free as' = vmpu_free as - {i}"
    using node by (auto simp: vmpu_free_def)
  have lst: "as_list as' = vmpu_list_insert (as_node as') i (as_list as)"
    by (simp add: as'_def mem_vmpu_set_entry_def Let_def mpe_update_def)
  have old: "as_node as' j = as_node as j" if "j \<in> vmpu_valid as" for j using that i(2) node by auto
  have new: "vmpu_region as' i = reg" using node by simp
  have ls: "set (as_list as) = vmpu_valid as" "distinct (as_list as)" using ok by (simp_all add: vmpu_ok_def)
  have base: "mr_base (vmpu_region as' j) \<noteq> mr_base (vmpu_region as' i)" if "j \<in> set (as_list as)" for j
  proof
    assume eq: "mr_base (vmpu_region as' j) = mr_base (vmpu_region as' i)"
    have j: "j \<in> vmpu_valid as" using that ls by simp
    then have "rgn_ok (vmpu_region as j)" using ok by (simp add: vmpu_ok_def)
    then have "unat (mr_base (vmpu_region as j)) \<in> rgn_addrs (vmpu_region as j)" by (rule rgn_base_in)
    moreover have "unat (mr_base reg) \<in> rgn_addrs reg" by (rule rgn_base_in [OF reg])
    ultimately show False using apart j eq old [OF j] new by auto
  qed
  have "sorted_wrt (\<lambda>i j. mr_base (vmpu_region as i) < mr_base (vmpu_region as j)) (as_list as)"
    using ok by (simp add: vmpu_ok_def)
  then have "sorted_wrt (\<lambda>i j. mr_base (vmpu_region as' i) < mr_base (vmpu_region as' j)) (as_list as)"
    using ls(1) old by (elim sorted_wrt_mono_rel [rotated]) simp
  then have "sorted_wrt (\<lambda>i j. mr_base (vmpu_region as' i) < mr_base (vmpu_region as' j)) (as_list as')"
    unfolding lst by (intro vmpu_list_insert_sorted base)
  moreover have "set (as_list as') = vmpu_valid as'" "distinct (as_list as')"
    unfolding lst valid using ls i(2) by (simp_all add: vmpu_list_insert_set vmpu_list_insert_distinct)
  moreover have "rgn_ok (vmpu_region as' j) \<and> mp_mpid (as_node as' j) = j" if "j \<in> vmpu_valid as'" for j
    using that reg ok unfolding valid node by (auto simp: vmpu_ok_def)
  moreover have "rgn_addrs (vmpu_region as' j) \<inter> rgn_addrs (vmpu_region as' k) = {}"
    if jk: "j \<in> vmpu_valid as'" "k \<in> vmpu_valid as'" "j \<noteq> k" for j k
  proof -
    consider "j = i" "k \<in> vmpu_valid as" | "k = i" "j \<in> vmpu_valid as" | "j \<in> vmpu_valid as" "k \<in> vmpu_valid as"
      using jk unfolding valid by auto
    then show ?thesis
    proof cases
      case 1
      with apart new old show ?thesis by simp
    next
      case 2
      with apart new old show ?thesis by (simp add: Int_commute)
    next
      case 3
      with ok old jk(3) show ?thesis unfolding vmpu_ok_def by simp
    qed
  qed
  ultimately show "vmpu_ok as'" by (simp add: vmpu_ok_def)
  show "vmpu_regions as' = insert (rgn_key reg) (vmpu_regions as)"
    unfolding vmpu_regions_def valid using new old by auto
  show "vmpu_attrs as' = (\<lambda>a. if a \<in> rgn_addrs reg then {mr_flags reg} else vmpu_attrs as a)"
  proof
    fix a
    show "vmpu_attrs as' a = (if a \<in> rgn_addrs reg then {mr_flags reg} else vmpu_attrs as a)"
    proof (cases "a \<in> rgn_addrs reg")
      case True
      then have "a \<notin> rgn_addrs (vmpu_region as j)" if "j \<in> vmpu_valid as" for j using that apart by auto
      with True show ?thesis using new old unfolding vmpu_attrs_def valid by auto
    next
      case False
      then show ?thesis using new old unfolding vmpu_attrs_def valid by (auto; metis)
    qed
  qed
  show "as_id as' = as_id as" "as_type as' = as_type as" "as_lock as' = as_lock as"
    by (simp_all add: as'_def mem_vmpu_set_entry_def mpe_update_def Let_def)
qed

lemma sorted_wrt_remove1: "sorted_wrt P xs \<Longrightarrow> sorted_wrt P (remove1 x xs)"
  by (induction xs) (auto dest: set_remove1_subset [THEN subsetD])

lemma vmpu_free_entry:
  assumes ok: "vmpu_ok as" and i: "i \<in> vmpu_valid as"
  defines "as' \<equiv> mem_vmpu_free_entry i as"
  shows "vmpu_ok as'" and "vmpu_regions as' = vmpu_regions as - {rgn_key (vmpu_region as i)}"
    and "vmpu_attrs as' = (\<lambda>a. if a \<in> rgn_addrs (vmpu_region as i) then {} else vmpu_attrs as a)"
    and "vmpu_valid as' = vmpu_valid as - {i}" and "vmpu_free as' = insert i (vmpu_free as)"
    and "as_id as' = as_id as" and "as_type as' = as_type as" and "as_lock as' = as_lock as"
    and "\<And>j. j \<noteq> i \<Longrightarrow> as_node as' j = as_node as j"
proof -
  have lst: "as_list as' = remove1 i (as_list as)"
    by (simp add: as'_def mem_vmpu_free_entry_def mem_vmpu_clear_entry_def Let_def mpe_update_def)
  show old: "as_node as' j = as_node as j" if "j \<noteq> i" for j
    using that by (simp add: as'_def mem_vmpu_free_entry_def mem_vmpu_clear_entry_def Let_def mpe_update_def)
  have st: "mp_state (as_node as' i) = MPE_S_FREE"
    by (simp add: as'_def mem_vmpu_free_entry_def mem_vmpu_clear_entry_def Let_def mpe_update_def)
  show valid: "vmpu_valid as' = vmpu_valid as - {i}"
  proof -
    have "j \<in> vmpu_valid as' \<longleftrightarrow> j \<in> vmpu_valid as - {i}" for j
      using old st by (cases "j = i") (simp_all add: vmpu_valid_def)
    then show ?thesis by blast
  qed
  show "vmpu_free as' = insert i (vmpu_free as)"
  proof -
    have "j \<in> vmpu_free as' \<longleftrightarrow> j \<in> insert i (vmpu_free as)" for j
      using old st i by (cases "j = i") (simp_all add: vmpu_valid_def vmpu_free_def)
    then show ?thesis by blast
  qed
  have ls: "set (as_list as) = vmpu_valid as" "distinct (as_list as)" using ok by (simp_all add: vmpu_ok_def)
  have "sorted_wrt (\<lambda>i j. mr_base (vmpu_region as i) < mr_base (vmpu_region as j)) (as_list as')"
    unfolding lst using ok by (auto simp: vmpu_ok_def intro: sorted_wrt_remove1)
  then have "sorted_wrt (\<lambda>i j. mr_base (vmpu_region as' i) < mr_base (vmpu_region as' j)) (as_list as')"
    using ls old by (elim sorted_wrt_mono_rel [rotated]) (simp add: lst)
  moreover have "set (as_list as') = vmpu_valid as'" "distinct (as_list as')"
    unfolding lst valid using ls by (simp_all)
  moreover have "rgn_ok (vmpu_region as' j) \<and> mp_mpid (as_node as' j) = j" if "j \<in> vmpu_valid as'" for j
    using that ok old unfolding valid by (simp add: vmpu_ok_def)
  moreover have "rgn_addrs (vmpu_region as' j) \<inter> rgn_addrs (vmpu_region as' k) = {}"
    if "j \<in> vmpu_valid as'" "k \<in> vmpu_valid as'" "j \<noteq> k" for j k
    using that ok old unfolding valid vmpu_ok_def by simp
  ultimately show "vmpu_ok as'" by (simp add: vmpu_ok_def)
  show "vmpu_regions as' = vmpu_regions as - {rgn_key (vmpu_region as i)}"
  proof -
    have "vmpu_regions as - {rgn_key (vmpu_region as i)} = (\<lambda>j. rgn_key (vmpu_region as j)) ` (vmpu_valid as - {i})"
      by (rule vmpu_regions_minus [OF ok i])
    moreover have "vmpu_regions as' = (\<lambda>j. rgn_key (vmpu_region as j)) ` (vmpu_valid as - {i})"
      unfolding vmpu_regions_def valid using old by (intro image_cong) simp_all
    ultimately show ?thesis by simp
  qed
  show "vmpu_attrs as' = (\<lambda>a. if a \<in> rgn_addrs (vmpu_region as i) then {} else vmpu_attrs as a)"
  proof
    fix a
    show "vmpu_attrs as' a = (if a \<in> rgn_addrs (vmpu_region as i) then {} else vmpu_attrs as a)"
    proof (cases "a \<in> rgn_addrs (vmpu_region as i)")
      case True
      then have "a \<notin> rgn_addrs (vmpu_region as j)" if "j \<in> vmpu_valid as" "j \<noteq> i" for j
        using that ok i unfolding vmpu_ok_def by blast
      with True show ?thesis using old unfolding vmpu_attrs_def valid by auto
    next
      case False
      then show ?thesis using old unfolding vmpu_attrs_def valid by (auto; metis)
    qed
  qed
  show "as_id as' = as_id as" "as_type as' = as_type as" "as_lock as' = as_lock as"
    by (simp_all add: as'_def mem_vmpu_free_entry_def mem_vmpu_clear_entry_def mpe_update_def Let_def)
qed

text \<open>A valid entry that grows into addresses no other entry has.\<close>

lemma vmpu_grow_entry:
  assumes ok: "vmpu_ok as" and i: "i \<in> vmpu_valid as" and reg: "rgn_ok reg" "mr_base reg = mr_base (vmpu_region as i)"
    and sub: "rgn_addrs (vmpu_region as i) \<subseteq> rgn_addrs reg"
    and apart: "\<forall>j \<in> vmpu_valid as. j \<noteq> i \<longrightarrow> rgn_addrs reg \<inter> rgn_addrs (vmpu_region as j) = {}"
  defines "as' \<equiv> mpe_update i (\<lambda>e. e\<lparr>mp_region := reg\<rparr>) as"
  shows "vmpu_ok as'" and "vmpu_regions as' = insert (rgn_key reg) (vmpu_regions as - {rgn_key (vmpu_region as i)})"
    and "vmpu_attrs as' = (\<lambda>a. if a \<in> rgn_addrs reg then {mr_flags reg} else vmpu_attrs as a)"
    and "vmpu_valid as' = vmpu_valid as" and "vmpu_free as' = vmpu_free as"
    and "as_id as' = as_id as" and "as_type as' = as_type as" and "as_lock as' = as_lock as"
proof -
  have lst: "as_list as' = as_list as" by (simp add: as'_def mpe_update_def)
  have old: "as_node as' j = as_node as j" if "j \<noteq> i" for j using that by (simp add: as'_def mpe_update_def)
  have new: "vmpu_region as' i = reg" "mp_state (as_node as' i) = mp_state (as_node as i)" "mp_mpid (as_node as' i) = mp_mpid (as_node as i)"
    by (simp_all add: as'_def mpe_update_def)
  have st: "mp_state (as_node as' j) = mp_state (as_node as j)" for j using old new by (cases "j = i") auto
  have base: "mr_base (vmpu_region as' j) = mr_base (vmpu_region as j)" for j using old new reg(2) by (cases "j = i") auto
  have mpid: "mp_mpid (as_node as' j) = mp_mpid (as_node as j)" for j using old new by (cases "j = i") auto
  show valid: "vmpu_valid as' = vmpu_valid as" using st by (simp add: vmpu_valid_def)
  show "vmpu_free as' = vmpu_free as" using st by (simp add: vmpu_free_def)
  have "rgn_addrs (vmpu_region as' j) \<inter> rgn_addrs (vmpu_region as' k) = {}"
    if "j \<in> vmpu_valid as" "k \<in> vmpu_valid as" "j \<noteq> k" for j k
  proof -
    consider "j = i" "k \<noteq> i" | "k = i" "j \<noteq> i" | "j \<noteq> i" "k \<noteq> i" using \<open>j \<noteq> k\<close> by blast
    then show ?thesis
    proof cases
      case 1
      with apart new old that show ?thesis by simp
    next
      case 2
      with apart new old that show ?thesis by (simp add: Int_commute)
    next
      case 3
      with ok old that show ?thesis unfolding vmpu_ok_def by simp
    qed
  qed
  moreover have "rgn_ok (vmpu_region as' j)" if "j \<in> vmpu_valid as" for j
    using that reg(1) new(1) old ok by (cases "j = i") (simp_all add: vmpu_ok_def)
  ultimately show "vmpu_ok as'" using ok by (simp add: vmpu_ok_def valid lst base mpid)
  have "vmpu_regions as - {rgn_key (vmpu_region as i)} = (\<lambda>j. rgn_key (vmpu_region as j)) ` (vmpu_valid as - {i})"
    by (rule vmpu_regions_minus [OF ok i])
  moreover have "vmpu_regions as' = insert (rgn_key reg) ((\<lambda>j. rgn_key (vmpu_region as j)) ` (vmpu_valid as - {i}))"
  proof -
    have "vmpu_regions as' = insert (rgn_key (vmpu_region as' i)) ((\<lambda>j. rgn_key (vmpu_region as' j)) ` (vmpu_valid as - {i}))"
      unfolding vmpu_regions_def valid using i by auto
    then show ?thesis using new(1) old by simp
  qed
  ultimately show "vmpu_regions as' = insert (rgn_key reg) (vmpu_regions as - {rgn_key (vmpu_region as i)})" by simp
  show "vmpu_attrs as' = (\<lambda>a. if a \<in> rgn_addrs reg then {mr_flags reg} else vmpu_attrs as a)"
  proof
    fix a
    show "vmpu_attrs as' a = (if a \<in> rgn_addrs reg then {mr_flags reg} else vmpu_attrs as a)"
    proof (cases "a \<in> rgn_addrs reg")
      case True
      then have "a \<notin> rgn_addrs (vmpu_region as' j)" if "j \<in> vmpu_valid as" "j \<noteq> i" for j
        using that apart old by auto
      then have "a \<in> rgn_addrs (vmpu_region as' j) \<longleftrightarrow> j = i" if "j \<in> vmpu_valid as" for j
        using that True new(1) by (cases "j = i") auto
      then have "vmpu_attrs as' a = {mr_flags (vmpu_region as' i)}" unfolding vmpu_attrs_def valid using i by auto
      with True new(1) show ?thesis by simp
    next
      case False
      then have "a \<in> rgn_addrs (vmpu_region as' j) \<longleftrightarrow> a \<in> rgn_addrs (vmpu_region as j) \<and> j \<noteq> i" for j
        using new(1) old sub by (cases "j = i") auto
      moreover have "a \<notin> rgn_addrs (vmpu_region as i)" using False sub by auto
      ultimately have "vmpu_attrs as' a = vmpu_attrs as a" unfolding vmpu_attrs_def valid using old by (auto; metis)
      with False show ?thesis by simp
    qed
  qed
  show "as_id as' = as_id as" "as_type as' = as_type as" "as_lock as' = as_lock as"
    by (simp_all add: as'_def mpe_update_def)
qed

lemma vmpu_free_update_commute:
  "i \<noteq> j \<Longrightarrow> mem_vmpu_free_entry j (mpe_update i f as) = mpe_update i f (mem_vmpu_free_entry j as)"
  by (simp add: mem_vmpu_free_entry_def mem_vmpu_clear_entry_def mpe_update_def Let_def fun_upd_twist)

end
