(* ===== verification/Vmpu_Contract.thy ===== *)
theory Vmpu_Contract
  imports Vmpu_Entries
begin

text \<open>
  What the virtual MPU needs of the physical one, the locale \<open>mpu_contract\<close>, and what it then
  guarantees: mapping and unmapping keep the table well formed and the physical MPU of the processor
  equal to it, change the attributes of exactly the addresses asked for, leave the other address
  spaces alone, and return.
\<close>

section \<open>The vocabulary of the contract\<close>

text \<open>A call that returns a value in \<open>Q\<close>, or stops for a reason that telling other processors has.\<close>

definition yields :: "bool \<Rightarrow> 'x outcome \<Rightarrow> ('x \<Rightarrow> bool) \<Rightarrow> bool" where
  "yields broadcast res Q = (case res of Inl e \<Rightarrow> broadcast \<and> e \<noteq> NO_RETURN | Inr x \<Rightarrow> Q x)"

lemma yields_Inr [simp]: "yields b (Inr x) Q = Q x"
  by (simp add: yields_def)

lemma yields_mono: "yields b res P \<Longrightarrow> (\<And>x. P x \<Longrightarrow> Q x) \<Longrightarrow> yields b res Q"
  by (auto simp: yields_def split: sum.splits)

lemma yields_obind: "yields b res P \<Longrightarrow> (\<And>x. P x \<Longrightarrow> yields b (f x) Q) \<Longrightarrow> yields b (obind res f) Q"
  by (cases res) (simp_all add: yields_def)

text \<open>The address spaces a processor can program: its own and that of the machine it runs.\<close>

definition mpu_known :: "u64 \<Rightarrow> u64 option \<Rightarrow> u64 \<Rightarrow> bool" where
  "mpu_known h_id g_id i \<longleftrightarrow> i = h_id \<or> g_id = Some i"

definition hw_region :: "u64 \<Rightarrow> (mem_flags \<Rightarrow> bool) \<Rightarrow> mp_region \<Rightarrow> bool" where
  "hw_region g flags_ok reg \<longleftrightarrow>
     rgn_ok reg \<and> unat g dvd unat (mr_base reg) \<and> unat g dvd unat (mr_size reg) \<and> flags_ok (mr_flags reg)"

type_synonym mpu_view = "u64 \<Rightarrow> (u64 \<times> u64 \<times> mem_flags) set"

definition mpu_good ::
    "'m mps_params \<Rightarrow> (u64 \<Rightarrow> u64 option \<Rightarrow> 'm \<Rightarrow> bool) \<Rightarrow> ('m \<Rightarrow> mpu_view) \<Rightarrow> (AS_TYPE \<Rightarrow> mem_flags \<Rightarrow> mem_flags) \<Rightarrow> (mem_flags \<Rightarrow> bool) \<Rightarrow>
     nat \<Rightarrow> as_ref \<Rightarrow> ('m, 'a) mps_st \<Rightarrow> bool" where
  "mpu_good K invar prog adjust flags_ok c r st \<longleftrightarrow>
     vmpu_ok (ms_spaces st r) \<and>
     (\<forall>i \<in> vmpu_valid (ms_spaces st r). hw_region (mpu_granularity (mk_ops K)) flags_ok (vmpu_region (ms_spaces st r) i) \<and>
       adjust (as_type (ms_spaces st r)) (mr_flags (vmpu_region (ms_spaces st r) i)) = mr_flags (vmpu_region (ms_spaces st r) i)) \<and>
     invar (fst (mpu_ids c st)) (snd (mpu_ids c st)) (ms_mpu st c) \<and> prog (ms_mpu st c) (as_id (ms_spaces st r)) = vmpu_regions (ms_spaces st r) \<and>
     mpu_known (fst (mpu_ids c st)) (snd (mpu_ids c st)) (as_id (ms_spaces st r))"

text \<open>Only the address space, and only what this processor's MPU has for it, differs.\<close>

definition only_space :: "('m \<Rightarrow> mpu_view) \<Rightarrow> nat \<Rightarrow> as_ref \<Rightarrow> ('m, 'a) mps_st \<Rightarrow> ('m, 'a) mps_st \<Rightarrow> bool" where
  "only_space prog c r st st' \<longleftrightarrow>
     (\<forall>r'. r' \<noteq> r \<longrightarrow> ms_spaces st' r' = ms_spaces st r') \<and>
     as_id (ms_spaces st' r) = as_id (ms_spaces st r) \<and> as_type (ms_spaces st' r) = as_type (ms_spaces st r) \<and>
     (\<forall>c'. c' \<noteq> c \<longrightarrow> ms_mpu st' c' = ms_mpu st c') \<and>
     (\<forall>i. i \<noteq> as_id (ms_spaces st r) \<longrightarrow> prog (ms_mpu st' c) i = prog (ms_mpu st c) i) \<and>
     hv_vcpu st' = hv_vcpu st"

lemma only_space_refl: "only_space prog c r st st"
  by (simp add: only_space_def)

lemma only_space_trans: "only_space prog c r st1 st2 \<Longrightarrow> only_space prog c r st2 st3 \<Longrightarrow> only_space prog c r st1 st3"
  by (simp add: only_space_def)

definition moves :: "nat \<Rightarrow> as_ref \<Rightarrow> ('m, 'a) mps_st \<Rightarrow> addr_space \<Rightarrow> 'm \<Rightarrow> ('m, 'a) mps_st \<Rightarrow> bool" where
  "moves c r st as m st' \<longleftrightarrow> ms_spaces st' = (ms_spaces st)(r := as) \<and> ms_mpu st' = (ms_mpu st)(c := m) \<and> hv_vcpu st' = hv_vcpu st"

lemma mpu_ids_same:
  assumes "ms_spaces st' = ms_spaces st" and "hv_vcpu st' = hv_vcpu st"
  shows "mpu_ids c st' = mpu_ids c st"
  unfolding mpu_ids_def assms ..

lemma moves_ids: "moves c r st as m st' \<Longrightarrow> as_id as = as_id (ms_spaces st r) \<Longrightarrow> mpu_ids c st' = mpu_ids c st"
  by (simp add: moves_def mpu_ids_def split: option.splits)

lemma moves_only:
  assumes "moves c r st as m st'" and "as_id as = as_id (ms_spaces st r)" and "as_type as = as_type (ms_spaces st r)"
    and "\<And>i. i \<noteq> as_id (ms_spaces st r) \<Longrightarrow> prog m i = prog (ms_mpu st c) i"
  shows "only_space prog c r st st'"
  using assms by (simp add: moves_def only_space_def)

lemma moves_trans: "moves c r st as1 m1 st1 \<Longrightarrow> moves c r st1 as2 m2 st2 \<Longrightarrow> moves c r st as2 m2 st2"
  by (simp add: moves_def)

section \<open>Telling others leaves the spaces alone\<close>

lemma mps_send_msg:
  "ms_spaces (cpu_send_msg t msg st) = ms_spaces (st :: ('m, 'a) mps_st)" "ms_mpu (cpu_send_msg t msg st) = ms_mpu st"
  "ms_pool (cpu_send_msg t msg st) = ms_pool st" "ms_nodes (cpu_send_msg t msg st) = ms_nodes st"
  "hv_vcpu (cpu_send_msg t msg st) = hv_vcpu st"
  by (simp_all add: cpu_send_msg_def interrupts_cpu_sendipi_def Let_def split: prod.splits)

lemma mem_broadcast_loop_yields:
  "yields True (mem_broadcast_loop K c s sh opn cs st)
     (\<lambda>st'. ms_spaces st' = ms_spaces st \<and> ms_mpu st' = ms_mpu st \<and> hv_vcpu st' = hv_vcpu st)"
proof (induction cs arbitrary: st)
  case (Cons d cs)
  show ?case
  proof (cases "c \<noteq> d \<and> bit_get s d \<noteq> 0")
    case True
    obtain x p where a: "objpool_alloc (ms_pool st) = (x, p)" by (metis surj_pair)
    show ?thesis
    proof (cases x)
      case None
      with True a show ?thesis by (simp add: yields_def)
    next
      case (Some node)
      let ?msg = "\<lparr>msg_handler = MEM_PROT_SYNC K, msg_event = opn, msg_data = node\<rparr>"
      let ?st = "cpu_send_msg d ?msg (st\<lparr>ms_pool := p, ms_nodes := (ms_nodes st)(node := sh)\<rparr>)"
      have "ms_spaces ?st = ms_spaces st \<and> ms_mpu ?st = ms_mpu st \<and> hv_vcpu ?st = hv_vcpu st"
        by (simp add: mps_send_msg)
      with Cons.IH [of ?st] True a Some show ?thesis by (simp add: Let_def)
    qed
  next
    case False
    then have "mem_broadcast_loop K c s sh opn (d # cs) st = mem_broadcast_loop K c s sh opn cs st"
      by (simp only: mem_broadcast_loop.simps if_False)
    with Cons.IH [of st] show ?thesis by simp
  qed
qed simp

lemma mem_region_broadcast_yields:
  "yields True (mem_region_broadcast K c r mpr opn l st)
     (\<lambda>st'. ms_spaces st' = ms_spaces st \<and> ms_mpu st' = ms_mpu st \<and> hv_vcpu st' = hv_vcpu st)"
proof -
  have "yields True (mem_section_shared_cpus (PLAT_CPU_NUM K) c (ms_spaces st r) (mr_sec mpr) st) (\<lambda>_. True)"
    by (simp add: mem_section_shared_cpus_def yields_def split: option.splits)
  then show ?thesis
    unfolding mem_region_broadcast_def by (rule yields_obind) (simp add: mem_broadcast_loop_yields)
qed

lemma tell_yields:
  "yields broadcast (tell K c r mpr opn broadcast l st)
     (\<lambda>st'. ms_spaces st' = ms_spaces st \<and> ms_mpu st' = ms_mpu st \<and> hv_vcpu st' = hv_vcpu st)"
proof (cases "mem_broadcast (ms_spaces st r) mpr broadcast")
  case True
  then have "broadcast" by (auto simp: mem_broadcast_def split: if_splits)
  with True mem_region_broadcast_yields [of K c r mpr opn l st] show ?thesis by (simp add: tell_def)
next
  case False
  then show ?thesis by (simp add: tell_def)
qed

lemma tell_moves:
  assumes "moves c r st as m st1"
  shows "yields broadcast (tell K c r mpr opn broadcast l st1) (moves c r st as m)"
  by (rule yields_mono [OF tell_yields]) (use assms in \<open>simp add: moves_def\<close>)

section \<open>The contract\<close>

locale mpu_contract =
  fixes K :: "'m mps_params"
    and invar :: "u64 \<Rightarrow> u64 option \<Rightarrow> 'm \<Rightarrow> bool"
    and prog :: "'m \<Rightarrow> mpu_view"
    and room :: "'m \<Rightarrow> nat"
    and adjust :: "AS_TYPE \<Rightarrow> mem_flags \<Rightarrow> mem_flags"
    and flags_ok :: "mem_flags \<Rightarrow> bool"
  assumes map_law: "invar h_id g_id m \<Longrightarrow> mpu_known h_id g_id i \<Longrightarrow> hw_region (mpu_granularity (mk_ops K)) flags_ok reg \<Longrightarrow>
      \<forall>(b, s, f) \<in> prog m i. b \<noteq> mr_base reg \<Longrightarrow> 0 < room m \<Longrightarrow>
      \<exists>m'. mpu_map (mk_ops K) h_id g_id i ty reg l m = Inr (True, reg\<lparr>mr_flags := adjust ty (mr_flags reg)\<rparr>, m') \<and>
        invar h_id g_id m' \<and> prog m' = (prog m)(i := insert (mr_base reg, mr_size reg, adjust ty (mr_flags reg)) (prog m i)) \<and>
        Suc (room m') = room m"
    and unmap_law: "invar h_id g_id m \<Longrightarrow> mpu_known h_id g_id i \<Longrightarrow> rgn_key reg \<in> prog m i \<Longrightarrow>
      \<exists>m'. mpu_unmap (mk_ops K) h_id g_id i reg m = Inr (True, m') \<and>
        invar h_id g_id m' \<and> prog m' = (prog m)(i := prog m i - {rgn_key reg}) \<and> room m' = Suc (room m)"
    and update_law: "invar h_id g_id m \<Longrightarrow> (mr_base reg, s, mr_flags reg) \<in> prog m i \<Longrightarrow>
      hw_region (mpu_granularity (mk_ops K)) flags_ok reg \<Longrightarrow>
      \<exists>m'. mpu_update (mk_ops K) i reg m = (True, m') \<and>
        invar h_id g_id m' \<and> prog m' = (prog m)(i := insert (rgn_key reg) (prog m i - {(mr_base reg, s, mr_flags reg)})) \<and>
        room m' = room m"
    and perms_law: "flags_ok f \<Longrightarrow> flags_ok g \<Longrightarrow> mpu_perms_compatible (mk_ops K) (mf_raw f) (mf_raw g) \<longleftrightarrow> f = g"
    and adjust_ok: "flags_ok f \<Longrightarrow> flags_ok (adjust ty f)"
    and adjust_idem: "adjust ty (adjust ty f) = adjust ty f"
begin

abbreviation good :: "nat \<Rightarrow> as_ref \<Rightarrow> ('m, 'a) mps_st \<Rightarrow> bool" where
  "good \<equiv> mpu_good K invar prog adjust flags_ok"

abbreviation hw :: "mp_region \<Rightarrow> bool" where
  "hw \<equiv> hw_region (mpu_granularity (mk_ops K)) flags_ok"

abbreviation known :: "nat \<Rightarrow> as_ref \<Rightarrow> ('m, 'a) mps_st \<Rightarrow> bool" where
  "known c r st \<equiv> mpu_known (fst (mpu_ids c st)) (snd (mpu_ids c st)) (as_id (ms_spaces st r))"

abbreviation inv :: "nat \<Rightarrow> ('m, 'a) mps_st \<Rightarrow> 'm \<Rightarrow> bool" where
  "inv c st \<equiv> invar (fst (mpu_ids c st)) (snd (mpu_ids c st))"

lemma insert_raw:
  assumes "inv c st (ms_mpu st c)" and "known c r st" and "hw reg"
    and "\<forall>(b, s, f) \<in> prog (ms_mpu st c) (as_id (ms_spaces st r)). b \<noteq> mr_base reg" and "0 < room (ms_mpu st c)"
  defines "reg' \<equiv> reg\<lparr>mr_flags := adjust (as_type (ms_spaces st r)) (mr_flags reg)\<rparr>"
  shows "yields broadcast (mem_vmpu_insert_region K c r (Some i) reg broadcast locked st) (\<lambda>(ok, st'). ok \<and> (\<exists>m.
    moves c r st (mem_vmpu_set_entry i reg' (mem_check_forced_locked reg locked) (ms_spaces st r)) m st' \<and>
    inv c st m \<and> prog m = (prog (ms_mpu st c))(as_id (ms_spaces st r) := insert (rgn_key reg') (prog (ms_mpu st c) (as_id (ms_spaces st r)))) \<and>
    Suc (room m) = room (ms_mpu st c)))"
proof -
  obtain h v where ids: "mpu_ids c st = (h, v)" by (metis surj_pair)
  let ?lock = "mem_check_forced_locked reg locked"
  obtain m where m: "mpu_map (mk_ops K) h v (as_id (ms_spaces st r)) (as_type (ms_spaces st r)) reg ?lock (ms_mpu st c) = Inr (True, reg', m)"
      "inv c st m" "prog m = (prog (ms_mpu st c))(as_id (ms_spaces st r) := insert (rgn_key reg') (prog (ms_mpu st c) (as_id (ms_spaces st r))))"
      "Suc (room m) = room (ms_mpu st c)"
    using map_law [OF assms(1) _ assms(3-5)] assms(2) ids unfolding reg'_def by (fastforce simp: rgn_key_def)
  let ?as = "mem_vmpu_set_entry i reg' ?lock (ms_spaces st r)"
  let ?st = "as_update r (mem_vmpu_set_entry i reg' ?lock) (st\<lparr>ms_mpu := (ms_mpu st)(c := m)\<rparr>)"
  have mv: "moves c r st ?as m ?st" by (simp add: moves_def as_update_def)
  have eq: "mem_vmpu_insert_region K c r (Some i) reg broadcast locked st =
      obind (tell K c r reg' MEM_INSERT_REGION broadcast ?lock ?st) (\<lambda>st. Inr (True, st))"
    using m(1) ids by (simp add: mem_vmpu_insert_region_def Let_def)
  show ?thesis
    unfolding eq by (rule yields_obind [OF tell_moves [OF mv]]) (use m(2-4) in auto)
qed

lemma remove_raw:
  assumes "inv c st (ms_mpu st c)" and "known c r st" and "i \<in> vmpu_valid (ms_spaces st r)"
    and "rgn_key (vmpu_region (ms_spaces st r) i) \<in> prog (ms_mpu st c) (as_id (ms_spaces st r))"
  shows "yields broadcast (mem_vmpu_remove_region K c r (Some i) broadcast st) (\<lambda>(ok, st'). ok \<and> (\<exists>m.
    moves c r st (mem_vmpu_free_entry i (ms_spaces st r)) m st' \<and>
    inv c st m \<and> prog m = (prog (ms_mpu st c))(as_id (ms_spaces st r) :=
      prog (ms_mpu st c) (as_id (ms_spaces st r)) - {rgn_key (vmpu_region (ms_spaces st r) i)}) \<and>
    room m = Suc (room (ms_mpu st c))))"
proof -
  let ?as = "ms_spaces st r" and ?reg = "vmpu_region (ms_spaces st r) i"
  have entry: "mem_vmpu_get_entry ?as (Some i) = Some (as_node ?as i)" "mp_state (as_node ?as i) = MPE_S_VALID"
    using assms(3) by (simp_all add: mem_vmpu_get_entry_def vmpu_valid_def)
  obtain h v where ids: "mpu_ids c st = (h, v)" by (metis surj_pair)
  have k: "mpu_known h v (as_id ?as)" and iv: "invar h v (ms_mpu st c)" using assms(1,2) ids by simp_all
  obtain m where m: "mpu_unmap (mk_ops K) h v (as_id ?as) ?reg (ms_mpu st c) = Inr (True, m)" "inv c st m"
      "prog m = (prog (ms_mpu st c))(as_id ?as := prog (ms_mpu st c) (as_id ?as) - {rgn_key ?reg})" "room m = Suc (room (ms_mpu st c))"
    using unmap_law [OF iv k assms(4)] ids by auto
  have eq: "mem_vmpu_remove_region K c r (Some i) broadcast st =
      obind (tell K c r ?reg MEM_REMOVE_REGION broadcast (mp_lock (as_node ?as i)) st) (\<lambda>st.
        let (h, v) = mpu_ids c st in obind (mpu_unmap (mk_ops K) h v (as_id (ms_spaces st r)) ?reg (ms_mpu st c)) (\<lambda>(ok, m).
          Inr (True, as_update r (mem_vmpu_free_entry i) (st\<lparr>ms_mpu := (ms_mpu st)(c := m)\<rparr>))))"
    using entry by (simp add: mem_vmpu_remove_region_def Let_def)
  show ?thesis
    unfolding eq
  proof (rule yields_obind [OF tell_yields], goal_cases)
    case (1 st1)
    then have "mpu_ids c st1 = (h, v)" using ids mpu_ids_same [of st1 st c] by simp
    with 1 m show ?case by (auto simp: moves_def as_update_def)
  qed
qed

lemma update_raw:
  assumes "inv c st (ms_mpu st c)" and "(mr_base reg, s, mr_flags reg) \<in> prog (ms_mpu st c) (as_id (ms_spaces st r))" and "hw reg"
  shows "yields broadcast (mem_vmpu_update_region K c r i reg broadcast locked st) (\<lambda>(ok, st'). ok \<and> (\<exists>m.
    moves c r st (mpe_update i (\<lambda>e. e\<lparr>mp_region := reg\<rparr>) (ms_spaces st r)) m st' \<and>
    inv c st m \<and> prog m = (prog (ms_mpu st c))(as_id (ms_spaces st r) :=
      insert (rgn_key reg) (prog (ms_mpu st c) (as_id (ms_spaces st r)) - {(mr_base reg, s, mr_flags reg)})) \<and>
    room m = room (ms_mpu st c)))"
proof -
  obtain m where m: "mpu_update (mk_ops K) (as_id (ms_spaces st r)) reg (ms_mpu st c) = (True, m)" "inv c st m"
      "prog m = (prog (ms_mpu st c))(as_id (ms_spaces st r) :=
        insert (rgn_key reg) (prog (ms_mpu st c) (as_id (ms_spaces st r)) - {(mr_base reg, s, mr_flags reg)}))"
      "room m = room (ms_mpu st c)"
    using update_law [OF assms] by blast
  let ?f = "mpe_update i (\<lambda>e. e\<lparr>mp_region := reg\<rparr>)"
  let ?st = "as_update r ?f (st\<lparr>ms_mpu := (ms_mpu st)(c := m)\<rparr>)"
  have mv: "moves c r st (?f (ms_spaces st r)) m ?st" by (simp add: moves_def as_update_def)
  have eq: "mem_vmpu_update_region K c r i reg broadcast locked st =
      obind (tell K c r reg MEM_UPDATE_REGION broadcast locked ?st) (\<lambda>st. Inr (True, st))"
    using m(1) by (simp add: mem_vmpu_update_region_def Let_def)
  show ?thesis
    unfolding eq by (rule yields_obind [OF tell_moves [OF mv]]) (use m(2-4) in auto)
qed

end

end
