(* ===== verification/Vmpu_Map.thy ===== *)
theory Vmpu_Map
  imports Vmpu_Contract
begin

text \<open>
  Mapping under the contract of the physical MPU: an insertion, the merging of contiguous regions,
  which ends, keeps the attributes and leaves nothing to merge, and \<open>mem_map\<close>.
\<close>

section \<open>Pairs that can be merged\<close>

lemma vmpu_find_mergeable_some:
  assumes "vmpu_find_mergeable po nodes xs = Some (p, q)"
  shows "\<exists>ys zs. xs = ys @ p # q # zs" and "mr_base (mp_region (nodes p)) + mr_size (mp_region (nodes p)) = mr_base (mp_region (nodes q))"
    and "po (mf_raw (mr_flags (mp_region (nodes p)))) (mf_raw (mr_flags (mp_region (nodes q))))"
    and "\<not> mp_lock (nodes p)" and "\<not> mp_lock (nodes q)"
proof -
  have "(\<exists>ys zs. xs = ys @ p # q # zs) \<and> mr_base (mp_region (nodes p)) + mr_size (mp_region (nodes p)) = mr_base (mp_region (nodes q)) \<and>
      po (mf_raw (mr_flags (mp_region (nodes p)))) (mf_raw (mr_flags (mp_region (nodes q)))) \<and> \<not> mp_lock (nodes p) \<and> \<not> mp_lock (nodes q)"
    using assms
  proof (induction po nodes xs rule: vmpu_find_mergeable.induct)
    case (1 po nodes a b xs)
    show ?case
    proof (cases "a = p \<and> b = q \<and> vmpu_find_mergeable po nodes (a # b # xs) = Some (a, b) \<and>
        mr_base (mp_region (nodes a)) + mr_size (mp_region (nodes a)) = mr_base (mp_region (nodes b)) \<and>
        po (mf_raw (mr_flags (mp_region (nodes a)))) (mf_raw (mr_flags (mp_region (nodes b)))) \<and> \<not> mp_lock (nodes a) \<and> \<not> mp_lock (nodes b)")
      case True
      then have "a # b # xs = [] @ p # q # xs" by simp
      with True show ?thesis by blast
    next
      case False
      with 1(2) have *: "vmpu_find_mergeable po nodes (b # xs) = Some (p, q)"
        by (auto simp: Let_def split: if_splits)
      obtain ys zs where "b # xs = ys @ p # q # zs" "mr_base (mp_region (nodes p)) + mr_size (mp_region (nodes p)) = mr_base (mp_region (nodes q))"
        "po (mf_raw (mr_flags (mp_region (nodes p)))) (mf_raw (mr_flags (mp_region (nodes q))))" "\<not> mp_lock (nodes p)" "\<not> mp_lock (nodes q)"
        using 1(1) [OF refl refl refl refl refl _ *] 1(2) False by (auto simp: Let_def split: if_splits)
      then show ?thesis by (metis append_Cons)
    qed
  qed simp_all
  then show "\<exists>ys zs. xs = ys @ p # q # zs" and "mr_base (mp_region (nodes p)) + mr_size (mp_region (nodes p)) = mr_base (mp_region (nodes q))"
    and "po (mf_raw (mr_flags (mp_region (nodes p)))) (mf_raw (mr_flags (mp_region (nodes q))))"
    and "\<not> mp_lock (nodes p)" and "\<not> mp_lock (nodes q)" by blast+
qed

lemma vmpu_find_mergeable_none:
  assumes "vmpu_find_mergeable po nodes (ys @ p # q # zs) = None" and "\<not> mp_lock (nodes p)" and "\<not> mp_lock (nodes q)"
    and "mr_base (mp_region (nodes p)) + mr_size (mp_region (nodes p)) = mr_base (mp_region (nodes q))"
  shows "\<not> po (mf_raw (mr_flags (mp_region (nodes p)))) (mf_raw (mr_flags (mp_region (nodes q))))"
  using assms
proof (induction ys)
  case (Cons a ys)
  obtain b ws where "ys @ p # q # zs = b # ws" by (cases ys) auto
  with Cons show ?case by (simp add: Let_def split: if_splits)
qed (simp add: Let_def split: if_splits)

section \<open>Neighbours\<close>

lemma rgn_contiguous:
  assumes "rgn_ok p" and "rgn_ok q" and "mr_base p + mr_size p = mr_base q"
  shows "unat (mr_base p) + unat (mr_size p) = unat (mr_base q)"
    and "unat (mr_size p + mr_size q) = unat (mr_size p) + unat (mr_size q)"
    and "rgn_addrs (m\<lparr>mr_base := mr_base p, mr_size := mr_size p + mr_size q\<rparr>) = rgn_addrs p \<union> rgn_addrs q"
    and "rgn_ok (m\<lparr>mr_base := mr_base p, mr_size := mr_size p + mr_size q\<rparr>)"
proof -
  have f: "unat (mr_base p) + unat (mr_size p) < 2 ^ 64" "unat (mr_base q) + unat (mr_size q) < 2 ^ 64"
      "0 < unat (mr_size p)" "0 < unat (mr_size q)"
    using assms(1,2) by (auto simp: rgn_ok_def fits_def unat_gt_0 word_less_nat_alt)
  show b: "unat (mr_base p) + unat (mr_size p) = unat (mr_base q)"
    using unat_add_no_wrap [of "mr_base p" "mr_size p"] f(1) assms(3) by simp
  show s: "unat (mr_size p + mr_size q) = unat (mr_size p) + unat (mr_size q)"
    using b f(2) by (intro unat_add_no_wrap) simp
  show "rgn_addrs (m\<lparr>mr_base := mr_base p, mr_size := mr_size p + mr_size q\<rparr>) = rgn_addrs p \<union> rgn_addrs q"
    using b s by (auto simp: rgn_addrs_def addrs_def)
  show "rgn_ok (m\<lparr>mr_base := mr_base p, mr_size := mr_size p + mr_size q\<rparr>)"
    using b s f by (simp add: rgn_ok_def fits_def word_less_nat_alt)
qed

text \<open>Contiguous entries are neighbours in the list, since the regions are disjoint.\<close>

lemma vmpu_contiguous_adjacent:
  assumes ok: "vmpu_ok as" and p: "p \<in> vmpu_valid as" and q: "q \<in> vmpu_valid as"
    and c: "mr_base (vmpu_region as p) + mr_size (vmpu_region as p) = mr_base (vmpu_region as q)"
  shows "\<exists>ys zs. as_list as = ys @ p # q # zs"
proof -
  let ?b = "\<lambda>i. unat (mr_base (vmpu_region as i))" and ?s = "\<lambda>i. unat (mr_size (vmpu_region as i))"
  have rok: "\<And>i. i \<in> vmpu_valid as \<Longrightarrow> rgn_ok (vmpu_region as i)" using ok by (simp add: vmpu_ok_def)
  have bq: "?b p + ?s p = ?b q" by (rule rgn_contiguous(1) [OF rok [OF p] rok [OF q] c])
  have sp: "0 < ?s p" using rok [OF p] by (simp add: rgn_ok_def word_less_nat_alt)
  have lst: "set (as_list as) = vmpu_valid as" "distinct (as_list as)"
      "sorted_wrt (\<lambda>i j. ?b i < ?b j) (as_list as)"
    using ok by (simp_all add: vmpu_ok_def word_less_nat_alt)
  from p lst(1) obtain ys ws where w: "as_list as = ys @ p # ws" by (metis split_list)
  have "q \<notin> set ys" using lst(3) w bq by (auto simp: sorted_wrt_append)
  moreover have "q \<noteq> p" using bq sp by auto
  ultimately have "q \<in> set ws" using q lst(1) w by auto
  then obtain k zs where k: "ws = k # zs" by (cases ws) auto
  have "k = q"
  proof (rule ccontr)
    assume "k \<noteq> q"
    with \<open>q \<in> set ws\<close> k have "q \<in> set zs" by simp
    then have "?b k < ?b q" "?b p < ?b k" using lst(3) w k by (auto simp: sorted_wrt_append)
    then have "?b k \<in> rgn_addrs (vmpu_region as p)" using bq by (simp add: rgn_addrs_def addrs_def)
    moreover have "k \<in> vmpu_valid as" using lst(1) w k by auto
    moreover have "k \<noteq> p" using \<open>?b p < ?b k\<close> by auto
    ultimately show False
      using ok p rgn_base_in [OF rok [of k]] unfolding vmpu_ok_def by blast
  qed
  with w k show ?thesis by blast
qed

definition vmpu_merged :: "addr_space \<Rightarrow> bool" where
  "vmpu_merged as \<longleftrightarrow> (\<forall>i \<in> vmpu_valid as. \<forall>j \<in> vmpu_valid as.
     mr_base (vmpu_region as i) + mr_size (vmpu_region as i) = mr_base (vmpu_region as j) \<and>
     \<not> mp_lock (as_node as i) \<and> \<not> mp_lock (as_node as j) \<longrightarrow> mr_flags (vmpu_region as i) \<noteq> mr_flags (vmpu_region as j))"

lemma vmpu_lock_same:
  "vmpu_ok (as\<lparr>as_lock := l\<rparr>) = vmpu_ok as" "vmpu_valid (as\<lparr>as_lock := l\<rparr>) = vmpu_valid as"
  "vmpu_regions (as\<lparr>as_lock := l\<rparr>) = vmpu_regions as" "vmpu_attrs (as\<lparr>as_lock := l\<rparr>) = vmpu_attrs as"
  "vmpu_free (as\<lparr>as_lock := l\<rparr>) = vmpu_free as" "vmpu_merged (as\<lparr>as_lock := l\<rparr>) = vmpu_merged as"
  by (simp_all add: vmpu_ok_def vmpu_valid_def vmpu_regions_def vmpu_attrs_def fun_eq_iff vmpu_free_def vmpu_merged_def)

section \<open>Insertion and merging\<close>

context mpu_contract
begin

lemma good_parts:
  assumes "good c r st"
  shows "vmpu_ok (ms_spaces st r)" and "\<And>i. i \<in> vmpu_valid (ms_spaces st r) \<Longrightarrow> hw (vmpu_region (ms_spaces st r) i)"
    and "inv c st (ms_mpu st c)" and "prog (ms_mpu st c) (as_id (ms_spaces st r)) = vmpu_regions (ms_spaces st r)" and "known c r st"
    and "\<And>i. i \<in> vmpu_valid (ms_spaces st r) \<Longrightarrow>
      adjust (as_type (ms_spaces st r)) (mr_flags (vmpu_region (ms_spaces st r) i)) = mr_flags (vmpu_region (ms_spaces st r) i)"
  using assms by (simp_all add: mpu_good_def)

lemma good_moves:
  assumes "good c r st" and "moves c r st as m st'" and "as_id as = as_id (ms_spaces st r)" and "as_type as = as_type (ms_spaces st r)"
    and "vmpu_ok as" and "\<And>i. i \<in> vmpu_valid as \<Longrightarrow> hw (vmpu_region as i) \<and>
      adjust (as_type (ms_spaces st r)) (mr_flags (vmpu_region as i)) = mr_flags (vmpu_region as i)" and "inv c st m" and "prog m (as_id as) = vmpu_regions as"
  shows "good c r st'"
  using assms moves_ids [OF assms(2,3)] by (simp add: mpu_good_def moves_def)

definition post :: "nat \<Rightarrow> as_ref \<Rightarrow> ('m, 'a) mps_st \<Rightarrow> (nat \<Rightarrow> mem_flags set) \<Rightarrow> ('m, 'a) mps_st \<Rightarrow> bool" where
  "post c r st A st' \<longleftrightarrow> good c r st' \<and> only_space prog c r st st' \<and> vmpu_attrs (ms_spaces st' r) = A \<and>
     as_lock (ms_spaces st' r) = as_lock (ms_spaces st r)"

lemma post_trans: "post c r st1 A st2 \<Longrightarrow> post c r st2 B st3 \<Longrightarrow> post c r st1 B st3"
  by (auto simp: post_def intro: only_space_trans)

lemma post_refl: "good c r st \<Longrightarrow> post c r st (vmpu_attrs (ms_spaces st r)) st"
  by (simp add: post_def only_space_refl)

lemma prog_apart:
  assumes "good c r st" and "rgn_ok reg" and "\<forall>j \<in> vmpu_valid (ms_spaces st r). rgn_addrs reg \<inter> rgn_addrs (vmpu_region (ms_spaces st r) j) = {}"
  shows "\<forall>(b, s, f) \<in> prog (ms_mpu st c) (as_id (ms_spaces st r)). b \<noteq> mr_base reg"
proof -
  have "mr_base (vmpu_region (ms_spaces st r) j) \<noteq> mr_base reg" if "j \<in> vmpu_valid (ms_spaces st r)" for j
  proof -
    have "rgn_ok (vmpu_region (ms_spaces st r) j)" using good_parts(1) [OF assms(1)] that by (simp add: vmpu_ok_def)
    then show ?thesis using rgn_base_in assms(2,3) that by (metis disjoint_iff)
  qed
  then show ?thesis using good_parts(4) [OF assms(1)] by (auto simp: vmpu_regions_def rgn_key_def)
qed

lemma insert_region:
  assumes g: "good c r st" and i: "i < VMPU_NUM_ENTRIES" "i \<notin> vmpu_valid (ms_spaces st r)" and reg: "hw reg"
    and apart: "\<forall>j \<in> vmpu_valid (ms_spaces st r). rgn_addrs reg \<inter> rgn_addrs (vmpu_region (ms_spaces st r) j) = {}"
    and rm: "0 < room (ms_mpu st c)"
  shows "yields broadcast (mem_vmpu_insert_region K c r (Some i) reg broadcast locked st) (\<lambda>(ok, st'). ok \<and>
    post c r st (\<lambda>a. if a \<in> rgn_addrs reg then {adjust (as_type (ms_spaces st r)) (mr_flags reg)} else vmpu_attrs (ms_spaces st r) a) st' \<and>
    vmpu_free (ms_spaces st' r) = vmpu_free (ms_spaces st r) - {i} \<and> Suc (room (ms_mpu st' c)) = room (ms_mpu st c))"
proof (rule yields_mono [OF insert_raw [OF good_parts(3,5) [OF g] reg prog_apart [OF g _ apart] rm]], goal_cases)
  case 1
  show ?case using reg by (simp add: hw_region_def)
next
  case (2 x)
  let ?reg = "reg\<lparr>mr_flags := adjust (as_type (ms_spaces st r)) (mr_flags reg)\<rparr>"
  let ?as = "mem_vmpu_set_entry i ?reg (mem_check_forced_locked reg locked) (ms_spaces st r)"
  obtain st' m where x: "x = (True, st')" and mv: "moves c r st ?as m st'" and m: "inv c st m"
      "prog m = (prog (ms_mpu st c))(as_id (ms_spaces st r) := insert (rgn_key ?reg) (prog (ms_mpu st c) (as_id (ms_spaces st r))))"
      "Suc (room m) = room (ms_mpu st c)"
    using 2 by (cases x) auto
  have ra: "rgn_addrs ?reg = rgn_addrs reg" "rgn_ok ?reg" using reg by (simp_all add: rgn_addrs_def rgn_ok_def hw_region_def)
  note se = vmpu_set_entry [OF good_parts(1) [OF g] i ra(2) apart [folded ra(1)], of "mem_check_forced_locked reg locked"]
  have hw': "hw ?reg" using reg adjust_ok by (simp add: hw_region_def rgn_ok_def)
  have "hw (vmpu_region ?as j) \<and> adjust (as_type (ms_spaces st r)) (mr_flags (vmpu_region ?as j)) = mr_flags (vmpu_region ?as j)"
    if "j \<in> vmpu_valid ?as" for j
    using that hw' good_parts(2,6) [OF g] adjust_idem unfolding se(4)
    by (auto simp: mem_vmpu_set_entry_def mpe_update_def Let_def)
  then have "good c r st'"
    using m(1) m(2) good_parts(4) [OF g] by (intro good_moves [OF g mv se(6,7,1)]) (simp_all add: se)
  moreover have "only_space prog c r st st'" using m(2) by (intro moves_only [OF mv se(6,7)]) simp
  ultimately show ?case using mv m(3) by (simp add: x post_def moves_def se ra(1) cong: if_cong)
qed

lemma merge_round:
  assumes g: "good c r st"
    and f: "vmpu_find_mergeable (mpu_perms_compatible (mk_ops K)) (as_node (ms_spaces st r)) (as_list (ms_spaces st r)) = Some (p, q)"
  defines "reg \<equiv> \<lparr>mr_base = mr_base (vmpu_region (ms_spaces st r) p),
      mr_size = mr_size (vmpu_region (ms_spaces st r) p) + mr_size (vmpu_region (ms_spaces st r) q),
      mr_flags = mr_flags (vmpu_region (ms_spaces st r) q), mr_sec = 0\<rparr>"
  shows "yields b (mem_vmpu_update_region K c r p reg b l st) (\<lambda>(ok, st1). ok \<and>
    yields b (mem_vmpu_remove_region K c r (Some q) b st1) (\<lambda>(ok, st2). ok \<and>
      post c r st (vmpu_attrs (ms_spaces st r)) st2 \<and>
      vmpu_valid (ms_spaces st2 r) = vmpu_valid (ms_spaces st r) - {q} \<and> q \<in> vmpu_valid (ms_spaces st r) \<and>
      vmpu_free (ms_spaces st r) \<subseteq> vmpu_free (ms_spaces st2 r) \<and> room (ms_mpu st c) \<le> room (ms_mpu st2 c)))"
proof -
  define as where "as = ms_spaces st r"
  let ?p = "vmpu_region as p" and ?q = "vmpu_region as q"
  note gp = good_parts [OF g, folded as_def]
  note mg = vmpu_find_mergeable_some [OF f, folded as_def]
  have reg_eq: "reg = \<lparr>mr_base = 0, mr_size = 0, mr_flags = mr_flags ?q, mr_sec = 0\<rparr>
      \<lparr>mr_base := mr_base ?p, mr_size := mr_size ?p + mr_size ?q\<rparr>"
    by (simp add: reg_def as_def)
  obtain ys zs where lst: "as_list as = ys @ p # q # zs" using mg(1) by blast
  have pq: "p \<in> vmpu_valid as" "q \<in> vmpu_valid as" "p \<noteq> q"
    using gp(1) lst by (auto simp: vmpu_ok_def)
  have rok: "rgn_ok ?p" "rgn_ok ?q" using gp(2) pq by (simp_all add: hw_region_def)
  have flags: "mr_flags ?p = mr_flags ?q"
    using mg(3) perms_law gp(2) [OF pq(1)] gp(2) [OF pq(2)] by (simp add: hw_region_def)
  note ct = rgn_contiguous [OF rok mg(2)]
  have addrs: "rgn_addrs reg = rgn_addrs ?p \<union> rgn_addrs ?q" and regok: "rgn_ok reg"
    unfolding reg_eq by (rule ct(3), rule ct(4))
  have fl: "mr_flags reg = mr_flags ?p" and bs: "mr_base reg = mr_base ?p" by (simp_all add: reg_eq flags)
  have hwreg: "hw reg"
    using gp(2) [OF pq(1)] gp(2) [OF pq(2)] regok ct(2) unfolding reg_eq by (simp add: hw_region_def)
  have bne: "mr_base ?p \<noteq> mr_base ?q" using vmpu_base_inj [OF gp(1) pq(1,2)] pq(3) by auto
  \<comment> \<open>the table with the second entry freed and the first one grown\<close>
  let ?as2 = "mpe_update p (\<lambda>e. e\<lparr>mp_region := reg\<rparr>) (mem_vmpu_free_entry q as)"
  note fr = vmpu_free_entry [OF gp(1) pq(2)]
  have fp: "as_node (mem_vmpu_free_entry q as) p = as_node as p" using fr(9) pq(3) by simp
  have "\<forall>j \<in> vmpu_valid (mem_vmpu_free_entry q as). j \<noteq> p \<longrightarrow>
      rgn_addrs reg \<inter> rgn_addrs (vmpu_region (mem_vmpu_free_entry q as) j) = {}"
    using vmpu_apart [OF gp(1) pq(1)] vmpu_apart [OF gp(1) pq(2)] unfolding fr(4) addrs Int_Un_distrib2
    by (simp add: fr(9))
  then have gr: "vmpu_ok ?as2" "vmpu_regions ?as2 = insert (rgn_key reg) (vmpu_regions as - {rgn_key ?q} - {rgn_key ?p})"
      "vmpu_attrs ?as2 = (\<lambda>a. if a \<in> rgn_addrs reg then {mr_flags reg} else if a \<in> rgn_addrs ?q then {} else vmpu_attrs as a)"
      "vmpu_valid ?as2 = vmpu_valid as - {q}" "vmpu_free ?as2 = insert q (vmpu_free as)"
      "as_id ?as2 = as_id as" "as_type ?as2 = as_type as" "as_lock ?as2 = as_lock as"
    using vmpu_grow_entry [OF fr(1), of p reg] pq fp regok bs addrs fr by (simp_all cong: if_cong)
  have attrs: "vmpu_attrs ?as2 = vmpu_attrs as"
  proof
    fix a
    have "vmpu_attrs as a = {mr_flags (vmpu_region as i)}" if "i \<in> vmpu_valid as" "a \<in> rgn_addrs (vmpu_region as i)" for i
    proof -
      have "j = i" if "j \<in> vmpu_valid as" "a \<in> rgn_addrs (vmpu_region as j)" for j
        using gp(1) that \<open>i \<in> vmpu_valid as\<close> \<open>a \<in> rgn_addrs (vmpu_region as i)\<close> unfolding vmpu_ok_def by blast
      then show ?thesis using that unfolding vmpu_attrs_def by blast
    qed
    then show "vmpu_attrs ?as2 a = vmpu_attrs as a" unfolding gr(3) using addrs fl flags pq by auto
  qed
  \<comment> \<open>the two calls\<close>
  have key: "(mr_base reg, mr_size ?p, mr_flags reg) \<in> prog (ms_mpu st c) (as_id (ms_spaces st r))"
    using gp(4) pq(1) by (auto simp: bs fl as_def vmpu_regions_def rgn_key_def)
  show ?thesis
  proof (rule yields_mono [OF update_raw [OF gp(3) key hwreg]], goal_cases)
    case (1 x)
    let ?as1 = "mpe_update p (\<lambda>e. e\<lparr>mp_region := reg\<rparr>) as"
    obtain st1 m where x: "x = (True, st1)" and mv: "moves c r st ?as1 m st1" and m: "inv c st m"
        "prog m = (prog (ms_mpu st c))(as_id as := insert (rgn_key reg) (vmpu_regions as - {rgn_key ?p}))" "room m = room (ms_mpu st c)"
      using 1 gp(4) bs fl by (cases x) (auto simp: as_def rgn_key_def)
    have st1: "ms_spaces st1 r = ?as1" "ms_mpu st1 c = m" using mv by (simp_all add: moves_def)
    have n1: "as_id ?as1 = as_id as" "as_node ?as1 q = as_node as q"
      using pq(3) by (simp_all add: mpe_update_def)
    have v1: "q \<in> vmpu_valid ?as1" using pq(2) n1(2) by (simp add: vmpu_valid_def)
    have k1: "known c r st1" using gp(5) moves_ids [OF mv] n1(1) st1(1) by (simp add: as_def)
    have iv1: "inv c st1 m" using m(1) moves_ids [OF mv] n1(1) by (simp add: as_def)
    have key1: "rgn_key ?q \<in> prog m (as_id as)"
      using m(2) pq bne by (auto simp: rgn_key_def vmpu_regions_def)
    have "yields b (mem_vmpu_remove_region K c r (Some q) b st1) (\<lambda>(ok, st2). ok \<and>
      post c r st (vmpu_attrs as) st2 \<and>
      vmpu_valid (ms_spaces st2 r) = vmpu_valid as - {q} \<and> q \<in> vmpu_valid as \<and>
      vmpu_free as \<subseteq> vmpu_free (ms_spaces st2 r) \<and> room (ms_mpu st c) \<le> room (ms_mpu st2 c))"
    proof (rule yields_mono [OF remove_raw], goal_cases)
      case (5 y)
      obtain st2 m2 where y: "y = (True, st2)" and mv2: "moves c r st1 (mem_vmpu_free_entry q ?as1) m2 st2"
        and m2: "inv c st1 m2" "prog m2 = (prog m)(as_id as := prog m (as_id as) - {rgn_key ?q})" "room m2 = Suc (room m)"
        using 5 n1 st1 by (cases y) auto
      have as2: "mem_vmpu_free_entry q ?as1 = ?as2" by (rule vmpu_free_update_commute [OF pq(3)])
      have m2': "inv c st m2" using m2(1) moves_ids [OF mv] n1(1) by (simp add: as_def)
      have mv3: "moves c r st ?as2 m2 st2" using moves_trans [OF mv mv2] unfolding as2 .
      have prog2: "prog m2 = (prog (ms_mpu st c))(as_id as := vmpu_regions ?as2)"
      proof -
        have "insert (rgn_key reg) (vmpu_regions as - {rgn_key ?p}) - {rgn_key ?q} =
            insert (rgn_key reg) (vmpu_regions as - {rgn_key ?q} - {rgn_key ?p})"
          using bne bs by (auto simp: rgn_key_def)
        then show ?thesis unfolding m2(2) m(2) gr(2) by simp
      qed
      have hw2: "hw (vmpu_region ?as2 j) \<and> adjust (as_type (ms_spaces st r)) (mr_flags (vmpu_region ?as2 j)) = mr_flags (vmpu_region ?as2 j)"
        if "j \<in> vmpu_valid ?as2" for j
      proof (cases "j = p")
        case True
        with gp(6) [OF pq(1)] show ?thesis by (simp add: mpe_update_def hwreg fl as_def)
      next
        case False
        with that gp(2,6) show ?thesis unfolding gr(4) by (simp add: mpe_update_def fr(9) [unfolded as_def] as_def)
      qed
      have "good c r st2"
        by (rule good_moves [OF g mv3 _ _ gr(1) hw2 m2']) (simp_all add: gr(6,7) [unfolded as_def] prog2 [unfolded as_def] as_def)
      moreover have "only_space prog c r st st2"
        by (rule moves_only [OF mv3]) (simp_all add: gr(6,7) [unfolded as_def] prog2 [unfolded as_def] as_def)
      ultimately show ?case
        using mv3 attrs gr pq m2(3) m(3) by (auto simp: y post_def moves_def as_def)
    qed (use st1 m iv1 k1 v1 key1 n1 in simp_all)
    then show ?case by (simp add: x as_def)
  qed
qed

lemma not_mergeable_merged:
  assumes "good c r st"
    and "vmpu_find_mergeable (mpu_perms_compatible (mk_ops K)) (as_node (ms_spaces st r)) (as_list (ms_spaces st r)) = None"
  shows "vmpu_merged (ms_spaces st r)"
  unfolding vmpu_merged_def
proof (intro ballI impI)
  fix i j
  let ?as = "ms_spaces st r"
  assume ij: "i \<in> vmpu_valid ?as" "j \<in> vmpu_valid ?as"
    and a: "mr_base (vmpu_region ?as i) + mr_size (vmpu_region ?as i) = mr_base (vmpu_region ?as j) \<and>
      \<not> mp_lock (as_node ?as i) \<and> \<not> mp_lock (as_node ?as j)"
  obtain ys zs where "as_list ?as = ys @ i # j # zs"
    using vmpu_contiguous_adjacent [OF good_parts(1) [OF assms(1)] ij] a by blast
  then have "\<not> mpu_perms_compatible (mk_ops K) (mf_raw (mr_flags (vmpu_region ?as i))) (mf_raw (mr_flags (vmpu_region ?as j)))"
    using assms(2) a vmpu_find_mergeable_none by metis
  then show "mr_flags (vmpu_region ?as i) \<noteq> mr_flags (vmpu_region ?as j)"
    using perms_law good_parts(2) [OF assms(1)] ij by (simp add: hw_region_def)
qed

lemma coalesce_loop:
  assumes "good c r st"
  shows "\<exists>res. vmpu_coalesce_loop K c r b st = Some res \<and> yields b res (\<lambda>st'.
    post c r st (vmpu_attrs (ms_spaces st r)) st' \<and> vmpu_merged (ms_spaces st' r) \<and>
    vmpu_free (ms_spaces st r) \<subseteq> vmpu_free (ms_spaces st' r) \<and> room (ms_mpu st c) \<le> room (ms_mpu st' c))"
  using assms
proof (induction "card (vmpu_valid (ms_spaces st r))" arbitrary: st rule: less_induct)
  case less
  let ?as = "ms_spaces st r"
  show ?case
  proof (cases "vmpu_find_mergeable (mpu_perms_compatible (mk_ops K)) (as_node ?as) (as_list ?as)")
    case None
    then have "vmpu_coalesce_loop K c r b st = Some (Inr st)" by (subst vmpu_coalesce_loop.simps) simp
    then show ?thesis using not_mergeable_merged [OF less.prems None] post_refl [OF less.prems] by simp
  next
    case (Some pq)
    then obtain p q where f: "vmpu_find_mergeable (mpu_perms_compatible (mk_ops K)) (as_node ?as) (as_list ?as) = Some (p, q)"
      by (cases pq) auto
    let ?reg = "\<lparr>mr_base = mr_base (vmpu_region ?as p), mr_size = mr_size (vmpu_region ?as p) + mr_size (vmpu_region ?as q),
      mr_flags = mr_flags (vmpu_region ?as q), mr_sec = 0\<rparr>"
    note rnd = merge_round [OF less.prems f, of b "mp_lock (as_node ?as p)"]
    show ?thesis
    proof (cases "mem_vmpu_update_region K c r p ?reg b (mp_lock (as_node ?as p)) st")
      case (Inl e)
      with f have "vmpu_coalesce_loop K c r b st = Some (Inl e)" by (subst vmpu_coalesce_loop.simps) (simp add: Let_def)
      with rnd Inl show ?thesis by (simp add: yields_def)
    next
      case (Inr x)
      with rnd obtain st1 where x: "x = (True, st1)" by (cases x) simp
      show ?thesis
      proof (cases "mem_vmpu_remove_region K c r (Some q) b st1")
        case (Inl e)
        with f Inr x have "vmpu_coalesce_loop K c r b st = Some (Inl e)" by (subst vmpu_coalesce_loop.simps) (simp add: Let_def)
        with rnd Inl Inr x show ?thesis by (simp add: yields_def)
      next
        case (Inr y)
        obtain ok st2 where y: "y = (ok, st2)" by (metis surj_pair)
        have s2: "post c r st (vmpu_attrs ?as) st2" "vmpu_valid (ms_spaces st2 r) = vmpu_valid ?as - {q}" "q \<in> vmpu_valid ?as"
          "vmpu_free ?as \<subseteq> vmpu_free (ms_spaces st2 r)" "room (ms_mpu st c) \<le> room (ms_mpu st2 c)"
          using rnd Inr \<open>mem_vmpu_update_region _ _ _ _ _ _ _ _ = _\<close> x y by simp_all
        have eq: "vmpu_coalesce_loop K c r b st = vmpu_coalesce_loop K c r b st2"
          using f Inr \<open>mem_vmpu_update_region _ _ _ _ _ _ _ _ = _\<close> x y by (subst vmpu_coalesce_loop.simps) (simp add: Let_def)
        have "finite (vmpu_valid ?as)" by (rule finite_subset [of _ "{..<VMPU_NUM_ENTRIES}"]) (auto simp: vmpu_valid_def)
        then have "card (vmpu_valid (ms_spaces st2 r)) < card (vmpu_valid ?as)"
          unfolding s2(2) using s2(3) by (intro psubset_card_mono) auto
        moreover have "good c r st2" using s2(1) by (simp add: post_def)
        ultimately have ih: "\<exists>res. vmpu_coalesce_loop K c r b st2 = Some res \<and>
          yields b res (\<lambda>st'. post c r st2 (vmpu_attrs (ms_spaces st2 r)) st' \<and> vmpu_merged (ms_spaces st' r) \<and>
            vmpu_free (ms_spaces st2 r) \<subseteq> vmpu_free (ms_spaces st' r) \<and> room (ms_mpu st2 c) \<le> room (ms_mpu st' c))"
          by (rule less.hyps)
        then obtain res where res: "vmpu_coalesce_loop K c r b st2 = Some res"
          "yields b res (\<lambda>st'. post c r st2 (vmpu_attrs (ms_spaces st2 r)) st' \<and> vmpu_merged (ms_spaces st' r) \<and>
            vmpu_free (ms_spaces st2 r) \<subseteq> vmpu_free (ms_spaces st' r) \<and> room (ms_mpu st2 c) \<le> room (ms_mpu st' c))"
          by blast
        have "vmpu_attrs (ms_spaces st2 r) = vmpu_attrs ?as" using s2(1) by (simp add: post_def)
        have "yields b res (\<lambda>st'. post c r st (vmpu_attrs ?as) st' \<and> vmpu_merged (ms_spaces st' r) \<and>
            vmpu_free ?as \<subseteq> vmpu_free (ms_spaces st' r) \<and> room (ms_mpu st c) \<le> room (ms_mpu st' c))"
        proof (rule yields_mono [OF res(2)], goal_cases)
          case (1 st')
          then have "post c r st (vmpu_attrs ?as) st'"
            using post_trans [OF s2(1)] \<open>vmpu_attrs (ms_spaces st2 r) = vmpu_attrs ?as\<close> by metis
          with 1 s2(4,5) show ?case by (meson order_trans)
        qed
        then show ?thesis unfolding eq res(1) by (intro exI [of _ res] conjI refl)
      qed
    qed
  qed
qed

lemma coalesce:
  "good c r st \<Longrightarrow> yields b (mem_vmpu_coalesce_contiguous K c r b st) (\<lambda>st'.
     post c r st (vmpu_attrs (ms_spaces st r)) st' \<and> vmpu_merged (ms_spaces st' r))"
proof -
  assume "good c r st"
  then obtain res where "vmpu_coalesce_loop K c r b st = Some res" and y: "yields b res (\<lambda>st'.
      post c r st (vmpu_attrs (ms_spaces st r)) st' \<and> vmpu_merged (ms_spaces st' r) \<and>
      vmpu_free (ms_spaces st r) \<subseteq> vmpu_free (ms_spaces st' r) \<and> room (ms_mpu st c) \<le> room (ms_mpu st' c))"
    using coalesce_loop by blast
  then show ?thesis
    unfolding mem_vmpu_coalesce_contiguous_def by simp (erule yields_mono, blast)
qed

section \<open>Mapping\<close>

lemma good_cong:
  assumes "good c r st" and "moves c r st as (ms_mpu st c) st'" and "vmpu_ok as = vmpu_ok (ms_spaces st r)"
    and "vmpu_valid as = vmpu_valid (ms_spaces st r)" and "vmpu_regions as = vmpu_regions (ms_spaces st r)"
    and "as_id as = as_id (ms_spaces st r)" and "as_type as = as_type (ms_spaces st r)" and "\<And>j. j \<in> vmpu_valid (ms_spaces st r) \<Longrightarrow> as_node as j = as_node (ms_spaces st r) j"
  shows "good c r st'"
  using good_parts [OF assms(1)] assms(3-8) by (intro good_moves [OF assms(1,2)]) simp_all

lemma as_update_moves: "moves c r st (f (ms_spaces st r)) (ms_mpu st c) (as_update r f st)"
  by (simp add: moves_def as_update_def)

lemma lock_post:
  assumes "good c r st" and "f = as_lock_update (\<lambda>_. l)"
  shows "good c r (as_update r f st)" and "only_space prog c r st (as_update r f st)"
    and "vmpu_attrs (ms_spaces (as_update r f st) r) = vmpu_attrs (ms_spaces st r)"
proof -
  show "good c r (as_update r f st)"
    by (rule good_cong [OF assms(1) as_update_moves]) (simp_all add: assms(2) vmpu_lock_same)
  show "only_space prog c r st (as_update r f st)" by (simp add: only_space_def as_update_def assms(2))
  show "vmpu_attrs (ms_spaces (as_update r f st) r) = vmpu_attrs (ms_spaces st r)"
    by (simp add: as_update_def assms(2) vmpu_lock_same)
qed

lemma with_lock:
  assumes g: "good c r st" and lk: "\<not> as_lock (ms_spaces st r)"
  defines "st1 \<equiv> as_update r (\<lambda>as. as\<lparr>as_lock := True\<rparr>) st"
  shows "spin_lock r st = Inr st1" and "good c r st1" and "ms_mpu st1 = ms_mpu st"
    and "ms_spaces st1 r = ms_spaces st r\<lparr>as_lock := True\<rparr>"
    and "\<And>A st'. post c r st1 A st' \<Longrightarrow> post c r st A (spin_unlock r st')"
    and "\<And>st'. vmpu_merged (ms_spaces (spin_unlock r st') r) = vmpu_merged (ms_spaces (st' :: ('m, 'a) mps_st) r)"
proof -
  note lp = lock_post [OF g refl, of True, folded st1_def]
  show "spin_lock r st = Inr st1" using lk by (simp add: spin_lock_def st1_def)
  show "good c r st1" by (rule lp(1))
  show "ms_mpu st1 = ms_mpu st" "ms_spaces st1 r = ms_spaces st r\<lparr>as_lock := True\<rparr>" by (simp_all add: st1_def as_update_def)
  show "post c r st A (spin_unlock r st')" if "post c r st1 A st'" for A st'
  proof -
    have g': "good c r st'" "only_space prog c r st1 st'" "vmpu_attrs (ms_spaces st' r) = A" using that by (simp_all add: post_def)
    note u = lock_post [OF g'(1) refl, of False, folded spin_unlock_def]
    show ?thesis
      using u only_space_trans [OF only_space_trans [OF lp(2) g'(2)] u(2)] g'(3) lk
      by (simp add: post_def spin_unlock_def as_update_def)
  qed
  show "vmpu_merged (ms_spaces (spin_unlock r st') r) = vmpu_merged (ms_spaces st' r)" for st' :: "('m, 'a) mps_st"
    by (simp add: spin_unlock_def as_update_def vmpu_lock_same)
qed

text \<open>The overlap the code tests is containment in an entry.\<close>

lemma overlap_subset:
  assumes "good c r st" and "rgn_ok mpr" and "i \<in> vmpu_valid (ms_spaces st r)"
  shows "mem_regions_overlap mpr (vmpu_region (ms_spaces st r) i) \<longleftrightarrow> rgn_addrs mpr \<subseteq> rgn_addrs (vmpu_region (ms_spaces st r) i)"
  using assms(2) good_parts(2) [OF assms(1,3)]
  by (simp add: mem_regions_overlap_def rgn_addrs_def hw_region_def rgn_ok_def range_in_range_subset)

lemma overlapping_none:
  assumes "good c r st" and "rgn_ok mpr"
  shows "mem_vmpu_find_overlapping_region (ms_spaces st r) mpr = None \<longleftrightarrow>
    (\<forall>i \<in> vmpu_valid (ms_spaces st r). \<not> rgn_addrs mpr \<subseteq> rgn_addrs (vmpu_region (ms_spaces st r) i))"
  unfolding mem_vmpu_find_overlapping_region_def vmpu_find_none
  using overlap_subset [OF assms] by (auto simp: vmpu_valid_def)

lemma overlapping_some:
  assumes "good c r st" and "rgn_ok mpr" and "mem_vmpu_find_overlapping_region (ms_spaces st r) mpr = Some i"
  shows "i \<in> vmpu_valid (ms_spaces st r)" and "rgn_addrs mpr \<subseteq> rgn_addrs (vmpu_region (ms_spaces st r) i)"
proof -
  have "i < VMPU_NUM_ENTRIES \<and> mp_state (as_node (ms_spaces st r) i) = MPE_S_VALID \<and> mem_regions_overlap mpr (vmpu_region (ms_spaces st r) i)"
    using vmpu_find_some [OF assms(3) [unfolded mem_vmpu_find_overlapping_region_def]] by simp
  then show "i \<in> vmpu_valid (ms_spaces st r)" and "rgn_addrs mpr \<subseteq> rgn_addrs (vmpu_region (ms_spaces st r) i)"
    using overlap_subset [OF assms(1,2), of i] by (simp_all add: vmpu_valid_def)
qed

lemma allocate_post:
  assumes g: "good c r st" and a: "mem_vmpu_allocate_entry (ms_spaces st r) = Inr (i, as)"
  shows "post c r st (vmpu_attrs (ms_spaces st r)) (as_update r (\<lambda>_. as) st)"
    and "vmpu_valid (ms_spaces (as_update r (\<lambda>_. as) st) r) = vmpu_valid (ms_spaces st r)"
proof -
  note al = vmpu_allocate [OF a]
  have "good c r (as_update r (\<lambda>_. as) st)"
    by (rule good_cong [OF g as_update_moves]) (simp_all add: al)
  then show "post c r st (vmpu_attrs (ms_spaces st r)) (as_update r (\<lambda>_. as) st)"
    by (simp add: post_def only_space_def as_update_def al)
  show "vmpu_valid (ms_spaces (as_update r (\<lambda>_. as) st) r) = vmpu_valid (ms_spaces st r)" by (simp add: as_update_def al)
qed

lemma insert_fresh:
  assumes g: "good c r st" and reg: "hw reg" and free: "vmpu_free (ms_spaces st r) \<noteq> {}" and rm: "0 < room (ms_mpu st c)"
    and apart: "\<forall>j \<in> vmpu_valid (ms_spaces st r). rgn_addrs reg \<inter> rgn_addrs (vmpu_region (ms_spaces st r) j) = {}"
  shows "yields broadcast (obind (mem_vmpu_allocate_entry (ms_spaces st r)) (\<lambda>(mpid, as).
      mem_vmpu_insert_region K c r (Some mpid) reg broadcast locked (as_update r (\<lambda>_. as) st))) (\<lambda>(ok, st'). ok \<and>
    post c r st (\<lambda>a. if a \<in> rgn_addrs reg then {adjust (as_type (ms_spaces st r)) (mr_flags reg)} else vmpu_attrs (ms_spaces st r) a) st' \<and>
    (\<exists>i \<in> vmpu_free (ms_spaces st r). vmpu_free (ms_spaces st' r) = vmpu_free (ms_spaces st r) - {i}) \<and>
    Suc (room (ms_mpu st' c)) = room (ms_mpu st c))"
proof -
  obtain i as where al: "mem_vmpu_allocate_entry (ms_spaces st r) = Inr (i, as)" using vmpu_allocate_room [OF free] by blast
  let ?st = "as_update r (\<lambda>_. as) st"
  note ap = allocate_post [OF g al]
  note av = vmpu_allocate [OF al]
  have g2: "good c r ?st" using ap(1) by (simp add: post_def)
  have s2: "ms_spaces ?st r = as" "ms_mpu ?st = ms_mpu st" by (simp_all add: as_update_def)
  have apart2: "\<forall>j \<in> vmpu_valid as. rgn_addrs reg \<inter> rgn_addrs (vmpu_region as j) = {}"
    using apart av(6,11) by simp
  have "yields broadcast (mem_vmpu_insert_region K c r (Some i) reg broadcast locked ?st) (\<lambda>(ok, st'). ok \<and>
    post c r st (\<lambda>a. if a \<in> rgn_addrs reg then {adjust (as_type (ms_spaces st r)) (mr_flags reg)} else vmpu_attrs (ms_spaces st r) a) st' \<and>
    (\<exists>i \<in> vmpu_free (ms_spaces st r). vmpu_free (ms_spaces st' r) = vmpu_free (ms_spaces st r) - {i}) \<and>
    Suc (room (ms_mpu st' c)) = room (ms_mpu st c))"
  proof (rule yields_mono [OF insert_region [OF g2]], goal_cases)
    case (6 x)
    obtain ok st' where x: "x = (ok, st')" by (metis surj_pair)
    show ?case
      unfolding x prod.case
      using 6 [unfolded x prod.case s2 av(4,8)] post_trans [OF ap(1), of _ st'] av(12,13) by blast
  qed (use av(1,2) reg apart2 rm s2 in \<open>simp_all\<close>)
  then show ?thesis by (simp add: al)
qed

lemma coalesce_if:
  assumes g: "post c r st A st3"
  shows "yields broadcast (if go then mem_vmpu_coalesce_contiguous K c r broadcast st3 else Inr st3)
    (\<lambda>st'. post c r st A st' \<and> (go \<longrightarrow> vmpu_merged (ms_spaces st' r)))"
proof (cases go)
  case True
  have "good c r st3" "vmpu_attrs (ms_spaces st3 r) = A" using g by (simp_all add: post_def)
  then have "yields broadcast (mem_vmpu_coalesce_contiguous K c r broadcast st3)
      (\<lambda>st'. post c r st3 A st' \<and> vmpu_merged (ms_spaces st' r))" using coalesce [of c r st3 broadcast] by simp
  then have "yields broadcast (mem_vmpu_coalesce_contiguous K c r broadcast st3)
      (\<lambda>st'. post c r st A st' \<and> vmpu_merged (ms_spaces st' r))"
    by (rule yields_mono) (use post_trans [OF g] in blast)
  with True show ?thesis by simp
next
  case False
  with g show ?thesis by simp
qed

text \<open>
  A region that lies in no entry, or in one, is mapped exactly when it meets none; then its addresses
  have its attributes and, unless it is locked, no two entries can be merged any more.
\<close>

lemma map_region:
  assumes g: "good c r st" and lk: "\<not> as_lock (ms_spaces st r)" and reg: "hw mpr"
    and parts: "\<forall>i \<in> vmpu_valid (ms_spaces st r). rgn_addrs mpr \<subseteq> rgn_addrs (vmpu_region (ms_spaces st r) i) \<or>
      rgn_addrs mpr \<inter> rgn_addrs (vmpu_region (ms_spaces st r) i) = {}"
    and free: "vmpu_free (ms_spaces st r) \<noteq> {}" and rm: "0 < room (ms_mpu st c)"
  shows "yields broadcast (mem_map K c r mpr broadcast locked st) (\<lambda>(ok, st').
    post c r st (if ok then (\<lambda>a. if a \<in> rgn_addrs mpr then {adjust (as_type (ms_spaces st r)) (mr_flags mpr)}
                             else vmpu_attrs (ms_spaces st r) a)
                 else vmpu_attrs (ms_spaces st r)) st' \<and>
    (ok \<longleftrightarrow> (\<forall>i \<in> vmpu_valid (ms_spaces st r). rgn_addrs mpr \<inter> rgn_addrs (vmpu_region (ms_spaces st r) i) = {})) \<and>
    (ok \<and> \<not> locked \<longrightarrow> vmpu_merged (ms_spaces st' r)))"
proof -
  let ?as = "ms_spaces st r"
  let ?A = "\<lambda>a. if a \<in> rgn_addrs mpr then {adjust (as_type ?as) (mr_flags mpr)} else vmpu_attrs ?as a"
  define st1 where "st1 = as_update r (\<lambda>as. as\<lparr>as_lock := True\<rparr>) st"
  note wl = with_lock [OF g lk, folded st1_def]
  have same: "vmpu_valid (ms_spaces st1 r) = vmpu_valid ?as" "vmpu_free (ms_spaces st1 r) = vmpu_free ?as"
    "vmpu_attrs (ms_spaces st1 r) = vmpu_attrs ?as" "as_type (ms_spaces st1 r) = as_type ?as"
    "\<And>i. vmpu_region (ms_spaces st1 r) i = vmpu_region ?as i"
    by (simp_all add: wl(4) vmpu_lock_same)
  have rok: "rgn_ok mpr" and sz: "mr_size mpr \<noteq> 0" "mr_size mpr mod mpu_granularity (mk_ops K) = 0"
    using reg by (auto simp: hw_region_def rgn_ok_def dvd_eq_mod_eq_0 unat_mod [symmetric] word_unat_eq_iff word_less_nat_alt)
  define body where "body = (if mem_vmpu_find_overlapping_region (ms_spaces st1 r) mpr = None then
      obind (mem_vmpu_allocate_entry (ms_spaces st1 r)) (\<lambda>(mpid, as).
        mem_vmpu_insert_region K c r (Some mpid) mpr broadcast locked (as_update r (\<lambda>_. as) st1))
    else Inr (False, st1))"
  have eq: "mem_map K c r mpr broadcast locked st = obind body (\<lambda>(mapped, st).
      obind (if mapped \<and> \<not> locked then mem_vmpu_coalesce_contiguous K c r broadcast st else Inr st) (\<lambda>st.
      Inr (mapped, spin_unlock r st)))"
    unfolding body_def using sz by (simp add: mem_map_def wl(1))
  let ?apart = "\<forall>i \<in> vmpu_valid ?as. rgn_addrs mpr \<inter> rgn_addrs (vmpu_region ?as i) = {}"
  have over: "mem_vmpu_find_overlapping_region (ms_spaces st1 r) mpr = None \<longleftrightarrow> ?apart"
    using overlapping_none [OF wl(2) rok] parts rgn_base_in [OF rok] unfolding same by blast
  have "yields broadcast body (\<lambda>(ok, st'). post c r st1 (if ok then ?A else vmpu_attrs ?as) st' \<and> (ok \<longleftrightarrow> ?apart))"
  proof (cases ?apart)
    case True
    have "yields broadcast body (\<lambda>(ok, st'). ok \<and> post c r st1 ?A st')"
      unfolding body_def if_P [OF over [THEN iffD2, OF True]]
      by (rule yields_mono [OF insert_fresh [OF wl(2) reg]]) (use True free rm wl(3) same in \<open>auto cong: if_cong\<close>)
    then show ?thesis by (rule yields_mono) (use True in auto)
  next
    case False
    then have "mem_vmpu_find_overlapping_region (ms_spaces st1 r) mpr \<noteq> None" using over by blast
    then have "body = Inr (False, st1)" unfolding body_def by (rule if_not_P)
    with False show ?thesis using post_refl [OF wl(2)] by (simp add: same)
  qed
  then show ?thesis
    unfolding eq
  proof (rule yields_obind, goal_cases)
    case (1 x)
    obtain ok st3 where x: "x = (ok, st3)" by (metis surj_pair)
    note 1 [unfolded x prod.case]
    then have p3: "post c r st1 (if ok then ?A else vmpu_attrs ?as) st3" and ok: "ok \<longleftrightarrow> ?apart" by (rule conjunct1, rule conjunct2)
    show ?case
      unfolding x prod.case
      by (rule yields_obind [OF coalesce_if [OF p3]], unfold yields_Inr prod.case wl(6), intro conjI impI)
        (use ok wl(5) in blast)+
  qed
qed

end

end
