(* ===== verification/Vmpu_Unmap.thy ===== *)
theory Vmpu_Unmap
  imports Vmpu_Map
begin

text \<open>
  Unmapping under the contract of the physical MPU: the entry that contains the range is removed and
  what it has below and above the range is inserted again, so that exactly the range is unmapped. A
  range that no single entry contains is left as it is.
\<close>

section \<open>Cutting a range out of a region\<close>

lemma cut_region:
  assumes reg: "rgn_ok reg" and gap: "rgn_ok gap" and sub: "rgn_addrs gap \<subseteq> rgn_addrs reg"
  defines "limit \<equiv> mr_base gap + mr_size gap" and "r_limit \<equiv> mr_base reg + mr_size reg"
  defines "t \<equiv> (if limit \<ge> r_limit then 0 else r_limit - limit)"
    and "b \<equiv> (if mr_base gap \<le> mr_base reg then 0 else mr_base gap - mr_base reg)"
  shows "unat limit = unat (mr_base gap) + unat (mr_size gap)"
    and "unat t = unat (mr_base reg) + unat (mr_size reg) - (unat (mr_base gap) + unat (mr_size gap))"
    and "unat b = unat (mr_base gap) - unat (mr_base reg)"
    and "addrs limit t \<union> rgn_addrs gap \<union> addrs (mr_base reg) b = rgn_addrs reg"
    and "addrs limit t \<inter> rgn_addrs gap = {}" and "addrs (mr_base reg) b \<inter> rgn_addrs gap = {}"
    and "addrs limit t \<inter> addrs (mr_base reg) b = {}"
    and "fits limit t" and "fits (mr_base reg) b" and "mr_size reg - t - b = mr_size gap"
proof -
  let ?rb = "unat (mr_base reg)" and ?rs = "unat (mr_size reg)" and ?cb = "unat (mr_base gap)" and ?cs = "unat (mr_size gap)"
  have f: "?rb + ?rs < 2 ^ 64" "?cb + ?cs < 2 ^ 64" "0 < ?cs" "0 < ?rs"
    using reg gap by (auto simp: rgn_ok_def fits_def word_less_nat_alt)
  have inside: "?rb \<le> ?cb" "?cb + ?cs \<le> ?rb + ?rs"
    using sub f(3) by (simp_all add: rgn_addrs_def addrs_def ivl_subset)
  show l: "unat limit = ?cb + ?cs" unfolding limit_def using f(2) by (intro unat_add_no_wrap) simp
  have r: "unat r_limit = ?rb + ?rs" unfolding r_limit_def using f(1) by (intro unat_add_no_wrap) simp
  show t: "unat t = ?rb + ?rs - (?cb + ?cs)"
    using l r by (auto simp: t_def word_le_nat_alt unat_sub)
  show b: "unat b = ?cb - ?rb"
    by (auto simp: b_def word_le_nat_alt unat_sub)
  show "addrs limit t \<union> rgn_addrs gap \<union> addrs (mr_base reg) b = rgn_addrs reg"
    using inside by (auto simp: addrs_def rgn_addrs_def l t b)
  show "addrs limit t \<inter> rgn_addrs gap = {}" "addrs (mr_base reg) b \<inter> rgn_addrs gap = {}"
    "addrs limit t \<inter> addrs (mr_base reg) b = {}"
    using inside by (auto simp: addrs_def rgn_addrs_def l t b)
  show "fits limit t" "fits (mr_base reg) b" using f inside by (auto simp: fits_def l t b)
  have "t \<le> mr_size reg" "b \<le> mr_size reg - t"
    using inside f by (auto simp: word_le_nat_alt t b unat_sub)
  then have "unat (mr_size reg - t - b) = ?cs"
    using inside by (simp add: unat_sub t b)
  then show "mr_size reg - t - b = mr_size gap" by (simp add: word_unat_eq_iff)
qed

lemma vmpu_attrs_empty: "vmpu_attrs as a = {} \<longleftrightarrow> (\<forall>j \<in> vmpu_valid as. a \<notin> rgn_addrs (vmpu_region as j))"
  by (auto simp: vmpu_attrs_def)

lemma vmpu_attrs_in:
  assumes "vmpu_ok as" and "i \<in> vmpu_valid as" and "a \<in> rgn_addrs (vmpu_region as i)"
  shows "vmpu_attrs as a = {mr_flags (vmpu_region as i)}"
proof -
  have "j = i" if "j \<in> vmpu_valid as" "a \<in> rgn_addrs (vmpu_region as j)" for j
    using vmpu_apart [OF assms(1) that(1) assms(2)] that(2) assms(3) by blast
  then show ?thesis using assms(2,3) unfolding vmpu_attrs_def by blast
qed

context mpu_contract
begin

lemma remove_region:
  assumes g: "good c r st" and i: "i \<in> vmpu_valid (ms_spaces st r)"
  shows "yields broadcast (mem_vmpu_remove_region K c r (Some i) broadcast st) (\<lambda>(ok, st'). ok \<and>
    post c r st (\<lambda>a. if a \<in> rgn_addrs (vmpu_region (ms_spaces st r) i) then {} else vmpu_attrs (ms_spaces st r) a) st' \<and>
    vmpu_free (ms_spaces st' r) = insert i (vmpu_free (ms_spaces st r)) \<and> room (ms_mpu st' c) = Suc (room (ms_mpu st c)))"
proof (rule yields_mono [OF remove_raw [OF good_parts(3,5) [OF g] i]], goal_cases)
  case 1
  show ?case using i good_parts(4) [OF g] by (auto simp: vmpu_regions_def)
next
  case (2 x)
  let ?as = "mem_vmpu_free_entry i (ms_spaces st r)"
  obtain st' m where x: "x = (True, st')" and mv: "moves c r st ?as m st'" and m: "inv c st m"
      "prog m = (prog (ms_mpu st c))(as_id (ms_spaces st r) :=
        vmpu_regions (ms_spaces st r) - {rgn_key (vmpu_region (ms_spaces st r) i)})"
      "room m = Suc (room (ms_mpu st c))"
    using 2 good_parts(4) [OF g] by (cases x) auto
  note fe = vmpu_free_entry [OF good_parts(1) [OF g] i]
  have "good c r st'"
    by (rule good_moves [OF g mv fe(6,7,1)]) (use m good_parts(2,6) [OF g] fe in simp_all)
  moreover have "only_space prog c r st st'" using m(2) by (intro moves_only [OF mv fe(6,7)]) simp
  ultimately show ?case using mv m(3) fe by (simp add: x post_def moves_def)
qed

text \<open>A piece of a removed region is inserted again, unless it is empty.\<close>

lemma insert_piece:
  assumes g: "good c r st" and reg: "0 < mr_size reg \<Longrightarrow> hw reg" and settled: "adjust (as_type (ms_spaces st r)) (mr_flags reg) = mr_flags reg"
    and free: "vmpu_free (ms_spaces st r) \<noteq> {}" and rm: "0 < room (ms_mpu st c)"
    and apart: "\<forall>a \<in> rgn_addrs reg. vmpu_attrs (ms_spaces st r) a = {}"
  shows "yields broadcast (if mr_size reg > 0 then
      obind (mem_vmpu_allocate_entry (ms_spaces st r)) (\<lambda>(mpid, as).
        mem_vmpu_insert_region K c r (Some mpid) reg broadcast locked (as_update r (\<lambda>_. as) st))
      else Inr (True, st)) (\<lambda>(ok, st'). ok \<and>
    post c r st (\<lambda>a. if a \<in> rgn_addrs reg then {mr_flags reg} else vmpu_attrs (ms_spaces st r) a) st' \<and>
    (\<exists>i. vmpu_free (ms_spaces st r) - {i} \<subseteq> vmpu_free (ms_spaces st' r)) \<and> room (ms_mpu st c) \<le> Suc (room (ms_mpu st' c)))"
proof (cases "mr_size reg > 0")
  case True
  have "\<forall>j \<in> vmpu_valid (ms_spaces st r). rgn_addrs reg \<inter> rgn_addrs (vmpu_region (ms_spaces st r) j) = {}"
    using apart unfolding vmpu_attrs_empty by blast
  note ins = insert_fresh [OF g reg [OF True] free rm this, of broadcast locked, unfolded settled]
  show ?thesis
    unfolding if_P [OF True]
  proof (rule yields_mono [OF ins], goal_cases)
    case (1 x)
    obtain ok st' where x: "x = (ok, st')" by (metis surj_pair)
    show ?case using 1 unfolding x prod.case by (metis order_refl)
  qed
next
  case False
  then have "rgn_addrs reg = {}" by (simp add: rgn_addrs_def addrs_def word_less_nat_alt)
  with False show ?thesis using post_refl [OF g] by auto
qed

lemma unmap_round:
  assumes g: "good c r st" and rm: "0 < room (ms_mpu st c)" and free: "vmpu_free (ms_spaces st r) \<noteq> {}"
    and gap: "rgn_ok gap" "unat (mpu_granularity (mk_ops K)) dvd unat (mr_base gap)" "unat (mpu_granularity (mk_ops K)) dvd unat (mr_size gap)"
    and gap_def: "gap = \<lparr>mr_base = vaddr, mr_size = size0, mr_flags = PTE_INVALID, mr_sec = SEC_UNKNOWN\<rparr>"
    and found: "mem_vmpu_find_overlapping_region (ms_spaces st r) gap = Some i"
  shows "yields broadcast (unmap_round K c r vaddr size0 broadcast st) (\<lambda>(res, st').
    res = Some (Some size0) \<and> post c r st (\<lambda>a. if a \<in> rgn_addrs gap then {} else vmpu_attrs (ms_spaces st r) a) st')"
proof -
  define as where "as = ms_spaces st r"
  define reg where "reg = vmpu_region as i"
  define limit where "limit = vaddr + size0"
  define r_limit where "r_limit = mr_base reg + mr_size reg"
  define t where "t = (if limit \<ge> r_limit then 0 else r_limit - limit)"
  define b where "b = (if vaddr \<le> mr_base reg then 0 else vaddr - mr_base reg)"
  define upper where "upper = reg\<lparr>mr_base := limit, mr_size := t\<rparr>"
  define lower where "lower = reg\<lparr>mr_size := b\<rparr>"
  let ?l = "mp_lock (as_node as i)"
  note gp = good_parts [OF g, folded as_def]
  have i: "i \<in> vmpu_valid as" and sub: "rgn_addrs gap \<subseteq> rgn_addrs reg"
    using overlapping_some [OF g gap(1) found] by (simp_all add: as_def reg_def)
  have hwr: "hw reg" and set_r: "adjust (as_type as) (mr_flags reg) = mr_flags reg"
    using gp(2,6) [OF i] by (simp_all add: reg_def)
  have rok: "rgn_ok reg" using hwr by (simp add: hw_region_def)
  have cs: "mr_base gap = vaddr" "mr_size gap = size0" by (simp_all add: gap_def)
  note cr = cut_region [OF rok gap(1) sub, unfolded cs, folded limit_def r_limit_def, folded t_def b_def]
  have adr: "rgn_addrs upper = addrs limit t" "rgn_addrs lower = addrs (mr_base reg) b"
    by (simp_all add: rgn_addrs_def upper_def lower_def)
  have flg: "mr_flags upper = mr_flags reg" "mr_flags lower = mr_flags reg" "mr_size upper = t" "mr_size lower = b"
    by (simp_all add: upper_def lower_def)
  have hwu: "hw upper" if "0 < mr_size upper"
    using that hwr gap(2,3) cr(1,2,8) by (simp add: hw_region_def rgn_ok_def upper_def cs)
  have hwl: "hw lower" if "0 < mr_size lower"
    using that hwr gap(2,3) cr(3,9) by (simp add: hw_region_def rgn_ok_def lower_def cs)
  have eq: "unmap_round K c r vaddr size0 broadcast st =
      obind (mem_vmpu_remove_region K c r (Some i) broadcast st) (\<lambda>(_, st).
      obind (if mr_size upper > 0 then
               obind (mem_vmpu_allocate_entry (ms_spaces st r)) (\<lambda>(mpid, as).
                 mem_vmpu_insert_region K c r (Some mpid) upper broadcast ?l (as_update r (\<lambda>_. as) st))
             else Inr (True, st)) (\<lambda>(ok, st).
      if \<not> ok then Inr (Some None, st)
      else obind (if mr_size lower > 0 then
               obind (mem_vmpu_allocate_entry (ms_spaces st r)) (\<lambda>(mpid, as).
                 mem_vmpu_insert_region K c r (Some mpid) lower broadcast ?l (as_update r (\<lambda>_. as) st))
             else Inr (True, st)) (\<lambda>(ok, st).
        if \<not> ok then Inr (Some None, st) else Inr (Some (Some (mr_size reg - t - b)), st))))"
    using found unfolding gap_def unmap_round_def Let_def upper_def lower_def t_def b_def limit_def r_limit_def reg_def as_def
    by (simp cong: if_cong)
  let ?A1 = "\<lambda>a. if a \<in> rgn_addrs reg then {} else vmpu_attrs as a"
  let ?A2 = "\<lambda>a. if a \<in> rgn_addrs upper then {mr_flags reg} else ?A1 a"
  let ?A3 = "\<lambda>a. if a \<in> rgn_addrs lower then {mr_flags reg} else ?A2 a"
  have A3: "?A3 = (\<lambda>a. if a \<in> rgn_addrs gap then {} else vmpu_attrs as a)"
  proof
    fix a
    show "?A3 a = (if a \<in> rgn_addrs gap then {} else vmpu_attrs as a)"
      using cr(4-7) vmpu_attrs_in [OF gp(1) i, of a] unfolding adr reg_def [symmetric] by auto
  qed
  show ?thesis
    unfolding eq
  proof (rule yields_obind [OF remove_region [OF g i [unfolded as_def]]], goal_cases)
    case (1 x)
    obtain ok1 st1 where x: "x = (ok1, st1)" by (metis surj_pair)
    have p1: "post c r st ?A1 st1" and f1: "vmpu_free (ms_spaces st1 r) = insert i (vmpu_free as)" and r1: "room (ms_mpu st1 c) = Suc (room (ms_mpu st c))"
      using 1 unfolding x prod.case as_def reg_def by blast+
    have g1: "good c r st1" and a1: "vmpu_attrs (ms_spaces st1 r) = ?A1" and t1: "as_type (ms_spaces st1 r) = as_type as"
      using p1 by (simp_all add: post_def only_space_def as_def)
    have i_free: "i \<notin> vmpu_free as" using i by (simp add: vmpu_free_def vmpu_valid_def)
    show ?case
      unfolding x prod.case
    proof (rule yields_obind [OF insert_piece [OF g1 hwu]], goal_cases)
      case (6 y)
      obtain ok2 st2 where y: "y = (ok2, st2)" by (metis surj_pair)
      have ok2: "ok2" and p2: "post c r st1 ?A2 st2"
        and r2: "room (ms_mpu st1 c) \<le> Suc (room (ms_mpu st2 c))"
        using 6 unfolding y prod.case flg a1 by blast+
      obtain k where k: "vmpu_free (ms_spaces st1 r) - {k} \<subseteq> vmpu_free (ms_spaces st2 r)"
        using 6 unfolding y prod.case by blast
      have f2: "vmpu_free (ms_spaces st2 r) \<noteq> {}" using k f1 i_free free unfolding as_def by blast
      have g2: "good c r st2" and a2: "vmpu_attrs (ms_spaces st2 r) = ?A2" and t2: "as_type (ms_spaces st2 r) = as_type as"
        using p2 t1 by (simp_all add: post_def only_space_def)
      have "yields broadcast (if mr_size lower > 0 then
               obind (mem_vmpu_allocate_entry (ms_spaces st2 r)) (\<lambda>(mpid, as).
                 mem_vmpu_insert_region K c r (Some mpid) lower broadcast ?l (as_update r (\<lambda>_. as) st2))
             else Inr (True, st2)) (\<lambda>(ok, st3). ok \<and> post c r st2 ?A3 st3)"
      proof (rule yields_mono [OF insert_piece [OF g2 hwl _ f2]], goal_cases)
        case (5 z)
        obtain ok3 st3 where z: "z = (ok3, st3)" by (metis surj_pair)
        show ?case using 5 unfolding z prod.case flg a2 by blast
      qed (use flg set_r t2 r1 r2 rm a2 cr(4,7) adr in auto)
      moreover have "(\<not> ok2) = False" using ok2 by simp
      ultimately show ?case
        unfolding y prod.case
      proof (simp only: if_False, elim yields_obind, goal_cases)
        case (1 z)
        obtain ok3 st3 where z: "z = (ok3, st3)" by (metis surj_pair)
        have "post c r st ?A3 st3" "ok3"
          using 1 post_trans [OF post_trans [OF p1 p2]] unfolding z prod.case by blast+
        then have "post c r st (\<lambda>a. if a \<in> rgn_addrs gap then {} else vmpu_attrs (ms_spaces st r) a) st3" "ok3"
          unfolding A3 unfolding as_def .
        then show ?case unfolding z cr(10) by simp
      qed
    qed (use flg set_r t1 r1 f1 a1 cr(4) adr in auto)
  qed
qed

text \<open>
  One round removes the whole range, so that the loop ends after it; \<open>size_left\<close> never wraps.
\<close>

lemma unmap_range:
  assumes g: "good c r st" and lk: "\<not> as_lock (ms_spaces st r)" and rm: "0 < room (ms_mpu st c)" and free: "vmpu_free (ms_spaces st r) \<noteq> {}"
    and sz: "fits vaddr size0" "0 < size0"
    and al: "unat (mpu_granularity (mk_ops K)) dvd unat vaddr" "unat (mpu_granularity (mk_ops K)) dvd unat size0"
  shows "yields broadcast (mem_unmap_range K c r vaddr size0 broadcast st) (\<lambda>(ok, st').
    post c r st (if ok then (\<lambda>a. if a \<in> addrs vaddr size0 then {} else vmpu_attrs (ms_spaces st r) a) else vmpu_attrs (ms_spaces st r)) st' \<and>
    (ok \<longleftrightarrow> (\<exists>i \<in> vmpu_valid (ms_spaces st r). addrs vaddr size0 \<subseteq> rgn_addrs (vmpu_region (ms_spaces st r) i))))"
proof -
  define gap where "gap = \<lparr>mr_base = vaddr, mr_size = size0, mr_flags = PTE_INVALID, mr_sec = SEC_UNKNOWN\<rparr>"
  have gap: "rgn_ok gap" "rgn_addrs gap = addrs vaddr size0" "mr_base gap = vaddr" "mr_size gap = size0"
    using sz by (simp_all add: gap_def rgn_ok_def rgn_addrs_def)
  define st1 where "st1 = as_update r (\<lambda>as. as\<lparr>as_lock := True\<rparr>) st"
  note wl = with_lock [OF g lk, folded st1_def]
  have same: "vmpu_valid (ms_spaces st1 r) = vmpu_valid (ms_spaces st r)" "vmpu_free (ms_spaces st1 r) = vmpu_free (ms_spaces st r)"
    "vmpu_attrs (ms_spaces st1 r) = vmpu_attrs (ms_spaces st r)" "vmpu_region (ms_spaces st1 r) i = vmpu_region (ms_spaces st r) i" for i
    by (simp_all add: wl(4) vmpu_lock_same)
  have eq: "mem_unmap_range K c r vaddr size0 broadcast st =
      (case unmap_loop K c r vaddr size0 broadcast size0 st1 of None \<Rightarrow> Inl NO_RETURN | Some res \<Rightarrow> res)"
    by (simp add: mem_unmap_range_def wl(1))
  show ?thesis
  proof (cases "mem_vmpu_find_overlapping_region (ms_spaces st1 r) gap")
    case None
    then have "unmap_round K c r vaddr size0 broadcast st1 = Inr (None, st1)" by (simp add: unmap_round_def gap_def)
    then have "mem_unmap_range K c r vaddr size0 broadcast st = Inr (False, spin_unlock r st1)"
      using sz unfolding eq by (subst unmap_loop.simps) auto
    moreover have "\<not> (\<exists>i \<in> vmpu_valid (ms_spaces st r). addrs vaddr size0 \<subseteq> rgn_addrs (vmpu_region (ms_spaces st r) i))"
      using None overlapping_none [OF wl(2) gap(1)] unfolding same gap(2) by blast
    ultimately show ?thesis using wl(5) [OF post_refl [OF wl(2)]] by (simp add: same)
  next
    case (Some i)
    have mem: "\<exists>i \<in> vmpu_valid (ms_spaces st r). addrs vaddr size0 \<subseteq> rgn_addrs (vmpu_region (ms_spaces st r) i)"
      using overlapping_some [OF wl(2) gap(1) Some] unfolding same gap(2) by blast
    have rnd: "yields broadcast (unmap_round K c r vaddr size0 broadcast st1) (\<lambda>(res, st').
        res = Some (Some size0) \<and> post c r st1 (\<lambda>a. if a \<in> addrs vaddr size0 then {} else vmpu_attrs (ms_spaces st r) a) st')"
      using unmap_round [OF wl(2) _ _ gap(1) _ _ gap_def Some, of broadcast] rm free al unfolding same gap wl(3) by blast
    show ?thesis
    proof (cases "unmap_round K c r vaddr size0 broadcast st1")
      case (Inl e)
      then have "mem_unmap_range K c r vaddr size0 broadcast st = Inl e"
        using sz unfolding eq by (subst unmap_loop.simps) simp
      with rnd Inl show ?thesis by (simp add: yields_def)
    next
      case (Inr x)
      obtain res st2 where x: "x = (res, st2)" by (metis surj_pair)
      have r2: "res = Some (Some size0)" and p2: "post c r st1 (\<lambda>a. if a \<in> addrs vaddr size0 then {} else vmpu_attrs (ms_spaces st r) a) st2"
        using rnd unfolding Inr x yields_Inr prod.case by blast+
      have "mem_unmap_range K c r vaddr size0 broadcast st = Inr (True, spin_unlock r st2)"
        using sz Inr unfolding eq x r2 by (subst unmap_loop.simps, subst unmap_loop.simps) simp
      with mem wl(5) [OF p2] show ?thesis by simp
    qed
  qed
qed

end

end
