(* ===== verification/Mpu.thy ===== *)
theory Mpu
  imports Vmpu_Unmap
begin

text \<open>
  The physical MPU of an Armv8-R processor, \<open>src/src/arch/armv8/armv8-r/mpu.c\<close>: the bitmaps of
  allocated and locked entries, the address space of each entry, the masks of the entries enabled
  for the hypervisor and for the running virtual processor, and the base and limit registers. It
  provides the contract \<open>mpu_contract\<close> of the virtual MPU.
\<close>

section \<open>State\<close>

definition MPU_ARCH_MAX_NUM_ENTRIES :: nat where "MPU_ARCH_MAX_NUM_ENTRIES = 64"

text \<open>
  \<open>struct mpu_arch\<close>, the mask of the virtual processor this processor runs
  (\<open>cpu()->vcpu->arch.mpu_entry_mask\<close>) and the registers that \<open>prselr_el2\<close> selects. A mask is an
  \<open>unsigned long\<close> that the code reads and writes as a bitmap.
\<close>

record mpu_arch =
  ma_allocated_entries :: bitmap
  ma_locked_entries :: bitmap
  ma_entry_asid :: "nat \<Rightarrow> u64"
  ma_entry_mask :: bitmap
  ma_vcpu_mask :: bitmap
  prbar_el2 :: "nat \<Rightarrow> u64"
  prlar_el2 :: "nat \<Rightarrow> u64"

definition INVALID_ASID :: u64 where "INVALID_ASID = - 1"

definition PRBAR_FLAGS_MSK :: u64 where "PRBAR_FLAGS_MSK = 0x3F"
definition PRBAR_BASE_MSK :: u64 where "PRBAR_BASE_MSK = NOT PRBAR_FLAGS_MSK"
definition PRBAR_BASE :: "u64 \<Rightarrow> u64" where "PRBAR_BASE base = base AND PRBAR_BASE_MSK"
definition PRLAR_LIMIT_MSK :: u64 where "PRLAR_LIMIT_MSK = NOT PRBAR_FLAGS_MSK"
definition PRLAR_EN :: u64 where "PRLAR_EN = 1"

definition PTE_FLAGS :: "16 word \<Rightarrow> 16 word \<Rightarrow> mem_flags" where
  "PTE_FLAGS prbar prlar = \<lparr>mf_prbar = prbar, mf_prlar = prlar\<rparr>"

section \<open>Operations\<close>

definition mpu_get_region_base :: "nat \<Rightarrow> mpu_arch \<Rightarrow> u64" where
  "mpu_get_region_base mpid m = PRBAR_BASE (prbar_el2 m mpid)"

definition mpu_find_region :: "mp_region \<Rightarrow> u64 \<Rightarrow> mpu_arch \<Rightarrow> nat option" where
  "mpu_find_region mpr asid m =
     find (\<lambda>i. bitmap_get (ma_allocated_entries m) i \<noteq> 0 \<and> mpu_get_region_base i m = mr_base mpr \<and> ma_entry_asid m i = asid)
       [0..<MPU_ARCH_MAX_NUM_ENTRIES]"

text \<open>When no entry is free, the number is \<open>-1\<close>, and the bitmap and the array are written there.\<close>

definition mpu_entry_allocate :: "u64 \<Rightarrow> mpu_arch \<Rightarrow> (nat \<times> mpu_arch) outcome" where
  "mpu_entry_allocate asid m =
     (let reg_num = bitmap_find_nth (ma_allocated_entries m) MPU_ARCH_MAX_NUM_ENTRIES 1 0 BITMAP_NOT_SET
      in if reg_num < 0 then Inl OUT_OF_BOUNDS
         else Inr (nat reg_num, m\<lparr>ma_allocated_entries := bitmap_set (ma_allocated_entries m) (nat reg_num),
                ma_entry_asid := (ma_entry_asid m)(nat reg_num := asid)\<rparr>))"

definition mpu_entry_deallocate :: "nat \<Rightarrow> mpu_arch \<Rightarrow> mpu_arch" where
  "mpu_entry_deallocate mpid m =
     m\<lparr>ma_allocated_entries := bitmap_clear (ma_allocated_entries m) mpid,
       ma_entry_asid := (ma_entry_asid m)(mpid := INVALID_ASID)\<rparr>"

definition mpu_entry_lock :: "nat \<Rightarrow> mpu_arch \<Rightarrow> mpu_arch" where
  "mpu_entry_lock mpid m = m\<lparr>ma_locked_entries := bitmap_set (ma_locked_entries m) mpid\<rparr>"

definition mpu_entry_unlock :: "nat \<Rightarrow> mpu_arch \<Rightarrow> mpu_arch" where
  "mpu_entry_unlock mpid m = m\<lparr>ma_locked_entries := bitmap_clear (ma_locked_entries m) mpid\<rparr>"

definition prlar_value :: "mp_region \<Rightarrow> u64" where
  "prlar_value mpr = ((mr_base mpr + mr_size mpr - 1) AND PRLAR_LIMIT_MSK) OR ucast (mf_prlar (mr_flags mpr))"

definition mpu_entry_set :: "nat \<Rightarrow> mp_region \<Rightarrow> mpu_arch \<Rightarrow> mpu_arch" where
  "mpu_entry_set mpid mpr m =
     m\<lparr>prbar_el2 := (prbar_el2 m)(mpid := (mr_base mpr AND PRBAR_BASE_MSK) OR ucast (mf_prbar (mr_flags mpr))),
       prlar_el2 := (prlar_el2 m)(mpid := prlar_value mpr)\<rparr>"

definition mpu_entry_update_limit :: "nat \<Rightarrow> mp_region \<Rightarrow> mpu_arch \<Rightarrow> mpu_arch" where
  "mpu_entry_update_limit mpid mpr m = m\<lparr>prlar_el2 := (prlar_el2 m)(mpid := prlar_value mpr)\<rparr>"

definition mpu_entry_clear :: "nat \<Rightarrow> mpu_arch \<Rightarrow> mpu_arch" where
  "mpu_entry_clear mpid m = m\<lparr>prlar_el2 := (prlar_el2 m)(mpid := 0), prbar_el2 := (prbar_el2 m)(mpid := 0)\<rparr>"

datatype mpu_mask = CPU_MASK | VCPU_MASK

definition mask_update :: "mpu_mask \<Rightarrow> (bitmap \<Rightarrow> bitmap) \<Rightarrow> mpu_arch \<Rightarrow> mpu_arch" where
  "mask_update w f m =
     (case w of CPU_MASK \<Rightarrow> m\<lparr>ma_entry_mask := f (ma_entry_mask m)\<rparr> | VCPU_MASK \<Rightarrow> m\<lparr>ma_vcpu_mask := f (ma_vcpu_mask m)\<rparr>)"

text \<open>A processor without a virtual processor reads through a null pointer.\<close>

definition find_mpu_mask_by_asid :: "u64 \<Rightarrow> u64 option \<Rightarrow> u64 \<Rightarrow> mpu_mask option outcome" where
  "find_mpu_mask_by_asid h_id g_id i =
     (if h_id = i then Inr (Some CPU_MASK)
      else case g_id of None \<Rightarrow> Inl NULL_DEREF | Some g \<Rightarrow> Inr (if g = i then Some VCPU_MASK else None))"

definition prlar_adjust :: "AS_TYPE \<Rightarrow> mem_flags \<Rightarrow> mem_flags" where
  "prlar_adjust ty f =
     (if ty = AS_VM then f\<lparr>mf_prlar := mf_prlar f AND NOT (ucast PRLAR_EN)\<rparr>
      else if ty = AS_HYP \<or> ty = AS_HYP_CPY then f\<lparr>mf_prlar := mf_prlar f OR ucast PRLAR_EN\<rparr>
      else f)"

definition armv8r_mpu_map ::
    "u64 \<Rightarrow> u64 option \<Rightarrow> u64 \<Rightarrow> AS_TYPE \<Rightarrow> mp_region \<Rightarrow> bool \<Rightarrow> mpu_arch \<Rightarrow> (bool \<times> mp_region \<times> mpu_arch) outcome" where
  "armv8r_mpu_map h_id g_id i ty mpr locked m =
     (if mr_size mpr = 0 then Inr (False, mpr, m)
      else
        obind (mpu_entry_allocate i m) (\<lambda>(mpid, m).
          let m = (if locked then mpu_entry_lock mpid m else m)
          in obind (find_mpu_mask_by_asid h_id g_id i) (\<lambda>mask.
               case mask of
                 None \<Rightarrow> Inr (False, mpr, m)
               | Some w \<Rightarrow>
                   (let m = mask_update w (\<lambda>b. bitmap_set b mpid) m;
                        mpr = mpr\<lparr>mr_flags := prlar_adjust ty (mr_flags mpr)\<rparr>
                    in Inr (True, mpr, mpu_entry_set mpid mpr m)))))"

definition armv8r_mpu_unmap :: "u64 \<Rightarrow> u64 option \<Rightarrow> u64 \<Rightarrow> mp_region \<Rightarrow> mpu_arch \<Rightarrow> (bool \<times> mpu_arch) outcome" where
  "armv8r_mpu_unmap h_id g_id i mpr m =
     (case mpu_find_region mpr i m of
        None \<Rightarrow> Inr (True, m)
      | Some mpid \<Rightarrow>
          (let m = mpu_entry_clear mpid (mpu_entry_unlock mpid (mpu_entry_deallocate mpid m))
           in obind (find_mpu_mask_by_asid h_id g_id i) (\<lambda>mask.
                case mask of None \<Rightarrow> Inr (False, m) | Some w \<Rightarrow> Inr (True, mask_update w (\<lambda>b. bitmap_clear b mpid) m))))"

definition armv8r_mpu_update :: "u64 \<Rightarrow> mp_region \<Rightarrow> mpu_arch \<Rightarrow> bool \<times> mpu_arch" where
  "armv8r_mpu_update i mpr m =
     (case mpu_find_region mpr i m of
        None \<Rightarrow> (False, m)
      | Some mpid \<Rightarrow> (True, mpu_entry_update_limit mpid mpr m))"

definition armv8r_mpu_perms_compatible :: "u64 \<Rightarrow> u64 \<Rightarrow> bool" where
  "armv8r_mpu_perms_compatible perms1 perms2 = (perms1 = perms2)"

definition armv8r_mpu_granularity :: u64 where
  "armv8r_mpu_granularity = PAGE_SIZE"

definition armv8r_mpu_init :: "mpu_arch \<Rightarrow> mpu_arch" where
  "armv8r_mpu_init m =
     fold (\<lambda>mpid m. m\<lparr>ma_allocated_entries := bitmap_clear (ma_allocated_entries m) mpid,
         ma_locked_entries := bitmap_clear (ma_locked_entries m) mpid,
         ma_entry_asid := (ma_entry_asid m)(mpid := INVALID_ASID)\<rparr>) [0..<MPU_ARCH_MAX_NUM_ENTRIES] m"

definition armv8r_mpu_ops :: "mpu_arch mpu_ops" where
  "armv8r_mpu_ops = \<lparr>mpu_map = armv8r_mpu_map, mpu_unmap = armv8r_mpu_unmap, mpu_update = armv8r_mpu_update,
     mpu_perms_compatible = armv8r_mpu_perms_compatible, mpu_granularity = armv8r_mpu_granularity\<rparr>"

definition armv8r_params :: "nat \<Rightarrow> u32 \<Rightarrow> mpu_arch mps_params" where
  "armv8r_params cpus handler = \<lparr>mk_ops = armv8r_mpu_ops, PLAT_CPU_NUM = cpus, MEM_PROT_SYNC = handler\<rparr>"

section \<open>What the registers mean\<close>

text \<open>The region of an entry, read back from its registers.\<close>

definition entry_region :: "mpu_arch \<Rightarrow> nat \<Rightarrow> u64 \<times> u64 \<times> mem_flags" where
  "entry_region m i =
     (PRBAR_BASE (prbar_el2 m i), (prlar_el2 m i AND PRLAR_LIMIT_MSK) + 64 - PRBAR_BASE (prbar_el2 m i),
      PTE_FLAGS (ucast (prbar_el2 m i AND PRBAR_FLAGS_MSK)) (ucast (prlar_el2 m i AND PRBAR_FLAGS_MSK)))"

definition armv8r_entries :: "mpu_arch \<Rightarrow> u64 \<Rightarrow> nat set" where
  "armv8r_entries m asid = {i. i < MPU_ARCH_MAX_NUM_ENTRIES \<and> bm (ma_allocated_entries m) i \<and> ma_entry_asid m i = asid}"

definition armv8r_prog :: "mpu_arch \<Rightarrow> mpu_view" where
  "armv8r_prog m asid = entry_region m ` armv8r_entries m asid"

definition armv8r_room :: "mpu_arch \<Rightarrow> nat" where
  "armv8r_room m = card {i. i < MPU_ARCH_MAX_NUM_ENTRIES \<and> \<not> bm (ma_allocated_entries m) i}"

definition armv8r_flags_ok :: "mem_flags \<Rightarrow> bool" where
  "armv8r_flags_ok f \<longleftrightarrow> mf_prbar f AND NOT 63 = 0 \<and> mf_prlar f AND NOT 63 = 0"

text \<open>
  Entries of one address space have different bases, the masks name the entries of the hypervisor
  and of the running machine, and only allocated entries are locked.
\<close>

definition armv8r_invar :: "u64 \<Rightarrow> u64 option \<Rightarrow> mpu_arch \<Rightarrow> bool" where
  "armv8r_invar h_id g_id m \<longleftrightarrow>
     (\<forall>a. inj_on (\<lambda>i. PRBAR_BASE (prbar_el2 m i)) (armv8r_entries m a)) \<and>
     {i. i < MPU_ARCH_MAX_NUM_ENTRIES \<and> bm (ma_entry_mask m) i} = armv8r_entries m h_id \<and>
     (\<forall>g. g_id = Some g \<and> g \<noteq> h_id \<longrightarrow>
        {i. i < MPU_ARCH_MAX_NUM_ENTRIES \<and> bm (ma_vcpu_mask m) i} = armv8r_entries m g) \<and>
     (\<forall>i < MPU_ARCH_MAX_NUM_ENTRIES. bm (ma_locked_entries m) i \<longrightarrow> bm (ma_allocated_entries m) i)"

section \<open>Register arithmetic\<close>

lemma msk_defs: "PRBAR_BASE_MSK = NOT 63" "PRLAR_LIMIT_MSK = NOT 63" "PRBAR_FLAGS_MSK = 63"
  by (simp_all add: PRBAR_BASE_MSK_def PRLAR_LIMIT_MSK_def PRBAR_FLAGS_MSK_def)

lemma and_63_dvd: "(w :: u64) AND 63 = 0 \<longleftrightarrow> 64 dvd unat w"
proof -
  have "w AND 63 = w mod 64"
    using take_bit_eq_mask [of 6 w] take_bit_eq_mod [of 6 w] by (simp add: mask_numeral)
  then show ?thesis by (simp add: word_unat_eq_iff unat_mod dvd_eq_mod_eq_0)
qed

lemma split_low_mask:
  fixes x y msk :: u64
  assumes "x AND msk = 0" and "y AND NOT msk = 0"
  shows "x AND NOT msk = x" and "y AND msk = y" and "(x AND NOT msk OR y) AND NOT msk = x" and "(x AND NOT msk OR y) AND msk = y"
proof -
  have eq: "(w AND msk) OR (w AND NOT msk) = w" for w :: u64
    by (simp add: bit_eq_iff bit_and_iff bit_or_iff bit_not_iff) blast
  show x: "x AND NOT msk = x" using eq [of x] assms(1) by simp
  show y: "y AND msk = y" using eq [of y] assms(2) by simp
  show "(x AND NOT msk OR y) AND NOT msk = x" "(x AND NOT msk OR y) AND msk = y"
    unfolding x bit.conj_disj_distrib2 using x y assms by simp_all
qed

lemmas split_low = split_low_mask [of _ 63, simplified]

lemma flags_low:
  fixes p :: "16 word"
  assumes "p AND NOT 63 = 0"
  shows "(ucast p :: u64) AND - 64 = 0" and "ucast (ucast p :: u64) = p"
proof -
  have m: "NOT (mask 6) = (- 64 :: 16 word)" "NOT (mask 6) = (- 64 :: u64)" by (simp_all add: mask_numeral)
  have p0: "p AND NOT (mask 6) = 0" using assms by (simp add: m)
  have p: "\<not> bit p n" if "6 \<le> n" for n
  proof (cases "n < 16")
    case True
    have "bit (p AND NOT (mask 6)) n \<longleftrightarrow> bit p n" using True that by (simp add: bit_and_iff bit_not_iff bit_mask_iff)
    with p0 show ?thesis by simp
  next
    case False
    then show ?thesis using bit_imp_le_length [of p n] by auto
  qed
  have "(ucast p :: u64) AND NOT (mask 6) = 0"
    by (rule bit_word_eqI) (use p in \<open>auto simp: bit_and_iff bit_not_iff bit_mask_iff bit_ucast_iff not_less [symmetric]\<close>)
  then show "(ucast p :: u64) AND - 64 = 0" by (simp add: m)
  show "ucast (ucast p :: u64) = p" by (rule bit_word_eqI) (simp add: bit_ucast_iff)
qed

lemma limit_value:
  assumes "fits base sz" and "0 < sz" and "64 dvd unat base" and "64 dvd unat sz"
  shows "(base + sz - 1) AND - 64 = base + sz - 64" and "(base + sz - 64) AND 63 = 0"
proof -
  have b: "unat base + unat sz < 2 ^ 64" and p: "64 \<le> unat sz"
    using assms by (auto simp: fits_def word_less_nat_alt dvd_def)
  have u: "unat (base + sz) = unat base + unat sz" using b by (intro unat_add_no_wrap) simp
  have e: "unat (base + sz - 64) = unat base + unat sz - 64"
    using u p by (subst unat_sub) (simp_all add: word_le_nat_alt)
  then have "64 dvd unat (base + sz - 64)" using assms(3,4) by (simp add: dvd_diff_nat)
  then show low: "(base + sz - 64) AND 63 = 0" by (simp add: and_63_dvd)
  have "base + sz - 1 = (base + sz - 64) + 63" by simp
  also have "\<dots> = (base + sz - 64) OR 63" using low by (simp add: disjunctive_add_eq_or)
  also have "\<dots> AND - 64 = base + sz - 64"
    unfolding bit.conj_disj_distrib2 using split_low(1) [OF low, of 0] by simp
  finally show "(base + sz - 1) AND - 64 = base + sz - 64" .
qed

text \<open>What was written is what is read back.\<close>

lemma prlar_value_parts:
  assumes "hw_region armv8r_mpu_granularity armv8r_flags_ok reg"
  shows "prlar_value reg AND PRLAR_LIMIT_MSK = mr_base reg + mr_size reg - 64"
    and "ucast (prlar_value reg AND PRBAR_FLAGS_MSK) = mf_prlar (mr_flags reg)"
proof -
  have d: "64 dvd unat (mr_base reg)" "64 dvd unat (mr_size reg)"
    using assms by (auto simp: hw_region_def armv8r_mpu_granularity_def PAGE_SIZE_def elim: dvd_trans [rotated])
  have l: "(mr_base reg + mr_size reg - 1) AND - 64 = mr_base reg + mr_size reg - 64"
    "(mr_base reg + mr_size reg - 64) AND 63 = 0"
    using limit_value [OF _ _ d] assms by (simp_all add: hw_region_def rgn_ok_def)
  have f: "(ucast (mf_prlar (mr_flags reg)) :: u64) AND - 64 = 0" "ucast (ucast (mf_prlar (mr_flags reg)) :: u64) = mf_prlar (mr_flags reg)"
    using assms by (auto intro!: flags_low simp: hw_region_def armv8r_flags_ok_def)
  note sl = split_low [OF l(2) f(1)]
  have "prlar_value reg = (mr_base reg + mr_size reg - 64) AND - 64 OR ucast (mf_prlar (mr_flags reg))"
    by (simp add: prlar_value_def msk_defs l(1) sl(1))
  with sl f(2) show "prlar_value reg AND PRLAR_LIMIT_MSK = mr_base reg + mr_size reg - 64"
    and "ucast (prlar_value reg AND PRBAR_FLAGS_MSK) = mf_prlar (mr_flags reg)"
    by (simp_all add: msk_defs)
qed

lemma prbar_value_parts:
  assumes "hw_region armv8r_mpu_granularity armv8r_flags_ok reg"
  shows "((mr_base reg AND PRBAR_BASE_MSK) OR ucast (mf_prbar (mr_flags reg))) AND PRBAR_BASE_MSK = mr_base reg"
    and "ucast (((mr_base reg AND PRBAR_BASE_MSK) OR ucast (mf_prbar (mr_flags reg))) AND PRBAR_FLAGS_MSK) = mf_prbar (mr_flags reg)"
proof -
  have d: "64 dvd unat (mr_base reg)"
    using assms by (auto simp: hw_region_def armv8r_mpu_granularity_def PAGE_SIZE_def elim: dvd_trans [rotated])
  have f: "(ucast (mf_prbar (mr_flags reg)) :: u64) AND - 64 = 0" "ucast (ucast (mf_prbar (mr_flags reg)) :: u64) = mf_prbar (mr_flags reg)"
    using assms by (auto intro!: flags_low simp: hw_region_def armv8r_flags_ok_def)
  have b: "mr_base reg AND 63 = 0" using d by (simp add: and_63_dvd)
  note split_low [OF b f(1)] f(2)
  then show "((mr_base reg AND PRBAR_BASE_MSK) OR ucast (mf_prbar (mr_flags reg))) AND PRBAR_BASE_MSK = mr_base reg"
    and "ucast (((mr_base reg AND PRBAR_BASE_MSK) OR ucast (mf_prbar (mr_flags reg))) AND PRBAR_FLAGS_MSK) = mf_prbar (mr_flags reg)"
    by (simp_all add: msk_defs)
qed

lemma entry_region_set:
  assumes "hw_region armv8r_mpu_granularity armv8r_flags_ok reg"
  shows "entry_region (mpu_entry_set i reg m) j = (if j = i then rgn_key reg else entry_region m j)"
    and "PRBAR_BASE (prbar_el2 (mpu_entry_set i reg m) j) = (if j = i then mr_base reg else PRBAR_BASE (prbar_el2 m j))"
  using prlar_value_parts [OF assms] prbar_value_parts [OF assms]
  by (simp_all add: entry_region_def mpu_entry_set_def PRBAR_BASE_def rgn_key_def PTE_FLAGS_def)

lemma entry_region_update_limit:
  assumes "hw_region armv8r_mpu_granularity armv8r_flags_ok reg" and "entry_region m i = (mr_base reg, s, mr_flags reg)"
  shows "entry_region (mpu_entry_update_limit i reg m) j = (if j = i then rgn_key reg else entry_region m j)"
  using prlar_value_parts [OF assms(1)] assms(2)
  by (cases "mr_flags reg") (auto simp: entry_region_def mpu_entry_update_limit_def rgn_key_def PTE_FLAGS_def)

section \<open>The contract\<close>

lemma armv8r_entries_lt: "i \<in> armv8r_entries m asid \<Longrightarrow> i < 64"
  by (simp add: armv8r_entries_def MPU_ARCH_MAX_NUM_ENTRIES_def)

lemma find_region_some:
  assumes "armv8r_invar h_id g_id m" and "k \<in> armv8r_entries m i" and "PRBAR_BASE (prbar_el2 m k) = mr_base reg"
  shows "mpu_find_region reg i m = Some k"
proof -
  have inj: "inj_on (\<lambda>i. PRBAR_BASE (prbar_el2 m i)) (armv8r_entries m i)" using assms(1) by (simp add: armv8r_invar_def)
  have test: "bitmap_get (ma_allocated_entries m) j \<noteq> 0 \<and> mpu_get_region_base j m = mr_base reg \<and> ma_entry_asid m j = i \<longleftrightarrow>
      j \<in> armv8r_entries m i \<and> PRBAR_BASE (prbar_el2 m j) = mr_base reg" if "j < MPU_ARCH_MAX_NUM_ENTRIES" for j
    using that by (simp add: armv8r_entries_def mpu_get_region_base_def bm_simps) blast
  have k: "k < MPU_ARCH_MAX_NUM_ENTRIES" using assms(2) by (simp add: armv8r_entries_def)
  have "\<not> (bitmap_get (ma_allocated_entries m) j \<noteq> 0 \<and> mpu_get_region_base j m = mr_base reg \<and> ma_entry_asid m j = i)" if "j < k" for j
    using inj_onD [OF inj, of j k] test [of j] k assms(2,3) that by (metis less_trans less_irrefl)
  then show ?thesis
    unfolding mpu_find_region_def find_upt_eq_Some
    using test [OF k] assms(2,3) k by blast
qed

lemma entry_region_base: "fst (entry_region m i) = PRBAR_BASE (prbar_el2 m i)"
  by (simp add: entry_region_def)

lemma find_mask_known:
  assumes "mpu_known h_id g_id i"
  shows "find_mpu_mask_by_asid h_id g_id i = Inr (Some (if i = h_id then CPU_MASK else VCPU_MASK))"
  using assms by (auto simp: mpu_known_def find_mpu_mask_by_asid_def)

lemma prlar_adjust_ok:
  assumes "armv8r_flags_ok f"
  shows "armv8r_flags_ok (prlar_adjust ty f)"
proof -
  have o: "(p OR 1) AND NOT 63 = 0" if "p AND NOT 63 = (0 :: 16 word)" for p
  proof -
    have "(p OR 1) AND NOT 63 = (p AND NOT 63) OR (1 AND NOT 63)" by (rule bit.conj_disj_distrib2)
    then show ?thesis using that by simp
  qed
  have a: "(p AND NOT 1) AND NOT 63 = 0" if "p AND NOT 63 = (0 :: 16 word)" for p
  proof -
    have "(p AND NOT 1) AND NOT 63 = (p AND NOT 63) AND NOT 1" by (simp only: and.assoc and.commute [of "NOT 1"])
    then show ?thesis using that by simp
  qed
  show ?thesis
    using assms o [of "mf_prlar f"] a [of "mf_prlar f"] by (simp add: armv8r_flags_ok_def prlar_adjust_def PRLAR_EN_def)
qed

lemma prlar_adjust_idem: "prlar_adjust ty (prlar_adjust ty f) = prlar_adjust ty f"
  by (cases ty) (simp_all add: prlar_adjust_def PRLAR_EN_def and.assoc or.assoc)

lemma mf_raw_inj: "mf_raw f = mf_raw g \<longleftrightarrow> f = g"
proof
  assume eq: "mf_raw f = mf_raw g"
  have b: "bit (mf_raw h) n \<longleftrightarrow> bit (mf_prbar h) n" if "n < 16" for h n
    using that by (auto simp: mf_raw_def bit_or_iff bit_push_bit_iff bit_ucast_iff)
  have l: "bit (mf_raw h) (16 + n) \<longleftrightarrow> bit (mf_prlar h) n" if "n < 16" for h n
    using that bit_imp_le_length [of "mf_prbar h" "16 + n"] by (auto simp: mf_raw_def bit_or_iff bit_push_bit_iff bit_ucast_iff)
  have "mf_prbar f = mf_prbar g" by (rule bit_word_eqI) (use b [of _ f] b [of _ g] eq in simp)
  moreover have "mf_prlar f = mf_prlar g" by (rule bit_word_eqI) (use l [of _ f] l [of _ g] eq in simp)
  ultimately show "f = g" by (cases f, cases g) simp
qed simp

text \<open>An allocation gives an entry that was not allocated, if there is one.\<close>

lemma mpu_entry_allocate_room:
  assumes "0 < armv8r_room m"
  obtains k where "k < MPU_ARCH_MAX_NUM_ENTRIES" and "\<not> bm (ma_allocated_entries m) k"
    and "mpu_entry_allocate i m = Inr (k, m\<lparr>ma_allocated_entries := bitmap_set (ma_allocated_entries m) k,
                ma_entry_asid := (ma_entry_asid m)(k := i)\<rparr>)"
proof (cases rule: bitmap_find_first_cases [of "ma_allocated_entries m" MPU_ARCH_MAX_NUM_ENTRIES 0 BITMAP_NOT_SET])
  case none
  then have "{i. i < MPU_ARCH_MAX_NUM_ENTRIES \<and> \<not> bm (ma_allocated_entries m) i} = {}" by auto
  with assms show ?thesis by (simp add: armv8r_room_def)
next
  case (found k)
  then show ?thesis by (intro that [of k]) (simp_all add: mpu_entry_allocate_def Let_def)
qed

lemma armv8r_room_change:
  assumes "k < MPU_ARCH_MAX_NUM_ENTRIES"
  shows "\<not> bm (ma_allocated_entries m) k \<Longrightarrow> (\<And>i. bm (ma_allocated_entries m') i \<longleftrightarrow> bm (ma_allocated_entries m) i \<or> i = k) \<Longrightarrow>
      Suc (armv8r_room m') = armv8r_room m"
    and "bm (ma_allocated_entries m) k \<Longrightarrow> (\<And>i. bm (ma_allocated_entries m') i \<longleftrightarrow> bm (ma_allocated_entries m) i \<and> i \<noteq> k) \<Longrightarrow>
      armv8r_room m' = Suc (armv8r_room m)"
proof -
  let ?F = "\<lambda>m. {i. i < MPU_ARCH_MAX_NUM_ENTRIES \<and> \<not> bm (ma_allocated_entries m) i}"
  have fin: "finite (?F m)" for m by simp
  show "Suc (armv8r_room m') = armv8r_room m"
    if "\<not> bm (ma_allocated_entries m) k" "\<And>i. bm (ma_allocated_entries m') i \<longleftrightarrow> bm (ma_allocated_entries m) i \<or> i = k"
  proof -
    have "?F m = insert k (?F m')" "k \<notin> ?F m'" using that assms by auto
    then show ?thesis unfolding armv8r_room_def by (simp add: fin)
  qed
  show "armv8r_room m' = Suc (armv8r_room m)"
    if "bm (ma_allocated_entries m) k" "\<And>i. bm (ma_allocated_entries m') i \<longleftrightarrow> bm (ma_allocated_entries m) i \<and> i \<noteq> k"
  proof -
    have "?F m' = insert k (?F m)" "k \<notin> ?F m" using that assms by auto
    then show ?thesis unfolding armv8r_room_def by (simp add: fin)
  qed
qed

lemma armv8r_map_law:
  assumes inv: "armv8r_invar h_id g_id m" and known: "mpu_known h_id g_id i"
    and reg: "hw_region armv8r_mpu_granularity armv8r_flags_ok reg"
    and base: "\<forall>(b, s, f) \<in> armv8r_prog m i. b \<noteq> mr_base reg" and rm: "0 < armv8r_room m"
  shows "\<exists>m'. armv8r_mpu_map h_id g_id i ty reg l m = Inr (True, reg\<lparr>mr_flags := prlar_adjust ty (mr_flags reg)\<rparr>, m') \<and>
    armv8r_invar h_id g_id m' \<and>
    armv8r_prog m' = (armv8r_prog m)(i := insert (mr_base reg, mr_size reg, prlar_adjust ty (mr_flags reg)) (armv8r_prog m i)) \<and>
    Suc (armv8r_room m') = armv8r_room m"
proof -
  obtain k where k: "k < MPU_ARCH_MAX_NUM_ENTRIES" "\<not> bm (ma_allocated_entries m) k"
    and al: "mpu_entry_allocate i m = Inr (k, m\<lparr>ma_allocated_entries := bitmap_set (ma_allocated_entries m) k,
                ma_entry_asid := (ma_entry_asid m)(k := i)\<rparr>)"
    using mpu_entry_allocate_room [OF rm] by blast
  define reg' where "reg' = reg\<lparr>mr_flags := prlar_adjust ty (mr_flags reg)\<rparr>"
  define w where "w = (if i = h_id then CPU_MASK else VCPU_MASK)"
  define m1 where "m1 = m\<lparr>ma_allocated_entries := bitmap_set (ma_allocated_entries m) k, ma_entry_asid := (ma_entry_asid m)(k := i)\<rparr>"
  define m2 where "m2 = mask_update w (\<lambda>b. bitmap_set b k) (if l then mpu_entry_lock k m1 else m1)"
  have hw': "hw_region armv8r_mpu_granularity armv8r_flags_ok reg'"
    using reg prlar_adjust_ok by (simp add: reg'_def hw_region_def rgn_ok_def)
  note er = entry_region_set [OF hw', of k m2]
  have sz: "mr_size reg \<noteq> 0" using reg by (auto simp: hw_region_def rgn_ok_def)
  have run: "armv8r_mpu_map h_id g_id i ty reg l m = Inr (True, reg', mpu_entry_set k reg' m2)"
    using sz by (simp add: armv8r_mpu_map_def al [folded m1_def] find_mask_known [OF known] Let_def m2_def reg'_def w_def)
  let ?m = "mpu_entry_set k reg' m2"
  have f: "ma_allocated_entries ?m = bitmap_set (ma_allocated_entries m) k" "ma_entry_asid ?m = (ma_entry_asid m)(k := i)"
    "bm (ma_locked_entries ?m) j \<longleftrightarrow> bm (ma_locked_entries m) j \<or> (l \<and> j = k)"
    "bm (ma_entry_mask ?m) j \<longleftrightarrow> bm (ma_entry_mask m) j \<or> (i = h_id \<and> j = k)"
    "bm (ma_vcpu_mask ?m) j \<longleftrightarrow> bm (ma_vcpu_mask m) j \<or> (i \<noteq> h_id \<and> j = k)" "prbar_el2 m2 = prbar_el2 m" "entry_region m2 j = entry_region m j"
    for j
    by (auto simp: mpu_entry_set_def m2_def m1_def mask_update_def mpu_entry_lock_def bm_simps w_def entry_region_def)
  have entries: "armv8r_entries ?m a = (if a = i then insert k (armv8r_entries m a) else armv8r_entries m a)" for a
    using k by (auto simp: armv8r_entries_def f bm_simps)
  have new: "k \<notin> armv8r_entries m a" for a using k by (simp add: armv8r_entries_def)
  have "armv8r_prog ?m a = ((armv8r_prog m)(i := insert (rgn_key reg') (armv8r_prog m i))) a" for a
  proof -
    have "entry_region ?m ` armv8r_entries m a = entry_region m ` armv8r_entries m a"
      using new [of a] by (intro image_cong) (auto simp: er(1) f)
    then show ?thesis by (auto simp: armv8r_prog_def entries er(1))
  qed
  moreover have "Suc (armv8r_room ?m) = armv8r_room m"
    by (rule armv8r_room_change(1) [OF k]) (simp add: f bm_simps)
  moreover have "armv8r_invar h_id g_id ?m"
  proof -
    have "mr_base reg' = mr_base reg" by (simp add: reg'_def)
    moreover have "PRBAR_BASE (prbar_el2 m j) \<noteq> mr_base reg" if "j \<in> armv8r_entries m i" for j
    proof
      assume "PRBAR_BASE (prbar_el2 m j) = mr_base reg"
      moreover have "entry_region m j \<in> armv8r_prog m i" using that by (auto simp: armv8r_prog_def)
      ultimately show False using base by (auto simp: entry_region_def)
    qed
    ultimately have inj: "inj_on (\<lambda>j. PRBAR_BASE (prbar_el2 ?m j)) (armv8r_entries ?m a)" for a
      using inv new [of a] unfolding armv8r_invar_def entries er(2) f
      by (simp add: inj_on_def) (metis insertE)
    have cm: "{j. j < MPU_ARCH_MAX_NUM_ENTRIES \<and> bm (ma_entry_mask ?m) j} = armv8r_entries ?m h_id"
      using inv k unfolding armv8r_invar_def entries f by auto
    have vm: "{j. j < MPU_ARCH_MAX_NUM_ENTRIES \<and> bm (ma_vcpu_mask ?m) j} = armv8r_entries ?m g" if "g_id = Some g" "g \<noteq> h_id" for g
      using inv k that known unfolding armv8r_invar_def entries f mpu_known_def by auto
    show ?thesis using inj cm vm inv k by (simp add: armv8r_invar_def f bm_simps)
  qed
  ultimately show ?thesis
    by (intro exI [of _ ?m] conjI) (simp_all add: run reg'_def rgn_key_def fun_eq_iff)
qed

lemma armv8r_prog_entry:
  assumes "e \<in> armv8r_prog m i"
  obtains k where "k \<in> armv8r_entries m i" and "entry_region m k = e"
  using assms by (auto simp: armv8r_prog_def)

lemma armv8r_prog_inj:
  assumes "armv8r_invar h_id g_id m"
  shows "inj_on (entry_region m) (armv8r_entries m i)"
proof (rule inj_onI)
  fix x y
  assume "x \<in> armv8r_entries m i" "y \<in> armv8r_entries m i" "entry_region m x = entry_region m y"
  moreover have "PRBAR_BASE (prbar_el2 m x) = PRBAR_BASE (prbar_el2 m y)"
    using calculation(3) by (metis entry_region_base)
  moreover have "inj_on (\<lambda>i. PRBAR_BASE (prbar_el2 m i)) (armv8r_entries m i)" using assms by (simp add: armv8r_invar_def)
  ultimately show "x = y" by (metis inj_onD)
qed

lemma armv8r_unmap_law:
  assumes inv: "armv8r_invar h_id g_id m" and known: "mpu_known h_id g_id i" and reg: "rgn_key reg \<in> armv8r_prog m i"
  shows "\<exists>m'. armv8r_mpu_unmap h_id g_id i reg m = Inr (True, m') \<and> armv8r_invar h_id g_id m' \<and>
    armv8r_prog m' = (armv8r_prog m)(i := armv8r_prog m i - {rgn_key reg}) \<and> armv8r_room m' = Suc (armv8r_room m)"
proof -
  obtain k where k: "k \<in> armv8r_entries m i" "entry_region m k = rgn_key reg" by (rule armv8r_prog_entry [OF reg])
  have kl: "k < MPU_ARCH_MAX_NUM_ENTRIES" "bm (ma_allocated_entries m) k" using k(1) by (simp_all add: armv8r_entries_def)
  have base: "PRBAR_BASE (prbar_el2 m k) = mr_base reg" using entry_region_base [of m k] k(2) by (simp add: rgn_key_def)
  define w where "w = (if i = h_id then CPU_MASK else VCPU_MASK)"
  let ?m = "mask_update w (\<lambda>b. bitmap_clear b k) (mpu_entry_clear k (mpu_entry_unlock k (mpu_entry_deallocate k m)))"
  have run: "armv8r_mpu_unmap h_id g_id i reg m = Inr (True, ?m)"
    by (simp add: armv8r_mpu_unmap_def find_region_some [OF inv k(1) base] find_mask_known [OF known] Let_def w_def)
  have f: "ma_allocated_entries ?m = bitmap_clear (ma_allocated_entries m) k" "ma_entry_asid ?m = (ma_entry_asid m)(k := INVALID_ASID)"
    "bm (ma_locked_entries ?m) j \<longleftrightarrow> bm (ma_locked_entries m) j \<and> j \<noteq> k"
    "bm (ma_entry_mask ?m) j \<longleftrightarrow> bm (ma_entry_mask m) j \<and> \<not> (i = h_id \<and> j = k)"
    "bm (ma_vcpu_mask ?m) j \<longleftrightarrow> bm (ma_vcpu_mask m) j \<and> \<not> (i \<noteq> h_id \<and> j = k)"
    "j \<noteq> k \<Longrightarrow> prbar_el2 ?m j = prbar_el2 m j" "j \<noteq> k \<Longrightarrow> entry_region ?m j = entry_region m j"
    for j
    by (auto simp: mask_update_def mpu_entry_clear_def mpu_entry_unlock_def mpu_entry_deallocate_def bm_simps w_def entry_region_def)
  have entries: "armv8r_entries ?m a = armv8r_entries m a - {k}" for a
    by (auto simp: armv8r_entries_def f bm_simps)
  have only: "k \<in> armv8r_entries m a \<longleftrightarrow> a = i" for a using k(1) by (auto simp: armv8r_entries_def)
  have "armv8r_prog ?m a = ((armv8r_prog m)(i := armv8r_prog m i - {rgn_key reg})) a" for a
  proof -
    have "armv8r_prog ?m a = entry_region m ` (armv8r_entries m a - {k})"
      unfolding armv8r_prog_def entries by (intro image_cong) (auto simp: f)
    also have "\<dots> = (if a = i then armv8r_prog m i - {rgn_key reg} else armv8r_prog m a)"
    proof (cases "a = i")
      case True
      have "entry_region m ` (armv8r_entries m i - {k}) = entry_region m ` armv8r_entries m i - entry_region m ` {k}"
        using k(1) by (intro inj_on_image_set_diff [OF armv8r_prog_inj [OF inv, of i]]) auto
      with True k(2) show ?thesis by (simp add: armv8r_prog_def)
    next
      case False
      with only have "armv8r_entries m a - {k} = armv8r_entries m a" by blast
      with False show ?thesis by (simp add: armv8r_prog_def)
    qed
    finally show ?thesis by simp
  qed
  moreover have "armv8r_room ?m = Suc (armv8r_room m)"
    by (rule armv8r_room_change(2) [OF kl]) (simp add: f bm_simps)
  moreover have "armv8r_invar h_id g_id ?m"
  proof -
    have inj: "inj_on (\<lambda>j. PRBAR_BASE (prbar_el2 ?m j)) (armv8r_entries ?m a)" for a
      using inv unfolding armv8r_invar_def entries by (auto simp: inj_on_def f)
    have cm: "{j. j < MPU_ARCH_MAX_NUM_ENTRIES \<and> bm (ma_entry_mask ?m) j} = armv8r_entries ?m h_id"
      using inv only [of h_id] unfolding armv8r_invar_def entries f by blast
    have vm: "{j. j < MPU_ARCH_MAX_NUM_ENTRIES \<and> bm (ma_vcpu_mask ?m) j} = armv8r_entries ?m g" if "g_id = Some g" "g \<noteq> h_id" for g
    proof -
      have "{j. j < MPU_ARCH_MAX_NUM_ENTRIES \<and> bm (ma_vcpu_mask m) j} = armv8r_entries m g"
        using inv that by (simp add: armv8r_invar_def)
      then show ?thesis using only [of g] that known unfolding entries f mpu_known_def by auto
    qed
    show ?thesis using inj cm vm inv by (simp add: armv8r_invar_def f bm_simps)
  qed
  ultimately show ?thesis by (intro exI [of _ ?m] conjI) (simp_all add: run fun_eq_iff)
qed

lemma armv8r_update_law:
  assumes inv: "armv8r_invar h_id g_id m" and old: "(mr_base reg, s, mr_flags reg) \<in> armv8r_prog m i"
    and reg: "hw_region armv8r_mpu_granularity armv8r_flags_ok reg"
  shows "\<exists>m'. armv8r_mpu_update i reg m = (True, m') \<and> armv8r_invar h_id g_id m' \<and>
    armv8r_prog m' = (armv8r_prog m)(i := insert (rgn_key reg) (armv8r_prog m i - {(mr_base reg, s, mr_flags reg)})) \<and>
    armv8r_room m' = armv8r_room m"
proof -
  obtain k where k: "k \<in> armv8r_entries m i" "entry_region m k = (mr_base reg, s, mr_flags reg)" by (rule armv8r_prog_entry [OF old])
  have base: "PRBAR_BASE (prbar_el2 m k) = mr_base reg" using entry_region_base [of m k] k(2) by simp
  let ?m = "mpu_entry_update_limit k reg m"
  have run: "armv8r_mpu_update i reg m = (True, ?m)"
    by (simp add: armv8r_mpu_update_def find_region_some [OF inv k(1) base])
  have f: "ma_allocated_entries ?m = ma_allocated_entries m" "ma_entry_asid ?m = ma_entry_asid m" "ma_locked_entries ?m = ma_locked_entries m"
    "ma_entry_mask ?m = ma_entry_mask m" "ma_vcpu_mask ?m = ma_vcpu_mask m" "prbar_el2 ?m = prbar_el2 m"
    by (simp_all add: mpu_entry_update_limit_def)
  have entries: "armv8r_entries ?m a = armv8r_entries m a" for a by (simp add: armv8r_entries_def f)
  note er = entry_region_update_limit [OF reg k(2)]
  have "armv8r_prog ?m a = ((armv8r_prog m)(i := insert (rgn_key reg) (armv8r_prog m i - {(mr_base reg, s, mr_flags reg)}))) a" for a
  proof (cases "a = i")
    case True
    have "armv8r_entries m i = insert k (armv8r_entries m i - {k})" using k(1) by blast
    then have "armv8r_prog ?m i = insert (rgn_key reg) (entry_region ?m ` (armv8r_entries m i - {k}))"
      unfolding armv8r_prog_def entries using er by (metis image_insert)
    also have "entry_region ?m ` (armv8r_entries m i - {k}) = entry_region m ` (armv8r_entries m i - {k})"
      by (intro image_cong) (simp_all add: er)
    also have "\<dots> = entry_region m ` armv8r_entries m i - entry_region m ` {k}"
      using k(1) by (intro inj_on_image_set_diff [OF armv8r_prog_inj [OF inv, of i]]) auto
    finally show ?thesis using True k(2) by (simp add: armv8r_prog_def)
  next
    case False
    then have "k \<notin> armv8r_entries m a" using k(1) by (auto simp: armv8r_entries_def)
    then have "entry_region ?m ` armv8r_entries m a = entry_region m ` armv8r_entries m a"
      by (intro image_cong) (auto simp: er)
    with False show ?thesis by (simp add: armv8r_prog_def entries)
  qed
  moreover have "armv8r_invar h_id g_id ?m" using inv unfolding armv8r_invar_def entries f .
  moreover have "armv8r_room ?m = armv8r_room m" by (simp add: armv8r_room_def f)
  ultimately show ?thesis by (intro exI [of _ ?m] conjI) (simp_all add: run fun_eq_iff)
qed

interpretation armv8r: mpu_contract "armv8r_params cpus handler" armv8r_invar armv8r_prog armv8r_room prlar_adjust armv8r_flags_ok
  for cpus handler
proof (unfold_locales, goal_cases)
  case (1 h_id g_id m i reg ty l)
  then show ?case using armv8r_map_law by (simp add: armv8r_params_def armv8r_mpu_ops_def)
next
  case (2 h_id g_id m i reg)
  then show ?case using armv8r_unmap_law by (simp add: armv8r_params_def armv8r_mpu_ops_def)
next
  case (3 h_id g_id m reg s i)
  then show ?case using armv8r_update_law by (simp add: armv8r_params_def armv8r_mpu_ops_def)
next
  case (4 f g)
  then show ?case by (simp add: armv8r_params_def armv8r_mpu_ops_def armv8r_mpu_perms_compatible_def mf_raw_inj)
next
  case (5 f ty)
  then show ?case by (rule prlar_adjust_ok)
next
  case (6 ty f)
  show ?case by (rule prlar_adjust_idem)
qed

end
