(* ===== verification/Mpu_Spaces.thy ===== *)
theory Mpu_Spaces
  imports Mpu
begin

text \<open>
  What the address spaces of an Armv8-R system guarantee: the virtual MPU of \<open>mem.c\<close> over the
  physical MPU of \<open>mpu.c\<close>, through the interpretation \<open>armv8r\<close> of the contract.
\<close>

section \<open>Good states\<close>

definition armv8r_good :: "nat \<Rightarrow> u32 \<Rightarrow> nat \<Rightarrow> as_ref \<Rightarrow> (mpu_arch, 'a) mps_st \<Rightarrow> bool" where
  "armv8r_good cpus handler = mpu_good (armv8r_params cpus handler) armv8r_invar armv8r_prog prlar_adjust armv8r_flags_ok"

abbreviation armv8r_region :: "mp_region \<Rightarrow> bool" where
  "armv8r_region \<equiv> hw_region armv8r_mpu_granularity armv8r_flags_ok"

lemma armv8r_params_granularity: "mpu_granularity (mk_ops (armv8r_params cpus handler)) = armv8r_mpu_granularity"
  by (simp add: armv8r_params_def armv8r_mpu_ops_def)

lemma if_fun_conj: "(if p then (\<lambda>a. if Q a then x a else f a) else f) = (\<lambda>a. if p \<and> Q a then x a else f a)"
  by (cases p) auto

lemma sum_case_mono:
  assumes "case res of Inl e \<Rightarrow> P e | Inr (x, y) \<Rightarrow> Q x y" and "\<And>x y. Q x y \<Longrightarrow> R x y"
  shows "case res of Inl e \<Rightarrow> P e | Inr (x, y) \<Rightarrow> R x y"
  using assms by (auto split: sum.splits)

section \<open>Mapping\<close>

text \<open>C30: Mapping a region that lies inside one entry of the address space or meets none of them, with a free entry
  in both tables: the call returns (it can only halt because another processor could not be told),
  and it maps the region exactly when it meets no mapped one. Then exactly the addresses of the region
  have its attributes, the others keep theirs, the table stays well formed and the processor's MPU
  equal to it, no other address space and no other processor is touched, and, if the region is not
  locked, no two unlocked contiguous entries with equal attributes are left.\<close>

theorem mem_map_maps_region:
  fixes st :: "(mpu_arch, 'a) mps_st"
  assumes "armv8r_good cpus handler c r st" and "\<not> as_lock (ms_spaces st r)" and "armv8r_region mpr"
    and "\<forall>i \<in> vmpu_valid (ms_spaces st r). rgn_addrs mpr \<subseteq> rgn_addrs (vmpu_region (ms_spaces st r) i) \<or>
      rgn_addrs mpr \<inter> rgn_addrs (vmpu_region (ms_spaces st r) i) = {}"
    and "vmpu_free (ms_spaces st r) \<noteq> {}" and "0 < armv8r_room (ms_mpu st c)"
  shows "case mem_map (armv8r_params cpus handler) c r mpr broadcast locked st of
      Inl e \<Rightarrow> broadcast \<and> e \<noteq> NO_RETURN
    | Inr (ok, st') \<Rightarrow>
        (ok \<longleftrightarrow> (\<forall>i \<in> vmpu_valid (ms_spaces st r). rgn_addrs mpr \<inter> rgn_addrs (vmpu_region (ms_spaces st r) i) = {})) \<and>
        vmpu_attrs (ms_spaces st' r) =
          (\<lambda>a. if ok \<and> a \<in> rgn_addrs mpr then {prlar_adjust (as_type (ms_spaces st r)) (mr_flags mpr)}
               else vmpu_attrs (ms_spaces st r) a) \<and>
        armv8r_good cpus handler c r st' \<and> only_space armv8r_prog c r st st' \<and> \<not> as_lock (ms_spaces st' r) \<and>
        (ok \<and> \<not> locked \<longrightarrow> vmpu_merged (ms_spaces st' r))"
proof -
  have "yields broadcast (mem_map (armv8r_params cpus handler) c r mpr broadcast locked st) (\<lambda>(ok, st').
    armv8r.post cpus handler c r st (if ok then (\<lambda>a. if a \<in> rgn_addrs mpr then {prlar_adjust (as_type (ms_spaces st r)) (mr_flags mpr)}
                             else vmpu_attrs (ms_spaces st r) a)
                 else vmpu_attrs (ms_spaces st r)) st' \<and>
    (ok \<longleftrightarrow> (\<forall>i \<in> vmpu_valid (ms_spaces st r). rgn_addrs mpr \<inter> rgn_addrs (vmpu_region (ms_spaces st r) i) = {})) \<and>
    (ok \<and> \<not> locked \<longrightarrow> vmpu_merged (ms_spaces st' r)))"
    using assms unfolding armv8r_good_def
    by (rule armv8r.map_region [unfolded armv8r_params_granularity])
  then show ?thesis
    unfolding yields_def armv8r.post_def armv8r_good_def [symmetric] if_fun_conj
    by (rule sum_case_mono) (use assms(2) in simp_all)
qed

section \<open>Unmapping\<close>

text \<open>C31: Unmapping a range of whole pages, with a free entry in both tables: the call returns, and it
  unmaps exactly the addresses of the range when one entry contains it; the rest of that entry stays
  mapped with its attributes. A range that no single entry contains, even one that is mapped page by
  page, is left as it is and the result is \<open>false\<close>.\<close>

theorem mem_unmap_range_unmaps:
  fixes st :: "(mpu_arch, 'a) mps_st"
  assumes "armv8r_good cpus handler c r st" and "\<not> as_lock (ms_spaces st r)"
    and "0 < armv8r_room (ms_mpu st c)" and "vmpu_free (ms_spaces st r) \<noteq> {}"
    and "fits vaddr size0" and "0 < size0" and "4096 dvd unat vaddr" and "4096 dvd unat size0"
  shows "case mem_unmap_range (armv8r_params cpus handler) c r vaddr size0 broadcast st of
      Inl e \<Rightarrow> broadcast \<and> e \<noteq> NO_RETURN
    | Inr (ok, st') \<Rightarrow>
        (ok \<longleftrightarrow> (\<exists>i \<in> vmpu_valid (ms_spaces st r). addrs vaddr size0 \<subseteq> rgn_addrs (vmpu_region (ms_spaces st r) i))) \<and>
        vmpu_attrs (ms_spaces st' r) = (\<lambda>a. if ok \<and> a \<in> addrs vaddr size0 then {} else vmpu_attrs (ms_spaces st r) a) \<and>
        armv8r_good cpus handler c r st' \<and> only_space armv8r_prog c r st st' \<and> \<not> as_lock (ms_spaces st' r)"
proof -
  have g: "unat armv8r_mpu_granularity = 4096" by (simp add: armv8r_mpu_granularity_def PAGE_SIZE_def)
  have "yields broadcast (mem_unmap_range (armv8r_params cpus handler) c r vaddr size0 broadcast st) (\<lambda>(ok, st').
    armv8r.post cpus handler c r st (if ok then (\<lambda>a. if a \<in> addrs vaddr size0 then {} else vmpu_attrs (ms_spaces st r) a)
      else vmpu_attrs (ms_spaces st r)) st' \<and>
    (ok \<longleftrightarrow> (\<exists>i \<in> vmpu_valid (ms_spaces st r). addrs vaddr size0 \<subseteq> rgn_addrs (vmpu_region (ms_spaces st r) i))))"
    using assms unfolding armv8r_good_def by (rule armv8r.unmap_range [unfolded armv8r_params_granularity g])
  then show ?thesis
    unfolding yields_def armv8r.post_def armv8r_good_def [symmetric] if_fun_conj
    by (rule sum_case_mono) (use assms(2) in simp_all)
qed

section \<open>What the code takes for an overlap\<close>

text \<open>A region that meets a mapped one without lying inside one entry is mapped nevertheless, because
  \<open>mem_regions_overlap\<close> tests containment: two entries then cover the same addresses, which an
  Armv8-R MPU answers with a fault.\<close>

theorem mem_map_accepts_partial_overlap:
  fixes st :: "(mpu_arch, 'a) mps_st"
  assumes "armv8r_good cpus handler c r st" and "\<not> as_lock (ms_spaces st r)" and "armv8r_region mpr"
    and "\<forall>i \<in> vmpu_valid (ms_spaces st r). \<not> rgn_addrs mpr \<subseteq> rgn_addrs (vmpu_region (ms_spaces st r) i)"
    and "\<forall>i \<in> vmpu_valid (ms_spaces st r). mr_base (vmpu_region (ms_spaces st r) i) \<noteq> mr_base mpr"
    and "j \<in> vmpu_valid (ms_spaces st r)" and "a \<in> rgn_addrs mpr" and "a \<in> rgn_addrs (vmpu_region (ms_spaces st r) j)"
    and "vmpu_free (ms_spaces st r) \<noteq> {}" and "0 < armv8r_room (ms_mpu st c)"
  shows "\<exists>st' k. mem_map (armv8r_params cpus handler) c r mpr False True st = Inr (True, st') \<and> k \<noteq> j \<and>
    j \<in> vmpu_valid (ms_spaces st' r) \<and> k \<in> vmpu_valid (ms_spaces st' r) \<and>
    a \<in> rgn_addrs (vmpu_region (ms_spaces st' r) j) \<and> a \<in> rgn_addrs (vmpu_region (ms_spaces st' r) k)"
proof -
  let ?K = "armv8r_params cpus handler" and ?as = "ms_spaces st r"
  note g = assms(1) [unfolded armv8r_good_def]
  define st1 where "st1 = as_update r (\<lambda>as. as\<lparr>as_lock := True\<rparr>) st"
  note wl = armv8r.with_lock [OF g assms(2), folded st1_def]
  have same: "vmpu_valid (ms_spaces st1 r) = vmpu_valid ?as" "vmpu_free (ms_spaces st1 r) = vmpu_free ?as"
    "as_node (ms_spaces st1 r) = as_node ?as" "as_list (ms_spaces st1 r) = as_list ?as"
    by (simp_all add: wl(4) vmpu_lock_same)
  have rok: "rgn_ok mpr" and sz: "mr_size mpr \<noteq> 0" "mr_size mpr mod mpu_granularity (mk_ops ?K) = 0"
    using assms(3) unfolding armv8r_params_granularity
    by (auto simp: hw_region_def rgn_ok_def dvd_eq_mod_eq_0 unat_mod [symmetric] word_unat_eq_iff word_less_nat_alt)
  have none: "mem_vmpu_find_overlapping_region (ms_spaces st1 r) mpr = None"
    using armv8r.overlapping_none [OF wl(2) rok] assms(4) unfolding same by blast
  obtain k as where al: "mem_vmpu_allocate_entry (ms_spaces st1 r) = Inr (k, as)"
    using vmpu_allocate_room [of "ms_spaces st1 r"] assms(9) unfolding same by blast
  let ?st2 = "as_update r (\<lambda>_. as) st1"
  note av = vmpu_allocate [OF al]
  have g2: "armv8r.good cpus handler c r ?st2" using armv8r.allocate_post(1) [OF wl(2) al] by (simp add: armv8r.post_def)
  have s2: "ms_spaces ?st2 r = as" "ms_mpu ?st2 = ms_mpu st" by (simp_all add: as_update_def wl(3))
  have nodes: "as_node as i = as_node ?as i" if "i \<in> vmpu_valid ?as" for i using av(11) [of i] that by (simp add: same)
  have base: "\<forall>(b, s, f) \<in> armv8r_prog (ms_mpu ?st2 c) (as_id (ms_spaces ?st2 r)). b \<noteq> mr_base mpr"
    using assms(5) nodes av(6) unfolding armv8r.good_parts(4) [OF g2] unfolding s2
    by (auto simp: vmpu_regions_def rgn_key_def same)
  have hw: "hw_region (mpu_granularity (mk_ops ?K)) armv8r_flags_ok mpr" using assms(3) by (simp only: armv8r_params_granularity)
  have "yields False (mem_vmpu_insert_region ?K c r (Some k) mpr False True ?st2) (\<lambda>(ok, st').
      ok \<and> ms_spaces st' r = mem_vmpu_set_entry k (mpr\<lparr>mr_flags := prlar_adjust (as_type as) (mr_flags mpr)\<rparr>) (mem_check_forced_locked mpr True) as)"
    by (rule yields_mono [OF armv8r.insert_raw [OF armv8r.good_parts(3,5) [OF g2] hw base]])
      (use assms(10) s2 in \<open>auto simp: moves_def\<close>)
  then obtain st3 where ins: "mem_vmpu_insert_region ?K c r (Some k) mpr False True ?st2 = Inr (True, st3)"
    and sp3: "ms_spaces st3 r = mem_vmpu_set_entry k (mpr\<lparr>mr_flags := prlar_adjust (as_type as) (mr_flags mpr)\<rparr>) (mem_check_forced_locked mpr True) as"
    by (auto simp: yields_def split: sum.splits)
  have run: "mem_map ?K c r mpr False True st = Inr (True, spin_unlock r st3)"
    using sz by (simp add: mem_map_def wl(1) none al ins)
  have kj: "k \<noteq> j" using av(2,6) assms(6) by (auto simp: same)
  have "j \<in> vmpu_valid as" using av(6) assms(6) by (simp add: same)
  then have "j \<in> vmpu_valid (ms_spaces st3 r)" "k \<in> vmpu_valid (ms_spaces st3 r)"
    "vmpu_region (ms_spaces st3 r) j = vmpu_region ?as j" "rgn_addrs (vmpu_region (ms_spaces st3 r) k) = rgn_addrs mpr"
    using kj av(1) nodes [OF assms(6)] unfolding sp3
    by (auto simp: mem_vmpu_set_entry_def mpe_update_def Let_def vmpu_valid_def rgn_addrs_def)
  then have "j \<in> vmpu_valid (ms_spaces (spin_unlock r st3) r)" "k \<in> vmpu_valid (ms_spaces (spin_unlock r st3) r)"
    "a \<in> rgn_addrs (vmpu_region (ms_spaces (spin_unlock r st3) r) j)" "a \<in> rgn_addrs (vmpu_region (ms_spaces (spin_unlock r st3) r) k)"
    using assms(7,8) by (simp_all add: spin_unlock_def as_update_def vmpu_lock_same)
  with run kj show ?thesis by blast
qed

section \<open>What a machine can access\<close>

text \<open>
  \<open>vcpu_arch_entry\<close> (\<open>src/src/arch/armv8/aarch64/exceptions.S\<close>) enables the entries of the virtual
  processor's mask and the locked entries, and no others, by writing \<open>prenr_el2\<close>.
\<close>

definition vcpu_arch_entry_prenr :: "mpu_arch \<Rightarrow> nat \<Rightarrow> bool" where
  "vcpu_arch_entry_prenr m i \<longleftrightarrow> bm (ma_vcpu_mask m) i \<or> bm (ma_locked_entries m) i"


section \<open>A new address space\<close>


end
