(* ===== verification/Mpu_Demo.thy ===== *)
theory Mpu_Demo
  imports Mpu_Spaces
begin

text \<open>
  A processor that runs one machine whose address space has one region, programmed in the MPU:
  the theorems of \<open>Mpu_Spaces\<close> at work.
\<close>

definition demo_rgn :: "u64 \<Rightarrow> u64 \<Rightarrow> mp_region" where
  "demo_rgn b s = \<lparr>mr_base = b, mr_size = s, mr_flags = PTE_FLAGS 2 2, mr_sec = SEC_VM_ANY\<rparr>"

definition demo_vm_space :: addr_space where
  "demo_vm_space = \<lparr>as_id = 1, as_type = AS_VM, as_colors = 0, as_list = [0],
     as_node = (\<lambda>i. if i = 0 then \<lparr>mp_state = MPE_S_VALID, mp_lock = False, mp_region = demo_rgn 0x10000 0x3000, mp_mpid = 0\<rparr>
       else \<lparr>mp_state = MPE_S_FREE, mp_lock = False, mp_region = demo_rgn 0 0, mp_mpid = 0\<rparr>), as_lock = False\<rparr>"

definition demo_hyp_space :: addr_space where
  "demo_hyp_space = \<lparr>as_id = 0, as_type = AS_HYP, as_colors = 0, as_list = [],
     as_node = (\<lambda>_. \<lparr>mp_state = MPE_S_FREE, mp_lock = False, mp_region = demo_rgn 0 0, mp_mpid = 0\<rparr>), as_lock = False\<rparr>"

definition demo_mpu :: mpu_arch where
  "demo_mpu = mpu_entry_set 0 (demo_rgn 0x10000 0x3000) \<lparr>ma_allocated_entries = bitmap_set (\<lambda>_. 0) 0, ma_locked_entries = (\<lambda>_. 0),
     ma_entry_asid = (\<lambda>_. INVALID_ASID)(0 := 1), ma_entry_mask = (\<lambda>_. 0), ma_vcpu_mask = bitmap_set (\<lambda>_. 0) 0,
     prbar_el2 = (\<lambda>_. 0), prlar_el2 = (\<lambda>_. 0)\<rparr>"

definition demo_mps_vm :: vm where
  "demo_mps_vm = \<lparr>vm_id = 0, vm_master = 0, vm_cpu_num = 1, vm_cpus = 1,
     vm_vcpus = (\<lambda>_. \<lparr>vcpu_id = 0, phys_id = 0, vcpu_active = True, vcpu_regs = (\<lambda>_. 0), vcpu_irqs = []\<rparr>),
     emul_mem_list = [], emul_reg_list = [], vm_ipcs = [], vm_remio_devs = []\<rparr>"

definition demo_mps :: "mpu_arch mps" where
  "demo_mps = \<lparr>cpu_interfaces = idle_interfaces, ipi_pending = (\<lambda>_. False), handling_msgs = (\<lambda>_. False),
     hv_vm = (\<lambda>_. demo_mps_vm), hv_vcpu = (\<lambda>c. if c = 0 then Some (0, 0) else None), hv_shmem = [],
     ms_spaces = (\<lambda>r. case r of CPU_AS _ \<Rightarrow> demo_hyp_space | VM_AS _ \<Rightarrow> demo_vm_space), ms_mpu = (\<lambda>_. demo_mpu),
     ms_pool = \<lparr>pool = 0x1000, op_bitmap = (\<lambda>_. 0), objsize = 80, num = 2\<rparr>,
     ms_nodes = (\<lambda>_. \<lparr>shr_type = AS_HYP, shr_asid = 0, shr_region = demo_rgn 0 0, shr_lock = False\<rparr>), ms_asid = 2\<rparr>"

lemma demo_valid: "vmpu_valid demo_vm_space = {0}" "vmpu_valid demo_hyp_space = {}"
  by (auto simp: vmpu_valid_def demo_vm_space_def demo_hyp_space_def VMPU_NUM_ENTRIES_def)

lemma demo_spaces [simp]:
  "ms_spaces demo_mps (VM_AS v) = demo_vm_space" "ms_spaces demo_mps (CPU_AS c) = demo_hyp_space"
  "ms_mpu demo_mps c = demo_mpu" "hv_vcpu demo_mps 0 = Some (0, 0)"
  by (simp_all add: demo_mps_def)

lemma demo_space_fields [simp]:
  "as_id demo_vm_space = 1" "as_type demo_vm_space = AS_VM" "\<not> as_lock demo_vm_space"
  "vmpu_region demo_vm_space 0 = demo_rgn 0x10000 0x3000"
  by (simp_all add: demo_vm_space_def)

lemma demo_region_ok:
  assumes "fits b s" "0 < s" "4096 dvd unat b" "4096 dvd unat s"
  shows "armv8r_region (demo_rgn b s)"
  using assms by (simp add: hw_region_def rgn_ok_def demo_rgn_def armv8r_mpu_granularity_def PAGE_SIZE_def armv8r_flags_ok_def PTE_FLAGS_def)

lemma demo_regions:
  "armv8r_region (demo_rgn 0x10000 0x3000)" "armv8r_region (demo_rgn 0x13000 0x1000)" "armv8r_region (demo_rgn 0xF000 0x2000)"
  by (rule demo_region_ok; simp add: fits_def)+

lemma demo_flags: "prlar_adjust AS_VM (mr_flags (demo_rgn b s)) = PTE_FLAGS 2 2"
  by (simp add: prlar_adjust_def demo_rgn_def PTE_FLAGS_def PRLAR_EN_def)

lemma demo_bits: "bm (bitmap_set (\<lambda>_. 0) 0) i \<longleftrightarrow> i = 0" "\<not> bm (\<lambda>_. 0) i"
  by (simp_all only: bm_bitmap_set) (simp_all add: bm_def)

lemma demo_mpu_entries: "armv8r_entries demo_mpu a = (if a = 1 then {0} else {})"
  by (auto simp: armv8r_entries_def demo_mpu_def mpu_entry_set_def demo_bits MPU_ARCH_MAX_NUM_ENTRIES_def)

lemma demo_mpu_prog: "armv8r_prog demo_mpu a = (if a = 1 then {rgn_key (demo_rgn 0x10000 0x3000)} else {})"
proof -
  have "entry_region demo_mpu 0 = rgn_key (demo_rgn 0x10000 0x3000)"
    unfolding demo_mpu_def by (simp add: entry_region_set(1) [OF demo_regions(1)])
  then show ?thesis by (simp add: armv8r_prog_def demo_mpu_entries)
qed

lemma demo_mpu_masks:
  "bm (ma_vcpu_mask demo_mpu) i \<longleftrightarrow> i = 0" "\<not> bm (ma_entry_mask demo_mpu) i" "\<not> bm (ma_locked_entries demo_mpu) i"
  by (simp_all add: demo_mpu_def mpu_entry_set_def demo_bits)

lemma demo_mpu_invar: "armv8r_invar 0 (Some 1) demo_mpu"
  by (auto simp: armv8r_invar_def demo_mpu_entries demo_mpu_masks MPU_ARCH_MAX_NUM_ENTRIES_def)

lemma demo_good: "armv8r_good 1 0 0 (VM_AS 0) demo_mps"
proof -
  have "vmpu_ok demo_vm_space"
    using demo_regions(1) by (simp add: vmpu_ok_def demo_valid) (simp add: demo_vm_space_def hw_region_def)
  moreover have "mpu_ids 0 demo_mps = (0, Some 1)" by (simp add: mpu_ids_def) (simp add: demo_hyp_space_def)
  ultimately show ?thesis
    using demo_regions(1) demo_mpu_invar
    by (simp add: armv8r_good_def mpu_good_def armv8r_params_granularity demo_valid demo_mpu_prog vmpu_regions_def mpu_known_def
      demo_flags) (simp add: demo_rgn_def)
qed

lemma demo_room: "vmpu_free demo_vm_space \<noteq> {}" "0 < armv8r_room demo_mpu"
proof -
  have "1 \<in> vmpu_free demo_vm_space" by (simp add: vmpu_free_def demo_vm_space_def VMPU_NUM_ENTRIES_def)
  then show "vmpu_free demo_vm_space \<noteq> {}" by blast
  have "1 \<in> {i. i < MPU_ARCH_MAX_NUM_ENTRIES \<and> \<not> bm (ma_allocated_entries demo_mpu) i}"
    by (simp add: demo_mpu_def mpu_entry_set_def demo_bits MPU_ARCH_MAX_NUM_ENTRIES_def)
  then show "0 < armv8r_room demo_mpu" unfolding armv8r_room_def by (auto simp: card_gt_0_iff)
qed

text \<open>The next pages are mapped and become one region with the first.\<close>

theorem mem_map_maps_region_witness:
  "\<exists>st' :: mpu_arch mps. mem_map (armv8r_params 1 0) 0 (VM_AS 0) (demo_rgn 0x13000 0x1000) False False demo_mps = Inr (True, st') \<and>
     vmpu_attrs (ms_spaces st' (VM_AS 0)) 0x13000 = {PTE_FLAGS 2 2} \<and> vmpu_attrs (ms_spaces st' (VM_AS 0)) 0x10000 = {PTE_FLAGS 2 2} \<and>
     vmpu_merged (ms_spaces st' (VM_AS 0))"
proof -
  have ap: "rgn_addrs (demo_rgn 0x13000 0x1000) \<inter> rgn_addrs (demo_rgn 0x10000 0x3000) = {}"
    by (auto simp: rgn_addrs_def addrs_def demo_rgn_def)
  have in1: "0x13000 \<in> rgn_addrs (demo_rgn 0x13000 0x1000)" "0x10000 \<notin> rgn_addrs (demo_rgn 0x13000 0x1000)"
    "0x10000 \<in> rgn_addrs (demo_rgn 0x10000 0x3000)"
    by (simp_all add: rgn_addrs_def addrs_def demo_rgn_def)
  have at: "vmpu_attrs demo_vm_space 0x10000 = {PTE_FLAGS 2 2}"
    using in1(3) by (simp add: vmpu_attrs_def demo_valid) (simp add: demo_rgn_def)
  let ?run = "mem_map (armv8r_params 1 0) 0 (VM_AS 0) (demo_rgn 0x13000 0x1000) False False demo_mps"
  have "case ?run of Inl e \<Rightarrow> False \<and> e \<noteq> NO_RETURN | Inr (ok, st') \<Rightarrow> ok \<and> vmpu_merged (ms_spaces st' (VM_AS 0)) \<and>
      vmpu_attrs (ms_spaces st' (VM_AS 0)) = (\<lambda>a. if ok \<and> a \<in> rgn_addrs (demo_rgn 0x13000 0x1000) then {PTE_FLAGS 2 2} else vmpu_attrs demo_vm_space a)"
    by (rule sum_case_mono [OF mem_map_maps_region [OF demo_good _ demo_regions(2), of False False]])
      (use ap demo_room in \<open>simp_all add: demo_valid demo_flags cong: if_cong\<close>)
  then obtain st' where "?run = Inr (True, st')" "vmpu_merged (ms_spaces st' (VM_AS 0))"
      "vmpu_attrs (ms_spaces st' (VM_AS 0)) = (\<lambda>a. if True \<and> a \<in> rgn_addrs (demo_rgn 0x13000 0x1000) then {PTE_FLAGS 2 2} else vmpu_attrs demo_vm_space a)"
    by (auto split: sum.splits)
  with in1 at show ?thesis by simp
qed

text \<open>The middle page of the region is unmapped, the pages around it stay.\<close>

theorem mem_unmap_range_unmaps_witness:
  "\<exists>st' :: mpu_arch mps. mem_unmap_range (armv8r_params 1 0) 0 (VM_AS 0) 0x11000 0x1000 False demo_mps = Inr (True, st') \<and>
     vmpu_attrs (ms_spaces st' (VM_AS 0)) 0x11000 = {} \<and> vmpu_attrs (ms_spaces st' (VM_AS 0)) 0x10000 = {PTE_FLAGS 2 2} \<and>
     vmpu_attrs (ms_spaces st' (VM_AS 0)) 0x12000 = {PTE_FLAGS 2 2}"
proof -
  let ?run = "mem_unmap_range (armv8r_params 1 0) 0 (VM_AS 0) 0x11000 0x1000 False demo_mps"
  have sub: "addrs 0x11000 0x1000 \<subseteq> rgn_addrs (demo_rgn 0x10000 0x3000)"
    by (auto simp: rgn_addrs_def addrs_def demo_rgn_def)
  have in1: "0x11000 \<in> addrs 0x11000 0x1000" "0x10000 \<notin> addrs 0x11000 0x1000" "0x12000 \<notin> addrs 0x11000 0x1000"
    "0x10000 \<in> rgn_addrs (demo_rgn 0x10000 0x3000)" "0x12000 \<in> rgn_addrs (demo_rgn 0x10000 0x3000)"
    by (simp_all add: rgn_addrs_def addrs_def demo_rgn_def)
  have at: "vmpu_attrs demo_vm_space 0x10000 = {PTE_FLAGS 2 2}" "vmpu_attrs demo_vm_space 0x12000 = {PTE_FLAGS 2 2}"
    using in1(4,5) by (simp_all add: vmpu_attrs_def demo_valid) (simp_all add: demo_rgn_def)
  have "case ?run of Inl e \<Rightarrow> False \<and> e \<noteq> NO_RETURN | Inr (ok, st') \<Rightarrow> ok \<and>
      vmpu_attrs (ms_spaces st' (VM_AS 0)) = (\<lambda>a. if ok \<and> a \<in> addrs 0x11000 0x1000 then {} else vmpu_attrs demo_vm_space a)"
    by (rule sum_case_mono [OF mem_unmap_range_unmaps [OF demo_good, of "0x11000" "0x1000" False]])
      (use sub demo_room in \<open>simp_all add: demo_valid fits_def cong: if_cong\<close>)
  then obtain st' where "?run = Inr (True, st')"
      "vmpu_attrs (ms_spaces st' (VM_AS 0)) = (\<lambda>a. if True \<and> a \<in> addrs 0x11000 0x1000 then {} else vmpu_attrs demo_vm_space a)"
    by (auto split: sum.splits)
  with in1 at show ?thesis by simp
qed

text \<open>A region that begins one page before the mapped one and ends inside it is mapped over it.\<close>

theorem mem_map_accepts_partial_overlap_witness:
  "\<exists>(st' :: mpu_arch mps) k. mem_map (armv8r_params 1 0) 0 (VM_AS 0) (demo_rgn 0xF000 0x2000) False True demo_mps = Inr (True, st') \<and> k \<noteq> 0 \<and>
     0 \<in> vmpu_valid (ms_spaces st' (VM_AS 0)) \<and> k \<in> vmpu_valid (ms_spaces st' (VM_AS 0)) \<and>
     0x10000 \<in> rgn_addrs (vmpu_region (ms_spaces st' (VM_AS 0)) 0) \<and> 0x10000 \<in> rgn_addrs (vmpu_region (ms_spaces st' (VM_AS 0)) k)"
proof -
  have "\<not> rgn_addrs (demo_rgn 0xF000 0x2000) \<subseteq> rgn_addrs (demo_rgn 0x10000 0x3000)"
    by (auto simp: rgn_addrs_def addrs_def demo_rgn_def)
  moreover have "mr_base (demo_rgn 0x10000 0x3000) \<noteq> mr_base (demo_rgn 0xF000 0x2000)" by (simp add: demo_rgn_def)
  moreover have "0x10000 \<in> rgn_addrs (demo_rgn 0xF000 0x2000)" "0x10000 \<in> rgn_addrs (demo_rgn 0x10000 0x3000)"
    by (simp_all add: rgn_addrs_def addrs_def demo_rgn_def)
  ultimately show ?thesis
    using demo_room by (intro mem_map_accepts_partial_overlap [OF demo_good _ demo_regions(3)]) (simp_all add: demo_valid)
qed


end
