(* ===== verification/Page_Table.thy ===== *)
theory Page_Table
  imports Bit_Utils Page_Pool
begin

text \<open>
  Page tables, \<open>src/src/core/inc/page_table.h\<close>, and the format of their entries on RISC-V 64 and
  Armv8-A, \<open>src/src/arch/riscv/inc/arch/page_table.h\<close>, \<open>src/src/arch/riscv/page_table.c\<close> and
  \<open>src/src/arch/armv8/armv8-a/inc/arch/page_table.h\<close>. An entry is its 64-bit value, so that a
  function on a pointer to an entry is one on values. What \<open>mem.c\<close> relies on is the contract
  \<open>pte_format\<close>, which both formats meet.
\<close>

section \<open>Descriptors\<close>

record page_table_dscr =
  lvls :: nat
  lvl_off :: "nat list"
  lvl_wdt :: "nat list"
  lvl_term :: "bool list"

definition pt_nentries :: "page_table_dscr \<Rightarrow> nat \<Rightarrow> u64" where
  "pt_nentries d l = drop_bit (lvl_off d ! l) (shl 1 (lvl_wdt d ! l))"

definition pt_lvlsize :: "page_table_dscr \<Rightarrow> nat \<Rightarrow> u64" where
  "pt_lvlsize d l = shl 1 (lvl_off d ! l)"

definition pt_size :: "page_table_dscr \<Rightarrow> nat \<Rightarrow> u64" where
  "pt_size d l = pt_nentries d l * 8"

definition pt_getpteindex :: "page_table_dscr \<Rightarrow> u64 \<Rightarrow> nat \<Rightarrow> u64" where
  "pt_getpteindex d pte l = (pte AND (pt_size d l - 1)) div 8"

definition pt_getpteindex_by_va :: "page_table_dscr \<Rightarrow> u64 \<Rightarrow> nat \<Rightarrow> u64" where
  "pt_getpteindex_by_va d va l = drop_bit (lvl_off d ! l) va AND (pt_nentries d l - 1)"

definition pt_lvl_terminal :: "page_table_dscr \<Rightarrow> nat \<Rightarrow> bool" where
  "pt_lvl_terminal d l = lvl_term d ! l"

definition sv39_pt_dscr :: page_table_dscr where
  "sv39_pt_dscr = \<lparr>lvls = 3, lvl_off = [30, 21, 12], lvl_wdt = [39, 30, 21], lvl_term = [True, True, True]\<rparr>"

definition sv39x4_pt_dscr :: page_table_dscr where
  "sv39x4_pt_dscr = \<lparr>lvls = 3, lvl_off = [30, 21, 12], lvl_wdt = [41, 30, 21], lvl_term = [True, True, True]\<rparr>"

definition armv8_pt_dscr :: page_table_dscr where
  "armv8_pt_dscr = \<lparr>lvls = 4, lvl_off = [39, 30, 21, 12], lvl_wdt = [48, 39, 30, 21], lvl_term = [False, True, True, True]\<rparr>"

section \<open>Entries\<close>

text \<open>The functions and constants that the architecture's header gives; the number of levels is the first argument of the tests.\<close>

record pte_ops =
  pte_set :: "u64 \<Rightarrow> u64 \<Rightarrow> u64 \<Rightarrow> u64"
  pte_addr :: "u64 \<Rightarrow> u64"
  pte_valid :: "u64 \<Rightarrow> bool"
  pte_set_rsw :: "u64 \<Rightarrow> u64 \<Rightarrow> u64"
  pte_check_rsw :: "u64 \<Rightarrow> u64 \<Rightarrow> bool"
  pte_table :: "page_table_dscr \<Rightarrow> u64 \<Rightarrow> nat \<Rightarrow> bool"
  pte_page :: "page_table_dscr \<Rightarrow> u64 \<Rightarrow> nat \<Rightarrow> bool"
  PTE_TABLE :: u64
  PTE_PAGE :: u64
  PTE_SUPERPAGE :: u64
  PTE_RSW_MSK :: u64
  PTE_RSW_RSRV :: u64
  PTE_HYP_FLAGS :: u64
  PTE_VM_FLAGS :: u64
  PTE_HYP_DEV_FLAGS :: u64
  PTE_VM_DEV_FLAGS :: u64

text \<open>\<open>PTE_INVALID\<close> is 0 in both formats.\<close>

subsection \<open>RISC-V 64, without Svpbmt\<close>

definition RV_PTE_ADDR_MSK :: u64 where "RV_PTE_ADDR_MSK = BIT_MASK 12 44"
definition RV_PTE_FLAGS_MSK :: u64 where "RV_PTE_FLAGS_MSK = BIT_MASK 0 8"
definition RV_PTE_VALID :: u64 where "RV_PTE_VALID = shl 1 0"
definition RV_PTE_RWX :: u64 where "RV_PTE_RWX = shl 1 1 OR shl 1 2 OR shl 1 3"
definition RV_PTE_RSW_MSK :: u64 where "RV_PTE_RSW_MSK = BIT_MASK 8 2"

definition rv_pte_set :: "u64 \<Rightarrow> u64 \<Rightarrow> u64 \<Rightarrow> u64" where
  "rv_pte_set addr type flags =
     drop_bit 2 (addr AND RV_PTE_ADDR_MSK) OR ((if type = RV_PTE_VALID then type else type OR flags) AND RV_PTE_FLAGS_MSK)"

definition rv_pte_addr :: "u64 \<Rightarrow> u64" where
  "rv_pte_addr pte = push_bit 2 pte AND RV_PTE_ADDR_MSK"

definition rv_pte_valid :: "u64 \<Rightarrow> bool" where
  "rv_pte_valid pte \<longleftrightarrow> pte AND RV_PTE_VALID \<noteq> 0"

definition rv_pte_set_rsw :: "u64 \<Rightarrow> u64 \<Rightarrow> u64" where
  "rv_pte_set_rsw pte flag = (pte AND NOT RV_PTE_RSW_MSK) OR (flag AND RV_PTE_RSW_MSK)"

definition rv_pte_check_rsw :: "u64 \<Rightarrow> u64 \<Rightarrow> bool" where
  "rv_pte_check_rsw pte flag \<longleftrightarrow> pte AND RV_PTE_RSW_MSK = flag AND RV_PTE_RSW_MSK"

definition rv_pte_table :: "page_table_dscr \<Rightarrow> u64 \<Rightarrow> nat \<Rightarrow> bool" where
  "rv_pte_table d pte l \<longleftrightarrow> pte AND 0xF = RV_PTE_VALID"

definition rv_pte_page :: "page_table_dscr \<Rightarrow> u64 \<Rightarrow> nat \<Rightarrow> bool" where
  "rv_pte_page d pte l \<longleftrightarrow> pte AND RV_PTE_VALID \<noteq> 0 \<and> pte AND RV_PTE_RWX \<noteq> 0"

definition riscv_pte_ops :: pte_ops where
  "riscv_pte_ops = \<lparr>pte_set = rv_pte_set, pte_addr = rv_pte_addr, pte_valid = rv_pte_valid, pte_set_rsw = rv_pte_set_rsw,
     pte_check_rsw = rv_pte_check_rsw, pte_table = rv_pte_table, pte_page = rv_pte_page,
     PTE_TABLE = RV_PTE_VALID, PTE_PAGE = RV_PTE_RWX OR RV_PTE_VALID, PTE_SUPERPAGE = RV_PTE_RWX OR RV_PTE_VALID,
     PTE_RSW_MSK = RV_PTE_RSW_MSK, PTE_RSW_RSRV = shl 3 8,
     PTE_HYP_FLAGS = shl 1 5 OR shl 1 6 OR shl 1 7, PTE_VM_FLAGS = shl 1 6 OR shl 1 7 OR shl 1 4,
     PTE_HYP_DEV_FLAGS = shl 1 5 OR shl 1 6 OR shl 1 7, PTE_VM_DEV_FLAGS = shl 1 6 OR shl 1 7 OR shl 1 4\<rparr>"

subsection \<open>Armv8-A\<close>

definition A8_PTE_ADDR_MSK :: u64 where "A8_PTE_ADDR_MSK = (shl 1 48 - 1) AND NOT (shl 1 12 - 1)"
definition A8_PTE_RSW_MSK :: u64 where "A8_PTE_RSW_MSK = (shl 1 59 - 1) - (shl 1 55 - 1)"

definition a8_pte_set :: "u64 \<Rightarrow> u64 \<Rightarrow> u64 \<Rightarrow> u64" where
  "a8_pte_set addr type flags = (addr AND A8_PTE_ADDR_MSK) OR ((type OR flags) AND NOT A8_PTE_ADDR_MSK)"

definition a8_pte_addr :: "u64 \<Rightarrow> u64" where
  "a8_pte_addr pte = pte AND A8_PTE_ADDR_MSK"

definition a8_pte_valid :: "u64 \<Rightarrow> bool" where
  "a8_pte_valid pte \<longleftrightarrow> pte AND 1 \<noteq> 0"

definition a8_pte_set_rsw :: "u64 \<Rightarrow> u64 \<Rightarrow> u64" where
  "a8_pte_set_rsw pte flag = (pte AND NOT A8_PTE_RSW_MSK) OR (flag AND A8_PTE_RSW_MSK)"

definition a8_pte_check_rsw :: "u64 \<Rightarrow> u64 \<Rightarrow> bool" where
  "a8_pte_check_rsw pte flag \<longleftrightarrow> pte AND A8_PTE_RSW_MSK = flag AND A8_PTE_RSW_MSK"

definition a8_pte_table :: "page_table_dscr \<Rightarrow> u64 \<Rightarrow> nat \<Rightarrow> bool" where
  "a8_pte_table d pte l \<longleftrightarrow> (if l = lvls d - 1 then False else pte AND 3 = 3)"

definition a8_pte_page :: "page_table_dscr \<Rightarrow> u64 \<Rightarrow> nat \<Rightarrow> bool" where
  "a8_pte_page d pte l \<longleftrightarrow>
     (if \<not> pt_lvl_terminal d l then False else if l \<noteq> lvls d - 1 then pte AND 3 = 1 else pte AND 3 = 3)"

definition armv8_pte_ops :: pte_ops where
  "armv8_pte_ops = \<lparr>pte_set = a8_pte_set, pte_addr = a8_pte_addr, pte_valid = a8_pte_valid, pte_set_rsw = a8_pte_set_rsw,
     pte_check_rsw = a8_pte_check_rsw, pte_table = a8_pte_table, pte_page = a8_pte_page,
     PTE_TABLE = 3, PTE_PAGE = 3, PTE_SUPERPAGE = 1, PTE_RSW_MSK = A8_PTE_RSW_MSK, PTE_RSW_RSRV = shl 3 55,
     PTE_HYP_FLAGS = shl 1 2 OR shl 1 6 OR shl 3 8 OR shl 1 10,
     PTE_VM_FLAGS = shl 0xC 2 OR shl 3 2 OR shl 3 6 OR shl 1 10,
     PTE_HYP_DEV_FLAGS = shl 2 2 OR shl 1 6 OR shl 3 8 OR shl 1 10 OR shl 1 54,
     PTE_VM_DEV_FLAGS = shl 3 2 OR shl 3 6 OR shl 1 10\<rparr>"

section \<open>The contract of the format\<close>

definition pt_page_type :: "pte_ops \<Rightarrow> page_table_dscr \<Rightarrow> nat \<Rightarrow> u64" where
  "pt_page_type P d l = (if l = lvls d - 1 then PTE_PAGE P else PTE_SUPERPAGE P)"

text \<open>Addresses that an entry can hold: whole pages below \<open>2 ^ bits\<close>.\<close>

definition pte_phys :: "nat \<Rightarrow> u64 \<Rightarrow> bool" where
  "pte_phys bits a \<longleftrightarrow> 4096 dvd unat a \<and> unat a < 2 ^ bits"

text \<open>
  \<open>flags_ok\<close> are the flags that do not change the type of an entry. A table entry names a table on
  every level but the last, a page entry never does, and software bits are not part of the type.
\<close>

locale pte_format =
  fixes P :: pte_ops and bits :: nat and flags_ok :: "u64 \<Rightarrow> bool"
  assumes table_entry: "pte_phys bits a \<Longrightarrow> l < lvls d - 1 \<Longrightarrow>
      pte_valid P (pte_set P a (PTE_TABLE P) (PTE_HYP_FLAGS P)) \<and> pte_table P d (pte_set P a (PTE_TABLE P) (PTE_HYP_FLAGS P)) l \<and>
      pte_addr P (pte_set P a (PTE_TABLE P) (PTE_HYP_FLAGS P)) = a"
    and leaf_entry: "pte_phys bits a \<Longrightarrow> flags_ok f \<Longrightarrow>
      pte_valid P (pte_set P a (pt_page_type P d l) f) \<and> \<not> pte_table P d (pte_set P a (pt_page_type P d l) f) l \<and>
      pte_addr P (pte_set P a (pt_page_type P d l) f) = a"
    and invalid_entry: "\<not> pte_valid P (0 OR (v AND PTE_RSW_MSK P))"
    and addr_phys: "pte_phys bits (pte_addr P v)"
    and rsw_valid: "pte_valid P (pte_set_rsw P v f) = pte_valid P v"
    and table_valid: "pte_table P d v l \<Longrightarrow> pte_valid P v"
    and rsw_inherit: "pte_check_rsw P (0 OR (v AND PTE_RSW_MSK P)) f = pte_check_rsw P v f"
    and rsw_set: "pte_check_rsw P (pte_set_rsw P v f) f"

lemma masked_or: "((v AND NOT m) OR (f AND m)) AND m = f AND m" for m :: "'a::len word"
  by (rule bit_word_eqI) (auto simp: bit_and_iff bit_or_iff bit_not_iff)

lemma bit_RV_masks:
  "bit RV_PTE_ADDR_MSK n \<longleftrightarrow> 12 \<le> n \<and> n < 56" "bit RV_PTE_FLAGS_MSK n \<longleftrightarrow> n < 8" "bit RV_PTE_RSW_MSK n \<longleftrightarrow> 8 \<le> n \<and> n < 10"
  by (auto simp: RV_PTE_ADDR_MSK_def RV_PTE_FLAGS_MSK_def RV_PTE_RSW_MSK_def bit_BIT_MASK)

lemma bit_above_phys:
  assumes "unat (a :: u64) < 2 ^ k" and "k \<le> n"
  shows "\<not> bit a n"
proof -
  have "a = take_bit k a" using assms(1) by (simp add: word_unat_eq_iff unsigned_take_bit_eq take_bit_nat_eq_self)
  then show ?thesis using assms(2) by (metis bit_take_bit_iff not_less)
qed

lemma bit_below_page:
  assumes "4096 dvd unat (a :: u64)" and "n < 12"
  shows "\<not> bit a n"
proof -
  have "take_bit 12 (unat a) = 0" using assms(1) by (simp add: take_bit_eq_mod dvd_eq_mod_eq_0)
  then have "take_bit 12 a = 0" by (simp add: word_unat_eq_iff unsigned_take_bit_eq)
  then have "\<not> bit (take_bit 12 a) n" by simp
  with assms(2) show ?thesis by (simp add: bit_take_bit_iff)
qed

lemma phys_bits:
  assumes "\<And>n. bit (a :: u64) n \<Longrightarrow> 12 \<le> n \<and> n < k"
  shows "pte_phys k a"
proof -
  have "take_bit 12 a = 0" by (rule bit_word_eqI) (use assms in \<open>fastforce simp: bit_take_bit_iff\<close>)
  then have "take_bit 12 (unat a) = 0" by (metis unsigned_take_bit_eq unsigned_0)
  moreover have "take_bit k a = a" by (rule bit_word_eqI) (use assms in \<open>auto simp: bit_take_bit_iff\<close>)
  then have "take_bit k (unat a) = unat a" by (metis unsigned_take_bit_eq)
  then have "unat a < 2 ^ k" by (metis take_bit_nat_less_exp)
  ultimately show ?thesis by (simp add: pte_phys_def take_bit_eq_mod dvd_eq_mod_eq_0)
qed

lemma masked_phys: "a AND RV_PTE_ADDR_MSK = a \<Longrightarrow> pte_phys 56 a"
  by (rule phys_bits) (metis bit_and_iff bit_RV_masks(1))

lemma phys_masked: "pte_phys 56 a \<Longrightarrow> a AND RV_PTE_ADDR_MSK = a"
  by (rule bit_word_eqI) (use bit_above_phys [of a 56] bit_below_page [of a] in
    \<open>auto simp: pte_phys_def bit_and_iff bit_RV_masks not_less [symmetric]\<close>)

subsection \<open>RISC-V\<close>

lemma bit_RV_PTE_VALID: "bit RV_PTE_VALID n \<longleftrightarrow> n = 0"
  by (auto simp: RV_PTE_VALID_def bit_shl bit_1_iff)

lemma rv_pte_valid_bit: "rv_pte_valid v \<longleftrightarrow> bit v 0"
  by (simp add: rv_pte_valid_def RV_PTE_VALID_def shl_def and_one_eq odd_iff_mod_2_eq_one bit_0)

lemma rv_pte_set_bits:
  assumes "pte_phys 56 a"
  shows "bit (rv_pte_set a t f) n \<longleftrightarrow>
    (if n < 8 then bit (if t = RV_PTE_VALID then t else t OR f) n else bit a (n + 2))"
  using bit_above_phys [of a 56 "n + 2"] bit_below_page [of a "n + 2"] assms
  by (auto simp: rv_pte_set_def bit_or_iff bit_and_iff bit_drop_bit_eq bit_RV_masks phys_masked pte_phys_def add.commute)

lemma rv_pte_addr_set:
  assumes "pte_phys 56 a"
  shows "rv_pte_addr (rv_pte_set a t f) = a"
proof (rule bit_word_eqI)
  fix n assume "n < LENGTH(64)"
  have n: "Suc (Suc (n - 2)) = n" if "12 \<le> n" using that by simp
  have "bit (rv_pte_addr (rv_pte_set a t f)) n \<longleftrightarrow> 12 \<le> n \<and> n < 56 \<and> bit a n"
    by (auto simp: rv_pte_addr_def bit_and_iff bit_push_bit_iff bit_RV_masks rv_pte_set_bits [OF assms] n)
  then show "bit (rv_pte_addr (rv_pte_set a t f)) n \<longleftrightarrow> bit a n"
    using assms bit_above_phys [of a 56 n] bit_below_page [of a n] by (auto simp: pte_phys_def not_less [symmetric])
qed

lemma bit_0xF: "bit (0xF :: u64) n \<longleftrightarrow> n < 4"
proof -
  have m: "(0xF :: u64) = mask 4" by (simp add: mask_eq_exp_minus_1)
  show ?thesis unfolding m by (auto simp: bit_mask_iff)
qed

lemma low4: "v AND 0xF = (w AND 0xF :: u64) \<longleftrightarrow> (\<forall>n < 4. bit v n = bit w n)"
proof (rule iffI)
  assume eq: "v AND 0xF = w AND 0xF"
  have "bit v n = bit w n" if "n < 4" for n
    using arg_cong [OF eq, of "\<lambda>x. bit x n"] that unfolding bit_and_iff bit_0xF by simp
  then show "\<forall>n < 4. bit v n = bit w n" by simp
next
  assume "\<forall>n < 4. bit v n = bit w n"
  then show "v AND 0xF = w AND 0xF"
    by (intro bit_word_eqI) (unfold bit_and_iff bit_0xF, auto)
qed

lemma rv_pte_table_bits: "rv_pte_table d v l \<longleftrightarrow> bit v 0 \<and> \<not> bit v 1 \<and> \<not> bit v 2 \<and> \<not> bit v 3"
proof -
  have "rv_pte_table d v l \<longleftrightarrow> (\<forall>n < 4. bit v n = bit RV_PTE_VALID n)"
    using low4 [of v RV_PTE_VALID] by (simp add: rv_pte_table_def RV_PTE_VALID_def shl_def)
  also have "\<dots> \<longleftrightarrow> bit v 0 \<and> \<not> bit v 1 \<and> \<not> bit v 2 \<and> \<not> bit v 3"
    by (auto simp: bit_RV_PTE_VALID numeral_eq_Suc less_Suc_eq)
  finally show ?thesis .
qed

lemma bit_RV_PTE_RWX: "bit RV_PTE_RWX n \<longleftrightarrow> n = 1 \<or> n = 2 \<or> n = 3"
  by (auto simp: RV_PTE_RWX_def bit_or_iff bit_shl bit_1_iff)

lemma rv_page_type: "RV_PTE_RWX OR RV_PTE_VALID \<noteq> RV_PTE_VALID"
proof
  assume "RV_PTE_RWX OR RV_PTE_VALID = RV_PTE_VALID"
  then have "bit (RV_PTE_RWX OR RV_PTE_VALID) 1 = bit RV_PTE_VALID 1" by simp
  then show False by (simp add: bit_or_iff bit_RV_PTE_RWX bit_RV_PTE_VALID)
qed

interpretation riscv: pte_format riscv_pte_ops 56 "\<lambda>f. True"
proof (unfold_locales, goal_cases)
  case (1 a l d)
  then show ?case
    by (simp add: riscv_pte_ops_def rv_pte_valid_bit rv_pte_table_bits rv_pte_set_bits rv_pte_addr_set bit_RV_PTE_VALID)
next
  case (2 a f d l)
  then show ?case
    by (simp add: riscv_pte_ops_def pt_page_type_def rv_pte_valid_bit rv_pte_table_bits rv_pte_set_bits rv_pte_addr_set
        rv_page_type bit_or_iff bit_RV_PTE_RWX bit_RV_PTE_VALID)
next
  case (3 v)
  then show ?case by (simp add: riscv_pte_ops_def rv_pte_valid_bit bit_and_iff bit_RV_masks)
next
  case (4 v)
  have "rv_pte_addr v AND RV_PTE_ADDR_MSK = rv_pte_addr v" by (simp add: rv_pte_addr_def and.assoc)
  then show ?case by (simp add: riscv_pte_ops_def masked_phys)
next
  case (5 v f)
  then show ?case
    by (simp add: riscv_pte_ops_def rv_pte_valid_bit rv_pte_set_rsw_def bit_or_iff bit_and_iff bit_not_iff bit_RV_masks)
next
  case (6 d v l)
  then show ?case by (simp add: riscv_pte_ops_def rv_pte_valid_bit rv_pte_table_bits)
next
  case (7 v f)
  then show ?case by (simp add: riscv_pte_ops_def rv_pte_check_rsw_def and.assoc)
next
  case (8 v f)
  show ?case
    by (simp add: riscv_pte_ops_def rv_pte_check_rsw_def rv_pte_set_rsw_def masked_or)
qed

subsection \<open>Armv8-A\<close>

lemma bit_A8_masks: "bit A8_PTE_ADDR_MSK n \<longleftrightarrow> 12 \<le> n \<and> n < 48" "bit A8_PTE_RSW_MSK n \<longleftrightarrow> 55 \<le> n \<and> n < 59"
proof -
  have m: "shl 1 k - 1 = (mask k :: u64)" if "k < 64" for k
    using that by (simp add: shl_def mask_eq_exp_minus_1 push_bit_eq_mult)
  show "bit A8_PTE_ADDR_MSK n \<longleftrightarrow> 12 \<le> n \<and> n < 48"
    unfolding A8_PTE_ADDR_MSK_def by (auto simp: m bit_and_iff bit_not_iff bit_mask_iff)
  have "mask 59 - mask 55 = (BIT_MASK 55 4 :: u64)" by (simp add: BIT_MASK_def shl_def mask_eq_exp_minus_1)
  then show "bit A8_PTE_RSW_MSK n \<longleftrightarrow> 55 \<le> n \<and> n < 59"
    unfolding A8_PTE_RSW_MSK_def by (auto simp: m bit_BIT_MASK)
qed

lemma a8_addr_masked: "pte_phys 48 a \<Longrightarrow> a AND A8_PTE_ADDR_MSK = a"
  by (rule bit_word_eqI) (use bit_above_phys [of a 48] bit_below_page [of a] in
    \<open>auto simp: pte_phys_def bit_and_iff bit_A8_masks not_less [symmetric]\<close>)

lemma a8_pte_addr_set: "pte_phys 48 a \<Longrightarrow> a8_pte_addr (a8_pte_set a t f) = a"
  by (simp add: a8_pte_set_def a8_pte_addr_def a8_addr_masked bit.conj_disj_distrib2 and.assoc)

lemma a8_addr_low: "n < 12 \<Longrightarrow> \<not> bit (a AND A8_PTE_ADDR_MSK) n"
  by (simp add: bit_and_iff bit_A8_masks)

lemma bit_3: "bit (3 :: u64) n \<longleftrightarrow> n < 2"
proof -
  have m: "(3 :: u64) = mask 2" by (simp add: mask_eq_exp_minus_1)
  show ?thesis unfolding m by (auto simp: bit_mask_iff)
qed

lemma a8_set_low:
  assumes "f AND 3 = 0"
  shows "a8_pte_set a t f AND 3 = t AND 3"
proof (rule bit_word_eqI)
  fix n :: nat
  have "\<not> bit f n" if "n < 2" using arg_cong [OF assms, of "\<lambda>x. bit x n"] that unfolding bit_and_iff bit_3 by simp
  then show "bit (a8_pte_set a t f AND 3) n = bit (t AND 3) n"
    unfolding a8_pte_set_def bit_and_iff bit_or_iff bit_not_iff bit_A8_masks bit_3 by auto
qed

lemma a8_valid_low: "a8_pte_valid v \<longleftrightarrow> (v AND 3) AND 1 \<noteq> 0"
  by (simp add: a8_pte_valid_def and.assoc)

lemma a8_valid_bit: "a8_pte_valid v \<longleftrightarrow> bit v 0"
  by (simp add: a8_pte_valid_def and_one_eq odd_iff_mod_2_eq_one bit_0)

interpretation armv8a: pte_format armv8_pte_ops 48 "\<lambda>f. f AND 3 = 0"
proof (unfold_locales, goal_cases)
  case (1 a l d)
  have "PTE_HYP_FLAGS armv8_pte_ops AND 3 = 0" by (simp add: armv8_pte_ops_def shl_def)
  with 1 show ?case
    by (simp add: armv8_pte_ops_def a8_valid_low a8_pte_table_def a8_pte_addr_set a8_set_low)
next
  case (2 a f d l)
  then show ?case
    by (simp add: armv8_pte_ops_def pt_page_type_def a8_valid_low a8_pte_table_def a8_pte_addr_set a8_set_low)
next
  case (3 v)
  have "\<not> bit (v AND A8_PTE_RSW_MSK) 0" by (simp add: bit_and_iff bit_A8_masks)
  then show ?case by (simp add: armv8_pte_ops_def a8_pte_valid_def and_one_eq bit_0 even_iff_mod_2_eq_zero)
next
  case (4 v)
  show ?case unfolding armv8_pte_ops_def
    by (simp, rule phys_bits) (simp add: a8_pte_addr_def bit_and_iff bit_A8_masks)
next
  case (5 v f)
  have "bit (a8_pte_set_rsw v f) 0 = bit v 0"
    by (simp only: a8_pte_set_rsw_def bit_or_iff bit_and_iff bit_not_iff bit_A8_masks) simp
  then show ?case by (simp add: armv8_pte_ops_def a8_valid_bit)
next
  case (6 d v l)
  then have "v AND 3 = 3" by (simp add: armv8_pte_ops_def a8_pte_table_def split: if_splits)
  then show ?case by (simp add: armv8_pte_ops_def a8_valid_low)
next
  case (7 v f)
  then show ?case by (simp add: armv8_pte_ops_def a8_pte_check_rsw_def and.assoc)
next
  case (8 v f)
  show ?case
    by (simp add: armv8_pte_ops_def a8_pte_check_rsw_def a8_pte_set_rsw_def masked_or)
qed

end
