(* ===== verification/Colored_Alloc.thy ===== *)
theory Colored_Alloc
  imports Page_Pool
begin

text \<open>
  Colored allocation, \<open>pp_alloc_clr\<close> of \<open>src/src/core/mmu/mem.c\<close>: its search loops, the
  lemma that they end whenever some color is selected, and that the pages found are free, of a
  selected color and marked, in the order in which \<open>pp_next_clr\<close> enumerates them.
\<close>

section \<open>The search loops\<close>

text \<open>The first free page of a selected color.\<close>

partial_function (option) clr_skip ::
    "nat \<Rightarrow> nat \<Rightarrow> page_pool \<Rightarrow> u64 \<Rightarrow> nat \<Rightarrow> nat \<Rightarrow> nat option" where
  "clr_skip cn cs pool colors limit index =
     (if index < limit \<and> bitmap_get (pp_bitmap pool) index \<noteq> 0
      then Option.bind (pp_next_clr cn cs (pp_base pool) (index + 1) colors)
             (clr_skip cn cs pool colors limit)
      else Some index)"

text \<open>How many free pages of a selected color follow, up to n.\<close>

partial_function (option) clr_count ::
    "nat \<Rightarrow> nat \<Rightarrow> page_pool \<Rightarrow> u64 \<Rightarrow> nat \<Rightarrow> nat \<Rightarrow> nat \<Rightarrow> nat \<Rightarrow> (nat \<times> nat) option" where
  "clr_count cn cs pool colors n tp allocated index =
     (if index < tp \<and> bitmap_get (pp_bitmap pool) index = 0 \<and> allocated < n
      then Option.bind (pp_next_clr cn cs (pp_base pool) (index + 1) colors)
             (clr_count cn cs pool colors n tp (allocated + 1))
      else Some (allocated, index))"

text \<open>The state of the outer loop is \<open>(allocated, index, first_index)\<close>.\<close>

partial_function (option) clr_search ::
    "nat \<Rightarrow> nat \<Rightarrow> page_pool \<Rightarrow> u64 \<Rightarrow> nat \<Rightarrow> nat \<Rightarrow> nat \<Rightarrow> nat \<Rightarrow> nat \<Rightarrow> nat \<Rightarrow>
     (nat \<times> nat \<times> nat) option" where
  "clr_search cn cs pool colors n tp limit allocated index first_index =
     (if allocated < n \<and> index < limit then
        Option.bind (clr_skip cn cs pool colors limit index)
          (\<lambda>index. if index \<ge> limit then Some (0, index, first_index)
             else Option.bind (clr_count cn cs pool colors n tp 0 index)
               (\<lambda>(allocated, index').
                  clr_search cn cs pool colors n tp limit allocated index' index))
      else Some (allocated, index, first_index))"

fun clr_mark :: "nat \<Rightarrow> nat \<Rightarrow> page_pool \<Rightarrow> u64 \<Rightarrow> nat \<Rightarrow> nat \<Rightarrow> (page_pool \<times> nat) option" where
  "clr_mark cn cs pool colors 0 first_index = Some (pool, first_index)"
| "clr_mark cn cs pool colors (Suc n) first_index =
     Option.bind (pp_next_clr cn cs (pp_base pool) first_index colors)
       (\<lambda>first_index. clr_mark cn cs (pool\<lparr>pp_bitmap := bitmap_set (pp_bitmap pool) first_index\<rparr>)
          colors n (first_index + 1))"

definition clr_commit :: "nat \<Rightarrow> nat \<Rightarrow> page_pool \<Rightarrow> u64 \<Rightarrow> nat \<Rightarrow> nat \<Rightarrow> ppages \<Rightarrow>
    (bool \<times> page_pool \<times> ppages) option" where
  "clr_commit cn cs pool colors n first_index pg =
     (let pg = pg\<lparr>pa_num := n, pa_base := pp_base pool + of_nat first_index * PAGE_SIZE\<rparr>
      in Option.bind (clr_mark cn cs pool colors n first_index)
           (\<lambda>(pool, first_index).
              Some (True, pool\<lparr>pp_free := pp_free pool - of_nat n, pp_last := first_index\<rparr>, pg)))"

definition pp_alloc_clr :: "nat \<Rightarrow> nat \<Rightarrow> page_pool \<Rightarrow> nat \<Rightarrow> u64 \<Rightarrow> ppages \<Rightarrow>
    (bool \<times> page_pool \<times> ppages) option" where
  "pp_alloc_clr cn cs pool n colors pg =
     (let pg = pg\<lparr>pa_colors := colors, pa_num := 0\<rparr>; tp = pp_num_pages pool
      in Option.bind (pp_next_clr cn cs (pp_base pool) (pp_last pool) colors)
        (\<lambda>index. Option.bind (clr_search cn cs pool colors n tp tp 0 index 0)
          (\<lambda>(allocated, index, first_index).
             if allocated = n then clr_commit cn cs pool colors n first_index pg
             else Option.bind (pp_next_clr cn cs (pp_base pool) 0 colors)
               (\<lambda>index. Option.bind
                 (clr_search cn cs pool colors n tp (pp_last pool) allocated index first_index)
                 (\<lambda>(allocated, index, first_index).
                    if allocated = n then clr_commit cn cs pool colors n first_index pg
                    else Some (False, pool, pg))))))"

section \<open>The searches end\<close>

text \<open>The first n selected pages from \<open>i\<close> on are pages of the pool and free.\<close>

definition clr_free_run :: "(nat \<Rightarrow> bool) \<Rightarrow> page_pool \<Rightarrow> nat \<Rightarrow> nat \<Rightarrow> bool" where
  "clr_free_run P pool i n \<longleftrightarrow>
     (\<forall>x \<in> set (first_sat P i n). x < pp_num_pages pool \<and> \<not> bm (pp_bitmap pool) x)"

lemma clr_skip_ends:
  fixes pool :: page_pool
  assumes c: "\<not> all_clrs cn colors" "0 < cs"
  defines "P \<equiv> page_selected cn cs colors pool"
  assumes "P index"
  shows "\<exists>i. clr_skip cn cs pool colors limit index = Some i \<and> index \<le> i \<and> P i \<and>
    (i < limit \<longrightarrow> \<not> bm (pp_bitmap pool) i)"
  using assms(4)
proof (induction "limit - index" arbitrary: index rule: less_induct)
  case less
  have u: "unbounded_sat P"
    unfolding P_def page_selected_def by (rule unbounded_shift [OF selected_exists [OF c]])
  show ?case
  proof (cases "index < limit \<and> bm (pp_bitmap pool) index")
    case True
    let ?i = "next_sat P (index + 1)"
    have i: "index < ?i" "P ?i" using next_sat_props [OF u, of "index + 1"] by auto
    from True i(1) have "limit - ?i < limit - index" by (intro diff_less_mono2) auto
    from less.hyps [OF this i(2)] obtain j where j: "clr_skip cn cs pool colors limit ?i = Some j" "?i \<le> j" "P j"
        "j < limit \<longrightarrow> \<not> bm (pp_bitmap pool) j"
      by blast
    have "clr_skip cn cs pool colors limit index = Some j"
      using True j(1)
      by (simp add: clr_skip.simps [of _ _ _ _ _ index] bitmap_get_bm pp_next_clr_eq [OF c] P_def)
    with j i show ?thesis by auto
  next
    case False
    then have "clr_skip cn cs pool colors limit index = Some index"
      by (auto simp: clr_skip.simps [of _ _ _ _ _ index] bitmap_get_bm)
    with False less.prems show ?thesis by auto
  qed
qed

lemma clr_count_ends:
  fixes pool :: page_pool
  assumes c: "\<not> all_clrs cn colors" "0 < cs"
  defines "P \<equiv> page_selected cn cs colors pool"
  assumes "P index" and "a \<le> n" and tp: "tp = pp_num_pages pool"
  shows "\<exists>a' i. clr_count cn cs pool colors n tp a index = Some (a', i) \<and> a \<le> a' \<and> a' \<le> n \<and>
    index \<le> i \<and> P i \<and> clr_free_run P pool index (a' - a) \<and>
    (index < tp \<and> \<not> bm (pp_bitmap pool) index \<and> a < n \<longrightarrow> index < i)"
  using assms(4,5)
proof (induction "n - a" arbitrary: a index rule: less_induct)
  case less
  have u: "unbounded_sat P"
    unfolding P_def page_selected_def by (rule unbounded_shift [OF selected_exists [OF c]])
  show ?case
  proof (cases "index < tp \<and> \<not> bm (pp_bitmap pool) index \<and> a < n")
    case True
    let ?i = "next_sat P (index + 1)"
    have i: "index < ?i" "P ?i" using next_sat_props [OF u, of "index + 1"] by auto
    from True have "n - (a + 1) < n - a" "a + 1 \<le> n" by auto
    from less.hyps [OF this(1) i(2) this(2)] obtain a' j where j: "clr_count cn cs pool colors n tp (a + 1) ?i = Some (a', j)"
        "a + 1 \<le> a'" "a' \<le> n" "?i \<le> j" "P j" "clr_free_run P pool ?i (a' - (a + 1))"
      by blast
    have "clr_count cn cs pool colors n tp a index = Some (a', j)"
      using True j(1)
      by (simp add: clr_count.simps [of _ _ _ _ _ _ _ index] bitmap_get_bm pp_next_clr_eq [OF c] P_def)
    moreover have "clr_free_run P pool index (a' - a)"
    proof -
      have "first_sat P index (Suc (a' - Suc a)) = index # first_sat P (index + 1) (a' - Suc a)"
        using less.prems(1) by (simp add: next_sat_here)
      moreover have "first_sat P (index + 1) m = first_sat P ?i m" for m
        using i(2) by (cases m) (simp_all add: next_sat_here)
      moreover have "a' - a = Suc (a' - Suc a)" using j(2) by simp
      ultimately show ?thesis using True j(6) tp by (simp add: clr_free_run_def)
    qed
    ultimately show ?thesis using j i by auto
  next
    case False
    then have "clr_count cn cs pool colors n tp a index = Some (a, index)"
      by (auto simp: clr_count.simps [of _ _ _ _ _ _ _ index] bitmap_get_bm)
    with False less.prems show ?thesis by (auto simp: clr_free_run_def)
  qed
qed

lemma clr_search_ends:
  fixes pool :: page_pool
  assumes c: "\<not> all_clrs cn colors" "0 < cs"
  defines "P \<equiv> page_selected cn cs colors pool"
  assumes "P index" and "limit \<le> pp_num_pages pool"
    and "a \<le> n" and "a = n \<longrightarrow> 0 < n \<longrightarrow> P f \<and> clr_free_run P pool f n"
  shows "\<exists>a' i f'. clr_search cn cs pool colors n (pp_num_pages pool) limit a index f = Some (a', i, f') \<and>
    a' \<le> n \<and> P i \<and> (a' = n \<longrightarrow> 0 < n \<longrightarrow> P f' \<and> clr_free_run P pool f' n)"
  using assms(4-7)
proof (induction "limit - index" arbitrary: a index f rule: less_induct)
  case less
  show ?case
  proof (cases "a < n \<and> index < limit")
    case False
    then have "clr_search cn cs pool colors n (pp_num_pages pool) limit a index f = Some (a, index, f)"
      by (subst clr_search.simps) auto
    with less.prems show ?thesis by auto
  next
    case True
    obtain i where i: "clr_skip cn cs pool colors limit index = Some i" "index \<le> i" "P i"
      "i < limit \<longrightarrow> \<not> bm (pp_bitmap pool) i"
      using clr_skip_ends [OF c, of pool index limit] less.prems(1) by (auto simp: P_def)
    show ?thesis
    proof (cases "i < limit")
      case False
      then have "clr_search cn cs pool colors n (pp_num_pages pool) limit a index f = Some (0, i, f)"
        using True i(1) by (subst clr_search.simps) auto
      with True i(3) show ?thesis by auto
    next
      case il: True
      obtain a' j where j: "clr_count cn cs pool colors n (pp_num_pages pool) 0 i = Some (a', j)"
          "a' \<le> n" "i \<le> j" "P j" "clr_free_run P pool i a'"
          "i < pp_num_pages pool \<and> \<not> bm (pp_bitmap pool) i \<and> 0 < n \<longrightarrow> i < j"
        using clr_count_ends [OF c, of pool i 0 n "pp_num_pages pool"] i(3) by (auto simp: P_def)
      have ij: "i < j" using j(6) il i(4) True less.prems(2) by auto
      have step: "clr_search cn cs pool colors n (pp_num_pages pool) limit a index f =
          clr_search cn cs pool colors n (pp_num_pages pool) limit a' j i"
        using True il i(1) j(1) by (subst clr_search.simps) auto
      have "limit - j < limit - index" using ij i(2) il by simp
      from less.hyps [OF this j(4) less.prems(2) j(2), of i] show ?thesis
        unfolding step using j(5) i(3) by blast
    qed
  qed
qed

section \<open>The pages of a colored grant\<close>

lemma clr_mark_eq:
  assumes c: "\<not> all_clrs cn colors" "0 < cs"
  shows "\<exists>p' f'. clr_mark cn cs pool colors n f = Some (p', f') \<and>
    p' = pool\<lparr>pp_bitmap := pp_bitmap p'\<rparr> \<and>
    (\<forall>i. bm (pp_bitmap p') i \<longleftrightarrow>
      bm (pp_bitmap pool) i \<or> i \<in> set (first_sat (page_selected cn cs colors pool) f n)) \<and>
    f' = (if n = 0 then f else last (first_sat (page_selected cn cs colors pool) f n) + 1)"
proof (induction n arbitrary: pool f)
  case 0
  then show ?case by simp
next
  case (Suc n)
  let ?P = "page_selected cn cs colors pool"
  let ?i = "next_sat ?P f"
  let ?pool = "pool\<lparr>pp_bitmap := bitmap_set (pp_bitmap pool) ?i\<rparr>"
  have P: "page_selected cn cs colors ?pool = ?P"
    by (rule ext) (simp add: page_selected_def pp_frame0_def)
  from Suc [of ?pool "?i + 1"] obtain p' f' where
    m: "clr_mark cn cs ?pool colors n (?i + 1) = Some (p', f')" "p' = ?pool\<lparr>pp_bitmap := pp_bitmap p'\<rparr>"
    and b: "\<And>i. bm (pp_bitmap p') i \<longleftrightarrow> bm (bitmap_set (pp_bitmap pool) ?i) i \<or>
        i \<in> set (first_sat ?P (?i + 1) n)"
    and f': "f' = (if n = 0 then ?i + 1 else last (first_sat ?P (?i + 1) n) + 1)"
    unfolding P by auto
  have "first_sat ?P (?i + 1) n \<noteq> []" if "n \<noteq> 0" using that by (cases n) auto
  moreover have "clr_mark cn cs pool colors (Suc n) f = Some (p', f')"
    using m(1) by (simp add: pp_next_clr_eq [OF c])
  moreover have "p' = pool\<lparr>pp_bitmap := pp_bitmap p'\<rparr>" using m(2) by (metis page_pool.update_convs(5) page_pool.surjective)
  ultimately show ?case using b f' by (auto simp: bm_simps)
qed

end
