(* ===== verification/Page_Alloc.thy ===== *)
theory Page_Alloc
  imports Colored_Alloc
begin

text \<open>
  The allocator over the list of page pools, \<open>mem_alloc_ppages\<close> and \<open>mem_free_ppages\<close>: the
  pools of \<open>page_pool_list\<close> in list order. It meets the allocator contract of
  \<open>Allocator_Interface\<close>, for contiguous, aligned and colored requests, over any number of pools.
\<close>

section \<open>Allocation over the list of pools\<close>

text \<open>
  \<open>pp_alloc_clr\<close> is a weak symbol: the default halts, the MMU configuration overrides it.
\<close>

definition pp_alloc_clr_default :: "page_pool \<Rightarrow> nat \<Rightarrow> u64 \<Rightarrow> ppages \<Rightarrow> (bool \<times> page_pool \<times> ppages) outcome" where
  "pp_alloc_clr_default pool n colors pg =
     Inl (ERROR ''Trying to allocate colored pages but there is no coloring implementation'')"

definition pp_alloc_clr_mmu :: "nat \<Rightarrow> nat \<Rightarrow> page_pool \<Rightarrow> nat \<Rightarrow> u64 \<Rightarrow> ppages \<Rightarrow> (bool \<times> page_pool \<times> ppages) outcome" where
  "pp_alloc_clr_mmu cn cs pool n colors pg =
     (case pp_alloc_clr cn cs pool n colors pg of None \<Rightarrow> Inl NO_RETURN | Some r \<Rightarrow> Inr r)"

fun mem_alloc_ppages_loop ::
    "(page_pool \<Rightarrow> nat \<Rightarrow> u64 \<Rightarrow> ppages \<Rightarrow> (bool \<times> page_pool \<times> ppages) outcome) \<Rightarrow> nat \<Rightarrow>
     page_pool list \<Rightarrow> u64 \<Rightarrow> nat \<Rightarrow> bool \<Rightarrow> ppages \<Rightarrow> (page_pool list \<times> ppages) outcome" where
  "mem_alloc_ppages_loop clr cn [] colors n aligned pages = Inr ([], pages)"
| "mem_alloc_ppages_loop clr cn (pool # pools) colors n aligned pages =
     obind (if \<not> all_clrs cn colors \<and> \<not> aligned then clr pool n colors pages
            else Inr (pp_alloc pool n aligned pages))
       (\<lambda>(ok, pool, pages).
          if ok then Inr (pool # pools, pages)
          else obind (mem_alloc_ppages_loop clr cn pools colors n aligned pages)
                 (\<lambda>(pools, pages). Inr (pool # pools, pages)))"

definition mem_alloc_ppages ::
    "(page_pool \<Rightarrow> nat \<Rightarrow> u64 \<Rightarrow> ppages \<Rightarrow> (bool \<times> page_pool \<times> ppages) outcome) \<Rightarrow> nat \<Rightarrow>
     page_pool list \<Rightarrow> u64 \<Rightarrow> nat \<Rightarrow> bool \<Rightarrow> (page_pool list \<times> ppages) outcome" where
  "mem_alloc_ppages clr cn pools colors n aligned =
     mem_alloc_ppages_loop clr cn pools colors n aligned \<lparr>pa_base = 0, pa_num = 0, pa_colors = 0\<rparr>"

section \<open>One pool\<close>

text \<open>The frames that a grant stands for.\<close>

definition grant_frames :: "nat \<Rightarrow> nat \<Rightarrow> ppages \<Rightarrow> nat set" where
  "grant_frames cn cs g =
     (if all_clrs cn (pa_colors g) then ppages_frames g
      else set (first_sat (frame_selected cn cs (pa_colors g)) (unat (pa_base g) div 4096) (pa_num g)))"

lemma grant_frames_empty [simp]: "pa_num g = 0 \<Longrightarrow> grant_frames cn cs g = {}"
  by (simp add: grant_frames_def ppages_frames_def)

text \<open>\<open>pool'\<close> is \<open>pool\<close> after the grant \<open>g\<close> of \<open>n\<close> pages.\<close>

definition pool_granted :: "nat \<Rightarrow> nat \<Rightarrow> page_pool \<Rightarrow> page_pool \<Rightarrow> nat \<Rightarrow> ppages \<Rightarrow> bool" where
  "pool_granted cn cs pool pool' n g \<longleftrightarrow>
     pp_wf pool' \<and> pp_frames pool' = pp_frames pool \<and> pa_num g = n \<and>
     grant_frames cn cs g \<subseteq> pp_frames pool \<and> grant_frames cn cs g \<inter> pp_used pool = {} \<and>
     pp_used pool' = pp_used pool \<union> grant_frames cn cs g \<and>
     (0 < n \<longrightarrow> pp_owns pool g \<and> unat (pa_base g) div 4096 \<in> grant_frames cn cs g)"

lemma pool_grantedD:
  assumes "pool_granted cn cs pool pool' n g"
  shows "pp_wf pool'" and "pp_frames pool' = pp_frames pool" and "pa_num g = n"
    and "grant_frames cn cs g \<subseteq> pp_frames pool" and "grant_frames cn cs g \<inter> pp_used pool = {}"
    and "pp_used pool' = pp_used pool \<union> grant_frames cn cs g" and "0 < n \<Longrightarrow> pp_owns pool g"
    and "0 < n \<Longrightarrow> unat (pa_base g) div 4096 \<in> grant_frames cn cs g"
  using assms by (simp_all add: pool_granted_def)

lemma pool_granted_contiguous:
  assumes "pp_alloc pool n aligned pg = (True, pool', g)" and "pp_wf pool"
  shows "pool_granted cn cs pool pool' n g"
proof (cases "n = 0")
  case True
  with assms(1) have "pool' = pool" "pa_num g = 0" by (auto simp: pp_alloc_def Let_def)
  with True assms(2) show ?thesis by (simp add: pool_granted_def)
next
  case False
  then have n: "0 < n" by simp
  note g = pp_alloc_grants [OF assms n]
  then have fr: "grant_frames cn cs g = ppages_frames g" by (simp add: grant_frames_def)
  have first: "unat (pa_base g) div 4096 \<in> ppages_frames g" using g n by (simp add: ppages_frames_def)
  with g have "pp_owns pool g" by (auto simp: pp_owns_def)
  with g fr first show ?thesis by (simp add: pool_granted_def)
qed

lemma clr_commit_result:
  assumes c: "\<not> all_clrs cn colors" "0 < cs" and wf: "pp_wf pool"
    and f: "0 < n \<longrightarrow> page_selected cn cs colors pool f \<and>
      clr_free_run (page_selected cn cs colors pool) pool f n"
    and f0: "n = 0 \<longrightarrow> f = 0" and pg: "pa_colors pg = colors"
  shows "\<exists>pool' g. clr_commit cn cs pool colors n f pg = Some (True, pool', g) \<and>
    pool_granted cn cs pool pool' n g"
proof -
  let ?P = "page_selected cn cs colors pool"
  let ?S = "set (first_sat ?P f n)"
  have u: "unbounded_sat (frame_selected cn cs colors)" by (rule selected_exists [OF c])
  have up: "unbounded_sat ?P" unfolding page_selected_def by (rule unbounded_shift [OF u])
  obtain p' f' where m: "clr_mark cn cs pool colors n f = Some (p', f')"
    "p' = pool\<lparr>pp_bitmap := pp_bitmap p'\<rparr>"
    and b: "\<And>i. bm (pp_bitmap p') i \<longleftrightarrow> bm (pp_bitmap pool) i \<or> i \<in> ?S"
    and f': "f' = (if n = 0 then f else last (first_sat ?P f n) + 1)"
    using clr_mark_eq [OF c, of pool n f] by blast
  have fields: "pp_base p' = pp_base pool" "pp_num_pages p' = pp_num_pages pool"
    by (subst m(2), simp)+
  define g where "g = pg\<lparr>pa_num := n, pa_base := pp_base pool + of_nat f * PAGE_SIZE\<rparr>"
  define pool' where "pool' = p'\<lparr>pp_free := pp_free p' - of_nat n, pp_last := f'\<rparr>"
  have commit: "clr_commit cn cs pool colors n f pg = Some (True, pool', g)"
    using m(1) by (simp add: clr_commit_def g_def pool'_def)
  have S: "x < pp_num_pages pool \<and> \<not> bm (pp_bitmap pool) x" if "x \<in> ?S" for x
    using f that by (cases "n = 0") (auto simp: clr_free_run_def)
  have fS: "f \<in> ?S" if "0 < n"
  proof -
    have "next_sat ?P f = f" using f that by (simp add: next_sat_here)
    then show ?thesis using that by (cases n) auto
  qed
  then have flt: "f < pp_num_pages pool" if "0 < n" using S that by blast
  have fle: "f \<le> pp_num_pages pool" using flt f0 by (cases "n = 0") auto
  have "f' \<le> pp_num_pages pool"
  proof (cases "n = 0")
    case False
    then have "first_sat ?P f n \<noteq> []" by (cases n) auto
    then have "last (first_sat ?P f n) \<in> ?S" by (rule last_in_set)
    with S f' False show ?thesis by fastforce
  qed (use f' f0 in simp)
  then have wf': "pp_wf pool'" using wf by (simp add: pp_wf_def pool'_def fields)
  have same: "pp_frames pool' = pp_frames pool" "pp_frame0 pool' = pp_frame0 pool"
    by (simp_all add: pool'_def pp_frames_def pp_frame0_def fields)
  have base: "unat (pa_base g) div 4096 = pp_frame0 pool + f"
    using page_addr_frame [OF wf fle] by (simp add: g_def)
  have gr: "grant_frames cn cs g = (+) (pp_frame0 pool) ` ?S"
  proof -
    have "grant_frames cn cs g = set (first_sat (frame_selected cn cs colors) (pp_frame0 pool + f) n)"
      using c(1) pg by (simp add: grant_frames_def base) (simp add: g_def)
    also have "\<dots> = set (map ((+) (pp_frame0 pool)) (first_sat ?P f n))"
      unfolding page_selected_def first_sat_shift [OF u] ..
    finally show ?thesis by simp
  qed
  have "pool_granted cn cs pool pool' n g"
    unfolding pool_granted_def
  proof (intro conjI impI)
    show "grant_frames cn cs g \<subseteq> pp_frames pool" using S by (auto simp: gr pp_frames_def)
    show "grant_frames cn cs g \<inter> pp_used pool = {}" using S by (auto simp: gr pp_used_def)
    have "pp_num_pages pool' = pp_num_pages pool" "pp_bitmap pool' = pp_bitmap p'"
      by (simp_all add: pool'_def fields)
    then have "pp_used pool' = {pp_frame0 pool + i | i. i < pp_num_pages pool \<and>
        (bm (pp_bitmap pool) i \<or> i \<in> ?S)}" by (simp add: pp_used_def same b)
    then show "pp_used pool' = pp_used pool \<union> grant_frames cn cs g"
      using S by (auto simp: gr pp_used_def)
    have "unat (pp_base pool + of_nat f * PAGE_SIZE) mod 4096 = 0"
      using unat_page_addr [OF wf fle] wf by (simp add: pp_wf_def mod_simps)
    then show "pp_owns pool g" if "0 < n"
      using flt that base by (simp add: pp_owns_def pp_frames_def) (simp add: g_def)
    show "unat (pa_base g) div 4096 \<in> grant_frames cn cs g" if "0 < n" using fS [OF that] by (simp add: gr base)
  qed (use wf' same in \<open>simp_all add: g_def\<close>)
  with commit show ?thesis by blast
qed

lemma pp_alloc_clr_result:
  assumes c: "\<not> all_clrs cn colors" "0 < cs" and wf: "pp_wf pool"
  shows "\<exists>ok pool' g. pp_alloc_clr cn cs pool n colors pg = Some (ok, pool', g) \<and>
    (ok \<longrightarrow> pool_granted cn cs pool pool' n g) \<and> (\<not> ok \<longrightarrow> pool' = pool \<and> pa_num g = 0)"
proof -
  let ?P = "page_selected cn cs colors pool"
  let ?N = "pp_num_pages pool"
  have up: "unbounded_sat ?P"
    unfolding page_selected_def by (rule unbounded_shift [OF selected_exists [OF c]])
  note nxt = pp_next_clr_eq [OF c, of pool]
  have P: "?P (next_sat ?P i)" for i by (rule next_sat_props(2) [OF up])
  have last: "pp_last pool \<le> ?N" using wf by (simp add: pp_wf_def)
  define pg0 where "pg0 = pg\<lparr>pa_colors := colors, pa_num := 0\<rparr>"
  show ?thesis
  proof (cases "n = 0")
    case True
    obtain pool' g where cm: "clr_commit cn cs pool colors n 0 pg0 = Some (True, pool', g)"
      "pool_granted cn cs pool pool' n g"
      using clr_commit_result [OF c wf, of n 0 pg0] True by (auto simp: pg0_def)
    have "clr_search cn cs pool colors n ?N ?N 0 i 0 = Some (0, i, 0)" for i
      using True by (subst clr_search.simps) simp
    with cm True have "pp_alloc_clr cn cs pool n colors pg = Some (True, pool', g)"
      by (simp add: pp_alloc_clr_def Let_def nxt pg0_def)
    with cm(2) show ?thesis by blast
  next
    case False
    then have n: "0 < n" by simp
    obtain a i f where s1: "clr_search cn cs pool colors n ?N ?N 0 (next_sat ?P (pp_last pool)) 0 = Some (a, i, f)"
      "a \<le> n" "a = n \<Longrightarrow> ?P f \<and> clr_free_run ?P pool f n"
      using clr_search_ends [OF c, of pool "next_sat ?P (pp_last pool)" ?N 0 n 0] P n by auto
    show ?thesis
    proof (cases "a = n")
      case True
      obtain pool' g where cm: "clr_commit cn cs pool colors n f pg0 = Some (True, pool', g)"
        "pool_granted cn cs pool pool' n g"
        using clr_commit_result [OF c wf, of n f pg0] s1(3) [OF True] n by (auto simp: pg0_def)
      with s1 True have "pp_alloc_clr cn cs pool n colors pg = Some (True, pool', g)"
        by (simp add: pp_alloc_clr_def Let_def nxt pg0_def)
      with cm(2) show ?thesis by blast
    next
      case an: False
      obtain a' i' f' where s2: "clr_search cn cs pool colors n ?N (pp_last pool) a (next_sat ?P 0) f = Some (a', i', f')"
        "a' = n \<Longrightarrow> ?P f' \<and> clr_free_run ?P pool f' n"
        using clr_search_ends [OF c, of pool "next_sat ?P 0" "pp_last pool" a n f] P n an s1(2) last by auto
      show ?thesis
      proof (cases "a' = n")
        case True
        obtain pool' g where cm: "clr_commit cn cs pool colors n f' pg0 = Some (True, pool', g)"
          "pool_granted cn cs pool pool' n g"
          using clr_commit_result [OF c wf, of n f' pg0] s2(2) [OF True] n by (auto simp: pg0_def)
        with s1 s2 True an have "pp_alloc_clr cn cs pool n colors pg = Some (True, pool', g)"
          by (simp add: pp_alloc_clr_def Let_def nxt pg0_def)
        with cm(2) show ?thesis by blast
      next
        case False
        with s1 s2 an have "pp_alloc_clr cn cs pool n colors pg = Some (False, pool, pg0)"
          by (simp add: pp_alloc_clr_def Let_def nxt pg0_def)
        moreover have "pa_num pg0 = 0" by (simp add: pg0_def)
        ultimately show ?thesis by blast
      qed
    qed
  qed
qed


section \<open>Release in one pool\<close>

lemma free_clr_loop_result:
  assumes c: "\<not> all_clrs cn colors" "0 < cs"
  shows "\<exists>bmp. free_clr_loop cn cs pool colors n f = Some (pool\<lparr>pp_bitmap := bmp\<rparr>) \<and>
    (\<forall>i. bm bmp i \<longleftrightarrow> bm (pp_bitmap pool) i \<and> i \<notin> set (first_sat (page_selected cn cs colors pool) f n))"
proof (induction n arbitrary: pool f)
  case 0
  show ?case by (intro exI [of _ "pp_bitmap pool"]) simp
next
  case (Suc n)
  let ?P = "page_selected cn cs colors pool"
  let ?i = "next_sat ?P f"
  let ?pool = "pool\<lparr>pp_bitmap := bitmap_clear (pp_bitmap pool) ?i\<rparr>"
  have P: "page_selected cn cs colors ?pool = ?P"
    by (rule ext) (simp add: page_selected_def pp_frame0_def)
  from Suc [of ?pool "?i + 1"] obtain bmp where
    "free_clr_loop cn cs ?pool colors n (?i + 1) = Some (?pool\<lparr>pp_bitmap := bmp\<rparr>)"
    and b: "\<And>i. bm bmp i \<longleftrightarrow> bm (bitmap_clear (pp_bitmap pool) ?i) i \<and> i \<notin> set (first_sat ?P (?i + 1) n)"
    unfolding P by auto
  then have "free_clr_loop cn cs pool colors (Suc n) f = Some (pool\<lparr>pp_bitmap := bmp\<rparr>)"
    by (simp add: pp_next_clr_eq [OF c])
  with b show ?case by (intro exI [of _ bmp]) (auto simp: bm_simps)
qed

lemma free_pool_same:
  assumes "0 < cs"
  shows "\<exists>bmp. mem_free_ppages_pool cn cs p g = Some (p\<lparr>pp_bitmap := bmp\<rparr>)"
proof (cases "all_clrs cn (pa_colors g)")
  case True
  have "\<exists>bmp. mem_free_ppages_pool_mpu p g = p\<lparr>pp_bitmap := bmp\<rparr>"
    by (cases p) (auto simp: mem_free_ppages_pool_mpu_def Let_def)
  with mem_free_contiguous [OF True, of cs p] show ?thesis by auto
next
  case False
  have "\<exists>bmp. p = p\<lparr>pp_bitmap := bmp\<rparr>" by (intro exI [of _ "pp_bitmap p"]) simp
  with free_clr_loop_result [OF False assms, of p "pa_num g"] show ?thesis
    by (simp add: mem_free_ppages_pool_def Let_def False) blast
qed

lemma free_pool_used:
  assumes cs: "0 < cs" and wf: "pp_wf p" and al: "pa_num g = 0 \<or> unat (pa_base g) mod 4096 = 0"
    and f: "mem_free_ppages_pool cn cs p g = Some p'"
  shows "pp_used p' = (if pp_owns p g then pp_used p - grant_frames cn cs g else pp_used p)"
proof (cases "pa_num g = 0")
  case True
  have p: "p\<lparr>pp_bitmap := pp_bitmap p\<rparr> = p" by simp
  have "bitmap_clear_consecutive (pp_bitmap p) i 0 = pp_bitmap p" for i
    by (rule bitmap_eqI) (simp add: bm_simps)
  with f True have "p' = p" by (auto simp: mem_free_ppages_pool_def Let_def split: if_splits)
  with True show ?thesis by simp
next
  case False
  with al have al: "unat (pa_base g) mod 4096 = 0" by simp
  note own = pp_owns_iff_in_range [OF wf al]
  show ?thesis
  proof (cases "pp_owns p g")
    case no: False
    with f own have "p' = p" by (simp add: mem_free_ppages_pool_def)
    with no show ?thesis by simp
  next
    case owns: True
    show ?thesis
    proof (cases "all_clrs cn (pa_colors g)")
      case True
      with mem_free_contiguous [OF True, of cs p] f have "p' = mem_free_ppages_pool_mpu p g" by simp
      with mem_free_mpu_used [OF wf owns] True owns show ?thesis by (simp add: grant_frames_def)
    next
      case c: False
      let ?P = "page_selected cn cs (pa_colors g) p"
      define off where "off = unat ((pa_base g - pp_base p) div PAGE_SIZE)"
      note idx = pp_owns_index [OF wf owns, folded off_def]
      obtain bmp where b: "p' = p\<lparr>pp_bitmap := bmp\<rparr>"
        "\<And>i. bm bmp i \<longleftrightarrow> bm (pp_bitmap p) i \<and> i \<notin> set (first_sat ?P off (pa_num g))"
        using free_clr_loop_result [OF c cs, of p "pa_num g" off] f own owns c
        by (auto simp: mem_free_ppages_pool_def Let_def off_def)
      have "grant_frames cn cs g = set (first_sat (frame_selected cn cs (pa_colors g)) (pp_frame0 p + off) (pa_num g))"
        using c by (simp add: grant_frames_def idx)
      also have "\<dots> = set (map ((+) (pp_frame0 p)) (first_sat ?P off (pa_num g)))"
        unfolding page_selected_def first_sat_shift [OF selected_exists [OF c cs]] ..
      finally have gr: "grant_frames cn cs g = (+) (pp_frame0 p) ` set (first_sat ?P off (pa_num g))" by simp
      have "pp_used p' = {pp_frame0 p + i | i. i < pp_num_pages p \<and> bm (pp_bitmap p) i \<and>
          i \<notin> set (first_sat ?P off (pa_num g))}"
        by (simp add: pp_used_def pp_frame0_def b)
      also have "\<dots> = pp_used p - grant_frames cn cs g" by (auto simp: gr pp_used_def)
      finally show ?thesis using owns by simp
    qed
  qed
qed

section \<open>The list of pools as one allocator\<close>

definition pools_wf :: "nat \<Rightarrow> nat \<Rightarrow> page_pool list \<Rightarrow> bool" where
  "pools_wf cn cs ps \<longleftrightarrow> 0 < cs \<and> (\<forall>p \<in> set ps. pp_wf p) \<and> disjoint_list (map pp_frames ps)"

definition pools_frames :: "page_pool list \<Rightarrow> nat set" where
  "pools_frames ps = \<Union> (pp_frames ` set ps)"

definition pools_used :: "page_pool list \<Rightarrow> nat set" where
  "pools_used ps = \<Union> (pp_used ` set ps)"

definition pools_valid :: "nat \<Rightarrow> nat \<Rightarrow> page_pool list \<Rightarrow> ppages \<Rightarrow> bool" where
  "pools_valid cn cs ps g \<longleftrightarrow> pa_num g = 0 \<or>
     (\<exists>p \<in> set ps. pp_owns p g \<and> grant_frames cn cs g \<subseteq> pp_frames p)"

type_synonym request = "nat \<times> u64 \<times> bool"

text \<open>A request is granted when the pages returned are as many as asked for (\<open>mem_alloc_page\<close>).\<close>

definition pools_alloc :: "nat \<Rightarrow> nat \<Rightarrow> page_pool list \<Rightarrow> request \<Rightarrow> ppages option \<times> page_pool list" where
  "pools_alloc cn cs ps r =
     (case r of (n, colors, aligned) \<Rightarrow>
        (case mem_alloc_ppages (pp_alloc_clr_mmu cn cs) cn ps colors n aligned of
           Inl e \<Rightarrow> (None, ps)
         | Inr (ps', g) \<Rightarrow> (if pa_num g = n then Some g else None, ps')))"

definition pools_release :: "nat \<Rightarrow> nat \<Rightarrow> page_pool list \<Rightarrow> ppages \<Rightarrow> page_pool list" where
  "pools_release cn cs ps g = (case mem_free_ppages cn cs ps g of None \<Rightarrow> ps | Some ps' \<Rightarrow> ps')"

lemma pp_owns_same: "pp_frames p' = pp_frames p \<Longrightarrow> pp_owns p' g = pp_owns p g"
  by (simp add: pp_owns_def)

lemma mem_alloc_loop_result:
  assumes "0 < cs" and "\<forall>p \<in> set ps. pp_wf p" and "pa_num pg = 0"
  shows "\<exists>ps' g. mem_alloc_ppages_loop (pp_alloc_clr_mmu cn cs) cn ps colors n aligned pg = Inr (ps', g) \<and>
    (ps' = ps \<and> pa_num g = 0 \<or>
     (\<exists>us p p' vs. ps = us @ p # vs \<and> ps' = us @ p' # vs \<and> pool_granted cn cs p p' n g))"
  using assms
proof (induction ps arbitrary: pg)
  case Nil
  then show ?case by simp
next
  case (Cons p ps)
  have "\<exists>ok p' g. (if \<not> all_clrs cn colors \<and> \<not> aligned then pp_alloc_clr_mmu cn cs p n colors pg
        else Inr (pp_alloc p n aligned pg)) = Inr (ok, p', g) \<and>
      (ok \<longrightarrow> pool_granted cn cs p p' n g) \<and> (\<not> ok \<longrightarrow> p' = p \<and> pa_num g = 0)"
  proof (cases "\<not> all_clrs cn colors \<and> \<not> aligned")
    case True
    with pp_alloc_clr_result [of cn colors cs p n pg] Cons.prems show ?thesis
      by (auto simp: pp_alloc_clr_mmu_def)
  next
    case False
    obtain ok p' g where r: "pp_alloc p n aligned pg = (ok, p', g)" by (metis prod_cases3)
    have "\<not> ok \<longrightarrow> p' = p \<and> pa_num g = 0"
      using r by (auto simp: pp_alloc_def Let_def split: if_splits sum.splits)
    with r False pool_granted_contiguous [of p n aligned pg p' g cn cs] Cons.prems show ?thesis by auto
  qed
  then obtain ok p' g where step: "(if \<not> all_clrs cn colors \<and> \<not> aligned then pp_alloc_clr_mmu cn cs p n colors pg
        else Inr (pp_alloc p n aligned pg)) = Inr (ok, p', g)"
    and yes: "ok \<Longrightarrow> pool_granted cn cs p p' n g" and no: "\<not> ok \<Longrightarrow> p' = p \<and> pa_num g = 0" by blast
  show ?case
  proof (cases ok)
    case True
    then have "mem_alloc_ppages_loop (pp_alloc_clr_mmu cn cs) cn (p # ps) colors n aligned pg = Inr (p' # ps, g)"
      by (simp only: mem_alloc_ppages_loop.simps step) simp
    moreover have "p # ps = [] @ p # ps" "p' # ps = [] @ p' # ps" by simp_all
    ultimately show ?thesis using yes [OF True] by blast
  next
    case False
    have "pa_num g = 0" "\<forall>p \<in> set ps. pp_wf p" using Cons.prems no [OF False] by auto
    from Cons.IH [OF Cons.prems(1) this(2,1)] obtain ps' g' where
      rec: "mem_alloc_ppages_loop (pp_alloc_clr_mmu cn cs) cn ps colors n aligned g = Inr (ps', g')"
      and res: "ps' = ps \<and> pa_num g' = 0 \<or>
        (\<exists>us q q' vs. ps = us @ q # vs \<and> ps' = us @ q' # vs \<and> pool_granted cn cs q q' n g')" by blast
    have "mem_alloc_ppages_loop (pp_alloc_clr_mmu cn cs) cn (p # ps) colors n aligned pg = Inr (p # ps', g')"
      using rec no [OF False] False by (simp only: mem_alloc_ppages_loop.simps step) simp
    with res show ?thesis by (metis append_Cons)
  qed
qed

lemma mem_free_result:
  assumes cs: "0 < cs" and "\<forall>p \<in> set ps. pp_wf p" and "pa_num g = 0 \<or> unat (pa_base g) mod 4096 = 0"
  shows "\<exists>ps'. mem_free_ppages cn cs ps g = Some ps' \<and>
    list_all2 (\<lambda>p p'. pp_wf p' \<and> pp_frames p' = pp_frames p \<and>
      pp_used p' = (if pp_owns p g then pp_used p - grant_frames cn cs g else pp_used p)) ps ps'"
  using assms(2)
proof (induction ps)
  case (Cons p ps)
  obtain bmp where b: "mem_free_ppages_pool cn cs p g = Some (p\<lparr>pp_bitmap := bmp\<rparr>)"
    using free_pool_same [OF cs] by blast
  have "pp_wf (p\<lparr>pp_bitmap := bmp\<rparr>)" "pp_frames (p\<lparr>pp_bitmap := bmp\<rparr>) = pp_frames p"
    using Cons.prems by (simp_all add: pp_frames_def pp_frame0_def)
  with b free_pool_used [OF cs _ assms(3) b] Cons show ?case by auto
qed simp


text \<open>Replacing one pool of the list by the same pool in another state.\<close>

lemma pools_replace:
  assumes "pp_wf p'" and "pp_frames p' = pp_frames p" and "pools_wf cn cs (us @ p # vs)"
  shows "pools_wf cn cs (us @ p' # vs) \<and> pools_frames (us @ p' # vs) = pools_frames (us @ p # vs) \<and>
    (pools_valid cn cs (us @ p # vs) h \<longrightarrow> pools_valid cn cs (us @ p' # vs) h)"
  using assms pp_owns_same [OF assms(2)]
  by (auto simp: pools_wf_def pools_frames_def pools_valid_def)

lemma pools_others_unused:
  assumes "disjoint_list (map pp_frames (us @ p # vs))" and "F \<subseteq> pp_frames p" and "q \<in> set us \<union> set vs"
  shows "F \<inter> pp_used q = {}"
proof -
  have "pp_frames q \<inter> pp_frames p = {}"
    using assms(1,3) by (auto simp: disjoint_list_append)
  with assms(2) pp_used_subset [of q] show ?thesis by blast
qed

lemma pools_used_split: "pools_used (us @ p # vs) = pp_used p \<union> \<Union> (pp_used ` (set us \<union> set vs))"
  by (auto simp: pools_used_def)

lemma pools_alloc_cases:
  assumes wf: "pools_wf cn cs ps" and a: "pools_alloc cn cs ps (n, colors, aligned) = (res, ps')"
  obtains (none) g where "res = (if n = 0 then Some g else None)" "ps' = ps" "pa_num g = 0"
  | (some) us p p' vs g where "res = Some g" "ps = us @ p # vs" "ps' = us @ p' # vs"
      "pool_granted cn cs p p' n g"
proof -
  have "0 < cs" "\<forall>p \<in> set ps. pp_wf p" using wf by (auto simp: pools_wf_def)
  have "pa_num \<lparr>pa_base = 0, pa_num = 0, pa_colors = 0\<rparr> = 0" by simp
  from mem_alloc_loop_result [OF \<open>0 < cs\<close> \<open>\<forall>p \<in> set ps. pp_wf p\<close> this, of cn colors n aligned]
  obtain ps'' g where r: "mem_alloc_ppages (pp_alloc_clr_mmu cn cs) cn ps colors n aligned = Inr (ps'', g)"
    and c: "ps'' = ps \<and> pa_num g = 0 \<or>
     (\<exists>us p p' vs. ps = us @ p # vs \<and> ps'' = us @ p' # vs \<and> pool_granted cn cs p p' n g)"
    unfolding mem_alloc_ppages_def by blast
  have res: "res = (if pa_num g = n then Some g else None)" "ps' = ps''"
    using a by (simp_all add: pools_alloc_def r)
  from c show thesis
  proof
    assume "ps'' = ps \<and> pa_num g = 0"
    with res show thesis by (intro none [of g]) auto
  next
    assume "\<exists>us p p' vs. ps = us @ p # vs \<and> ps'' = us @ p' # vs \<and> pool_granted cn cs p p' n g"
    then obtain us p p' vs where ps: "ps = us @ p # vs" "ps'' = us @ p' # vs" "pool_granted cn cs p p' n g"
      by (elim exE conjE)
    then have "pa_num g = n" by (simp add: pool_granted_def)
    with ps res show thesis by (intro some [of g us p vs p']) simp_all
  qed
qed

lemma pools_alloc_granted:
  assumes wf: "pools_wf cn cs ps" and a: "pools_alloc cn cs ps (n, colors, aligned) = (Some g, ps')"
  shows "pools_wf cn cs ps' \<and> grant_frames cn cs g \<subseteq> pools_frames ps \<and>
    grant_frames cn cs g \<inter> pools_used ps = {} \<and> pools_used ps' = pools_used ps \<union> grant_frames cn cs g \<and>
    pools_valid cn cs ps' g"
  using wf a
proof (cases rule: pools_alloc_cases)
  case (none g')
  then have "g' = g" by (simp split: if_splits)
  with none wf show ?thesis by (simp add: pools_valid_def)
next
  case (some us p p' vs g')
  then have ps: "ps = us @ p # vs" "ps' = us @ p' # vs" and pg: "pool_granted cn cs p p' n g" by simp_all
  note g = pool_grantedD [OF pg]
  have d: "disjoint_list (map pp_frames (us @ p # vs))" using wf ps by (simp add: pools_wf_def)
  have "grant_frames cn cs g \<inter> pools_used ps = {}"
    unfolding ps(1) pools_used_split using pools_others_unused [OF d g(4)] g(5) by blast
  moreover have "pools_used ps' = pools_used ps \<union> grant_frames cn cs g"
    unfolding ps pools_used_split g(6) by blast
  moreover have "pools_valid cn cs ps' g"
  proof (cases "n = 0")
    case True
    with g(3) show ?thesis by (simp add: pools_valid_def)
  next
    case False
    with g(7) pp_owns_same [OF g(2), of g] have "pp_owns p' g \<and> grant_frames cn cs g \<subseteq> pp_frames p'"
      using g(2,4) by simp
    then show ?thesis by (simp add: pools_valid_def ps(2))
  qed
  moreover have "grant_frames cn cs g \<subseteq> pools_frames ps" using g(4) by (auto simp: ps pools_frames_def)
  ultimately show ?thesis using pools_replace [OF g(1,2), of cn cs us vs] wf ps by simp
qed

lemma pools_alloc_first:
  assumes "pools_wf cn cs ps" and "pools_alloc cn cs ps (n, colors, aligned) = (Some g, ps')" and "0 < n"
  shows "unat (pa_base g) mod 4096 = 0" and "unat (pa_base g) div 4096 \<in> grant_frames cn cs g" and "pa_num g = n"
proof -
  obtain us p p' vs where "pool_granted cn cs p p' n g"
    using assms(1,2)
  proof (cases rule: pools_alloc_cases)
    case (none g')
    with assms(3) show thesis by simp
  qed (use that in auto)
  from pool_grantedD [OF this] assms(3)
  show "unat (pa_base g) mod 4096 = 0" "unat (pa_base g) div 4096 \<in> grant_frames cn cs g" "pa_num g = n"
    by (simp_all add: pp_owns_def)
qed

text \<open>An aligned grant is contiguous and starts at a multiple of its size.\<close>

lemma aligned_loop:
  "\<forall>p \<in> set ps. pp_wf p \<Longrightarrow> 0 < n \<Longrightarrow> pa_num pg = 0 \<Longrightarrow>
    mem_alloc_ppages_loop clr cn ps colors n True pg = Inr (ps', g) \<Longrightarrow> pa_num g = n \<Longrightarrow>
    unat (pa_base g) div 4096 mod n = 0 \<and> pa_colors g = 0"
proof (induction ps arbitrary: pg ps')
  case (Cons p ps)
  obtain ok p' h where r: "pp_alloc p n True pg = (ok, p', h)" by (metis prod_cases3)
  show ?case
  proof (cases ok)
    case True
    with Cons.prems(4) r have "h = g" by simp
    moreover have "pp_wf p" using Cons.prems(1) by simp
    ultimately show ?thesis using pp_alloc_grants [of p n True pg p' h] r True Cons.prems(2) by simp
  next
    case False
    then have "pa_num h = 0" using r by (auto simp: pp_alloc_def Let_def split: if_splits sum.splits)
    moreover obtain ps'' where "mem_alloc_ppages_loop clr cn ps colors n True h = Inr (ps'', g)"
      using Cons.prems(4) r False by (auto simp: obind_eq_Inr)
    ultimately show ?thesis using Cons.IH [OF _ Cons.prems(2) _ _ Cons.prems(5)] Cons.prems(1) by auto
  qed
qed simp

lemma pools_alloc_aligned:
  assumes "pools_wf cn cs ps" and "pools_alloc cn cs ps (n, colors, True) = (Some g, ps')" and "0 < n"
  shows "unat (pa_base g) div 4096 mod n = 0" and "grant_frames cn cs g = ppages_frames g"
proof -
  have n: "pa_num g = n" by (rule pools_alloc_first(3) [OF assms])
  obtain ps'' where "mem_alloc_ppages (pp_alloc_clr_mmu cn cs) cn ps colors n True = Inr (ps'', g)"
    using assms(2) by (auto simp: pools_alloc_def split: sum.splits if_splits)
  moreover have "\<forall>p \<in> set ps. pp_wf p" using assms(1) by (auto simp: pools_wf_def)
  ultimately have "unat (pa_base g) div 4096 mod n = 0 \<and> pa_colors g = 0"
    unfolding mem_alloc_ppages_def using aligned_loop assms(3) n by (metis ppages.select_convs(2))
  then show "unat (pa_base g) div 4096 mod n = 0" "grant_frames cn cs g = ppages_frames g"
    by (simp_all add: grant_frames_def)
qed

lemma pools_alloc_valid:
  assumes wf: "pools_wf cn cs ps" and a: "pools_alloc cn cs ps (n, colors, aligned) = (res, ps')"
  shows "pools_frames ps' = pools_frames ps \<and> (pools_valid cn cs ps h \<longrightarrow> pools_valid cn cs ps' h) \<and>
    (res = None \<longrightarrow> ps' = ps)"
  using wf a
proof (cases rule: pools_alloc_cases)
  case (some us p p' vs g)
  then have "pp_wf p'" "pp_frames p' = pp_frames p" by (simp_all add: pool_granted_def)
  from pools_replace [OF this, of cn cs us vs h] some wf show ?thesis by simp
qed simp

text \<open>
  As long as the free counters are exact, a request for one page, contiguous or aligned, is refused only
  when no page is free.
\<close>

definition pools_exact :: "page_pool list \<Rightarrow> bool" where
  "pools_exact ps \<longleftrightarrow> (\<forall>p \<in> set ps. pp_exact p)"

lemma pp_alloc_one: "pp_alloc p 1 aligned pg = pp_alloc p 1 False pg"
proof -
  have w: "pp_alloc_while p (Suc 0) True 0 cur = pp_alloc_while p (Suc 0) False 0 cur" for cur
    by (simp add: pp_alloc_while.simps [of p _ _ _ cur] pp_next_aligned_def Let_def)
  have "pp_alloc_search p 1 aligned = pp_alloc_search p 1 False"
    by (cases aligned) (simp_all add: pp_alloc_search_def pp_start_def w split: sum.split)
  then show ?thesis by (simp add: pp_alloc_def)
qed

lemma alloc_loop_exact:
  assumes c: "all_clrs cn colors \<or> aligned"
  shows "\<forall>p \<in> set ps. pp_wf p \<Longrightarrow> pools_exact ps \<Longrightarrow>
    mem_alloc_ppages_loop clr cn ps colors n aligned pg = Inr (ps', g) \<Longrightarrow> pools_exact ps'"
proof (induction ps arbitrary: pg ps')
  case (Cons p ps)
  obtain ok p' h where r: "pp_alloc p n aligned pg = (ok, p', h)" by (metis prod_cases3)
  have e: "pp_exact p" "pools_exact ps" using Cons.prems(2) by (simp_all add: pools_exact_def)
  have p': "pp_exact p'" using pp_alloc_exact [OF r _ e(1)] Cons.prems(1) by simp
  show ?case
  proof (cases ok)
    case True
    then have "ps' = p' # ps" using Cons.prems(3) r c by auto
    with p' e(2) show ?thesis by (simp add: pools_exact_def)
  next
    case False
    then obtain ps'' where rec: "mem_alloc_ppages_loop clr cn ps colors n aligned h = Inr (ps'', g)" "ps' = p' # ps''"
      using Cons.prems(3) r c by (auto simp: obind_eq_Inr)
    have "pools_exact ps''" using Cons.IH [OF _ e(2) rec(1)] Cons.prems(1) by simp
    with p' rec(2) show ?thesis by (simp add: pools_exact_def)
  qed
qed (simp add: pools_exact_def)

lemma alloc_loop_full:
  assumes c: "all_clrs cn colors \<or> aligned"
  shows "\<forall>p \<in> set ps. pp_wf p \<Longrightarrow> pools_exact ps \<Longrightarrow> pa_num pg = 0 \<Longrightarrow>
    mem_alloc_ppages_loop clr cn ps colors 1 aligned pg = Inr (ps', g) \<Longrightarrow> pa_num g \<noteq> 1 \<Longrightarrow> \<forall>p \<in> set ps. pp_frames p \<subseteq> pp_used p"
proof (induction ps arbitrary: pg ps')
  case (Cons p ps)
  have wf: "pp_wf p" "\<forall>p \<in> set ps. pp_wf p" and e: "pp_exact p" "pools_exact ps"
    using Cons.prems(1,2) by (simp_all add: pools_exact_def)
  obtain ok p' h where r: "pp_alloc p 1 aligned pg = (ok, p', h)" by (metis prod_cases3)
  then have r1: "pp_alloc p 1 False pg = (ok, p', h)" by (simp only: pp_alloc_one [of p aligned])
  have ok: "\<not> ok"
  proof
    assume "ok"
    then have "pa_num h = 1" using pp_alloc_grants [of p 1 False pg p' h] r1 wf by simp
    moreover have "h = g" using Cons.prems(4) r c \<open>ok\<close> by auto
    ultimately show False using Cons.prems(5) by simp
  qed
  then have h: "pa_num h = 0" using r1 by (auto simp: pp_alloc_def Let_def split: sum.splits)
  obtain ps'' where "mem_alloc_ppages_loop clr cn ps colors 1 aligned h = Inr (ps'', g)"
    using Cons.prems(4) r c ok by (auto simp: obind_eq_Inr)
  then have "\<forall>p \<in> set ps. pp_frames p \<subseteq> pp_used p" using Cons.IH [OF wf(2) e(2) h _ Cons.prems(5)] by blast
  moreover have "pp_frames p \<subseteq> pp_used p"
  proof
    fix x assume x: "x \<in> pp_frames p"
    then obtain j where j: "x = pp_frame0 p + j" "j < pp_num_pages p" by (auto simp: pp_frames_def le_iff_add)
    have "\<not> pp_has_run p 1" using pp_alloc_complete [OF r1 wf(1) e(1)] ok by simp
    then show "x \<in> pp_used p" using j by (auto simp: pp_has_run_def)
  qed
  ultimately show ?case by simp
qed simp

lemma pools_alloc_exact:
  assumes "pools_wf cn cs ps" and "pools_alloc cn cs ps (n, colors, aligned) = (res, ps')"
    and "all_clrs cn colors \<or> aligned" and "pools_exact ps"
  shows "pools_exact ps'"
proof -
  have "\<forall>p \<in> set ps. pp_wf p" using assms(1) by (auto simp: pools_wf_def)
  with alloc_loop_exact [OF assms(3) this assms(4)] assms(2,4) show ?thesis
    by (auto simp: pools_alloc_def mem_alloc_ppages_def split: sum.splits)
qed

lemma pools_refused_full:
  assumes wf: "pools_wf cn cs ps" and n: "fst (pools_alloc cn cs ps (1, colors, aligned)) = None"
    and c: "all_clrs cn colors \<or> aligned" and e: "pools_exact ps"
  shows "pools_frames ps \<subseteq> pools_used ps"
proof -
  have w: "0 < cs" "\<forall>p \<in> set ps. pp_wf p" using wf by (auto simp: pools_wf_def)
  have z: "pa_num \<lparr>pa_base = 0, pa_num = 0, pa_colors = 0\<rparr> = 0" by simp
  from mem_alloc_loop_result [OF w z, of cn colors 1 aligned] obtain ps' g where
    r: "mem_alloc_ppages (pp_alloc_clr_mmu cn cs) cn ps colors 1 aligned = Inr (ps', g)"
    unfolding mem_alloc_ppages_def by blast
  then have "pa_num g \<noteq> 1" using n by (auto simp: pools_alloc_def)
  from alloc_loop_full [OF c w(2) e z r [unfolded mem_alloc_ppages_def] this] show ?thesis
    by (auto simp: pools_frames_def pools_used_def)
qed

lemma pools_release_result:
  assumes wf: "pools_wf cn cs ps" and v: "pools_valid cn cs ps g"
  shows "pools_wf cn cs (pools_release cn cs ps g) \<and>
    pools_used (pools_release cn cs ps g) = pools_used ps - grant_frames cn cs g"
proof -
  have w: "0 < cs" "\<forall>p \<in> set ps. pp_wf p" "disjoint_list (map pp_frames ps)"
    using wf by (auto simp: pools_wf_def)
  have al: "pa_num g = 0 \<or> unat (pa_base g) mod 4096 = 0" using v by (auto simp: pools_valid_def pp_owns_def)
  obtain ps' where f: "mem_free_ppages cn cs ps g = Some ps'" and l:
    "list_all2 (\<lambda>p p'. pp_wf p' \<and> pp_frames p' = pp_frames p \<and>
      pp_used p' = (if pp_owns p g then pp_used p - grant_frames cn cs g else pp_used p)) ps ps'"
    using mem_free_result [OF w(1,2) al] by blast
  have fr: "map pp_frames ps' = map pp_frames ps" and wf': "\<forall>p \<in> set ps'. pp_wf p"
    using l by (induction rule: list_all2_induct) auto
  have used: "pp_used p' = pp_used p - grant_frames cn cs g" if "p \<in> set ps"
    "pp_used p' = (if pp_owns p g then pp_used p - grant_frames cn cs g else pp_used p)" for p p'
  proof (cases "pp_owns p g \<or> pa_num g = 0")
    case True
    with that show ?thesis by auto
  next
    case False
    with v obtain q where q: "q \<in> set ps" "pp_owns q g" "grant_frames cn cs g \<subseteq> pp_frames q"
      by (auto simp: pools_valid_def)
    then obtain us vs where "ps = us @ q # vs" by (meson split_list)
    moreover from this that(1) False q have "p \<in> set us \<union> set vs" by auto
    ultimately have "grant_frames cn cs g \<inter> pp_used p = {}"
      using pools_others_unused [of us q vs _ p] w(3) q(3) by blast
    with that False show ?thesis by auto
  qed
  have "pools_used ps' = pools_used ps - grant_frames cn cs g"
    using l used unfolding pools_used_def
  proof (induction rule: list_all2_induct)
    case (Cons p ps p' ps')
    then have "pp_used p' = pp_used p - grant_frames cn cs g" by (meson list.set_intros(1))
    moreover have "\<Union> (pp_used ` set ps') = \<Union> (pp_used ` set ps) - grant_frames cn cs g"
      by (rule Cons.IH) (meson Cons.prems list.set_intros(2))
    ultimately show ?case by auto
  qed simp
  with f fr wf' w show ?thesis by (simp add: pools_release_def pools_wf_def)
qed

lemma pools_release_same:
  assumes wf: "pools_wf cn cs ps"
  shows "pools_frames (pools_release cn cs ps g) = pools_frames ps \<and>
    (pools_valid cn cs ps h \<longrightarrow> pools_valid cn cs (pools_release cn cs ps g) h)"
proof -
  have cs: "0 < cs" using wf by (simp add: pools_wf_def)
  have "\<exists>ps'. mem_free_ppages cn cs ps g = Some ps' \<and> list_all2 (\<lambda>p p'. pp_frames p' = pp_frames p) ps ps'"
  proof (induction ps)
    case (Cons p ps)
    obtain bmp where "mem_free_ppages_pool cn cs p g = Some (p\<lparr>pp_bitmap := bmp\<rparr>)"
      using free_pool_same [OF cs] by blast
    with Cons show ?case by (auto simp: pp_frames_def pp_frame0_def)
  qed simp
  then obtain ps' where f: "mem_free_ppages cn cs ps g = Some ps'"
    and l: "list_all2 (\<lambda>p p'. pp_frames p' = pp_frames p) ps ps'" by blast
  have "pp_frames ` set ps' = pp_frames ` set ps" using l by (induction rule: list_all2_induct) auto
  moreover have same: "\<exists>p' \<in> set ps'. pp_frames p' = pp_frames p" if "p \<in> set ps" for p
    using l that by (induction rule: list_all2_induct) auto
  moreover have "pools_valid cn cs ps' h" if v: "pools_valid cn cs ps h"
  proof (cases "pa_num h = 0")
    case True
    then show ?thesis by (simp add: pools_valid_def)
  next
    case False
    with v obtain p where p: "p \<in> set ps" "pp_owns p h" "grant_frames cn cs h \<subseteq> pp_frames p"
      by (auto simp: pools_valid_def)
    from same [OF p(1)] obtain p' where p': "p' \<in> set ps'" "pp_frames p' = pp_frames p" by blast
    with p pp_owns_same [OF p'(2), of h] have "pp_owns p' h \<and> grant_frames cn cs h \<subseteq> pp_frames p'" by simp
    with p'(1) show ?thesis unfolding pools_valid_def by blast
  qed
  ultimately show ?thesis using f by (simp add: pools_release_def pools_frames_def)
qed

interpretation pools: page_allocator "pools_wf cn cs" pools_frames pools_used "grant_frames cn cs"
  "pools_valid cn cs" "pools_alloc cn cs" "pools_release cn cs" for cn cs
proof unfold_locales
  fix ps g ps' and r :: request assume "pools_wf cn cs ps" "pools_alloc cn cs ps r = (Some g, ps')"
  then show "pools_wf cn cs ps' \<and> grant_frames cn cs g \<subseteq> pools_frames ps \<and>
      grant_frames cn cs g \<inter> pools_used ps = {} \<and> pools_used ps' = pools_used ps \<union> grant_frames cn cs g \<and>
      pools_valid cn cs ps' g"
    by (cases r, hypsubst) (rule pools_alloc_granted)
next
  fix ps ps' and r :: request assume "pools_wf cn cs ps" "pools_alloc cn cs ps r = (None, ps')"
  then show "ps' = ps" by (cases r, hypsubst) (blast dest: pools_alloc_valid)
next
  fix ps res ps' h and r :: request assume "pools_wf cn cs ps" "pools_alloc cn cs ps r = (res, ps')"
  then show "pools_frames ps' = pools_frames ps \<and> (pools_valid cn cs ps h \<longrightarrow> pools_valid cn cs ps' h)"
    by (cases r, hypsubst) (blast dest: pools_alloc_valid)
next
  fix ps g assume "pools_wf cn cs ps" "pools_valid cn cs ps g"
  then show "pools_wf cn cs (pools_release cn cs ps g) \<and>
      pools_used (pools_release cn cs ps g) = pools_used ps - grant_frames cn cs g"
    by (rule pools_release_result)
next
  fix ps g h assume "pools_wf cn cs ps"
  then show "pools_frames (pools_release cn cs ps g) = pools_frames ps \<and>
      (pools_valid cn cs ps h \<longrightarrow> pools_valid cn cs (pools_release cn cs ps g) h)"
    by (rule pools_release_same)
qed


section \<open>What the allocator promises\<close>

definition demo_pool :: page_pool where
  "demo_pool = \<lparr>pp_base = 0x80000000, pp_num_pages = 64, pp_free = 64, pp_last = 0, pp_bitmap = (\<lambda>g. 0)\<rparr>"

lemma demo_pool_facts:
  "pp_wf demo_pool" "pp_used demo_pool = {}" "pp_exact demo_pool" "pp_frames demo_pool = {0x80000 ..< 0x80040}"
  "pools_wf 4 1 [demo_pool]" "pp_num_pages demo_pool = 64"
proof -
  show w: "pp_wf demo_pool" by (simp add: demo_pool_def pp_wf_def dvd_eq_mod_eq_0)
  show u: "pp_used demo_pool = {}" by (simp add: demo_pool_def pp_used_def bm_def)
  show "pp_exact demo_pool" by (simp add: pp_exact_def u) (simp add: demo_pool_def)
  show "pp_frames demo_pool = {0x80000 ..< 0x80040}"
    by (simp add: pp_frames_def pp_frame0_def demo_pool_def)
  show "pools_wf 4 1 [demo_pool]" using w by (simp add: pools_wf_def)
  show "pp_num_pages demo_pool = 64" by (simp add: demo_pool_def)
qed

text \<open>C7: over any sequence of allocations (contiguous, aligned or colored) and releases on the
  list of page pools, two live grants never share a frame, and the frames of every live grant
  are marked as used.\<close>
theorem pages_owned_once:
  assumes "pools_wf cn cs ps"
    and "alloc_run (pools_alloc cn cs) (pools_release cn cs) ops (ps, []) = (ps', live)"
    and "i < j" and "j < length live"
  shows "grant_frames cn cs (live ! i) \<inter> grant_frames cn cs (live ! j) = {} \<and>
    grant_frames cn cs (live ! i) \<union> grant_frames cn cs (live ! j) \<subseteq> pools_used ps'"
  using assms by (rule pools.no_double_ownership)

lemma demo_alloc_one:
  fixes k :: nat
  assumes "p = demo_pool\<lparr>pp_bitmap := bmp, pp_last := k, pp_free := f\<rparr>" and "\<not> bm bmp k" and "k < 64" and "f \<noteq> 0"
  shows "pools_alloc 4 1 [p] (1, 0, False) =
    (Some \<lparr>pa_base = 0x80000000 + of_nat k * 4096, pa_num = 1, pa_colors = 0\<rparr>,
     [p\<lparr>pp_bitmap := bitmap_set_consecutive bmp k 1, pp_last := k + 1, pp_free := f - 1\<rparr>])"
proof -
  have "bitmap_find_nth bmp 64 1 k False = int k"
    using assms by (simp add: bitmap_find_nth_def bitmap_find_nth_loop.simps [of _ _ _ _ _ k] bitmap_get_bm)
  then have "bitmap_find_consec bmp 64 k 1 False = int k"
    using assms by (simp add: bitmap_find_consec_def bitmap_find_consec_loop.simps [of _ _ _ k]
      count_consecutive_le_1)
  moreover have p: "pp_bitmap p = bmp" "pp_num_pages p = 64" "pp_last p = k" "pp_free p = f" "pp_base p = 0x80000000"
    using assms(1) by (simp_all add: demo_pool_def)
  ultimately have "pp_alloc_while p 1 False 0 k = Inr k"
    using assms(4) by (simp add: pp_alloc_while.simps [of p _ False 0 k])
  then have "pp_alloc_search p 1 False = Inr k" by (simp add: pp_alloc_search_def p)
  then have "pp_alloc p 1 False g = (True, p\<lparr>pp_bitmap := bitmap_set_consecutive bmp k 1,
      pp_last := k + 1, pp_free := f - 1\<rparr>, g\<lparr>pa_base := 0x80000000 + of_nat k * 4096, pa_num := 1, pa_colors := 0\<rparr>)" for g
    by (simp add: pp_alloc_def Let_def p PAGE_SIZE_def)
  then show ?thesis by (simp add: pools_alloc_def mem_alloc_ppages_def)
qed

theorem pages_owned_once_witness:
  "\<exists>ps' live. alloc_run (pools_alloc 4 1) (pools_release 4 1) [Alloc (1, 0, False), Alloc (1, 0, False)]
       ([demo_pool], []) = (ps', live) \<and> map pa_base live = [0x80000000, 0x80001000] \<and>
     grant_frames 4 1 (live ! 0) \<inter> grant_frames 4 1 (live ! 1) = {}"
proof -
  let ?b = "bitmap_set_consecutive (\<lambda>g. 0) 0 1"
  have d: "demo_pool = demo_pool\<lparr>pp_bitmap := (\<lambda>g. 0), pp_last := 0, pp_free := 64\<rparr>"
    by (simp add: demo_pool_def)
  have "\<not> bm (\<lambda>g. 0) 0" by (simp add: bm_def)
  note a = demo_alloc_one [OF d this, simplified]
  have "\<not> bm ?b 1" by (simp add: bm_simps) (simp add: bm_def)
  note b = demo_alloc_one [OF refl this, of 63, simplified]
  obtain ps' live where r: "alloc_run (pools_alloc 4 1) (pools_release 4 1) [Alloc (1, 0, False), Alloc (1, 0, False)]
      ([demo_pool], []) = (ps', live)" by (metis surj_pair)
  moreover from r have "map pa_base live = [0x80000000, 0x80001000]" by (auto simp: a b)
  ultimately show ?thesis using pages_owned_once [OF demo_pool_facts(5) r, of 0 1] by fastforce
qed

text \<open>C8: the allocation over the pools always returns, also when it has to search for colors; it
  either grants exactly the pages asked for, inside one pool, none of them in use, and marks
  these and no others, or returns no page and leaves every pool as it was.\<close>
theorem mem_alloc_ppages_returns:
  assumes "pools_wf cn cs ps" and "0 < n"
  shows "\<exists>ps' g. mem_alloc_ppages (pp_alloc_clr_mmu cn cs) cn ps colors n aligned = Inr (ps', g) \<and>
    (pa_num g = 0 \<and> ps' = ps \<or>
     (\<exists>us p p' vs. ps = us @ p # vs \<and> ps' = us @ p' # vs \<and> pool_granted cn cs p p' n g))"
proof -
  have "0 < cs" "\<forall>p \<in> set ps. pp_wf p" using assms(1) by (auto simp: pools_wf_def)
  from mem_alloc_loop_result [OF this, of "\<lparr>pa_base = 0, pa_num = 0, pa_colors = 0\<rparr>"]
  show ?thesis unfolding mem_alloc_ppages_def by fastforce
qed

theorem mem_alloc_ppages_returns_witness:
  "\<exists>ps' g. mem_alloc_ppages (pp_alloc_clr_mmu 4 1) 4 [demo_pool] 5 8 False = Inr (ps', g)"
  using mem_alloc_ppages_returns [OF demo_pool_facts(5), of 8 5 False] by auto

text \<open>C9: as long as the counter of free pages is exact, an allocation of contiguous pages succeeds
  if and only if the pool has that many adjacent free pages, and the counter stays exact.\<close>
theorem pp_alloc_iff_run:
  assumes "pp_alloc pool n False pg = (ok, pool', pg')" and "pp_wf pool" and "pp_exact pool" and "0 < n"
  shows "(ok \<longleftrightarrow> pp_has_run pool n) \<and> pp_exact pool'"
  using pp_alloc_complete [OF assms] pp_alloc_exact [OF assms(1-3)] by simp

theorem pp_alloc_iff_run_witness:
  "fst (pp_alloc demo_pool 64 False \<lparr>pa_base = 0, pa_num = 0, pa_colors = 0\<rparr>) \<longleftrightarrow> pp_has_run demo_pool 64"
proof -
  obtain ok pool' pg' where "pp_alloc demo_pool 64 False \<lparr>pa_base = 0, pa_num = 0, pa_colors = 0\<rparr> = (ok, pool', pg')"
    by (metis prod_cases3)
  with pp_alloc_iff_run [OF this demo_pool_facts(1,3)] show ?thesis by simp
qed

text \<open>A contiguous allocation that succeeds returns page-aligned pages of the pool that were
  free, marks exactly these, and an aligned request is aligned to its own size.\<close>
theorem pp_alloc_grants_free_pages:
  assumes "pp_alloc pool n aligned pg = (True, pool', pg')" and "pp_wf pool" and "0 < n"
  shows "ppages_frames pg' \<subseteq> pp_frames pool - pp_used pool \<and> pp_used pool' = pp_used pool \<union> ppages_frames pg' \<and>
    pa_num pg' = n \<and> unat (pa_base pg') mod 4096 = 0 \<and>
    (aligned \<longrightarrow> unat (pa_base pg') div 4096 mod n = 0) \<and> pp_wf pool'"
  using pp_alloc_grants [OF assms] by blast

theorem pp_alloc_grants_free_pages_witness:
  "\<exists>pool' pg'. pp_alloc demo_pool 64 False \<lparr>pa_base = 0, pa_num = 0, pa_colors = 0\<rparr> = (True, pool', pg') \<and> pp_used pool' = ppages_frames pg'"
proof -
  obtain ok pool' pg' where r: "pp_alloc demo_pool 64 False \<lparr>pa_base = 0, pa_num = 0, pa_colors = 0\<rparr> = (ok, pool', pg')" by (metis prod_cases3)
  have "pp_has_run demo_pool 64" by (auto simp: pp_has_run_def demo_pool_facts)
  then have "pp_alloc demo_pool 64 False \<lparr>pa_base = 0, pa_num = 0, pa_colors = 0\<rparr> = (True, pool', pg')"
    using pp_alloc_complete [OF r demo_pool_facts(1,3)] r by simp
  from this pp_alloc_grants_free_pages [OF this demo_pool_facts(1)] show ?thesis
    by (auto simp: demo_pool_facts)
qed

text \<open>C10: the pages that a configuration names are reserved in a pool exactly when they all lie
  in the pool and none is in use; then these pages are marked and no others, and otherwise the
  pool is unchanged.\<close>
theorem reserve_ppages_iff:
  assumes "pp_wf p" and "ppages_ok g" and "mem_reserve_ppool_ppages p g = (r, p')"
  shows "(r \<longleftrightarrow> ppages_frames g \<subseteq> pp_frames p - pp_used p) \<and>
    pp_used p' = (if r then pp_used p \<union> ppages_frames g else pp_used p) \<and> (pp_exact p \<longrightarrow> pp_exact p')"
  using mem_reserve_result [OF assms] by blast

theorem reserve_ppages_iff_witness:
  "fst (mem_reserve_ppool_ppages demo_pool (mem_ppages_get 0x80001000 4))"
proof -
  have ok: "ppages_ok (mem_ppages_get 0x80001000 4)" by (simp add: ppages_ok_def mem_ppages_get_def)
  have "ppages_frames (mem_ppages_get 0x80001000 4) \<subseteq> pp_frames demo_pool - pp_used demo_pool"
    by (auto simp: demo_pool_facts ppages_frames_def mem_ppages_get_def)
  with reserve_ppages_iff [OF demo_pool_facts(1) ok surjective_pairing] show ?thesis by blast
qed

text \<open>C11: releasing a grant gives back exactly its frames: the used frames are again those from
  before the allocation, for contiguous and for colored grants alike.\<close>
theorem release_undoes_alloc:
  assumes "pools_wf cn cs ps" and "pools_alloc cn cs ps (n, colors, aligned) = (Some g, ps')"
  shows "pools_used (pools_release cn cs ps' g) = pools_used ps \<and>
    pools_frames (pools_release cn cs ps' g) = pools_frames ps"
proof -
  note a = pools_alloc_granted [OF assms]
  from a have "pools_wf cn cs ps'" "pools_valid cn cs ps' g" by blast+
  from pools_release_result [OF this] a have "pools_used (pools_release cn cs ps' g) = pools_used ps" by blast
  moreover have "pools_frames (pools_release cn cs ps' g) = pools_frames ps"
    using pools_release_same [OF \<open>pools_wf cn cs ps'\<close>] pools_alloc_valid [OF assms] by simp
  ultimately show ?thesis by simp
qed

theorem release_undoes_alloc_witness:
  "\<exists>g ps'. pools_alloc 4 1 [demo_pool] (64, 0, False) = (Some g, ps') \<and> pa_num g = 64 \<and>
     pools_used (pools_release 4 1 ps' g) = {}"
proof -
  obtain ok p' g where r: "pp_alloc demo_pool 64 False \<lparr>pa_base = 0, pa_num = 0, pa_colors = 0\<rparr> = (ok, p', g)"
    by (metis prod_cases3)
  have "pp_has_run demo_pool 64" by (auto simp: pp_has_run_def demo_pool_facts)
  then have ok: ok using pp_alloc_complete [OF r demo_pool_facts(1,3)] by simp
  then have "pa_num g = 64" using pp_alloc_grants [of demo_pool 64 False _ p' g] r demo_pool_facts(1) by auto
  with r ok have a: "pools_alloc 4 1 [demo_pool] (64, 0, False) = (Some g, [p'])"
    by (simp add: pools_alloc_def mem_alloc_ppages_def)
  from release_undoes_alloc [OF demo_pool_facts(5) this] a \<open>pa_num g = 64\<close> show ?thesis
    by (simp add: pools_used_def demo_pool_facts)
qed

section \<open>Two boundaries of the allocator\<close>

lemma pp_alloc_no_free:
  "pp_free pool = 0 \<Longrightarrow> 0 < n \<Longrightarrow> fst (pp_alloc pool n aligned pg) = False"
  by (simp add: pp_alloc_def pp_alloc_search_def pp_alloc_while.simps Let_def)



text \<open>A pool of 32 pages in which exactly the pages 3 to 7 are free.\<close>

definition gap_pool :: page_pool where
  "gap_pool = \<lparr>pp_base = 0, pp_num_pages = 32, pp_free = 5, pp_last = 3,
     pp_bitmap = (\<lambda>g. NOT (BIT_MASK 3 5))\<rparr>"

lemma gap_pool_bm: "bm (pp_bitmap gap_pool) i \<longleftrightarrow> i mod 32 < 3 \<or> 8 \<le> i mod 32"
  by (auto simp: gap_pool_def bm_def bit_not_iff bit_BIT_MASK)

lemma gap_pool_find:
  "bitmap_find_consec (pp_bitmap gap_pool) 32 6 4 False = - 1"
  "bitmap_find_consec (pp_bitmap gap_pool) 32 0 4 False = 3"
proof -
  have ff: "bitmap_find_consec (pp_bitmap gap_pool) 32 s 4 False = first_fit (pp_bitmap gap_pool) 32 s 4 False" for s
    by (rule find_consec_first_fit) (simp_all add: SIZE_MAX_def dvd_eq_mod_eq_0)
  have "find (\<lambda>i. \<forall>j \<in> set [i..<i + 4]. bm (pp_bitmap gap_pool) j = False) [6..<29] = None"
    unfolding find_upt_eq_None
  proof (intro allI impI notI)
    fix i assume i: "6 \<le> i \<and> i < (29 :: nat)" and "\<forall>j \<in> set [i..<i + 4]. bm (pp_bitmap gap_pool) j = False"
    then have "bm (pp_bitmap gap_pool) (i + 3) = False" by simp
    moreover have "(i + 3) mod 32 = i + 3" using i by simp
    ultimately show False using i by (simp add: gap_pool_bm)
  qed
  then show "bitmap_find_consec (pp_bitmap gap_pool) 32 6 4 False = - 1"
    by (simp add: ff first_fit_def del: set_upt)
  have "find (\<lambda>i. \<forall>j \<in> set [i..<i + 4]. bm (pp_bitmap gap_pool) j = False) [0..<29] = Some 3"
    unfolding find_upt_eq_Some by (auto simp: gap_pool_bm)
  then show "bitmap_find_consec (pp_bitmap gap_pool) 32 0 4 False = 3"
    by (simp add: ff first_fit_def del: set_upt)
qed

text \<open>C13: the aligned search steps over aligned segments: with the pages 3 to 7 free, a request for
  four pages aligned to four pages fails although the pages 4 to 7 are free and aligned.\<close>
theorem aligned_search_misses:
  "\<not> fst (pp_alloc gap_pool 4 True pg) \<and> pp_wf gap_pool \<and>
   {pp_frame0 gap_pool + 4 ..< pp_frame0 gap_pool + 8} \<subseteq> pp_frames gap_pool - pp_used gap_pool \<and>
   (pp_frame0 gap_pool + 4) mod 4 = 0"
proof -
  have f: "pp_num_pages gap_pool = 32" "pp_free gap_pool = 5" "pp_last gap_pool = 3" "pp_base gap_pool = 0"
    "pp_frame0 gap_pool = 0" by (simp_all add: gap_pool_def pp_frame0_def)
  have s: "pp_start gap_pool 4 = 0" "pp_next_aligned gap_pool 4 = 0"
    by (simp_all add: pp_start_def pp_next_aligned_def f)
  have "pp_alloc_while gap_pool 4 True 0 6 = Inl 0"
    by (simp add: pp_alloc_while.simps [of gap_pool 4 True 0 6] f gap_pool_find s)
  moreover have "pp_alloc_while gap_pool 4 True 0 0 = Inl 0"
    using calculation by (simp add: pp_alloc_while.simps [of gap_pool 4 True 0 0] f gap_pool_find s)
  ultimately have "pp_alloc_search gap_pool 4 True = Inl 0"
    by (simp add: pp_alloc_search_def s f)
  then have "\<not> fst (pp_alloc gap_pool 4 True pg)" by (simp add: pp_alloc_def Let_def)
  moreover have "pp_wf gap_pool" by (simp add: pp_wf_def f dvd_eq_mod_eq_0)
  ultimately show ?thesis by (auto simp: pp_frames_def pp_used_def f gap_pool_bm)
qed

end
