(* ===== verification/Mmu.thy ===== *)
theory Mmu
  imports Page_Table Page_Alloc
begin

text \<open>
  Virtual memory on systems with an MMU, \<open>src/src/core/mmu/mem.c\<close> with the walk of RISC-V
  (\<open>src/src/arch/riscv/page_table.c\<close>, \<open>src/src/arch/riscv/mem.c\<close>), where physical memory is mapped
  one to one so that the address in a table entry is the pointer to the next table.

  The entries of all page tables are one memory, \<open>mm_pte\<close>, from the address of an entry to its value;
  a pointer to an entry is its address and 0 is the null pointer. The tables come from the page pools.
  The locks of the address space and of the section are held from the first to the last access of an
  operation, so it is one step; fences and the invalidation of TLBs do not change this state. The lists
  of sections, the descriptors, the format of the entries and the number and size of the colors are
  parameters.
\<close>

section \<open>Data\<close>

record mmu_section =
  sec_beg :: u64
  sec_end :: u64
  sec_shared :: bool

record page_table =
  pt_root :: u64
  pt_dscr :: page_table_dscr

record mmu_space =
  sp_pt :: page_table
  sp_type :: AS_TYPE
  sp_colors :: u64
  sp_id :: u64

record mmu_params =
  mmk_pte :: pte_ops
  mmk_secs :: "AS_TYPE \<Rightarrow> mmu_section list"
  mmk_hyp_dscr :: page_table_dscr
  mmk_vm_dscr :: page_table_dscr
  mmk_color_num :: nat
  mmk_color_size :: nat

record mmu =
  mm_pte :: "u64 \<Rightarrow> u64"
  mm_pools :: "page_pool list"
  mm_asid :: u64

section \<open>Walking a table\<close>

fun pt_get_pte :: "pte_ops \<Rightarrow> (u64 \<Rightarrow> u64) \<Rightarrow> page_table \<Rightarrow> nat \<Rightarrow> u64 \<Rightarrow> u64" where
  "pt_get_pte P m pt 0 va = pt_root pt + 8 * pt_getpteindex_by_va (pt_dscr pt) va 0"
| "pt_get_pte P m pt (Suc i) va =
     (let pte = pt_get_pte P m pt i va
      in if pte = 0 then 0
         else if \<not> pte_valid P (m pte) then 0
         else pte_addr P (m pte) + 8 * pt_getpteindex_by_va (pt_dscr pt) va (i + 1))"

definition pt_get :: "pte_ops \<Rightarrow> (u64 \<Rightarrow> u64) \<Rightarrow> page_table \<Rightarrow> nat \<Rightarrow> u64 \<Rightarrow> u64" where
  "pt_get P m pt lvl va = pt_get_pte P m pt lvl va AND NOT (pt_size (pt_dscr pt) lvl - 1)"

text \<open>
  \<open>mem_translate\<close>: \<open>n\<close> is the number of levels left, \<open>i\<close> the level of \<open>pte\<close>. A table entry of the
  last level would be followed beyond the arrays of the descriptor.
\<close>

fun mem_translate_loop :: "pte_ops \<Rightarrow> (u64 \<Rightarrow> u64) \<Rightarrow> page_table_dscr \<Rightarrow> u64 \<Rightarrow> nat \<Rightarrow> nat \<Rightarrow> u64 \<Rightarrow> (u64 \<times> nat) outcome" where
  "mem_translate_loop P m d va 0 i pte = Inr (pte, 0)"
| "mem_translate_loop P m d va (Suc n) i pte =
     (if pte = 0 then Inl NULL_DEREF
      else if \<not> pte_valid P (m pte) \<or> \<not> pte_table P d (m pte) i then Inr (pte, i)
      else if lvls d \<le> i + 1 then Inl OUT_OF_BOUNDS
      else mem_translate_loop P m d va n (i + 1) (pte_addr P (m pte) + 8 * pt_getpteindex_by_va d va (i + 1)))"

definition mem_translate_mmu :: "mmu_params \<Rightarrow> mmu_space \<Rightarrow> u64 \<Rightarrow> mmu \<Rightarrow> u64 option outcome" where
  "mem_translate_mmu k as va st =
     (let P = mmk_pte k; d = pt_dscr (sp_pt as)
      in obind (mem_translate_loop P (mm_pte st) d va (lvls d) 0 (pt_root (sp_pt as) + 8 * pt_getpteindex_by_va d va 0))
           (\<lambda>(pte, lvl).
              if pte \<noteq> 0 \<and> pte_valid P (mm_pte st pte) then
                (let pa = pte_addr P (mm_pte st pte); mask = shl 1 (lvl_off d ! lvl) - 1
                 in Inr (Some ((pa AND NOT mask) OR (va AND mask))))
              else Inr None))"

section \<open>Sections\<close>

text \<open>A section is its index in the list of the address space's type.\<close>

fun find_sec_loop :: "mmu_section list \<Rightarrow> u64 \<Rightarrow> nat \<Rightarrow> nat option" where
  "find_sec_loop [] va i = None"
| "find_sec_loop (s # ss) va i =
     (if va \<ge> sec_beg s \<and> va \<le> sec_end s then Some i else find_sec_loop ss va (i + 1))"

definition mem_find_sec :: "mmu_params \<Rightarrow> mmu_space \<Rightarrow> u64 \<Rightarrow> nat option" where
  "mem_find_sec k as va = find_sec_loop (mmk_secs k (sp_type as)) va 0"

section \<open>Tables\<close>

definition pte_allocable :: "mmu_params \<Rightarrow> mmu_space \<Rightarrow> u64 \<Rightarrow> nat \<Rightarrow> nat \<Rightarrow> u64 \<Rightarrow> bool" where
  "pte_allocable k as v lvl left addr \<longleftrightarrow>
     (let d = pt_dscr (sp_pt as)
      in lvl = lvls d - 1 \<or>
         pt_lvl_terminal d lvl \<and> \<not> pte_valid (mmk_pte k) v \<and> pt_lvlsize d lvl \<le> of_nat left * PAGE_SIZE \<and>
         addr mod pt_lvlsize d lvl = 0)"

fun pt_fill :: "(u64 \<Rightarrow> u64) \<Rightarrow> u64 \<Rightarrow> nat \<Rightarrow> u64 \<Rightarrow> u64 \<Rightarrow> u64" where
  "pt_fill m base 0 v = m"
| "pt_fill m base (Suc n) v = (pt_fill m base n v)(base + 8 * of_nat n := v)"

text \<open>The result is the pointer to the table, 0 when there is no page for it.\<close>

definition mem_alloc_pt :: "mmu_params \<Rightarrow> mmu_space \<Rightarrow> u64 \<Rightarrow> nat \<Rightarrow> u64 \<Rightarrow> mmu \<Rightarrow> (u64 \<times> mmu) outcome" where
  "mem_alloc_pt k as parent lvl addr st =
     (let P = mmk_pte k; d = pt_dscr (sp_pt as); ptsize = unat (NUM_PAGES (pt_size d (lvl + 1)))
      in if lvls d \<le> lvl + 1 then Inl OUT_OF_BOUNDS
         else
         obind (mem_alloc_ppages (pp_alloc_clr_mmu (mmk_color_num k) (mmk_color_size k)) (mmk_color_num k)
                  (mm_pools st) (sp_colors as) ptsize (ptsize > 1))
           (\<lambda>(pools, ppage).
              let st = st\<lparr>mm_pools := pools\<rparr>
              in if pa_num ppage = 0 then Inr (0, st)
                 else if parent = 0 then Inl NULL_DEREF
                 else
                   (let dflt = 0 OR (mm_pte st parent AND PTE_RSW_MSK P);
                        m = (mm_pte st)(parent := pte_set P (pa_base ppage) (PTE_TABLE P) (PTE_HYP_FLAGS P));
                        temp_pt = pt_get P m (sp_pt as) (lvl + 1) addr
                    in if temp_pt = 0 then Inl NULL_DEREF
                       else Inr (temp_pt, st\<lparr>mm_pte := pt_fill m temp_pt (unat (pt_nentries d (lvl + 1))) dflt\<rparr>))))"

definition pt_pte_mappable :: "mmu_params \<Rightarrow> mmu_space \<Rightarrow> u64 \<Rightarrow> nat \<Rightarrow> nat \<Rightarrow> u64 \<Rightarrow> u64 \<Rightarrow> bool" where
  "pt_pte_mappable k as v lvl left vaddr paddr \<longleftrightarrow>
     (let d = pt_dscr (sp_pt as)
      in \<not> pte_valid (mmk_pte k) v \<and> pt_lvlsize d lvl \<le> of_nat left * PAGE_SIZE \<and>
         vaddr mod pt_lvlsize d lvl = 0 \<and> paddr mod pt_lvlsize d lvl = 0)"

section \<open>Expanding entries\<close>

text \<open>The loop over the new table, \<open>n\<close> entries from \<open>pte\<close> on.\<close>

fun expand_fill :: "pte_ops \<Rightarrow> bool \<Rightarrow> u64 \<Rightarrow> u64 \<Rightarrow> u64 \<Rightarrow> nat \<Rightarrow> u64 \<Rightarrow> u64 \<Rightarrow> (u64 \<Rightarrow> u64) \<Rightarrow> (u64 \<Rightarrow> u64)" where
  "expand_fill P vld type flags lvlsz 0 pte paddr m = m"
| "expand_fill P vld type flags lvlsz (Suc n) pte paddr m =
     expand_fill P vld type flags lvlsz n (pte + 8) (paddr + lvlsz)
       (m(pte := if vld then pte_set P paddr type flags else pte_set_rsw P (m pte) (PTE_RSW_RSRV P)))"

definition mem_expand_pte :: "mmu_params \<Rightarrow> mmu_space \<Rightarrow> u64 \<Rightarrow> nat \<Rightarrow> mmu \<Rightarrow> mmu outcome" where
  "mem_expand_pte k as va lvl st =
     (let P = mmk_pte k; d = pt_dscr (sp_pt as)
      in if lvls d - 1 \<le> lvl then Inr st
         else
           (let pte = pt_get_pte P (mm_pte st) (sp_pt as) lvl va; v = mm_pte st pte
            in if pte \<noteq> 0 \<and> \<not> pte_table P d v lvl then
                 (let rsv = pte_check_rsw P v (PTE_RSW_RSRV P); vld = pte_valid P v
                  in obind (mem_alloc_pt k as pte lvl va st)
                       (\<lambda>(pte, st).
                          if vld \<or> rsv then
                            (let lvl = lvl + 1;
                                 n = unat (pt_nentries d lvl) - unat (pt_getpteindex d pte lvl);
                                 flags = (if sp_type as = AS_HYP then PTE_HYP_FLAGS P else PTE_VM_FLAGS P)
                             in if pte = 0 \<and> 0 < n then Inl NULL_DEREF
                                else Inr (st\<lparr>mm_pte := expand_fill P vld (pt_page_type P d lvl) flags (pt_lvlsize d lvl) n pte
                                                (pte_addr P v) (mm_pte st)\<rparr>))
                          else Inr st))
               else Inr st))"

partial_function (option) mem_inflate_level ::
    "mmu_params \<Rightarrow> mmu_space \<Rightarrow> nat \<Rightarrow> u64 \<Rightarrow> u64 \<Rightarrow> mmu \<Rightarrow> mmu outcome option" where
  "mem_inflate_level k as lvl tp vaddr st =
     (if vaddr < tp then
        (case mem_expand_pte k as vaddr lvl st of
           Inl e \<Rightarrow> Some (Inl e)
         | Inr st \<Rightarrow> mem_inflate_level k as lvl tp (vaddr + pt_lvlsize (pt_dscr (sp_pt as)) lvl) st)
      else Some (Inr st))"

definition returned :: "'a outcome option \<Rightarrow> 'a outcome" where
  "returned r = (case r of None \<Rightarrow> Inl NO_RETURN | Some x \<Rightarrow> x)"

definition mem_inflate_pt :: "mmu_params \<Rightarrow> mmu_space \<Rightarrow> u64 \<Rightarrow> u64 \<Rightarrow> mmu \<Rightarrow> mmu outcome" where
  "mem_inflate_pt k as va len st =
     ofold (\<lambda>lvl st. returned (mem_inflate_level k as lvl (va + len) va st))
       [0 ..< lvls (pt_dscr (sp_pt as)) - 1] st"

section \<open>Mapping\<close>

text \<open>The descent to the entry for \<open>vaddr\<close>; \<open>n\<close> levels are left. The result is the entry and its level.\<close>

fun mem_map_descend :: "mmu_params \<Rightarrow> mmu_space \<Rightarrow> bool \<Rightarrow> nat \<Rightarrow> u64 \<Rightarrow> u64 \<Rightarrow> nat \<Rightarrow> nat \<Rightarrow> mmu \<Rightarrow> (u64 \<times> nat \<times> mmu) outcome" where
  "mem_map_descend k as given left vaddr paddr 0 lvl st = Inl OUT_OF_BOUNDS"
| "mem_map_descend k as given left vaddr paddr (Suc n) lvl st =
     (let P = mmk_pte k; pte = pt_get_pte P (mm_pte st) (sp_pt as) lvl vaddr; v = mm_pte st pte
      in if \<not> pt_lvl_terminal (pt_dscr (sp_pt as)) lvl then mem_map_descend k as given left vaddr paddr n (lvl + 1) st
         else if pte = 0 then Inl NULL_DEREF
         else if pt_pte_mappable k as v lvl left vaddr (if given then paddr else 0) then Inr (pte, lvl, st)
         else if \<not> pte_valid P v then
           obind (mem_alloc_pt k as pte lvl vaddr st) (\<lambda>(_, st). mem_map_descend k as given left vaddr paddr n (lvl + 1) st)
         else if \<not> pte_table P (pt_dscr (sp_pt as)) v lvl then Inl (ERROR ''trying to override previous mapping'')
         else mem_map_descend k as given left vaddr paddr n (lvl + 1) st)"

text \<open>
  The loop over the entries of one table, \<open>n\<close> of them from \<open>pte\<close> on; \<open>sz\<close> is the number of pages of
  an entry. When no pages are given they are allocated for each entry. The result is the next virtual
  and physical address and the number of pages mapped.
\<close>

fun mem_map_entries :: "mmu_params \<Rightarrow> mmu_space \<Rightarrow> bool \<Rightarrow> nat \<Rightarrow> u64 \<Rightarrow> nat \<Rightarrow> nat \<Rightarrow> u64 \<Rightarrow> u64 \<Rightarrow> u64 \<Rightarrow> nat \<Rightarrow> mmu \<Rightarrow>
    (u64 \<times> u64 \<times> nat \<times> mmu) outcome" where
  "mem_map_entries k as given num_pages flags lvl 0 pte vaddr paddr count st = Inr (vaddr, paddr, count, st)"
| "mem_map_entries k as given num_pages flags lvl (Suc n) pte vaddr paddr count st =
     (let P = mmk_pte k; d = pt_dscr (sp_pt as); lvlsz = pt_lvlsize d lvl; sz = unat (lvlsz div PAGE_SIZE)
      in if \<not> (count < num_pages \<and> num_pages - count \<ge> sz) then Inr (vaddr, paddr, count, st)
         else
           obind (if given then Inr (False, paddr, st)
                  else obind (mem_alloc_ppages (pp_alloc_clr_mmu (mmk_color_num k) (mmk_color_size k)) (mmk_color_num k)
                                (mm_pools st) (sp_colors as) sz True)
                    (\<lambda>(pools, tmp).
                       let st = st\<lparr>mm_pools := pools\<rparr>
                       in if pa_num tmp < sz then
                            (if lvl = lvls d - 1 then Inl (ERROR ''failed to alloc physical pages'')
                             else
                               (let pte = pt_get_pte P (mm_pte st) (sp_pt as) lvl vaddr
                                in if pte = 0 then Inl NULL_DEREF
                                   else if \<not> pte_valid P (mm_pte st pte) then
                                     obind (mem_alloc_pt k as pte lvl vaddr st) (\<lambda>(_, st). Inr (True, paddr, st))
                                   else Inr (True, paddr, st)))
                          else Inr (False, pa_base tmp, st)))
             (\<lambda>(stop, paddr, st).
                if stop then Inr (vaddr, paddr, count, st)
                else mem_map_entries k as given num_pages flags lvl n (pte + 8) (vaddr + lvlsz) (paddr + lvlsz) (count + sz)
                       (st\<lparr>mm_pte := (mm_pte st)(pte := pte_set P paddr (pt_page_type P d lvl) flags)\<rparr>)))"

partial_function (option) mem_map_loop ::
    "mmu_params \<Rightarrow> mmu_space \<Rightarrow> bool \<Rightarrow> nat \<Rightarrow> u64 \<Rightarrow> u64 \<Rightarrow> u64 \<Rightarrow> nat \<Rightarrow> mmu \<Rightarrow> mmu outcome option" where
  "mem_map_loop k as given num_pages flags vaddr paddr count st =
     (if count < num_pages then
        (case obind (mem_map_descend k as given (num_pages - count) vaddr paddr (lvls (pt_dscr (sp_pt as))) 0 st)
                (\<lambda>(pte, lvl, st).
                   mem_map_entries k as given num_pages flags lvl
                     (unat (pt_nentries (pt_dscr (sp_pt as)) lvl) - unat (pt_getpteindex (pt_dscr (sp_pt as)) pte lvl))
                     pte vaddr paddr count st) of
           Inl e \<Rightarrow> Some (Inl e)
         | Inr (vaddr, paddr, count, st) \<Rightarrow> mem_map_loop k as given num_pages flags vaddr paddr count st)
      else Some (Inr st))"

text \<open>The loop over colored pages, \<open>n\<close> of them.\<close>

fun mem_map_colored :: "mmu_params \<Rightarrow> mmu_space \<Rightarrow> u64 \<Rightarrow> ppages \<Rightarrow> nat \<Rightarrow> u64 \<Rightarrow> nat \<Rightarrow> mmu \<Rightarrow> mmu outcome" where
  "mem_map_colored k as flags pg 0 vaddr index st = Inr st"
| "mem_map_colored k as flags pg (Suc n) vaddr index st =
     (let P = mmk_pte k; pte = pt_get_pte P (mm_pte st) (sp_pt as) (lvls (pt_dscr (sp_pt as)) - 1) vaddr
      in case pp_next_clr (mmk_color_num k) (mmk_color_size k) (pa_base pg) index (pa_colors pg) of
           None \<Rightarrow> Inl NO_RETURN
         | Some index \<Rightarrow>
             if pte = 0 then Inl NULL_DEREF
             else mem_map_colored k as flags pg n (vaddr + PAGE_SIZE) (index + 1)
                    (st\<lparr>mm_pte := (mm_pte st)(pte := pte_set P (pa_base pg + of_nat index * PAGE_SIZE) (PTE_PAGE P) flags)\<rparr>))"

definition mem_map_mmu :: "mmu_params \<Rightarrow> mmu_space \<Rightarrow> u64 \<Rightarrow> ppages option \<Rightarrow> nat \<Rightarrow> u64 \<Rightarrow> mmu \<Rightarrow> (bool \<times> mmu) outcome" where
  "mem_map_mmu k as va ppages num_pages flags st =
     (let cn = mmk_color_num k; vaddr = va AND NOT (PAGE_SIZE - 1); sec = mem_find_sec k as vaddr
      in if sec = None \<or> sec \<noteq> mem_find_sec k as (vaddr + of_nat num_pages * PAGE_SIZE - 1) then Inr (False, st)
         else
           obind (if ppages = None \<and> \<not> all_clrs cn (sp_colors as) then
                    obind (mem_alloc_ppages (pp_alloc_clr_mmu cn (mmk_color_size k)) cn (mm_pools st) (sp_colors as) num_pages False)
                      (\<lambda>(pools, pg). if pa_num pg < num_pages then Inl (ERROR ''failed to alloc colored physical pages'')
                         else Inr (Some pg, st\<lparr>mm_pools := pools\<rparr>))
                  else Inr (ppages, st))
             (\<lambda>(ppages, st).
                obind (case ppages of
                    Some pg \<Rightarrow>
                      if \<not> all_clrs cn (pa_colors pg) then
                        obind (mem_inflate_pt k as vaddr (of_nat num_pages * PAGE_SIZE) st)
                          (mem_map_colored k as flags pg (pa_num pg) vaddr 0)
                      else returned (mem_map_loop k as True num_pages flags vaddr (pa_base pg) 0 st)
                  | None \<Rightarrow> returned (mem_map_loop k as False num_pages flags vaddr 0 0 st))
                  (\<lambda>st. Inr (True, st))))"

section \<open>Unmapping\<close>

text \<open>
  The loop over the entries of one table, \<open>n\<close> of them from \<open>pte\<close> on. The result is the number of
  entries left when it stops, the level and the next address.
\<close>

fun mem_unmap_entries :: "mmu_params \<Rightarrow> mmu_space \<Rightarrow> bool \<Rightarrow> u64 \<Rightarrow> nat \<Rightarrow> nat \<Rightarrow> u64 \<Rightarrow> u64 \<Rightarrow> mmu \<Rightarrow>
    (nat \<times> nat \<times> u64 \<times> mmu) outcome" where
  "mem_unmap_entries k as free_ppages tp lvl 0 pte vaddr st = Inr (0, lvl, vaddr, st)"
| "mem_unmap_entries k as free_ppages tp lvl (Suc n) pte vaddr st =
     (let P = mmk_pte k; d = pt_dscr (sp_pt as); lvlsz = pt_lvlsize d lvl; v = mm_pte st pte;
          vpage_base = vaddr AND NOT (lvlsz - 1)
      in if \<not> vaddr < tp \<or> pte_table P d v lvl then Inr (Suc n, lvl, vaddr, st)
         else if vaddr > vpage_base \<or> tp < vpage_base + lvlsz then
           obind (mem_expand_pte k as vaddr lvl st) (\<lambda>st. Inr (Suc n, lvl + 1, vaddr, st))
         else
           obind (if free_ppages then
                    (case mem_free_ppages (mmk_color_num k) (mmk_color_size k) (mm_pools st)
                            (mem_ppages_get (pte_addr P v) (unat (lvlsz div PAGE_SIZE))) of
                       None \<Rightarrow> Inl NO_RETURN
                     | Some pools \<Rightarrow> Inr (st\<lparr>mm_pools := pools\<rparr>))
                  else Inr st)
             (\<lambda>st. mem_unmap_entries k as free_ppages tp lvl n (pte + 8) (vaddr + lvlsz)
                     (st\<lparr>mm_pte := (mm_pte st)(pte := 0)\<rparr>)))"

text \<open>A level beyond the descriptor, after \<open>lvl--\<close> on the root or \<open>lvl++\<close> on the last level, reads past its arrays.\<close>

partial_function (option) mem_unmap_loop ::
    "mmu_params \<Rightarrow> mmu_space \<Rightarrow> bool \<Rightarrow> u64 \<Rightarrow> u64 \<Rightarrow> nat \<Rightarrow> mmu \<Rightarrow> mmu outcome option" where
  "mem_unmap_loop k as free_ppages tp vaddr lvl st =
     (if vaddr < tp then
        if lvls (pt_dscr (sp_pt as)) \<le> lvl then Some (Inl OUT_OF_BOUNDS)
        else
          (let P = mmk_pte k; d = pt_dscr (sp_pt as); pte = pt_get_pte P (mm_pte st) (sp_pt as) lvl vaddr; v = mm_pte st pte
           in if pte = 0 then Some (Inl (ERROR ''invalid pte while freeing vpages''))
              else if \<not> pte_valid P v then mem_unmap_loop k as free_ppages tp (vaddr + pt_lvlsize d lvl) lvl st
              else if pte_table P d v lvl then mem_unmap_loop k as free_ppages tp vaddr (lvl + 1) st
              else
                (case mem_unmap_entries k as free_ppages tp lvl (unat (pt_nentries d lvl) - unat (pt_getpteindex d pte lvl))
                        pte vaddr st of
                   Inl e \<Rightarrow> Some (Inl e)
                 | Inr (n, lvl, vaddr, st) \<Rightarrow>
                     mem_unmap_loop k as free_ppages tp vaddr (if n = 0 then pred64 lvl else lvl) st))
      else Some (Inr st))"

definition mem_unmap_mmu :: "mmu_params \<Rightarrow> mmu_space \<Rightarrow> u64 \<Rightarrow> nat \<Rightarrow> bool \<Rightarrow> mmu \<Rightarrow> mmu outcome" where
  "mem_unmap_mmu k as at num_pages free_ppages st =
     (if mem_find_sec k as at = None then Inl NULL_DEREF
      else returned (mem_unmap_loop k as free_ppages (at + of_nat num_pages * PAGE_SIZE) at 0 st))"

section \<open>Allocating virtual pages\<close>

text \<open>
  The loop over the entries of one table, \<open>n\<close> of them from \<open>pte\<close> on. The result is the level at
  which the outer loop goes on, the next address, the number of pages found so far, the first of them
  and whether the search failed.
\<close>

fun vpage_entries :: "mmu_params \<Rightarrow> mmu_space \<Rightarrow> u64 \<Rightarrow> nat \<Rightarrow> nat \<Rightarrow> nat \<Rightarrow> u64 \<Rightarrow> u64 \<Rightarrow> nat \<Rightarrow> u64 \<Rightarrow> mmu \<Rightarrow>
    (nat \<times> u64 \<times> nat \<times> u64 \<times> bool \<times> mmu) outcome" where
  "vpage_entries k as at np lvl 0 pte addr count vpage st = Inr (lvl, addr, count, vpage, False, st)"
| "vpage_entries k as at np lvl (Suc n) pte addr count vpage st =
     (if \<not> count < np then Inr (lvl, addr, count, vpage, False, st)
      else if pte = 0 then Inl NULL_DEREF
      else
        (let P = mmk_pte k; d = pt_dscr (sp_pt as); lvlsze = pt_lvlsize d lvl; v = mm_pte st pte;
             taken = pte_check_rsw P v (PTE_RSW_RSRV P) \<or> pte_valid P v \<and> \<not> pte_table P d v lvl
         in if taken \<and> at \<noteq> INVALID_VA then Inr (lvl, addr, 0, INVALID_VA, True, st)
            else
              obind (if taken then Inr (0, INVALID_VA, st)
                     else if \<not> pte_valid P v then
                       (if pte_allocable k as v lvl (np - count) addr
                        then Inr (count + unat (lvlsze div PAGE_SIZE), if count = 0 then addr else vpage, st)
                        else obind (mem_alloc_pt k as pte lvl addr st)
                               (\<lambda>(tbl, st). if tbl = 0 then Inl (ERROR ''failed to alloc page table'') else Inr (count, vpage, st)))
                     else Inr (count, vpage, st))
                (\<lambda>(count, vpage, st).
                   if pte_table P d (mm_pte st pte) lvl then Inr (lvl + 1, addr, count, vpage, False, st)
                   else if n = 0 then Inr (0, addr + lvlsze, count, vpage, False, st)
                   else vpage_entries k as at np lvl n (pte + 8) (addr + lvlsze) count vpage st)))"

partial_function (option) vpage_search ::
    "mmu_params \<Rightarrow> mmu_space \<Rightarrow> u64 \<Rightarrow> u64 \<Rightarrow> nat \<Rightarrow> nat \<Rightarrow> u64 \<Rightarrow> nat \<Rightarrow> u64 \<Rightarrow> mmu \<Rightarrow> (u64 \<times> bool \<times> mmu) outcome option" where
  "vpage_search k as at tp np lvl addr count vpage st =
     (if count < np then
        if \<not> (addr = 0 \<and> tp = MAX_VA) \<and> unat ((tp + 1 - addr) div PAGE_SIZE) < np then Some (Inr (INVALID_VA, True, st))
        else if lvls (pt_dscr (sp_pt as)) \<le> lvl then Some (Inl OUT_OF_BOUNDS)
        else
          (let d = pt_dscr (sp_pt as); pte = pt_get_pte (mmk_pte k) (mm_pte st) (sp_pt as) lvl addr
           in case vpage_entries k as at np lvl (unat (pt_nentries d lvl) - unat (pt_getpteindex d pte lvl)) pte addr count vpage st of
                Inl e \<Rightarrow> Some (Inl e)
              | Inr (lvl, addr, count, vpage, failed, st) \<Rightarrow>
                  if failed then Some (Inr (vpage, True, st))
                  else vpage_search k as at tp np lvl addr count vpage st)
      else Some (Inr (vpage, False, st)))"

text \<open>The first level with no valid entry for an address, \<open>n\<close> levels being left.\<close>

fun vpage_entry :: "mmu_params \<Rightarrow> mmu_space \<Rightarrow> u64 \<Rightarrow> nat \<Rightarrow> nat \<Rightarrow> mmu \<Rightarrow> (nat \<times> u64) outcome" where
  "vpage_entry k as addr 0 lvl st = Inl OUT_OF_BOUNDS"
| "vpage_entry k as addr (Suc n) lvl st =
     (let pte = pt_get_pte (mmk_pte k) (mm_pte st) (sp_pt as) lvl addr
      in if pte = 0 then Inl NULL_DEREF
         else if \<not> pte_valid (mmk_pte k) (mm_pte st pte) then Inr (lvl, pte)
         else vpage_entry k as addr n (lvl + 1) st)"

partial_function (option) vpage_mark :: "mmu_params \<Rightarrow> mmu_space \<Rightarrow> nat \<Rightarrow> u64 \<Rightarrow> nat \<Rightarrow> mmu \<Rightarrow> mmu outcome option" where
  "vpage_mark k as np addr count st =
     (if count < np then
        (case vpage_entry k as addr (lvls (pt_dscr (sp_pt as))) 0 st of
           Inl e \<Rightarrow> Some (Inl e)
         | Inr (lvl, pte) \<Rightarrow>
             (let P = mmk_pte k; lvlsz = pt_lvlsize (pt_dscr (sp_pt as)) lvl
              in vpage_mark k as np (addr + lvlsz) (count + unat (lvlsz div PAGE_SIZE))
                   (st\<lparr>mm_pte := (mm_pte st)(pte := pte_set_rsw P (mm_pte st pte) (PTE_RSW_RSRV P))\<rparr>)))
      else Some (Inr st))"

definition mem_alloc_vpage :: "mmu_params \<Rightarrow> mmu_space \<Rightarrow> nat \<Rightarrow> u64 \<Rightarrow> nat \<Rightarrow> mmu \<Rightarrow> (u64 \<times> mmu) outcome" where
  "mem_alloc_vpage k as section at n st =
     (if length (mmk_secs k (sp_type as)) \<le> section then Inl OUT_OF_BOUNDS
      else
        (let sec = mmk_secs k (sp_type as) ! section; addr = (if at \<noteq> INVALID_VA then at else sec_beg sec); tp = sec_end sec
         in if at \<noteq> INVALID_VA \<and> mem_find_sec k as at \<noteq> Some section \<or> addr > tp \<or> \<not> IS_ALIGNED addr PAGE_SIZE
            then Inr (INVALID_VA, st)
            else
              obind (returned (vpage_search k as at tp n 0 addr 0 INVALID_VA st))
                (\<lambda>(vpage, failed, st).
                   if vpage \<noteq> INVALID_VA \<and> \<not> failed then
                     obind (returned (vpage_mark k as n vpage 0 st)) (\<lambda>st. Inr (vpage, st))
                   else Inr (vpage, st))))"

section \<open>Combined operations\<close>

definition mem_alloc_map_mmu :: "mmu_params \<Rightarrow> mmu_space \<Rightarrow> nat \<Rightarrow> ppages option \<Rightarrow> u64 \<Rightarrow> nat \<Rightarrow> u64 \<Rightarrow> mmu \<Rightarrow> (u64 \<times> mmu) outcome" where
  "mem_alloc_map_mmu k as section pages at num_pages flags st =
     obind (mem_alloc_vpage k as section at num_pages st)
       (\<lambda>(address, st).
          if address \<noteq> INVALID_VA then obind (mem_map_mmu k as address pages num_pages flags st) (\<lambda>(_, st). Inr (address, st))
          else Inr (address, st))"

definition mem_alloc_map_dev_mmu :: "mmu_params \<Rightarrow> mmu_space \<Rightarrow> nat \<Rightarrow> u64 \<Rightarrow> u64 \<Rightarrow> nat \<Rightarrow> mmu \<Rightarrow> (u64 \<times> mmu) outcome" where
  "mem_alloc_map_dev_mmu k as section at pa num_pages st =
     obind (mem_alloc_vpage k as section at num_pages st)
       (\<lambda>(address, st).
          if address \<noteq> INVALID_VA then
            obind (mem_map_mmu k as address (Some (mem_ppages_get pa num_pages)) num_pages
                     (if sp_type as = AS_HYP then PTE_HYP_DEV_FLAGS (mmk_pte k) else PTE_VM_DEV_FLAGS (mmk_pte k)) st)
              (\<lambda>(_, st). Inr (address, st))
          else Inr (address, st))"

end
