(* ===== verification/Page_Walk.thy ===== *)
theory Page_Walk
  imports Mmu
begin

text \<open>
  The tree that the page tables of an address space form, \<open>pt_walk\<close>, and what writing one entry does
  to it. The tables of different blocks of addresses are different and share no entry
  (\<open>pt_tree\<close>); under this invariant, setting an entry to a page or clearing it changes the
  translation of its block of addresses only, and so does hanging a new table into it. The lemmas hold
  for every format of entries that meets \<open>pte_format\<close> and for every descriptor with tables of one page
  below the root; RISC-V and Armv8-A are instances.
\<close>

section \<open>Blocks of addresses\<close>

definition dscr_ok :: "page_table_dscr \<Rightarrow> bool" where
  "dscr_ok d \<longleftrightarrow> 0 < lvls d \<and> lvls d \<le> 4 \<and>
     (\<forall>l < lvls d. lvl_off d ! l = 12 + 9 * (lvls d - 1 - l)) \<and>
     (\<forall>l < lvls d. 0 < l \<longrightarrow> lvl_wdt d ! l = lvl_off d ! l + 9) \<and>
     lvl_off d ! 0 < lvl_wdt d ! 0 \<and> lvl_wdt d ! 0 < 64"

text \<open>The part of an address that is translated, and the number of its block on a level.\<close>

definition va_low :: "page_table_dscr \<Rightarrow> u64 \<Rightarrow> nat" where
  "va_low d va = unat va mod 2 ^ (lvl_wdt d ! 0)"

definition blk :: "page_table_dscr \<Rightarrow> nat \<Rightarrow> u64 \<Rightarrow> nat" where
  "blk d l va = va_low d va div 2 ^ (lvl_off d ! l)"

lemma dscr_okD:
  assumes "dscr_ok d" and "l < lvls d"
  shows "lvl_off d ! l = 12 + 9 * (lvls d - 1 - l)" and "lvl_off d ! l < lvl_wdt d ! 0" and "lvl_wdt d ! 0 < 64"
    and "0 < l \<Longrightarrow> lvl_wdt d ! l = lvl_off d ! l + 9" and "lvl_off d ! l < lvl_wdt d ! l" and "lvl_wdt d ! l < 64"
    and "lvls d \<le> 4" and "0 < lvls d"
  using assms by (cases "l = 0"; auto simp: dscr_ok_def)+

lemma off_Suc: "dscr_ok d \<Longrightarrow> Suc l < lvls d \<Longrightarrow> lvl_off d ! l = lvl_off d ! Suc l + 9"
  using dscr_okD(1) [of d l] dscr_okD(1) [of d "Suc l"] by simp

lemma off_last: "dscr_ok d \<Longrightarrow> lvl_off d ! (lvls d - 1) = 12"
  using dscr_okD(1) [of d "lvls d - 1"] by (simp add: dscr_ok_def)

lemma va_low_less: "dscr_ok d \<Longrightarrow> va_low d va < 2 ^ (lvl_wdt d ! 0)"
  by (simp add: va_low_def)

lemma unat_exp: "n < 64 \<Longrightarrow> unat (2 ^ n :: u64) = 2 ^ n"
proof -
  assume "n < 64"
  then have "(2 :: nat) ^ n < 2 ^ 64" by (intro power_strict_increasing) auto
  then show ?thesis using unat_of_nat [of "2 ^ n", where 'a = 64] by simp
qed

lemma unat_nentries:
  assumes "dscr_ok d" and "l < lvls d"
  shows "unat (pt_nentries d l) = 2 ^ (lvl_wdt d ! l - lvl_off d ! l)"
  using dscr_okD(5,6) [OF assms]
  by (simp add: pt_nentries_def shl_def push_bit_eq_mult unsigned_drop_bit_eq unat_exp) (simp add: drop_bit_eq_div power_diff)

lemma nentries_mask:
  assumes "dscr_ok d" and "l < lvls d"
  shows "pt_nentries d l - 1 = mask (lvl_wdt d ! l - lvl_off d ! l)"
proof -
  have "pt_nentries d l = 2 ^ (lvl_wdt d ! l - lvl_off d ! l)"
    using unat_nentries [OF assms] dscr_okD [OF assms] by (simp add: word_unat_eq_iff unat_exp)
  then show ?thesis by (simp add: mask_eq_exp_minus_1)
qed

lemma unat_lvlsize: "dscr_ok d \<Longrightarrow> l < lvls d \<Longrightarrow> unat (pt_lvlsize d l) = 2 ^ (lvl_off d ! l)"
  using dscr_okD [of d l] by (simp add: pt_lvlsize_def shl_def push_bit_eq_mult unat_exp)

lemma unat_index:
  assumes "dscr_ok d" and "l < lvls d"
  shows "unat (pt_getpteindex_by_va d va l) = unat va div 2 ^ (lvl_off d ! l) mod 2 ^ (lvl_wdt d ! l - lvl_off d ! l)"
  by (simp add: pt_getpteindex_by_va_def nentries_mask [OF assms] take_bit_eq_mask [symmetric] unsigned_take_bit_eq
      unsigned_drop_bit_eq) (simp add: take_bit_eq_mod drop_bit_eq_div word_unat_lt)

lemma mod_exp_div: "a mod 2 ^ (n + k) div 2 ^ n = a div 2 ^ n mod 2 ^ k" for a :: nat
  by (simp add: power_add mod_mult2_eq)

lemma index_0:
  assumes "dscr_ok d"
  shows "unat (pt_getpteindex_by_va d va 0) = blk d 0 va"
proof -
  have "0 < lvls d" using assms by (simp add: dscr_ok_def)
  from dscr_okD [OF assms this] have "lvl_wdt d ! 0 = lvl_off d ! 0 + (lvl_wdt d ! 0 - lvl_off d ! 0)" by simp
  then show ?thesis unfolding unat_index [OF assms \<open>0 < lvls d\<close>] blk_def va_low_def by (metis mod_exp_div)
qed

lemma blk_Suc_div:
  assumes "dscr_ok d" and "Suc l < lvls d"
  shows "blk d l va = blk d (Suc l) va div 512"
  by (simp add: blk_def off_Suc [OF assms] power_add div_mult2_eq)

lemma index_Suc:
  assumes "dscr_ok d" and "Suc l < lvls d"
  shows "unat (pt_getpteindex_by_va d va (Suc l)) = blk d (Suc l) va mod 512"
proof -
  note d = dscr_okD [OF assms]
  have "lvl_wdt d ! 0 = lvl_off d ! Suc l + (9 + (lvl_wdt d ! 0 - lvl_off d ! l))"
    using d off_Suc [OF assms] dscr_okD(2) [OF assms(1), of l] assms(2) by simp
  then have "va_low d va div 2 ^ (lvl_off d ! Suc l) = unat va div 2 ^ (lvl_off d ! Suc l) mod 2 ^ (9 + (lvl_wdt d ! 0 - lvl_off d ! l))"
    unfolding va_low_def by (metis mod_exp_div)
  then show ?thesis
    using d(4) by (simp add: unat_index [OF assms] blk_def mod_mod_cancel power_add)
qed

lemma blk_split: "dscr_ok d \<Longrightarrow> Suc l < lvls d \<Longrightarrow>
    blk d (Suc l) va = 512 * blk d l va + unat (pt_getpteindex_by_va d va (Suc l))"
  by (simp add: blk_Suc_div index_Suc)

lemma blk_cong_up:
  assumes "dscr_ok d" and "l < lvls d" and "l' \<le> l" and "blk d l va = blk d l va'"
  shows "blk d l' va = blk d l' va'"
  using assms(3,2,4)
proof (induction l rule: dec_induct)
  case (step n)
  then show ?case using blk_Suc_div [OF assms(1), of n] by simp
qed simp

lemma index_less_512: "dscr_ok d \<Longrightarrow> Suc l < lvls d \<Longrightarrow> unat (pt_getpteindex_by_va d va (Suc l)) < 512"
  by (simp add: index_Suc)

section \<open>The tree\<close>

fun pt_walk :: "pte_ops \<Rightarrow> page_table_dscr \<Rightarrow> (u64 \<Rightarrow> u64) \<Rightarrow> u64 \<Rightarrow> nat \<Rightarrow> u64 \<Rightarrow> u64 option" where
  "pt_walk P d m root 0 va = Some (root + 8 * pt_getpteindex_by_va d va 0)"
| "pt_walk P d m root (Suc l) va =
     (case pt_walk P d m root l va of
        None \<Rightarrow> None
      | Some p \<Rightarrow> if pte_valid P (m p) \<and> pte_table P d (m p) l
                  then Some (pte_addr P (m p) + 8 * pt_getpteindex_by_va d va (Suc l)) else None)"

text \<open>The entry at which the walk for an address ends.\<close>

definition pt_end :: "pte_ops \<Rightarrow> page_table_dscr \<Rightarrow> (u64 \<Rightarrow> u64) \<Rightarrow> u64 \<Rightarrow> u64 \<Rightarrow> nat \<Rightarrow> u64 \<Rightarrow> bool" where
  "pt_end P d m root va l p \<longleftrightarrow> l < lvls d \<and> pt_walk P d m root l va = Some p \<and> \<not> (pte_valid P (m p) \<and> pte_table P d (m p) l)"

definition pt_frames :: "pte_ops \<Rightarrow> page_table_dscr \<Rightarrow> (u64 \<Rightarrow> u64) \<Rightarrow> u64 \<Rightarrow> nat set" where
  "pt_frames P d m root = {unat p div 4096 | p. \<exists>l < lvls d. \<exists>va. pt_walk P d m root l va = Some p}"

definition entry_ok :: "pte_ops \<Rightarrow> page_table_dscr \<Rightarrow> u64 \<Rightarrow> nat \<Rightarrow> bool" where
  "entry_ok P d v l \<longleftrightarrow> (l = lvls d - 1 \<longrightarrow> \<not> (pte_valid P v \<and> pte_table P d v l)) \<and>
     (pte_valid P v \<and> \<not> pte_table P d v l \<longrightarrow> 2 ^ (lvl_off d ! l) dvd unat (pte_addr P v))"

definition pt_tree :: "pte_ops \<Rightarrow> page_table_dscr \<Rightarrow> (u64 \<Rightarrow> u64) \<Rightarrow> u64 \<Rightarrow> bool" where
  "pt_tree P d m root \<longleftrightarrow>
     (\<forall>l l' va va' p. l < lvls d \<longrightarrow> l' < lvls d \<longrightarrow> pt_walk P d m root l va = Some p \<longrightarrow> pt_walk P d m root l' va' = Some p \<longrightarrow>
        l = l' \<and> blk d l va = blk d l va') \<and>
     (\<forall>l va p. l < lvls d \<longrightarrow> pt_walk P d m root l va = Some p \<longrightarrow> p \<noteq> 0 \<and> entry_ok P d (m p) l)"

lemma pt_treeD:
  assumes "pt_tree P d m root" and "l < lvls d" and "pt_walk P d m root l va = Some p"
  shows "l' < lvls d \<Longrightarrow> pt_walk P d m root l' va' = Some p \<Longrightarrow> l = l' \<and> blk d l va = blk d l va'"
    and "p \<noteq> 0" and "entry_ok P d (m p) l"
proof -
  show "l = l' \<and> blk d l va = blk d l va'" if "l' < lvls d" "pt_walk P d m root l' va' = Some p"
    using assms that unfolding pt_tree_def by blast
  show "p \<noteq> 0" "entry_ok P d (m p) l" using assms unfolding pt_tree_def by blast+
qed

lemma walk_cong:
  assumes "dscr_ok d" and "l < lvls d" and "blk d l va = blk d l va'"
  shows "pt_walk P d m root l va = pt_walk P d m root l va'"
  using assms(2,3)
proof (induction l)
  case 0
  then have "pt_getpteindex_by_va d va 0 = pt_getpteindex_by_va d va' 0"
    by (simp add: word_unat_eq_iff index_0 [OF assms(1)])
  then show ?case by simp
next
  case (Suc l)
  have "blk d l va = blk d l va'" by (rule blk_cong_up [OF assms(1) Suc.prems(1) _ Suc.prems(2)]) simp
  then have "pt_walk P d m root l va = pt_walk P d m root l va'" using Suc.IH Suc.prems(1) by simp
  moreover have "pt_getpteindex_by_va d va (Suc l) = pt_getpteindex_by_va d va' (Suc l)"
    using Suc.prems by (simp add: word_unat_eq_iff index_Suc [OF assms(1)])
  ultimately show ?case by (simp only: pt_walk.simps)
qed

lemma walk_get_pte_other:
  assumes "pt_tree P d m root"
  shows "l < lvls d \<Longrightarrow> pt_walk P d m root l va = Some p \<Longrightarrow>
    (\<And>l' q. l' < l \<Longrightarrow> pt_walk P d m root l' va = Some q \<Longrightarrow> m' q = m q) \<Longrightarrow>
    pt_get_pte P m' \<lparr>pt_root = root, pt_dscr = d\<rparr> l va = p"
proof (induction l arbitrary: p)
  case (Suc l)
  then obtain q where q: "pt_walk P d m root l va = Some q" "pte_valid P (m q)" "pte_table P d (m q) l"
      "p = pte_addr P (m q) + 8 * pt_getpteindex_by_va d va (Suc l)"
    by (auto split: option.splits if_splits)
  have "m' q' = m q'" if "l' < l" "pt_walk P d m root l' va = Some q'" for l' q'
    by (rule Suc.prems(3) [OF less_SucI [OF that(1)] that(2)])
  then have "pt_get_pte P m' \<lparr>pt_root = root, pt_dscr = d\<rparr> l va = q"
    using Suc.IH [OF Suc_lessD [OF Suc.prems(1)] q(1)] by blast
  with Suc.prems(1) q pt_treeD(2) [OF assms _ q(1)] Suc.prems(3) [of l q] show ?case by simp
qed simp

lemma walk_get_pte:
  assumes "pt_tree P d m root" and "l < lvls d" and "pt_walk P d m root l va = Some p"
  shows "pt_get_pte P m \<lparr>pt_root = root, pt_dscr = d\<rparr> l va = p"
  using assms by (intro walk_get_pte_other) auto

lemma walk_frames: "l < lvls d \<Longrightarrow> pt_walk P d m root l va = Some p \<Longrightarrow> unat p div 4096 \<in> pt_frames P d m root"
  by (auto simp: pt_frames_def)

lemma walk_prefix:
  "pt_walk P d m root l va = Some p \<Longrightarrow> l' < l \<Longrightarrow>
     \<exists>q. pt_walk P d m root l' va = Some q \<and> pte_valid P (m q) \<and> pte_table P d (m q) l'"
proof (induction l arbitrary: p)
  case (Suc l)
  then obtain q where "pt_walk P d m root l va = Some q" "pte_valid P (m q) \<and> pte_table P d (m q) l"
    by (auto split: option.splits if_splits)
  with Suc show ?case by (cases "l' = l") auto
qed simp

text \<open>The tree depends on the entries of its tables only.\<close>

lemma walk_same:
  assumes "\<And>q. unat q div 4096 \<in> pt_frames P d m root \<Longrightarrow> m' q = m q" and "l < lvls d"
  shows "pt_walk P d m' root l va = pt_walk P d m root l va"
  using assms(2)
proof (induction l)
  case (Suc l)
  then have IH: "pt_walk P d m' root l va = pt_walk P d m root l va" by simp
  show ?case
  proof (cases "pt_walk P d m root l va")
    case (Some q)
    then have "m' q = m q" using assms(1) walk_frames [of l d P m root va q] Suc.prems by simp
    with Some IH show ?thesis by simp
  qed (simp add: IH)
qed simp

section \<open>Writing an entry\<close>

lemma walk_set_entry:
  assumes d: "dscr_ok d" and t: "pt_tree P d m root" and l: "l < lvls d" and w: "pt_walk P d m root l va = Some p"
    and m': "m' p = v" "\<And>q. q \<noteq> p \<Longrightarrow> m' q = m q" and v: "\<not> (pte_valid P v \<and> pte_table P d v l)"
  shows "l' < lvls d \<Longrightarrow> pt_walk P d m' root l' va' =
    (if l < l' \<and> blk d l va' = blk d l va then None else pt_walk P d m root l' va')"
proof (induction l')
  case (Suc l')
  then have l': "l' < lvls d" by simp
  note IH = Suc.IH [OF l']
  show ?case
  proof (cases "l \<le> l' \<and> blk d l va' = blk d l va")
    case below: True
    show ?thesis
    proof (cases "l' = l")
      case True
      have "pt_walk P d m' root l' va' = pt_walk P d m root l va'" using IH True by simp
      also have "\<dots> = Some p" using w walk_cong [OF d l, of va' va] below by simp
      finally have "pt_walk P d m' root l' va' = Some p" .
      with below True v m' show ?thesis by simp
    next
      case False
      with below IH show ?thesis by simp
    qed
  next
    case False
    then have eq: "pt_walk P d m' root l' va' = pt_walk P d m root l' va'" using IH by auto
    have "q \<noteq> p" if "pt_walk P d m root l' va' = Some q" for q
      using False pt_treeD(1) [OF t l w l', of va'] that by auto
    then show ?thesis using False eq m' by (cases "pt_walk P d m root l' va'") auto
  qed
qed simp

lemma end_set_entry:
  assumes d: "dscr_ok d" and t: "pt_tree P d m root" and l: "l < lvls d" and w: "pt_walk P d m root l va = Some p"
    and m': "m' p = v" "\<And>q. q \<noteq> p \<Longrightarrow> m' q = m q" and v: "\<not> (pte_valid P v \<and> pte_table P d v l)"
  shows "pt_end P d m' root va' l' q \<longleftrightarrow>
    (if blk d l va' = blk d l va then l' = l \<and> q = p else pt_end P d m root va' l' q)"
proof (cases "l' < lvls d")
  case l': True
  note ws = walk_set_entry [OF assms l', of va']
  show ?thesis
  proof (cases "blk d l va' = blk d l va")
    case True
    have *: "pt_walk P d m root l va' = Some p" using w walk_cong [OF d l True] by simp
    show ?thesis
    proof (cases "l' < l")
      case below: True
      have "\<not> pt_end P d m root va' l' q" using walk_prefix [OF * below] by (auto simp: pt_end_def)
      moreover have "q \<noteq> p" if "pt_walk P d m root l' va' = Some q"
        using that pt_treeD(1) [OF t l w l', of va'] below by auto
      ultimately show ?thesis using below True ws m' by (auto simp: pt_end_def)
    next
      case False
      then show ?thesis using True ws * v l m' by (auto simp: pt_end_def)
    qed
  next
    case False
    have "q \<noteq> p" if "pt_walk P d m root l' va' = Some q"
      using that pt_treeD(1) [OF t l w l', of va'] False by auto
    then show ?thesis using False ws m' by (auto simp: pt_end_def)
  qed
qed (use l in \<open>auto simp: pt_end_def\<close>)

lemma tree_set_entry:
  assumes d: "dscr_ok d" and t: "pt_tree P d m root" and l: "l < lvls d" and w: "pt_walk P d m root l va = Some p"
    and m': "m' p = v" "\<And>q. q \<noteq> p \<Longrightarrow> m' q = m q" and v: "\<not> (pte_valid P v \<and> pte_table P d v l)" and ok: "entry_ok P d v l"
  shows "pt_tree P d m' root" and "pt_frames P d m' root \<subseteq> pt_frames P d m root"
proof -
  note ws = walk_set_entry [OF d t l w m' v]
  have sub: "pt_walk P d m root l' va' = Some q" if "l' < lvls d" "pt_walk P d m' root l' va' = Some q" for l' va' q
    using that ws by (auto split: if_splits)
  then show "pt_frames P d m' root \<subseteq> pt_frames P d m root" by (fastforce simp: pt_frames_def)
  show "pt_tree P d m' root"
    unfolding pt_tree_def
  proof (intro conjI allI impI, goal_cases)
    case (1 l1 l2 va1 va2 q)
    show ?case by (rule conjunct1 [OF pt_treeD(1) [OF t 1(1) sub [OF 1(1,3)] 1(2) sub [OF 1(2,4)]]])
  next
    case (2 l1 l2 va1 va2 q)
    show ?case by (rule conjunct2 [OF pt_treeD(1) [OF t 2(1) sub [OF 2(1,3)] 2(2) sub [OF 2(2,4)]]])
  next
    case (3 l1 va1 q)
    then show ?case using pt_treeD(2) [OF t 3(1) sub [OF 3]] by simp
  next
    case (4 l1 va1 q)
    note q = sub [OF 4]
    show ?case
    proof (cases "q = p")
      case True
      with pt_treeD(1) [OF t l w 4(1), of va1] q have "l1 = l" by simp
      with True ok m' show ?thesis by simp
    next
      case False
      with pt_treeD(3) [OF t 4(1) q] m' show ?thesis by simp
    qed
  qed
qed

section \<open>Hanging in a table\<close>

lemma entry_addr:
  assumes "unat (A :: u64) mod 4096 = 0" and "unat i < 512"
  shows "unat (A + 8 * i) = unat A + 8 * unat i" and "unat (A + 8 * i) div 4096 = unat A div 4096"
proof -
  have i: "unat (8 * i) = 8 * unat i" using assms(2) by (simp add: unat_word_ariths)
  obtain f where f: "unat A = 4096 * f" using assms(1) by (auto simp: mod_eq_0_iff_dvd elim: dvdE)
  then have "f < 4503599627370496" using word_unat_lt [of A] by simp
  then have "4096 * f + 8 * unat i < 18446744073709551616" using assms(2) by linarith
  then show a: "unat (A + 8 * i) = unat A + 8 * unat i" using i f by (simp add: unat_word_ariths)
  show "unat (A + 8 * i) div 4096 = unat A div 4096" unfolding a f using assms(2) by simp
qed

text \<open>
  The page at \<open>A\<close> becomes the table of the block of \<open>va\<close> on level \<open>l\<close>, whose entry was \<open>p\<close> and no
  table; its own entries are no tables either.
\<close>

definition new_table :: "pte_ops \<Rightarrow> page_table_dscr \<Rightarrow> (u64 \<Rightarrow> u64) \<Rightarrow> u64 \<Rightarrow> nat \<Rightarrow> u64 \<Rightarrow> u64 \<Rightarrow> u64 \<Rightarrow> (u64 \<Rightarrow> u64) \<Rightarrow> bool" where
  "new_table P d m root l va p A m' \<longleftrightarrow>
     Suc l < lvls d \<and> pt_end P d m root va l p \<and> unat A mod 4096 = 0 \<and> 0 < unat A \<and>
     unat A div 4096 \<notin> pt_frames P d m root \<and>
     pte_valid P (m' p) \<and> pte_table P d (m' p) l \<and> pte_addr P (m' p) = A \<and>
     (\<forall>q. unat q div 4096 \<noteq> unat A div 4096 \<longrightarrow> q \<noteq> p \<longrightarrow> m' q = m q) \<and>
     (\<forall>i. unat i < 512 \<longrightarrow> \<not> (pte_valid P (m' (A + 8 * i)) \<and> pte_table P d (m' (A + 8 * i)) (Suc l)))"

lemma new_tableD:
  assumes "new_table P d m root l va p A m'"
  shows "Suc l < lvls d" and "l < lvls d" and "pt_walk P d m root l va = Some p" and "\<not> (pte_valid P (m p) \<and> pte_table P d (m p) l)"
    and "unat A mod 4096 = 0" and "0 < unat A" and "unat A div 4096 \<notin> pt_frames P d m root"
    and "pte_valid P (m' p)" and "pte_table P d (m' p) l" and "pte_addr P (m' p) = A"
    and "unat q div 4096 \<noteq> unat A div 4096 \<Longrightarrow> q \<noteq> p \<Longrightarrow> m' q = m q"
    and "unat i < 512 \<Longrightarrow> \<not> (pte_valid P (m' (A + 8 * i)) \<and> pte_table P d (m' (A + 8 * i)) (Suc l))"
  using assms by (simp_all add: new_table_def pt_end_def)

lemma walk_new_table:
  assumes d: "dscr_ok d" and t: "pt_tree P d m root" and n: "new_table P d m root l va p A m'"
  shows "l' < lvls d \<Longrightarrow> pt_walk P d m' root l' va' =
    (if l < l' \<and> blk d l va' = blk d l va
     then (if l' = Suc l then Some (A + 8 * pt_getpteindex_by_va d va' (Suc l)) else None)
     else pt_walk P d m root l' va')"
proof (induction l')
  case (Suc l')
  then have l': "l' < lvls d" by simp
  note IH = Suc.IH [OF l'] and n' = new_tableD [OF n]
  consider (at) "l' = l" "blk d l va' = blk d l va" | (first) "l' = Suc l" "blk d l va' = blk d l va"
    | (deep) "Suc l < l'" "blk d l va' = blk d l va" | (out) "\<not> (l \<le> l' \<and> blk d l va' = blk d l va)" by linarith
  then show ?case
  proof cases
    case at
    have "pt_walk P d m' root l' va' = Some p" using IH at n'(3) walk_cong [OF d n'(2), of va' va] by simp
    with at n'(8-10) show ?thesis by simp
  next
    case first
    with n'(12) [OF index_less_512 [OF d n'(1)], of va'] IH show ?thesis by simp
  next
    case deep
    with IH show ?thesis by simp
  next
    case out
    then have eq: "pt_walk P d m' root l' va' = pt_walk P d m root l' va'" using IH by auto
    have "m' q = m q" if q: "pt_walk P d m root l' va' = Some q" for q
    proof (rule n'(11))
      show "unat q div 4096 \<noteq> unat A div 4096" using walk_frames [OF l' q] n'(7) by auto
      show "q \<noteq> p" using out pt_treeD(1) [OF t n'(2,3) l', of va'] q by auto
    qed
    then show ?thesis using out eq by (cases "pt_walk P d m root l' va'") auto
  qed
qed simp

lemma walk_new_cases:
  assumes d: "dscr_ok d" and t: "pt_tree P d m root" and n: "new_table P d m root l va p A m'"
    and l': "l' < lvls d" and q: "pt_walk P d m' root l' va' = Some q"
  obtains (old) "pt_walk P d m root l' va' = Some q" "unat q div 4096 \<noteq> unat A div 4096"
  | (new) "l' = Suc l" "blk d l va' = blk d l va" "q = A + 8 * pt_getpteindex_by_va d va' (Suc l)"
      "unat q div 4096 = unat A div 4096"
proof (cases "l < l' \<and> blk d l va' = blk d l va")
  case True
  with q walk_new_table [OF d t n l', of va'] have "l' = Suc l" "q = A + 8 * pt_getpteindex_by_va d va' (Suc l)"
    by (auto split: if_splits)
  with True entry_addr(2) [OF new_tableD(5) [OF n] index_less_512 [OF d new_tableD(1) [OF n]], of va'] show thesis
    by (intro new) simp_all
next
  case False
  then have "pt_walk P d m root l' va' = Some q" using q walk_new_table [OF d t n l', of va'] by auto
  with walk_frames [OF l' this] new_tableD(7) [OF n] show thesis by (intro old) auto
qed

lemma frames_new_table:
  assumes d: "dscr_ok d" and t: "pt_tree P d m root" and n: "new_table P d m root l va p A m'"
  shows "pt_frames P d m' root \<subseteq> insert (unat A div 4096) (pt_frames P d m root)"
proof
  fix f assume "f \<in> pt_frames P d m' root"
  then obtain q l' va' where f: "f = unat q div 4096" and l': "l' < lvls d" and q: "pt_walk P d m' root l' va' = Some q"
    by (auto simp: pt_frames_def)
  from walk_new_cases [OF d t n l' q] show "f \<in> insert (unat A div 4096) (pt_frames P d m root)"
    using walk_frames [OF l', of P m root va' q] f by (cases) auto
qed

lemma tree_new_table:
  assumes d: "dscr_ok d" and t: "pt_tree P d m root" and n: "new_table P d m root l va p A m'"
    and ok: "\<And>i. unat i < 512 \<Longrightarrow> entry_ok P d (m' (A + 8 * i)) (Suc l)"
  shows "pt_tree P d m' root"
proof -
  note n' = new_tableD [OF n]
  have inj: "l1 = l2 \<and> blk d l1 va1 = blk d l1 va2" if l1: "l1 < lvls d" and l2: "l2 < lvls d"
    and q1: "pt_walk P d m' root l1 va1 = Some q" and q2: "pt_walk P d m' root l2 va2 = Some q" for l1 l2 va1 va2 q
  proof (rule walk_new_cases [OF d t n l1 q1])
    assume o: "pt_walk P d m root l1 va1 = Some q" "unat q div 4096 \<noteq> unat A div 4096"
    from walk_new_cases [OF d t n l2 q2] have "pt_walk P d m root l2 va2 = Some q" using o(2) by (cases) auto
    from pt_treeD(1) [OF t l1 o(1) l2 this] show ?thesis .
  next
    assume o: "l1 = Suc l" "blk d l va1 = blk d l va" "q = A + 8 * pt_getpteindex_by_va d va1 (Suc l)"
      "unat q div 4096 = unat A div 4096"
    from walk_new_cases [OF d t n l2 q2] have o2: "l2 = Suc l" "blk d l va2 = blk d l va"
        "q = A + 8 * pt_getpteindex_by_va d va2 (Suc l)" using o(4) by (cases, auto)+
    have "unat A + 8 * unat (pt_getpteindex_by_va d va1 (Suc l)) = unat A + 8 * unat (pt_getpteindex_by_va d va2 (Suc l))"
      using entry_addr(1) [OF n'(5) index_less_512 [OF d n'(1)], of va1] entry_addr(1) [OF n'(5) index_less_512 [OF d n'(1)], of va2]
        o(3) o2(3) by simp
    with o o2 show ?thesis using blk_split [OF d n'(1), of va1] blk_split [OF d n'(1), of va2] by simp
  qed
  have ok': "q \<noteq> 0 \<and> entry_ok P d (m' q) l1" if l1: "l1 < lvls d" and q1: "pt_walk P d m' root l1 va1 = Some q" for l1 va1 q
  proof (rule walk_new_cases [OF d t n l1 q1])
    assume o: "pt_walk P d m root l1 va1 = Some q" "unat q div 4096 \<noteq> unat A div 4096"
    show ?thesis
    proof (cases "q = p")
      case True
      then have "l1 = l" using pt_treeD(1) [OF t n'(2,3) l1, of va1] o by auto
      moreover have "l \<noteq> lvls d - 1" using n'(1) by simp
      ultimately show ?thesis using True n'(8,9) pt_treeD(2) [OF t l1 o(1)] by (simp add: entry_ok_def)
    next
      case False
      with n'(11) [OF o(2)] pt_treeD(2,3) [OF t l1 o(1)] show ?thesis by simp
    qed
  next
    assume o: "l1 = Suc l" "q = A + 8 * pt_getpteindex_by_va d va1 (Suc l)" "unat q div 4096 = unat A div 4096"
    have "0 < unat q" using entry_addr(1) [OF n'(5) index_less_512 [OF d n'(1)], of va1] o(2) n'(6) by simp
    then have "q \<noteq> 0" by auto
    with ok [OF index_less_512 [OF d n'(1)], of va1] o(1,2) show ?thesis by simp
  qed
  show ?thesis unfolding pt_tree_def using inj ok' by blast
qed

lemma end_new_table:
  assumes d: "dscr_ok d" and t: "pt_tree P d m root" and n: "new_table P d m root l va p A m'"
  shows "pt_end P d m' root va' l' q \<longleftrightarrow>
    (if blk d l va' = blk d l va then l' = Suc l \<and> q = A + 8 * pt_getpteindex_by_va d va' (Suc l)
     else pt_end P d m root va' l' q)"
proof (cases "l' < lvls d")
  case l': True
  note n' = new_tableD [OF n] and w = walk_new_table [OF d t n l', of va']
  show ?thesis
  proof (cases "blk d l va' = blk d l va")
    case True
    have *: "pt_walk P d m root l va' = Some p" using n'(3) walk_cong [OF d n'(2) True] by simp
    consider "l' < l" | "l' = l" | "l' = Suc l" | "Suc l < l'" by linarith
    then show ?thesis
    proof cases
      case 1
      then obtain q' where q': "pt_walk P d m root l' va' = Some q'" "pte_valid P (m q') \<and> pte_table P d (m q') l'"
        using walk_prefix [OF * 1] by auto
      have "m' q' = m q'"
      proof (rule n'(11))
        show "unat q' div 4096 \<noteq> unat A div 4096" using walk_frames [OF l' q'(1)] n'(7) by auto
        show "q' \<noteq> p" using pt_treeD(1) [OF t n'(2,3) l', of va'] q'(1) 1 by auto
      qed
      with 1 q' True w show ?thesis by (auto simp: pt_end_def)
    next
      case 2
      with True w * n'(8,9) show ?thesis by (auto simp: pt_end_def)
    next
      case 3
      from n'(12) [OF index_less_512 [OF d n'(1)], of va'] 3 True w n'(1) show ?thesis by (auto simp: pt_end_def)
    next
      case 4
      with True w show ?thesis by (auto simp: pt_end_def)
    qed
  next
    case False
    have "m' q = m q" if q: "pt_walk P d m root l' va' = Some q"
    proof (rule n'(11))
      show "unat q div 4096 \<noteq> unat A div 4096" using walk_frames [OF l' q] n'(7) by auto
      show "q \<noteq> p" using pt_treeD(1) [OF t n'(2,3) l', of va'] q False by auto
    qed
    then show ?thesis using False w by (auto simp: pt_end_def)
  qed
qed (use new_tableD(1) [OF n] in \<open>auto simp: pt_end_def\<close>)

section \<open>The translation\<close>

lemma end_exists:
  assumes d: "dscr_ok d" and t: "pt_tree P d m root"
  obtains l p where "pt_end P d m root va l p"
proof -
  have "(\<exists>l' p. pt_end P d m root va l' p) \<or>
      (\<exists>p. pt_walk P d m root l va = Some p \<and> pte_valid P (m p) \<and> pte_table P d (m p) l)" if "l < lvls d" for l
    using that
  proof (induction l)
    case 0
    then show ?case by (auto simp: pt_end_def)
  next
    case (Suc l)
    show ?case
    proof (cases "\<exists>p. pt_walk P d m root l va = Some p \<and> pte_valid P (m p) \<and> pte_table P d (m p) l")
      case True
      then obtain q where "pt_walk P d m root (Suc l) va = Some q" by auto
      with Suc.prems show ?thesis unfolding pt_end_def by blast
    next
      case False
      then show ?thesis using Suc.IH [OF Suc_lessD [OF Suc.prems]] by blast
    qed
  qed
  moreover have "lvls d - 1 < lvls d" using d by (simp add: dscr_ok_def)
  ultimately show thesis using that pt_treeD(3) [OF t] unfolding entry_ok_def by blast
qed

lemma end_unique:
  assumes "pt_end P d m root va l p" and "pt_end P d m root va l' p'"
  shows "l' = l \<and> p' = p"
proof -
  have "\<not> l < l'" if "pt_end P d m root va l p" "pt_end P d m root va l' p'" for l l' p p'
    using walk_prefix [of P d m root l' va p' l] that by (auto simp: pt_end_def)
  from this [OF assms] this [OF assms(2,1)] have "l' = l" by simp
  with assms show ?thesis by (simp add: pt_end_def)
qed

definition pt_pa :: "pte_ops \<Rightarrow> page_table_dscr \<Rightarrow> u64 \<Rightarrow> nat \<Rightarrow> u64 \<Rightarrow> u64" where
  "pt_pa P d v l va = (let mask = shl 1 (lvl_off d ! l) - 1 in (pte_addr P v AND NOT mask) OR (va AND mask))"

text \<open>What an address is translated to: the address, or \<open>None\<close> when it is not mapped.\<close>

definition pt_maps :: "pte_ops \<Rightarrow> page_table_dscr \<Rightarrow> (u64 \<Rightarrow> u64) \<Rightarrow> u64 \<Rightarrow> u64 \<Rightarrow> u64 option \<Rightarrow> bool" where
  "pt_maps P d m root va r \<longleftrightarrow>
     (\<exists>l p. pt_end P d m root va l p \<and> r = (if pte_valid P (m p) then Some (pt_pa P d (m p) l va) else None))"

lemma maps_end: "pt_end P d m root va l p \<Longrightarrow>
    pt_maps P d m root va r \<longleftrightarrow> r = (if pte_valid P (m p) then Some (pt_pa P d (m p) l va) else None)"
  unfolding pt_maps_def using end_unique by metis

lemma maps_unique: "pt_maps P d m root va r \<Longrightarrow> pt_maps P d m root va r' \<Longrightarrow> r = r'"
  using maps_end by (metis pt_maps_def)

lemma translate_loop_end:
  assumes t: "pt_tree P d m root" and e: "pt_end P d m root va l p"
  shows "i \<le> l \<Longrightarrow> pt_walk P d m root i va = Some q \<Longrightarrow> mem_translate_loop P m d va (lvls d - i) i q = Inr (p, l)"
proof (induction "l - i" arbitrary: i q)
  case 0
  then have "i = l" by simp
  moreover from this e 0 have "q = p" by (simp add: pt_end_def)
  moreover from e have "Suc (lvls d - Suc l) = lvls d - l" by (auto simp: pt_end_def)
  ultimately show ?case using e pt_treeD(2) [OF t, of l va p]
      mem_translate_loop.simps(2) [of P m d va "lvls d - Suc l" l p]
    by (auto simp: pt_end_def)
next
  case (Suc n)
  then have i: "i < l" "n = l - Suc i" by simp_all
  have l: "l < lvls d" "pt_walk P d m root l va = Some p" using e by (simp_all add: pt_end_def)
  from walk_prefix [OF l(2) i(1)] Suc.prems(2) have v: "pte_valid P (m q)" "pte_table P d (m q) i" by auto
  then have w: "pt_walk P d m root (Suc i) va = Some (pte_addr P (m q) + 8 * pt_getpteindex_by_va d va (Suc i))"
    using Suc.prems(2) by simp
  have "Suc i \<le> l" using i by simp
  note IH = Suc.hyps(1) [OF i(2) this w]
  have "q \<noteq> 0" using pt_treeD(2) [OF t _ Suc.prems(2)] i l by simp
  moreover have "Suc (lvls d - Suc i) = lvls d - i" using i l by simp
  ultimately show ?case using v IH i l mem_translate_loop.simps(2) [of P m d va "lvls d - Suc i" i q] by simp
qed

lemma translate_maps:
  assumes d: "dscr_ok (pt_dscr (sp_pt as))" and t: "pt_tree (mmk_pte k) (pt_dscr (sp_pt as)) (mm_pte st) (pt_root (sp_pt as))"
  shows "mem_translate_mmu k as va st = Inr r \<longleftrightarrow>
    pt_maps (mmk_pte k) (pt_dscr (sp_pt as)) (mm_pte st) (pt_root (sp_pt as)) va r"
proof -
  obtain l p where e: "pt_end (mmk_pte k) (pt_dscr (sp_pt as)) (mm_pte st) (pt_root (sp_pt as)) va l p" by (rule end_exists [OF d t])
  then have "p \<noteq> 0" using pt_treeD(2) [OF t] by (auto simp: pt_end_def)
  moreover have "mem_translate_loop (mmk_pte k) (mm_pte st) (pt_dscr (sp_pt as)) va (lvls (pt_dscr (sp_pt as))) 0
      (pt_root (sp_pt as) + 8 * pt_getpteindex_by_va (pt_dscr (sp_pt as)) va 0) = Inr (p, l)"
    using translate_loop_end [OF t e, of 0] by simp
  ultimately show ?thesis by (auto simp: mem_translate_mmu_def maps_end [OF e] pt_pa_def Let_def)
qed

lemma unat_pt_pa:
  assumes d: "dscr_ok d" and l: "l < lvls d" and a: "2 ^ (lvl_off d ! l) dvd unat (pte_addr P v)"
  shows "unat (pt_pa P d v l va) = unat (pte_addr P v) + va_low d va mod 2 ^ (lvl_off d ! l)"
proof -
  define o' where "o' = lvl_off d ! l"
  have o: "o' < 64" "o' \<le> lvl_wdt d ! 0" using dscr_okD [OF d l] by (simp_all add: o'_def)
  have m: "shl 1 o' - 1 = (mask o' :: u64)" using o by (simp add: shl_def mask_eq_exp_minus_1 push_bit_eq_mult)
  have tb: "take_bit o' (pte_addr P v) = 0"
    using a by (simp add: word_unat_eq_iff unsigned_take_bit_eq) (simp add: take_bit_eq_mod o'_def dvd_eq_mod_eq_0)
  have low: "\<not> (bit (pte_addr P v) n \<and> n < o')" for n
    using arg_cong [OF tb, of "\<lambda>w. bit w n"] by (auto simp: bit_take_bit_iff)
  then have hi: "pte_addr P v AND NOT (mask o') = pte_addr P v"
    by (intro bit_word_eqI) (auto simp: bit_and_iff bit_not_iff bit_mask_iff)
  have "pte_addr P v AND (va AND mask o') = 0" using low by (intro bit_word_eqI) (auto simp: bit_and_iff bit_mask_iff)
  then have "pt_pa P d v l va = pte_addr P v + take_bit o' va"
    by (simp add: pt_pa_def Let_def o'_def [symmetric] m hi take_bit_eq_mask disjunctive_add_eq_or)
  moreover have "unat (take_bit o' va) = va_low d va mod 2 ^ o'"
    using o by (simp add: unsigned_take_bit_eq) (simp add: take_bit_eq_mod va_low_def mod_mod_cancel le_imp_power_dvd)
  moreover have "unat (pte_addr P v) + va_low d va mod 2 ^ o' < 2 ^ 64"
  proof -
    obtain q where q: "unat (pte_addr P v) = 2 ^ o' * q" using a by (auto simp: o'_def)
    have e: "(2 :: nat) ^ 64 = 2 ^ o' * 2 ^ (64 - o')" using o by (simp flip: power_add)
    have "2 ^ o' * q < 2 ^ o' * 2 ^ (64 - o')" using word_unat_lt [of "pte_addr P v"] e unfolding q by simp
    then have "q + 1 \<le> 2 ^ (64 - o')" by simp
    then have "2 ^ o' * (q + 1) \<le> 2 ^ 64" unfolding e by (rule mult_le_mono2)
    moreover have "va_low d va mod 2 ^ o' < 2 ^ o'" by simp
    ultimately show ?thesis unfolding q distrib_left by linarith
  qed
  ultimately show ?thesis by (simp add: unat_word_ariths o'_def)
qed

end
