(* ===== verification/Mmu_Space.thy ===== *)
theory Mmu_Space
  imports Page_Walk
begin

text \<open>
  The invariant of an address space with its page tables in the pools' memory, \<open>sp_ok\<close>, and the
  effect relation \<open>sp_step\<close>: what an operation on the address space may change. The writes of one
  entry and the allocation of a table, \<open>mem_alloc_pt\<close>, preserve the invariant and have an exact
  effect on the translation.
\<close>

abbreviation as_walk where
  "as_walk k as m \<equiv> pt_walk (mmk_pte k) (pt_dscr (sp_pt as)) m (pt_root (sp_pt as))"

abbreviation as_end where
  "as_end k as m \<equiv> pt_end (mmk_pte k) (pt_dscr (sp_pt as)) m (pt_root (sp_pt as))"

abbreviation as_frames where
  "as_frames k as m \<equiv> pt_frames (mmk_pte k) (pt_dscr (sp_pt as)) m (pt_root (sp_pt as))"

abbreviation as_tree where
  "as_tree k as m \<equiv> pt_tree (mmk_pte k) (pt_dscr (sp_pt as)) m (pt_root (sp_pt as))"

abbreviation as_maps where
  "as_maps k as m \<equiv> pt_maps (mmk_pte k) (pt_dscr (sp_pt as)) m (pt_root (sp_pt as))"

abbreviation as_blk where
  "as_blk as \<equiv> blk (pt_dscr (sp_pt as))"

section \<open>The invariant\<close>

text \<open>
  Every page of the pools is below \<open>2 ^ bits\<close> and none is page 0; no free page is a page of a table of
  the address space.
\<close>

definition pools_ok :: "mmu_params \<Rightarrow> nat \<Rightarrow> page_pool list \<Rightarrow> bool" where
  "pools_ok k bits ps \<longleftrightarrow> pools_wf (mmk_color_num k) (mmk_color_size k) ps \<and>
     (\<forall>f \<in> pools_frames ps. 0 < f \<and> f < 2 ^ (bits - 12))"

definition sp_ok :: "mmu_params \<Rightarrow> nat \<Rightarrow> mmu_space \<Rightarrow> mmu \<Rightarrow> bool" where
  "sp_ok k bits as st \<longleftrightarrow> dscr_ok (pt_dscr (sp_pt as)) \<and> as_tree k as (mm_pte st) \<and> pools_ok k bits (mm_pools st) \<and>
     as_frames k as (mm_pte st) \<inter> pools_frames (mm_pools st) \<subseteq> pools_used (mm_pools st)"

definition grown :: "mmu \<Rightarrow> mmu \<Rightarrow> nat set" where
  "grown st st' = pools_used (mm_pools st') - pools_used (mm_pools st)"

text \<open>
  Memory changes in the tables of the address space and in pages that were free only. Exact free counters
  stay exact as long as the address space has no colors.
\<close>

definition sp_step :: "mmu_params \<Rightarrow> mmu_space \<Rightarrow> mmu \<Rightarrow> mmu \<Rightarrow> bool" where
  "sp_step k as st st' \<longleftrightarrow>
     pools_frames (mm_pools st') = pools_frames (mm_pools st) \<and> pools_used (mm_pools st) \<subseteq> pools_used (mm_pools st') \<and>
     as_frames k as (mm_pte st') \<subseteq> as_frames k as (mm_pte st) \<union> grown st st' \<and>
     (\<forall>q. unat q div 4096 \<notin> as_frames k as (mm_pte st) \<union> grown st st' \<longrightarrow> mm_pte st' q = mm_pte st q) \<and>
     (all_clrs (mmk_color_num k) (sp_colors as) \<and> pools_exact (mm_pools st) \<longrightarrow> pools_exact (mm_pools st'))"

lemma sp_step_refl [simp]: "sp_step k as st st"
  by (simp add: sp_step_def)

lemma sp_step_trans: "sp_step k as st st' \<Longrightarrow> sp_step k as st' st'' \<Longrightarrow> sp_step k as st st''"
proof -
  assume a: "sp_step k as st st'" and b: "sp_step k as st' st''"
  have u: "pools_used (mm_pools st) \<subseteq> pools_used (mm_pools st')" "pools_used (mm_pools st') \<subseteq> pools_used (mm_pools st'')"
    and f: "as_frames k as (mm_pte st') \<subseteq> as_frames k as (mm_pte st) \<union> grown st st'"
      "as_frames k as (mm_pte st'') \<subseteq> as_frames k as (mm_pte st') \<union> grown st' st''"
    and m: "\<And>q. unat q div 4096 \<notin> as_frames k as (mm_pte st) \<union> grown st st' \<Longrightarrow> mm_pte st' q = mm_pte st q"
      "\<And>q. unat q div 4096 \<notin> as_frames k as (mm_pte st') \<union> grown st' st'' \<Longrightarrow> mm_pte st'' q = mm_pte st' q"
    using a b unfolding sp_step_def by blast+
  have g: "grown st st' \<union> grown st' st'' = grown st st''" using u by (auto simp: grown_def)
  have "mm_pte st'' q = mm_pte st q" if "unat q div 4096 \<notin> as_frames k as (mm_pte st) \<union> grown st st''" for q
  proof -
    have "unat q div 4096 \<notin> grown st st'" "unat q div 4096 \<notin> grown st' st''" using that g by blast+
    with m(1) [of q] m(2) [of q] that f(1) show ?thesis by auto
  qed
  moreover have "as_frames k as (mm_pte st'') \<subseteq> as_frames k as (mm_pte st) \<union> grown st st''" using f g by blast
  ultimately show ?thesis using a b u by (auto simp: sp_step_def)
qed

lemma card_grown_trans:
  assumes "sp_step k as st st'" and "sp_step k as st' st''"
  shows "card (grown st st'') \<le> card (grown st st') + card (grown st' st'')"
proof -
  have "grown st st'' = grown st st' \<union> grown st' st''" using assms by (auto simp: grown_def sp_step_def)
  then show ?thesis using card_Un_le [of "grown st st'" "grown st' st''"] by simp
qed

lemma sp_okD:
  assumes "sp_ok k bits as st"
  shows "dscr_ok (pt_dscr (sp_pt as))" and "as_tree k as (mm_pte st)" and "pools_ok k bits (mm_pools st)"
    and "as_frames k as (mm_pte st) \<inter> pools_frames (mm_pools st) \<subseteq> pools_used (mm_pools st)"
    and "0 < lvls (pt_dscr (sp_pt as))"
proof -
  show d: "dscr_ok (pt_dscr (sp_pt as))" "as_tree k as (mm_pte st)" "pools_ok k bits (mm_pools st)"
    "as_frames k as (mm_pte st) \<inter> pools_frames (mm_pools st) \<subseteq> pools_used (mm_pools st)"
    using assms by (simp_all add: sp_ok_def)
  then show "0 < lvls (pt_dscr (sp_pt as))" by (simp add: dscr_ok_def)
qed

lemma sp_ok_translate: "sp_ok k bits as st \<Longrightarrow> mem_translate_mmu k as va st = Inr r \<longleftrightarrow> as_maps k as (mm_pte st) va r"
  by (simp add: translate_maps sp_ok_def)

lemma pools_same_frames:
  assumes "as_frames k as m' \<subseteq> as_frames k as m"
    and "as_frames k as m \<inter> F \<subseteq> U"
  shows "as_frames k as m' \<inter> F \<subseteq> U"
  using assms by blast

text \<open>The tables below the root, each named by the block of addresses that it translates.\<close>

definition as_tabs :: "mmu_params \<Rightarrow> mmu_space \<Rightarrow> (u64 \<Rightarrow> u64) \<Rightarrow> (nat \<times> nat) set" where
  "as_tabs k as m = {(l, as_blk as l va) | l va. Suc l < lvls (pt_dscr (sp_pt as)) \<and> as_walk k as m (Suc l) va \<noteq> None}"

lemma in_tabs:
  assumes d: "dscr_ok (pt_dscr (sp_pt as))" and l: "Suc l < lvls (pt_dscr (sp_pt as))"
  shows "(l, as_blk as l va) \<in> as_tabs k as m \<longleftrightarrow> as_walk k as m (Suc l) va \<noteq> None"
proof -
  have "as_walk k as m (Suc l) va' \<noteq> None \<longleftrightarrow> as_walk k as m (Suc l) va \<noteq> None" if "as_blk as l va' = as_blk as l va" for va'
    unfolding pt_walk.simps walk_cong [OF d Suc_lessD [OF l] that, of "mmk_pte k" m "pt_root (sp_pt as)"]
    by (simp split: option.split)
  then show ?thesis using l unfolding as_tabs_def mem_Collect_eq prod.inject by metis
qed

text \<open>Another address space whose tables are elsewhere is not affected.\<close>

lemma end_same:
  assumes "\<And>q. unat q div 4096 \<in> pt_frames P d m root \<Longrightarrow> m' q = m q"
  shows "pt_end P d m' root va l p = pt_end P d m root va l p"
proof (cases "l < lvls d")
  case True
  have "m' p = m p" if "pt_walk P d m root l va = Some p" using assms walk_frames [OF True that] by simp
  then show ?thesis using walk_same [OF assms True, where va = va] by (auto simp: pt_end_def)
qed (simp add: pt_end_def)

lemma maps_cong:
  assumes e: "\<And>l p. pt_end P d m' root va l p \<longleftrightarrow> pt_end P d m root va l p"
    and m: "\<And>l p. pt_end P d m root va l p \<Longrightarrow> m' p = m p"
  shows "pt_maps P d m' root va r = pt_maps P d m root va r"
proof -
  have "pt_end P d m' root va l p \<and> r = (if pte_valid P (m' p) then Some (pt_pa P d (m' p) l va) else None) \<longleftrightarrow>
      pt_end P d m root va l p \<and> r = (if pte_valid P (m p) then Some (pt_pa P d (m p) l va) else None)" for l p
    using e [of l p] m [of l p] by (cases "pt_end P d m root va l p") simp_all
  then show ?thesis by (simp only: pt_maps_def)
qed

lemma maps_same:
  assumes s: "\<And>q. unat q div 4096 \<in> pt_frames P d m root \<Longrightarrow> m' q = m q"
  shows "pt_maps P d m' root va r = pt_maps P d m root va r"
proof (rule maps_cong)
  show "pt_end P d m' root va l p = pt_end P d m root va l p" for l p by (rule end_same [OF s])
  show "m' p = m p" if "pt_end P d m root va l p" for l p
    using s walk_frames [of l d P m root va p] that by (simp add: pt_end_def)
qed

lemma tree_same:
  assumes "\<And>q. unat q div 4096 \<in> pt_frames P d m root \<Longrightarrow> m' q = m q"
  shows "pt_tree P d m' root = pt_tree P d m root" and "pt_frames P d m' root = pt_frames P d m root"
proof -
  note w = walk_same [where P = P and d = d and m = m and root = root and m' = m', OF assms]
  have m: "m' p = m p" if "l < lvls d" "pt_walk P d m root l va = Some p" for l va p
    using assms walk_frames [OF that] by simp
  show "pt_tree P d m' root = pt_tree P d m root" unfolding pt_tree_def by (intro conj_cong all_cong1 imp_cong) (simp_all add: w m)
  show "pt_frames P d m' root = pt_frames P d m root" unfolding pt_frames_def by (intro Collect_cong ex_cong1 conj_cong) (simp_all add: w)
qed

lemma sp_ok_other:
  assumes step: "sp_step k as st st'" and ok': "pools_ok k bits (mm_pools st')" and o: "sp_ok k bits as2 st"
    and disj: "as_frames k as2 (mm_pte st) \<inter> (as_frames k as (mm_pte st) \<union> (pools_frames (mm_pools st) - pools_used (mm_pools st))) = {}"
  shows "sp_ok k bits as2 st'" and "as_maps k as2 (mm_pte st') va r = as_maps k as2 (mm_pte st) va r"
proof -
  have used: "pools_used (mm_pools st') \<subseteq> pools_frames (mm_pools st')"
    using pp_used_subset by (fastforce simp: pools_used_def pools_frames_def)
  have same: "mm_pte st' q = mm_pte st q" if "unat q div 4096 \<in> as_frames k as2 (mm_pte st)" for q
  proof -
    have "unat q div 4096 \<notin> as_frames k as (mm_pte st) \<union> grown st st'"
      using that disj used step by (auto simp: sp_step_def grown_def)
    then show ?thesis using step by (simp add: sp_step_def)
  qed
  show "as_maps k as2 (mm_pte st') va r = as_maps k as2 (mm_pte st) va r" by (rule maps_same [OF same])
  note ts = tree_same [OF same]
  show "sp_ok k bits as2 st'"
    using o ok' step by (auto simp: sp_ok_def ts sp_step_def)
qed

section \<open>Writing an entry\<close>

lemma set_entry:
  assumes ok: "sp_ok k bits as st" and l: "l < lvls (pt_dscr (sp_pt as))" and w: "as_walk k as (mm_pte st) l va = Some p"
    and v: "\<not> (pte_valid (mmk_pte k) v \<and> pte_table (mmk_pte k) (pt_dscr (sp_pt as)) v l)"
    and e: "entry_ok (mmk_pte k) (pt_dscr (sp_pt as)) v l"
  defines "st' \<equiv> st\<lparr>mm_pte := (mm_pte st)(p := v)\<rparr>"
  shows "sp_ok k bits as st'" and "sp_step k as st st'"
    and "as_maps k as (mm_pte st') va' r \<longleftrightarrow>
      (if as_blk as l va' = as_blk as l va
       then r = (if pte_valid (mmk_pte k) v then Some (pt_pa (mmk_pte k) (pt_dscr (sp_pt as)) v l va') else None)
       else as_maps k as (mm_pte st) va' r)"
    and "as_walk k as (mm_pte st') l va' = as_walk k as (mm_pte st) l va'"
    and "Suc l' < lvls (pt_dscr (sp_pt as)) \<Longrightarrow> as_blk as l va' \<noteq> as_blk as l va \<Longrightarrow>
      (l', as_blk as l' va') \<in> as_tabs k as (mm_pte st') \<longleftrightarrow> (l', as_blk as l' va') \<in> as_tabs k as (mm_pte st)"
proof -
  let ?m = "mm_pte st" and ?m' = "mm_pte st'"
  note d = sp_okD(1) [OF ok] and t = sp_okD(2) [OF ok]
  have m': "?m' p = v" "\<And>q. q \<noteq> p \<Longrightarrow> ?m' q = ?m q" by (simp_all add: st'_def)
  have same: "mm_pools st' = mm_pools st" by (simp add: st'_def)
  note tr = tree_set_entry [OF d t l w m' v e]
  show "sp_ok k bits as st'" using ok tr by (auto simp: sp_ok_def same)
  have pf: "unat p div 4096 \<in> as_frames k as ?m" by (rule walk_frames [OF l w])
  have "?m' q = ?m q" if "unat q div 4096 \<notin> as_frames k as ?m" for q
    using pf that m'(2) [of q] by (cases "q = p") auto
  then show "sp_step k as st st'" using tr(2) by (auto simp: sp_step_def same grown_def)
  note es = end_set_entry [OF d t l w m' v]
  show "as_maps k as ?m' va' r \<longleftrightarrow>
      (if as_blk as l va' = as_blk as l va
       then r = (if pte_valid (mmk_pte k) v then Some (pt_pa (mmk_pte k) (pt_dscr (sp_pt as)) v l va') else None)
       else as_maps k as ?m va' r)"
  proof (cases "as_blk as l va' = as_blk as l va")
    case True
    then show ?thesis by (simp add: pt_maps_def es m')
  next
    case False
    have "?m' q = ?m q" if "as_end k as ?m va' l' q" for l' q
    proof (rule m'(2))
      show "q \<noteq> p" using pt_treeD(1) [OF t l w, of l' va'] that False by (auto simp: pt_end_def)
    qed
    then show ?thesis using False by (simp add: maps_cong [OF es [of va', unfolded if_not_P [OF False]]])
  qed
  show "as_walk k as ?m' l va' = as_walk k as ?m l va'"
    using walk_set_entry [OF d t l w m' v l, of va'] by simp
  show "(l', as_blk as l' va') \<in> as_tabs k as ?m' \<longleftrightarrow> (l', as_blk as l' va') \<in> as_tabs k as ?m"
    if "Suc l' < lvls (pt_dscr (sp_pt as))" "as_blk as l va' \<noteq> as_blk as l va"
    unfolding in_tabs [OF d that(1)] using walk_set_entry [OF d t l w m' v that(1), of va'] that(2) by (simp del: pt_walk.simps)
qed

section \<open>Hanging in a table\<close>

lemma hang_table:
  assumes ok: "sp_ok k bits as st" and pools: "pools_ok k bits pools" "pools_frames pools = pools_frames (mm_pools st)"
      "pools_used pools = insert (unat A div 4096) (pools_used (mm_pools st))"
      "unat A div 4096 \<in> pools_frames (mm_pools st) - pools_used (mm_pools st)"
      "all_clrs (mmk_color_num k) (sp_colors as) \<and> pools_exact (mm_pools st) \<longrightarrow> pools_exact pools"
    and n: "new_table (mmk_pte k) (pt_dscr (sp_pt as)) (mm_pte st) (pt_root (sp_pt as)) l va p A m'"
    and e: "\<And>i. unat i < 512 \<Longrightarrow> entry_ok (mmk_pte k) (pt_dscr (sp_pt as)) (m' (A + 8 * i)) (Suc l)"
  defines "st' \<equiv> st\<lparr>mm_pools := pools, mm_pte := m'\<rparr>"
  shows "sp_ok k bits as st'" and "sp_step k as st st'"
    and "as_maps k as m' va' r \<longleftrightarrow>
      (if as_blk as l va' = as_blk as l va
       then (let v = m' (A + 8 * pt_getpteindex_by_va (pt_dscr (sp_pt as)) va' (Suc l))
             in r = (if pte_valid (mmk_pte k) v then Some (pt_pa (mmk_pte k) (pt_dscr (sp_pt as)) v (Suc l) va') else None))
       else as_maps k as (mm_pte st) va' r)"
    and "as_walk k as m' (Suc l) va = Some (A + 8 * pt_getpteindex_by_va (pt_dscr (sp_pt as)) va (Suc l))"
    and "as_tabs k as m' = insert (l, as_blk as l va) (as_tabs k as (mm_pte st))" and "(l, as_blk as l va) \<notin> as_tabs k as (mm_pte st)"
    and "card (grown st st') = 1"
proof -
  let ?m = "mm_pte st" and ?f = "unat A div 4096"
  note d = sp_okD(1) [OF ok] and t = sp_okD(2) [OF ok] and n' = new_tableD [OF n]
  have st': "mm_pte st' = m'" "mm_pools st' = pools" by (simp_all add: st'_def)
  have fr: "as_frames k as m' \<subseteq> insert ?f (as_frames k as ?m)" by (rule frames_new_table [OF d t n])
  have "as_tree k as m'" by (rule tree_new_table [OF d t n e])
  then show "sp_ok k bits as st'" using d fr pools sp_okD(4) [OF ok] by (auto simp: sp_ok_def st')
  have grown: "grown st st' = {?f}" using pools(3,4) by (auto simp: grown_def st')
  have pf: "unat p div 4096 \<in> as_frames k as ?m" by (rule walk_frames [OF n'(2,3)])
  have "m' q = ?m q" if "unat q div 4096 \<notin> as_frames k as ?m \<union> {?f}" for q
    using n'(11) [of q] pf that by (cases "q = p") auto
  then show "sp_step k as st st'" using fr pools by (auto simp: sp_step_def grown st')
  note es = end_new_table [OF d t n]
  show "as_maps k as m' va' r \<longleftrightarrow>
      (if as_blk as l va' = as_blk as l va
       then (let v = m' (A + 8 * pt_getpteindex_by_va (pt_dscr (sp_pt as)) va' (Suc l))
             in r = (if pte_valid (mmk_pte k) v then Some (pt_pa (mmk_pte k) (pt_dscr (sp_pt as)) v (Suc l) va') else None))
       else as_maps k as ?m va' r)"
  proof (cases "as_blk as l va' = as_blk as l va")
    case True
    then show ?thesis by (simp add: pt_maps_def es Let_def)
  next
    case False
    have "m' q = ?m q" if "as_end k as ?m va' l' q" for l' q
    proof (rule n'(11))
      show "unat q div 4096 \<noteq> ?f" using walk_frames [of l' _ _ ?m _ va' q] that n'(7) by (auto simp: pt_end_def)
      show "q \<noteq> p" using pt_treeD(1) [OF t n'(2,3), of l' va'] that False by (auto simp: pt_end_def)
    qed
    then show ?thesis using False by (simp add: maps_cong [OF es [of va', unfolded if_not_P [OF False]]])
  qed
  show "as_walk k as m' (Suc l) va = Some (A + 8 * pt_getpteindex_by_va (pt_dscr (sp_pt as)) va (Suc l))"
    using walk_new_table [OF d t n n'(1), of va] by simp
  show "card (grown st st') = 1" by (simp add: grown)
  have no: "as_walk k as ?m (Suc l') va' = None" if "l \<le> l'" "as_blk as l va' = as_blk as l va" "Suc l' < lvls (pt_dscr (sp_pt as))" for l' va'
  proof (rule ccontr)
    assume "as_walk k as ?m (Suc l') va' \<noteq> None"
    then obtain q where q: "as_walk k as ?m (Suc l') va' = Some q" by blast
    have "as_walk k as ?m l va' = Some p" using n'(3) walk_cong [OF d n'(2) that(2)] by simp
    moreover have "l < Suc l'" using that(1) by simp
    ultimately show False using walk_prefix [OF q] n'(4) by fastforce
  qed
  show "(l, as_blk as l va) \<notin> as_tabs k as ?m" unfolding in_tabs [OF d n'(1)] using no [of l va] n'(1) by simp
  show "as_tabs k as m' = insert (l, as_blk as l va) (as_tabs k as ?m)"
  proof (rule set_eqI)
    fix x :: "nat \<times> nat"
    have w: "as_walk k as m' (Suc l') va' \<noteq> None \<longleftrightarrow> (l' = l \<and> as_blk as l va' = as_blk as l va \<or> as_walk k as ?m (Suc l') va' \<noteq> None)"
      if "Suc l' < lvls (pt_dscr (sp_pt as))" for l' va'
      unfolding walk_new_table [OF d t n that] using no [of l' va'] that by (auto simp del: pt_walk.simps)
    show "x \<in> as_tabs k as m' \<longleftrightarrow> x \<in> insert (l, as_blk as l va) (as_tabs k as ?m)"
      using w n'(1) unfolding as_tabs_def insert_iff mem_Collect_eq by blast
  qed
qed

section \<open>Allocating a table\<close>

text \<open>The allocator has no page for a table.\<close>

definition pt_refused :: "mmu_params \<Rightarrow> mmu_space \<Rightarrow> page_pool list \<Rightarrow> bool" where
  "pt_refused k as ps \<longleftrightarrow> fst (pools_alloc (mmk_color_num k) (mmk_color_size k) ps (1, sp_colors as, False)) = None"

lemma grant_one:
  assumes "pa_num g = 1" and "unat (pa_base g) div 4096 \<in> grant_frames cn cs g"
  shows "grant_frames cn cs g = {unat (pa_base g) div 4096}"
  using assms by (auto simp: grant_frames_def ppages_frames_def split: if_splits)

lemma alloc_page_cases:
  assumes wf: "pools_ok k bits ps"
  obtains (refused) g where "mem_alloc_ppages (pp_alloc_clr_mmu (mmk_color_num k) (mmk_color_size k)) (mmk_color_num k)
      ps (sp_colors as) 1 False = Inr (ps, g)" "pa_num g = 0" "pt_refused k as ps"
  | (granted) g ps' where "mem_alloc_ppages (pp_alloc_clr_mmu (mmk_color_num k) (mmk_color_size k)) (mmk_color_num k)
      ps (sp_colors as) 1 False = Inr (ps', g)" "pa_num g = 1" "pools_ok k bits ps'" "pools_frames ps' = pools_frames ps"
      "pools_used ps' = insert (unat (pa_base g) div 4096) (pools_used ps)"
      "unat (pa_base g) div 4096 \<in> pools_frames ps - pools_used ps" "unat (pa_base g) mod 4096 = 0"
      "0 < unat (pa_base g)" "unat (pa_base g) < 2 ^ bits"
      "all_clrs (mmk_color_num k) (sp_colors as) \<and> pools_exact ps \<longrightarrow> pools_exact ps'"
proof -
  let ?cn = "mmk_color_num k" and ?cs = "mmk_color_size k"
  have w: "pools_wf ?cn ?cs ps" "0 < ?cs" "\<forall>p \<in> set ps. pp_wf p" using wf by (auto simp: pools_ok_def pools_wf_def)
  have "pa_num \<lparr>pa_base = 0, pa_num = 0, pa_colors = 0\<rparr> = 0" by simp
  from mem_alloc_loop_result [OF w(2,3) this, of ?cn "sp_colors as" 1 False]
  obtain ps' g where r: "mem_alloc_ppages (pp_alloc_clr_mmu ?cn ?cs) ?cn ps (sp_colors as) 1 False = Inr (ps', g)"
    and c: "ps' = ps \<and> pa_num g = 0 \<or>
      (\<exists>us q q' vs. ps = us @ q # vs \<and> ps' = us @ q' # vs \<and> pool_granted ?cn ?cs q q' 1 g)"
    unfolding mem_alloc_ppages_def by blast
  show thesis
  proof (cases "pa_num g = 1")
    case False
    then have z: "ps' = ps" "pa_num g = 0" using c by (auto simp: pool_granted_def)
    with r False show thesis by (intro refused) (auto simp: pt_refused_def pools_alloc_def)
  next
    case True
    let ?f = "unat (pa_base g) div 4096"
    have a: "pools_alloc ?cn ?cs ps (1, sp_colors as, False) = (Some g, ps')" using r True by (simp add: pools_alloc_def)
    note gr = pools_alloc_granted [OF w(1) a] and f = pools_alloc_first [OF w(1) a] and v = pools_alloc_valid [OF w(1) a]
    have one: "grant_frames ?cn ?cs g = {?f}" using f True by (intro grant_one) simp_all
    have fr: "pools_frames ps' = pools_frames ps" using v by blast
    have in_ps: "?f \<in> pools_frames ps - pools_used ps" using gr one by auto
    have bnd: "0 < ?f" "?f < 2 ^ (bits - 12)" using wf in_ps by (auto simp: pools_ok_def)
    have al: "unat (pa_base g) mod 4096 = 0" using f by simp
    have lt: "unat (pa_base g) < 2 ^ bits"
    proof (cases "12 \<le> bits")
      case True
      then have "(2 :: nat) ^ bits = 2 ^ (bits - 12) * 4096" using power_add [of "2 :: nat" "bits - 12" 12] by simp
      then show ?thesis using bnd(2) by (simp add: div_less_iff_less_mult)
    next
      case False
      with bnd show ?thesis by simp
    qed
    show thesis
    proof (rule granted [OF r True])
      show "pools_ok k bits ps'" using gr wf fr by (simp add: pools_ok_def)
      show "pools_used ps' = insert ?f (pools_used ps)" using gr one by simp
      show "all_clrs (mmk_color_num k) (sp_colors as) \<and> pools_exact ps \<longrightarrow> pools_exact ps'"
        using pools_alloc_exact [OF w(1) a] by blast
      show "0 < unat (pa_base g)" using bnd(1) by (simp add: div_greater_zero_iff)
    qed (use fr in_ps al lt in simp_all)
  qed
qed

lemma pt_fill_eq: "pt_fill m base n v q = (if \<exists>i < n. q = base + 8 * of_nat i then v else m q)"
  by (induction n) (auto simp: less_Suc_eq)

lemma pt_size_Suc:
  assumes "dscr_ok d" and "Suc l < lvls d"
  shows "unat (pt_nentries d (Suc l)) = 512" and "pt_size d (Suc l) = 4096"
proof -
  have "lvl_wdt d ! Suc l - lvl_off d ! Suc l = 9" using dscr_okD(4) [OF assms] by simp
  then show n: "unat (pt_nentries d (Suc l)) = 512" using unat_nentries [OF assms] by simp
  then have "pt_nentries d (Suc l) = 512" by (simp add: word_unat_eq_iff)
  then show "pt_size d (Suc l) = 4096" by (simp add: pt_size_def)
qed

lemma page_index:
  assumes A: "unat (A :: u64) mod 4096 = 0" and i: "i < 512"
  shows "unat (A + 8 * of_nat i) = unat A + 8 * i" and "unat (A + 8 * of_nat i) div 4096 = unat A div 4096"
proof -
  have "unat (of_nat i :: u64) = i" using i by (simp add: unat_of_nat)
  with entry_addr [OF A, of "of_nat i"] i show "unat (A + 8 * of_nat i) = unat A + 8 * i"
    "unat (A + 8 * of_nat i) div 4096 = unat A div 4096" by simp_all
qed

lemma unat_page_down: "unat (w AND NOT 4095) = unat w div 4096 * 4096" for w :: u64
proof -
  have m: "(4095 :: u64) = mask 12" by (simp add: mask_eq_exp_minus_1)
  have e: "w AND NOT (mask 12) = push_bit 12 (drop_bit 12 w)"
    by (rule bit_word_eqI) (auto simp: bit_and_iff bit_not_iff bit_mask_iff bit_push_bit_iff bit_drop_bit_eq)
  have "unat w div 4096 * 4096 < 2 ^ 64" using word_unat_lt [of w] by (simp add: le_less_trans [OF div_times_less_eq_dividend])
  then show ?thesis unfolding m e by (simp add: push_bit_eq_mult drop_bit_eq_div unat_word_ariths unat_div)
qed

lemma and_not_page:
  assumes "unat (A :: u64) mod 4096 = 0" and "i < 512"
  shows "(A + 8 * of_nat i) AND NOT 4095 = A"
proof -
  have "unat ((A + 8 * of_nat i) AND NOT 4095) = unat A div 4096 * 4096"
    unfolding unat_page_down by (simp only: page_index(2) [OF assms])
  also have "\<dots> = unat A" using assms(1) by auto
  finally show ?thesis by (simp add: word_unat_eq_iff)
qed

lemma page_table_eta [simp]: "\<lparr>pt_root = pt_root pt, pt_dscr = pt_dscr pt\<rparr> = pt"
  by (cases pt) simp

text \<open>An address that \<open>mem_alloc_vpage\<close> does not hand out: it is mapped or reserved.\<close>

definition as_taken :: "mmu_params \<Rightarrow> mmu_space \<Rightarrow> (u64 \<Rightarrow> u64) \<Rightarrow> u64 \<Rightarrow> bool" where
  "as_taken k as m va \<longleftrightarrow>
     (\<exists>l p. as_end k as m va l p \<and> (pte_valid (mmk_pte k) (m p) \<or> pte_check_rsw (mmk_pte k) (m p) (PTE_RSW_RSRV (mmk_pte k))))"

lemma taken_end: "as_end k as m va l p \<Longrightarrow>
    as_taken k as m va \<longleftrightarrow> pte_valid (mmk_pte k) (m p) \<or> pte_check_rsw (mmk_pte k) (m p) (PTE_RSW_RSRV (mmk_pte k))"
  unfolding as_taken_def using end_unique by metis

section \<open>The contract of the entries in an address space\<close>

locale mmu_format = pte_format "mmk_pte k" bits flags_ok
  for k :: mmu_params and bits :: nat and flags_ok :: "u64 \<Rightarrow> bool" +
  assumes bits_le: "bits \<le> 56" and bits_ge: "39 \<le> bits"
    and flags_hyp: "flags_ok (PTE_HYP_FLAGS (mmk_pte k))" and flags_vm: "flags_ok (PTE_VM_FLAGS (mmk_pte k))"

context mmu_format
begin

abbreviation table_of :: "u64 \<Rightarrow> u64" where
  "table_of A \<equiv> pte_set (mmk_pte k) A (PTE_TABLE (mmk_pte k)) (PTE_HYP_FLAGS (mmk_pte k))"

lemma as_get_pte:
  assumes "sp_ok k bits as st" and "l < lvls (pt_dscr (sp_pt as))" and "as_walk k as (mm_pte st) l va = Some p"
  shows "pt_get_pte (mmk_pte k) (mm_pte st) (sp_pt as) l va = p"
  using walk_get_pte [OF sp_okD(2) [OF assms(1)] assms(2,3)] by simp

lemma alloc_pt:
  assumes ok: "sp_ok k bits as st" and e: "as_end k as (mm_pte st) va l p" and l: "Suc l < lvls (pt_dscr (sp_pt as))"
  obtains (refused) "mem_alloc_pt k as p l va st = Inr (0, st)" "pt_refused k as (mm_pools st)"
  | (table) A pools where
      "mem_alloc_pt k as p l va st = Inr (A, st\<lparr>mm_pools := pools,
         mm_pte := pt_fill ((mm_pte st)(p := table_of A)) A 512 (0 OR (mm_pte st p AND PTE_RSW_MSK (mmk_pte k)))\<rparr>)"
      "pools_ok k bits pools" "pools_frames pools = pools_frames (mm_pools st)"
      "pools_used pools = insert (unat A div 4096) (pools_used (mm_pools st))"
      "unat A div 4096 \<in> pools_frames (mm_pools st) - pools_used (mm_pools st)"
      "unat A mod 4096 = 0" "0 < unat A" "pte_phys bits A"
      "all_clrs (mmk_color_num k) (sp_colors as) \<and> pools_exact (mm_pools st) \<longrightarrow> pools_exact pools"
proof -
  let ?P = "mmk_pte k" and ?d = "pt_dscr (sp_pt as)" and ?m = "mm_pte st"
  note d = sp_okD(1) [OF ok] and t = sp_okD(2) [OF ok] and ps = sp_okD(3) [OF ok]
  have l': "l < lvls ?d" and w: "as_walk k as ?m l va = Some p" using e by (simp_all add: pt_end_def)
  note sz = pt_size_Suc [OF d l]
  have np: "unat (NUM_PAGES (pt_size ?d (Suc l))) = 1" using sz(2) by (simp add: NUM_PAGES_def PAGE_SIZE_def ALIGN_def)
  have p: "p \<noteq> 0" by (rule pt_treeD(2) [OF t l' w])
  have lv: "\<not> lvls ?d \<le> Suc l" using l by simp
  show thesis
  proof (rule alloc_page_cases [OF ps, of as])
    fix g assume "mem_alloc_ppages (pp_alloc_clr_mmu (mmk_color_num k) (mmk_color_size k)) (mmk_color_num k)
      (mm_pools st) (sp_colors as) 1 False = Inr (mm_pools st, g)" "pa_num g = 0" "pt_refused k as (mm_pools st)"
    then show thesis by (intro refused) (simp_all add: mem_alloc_pt_def np lv Let_def)
  next
    fix g pools
    assume g: "mem_alloc_ppages (pp_alloc_clr_mmu (mmk_color_num k) (mmk_color_size k)) (mmk_color_num k)
        (mm_pools st) (sp_colors as) 1 False = Inr (pools, g)" "pa_num g = 1" "pools_ok k bits pools"
      "pools_frames pools = pools_frames (mm_pools st)"
      "pools_used pools = insert (unat (pa_base g) div 4096) (pools_used (mm_pools st))"
      "unat (pa_base g) div 4096 \<in> pools_frames (mm_pools st) - pools_used (mm_pools st)" "unat (pa_base g) mod 4096 = 0"
      "0 < unat (pa_base g)" "unat (pa_base g) < 2 ^ bits"
      "all_clrs (mmk_color_num k) (sp_colors as) \<and> pools_exact (mm_pools st) \<longrightarrow> pools_exact pools"
    let ?A = "pa_base g" and ?m1 = "?m(p := table_of (pa_base g))"
    have phys: "pte_phys bits ?A" using g(7,9) by (simp add: pte_phys_def dvd_eq_mod_eq_0)
    have "l < lvls ?d - 1" using l by simp
    from table_entry [OF phys this] have T: "pte_valid ?P (table_of ?A)" "pte_addr ?P (table_of ?A) = ?A" by auto
    have "?m1 q = ?m q" if "l'' < l" "as_walk k as ?m l'' va = Some q" for l'' q
      using pt_treeD(1) [OF t l' w, of l'' va] that l' by auto
    then have "pt_get_pte ?P ?m1 (sp_pt as) l va = p" using walk_get_pte_other [OF t l' w, of ?m1] by simp
    then have gp: "pt_get_pte ?P ?m1 (sp_pt as) (Suc l) va = ?A + 8 * of_nat (unat (pt_getpteindex_by_va ?d va (Suc l)))"
      using p T by simp
    have "pt_get ?P ?m1 (sp_pt as) (Suc l) va = ?A"
      unfolding pt_get_def gp using and_not_page [OF g(7) index_less_512 [OF d l, of va]] sz(2) by simp
    moreover have "?A \<noteq> 0" using g(8) by auto
    ultimately have "mem_alloc_pt k as p l va st = Inr (?A, st\<lparr>mm_pools := pools,
        mm_pte := pt_fill ?m1 ?A 512 (0 OR (?m p AND PTE_RSW_MSK ?P))\<rparr>)"
      using g(1,2) p lv sz(1) by (simp add: mem_alloc_pt_def np Let_def)
    from table [OF this g(3-8) phys g(10)] show thesis .
  qed
qed

lemma fresh_new_table:
  assumes ok: "sp_ok k bits as st" and e: "as_end k as (mm_pte st) va l p" and l: "Suc l < lvls (pt_dscr (sp_pt as))"
    and A: "unat A div 4096 \<in> pools_frames (mm_pools st) - pools_used (mm_pools st)" "unat A mod 4096 = 0" "0 < unat A" "pte_phys bits A"
    and m': "m' p = table_of A" "\<And>q. unat q div 4096 \<noteq> unat A div 4096 \<Longrightarrow> q \<noteq> p \<Longrightarrow> m' q = mm_pte st q"
    and i: "\<And>i. i < 512 \<Longrightarrow> \<not> (pte_valid (mmk_pte k) (m' (A + 8 * of_nat i)) \<and>
      pte_table (mmk_pte k) (pt_dscr (sp_pt as)) (m' (A + 8 * of_nat i)) (Suc l))"
  shows "new_table (mmk_pte k) (pt_dscr (sp_pt as)) (mm_pte st) (pt_root (sp_pt as)) l va p A m'"
  unfolding new_table_def
proof (intro conjI allI impI, goal_cases)
  case 5
  then show ?case using sp_okD(4) [OF ok] A(1) by auto
next
  case (9 q)
  then show ?case by (rule m'(2))
next
  case (10 j)
  have "of_nat (unat j) = j" by simp
  with i [OF 10] show ?case by simp
qed (use l e A table_entry [OF A(4), of l "pt_dscr (sp_pt as)"] m'(1) in auto)

lemma alloc_pt_empty:
  assumes ok: "sp_ok k bits as st" and e: "as_end k as (mm_pte st) va l p" and l: "Suc l < lvls (pt_dscr (sp_pt as))"
    and inv: "\<not> pte_valid (mmk_pte k) (mm_pte st p)"
  obtains (refused) "mem_alloc_pt k as p l va st = Inr (0, st)" "pt_refused k as (mm_pools st)"
  | (table) A st' q where "mem_alloc_pt k as p l va st = Inr (A, st')" "sp_ok k bits as st'" "sp_step k as st st'"
      "\<And>va' r. as_maps k as (mm_pte st') va' r \<longleftrightarrow> as_maps k as (mm_pte st) va' r"
      "as_end k as (mm_pte st') va (Suc l) q" "\<not> pte_valid (mmk_pte k) (mm_pte st' q)" "A \<noteq> 0"
      "pte_table (mmk_pte k) (pt_dscr (sp_pt as)) (mm_pte st' p) l" "pte_valid (mmk_pte k) (mm_pte st' p)"
      "unat p div 4096 \<noteq> unat q div 4096"
      "\<And>va' l' q'. as_blk as l va' \<noteq> as_blk as l va \<Longrightarrow> as_end k as (mm_pte st') va' l' q' \<longleftrightarrow> as_end k as (mm_pte st) va' l' q'"
      "\<And>va'. as_taken k as (mm_pte st') va' \<longleftrightarrow> as_taken k as (mm_pte st) va'"
      "as_tabs k as (mm_pte st') = insert (l, as_blk as l va) (as_tabs k as (mm_pte st))" "(l, as_blk as l va) \<notin> as_tabs k as (mm_pte st)"
      "card (grown st st') = 1"
proof (rule alloc_pt [OF ok e l])
  assume "mem_alloc_pt k as p l va st = Inr (0, st)" "pt_refused k as (mm_pools st)"
  then show thesis by (rule refused)
next
  let ?P = "mmk_pte k" and ?d = "pt_dscr (sp_pt as)" and ?m = "mm_pte st"
  let ?v = "0 OR (?m p AND PTE_RSW_MSK ?P)"
  fix A pools
  define m' where "m' = pt_fill (?m(p := table_of A)) A 512 ?v"
  let ?st' = "st\<lparr>mm_pools := pools, mm_pte := m'\<rparr>"
  assume "mem_alloc_pt k as p l va st = Inr (A, st\<lparr>mm_pools := pools, mm_pte := pt_fill (?m(p := table_of A)) A 512 ?v\<rparr>)"
  then have r: "mem_alloc_pt k as p l va st = Inr (A, ?st')" by (simp only: m'_def)
  assume pools: "pools_ok k bits pools" "pools_frames pools = pools_frames (mm_pools st)"
      "pools_used pools = insert (unat A div 4096) (pools_used (mm_pools st))"
      "unat A div 4096 \<in> pools_frames (mm_pools st) - pools_used (mm_pools st)"
    and A: "unat A mod 4096 = 0" "0 < unat A" "pte_phys bits A"
    and ex: "all_clrs (mmk_color_num k) (sp_colors as) \<and> pools_exact (mm_pools st) \<longrightarrow> pools_exact pools"
  note d = sp_okD(1) [OF ok] and t = sp_okD(2) [OF ok]
  have lp: "l < lvls ?d" "as_walk k as ?m l va = Some p" using e by (simp_all add: pt_end_def)
  have pf: "unat p div 4096 \<noteq> unat A div 4096" using walk_frames [OF lp] sp_okD(4) [OF ok] pools(4) by auto
  have page: "unat (A + 8 * of_nat i) div 4096 = unat A div 4096" if "i < 512" for i by (rule page_index(2) [OF A(1) that])
  have mp: "m' p = table_of A" using page pf unfolding m'_def pt_fill_eq by auto
  have out: "m' q = ?m q" if "unat q div 4096 \<noteq> unat A div 4096" "q \<noteq> p" for q
    using page that unfolding m'_def pt_fill_eq by auto
  have inp: "m' (A + 8 * of_nat i) = ?v" if "i < 512" for i using that unfolding m'_def pt_fill_eq by auto
  have nv: "\<not> pte_valid ?P ?v" by (rule invalid_entry)
  have n: "new_table ?P ?d ?m (pt_root (sp_pt as)) l va p A m'"
    by (rule fresh_new_table [OF ok e l pools(4) A mp out]) (use inp nv in auto)
  have v: "m' (A + 8 * i) = ?v" if "unat i < 512" for i using inp [OF that] by simp
  have eo: "entry_ok ?P ?d (m' (A + 8 * i)) (Suc l)" if "unat i < 512" for i
    using nv v [OF that] by (simp add: entry_ok_def)
  note h = hang_table [OF ok pools ex n eo]
  let ?q = "A + 8 * pt_getpteindex_by_va ?d va (Suc l)"
  have vq: "m' ?q = ?v" by (rule v [OF index_less_512 [OF d l]])
  have T: "pte_valid ?P (table_of A)" "pte_table ?P ?d (table_of A) l"
    using table_entry [OF A(3), of l ?d] l by auto
  show thesis
  proof (rule table [OF r])
    show "sp_ok k bits as ?st'" by (rule h(1))
    show "sp_step k as st ?st'" by (rule h(2))
    show "as_tabs k as (mm_pte ?st') = insert (l, as_blk as l va) (as_tabs k as ?m)" using h(5) by simp
    show "(l, as_blk as l va) \<notin> as_tabs k as ?m" by (rule h(6))
    show "card (grown st ?st') = 1" by (rule h(7))
    show "as_end k as (mm_pte ?st') va (Suc l) ?q" using l h(4) vq nv by (simp add: pt_end_def)
    show "\<not> pte_valid ?P (mm_pte ?st' ?q)" using vq nv by simp
    show "A \<noteq> 0" using A(2) by auto
    show "pte_table ?P ?d (mm_pte ?st' p) l" "pte_valid ?P (mm_pte ?st' p)" using mp T by simp_all
    show "unat p div 4096 \<noteq> unat ?q div 4096" using pf entry_addr(2) [OF A(1) index_less_512 [OF d l], of va] by simp
    note en = end_new_table [OF d t n]
    show "as_end k as (mm_pte ?st') va' l' q' \<longleftrightarrow> as_end k as ?m va' l' q'" if "as_blk as l va' \<noteq> as_blk as l va" for va' l' q'
      using en [of va' l' q'] that by simp
    show "as_taken k as (mm_pte ?st') va' \<longleftrightarrow> as_taken k as ?m va'" for va'
    proof (cases "as_blk as l va' = as_blk as l va")
      case True
      have e1: "as_end k as ?m va' l p" using e walk_cong [OF d lp(1) True] by (simp add: pt_end_def)
      have "as_end k as m' va' (Suc l) (A + 8 * pt_getpteindex_by_va ?d va' (Suc l))" using en True by simp
      moreover have "m' (A + 8 * pt_getpteindex_by_va ?d va' (Suc l)) = ?v" by (rule v [OF index_less_512 [OF d l]])
      ultimately show ?thesis using inv nv rsw_inherit by (simp add: taken_end [OF e1] taken_end)
    next
      case False
      have same: "m' q = ?m q" if "as_end k as ?m va' l' q" for l' q
      proof (rule new_tableD(11) [OF n])
        show "unat q div 4096 \<noteq> unat A div 4096"
          using walk_frames [of l' _ _ ?m _ va' q] that new_tableD(7) [OF n] by (auto simp: pt_end_def)
        show "q \<noteq> p" using pt_treeD(1) [OF t lp, of l' va'] that False by (auto simp: pt_end_def)
      qed
      obtain l1 q1 where e1: "as_end k as ?m va' l1 q1" by (rule end_exists [OF d t])
      then have "as_end k as m' va' l1 q1" using en False by simp
      then show ?thesis using same [OF e1] by (simp add: taken_end [OF e1] taken_end)
    qed
    show "as_maps k as (mm_pte ?st') va' r \<longleftrightarrow> as_maps k as ?m va' r" for va' r
    proof (cases "as_blk as l va' = as_blk as l va")
      case True
      have "as_end k as ?m va' l p" using e walk_cong [OF d lp(1) True] by (simp add: pt_end_def)
      then have "as_maps k as ?m va' r \<longleftrightarrow> r = None" using inv by (simp add: maps_end)
      moreover have "m' (A + 8 * pt_getpteindex_by_va ?d va' (Suc l)) = ?v" by (rule v [OF index_less_512 [OF d l]])
      ultimately show ?thesis using h(3) [of va' r] True nv by simp
    next
      case False
      then show ?thesis using h(3) [of va' r] by simp
    qed
  qed
qed

end

end
