(* ===== verification/Mmu_Map.thy ===== *)
theory Mmu_Map
  imports Mmu_Space
begin

text \<open>
  Mapping given pages, the second half of \<open>mem_map\<close>: for every address space that satisfies the
  invariant and every range of addresses that is not mapped, the loop maps the range onto the pages,
  with superpages where they fit, leaves every other address as it was, and ends; the only failure is
  that there is no page left for a table.
\<close>

section \<open>Ranges of addresses\<close>

abbreviation as_low :: "mmu_space \<Rightarrow> u64 \<Rightarrow> nat" where
  "as_low as \<equiv> va_low (pt_dscr (sp_pt as))"

text \<open>\<open>va'\<close> is in the \<open>n\<close> pages from \<open>va\<close> on.\<close>

definition in_pages :: "mmu_space \<Rightarrow> u64 \<Rightarrow> nat \<Rightarrow> u64 \<Rightarrow> bool" where
  "in_pages as va n va' \<longleftrightarrow> as_low as va \<le> as_low as va' \<and> as_low as va' < as_low as va + n * 4096"

text \<open>\<open>m'\<close> is \<open>m\<close> with the \<open>n\<close> pages from \<open>va\<close> on mapped to those from \<open>pa\<close> on.\<close>

definition remapped :: "mmu_params \<Rightarrow> mmu_space \<Rightarrow> u64 \<Rightarrow> u64 \<Rightarrow> nat \<Rightarrow> (u64 \<Rightarrow> u64) \<Rightarrow> (u64 \<Rightarrow> u64) \<Rightarrow> bool" where
  "remapped k as va pa n m m' \<longleftrightarrow>
     (\<forall>va' r. as_maps k as m' va' r \<longleftrightarrow>
        (if in_pages as va n va' then r = Some (pa + of_nat (as_low as va' - as_low as va)) else as_maps k as m va' r))"

lemma in_pages_0 [simp]: "\<not> in_pages as va 0 va'"
  by (auto simp: in_pages_def)

lemma remapped_0 [simp]: "remapped k as va pa 0 m m' \<longleftrightarrow> (\<forall>va' r. as_maps k as m' va' r \<longleftrightarrow> as_maps k as m va' r)"
  by (simp add: remapped_def)

lemma remapped_trans:
  assumes a: "remapped k as va pa n m m'" and b: "remapped k as (va + of_nat n * PAGE_SIZE) (pa + of_nat n * PAGE_SIZE) n' m' m''"
    and low: "0 < n' \<Longrightarrow> as_low as (va + of_nat n * PAGE_SIZE) = as_low as va + n * 4096"
  shows "remapped k as va pa (n + n') m m''"
proof (cases "n' = 0")
  case True
  with a b show ?thesis by (simp add: remapped_def)
next
  case False
  then have l: "as_low as (va + of_nat n * PAGE_SIZE) = as_low as va + n * 4096" using low by simp
  have "as_maps k as m'' va' r \<longleftrightarrow>
    (if in_pages as va (n + n') va' then r = Some (pa + of_nat (as_low as va' - as_low as va)) else as_maps k as m va' r)" for va' r
  proof (cases "in_pages as (va + of_nat n * PAGE_SIZE) n' va'")
    case True
    then have le: "as_low as va + n * 4096 \<le> as_low as va'" and i: "in_pages as va (n + n') va'"
      by (auto simp: in_pages_def l distrib_right)
    then have "as_low as va' - as_low as va = n * 4096 + (as_low as va' - (as_low as va + n * 4096))" by simp
    then have "(of_nat (as_low as va' - as_low as va) :: u64) =
        of_nat n * PAGE_SIZE + of_nat (as_low as va' - (as_low as va + n * 4096))"
      by (simp only: of_nat_add of_nat_mult) (simp add: PAGE_SIZE_def)
    with True i b show ?thesis by (simp add: remapped_def l add.assoc)
  next
    case False
    then have "in_pages as va (n + n') va' \<longleftrightarrow> in_pages as va n va'" by (auto simp: in_pages_def l distrib_right)
    with False a b show ?thesis by (simp add: remapped_def)
  qed
  then show ?thesis unfolding remapped_def by blast
qed

lemma va_low_add:
  assumes "dscr_ok d"
  shows "va_low d (va + w) = (va_low d va + unat w) mod 2 ^ (lvl_wdt d ! 0)"
proof -
  have "lvl_wdt d ! 0 \<le> 64" using assms by (simp add: dscr_ok_def)
  then have "(2 :: nat) ^ (lvl_wdt d ! 0) dvd 2 ^ 64" by (rule le_imp_power_dvd)
  then show ?thesis by (simp add: va_low_def unat_word_ariths mod_mod_cancel mod_add_left_eq)
qed

lemma va_low_step:
  assumes "dscr_ok d" and "va_low d va + unat w < 2 ^ (lvl_wdt d ! 0)"
  shows "va_low d (va + w) = va_low d va + unat w"
  using assms by (simp add: va_low_add)

lemma unat_pages: "n * 4096 < 2 ^ 64 \<Longrightarrow> unat (of_nat n * PAGE_SIZE) = n * 4096"
  by (simp add: unat_word_ariths unat_of_nat PAGE_SIZE_def)

lemma low_dvd:
  assumes "dscr_ok d" and "l < lvls d"
  shows "2 ^ (lvl_off d ! l) dvd va_low d va \<longleftrightarrow> 2 ^ (lvl_off d ! l) dvd unat va"
proof -
  have "lvl_off d ! l \<le> lvl_wdt d ! 0" using dscr_okD(2) [OF assms] by simp
  then have "(2 :: nat) ^ (lvl_off d ! l) dvd 2 ^ (lvl_wdt d ! 0)" by (rule le_imp_power_dvd)
  then show ?thesis unfolding va_low_def by (rule dvd_mod_iff)
qed

lemma word_mod_lvlsize:
  assumes "dscr_ok d" and "l < lvls d"
  shows "w mod pt_lvlsize d l = 0 \<longleftrightarrow> 2 ^ (lvl_off d ! l) dvd unat w"
  by (simp add: word_unat_eq_iff unat_mod unat_lvlsize [OF assms] dvd_eq_mod_eq_0)

text \<open>The pages of an entry.\<close>

definition lvl_pages :: "page_table_dscr \<Rightarrow> nat \<Rightarrow> nat" where
  "lvl_pages d l = 2 ^ (lvl_off d ! l - 12)"

lemma lvl_pages:
  assumes "dscr_ok d" and "l < lvls d"
  shows "unat (pt_lvlsize d l div PAGE_SIZE) = lvl_pages d l" and "lvl_pages d l * 4096 = 2 ^ (lvl_off d ! l)"
    and "0 < lvl_pages d l" and "pt_lvlsize d l = of_nat (lvl_pages d l) * PAGE_SIZE"
    and "lvl_pages d l * 4096 < 2 ^ 64"
proof -
  have "lvl_off d ! l = 12 + 9 * (lvls d - 1 - l)" by (rule dscr_okD(1) [OF assms])
  then have o: "lvl_off d ! l = (lvl_off d ! l - 12) + 12" by simp
  then have "(2 :: nat) ^ (lvl_off d ! l) = 2 ^ (lvl_off d ! l - 12) * 2 ^ 12" by (metis power_add)
  then show e: "lvl_pages d l * 4096 = 2 ^ (lvl_off d ! l)" by (simp add: lvl_pages_def)
  then show "unat (pt_lvlsize d l div PAGE_SIZE) = lvl_pages d l"
    by (simp add: unat_div unat_lvlsize [OF assms] flip: e)
  show "0 < lvl_pages d l" by (simp add: lvl_pages_def)
  have "lvl_off d ! l < 64" using dscr_okD(2,3) [OF assms] by simp
  then show lt: "lvl_pages d l * 4096 < 2 ^ 64" unfolding e by (intro power_strict_increasing) auto
  show "pt_lvlsize d l = of_nat (lvl_pages d l) * PAGE_SIZE"
    unfolding word_unat_eq_iff unat_pages [OF lt] unat_lvlsize [OF assms] e ..
qed

lemma mappable_iff:
  assumes "dscr_ok (pt_dscr (sp_pt as))" and "l < lvls (pt_dscr (sp_pt as))" and "left * 4096 < 2 ^ 64"
  shows "pt_pte_mappable k as v l left vaddr paddr \<longleftrightarrow> \<not> pte_valid (mmk_pte k) v \<and>
    lvl_pages (pt_dscr (sp_pt as)) l \<le> left \<and> 2 ^ (lvl_off (pt_dscr (sp_pt as)) ! l) dvd unat vaddr \<and>
    2 ^ (lvl_off (pt_dscr (sp_pt as)) ! l) dvd unat paddr"
proof -
  have "pt_lvlsize (pt_dscr (sp_pt as)) l \<le> of_nat left * PAGE_SIZE \<longleftrightarrow> lvl_pages (pt_dscr (sp_pt as)) l * 4096 \<le> left * 4096"
    unfolding word_le_nat_alt unat_lvlsize [OF assms(1,2)] unat_pages [OF assms(3)] lvl_pages(2) [OF assms(1,2)] ..
  then show ?thesis by (auto simp: pt_pte_mappable_def Let_def word_mod_lvlsize [OF assms(1,2)])
qed

lemma word_succ_unat: "unat w' = unat w + 1 \<Longrightarrow> w' = w + (1 :: u64)"
  using word_unat_lt [of w'] by (simp add: word_unat_eq_iff unat_word_ariths)

text \<open>The next entry of a table is that of the next block.\<close>

lemma walk_next:
  assumes d: "dscr_ok d" and l: "l < lvls d" and w: "pt_walk P d m root l va = Some p"
    and b: "blk d l va' = blk d l va + 1" and s: "0 < l \<Longrightarrow> blk d (l - 1) va' = blk d (l - 1) va"
  shows "pt_walk P d m root l va' = Some (p + 8)"
proof (cases l)
  case 0
  have "pt_getpteindex_by_va d va' 0 = pt_getpteindex_by_va d va 0 + 1"
  proof -
    have "unat (pt_getpteindex_by_va d va' 0) = unat (pt_getpteindex_by_va d va 0) + 1"
      using b 0 by (simp add: index_0 [OF d])
    then show ?thesis by (rule word_succ_unat)
  qed
  with w 0 show ?thesis by (simp add: distrib_left add.assoc)
next
  case (Suc j)
  then have l': "Suc j < lvls d" using l by simp
  have "unat (pt_getpteindex_by_va d va' (Suc j)) = unat (pt_getpteindex_by_va d va (Suc j)) + 1"
    using b s blk_split [OF d l', of va] blk_split [OF d l', of va'] Suc by simp
  then have i: "pt_getpteindex_by_va d va' (Suc j) = pt_getpteindex_by_va d va (Suc j) + 1"
    by (rule word_succ_unat)
  have "pt_walk P d m root j va' = pt_walk P d m root j va" by (rule walk_cong [OF d]) (use s Suc l' in auto)
  with w Suc i show ?thesis by (auto simp: distrib_left add.assoc split: option.splits if_splits)
qed

lemma div_block: "0 < s \<Longrightarrow> x div s = q \<longleftrightarrow> s * q \<le> x \<and> x < s * q + s" for x :: nat
proof -
  assume s: "0 < s"
  show "x div s = q \<longleftrightarrow> s * q \<le> x \<and> x < s * q + s"
  proof
    assume "x div s = q"
    then have "x = s * q + x mod s" by auto
    with mod_less_divisor [OF s, of x] show "s * q \<le> x \<and> x < s * q + s" by linarith
  next
    assume "s * q \<le> x \<and> x < s * q + s"
    then show "x div s = q" by (intro div_nat_eqI) (auto simp: mult.commute)
  qed
qed

lemma word_add_unat: "unat w = unat a + n \<Longrightarrow> w = a + of_nat n" for w :: u64
  using word_unat_lt [of w] by (simp add: word_unat_eq_iff unat_word_ariths unat_of_nat mod_simps)

lemma in_pages_blk:
  assumes d: "dscr_ok (pt_dscr (sp_pt as))" and l: "l < lvls (pt_dscr (sp_pt as))" and a: "2 ^ (lvl_off (pt_dscr (sp_pt as)) ! l) dvd as_low as va"
  shows "in_pages as va (lvl_pages (pt_dscr (sp_pt as)) l) va' \<longleftrightarrow> as_blk as l va' = as_blk as l va"
    and "as_blk as l va' = as_blk as l va \<Longrightarrow> as_low as va' - as_low as va = as_low as va' mod 2 ^ (lvl_off (pt_dscr (sp_pt as)) ! l)"
proof -
  let ?s = "2 ^ (lvl_off (pt_dscr (sp_pt as)) ! l) :: nat"
  obtain q where q: "as_low as va = ?s * q" using a by (elim dvdE)
  have s: "0 < ?s" by simp
  note x = mult_div_mod_eq [of ?s "as_low as va'", symmetric]
  have "as_low as va' div ?s = q \<longleftrightarrow> ?s * q \<le> as_low as va' \<and> as_low as va' < ?s * q + ?s"
    by (rule div_block) simp
  then show "in_pages as va (lvl_pages (pt_dscr (sp_pt as)) l) va' \<longleftrightarrow> as_blk as l va' = as_blk as l va"
    unfolding in_pages_def lvl_pages(2) [OF d l] blk_def q by simp
  show "as_low as va' - as_low as va = as_low as va' mod ?s" if "as_blk as l va' = as_blk as l va"
  proof -
    have "as_low as va' div ?s = q" using that s by (simp add: blk_def q)
    with x q show ?thesis by simp
  qed
qed

text \<open>The \<open>n\<close> pages from \<open>vaddr\<close> on are below the end of what is translated.\<close>

definition va_room :: "mmu_space \<Rightarrow> u64 \<Rightarrow> nat \<Rightarrow> bool" where
  "va_room as vaddr n \<longleftrightarrow> as_low as vaddr + n * 4096 \<le> 2 ^ (lvl_wdt (pt_dscr (sp_pt as)) ! 0)"

lemma va_room_bound:
  assumes d: "dscr_ok (pt_dscr (sp_pt as))" and r: "va_room as vaddr n"
  shows "n * 4096 < 2 ^ 64"
proof -
  have "lvl_wdt (pt_dscr (sp_pt as)) ! 0 \<le> 63" using d by (simp add: dscr_ok_def)
  then have "(2 :: nat) ^ (lvl_wdt (pt_dscr (sp_pt as)) ! 0) \<le> 2 ^ 63" by (rule power_increasing) simp
  then show ?thesis using r by (simp add: va_room_def)
qed

lemma va_room_step:
  assumes d: "dscr_ok (pt_dscr (sp_pt as))" and r: "va_room as vaddr n" and s: "s \<le> n"
  shows "va_room as (vaddr + of_nat s * PAGE_SIZE) (n - s)"
    and "s < n \<Longrightarrow> as_low as (vaddr + of_nat s * PAGE_SIZE) = as_low as vaddr + s * 4096"
    and "unat (of_nat s * PAGE_SIZE) = s * 4096"
proof -
  let ?w = "lvl_wdt (pt_dscr (sp_pt as)) ! 0"
  have le: "s * 4096 + (n - s) * 4096 = n * 4096" using s by (simp flip: distrib_right)
  show sz: "unat (of_nat s * PAGE_SIZE) = s * 4096" using va_room_bound [OF d r] le by (intro unat_pages) simp
  show low: "as_low as (vaddr + of_nat s * PAGE_SIZE) = as_low as vaddr + s * 4096" if "s < n"
  proof -
    have "as_low as vaddr + s * 4096 < 2 ^ ?w" using r that by (simp add: va_room_def)
    then show ?thesis using va_low_step [OF d, of vaddr "of_nat s * PAGE_SIZE"] sz by simp
  qed
  show "va_room as (vaddr + of_nat s * PAGE_SIZE) (n - s)"
  proof (cases "s < n")
    case True
    then show ?thesis using r le by (simp add: va_room_def low [OF True])
  next
    case False
    then have "n - s = 0" by simp
    then show ?thesis using va_low_less [OF d, of "vaddr + of_nat s * PAGE_SIZE"] by (simp add: va_room_def)
  qed
qed

lemma in_pages_split:
  assumes "0 < n' \<Longrightarrow> as_low as (va + of_nat n * PAGE_SIZE) = as_low as va + n * 4096"
  shows "in_pages as va (n + n') va' \<longleftrightarrow> in_pages as va n va' \<or> in_pages as (va + of_nat n * PAGE_SIZE) n' va'"
proof (cases "n' = 0")
  case False
  then show ?thesis using assms by (auto simp: in_pages_def distrib_right)
qed simp

section \<open>The pages that an operation may need\<close>

text \<open>
  The tables below the root on the way to the \<open>n\<close> pages from \<open>va\<close> on; an operation on these pages needs a
  page for each that is missing, and, when it also allocates the data, one for each page.
\<close>

definition range_tabs :: "mmu_space \<Rightarrow> u64 \<Rightarrow> nat \<Rightarrow> (nat \<times> nat) set" where
  "range_tabs as va n = {(l, as_blk as l va') | l va'. Suc l < lvls (pt_dscr (sp_pt as)) \<and> in_pages as va n va'}"

definition need :: "mmu_params \<Rightarrow> mmu_space \<Rightarrow> bool \<Rightarrow> u64 \<Rightarrow> nat \<Rightarrow> mmu \<Rightarrow> nat" where
  "need k as data va n st = card (range_tabs as va n - as_tabs k as (mm_pte st)) + (if data then n else 0)"

text \<open>The pages taken from \<open>st\<close> to \<open>st'\<close> are accounted for by the pages needed before and not any more.\<close>

definition spent :: "mmu_params \<Rightarrow> mmu_space \<Rightarrow> bool \<Rightarrow> u64 \<Rightarrow> nat \<Rightarrow> u64 \<Rightarrow> nat \<Rightarrow> mmu \<Rightarrow> mmu \<Rightarrow> bool" where
  "spent k as data va n va' n' st st' \<longleftrightarrow> card (grown st st') + need k as data va' n' st' \<le> need k as data va n st"

text \<open>At a point before all the needed pages were taken the allocator had none.\<close>

definition exhausted :: "mmu_params \<Rightarrow> mmu_space \<Rightarrow> bool \<Rightarrow> u64 \<Rightarrow> nat \<Rightarrow> mmu \<Rightarrow> bool" where
  "exhausted k as data va n st \<longleftrightarrow>
     (\<exists>st'. sp_step k as st st' \<and> card (grown st st') < need k as data va n st \<and>
        pools_wf (mmk_color_num k) (mmk_color_size k) (mm_pools st') \<and>
        (pt_refused k as (mm_pools st') \<or>
         data \<and> fst (pools_alloc (mmk_color_num k) (mmk_color_size k) (mm_pools st') (1, sp_colors as, True)) = None))"

lemma finite_range_tabs [simp]: "finite (range_tabs as va n)"
proof (rule finite_subset)
  show "range_tabs as va n \<subseteq> {..< lvls (pt_dscr (sp_pt as))} \<times> {..< 2 ^ 64}"
  proof -
    have "as_blk as l w < 2 ^ 64" for l and w :: u64
    proof -
      have "as_blk as l w \<le> as_low as w" by (simp add: blk_def)
      also have "\<dots> \<le> unat w" by (simp add: va_low_def)
      also have "\<dots> < 2 ^ 64" using word_unat_lt [of w] by simp
      finally show ?thesis .
    qed
    then show ?thesis by (auto simp: range_tabs_def)
  qed
qed simp

lemma spent_refl [simp]: "spent k as data va n va n st st"
  by (simp add: spent_def grown_def)

lemma spent_trans:
  assumes "sp_step k as st st'" and "sp_step k as st' st''" and "spent k as data va n va' n' st st'" and "spent k as data va' n' va'' n'' st' st''"
  shows "spent k as data va n va'' n'' st st''"
  using card_grown_trans [OF assms(1,2)] assms(3,4) by (simp add: spent_def)

lemma spent_same: "spent k as False va n va n st st' \<Longrightarrow> spent k as data va n va n st st'"
  by (simp add: spent_def need_def)

lemma exhausted_step:
  assumes "sp_step k as st st'" and "spent k as data va n va' n' st st'" and "exhausted k as data va' n' st'"
  shows "exhausted k as data va n st"
proof -
  obtain st'' where s: "sp_step k as st' st''" "card (grown st' st'') < need k as data va' n' st'"
    and r: "pools_wf (mmk_color_num k) (mmk_color_size k) (mm_pools st'')" "pt_refused k as (mm_pools st'') \<or>
         data \<and> fst (pools_alloc (mmk_color_num k) (mmk_color_size k) (mm_pools st'') (1, sp_colors as, True)) = None"
    using assms(3) unfolding exhausted_def by blast
  have "card (grown st st'') < need k as data va n st"
    using card_grown_trans [OF assms(1) s(1)] s(2) assms(2) by (simp add: spent_def)
  with r sp_step_trans [OF assms(1) s(1)] show ?thesis unfolding exhausted_def by blast
qed

lemma exhausted_data: "exhausted k as False va n st \<Longrightarrow> exhausted k as data va n st"
  unfolding exhausted_def need_def by (metis (no_types, lifting) add.right_neutral trans_less_add1)

lemma missing_here:
  assumes "0 < n" and "Suc l < lvls (pt_dscr (sp_pt as))" and "(l, as_blk as l va) \<notin> as_tabs k as m"
  shows "(l, as_blk as l va) \<in> range_tabs as va n - as_tabs k as m"
  using assms by (auto simp: range_tabs_def in_pages_def)

lemma exhausted_here:
  assumes ok: "sp_ok k bits as st" and e: "as_end k as (mm_pte st) va l p" and l: "Suc l < lvls (pt_dscr (sp_pt as))"
    and n: "0 < n" and r: "pt_refused k as (mm_pools st)"
  shows "exhausted k as data va n st"
proof -
  have "as_walk k as (mm_pte st) (Suc l) va = None" using e by (auto simp: pt_end_def)
  then have "(l, as_blk as l va) \<notin> as_tabs k as (mm_pte st)" unfolding in_tabs [OF sp_okD(1) [OF ok] l] by simp
  then have "range_tabs as va n - as_tabs k as (mm_pte st) \<noteq> {}" using missing_here [OF n l] by blast
  then have "0 < need k as data va n st" by (simp add: need_def card_gt_0_iff)
  moreover have "pools_wf (mmk_color_num k) (mmk_color_size k) (mm_pools st)" using sp_okD(3) [OF ok] by (simp add: pools_ok_def)
  moreover have "card (grown st st) = 0" by (simp add: grown_def)
  ultimately show ?thesis using r sp_step_refl unfolding exhausted_def by metis
qed

lemma spent_table:
  assumes "0 < n" and "Suc l < lvls (pt_dscr (sp_pt as))" and "(l, as_blk as l va) \<notin> as_tabs k as (mm_pte st)"
    and "as_tabs k as (mm_pte st') = insert (l, as_blk as l va) (as_tabs k as (mm_pte st))" and "card (grown st st') = 1"
  shows "spent k as data va n va n st st'"
proof -
  let ?x = "(l, as_blk as l va)" and ?A = "range_tabs as va n - as_tabs k as (mm_pte st)"
  have x: "?x \<in> ?A" by (rule missing_here [OF assms(1-3)])
  then have "range_tabs as va n - as_tabs k as (mm_pte st') = ?A - {?x}" unfolding assms(4) by blast
  moreover have "card ?A = Suc (card (?A - {?x}))" by (rule card.remove [OF _ x]) simp
  ultimately show ?thesis by (simp add: spent_def need_def assms(5))
qed

text \<open>Going on behind an entry: its tables are not needed any more.\<close>

lemma spent_entry:
  assumes d: "dscr_ok (pt_dscr (sp_pt as))" and l: "l < lvls (pt_dscr (sp_pt as))" and r: "va_room as vaddr m"
    and s: "lvl_pages (pt_dscr (sp_pt as)) l \<le> m" and al: "2 ^ (lvl_off (pt_dscr (sp_pt as)) ! l) dvd unat vaddr"
    and t: "\<And>l' va'. Suc l' < lvls (pt_dscr (sp_pt as)) \<Longrightarrow> as_blk as l va' \<noteq> as_blk as l vaddr \<Longrightarrow>
      (l', as_blk as l' va') \<in> as_tabs k as (mm_pte st') \<longleftrightarrow> (l', as_blk as l' va') \<in> as_tabs k as (mm_pte st)"
    and g: "card (grown st st') \<le> (if data then lvl_pages (pt_dscr (sp_pt as)) l else 0)"
  defines "sz \<equiv> lvl_pages (pt_dscr (sp_pt as)) l"
  shows "spent k as data vaddr m (vaddr + of_nat sz * PAGE_SIZE) (m - sz) st st'"
proof -
  let ?va = "vaddr + of_nat sz * PAGE_SIZE"
  have al': "2 ^ (lvl_off (pt_dscr (sp_pt as)) ! l) dvd as_low as vaddr" using al by (simp add: low_dvd [OF d l])
  have sm: "sz \<le> m" using s by (simp add: sz_def)
  note vr = va_room_step [OF d r sm]
  have "range_tabs as ?va (m - sz) - as_tabs k as (mm_pte st') \<subseteq> range_tabs as vaddr m - as_tabs k as (mm_pte st)"
  proof
    fix x assume x: "x \<in> range_tabs as ?va (m - sz) - as_tabs k as (mm_pte st')"
    then obtain l' va' where x': "x = (l', as_blk as l' va')" "Suc l' < lvls (pt_dscr (sp_pt as))" "in_pages as ?va (m - sz) va'"
      by (auto simp: range_tabs_def)
    have lt: "sz < m" using x'(3) by (cases "sz < m") auto
    have "in_pages as vaddr m va'" "\<not> in_pages as vaddr sz va'"
      using x'(3) sm by (auto simp: in_pages_def vr(2) [OF lt] diff_mult_distrib)
    moreover from this(2) have "as_blk as l va' \<noteq> as_blk as l vaddr" using in_pages_blk(1) [OF d l al'] by (simp add: sz_def)
    ultimately show "x \<in> range_tabs as vaddr m - as_tabs k as (mm_pte st)"
      using x x' t by (auto simp: range_tabs_def)
  qed
  then have "card (range_tabs as ?va (m - sz) - as_tabs k as (mm_pte st')) \<le> card (range_tabs as vaddr m - as_tabs k as (mm_pte st))"
    by (rule card_mono [rotated]) simp
  with g sm show ?thesis by (auto simp: spent_def need_def sz_def split: if_splits)
qed

context mmu_format
begin

lemma set_leaf:
  assumes ok: "sp_ok k bits as st" and l: "l < lvls (pt_dscr (sp_pt as))" and w: "as_walk k as (mm_pte st) l va = Some p"
    and f: "flags_ok f" and pa: "pte_phys bits pa" "2 ^ (lvl_off (pt_dscr (sp_pt as)) ! l) dvd unat pa"
    and va: "2 ^ (lvl_off (pt_dscr (sp_pt as)) ! l) dvd unat va"
  defines "st' \<equiv> st\<lparr>mm_pte := (mm_pte st)(p := pte_set (mmk_pte k) pa (pt_page_type (mmk_pte k) (pt_dscr (sp_pt as)) l) f)\<rparr>"
  shows "sp_ok k bits as st'" and "sp_step k as st st'"
    and "remapped k as va pa (lvl_pages (pt_dscr (sp_pt as)) l) (mm_pte st) (mm_pte st')"
    and "as_walk k as (mm_pte st') l va' = as_walk k as (mm_pte st) l va'"
    and "Suc l' < lvls (pt_dscr (sp_pt as)) \<Longrightarrow> as_blk as l va' \<noteq> as_blk as l va \<Longrightarrow>
      (l', as_blk as l' va') \<in> as_tabs k as (mm_pte st') \<longleftrightarrow> (l', as_blk as l' va') \<in> as_tabs k as (mm_pte st)"
proof -
  let ?P = "mmk_pte k" and ?d = "pt_dscr (sp_pt as)"
  let ?v = "pte_set ?P pa (pt_page_type ?P ?d l) f"
  note d = sp_okD(1) [OF ok]
  have v: "pte_valid ?P ?v" "\<not> pte_table ?P ?d ?v l" "pte_addr ?P ?v = pa" using leaf_entry [OF pa(1) f, of ?d l] by auto
  have e: "entry_ok ?P ?d ?v l" unfolding entry_ok_def using v pa(2) by metis
  have nt: "\<not> (pte_valid ?P ?v \<and> pte_table ?P ?d ?v l)" using v by simp
  note se = set_entry [OF ok l w nt e, folded st'_def]
  show "sp_ok k bits as st'" "sp_step k as st st'" by (rule se(1), rule se(2))
  show "as_walk k as (mm_pte st') l va' = as_walk k as (mm_pte st) l va'" by (rule se(4))
  show "(l', as_blk as l' va') \<in> as_tabs k as (mm_pte st') \<longleftrightarrow> (l', as_blk as l' va') \<in> as_tabs k as (mm_pte st)"
    if "Suc l' < lvls ?d" "as_blk as l va' \<noteq> as_blk as l va" using that by (rule se(5))
  have va': "2 ^ (lvl_off ?d ! l) dvd as_low as va" using va by (simp add: low_dvd [OF d l])
  have "pt_pa ?P ?d ?v l va' = pa + of_nat (as_low as va' - as_low as va)" if "as_blk as l va' = as_blk as l va" for va'
  proof -
    have "unat (pt_pa ?P ?d ?v l va') = unat pa + (as_low as va' - as_low as va)"
      using unat_pt_pa [OF d l, of ?P ?v va'] v(3) pa(2) in_pages_blk(2) [OF d l va' that] by simp
    then show ?thesis by (rule word_add_unat)
  qed
  then show "remapped k as va pa (lvl_pages ?d l) (mm_pte st) (mm_pte st')"
    unfolding remapped_def in_pages_blk(1) [OF d l va'] using se(3) v(1) by simp
qed

text \<open>The space that is left: virtual addresses, and pages at \<open>paddr\<close>.\<close>

definition room :: "mmu_space \<Rightarrow> u64 \<Rightarrow> u64 \<Rightarrow> nat \<Rightarrow> bool" where
  "room as vaddr paddr n \<longleftrightarrow> va_room as vaddr n \<and> unat paddr + n * 4096 \<le> 2 ^ bits"

lemma room_step:
  assumes d: "dscr_ok (pt_dscr (sp_pt as))" and r: "room as vaddr paddr n" and s: "s \<le> n"
  shows "room as (vaddr + of_nat s * PAGE_SIZE) (paddr + of_nat s * PAGE_SIZE) (n - s)"
    and "s < n \<Longrightarrow> as_low as (vaddr + of_nat s * PAGE_SIZE) = as_low as vaddr + s * 4096"
    and "unat (paddr + of_nat s * PAGE_SIZE) = unat paddr + s * 4096"
proof -
  have v: "va_room as vaddr n" and le: "s * 4096 + (n - s) * 4096 = n * 4096"
    using r s by (simp_all add: room_def flip: distrib_right)
  note vr = va_room_step [OF d v s]
  have "(2 :: nat) ^ bits \<le> 2 ^ 56" using bits_le by (rule power_increasing) simp
  moreover have "unat paddr + s * 4096 \<le> 2 ^ bits" using r le by (simp add: room_def)
  ultimately show pa: "unat (paddr + of_nat s * PAGE_SIZE) = unat paddr + s * 4096"
    by (simp add: unat_word_ariths(1) vr(3))
  show "as_low as (vaddr + of_nat s * PAGE_SIZE) = as_low as vaddr + s * 4096" if "s < n" by (rule vr(2) [OF that])
  show "room as (vaddr + of_nat s * PAGE_SIZE) (paddr + of_nat s * PAGE_SIZE) (n - s)"
    using r le vr(1) by (simp add: room_def pa)
qed

lemma entry_step:
  assumes d: "dscr_ok (pt_dscr (sp_pt as))" and l: "l < lvls (pt_dscr (sp_pt as))" and r: "va_room as vaddr m"
    and s: "lvl_pages (pt_dscr (sp_pt as)) l \<le> m" and al: "2 ^ (lvl_off (pt_dscr (sp_pt as)) ! l) dvd unat vaddr"
    and w: "as_walk k as mem l vaddr = Some pte" and nb: "0 < l \<Longrightarrow> Suc n + as_blk as l vaddr mod 512 \<le> 512"
  defines "va \<equiv> vaddr + of_nat (lvl_pages (pt_dscr (sp_pt as)) l) * PAGE_SIZE"
  shows "2 ^ (lvl_off (pt_dscr (sp_pt as)) ! l) dvd unat va"
    and "lvl_pages (pt_dscr (sp_pt as)) l < m \<Longrightarrow> 0 < n \<Longrightarrow> as_walk k as mem l va = Some (pte + 8)"
    and "0 < l \<Longrightarrow> lvl_pages (pt_dscr (sp_pt as)) l < m \<Longrightarrow> n + as_blk as l va mod 512 \<le> 512"
proof -
  let ?d = "pt_dscr (sp_pt as)"
  note pg = lvl_pages [OF d l] and vr = va_room_step [OF d r s, folded va_def]
  have "2 ^ (lvl_off ?d ! l) dvd unat (pt_lvlsize ?d l)" using unat_lvlsize [OF d l] by simp
  moreover have "(2 :: nat) ^ (lvl_off ?d ! l) dvd 2 ^ 64" using dscr_okD(2,3) [OF d l] by (intro le_imp_power_dvd) simp
  ultimately show "2 ^ (lvl_off ?d ! l) dvd unat va"
    using al unfolding va_def by (simp add: unat_word_ariths(1) dvd_mod_iff flip: pg(4))
  have blk: "as_blk as l va = as_blk as l vaddr + 1" if "lvl_pages ?d l < m"
    using vr(2) [OF that] pg(2) by (simp add: blk_def div_add_self2)
  show "as_walk k as mem l va = Some (pte + 8)" if m: "lvl_pages ?d l < m" and n: "0 < n"
  proof (rule walk_next [OF d l w blk [OF m]])
    assume l0: "0 < l"
    then have j: "Suc (l - 1) = l" "Suc (l - 1) < lvls ?d" using l by simp_all
    have "as_blk as l vaddr mod 512 + 1 < 512" using nb [OF l0] n by simp
    then show "as_blk as (l - 1) va = as_blk as (l - 1) vaddr"
      using blk [OF m] blk_Suc_div [OF d j(2)] unfolding j(1) by (simp add: div_Suc mod_Suc)
  qed
  show "n + as_blk as l va mod 512 \<le> 512" if l0: "0 < l" and m: "lvl_pages ?d l < m"
  proof -
    have "as_blk as l va mod 512 \<le> as_blk as l vaddr mod 512 + 1" unfolding blk [OF m] by (simp add: mod_Suc)
    with nb [OF l0] show ?thesis by simp
  qed
qed

lemma map_entries:
  assumes l: "l < lvls (pt_dscr (sp_pt as))" and f: "flags_ok f"
  defines "sz \<equiv> lvl_pages (pt_dscr (sp_pt as)) l"
  shows "sp_ok k bits as st \<Longrightarrow> count \<le> num \<Longrightarrow> room as vaddr paddr (num - count) \<Longrightarrow>
    2 ^ (lvl_off (pt_dscr (sp_pt as)) ! l) dvd unat vaddr \<Longrightarrow> 2 ^ (lvl_off (pt_dscr (sp_pt as)) ! l) dvd unat paddr \<Longrightarrow>
    (0 < n \<Longrightarrow> count < num \<Longrightarrow> as_walk k as (mm_pte st) l vaddr = Some pte) \<Longrightarrow>
    (0 < l \<Longrightarrow> count < num \<Longrightarrow> n + as_blk as l vaddr mod 512 \<le> 512) \<Longrightarrow>
    \<exists>c st'. mem_map_entries k as True num f l n pte vaddr paddr count st =
        Inr (vaddr + of_nat c * PAGE_SIZE, paddr + of_nat c * PAGE_SIZE, count + c, st') \<and>
      count + c \<le> num \<and> sp_ok k bits as st' \<and> sp_step k as st st' \<and> remapped k as vaddr paddr c (mm_pte st) (mm_pte st') \<and>
      spent k as False vaddr (num - count) (vaddr + of_nat c * PAGE_SIZE) (num - (count + c)) st st' \<and>
      (0 < n \<longrightarrow> count + sz \<le> num \<longrightarrow> 0 < c)"
proof (induction n arbitrary: pte vaddr paddr count st)
  case 0
  then show ?case by (intro exI [of _ 0] exI [of _ st]) simp
next
  case (Suc n)
  let ?P = "mmk_pte k" and ?d = "pt_dscr (sp_pt as)"
  note d = sp_okD(1) [OF Suc.prems(1)]
  note pg = lvl_pages [OF d l, folded sz_def]
  show ?case
  proof (cases "count < num \<and> num - count \<ge> sz")
    case False
    have "\<not> count + sz \<le> num" using False Suc.prems(2) pg(3) by linarith
    then show ?thesis
      using False Suc.prems(1,2) by (intro exI [of _ 0] exI [of _ st]) (simp add: pg(1) del: not_less not_le)
  next
    case True
    then have cs: "count + sz \<le> num" and c: "count < num" by linarith+
    define st1 where "st1 = st\<lparr>mm_pte := (mm_pte st)(pte := pte_set ?P paddr (pt_page_type ?P ?d l) f)\<rparr>"
    let ?va = "vaddr + of_nat sz * PAGE_SIZE" and ?pa = "paddr + of_nat sz * PAGE_SIZE"
    have w: "as_walk k as (mm_pte st) l vaddr = Some pte" using Suc.prems(6) c by simp
    note rm = room_step [OF d Suc.prems(3), of sz]
    have "4096 dvd unat paddr" using Suc.prems(5) by (metis dvd_trans dvd_triv_right pg(2))
    moreover have "unat paddr + sz * 4096 \<le> 2 ^ bits"
      using Suc.prems(3) mult_le_mono1 [of sz "num - count" 4096] True by (simp add: room_def)
    ultimately have phys: "pte_phys bits paddr" using pg(3) by (simp add: pte_phys_def)
    note sl = set_leaf [OF Suc.prems(1) l w f phys Suc.prems(5,4), folded st1_def]
    have dv: "2 ^ (lvl_off ?d ! l) dvd unat (?pa)" using rm(3) True Suc.prems(5) pg(2) by simp
    have vrm: "va_room as vaddr (num - count)" using Suc.prems(3) by (simp add: room_def)
    have nb: "Suc n + as_blk as l vaddr mod 512 \<le> 512" if "0 < l" using Suc.prems(7) that c by simp
    have szm: "lvl_pages ?d l \<le> num - count" using True by (simp add: sz_def)
    note es = entry_step [OF d l vrm szm Suc.prems(4) w nb, folded sz_def]
    have "\<exists>c st'. mem_map_entries k as True num f l n (pte + 8) ?va ?pa (count + sz) st1 =
        Inr (?va + of_nat c * PAGE_SIZE, ?pa + of_nat c * PAGE_SIZE, count + sz + c, st') \<and>
      count + sz + c \<le> num \<and> sp_ok k bits as st' \<and> sp_step k as st1 st' \<and> remapped k as ?va ?pa c (mm_pte st1) (mm_pte st') \<and>
      spent k as False ?va (num - (count + sz)) (?va + of_nat c * PAGE_SIZE) (num - (count + sz + c)) st1 st' \<and>
      (0 < n \<longrightarrow> count + sz + sz \<le> num \<longrightarrow> 0 < c)"
    proof (rule Suc.IH [OF sl(1) cs _ es(1) dv])
      show "room as ?va ?pa (num - (count + sz))" using rm(1) True by simp
      show "as_walk k as (mm_pte st1) l ?va = Some (pte + 8)" if "0 < n" "count + sz < num"
        using es(2) that sl(4) [of ?va] by simp
      show "n + as_blk as l ?va mod 512 \<le> 512" if "0 < l" "count + sz < num" using es(3) that by simp
    qed
    then obtain c st' where r: "mem_map_entries k as True num f l n (pte + 8) ?va ?pa (count + sz) st1 =
        Inr (?va + of_nat c * PAGE_SIZE, ?pa + of_nat c * PAGE_SIZE, count + sz + c, st')"
      and le: "count + sz + c \<le> num" and ok': "sp_ok k bits as st'" "sp_step k as st1 st'"
      and rmp: "remapped k as ?va ?pa c (mm_pte st1) (mm_pte st')"
      and sp: "spent k as False ?va (num - (count + sz)) (?va + of_nat c * PAGE_SIZE) (num - (count + sz + c)) st1 st'" by blast
    have "mem_map_entries k as True num f l (Suc n) pte vaddr paddr count st =
        mem_map_entries k as True num f l n (pte + 8) ?va ?pa (count + sz) st1"
      using True by (simp add: pg(1) st1_def Let_def flip: pg(4))
    with r have "mem_map_entries k as True num f l (Suc n) pte vaddr paddr count st =
        Inr (vaddr + of_nat (sz + c) * PAGE_SIZE, paddr + of_nat (sz + c) * PAGE_SIZE, count + (sz + c), st')"
      by (simp add: distrib_right add.assoc)
    moreover have "remapped k as vaddr paddr (sz + c) (mm_pte st) (mm_pte st')"
    proof (rule remapped_trans [OF _ rmp])
      show "remapped k as vaddr paddr sz (mm_pte st) (mm_pte st1)" using sl(3) by (simp add: sz_def)
      show "as_low as ?va = as_low as vaddr + sz * 4096" if "0 < c" using rm(2) that le by simp
    qed
    moreover have "sp_step k as st st'" by (rule sp_step_trans [OF sl(2) ok'(2)])
    moreover have "spent k as False vaddr (num - count) (vaddr + of_nat (sz + c) * PAGE_SIZE) (num - (count + (sz + c))) st st'"
    proof -
      have "card (grown st st1) = 0" by (simp add: st1_def grown_def)
      then have "spent k as False vaddr (num - count) ?va (num - count - sz) st st1"
        unfolding sz_def by (intro spent_entry [OF d l vrm szm Suc.prems(4) sl(5)]) simp_all
      with spent_trans [OF sl(2) ok'(2) _ sp] show ?thesis by (simp add: distrib_right add.assoc)
    qed
    ultimately show ?thesis using le ok' pg(3) by (intro exI [of _ "sz + c"] exI [of _ st']) simp
  qed
qed

lemma maps_None_end:
  assumes "as_end k as m va l p" and "as_maps k as m va None"
  shows "\<not> pte_valid (mmk_pte k) (m p)"
  using assms(2) unfolding maps_end [OF assms(1)] by (auto split: if_splits)

lemma map_descend:
  assumes terminal: "\<forall>l < lvls (pt_dscr (sp_pt as)). lvl_term (pt_dscr (sp_pt as)) ! l"
    and left: "0 < left" "left * 4096 < 2 ^ 64"
    and va: "4096 dvd unat vaddr" and pa: "4096 dvd unat (if given then paddr else 0)"
  shows "sp_ok k bits as st \<Longrightarrow> as_walk k as (mm_pte st) lvl vaddr = Some p0 \<Longrightarrow> lvl < lvls (pt_dscr (sp_pt as)) \<Longrightarrow>
    n = lvls (pt_dscr (sp_pt as)) - lvl \<Longrightarrow> as_maps k as (mm_pte st) vaddr None \<Longrightarrow>
    mem_map_descend k as given left vaddr paddr n lvl st = Inl NULL_DEREF \<and> exhausted k as False vaddr left st \<or>
    (\<exists>p l st'. mem_map_descend k as given left vaddr paddr n lvl st = Inr (p, l, st') \<and> l < lvls (pt_dscr (sp_pt as)) \<and>
       as_end k as (mm_pte st') vaddr l p \<and> sp_ok k bits as st' \<and> sp_step k as st st' \<and>
       (\<forall>va' r. as_maps k as (mm_pte st') va' r \<longleftrightarrow> as_maps k as (mm_pte st) va' r) \<and>
       lvl_pages (pt_dscr (sp_pt as)) l \<le> left \<and> 2 ^ (lvl_off (pt_dscr (sp_pt as)) ! l) dvd unat vaddr \<and>
       2 ^ (lvl_off (pt_dscr (sp_pt as)) ! l) dvd unat (if given then paddr else 0) \<and>
       spent k as False vaddr left vaddr left st st' \<and>
       lvl \<le> l \<and> (\<forall>l0 q. as_end k as (mm_pte st) vaddr l0 q \<longrightarrow> l0 \<le> l))"
proof (induction n arbitrary: lvl st p0)
  case 0
  then show ?case by simp
next
  case (Suc n)
  let ?P = "mmk_pte k" and ?d = "pt_dscr (sp_pt as)"
  let ?pa = "if given then paddr else 0" and ?v = "mm_pte st p0"
  note d = sp_okD(1) [OF Suc.prems(1)] and t = sp_okD(2) [OF Suc.prems(1)] and l = Suc.prems(3) and w = Suc.prems(2)
  have gp: "pt_get_pte ?P (mm_pte st) (sp_pt as) lvl vaddr = p0" by (rule as_get_pte [OF Suc.prems(1) l w])
  have p0: "p0 \<noteq> 0" by (rule pt_treeD(2) [OF t l w])
  have tm: "pt_lvl_terminal ?d lvl" using terminal l by (simp add: pt_lvl_terminal_def)
  note mi = mappable_iff [OF d l left(2), of k ?v vaddr ?pa]
  show ?case
  proof (cases "pt_pte_mappable k as ?v lvl left vaddr ?pa")
    case True
    then have "mem_map_descend k as given left vaddr paddr (Suc n) lvl st = Inr (p0, lvl, st)"
      using tm p0 by (simp add: gp Let_def)
    moreover have e: "as_end k as (mm_pte st) vaddr lvl p0" using True mi w l by (simp add: pt_end_def)
    moreover have "\<forall>l0 q. as_end k as (mm_pte st) vaddr l0 q \<longrightarrow> l0 \<le> lvl" using end_unique [OF e] by auto
    ultimately show ?thesis using True mi l Suc.prems(1) by (intro disjI2 exI [of _ p0] exI [of _ lvl] exI [of _ st]) simp
  next
    case False
    have not_last: "Suc lvl < lvls ?d" if "\<not> pte_valid ?P ?v"
    proof (rule ccontr)
      assume "\<not> Suc lvl < lvls ?d"
      then have "lvl = lvls ?d - 1" using l by simp
      then have "lvl_off ?d ! lvl = 12" using off_last [OF d] by simp
      with False mi that left(1) va pa show False by (simp add: lvl_pages_def)
    qed
    show ?thesis
    proof (cases "pte_valid ?P ?v")
      case inv: False
      note nl = not_last [OF inv]
      have e: "as_end k as (mm_pte st) vaddr lvl p0" using w l inv by (simp add: pt_end_def)
      have step: "mem_map_descend k as given left vaddr paddr (Suc n) lvl st =
          obind (mem_alloc_pt k as p0 lvl vaddr st) (\<lambda>(_, st). mem_map_descend k as given left vaddr paddr n (lvl + 1) st)"
        using tm p0 False inv by (simp add: gp Let_def)
      obtain n' where n': "n = Suc n'" using Suc.prems(4) nl by (cases n) auto
      show ?thesis
      proof (rule alloc_pt_empty [OF Suc.prems(1) e nl inv])
        assume r: "mem_alloc_pt k as p0 lvl vaddr st = Inr (0, st)" "pt_refused k as (mm_pools st)"
        have "pt_get_pte ?P (mm_pte st) (sp_pt as) (Suc lvl) vaddr = 0" using gp p0 inv by (simp add: Let_def)
        then have "mem_map_descend k as given left vaddr paddr n (Suc lvl) st = Inl NULL_DEREF"
          unfolding n' using terminal nl by (simp add: pt_lvl_terminal_def Let_def del: pt_get_pte.simps)
        then have "mem_map_descend k as given left vaddr paddr (Suc n) lvl st = Inl NULL_DEREF" using step r(1) by simp
        moreover have "exhausted k as False vaddr left st" by (rule exhausted_here [OF Suc.prems(1) e nl left(1) r(2)])
        ultimately show ?thesis by blast
      next
        fix A st1 q
        assume r: "mem_alloc_pt k as p0 lvl vaddr st = Inr (A, st1)" and ok1: "sp_ok k bits as st1" "sp_step k as st st1"
          and same: "\<And>va' r. as_maps k as (mm_pte st1) va' r \<longleftrightarrow> as_maps k as (mm_pte st) va' r"
          and e1: "as_end k as (mm_pte st1) vaddr (Suc lvl) q"
          and tb: "as_tabs k as (mm_pte st1) = insert (lvl, as_blk as lvl vaddr) (as_tabs k as (mm_pte st))"
            "(lvl, as_blk as lvl vaddr) \<notin> as_tabs k as (mm_pte st)" and g1: "card (grown st st1) = 1"
        note sp1 = spent_table [OF left(1) nl tb(2,1) g1]
        have w1: "as_walk k as (mm_pte st1) (Suc lvl) vaddr = Some q" using e1 unfolding pt_end_def by blast
        have "n = lvls ?d - Suc lvl" using Suc.prems(4) by simp
        have un: "as_maps k as (mm_pte st1) vaddr None" using same Suc.prems(5) by simp
        from Suc.IH [OF ok1(1) w1 nl \<open>n = lvls ?d - Suc lvl\<close> un] show ?thesis
        proof
          assume "mem_map_descend k as given left vaddr paddr n (Suc lvl) st1 = Inl NULL_DEREF \<and> exhausted k as False vaddr left st1"
          then show ?thesis using step r exhausted_step [OF ok1(2) sp1] by simp
        next
          assume "\<exists>p l st'. mem_map_descend k as given left vaddr paddr n (Suc lvl) st1 = Inr (p, l, st') \<and> l < lvls ?d \<and>
            as_end k as (mm_pte st') vaddr l p \<and> sp_ok k bits as st' \<and> sp_step k as st1 st' \<and>
            (\<forall>va' r. as_maps k as (mm_pte st') va' r \<longleftrightarrow> as_maps k as (mm_pte st1) va' r) \<and>
            lvl_pages ?d l \<le> left \<and> 2 ^ (lvl_off ?d ! l) dvd unat vaddr \<and> 2 ^ (lvl_off ?d ! l) dvd unat ?pa \<and>
            spent k as False vaddr left vaddr left st1 st' \<and>
            Suc lvl \<le> l \<and> (\<forall>l0 q. as_end k as (mm_pte st1) vaddr l0 q \<longrightarrow> l0 \<le> l)"
          then obtain p l' st' where *: "mem_map_descend k as given left vaddr paddr n (Suc lvl) st1 = Inr (p, l', st')" "l' < lvls ?d"
            "as_end k as (mm_pte st') vaddr l' p" "sp_ok k bits as st'" "sp_step k as st1 st'"
            "\<forall>va' r. as_maps k as (mm_pte st') va' r \<longleftrightarrow> as_maps k as (mm_pte st1) va' r"
            "lvl_pages ?d l' \<le> left" "2 ^ (lvl_off ?d ! l') dvd unat vaddr" "2 ^ (lvl_off ?d ! l') dvd unat ?pa"
            "Suc lvl \<le> l'" and sp: "spent k as False vaddr left vaddr left st1 st'" by blast
          have "mem_map_descend k as given left vaddr paddr (Suc n) lvl st = Inr (p, l', st')" using step r *(1) by simp
          moreover have "sp_step k as st st'" by (rule sp_step_trans [OF ok1(2) *(5)])
          moreover have "spent k as False vaddr left vaddr left st st'" by (rule spent_trans [OF ok1(2) *(5) sp1 sp])
          moreover have "lvl \<le> l'" "\<forall>l0 q. as_end k as (mm_pte st) vaddr l0 q \<longrightarrow> l0 \<le> l'"
            using *(10) end_unique [OF e] by auto
          ultimately show ?thesis using * same by blast
        qed
      qed
    next
      case val: True
      have tb: "pte_table ?P ?d ?v lvl"
      proof (rule ccontr)
        assume "\<not> pte_table ?P ?d ?v lvl"
        then have "as_end k as (mm_pte st) vaddr lvl p0" using w l by (simp add: pt_end_def)
        from maps_None_end [OF this Suc.prems(5)] val show False by simp
      qed
      have nl: "Suc lvl < lvls ?d" using pt_treeD(3) [OF t l w] val tb l unfolding entry_ok_def by (metis Suc_lessI diff_Suc_1)
      have w1: "as_walk k as (mm_pte st) (Suc lvl) vaddr = Some (pte_addr ?P ?v + 8 * pt_getpteindex_by_va ?d vaddr (Suc lvl))"
        using w val tb by simp
      have "mem_map_descend k as given left vaddr paddr (Suc n) lvl st = mem_map_descend k as given left vaddr paddr n (Suc lvl) st"
        using tm p0 False val tb by (simp add: gp Let_def)
      moreover have "n = lvls ?d - Suc lvl" using Suc.prems(4) by simp
      moreover have "lvl \<le> l'" if "Suc lvl \<le> l'" for l' using that by simp
      ultimately show ?thesis using Suc.IH [OF Suc.prems(1) w1 nl _ Suc.prems(5)] by metis
    qed
  qed
qed

lemma pteindex_less:
  assumes d: "dscr_ok d" and l: "l < lvls d"
  shows "unat (pt_getpteindex d p l) < unat (pt_nentries d l)"
proof -
  have pos: "0 < unat (pt_size d l)"
  proof -
    have "lvl_wdt d ! l - lvl_off d ! l \<le> 51" using dscr_okD(1,3,6) [OF d l] by simp
    then have "(2 :: nat) ^ (lvl_wdt d ! l - lvl_off d ! l) \<le> 2 ^ 51" by (rule power_increasing) simp
    then have "unat (pt_size d l) = 2 ^ (lvl_wdt d ! l - lvl_off d ! l) * 8"
      by (simp add: pt_size_def unat_word_ariths unat_nentries [OF d l])
    then show ?thesis by simp
  qed
  then have "pt_size d l \<noteq> 0" by auto
  have "unat (p AND (pt_size d l - 1)) \<le> unat (pt_size d l - 1)" by (metis word_and_le1 word_le_nat_alt and.commute)
  also have "\<dots> < unat (pt_size d l)" using \<open>pt_size d l \<noteq> 0\<close> pos by (simp add: unat_minus_one)
  also have "\<dots> \<le> unat (pt_nentries d l) * 8" by (simp add: pt_size_def unat_word_ariths)
  finally show ?thesis by (simp add: pt_getpteindex_def unat_div less_mult_imp_div_less)
qed

lemma pteindex_walk:
  assumes d: "dscr_ok d" and l: "Suc j < lvls d" and w: "pt_walk (mmk_pte k) d m root (Suc j) va = Some p"
  shows "unat (pt_getpteindex d p (Suc j)) = blk d (Suc j) va mod 512"
proof -
  from w obtain q where q: "p = pte_addr (mmk_pte k) (m q) + 8 * pt_getpteindex_by_va d va (Suc j)"
    by (auto split: option.splits if_splits)
  let ?i = "pt_getpteindex_by_va d va (Suc j)" and ?A = "pte_addr (mmk_pte k) (m q)"
  have A: "unat ?A mod 4096 = 0" using addr_phys [of "m q"] by (simp add: pte_phys_def dvd_eq_mod_eq_0)
  have m: "(4095 :: u64) = mask 12" by (simp add: mask_eq_exp_minus_1)
  have "unat (p AND 4095) = unat p mod 4096"
    unfolding m by (simp add: take_bit_eq_mask [symmetric] unsigned_take_bit_eq take_bit_eq_mod [where 'a = nat])
  also have "\<dots> = 8 * unat ?i"
    unfolding q entry_addr(1) [OF A index_less_512 [OF d l]] using A index_less_512 [OF d l, of va] by (simp add: mod_add_left_eq [symmetric])
  finally show ?thesis
    using index_Suc [OF d l, of va] by (simp add: pt_getpteindex_def pt_size_Suc(2) [OF d l] unat_div)
qed

lemma entries_left:
  assumes d: "dscr_ok d" and l: "l < lvls d" and w: "pt_walk (mmk_pte k) d m root l va = Some p" and l0: "0 < l"
  shows "unat (pt_nentries d l) - unat (pt_getpteindex d p l) + blk d l va mod 512 \<le> 512"
proof -
  obtain j where j: "l = Suc j" using l0 by (cases l) auto
  have "unat (pt_getpteindex d p l) = blk d l va mod 512" "unat (pt_nentries d l) = 512"
    using pteindex_walk [OF d, of j m root va p] pt_size_Suc(1) [OF d, of j] w l unfolding j by simp_all
  then show ?thesis using mod_less_divisor [of 512 "blk d l va"] by linarith
qed

lemma map_loop:
  assumes terminal: "\<forall>l < lvls (pt_dscr (sp_pt as)). lvl_term (pt_dscr (sp_pt as)) ! l" and f: "flags_ok f"
  shows "sp_ok k bits as st \<Longrightarrow> count \<le> num \<Longrightarrow> room as vaddr paddr (num - count) \<Longrightarrow>
    4096 dvd unat vaddr \<Longrightarrow> 4096 dvd unat paddr \<Longrightarrow> (\<forall>va'. in_pages as vaddr (num - count) va' \<longrightarrow> as_maps k as (mm_pte st) va' None) \<Longrightarrow>
    mem_map_loop k as True num f vaddr paddr count st = Some (Inl NULL_DEREF) \<and> exhausted k as False vaddr (num - count) st \<or>
    (\<exists>st'. mem_map_loop k as True num f vaddr paddr count st = Some (Inr st') \<and> sp_ok k bits as st' \<and> sp_step k as st st' \<and>
       remapped k as vaddr paddr (num - count) (mm_pte st) (mm_pte st'))"
proof (induction "num - count" arbitrary: count vaddr paddr st rule: less_induct)
  case less
  let ?P = "mmk_pte k" and ?d = "pt_dscr (sp_pt as)"
  note d = sp_okD(1) [OF less.prems(1)]
  show ?case
  proof (cases "count < num")
    case False
    then have "mem_map_loop k as True num f vaddr paddr count st = Some (Inr st)" by (subst mem_map_loop.simps) simp
    with False less.prems(1) show ?thesis by simp
  next
    case True
    have "in_pages as vaddr (num - count) vaddr" using True by (simp add: in_pages_def)
    with less.prems(6) have un: "as_maps k as (mm_pte st) vaddr None" by simp
    have lz: "0 < lvls ?d" by (rule sp_okD(5) [OF less.prems(1)])
    have lt: "(num - count) * 4096 < 2 ^ 64" using va_room_bound [OF d] less.prems(3) unfolding room_def by blast
    have w0: "as_walk k as (mm_pte st) 0 vaddr = Some (pt_root (sp_pt as) + 8 * pt_getpteindex_by_va ?d vaddr 0)" by simp
    from map_descend [OF terminal _ lt less.prems(4) _ less.prems(1) w0 lz _ un, where given = True and paddr = paddr] True less.prems(5)
    consider (exhausted) "mem_map_descend k as True (num - count) vaddr paddr (lvls ?d) 0 st = Inl NULL_DEREF" "exhausted k as False vaddr (num - count) st"
      | (found) p l st1 where "mem_map_descend k as True (num - count) vaddr paddr (lvls ?d) 0 st = Inr (p, l, st1)" "l < lvls ?d"
        "as_end k as (mm_pte st1) vaddr l p" "sp_ok k bits as st1" "sp_step k as st st1"
        "\<forall>va' r. as_maps k as (mm_pte st1) va' r \<longleftrightarrow> as_maps k as (mm_pte st) va' r"
        "lvl_pages ?d l \<le> num - count" "2 ^ (lvl_off ?d ! l) dvd unat vaddr" "2 ^ (lvl_off ?d ! l) dvd unat paddr"
        "spent k as False vaddr (num - count) vaddr (num - count) st st1"
      by auto
    then show ?thesis
    proof cases
      case exhausted
      then have "mem_map_loop k as True num f vaddr paddr count st = Some (Inl NULL_DEREF)"
        using True by (subst mem_map_loop.simps) simp
      with exhausted(2) show ?thesis by simp
    next
      case found
      note l = found(2)
      let ?n = "unat (pt_nentries ?d l) - unat (pt_getpteindex ?d p l)"
      have w: "as_walk k as (mm_pte st1) l vaddr = Some p" using found(3) by (simp add: pt_end_def)
      have n: "0 < ?n" using pteindex_less [OF d l, of p] by simp
      note nb = entries_left [OF d l w]
      from map_entries [OF l f found(4) less.prems(2,3) found(8,9) w nb]
      obtain c st2 where r: "mem_map_entries k as True num f l ?n p vaddr paddr count st1 =
          Inr (vaddr + of_nat c * PAGE_SIZE, paddr + of_nat c * PAGE_SIZE, count + c, st2)"
        and c: "count + c \<le> num" "0 < c" and ok2: "sp_ok k bits as st2" "sp_step k as st1 st2"
        and rm: "remapped k as vaddr paddr c (mm_pte st1) (mm_pte st2)"
        and sp: "spent k as False vaddr (num - count) (vaddr + of_nat c * PAGE_SIZE) (num - (count + c)) st1 st2"
        using n found(7) less.prems(2) by auto
      let ?va = "vaddr + of_nat c * PAGE_SIZE" and ?pa = "paddr + of_nat c * PAGE_SIZE"
      have step: "mem_map_loop k as True num f vaddr paddr count st = mem_map_loop k as True num f ?va ?pa (count + c) st2"
        using True found(1) r by (subst mem_map_loop.simps) simp
      have st02: "sp_step k as st st2" by (rule sp_step_trans [OF found(5) ok2(2)])
      note sp02 = spent_trans [OF found(5) ok2(2) found(10) sp]
      have cl: "c \<le> num - count" using c by simp
      note rs = room_step [OF d less.prems(3) cl]
      have rm02: "remapped k as vaddr paddr c (mm_pte st) (mm_pte st2)" using rm found(6) by (simp add: remapped_def)
      have c4: "4096 dvd unat (of_nat c * PAGE_SIZE)"
      proof -
        have "c * 4096 < 2 ^ 64" using lt mult_le_mono1 [OF cl, of 4096] by simp
        then show ?thesis by (simp add: unat_pages)
      qed
      have "num - (count + c) < num - count" using c True by simp
      moreover have "room as ?va ?pa (num - (count + c))" using rs(1) by simp
      moreover have "4096 dvd unat ?va"
        unfolding unat_word_ariths(1) using less.prems(4) c4 by (simp add: dvd_mod_iff)
      moreover have "4096 dvd unat ?pa" using rs(3) less.prems(5) by simp
      moreover have "\<forall>va'. in_pages as ?va (num - (count + c)) va' \<longrightarrow> as_maps k as (mm_pte st2) va' None"
      proof (intro allI impI)
        fix va' assume i: "in_pages as ?va (num - (count + c)) va'"
        then have "0 < num - (count + c)" by (cases "num - (count + c)") auto
        then have "as_low as ?va = as_low as vaddr + c * 4096" using rs(2) by simp
        with i c have "in_pages as vaddr (num - count) va'" "\<not> in_pages as vaddr c va'" by (auto simp: in_pages_def)
        with less.prems(6) rm02 show "as_maps k as (mm_pte st2) va' None" by (simp add: remapped_def)
      qed
      ultimately have IH: "mem_map_loop k as True num f ?va ?pa (count + c) st2 = Some (Inl NULL_DEREF) \<and> exhausted k as False ?va (num - (count + c)) st2 \<or>
        (\<exists>st'. mem_map_loop k as True num f ?va ?pa (count + c) st2 = Some (Inr st') \<and> sp_ok k bits as st' \<and> sp_step k as st2 st' \<and>
          remapped k as ?va ?pa (num - (count + c)) (mm_pte st2) (mm_pte st'))"
        using less.hyps ok2(1) c(1) by blast
      then show ?thesis
      proof
        assume "mem_map_loop k as True num f ?va ?pa (count + c) st2 = Some (Inl NULL_DEREF) \<and> exhausted k as False ?va (num - (count + c)) st2"
        then show ?thesis using exhausted_step [OF st02 sp02] step by simp
      next
        assume "\<exists>st'. mem_map_loop k as True num f ?va ?pa (count + c) st2 = Some (Inr st') \<and> sp_ok k bits as st' \<and> sp_step k as st2 st' \<and>
          remapped k as ?va ?pa (num - (count + c)) (mm_pte st2) (mm_pte st')"
        then obtain st' where *: "mem_map_loop k as True num f ?va ?pa (count + c) st2 = Some (Inr st')" "sp_ok k bits as st'"
          "sp_step k as st2 st'" "remapped k as ?va ?pa (num - (count + c)) (mm_pte st2) (mm_pte st')" by blast
        have "remapped k as vaddr paddr (c + (num - (count + c))) (mm_pte st) (mm_pte st')"
          by (rule remapped_trans [OF rm02 *(4)]) (use rs(2) in simp)
        moreover have "c + (num - (count + c)) = num - count" using c by simp
        ultimately show ?thesis using * step sp_step_trans [OF st02 *(3)] by auto
      qed
    qed
  qed
qed

lemma mem_map_given:
  assumes terminal: "\<forall>l < lvls (pt_dscr (sp_pt as)). lvl_term (pt_dscr (sp_pt as)) ! l" and f: "flags_ok f"
    and ok: "sp_ok k bits as st" and va: "vaddr = va AND NOT (PAGE_SIZE - 1)"
    and sec: "mem_find_sec k as vaddr = Some s" "mem_find_sec k as (vaddr + of_nat n * PAGE_SIZE - 1) = Some s"
    and pg: "all_clrs (mmk_color_num k) (pa_colors pg)" "4096 dvd unat (pa_base pg)" and room: "room as vaddr (pa_base pg) n"
    and un: "\<And>va'. in_pages as vaddr n va' \<Longrightarrow> as_maps k as (mm_pte st) va' None"
  shows "mem_map_mmu k as va (Some pg) n f st = Inl NULL_DEREF \<and> exhausted k as False vaddr n st \<or>
    (\<exists>st'. mem_map_mmu k as va (Some pg) n f st = Inr (True, st') \<and> sp_ok k bits as st' \<and> sp_step k as st st' \<and>
       remapped k as vaddr (pa_base pg) n (mm_pte st) (mm_pte st'))"
proof -
  have ps: "PAGE_SIZE - 1 = 4095" by (simp add: PAGE_SIZE_def)
  have "unat vaddr = unat va div 4096 * 4096" unfolding va ps unat_page_down ..
  then have "4096 dvd unat vaddr" by simp
  from map_loop [OF terminal f ok le0 _ this pg(2), of n] room un
  have "mem_map_loop k as True n f vaddr (pa_base pg) 0 st = Some (Inl NULL_DEREF) \<and> exhausted k as False vaddr n st \<or>
    (\<exists>st'. mem_map_loop k as True n f vaddr (pa_base pg) 0 st = Some (Inr st') \<and> sp_ok k bits as st' \<and> sp_step k as st st' \<and>
       remapped k as vaddr (pa_base pg) n (mm_pte st) (mm_pte st'))" by simp
  moreover have "mem_map_mmu k as va (Some pg) n f st =
    obind (returned (mem_map_loop k as True n f vaddr (pa_base pg) 0 st)) (\<lambda>st. Inr (True, st))"
    using sec pg(1) by (simp add: mem_map_mmu_def va [symmetric] Let_def)
  ultimately show ?thesis by (auto simp: returned_def)
qed

end

definition riscv_mmu :: "mmu_params \<Rightarrow> mmu_params" where
  "riscv_mmu k = k\<lparr>mmk_pte := riscv_pte_ops\<rparr>"

interpretation riscv_mmu: mmu_format "riscv_mmu k" 56 "\<lambda>f. True" for k
  by (intro mmu_format.intro mmu_format_axioms.intro) (simp_all add: riscv_mmu_def riscv.pte_format_axioms)

lemma sv39_dscr:
  assumes "d \<in> {sv39_pt_dscr, sv39x4_pt_dscr}"
  shows "dscr_ok d" and "\<forall>l < lvls d. lvl_term d ! l" and "lvls d = 3"
proof -
  have a: "(\<forall>l < 3. Q l) \<longleftrightarrow> Q 0 \<and> Q 1 \<and> Q 2" for Q :: "nat \<Rightarrow> bool" by (auto simp: numeral_eq_Suc less_Suc_eq)
  show "dscr_ok d" "\<forall>l < lvls d. lvl_term d ! l" "lvls d = 3"
    using assms by (elim insertE emptyE; simp add: dscr_ok_def sv39_pt_dscr_def sv39x4_pt_dscr_def a)+
qed

end
