(* ===== verification/Mmu_Back.thy ===== *)
theory Mmu_Back
  imports Mmu_Map
begin

text \<open>
  Mapping without given pages, the case of \<open>mem_map\<close> that backs the memory of the machines: every page
  of the range gets a physical page of its own that was free before and that holds no table, and the
  rest of the address space is unchanged, unless the allocator has no page left at some point.
\<close>

section \<open>Pages for data\<close>

lemma data_alloc_cases:
  assumes ok: "pools_ok k bits ps" and n: "0 < n"
  obtains (refused) g where "mem_alloc_ppages (pp_alloc_clr_mmu (mmk_color_num k) (mmk_color_size k)) (mmk_color_num k)
      ps colors n True = Inr (ps, g)" "pa_num g = 0"
      "fst (pools_alloc (mmk_color_num k) (mmk_color_size k) ps (n, colors, True)) = None"
  | (granted) g ps' f where "mem_alloc_ppages (pp_alloc_clr_mmu (mmk_color_num k) (mmk_color_size k)) (mmk_color_num k)
      ps colors n True = Inr (ps', g)" "pa_num g = n" "pools_ok k bits ps'" "pools_frames ps' = pools_frames ps"
      "pools_used ps' = pools_used ps \<union> {f ..< f + n}" "{f ..< f + n} \<subseteq> pools_frames ps - pools_used ps"
      "unat (pa_base g) = f * 4096" "n dvd f" "pools_exact ps \<longrightarrow> pools_exact ps'"
proof -
  let ?cn = "mmk_color_num k" and ?cs = "mmk_color_size k"
  have w: "pools_wf ?cn ?cs ps" "0 < ?cs" "\<forall>p \<in> set ps. pp_wf p" using ok by (auto simp: pools_ok_def pools_wf_def)
  have "pa_num \<lparr>pa_base = 0, pa_num = 0, pa_colors = 0\<rparr> = 0" by simp
  from mem_alloc_loop_result [OF w(2,3) this, of ?cn colors n True]
  obtain ps' g where r: "mem_alloc_ppages (pp_alloc_clr_mmu ?cn ?cs) ?cn ps colors n True = Inr (ps', g)"
    and c: "ps' = ps \<and> pa_num g = 0 \<or>
      (\<exists>us q q' vs. ps = us @ q # vs \<and> ps' = us @ q' # vs \<and> pool_granted ?cn ?cs q q' n g)"
    unfolding mem_alloc_ppages_def by blast
  show thesis
  proof (cases "pa_num g = n")
    case False
    then have z: "ps' = ps" "pa_num g = 0" using c by (auto simp: pool_granted_def)
    with r False show thesis by (intro refused) (auto simp: pools_alloc_def)
  next
    case True
    have a: "pools_alloc ?cn ?cs ps (n, colors, True) = (Some g, ps')" using r True by (simp add: pools_alloc_def)
    let ?f = "unat (pa_base g) div 4096"
    note gr = pools_alloc_granted [OF w(1) a] and al = pools_alloc_aligned [OF w(1) a n] and fs = pools_alloc_first [OF w(1) a n]
    have fr: "pools_frames ps' = pools_frames ps" using pools_alloc_valid [OF w(1) a] by blast
    have G: "grant_frames ?cn ?cs g = {?f ..< ?f + n}" unfolding al(2) ppages_frames_def True by simp
    show thesis
    proof (rule granted [OF r True, of ?f])
      show "pools_ok k bits ps'" using gr ok fr by (simp add: pools_ok_def)
      show "pools_used ps' = pools_used ps \<union> {?f ..< ?f + n}" using gr G by simp
      show "{?f ..< ?f + n} \<subseteq> pools_frames ps - pools_used ps" using gr G by auto
      show "unat (pa_base g) = ?f * 4096" using fs(1) by auto
      show "n dvd ?f" using al(1) by auto
      show "pools_exact ps \<longrightarrow> pools_exact ps'" using pools_alloc_exact [OF w(1) a] by blast
    qed (rule fr)
  qed
qed

section \<open>Ranges that are backed\<close>

text \<open>The \<open>n\<close> pages from \<open>va\<close> on are mapped one to one to the frames \<open>F\<close>.\<close>

definition backed :: "mmu_params \<Rightarrow> mmu_space \<Rightarrow> u64 \<Rightarrow> nat \<Rightarrow> nat set \<Rightarrow> (u64 \<Rightarrow> u64) \<Rightarrow> (u64 \<Rightarrow> u64) \<Rightarrow> bool" where
  "backed k as va n F m m' \<longleftrightarrow>
     (\<forall>va' r. \<not> in_pages as va n va' \<longrightarrow> as_maps k as m' va' r = as_maps k as m va' r) \<and>
     (\<exists>g. inj_on g {..<n} \<and> g ` {..<n} = F \<and>
        (\<forall>va'. in_pages as va n va' \<longrightarrow>
           as_maps k as m' va' (Some (of_nat (g ((as_low as va' - as_low as va) div 4096) * 4096 + (as_low as va' - as_low as va) mod 4096)))))"

lemma backed_0: "(\<And>va' r. as_maps k as m' va' r = as_maps k as m va' r) \<Longrightarrow> backed k as va 0 {} m m'"
  by (simp add: backed_def)

lemma backed_outside: "backed k as va n F m m' \<Longrightarrow> \<not> in_pages as va n va' \<Longrightarrow> as_maps k as m' va' r = as_maps k as m va' r"
  by (simp add: backed_def)

lemma backed_remapped:
  assumes r: "remapped k as va pa n m m'" and pa: "unat pa = f * 4096"
  shows "backed k as va n {f ..< f + n} m m'"
  unfolding backed_def
proof (intro conjI allI impI exI [of _ "\<lambda>i. f + i"])
  show "inj_on (\<lambda>i. f + i) {..<n}" by simp
  show "(\<lambda>i. f + i) ` {..<n} = {f ..< f + n}" by (simp add: lessThan_atLeast0 add.commute)
  fix va' assume "in_pages as va n va'"
  then have "as_maps k as m' va' (Some (pa + of_nat (as_low as va' - as_low as va)))" using r by (simp add: remapped_def)
  moreover have "(f + x div 4096) * 4096 + x mod 4096 = unat pa + x" for x unfolding pa by (simp add: distrib_right)
  then have "of_nat ((f + x div 4096) * 4096 + x mod 4096) = pa + of_nat x" for x by simp
  ultimately show "as_maps k as m' va' (Some (of_nat ((f + (as_low as va' - as_low as va) div 4096) * 4096 + (as_low as va' - as_low as va) mod 4096)))"
    by (simp add: add.commute)
qed (use r in \<open>simp add: remapped_def\<close>)

lemma backed_trans:
  assumes a: "backed k as va n F m m'" and b: "backed k as (va + of_nat n * PAGE_SIZE) n' F' m' m''"
    and low: "0 < n' \<Longrightarrow> as_low as (va + of_nat n * PAGE_SIZE) = as_low as va + n * 4096" and disj: "F \<inter> F' = {}"
  shows "backed k as va (n + n') (F \<union> F') m m''"
proof (cases "n' = 0")
  case True
  with b have "F' = {}" "\<And>va' r. as_maps k as m'' va' r = as_maps k as m' va' r" by (auto simp: backed_def)
  with True a show ?thesis by (simp add: backed_def)
next
  case False
  let ?b = "va + of_nat n * PAGE_SIZE"
  have l: "as_low as ?b = as_low as va + n * 4096" using low False by simp
  obtain g where g: "inj_on g {..<n}" "g ` {..<n} = F"
    "\<And>va'. in_pages as va n va' \<Longrightarrow>
       as_maps k as m' va' (Some (of_nat (g ((as_low as va' - as_low as va) div 4096) * 4096 + (as_low as va' - as_low as va) mod 4096)))"
    using a unfolding backed_def by blast
  obtain g' where g': "inj_on g' {..<n'}" "g' ` {..<n'} = F'"
    "\<And>va'. in_pages as ?b n' va' \<Longrightarrow>
       as_maps k as m'' va' (Some (of_nat (g' ((as_low as va' - as_low as ?b) div 4096) * 4096 + (as_low as va' - as_low as ?b) mod 4096)))"
    using b unfolding backed_def by blast
  define h where "h i = (if i < n then g i else g' (i - n))" for i
  have split: "in_pages as va (n + n') va' \<longleftrightarrow> in_pages as va n va' \<or> in_pages as ?b n' va'"
    "\<not> (in_pages as va n va' \<and> in_pages as ?b n' va')" for va' by (auto simp: in_pages_def l distrib_right)
  have "{..<n + n'} = {..<n} \<union> (\<lambda>i. i + n) ` {..<n'}"
  proof -
    have "i \<in> (\<lambda>i. i + n) ` {..<n'}" if "n \<le> i" "i < n + n'" for i using that by (intro image_eqI [of _ _ "i - n"]) auto
    then show ?thesis by (auto intro: leI)
  qed
  then have "h ` {..<n + n'} = h ` {..<n} \<union> (\<lambda>i. h (i + n)) ` {..<n'}" by (simp add: image_Un image_image)
  also have "\<dots> = F \<union> F'" using g(2) g'(2) by (simp add: h_def)
  finally have im: "h ` {..<n + n'} = F \<union> F'" .
  have inj: "inj_on h {..<n + n'}"
  proof (rule inj_onI)
    fix i j assume i: "i \<in> {..<n + n'}" and j: "j \<in> {..<n + n'}" and e: "h i = h j"
    have in1: "g x \<in> F" if "x < n" for x using g(2) that by blast
    have in2: "g' (x - n) \<in> F'" if "x < n + n'" "n \<le> x" for x
    proof -
      have "x - n < n'" using that by simp
      with g'(2) show ?thesis by blast
    qed
    consider "i < n" "j < n" | "i < n" "n \<le> j" | "n \<le> i" "j < n" | "n \<le> i" "n \<le> j" by linarith
    then show "i = j"
    proof cases
      case 1
      with e g(1) show ?thesis by (simp add: h_def inj_on_def)
    next
      case 2
      with e in1 [of i] in2 [of j] j disj show ?thesis by (auto simp: h_def)
    next
      case 3
      with e in1 [of j] in2 [of i] i disj show ?thesis by (auto simp: h_def)
    next
      case 4
      then have "g' (i - n) = g' (j - n)" "i - n < n'" "j - n < n'" using e i j by (auto simp: h_def)
      with g'(1) have "i - n = j - n" by (simp add: inj_on_def)
      with 4 show ?thesis by simp
    qed
  qed
  show ?thesis unfolding backed_def
  proof (intro conjI allI impI exI [of _ h])
    fix va' r assume "\<not> in_pages as va (n + n') va'"
    then show "as_maps k as m'' va' r = as_maps k as m va' r"
      using split(1) backed_outside [OF a] backed_outside [OF b] by simp
  next
    fix va' assume "in_pages as va (n + n') va'"
    then consider "in_pages as va n va'" "\<not> in_pages as ?b n' va'" | "in_pages as ?b n' va'" using split by blast
    then show "as_maps k as m'' va' (Some (of_nat (h ((as_low as va' - as_low as va) div 4096) * 4096 + (as_low as va' - as_low as va) mod 4096)))"
    proof cases
      case 1
      then have "as_low as va' - as_low as va < n * 4096" unfolding in_pages_def by linarith
      then have "(as_low as va' - as_low as va) div 4096 < n" by (rule less_mult_imp_div_less)
      then show ?thesis using g(3) [OF 1(1)] backed_outside [OF b 1(2)] by (simp add: h_def)
    next
      case 2
      then have x: "as_low as va' - as_low as va = (as_low as va' - as_low as ?b) + n * 4096" by (simp add: in_pages_def l)
      have "(as_low as va' - as_low as va) div 4096 = (as_low as va' - as_low as ?b) div 4096 + n"
        "(as_low as va' - as_low as va) mod 4096 = (as_low as va' - as_low as ?b) mod 4096" unfolding x by simp_all
      with g'(3) [OF 2] show ?thesis by (simp add: h_def)
    qed
  qed (rule inj, rule im)
qed

text \<open>The result of backing \<open>n\<close> pages.\<close>

definition backed_step :: "mmu_params \<Rightarrow> nat \<Rightarrow> mmu_space \<Rightarrow> u64 \<Rightarrow> nat \<Rightarrow> nat set \<Rightarrow> mmu \<Rightarrow> mmu \<Rightarrow> bool" where
  "backed_step k bits as va n F st st' \<longleftrightarrow> sp_ok k bits as st' \<and> sp_step k as st st' \<and> backed k as va n F (mm_pte st) (mm_pte st') \<and>
     F \<subseteq> grown st st' \<and> F \<inter> as_frames k as (mm_pte st') = {}"

lemma backed_step_trans:
  assumes a: "backed_step k bits as va n F st st'" and b: "backed_step k bits as (va + of_nat n * PAGE_SIZE) n' F' st' st''"
    and low: "0 < n' \<Longrightarrow> as_low as (va + of_nat n * PAGE_SIZE) = as_low as va + n * 4096"
  shows "backed_step k bits as va (n + n') (F \<union> F') st st''"
proof -
  have F: "F \<subseteq> pools_used (mm_pools st')" "F' \<inter> pools_used (mm_pools st') = {}"
    using a b by (auto simp: backed_step_def grown_def)
  have u: "pools_used (mm_pools st) \<subseteq> pools_used (mm_pools st')" "pools_used (mm_pools st') \<subseteq> pools_used (mm_pools st'')"
    using a b unfolding backed_step_def sp_step_def by blast+
  have fr: "as_frames k as (mm_pte st'') \<subseteq> as_frames k as (mm_pte st') \<union> grown st' st''"
    using b unfolding backed_step_def sp_step_def by blast
  have "backed k as va (n + n') (F \<union> F') (mm_pte st) (mm_pte st'')"
    using a b F by (intro backed_trans low) (auto simp: backed_step_def)
  moreover have "sp_step k as st st''" using a b sp_step_trans unfolding backed_step_def by blast
  moreover have "F \<union> F' \<subseteq> grown st st''" using a b u by (auto simp: backed_step_def grown_def)
  moreover have "(F \<union> F') \<inter> as_frames k as (mm_pte st'') = {}"
  proof -
    have "F \<inter> as_frames k as (mm_pte st'') = {}" using fr F(1) a by (auto simp: backed_step_def grown_def)
    then show ?thesis using b by (auto simp: backed_step_def)
  qed
  ultimately show ?thesis using b by (simp add: backed_step_def)
qed

lemma backed_step_same:
  assumes "sp_ok k bits as st'" and "sp_step k as st st'" and "\<And>va' r. as_maps k as (mm_pte st') va' r = as_maps k as (mm_pte st) va' r"
  shows "backed_step k bits as va 0 {} st st'"
  using assms by (simp add: backed_step_def backed_0)

context mmu_format
begin

text \<open>An entry that is given pages of its own.\<close>

lemma back_leaf:
  assumes ok: "sp_ok k bits as st" and l: "l < lvls (pt_dscr (sp_pt as))" and w: "as_walk k as (mm_pte st) l va = Some p"
    and f: "flags_ok fl" and va: "2 ^ (lvl_off (pt_dscr (sp_pt as)) ! l) dvd unat va"
  defines "n \<equiv> lvl_pages (pt_dscr (sp_pt as)) l"
  assumes ps: "pools_ok k bits ps" "pools_frames ps = pools_frames (mm_pools st)"
    "pools_used ps = pools_used (mm_pools st) \<union> {a ..< a + n}" "{a ..< a + n} \<subseteq> pools_frames (mm_pools st) - pools_used (mm_pools st)"
    and pa: "unat pa = a * 4096" "n dvd a" and ex: "pools_exact (mm_pools st) \<longrightarrow> pools_exact ps"
  defines "st' \<equiv> st\<lparr>mm_pools := ps, mm_pte := (mm_pte st)(p := pte_set (mmk_pte k) pa (pt_page_type (mmk_pte k) (pt_dscr (sp_pt as)) l) fl)\<rparr>"
  shows "backed_step k bits as va n {a ..< a + n} st st'" and "as_walk k as (mm_pte st') l va' = as_walk k as (mm_pte st) l va'"
    and "Suc l' < lvls (pt_dscr (sp_pt as)) \<Longrightarrow> as_blk as l va' \<noteq> as_blk as l va \<Longrightarrow>
      (l', as_blk as l' va') \<in> as_tabs k as (mm_pte st') \<longleftrightarrow> (l', as_blk as l' va') \<in> as_tabs k as (mm_pte st)"
    and "card (grown st st') = n"
proof -
  let ?d = "pt_dscr (sp_pt as)" and ?st = "st\<lparr>mm_pools := ps\<rparr>"
  note d = sp_okD(1) [OF ok]
  note pg = lvl_pages [OF d l, folded n_def]
  have fr: "as_frames k as (mm_pte st) \<inter> {a ..< a + n} = {}" using sp_okD(4) [OF ok] ps(4) by auto
  have ok1: "sp_ok k bits as ?st" using ok ps by (auto simp: sp_ok_def)
  have step1: "sp_step k as st ?st" using ps ex by (auto simp: sp_step_def grown_def)
  have w1: "as_walk k as (mm_pte ?st) l va = Some p" using w by simp
  have "a \<in> {a ..< a + n}" using pg(3) by simp
  then have "a \<in> pools_frames ps" using ps(2,4) by blast
  then have lt: "a < 2 ^ (bits - 12)" and "0 < a" using ps(1) by (auto simp: pools_ok_def)
  then have b12: "12 \<le> bits" using lt by (cases "12 \<le> bits") auto
  then have "(2 :: nat) ^ bits = 2 ^ (bits - 12) * 4096" using power_add [of "2 :: nat" "bits - 12" 12] by simp
  then have phys: "pte_phys bits pa" using lt pa by (simp add: pte_phys_def)
  have al: "2 ^ (lvl_off ?d ! l) dvd unat pa" unfolding pa pg(2) [symmetric] using pa(2) by (simp add: mult_dvd_mono)
  note sl = set_leaf [OF ok1 l w1 f phys al va]
  have st': "st' = ?st\<lparr>mm_pte := (mm_pte ?st)(p := pte_set (mmk_pte k) pa (pt_page_type (mmk_pte k) ?d l) fl)\<rparr>"
    by (simp add: st'_def)
  have "as_frames k as (mm_pte st') \<subseteq> as_frames k as (mm_pte st)"
    using sl(2) by (simp add: st' sp_step_def grown_def)
  then have "{a ..< a + n} \<inter> as_frames k as (mm_pte st') = {}" using fr by blast
  moreover have "{a ..< a + n} \<subseteq> grown st st'" using ps(3,4) by (auto simp: grown_def st'_def)
  moreover have "backed k as va n {a ..< a + n} (mm_pte st) (mm_pte st')"
    using backed_remapped [OF sl(3) pa(1)] by (simp add: st' n_def)
  moreover have "sp_step k as st st'" using sp_step_trans [OF step1 sl(2)] by (simp add: st')
  ultimately show "backed_step k bits as va n {a ..< a + n} st st'" using sl(1) by (simp add: backed_step_def st')
  show "as_walk k as (mm_pte st') l va' = as_walk k as (mm_pte st) l va'" using sl(4) [of va'] by (simp add: st')
  show "(l', as_blk as l' va') \<in> as_tabs k as (mm_pte st') \<longleftrightarrow> (l', as_blk as l' va') \<in> as_tabs k as (mm_pte st)"
    if "Suc l' < lvls ?d" "as_blk as l va' \<noteq> as_blk as l va"
    using sl(5) [OF that] by (simp add: st')
  have "grown st st' = {a ..< a + n}" using ps(3,4) by (auto simp: grown_def st'_def)
  then show "card (grown st st') = n" by simp
qed

lemma entries_back:
  assumes l: "l < lvls (pt_dscr (sp_pt as))" and f: "flags_ok f"
  defines "sz \<equiv> lvl_pages (pt_dscr (sp_pt as)) l"
  shows "sp_ok k bits as st \<Longrightarrow> count \<le> num \<Longrightarrow> va_room as vaddr (num - count) \<Longrightarrow>
    2 ^ (lvl_off (pt_dscr (sp_pt as)) ! l) dvd unat vaddr \<Longrightarrow>
    (0 < n \<Longrightarrow> count < num \<Longrightarrow> as_walk k as (mm_pte st) l vaddr = Some pte) \<Longrightarrow>
    (0 < l \<Longrightarrow> count < num \<Longrightarrow> n + as_blk as l vaddr mod 512 \<le> 512) \<Longrightarrow>
    (count < num \<Longrightarrow> as_maps k as (mm_pte st) vaddr None) \<Longrightarrow>
    (\<And>va'. in_pages as vaddr (num - count) va' \<Longrightarrow> as_maps k as (mm_pte st) va' None) \<Longrightarrow>
    exhausted k as True vaddr (num - count) st \<or>
    (\<exists>c pa st' F. mem_map_entries k as False num f l n pte vaddr paddr count st =
        Inr (vaddr + of_nat c * PAGE_SIZE, pa, count + c, st') \<and>
      count + c \<le> num \<and> backed_step k bits as vaddr c F st st' \<and>
      spent k as True vaddr (num - count) (vaddr + of_nat c * PAGE_SIZE) (num - (count + c)) st st' \<and>
      (0 < n \<longrightarrow> count + sz \<le> num \<longrightarrow> 0 < c \<or> (\<forall>l0 q. as_end k as (mm_pte st') vaddr l0 q \<longrightarrow> l < l0)))"
proof (induction n arbitrary: pte vaddr paddr count st)
  case 0
  then show ?case by (intro disjI2 exI [of _ 0] exI [of _ paddr] exI [of _ st] exI [of _ "{}"]) (simp add: backed_step_same)
next
  case (Suc n)
  let ?P = "mmk_pte k" and ?d = "pt_dscr (sp_pt as)"
  note ok = Suc.prems(1) and d = sp_okD(1) [OF Suc.prems(1)] and t = sp_okD(2) [OF Suc.prems(1)]
  note pg = lvl_pages [OF d l, folded sz_def]
  show ?case
  proof (cases "count < num \<and> num - count \<ge> sz")
    case False
    then have "\<not> count + sz \<le> num" using Suc.prems(2) pg(3) by linarith
    then show ?thesis using False Suc.prems(1,2)
      by (intro disjI2 exI [of _ 0] exI [of _ paddr] exI [of _ st] exI [of _ "{}"]) (simp add: pg(1) backed_step_same del: not_less not_le)
  next
    case True
    then have cs: "count + sz \<le> num" and c: "count < num" by linarith+
    have w: "as_walk k as (mm_pte st) l vaddr = Some pte" using Suc.prems(5) c by simp
    have p0: "pte \<noteq> 0" by (rule pt_treeD(2) [OF t l w])
    have gp: "pt_get_pte ?P (mm_pte st) (sp_pt as) l vaddr = pte" by (rule as_get_pte [OF ok l w])
    show ?thesis
    proof (rule data_alloc_cases [OF sp_okD(3) [OF ok] pg(3), of "sp_colors as"])
      fix g assume g: "mem_alloc_ppages (pp_alloc_clr_mmu (mmk_color_num k) (mmk_color_size k)) (mmk_color_num k)
          (mm_pools st) (sp_colors as) sz True = Inr (mm_pools st, g)" "pa_num g = 0"
        "fst (pools_alloc (mmk_color_num k) (mmk_color_size k) (mm_pools st) (sz, sp_colors as, True)) = None"
      show ?thesis
      proof (cases "l = lvls ?d - 1")
        case True
        have "sz = 1" using True off_last [OF d] by (simp add: sz_def lvl_pages_def)
        moreover have "card (grown st st) < need k as True vaddr (num - count) st" using c by (simp add: grown_def need_def)
        moreover have "pools_wf (mmk_color_num k) (mmk_color_size k) (mm_pools st)"
          using sp_okD(3) [OF ok] by (simp add: pools_ok_def)
        ultimately show ?thesis using g(3) sp_step_refl unfolding exhausted_def by metis
      next
        case False
        then have sl: "Suc l < lvls ?d" using l by simp
        have body: "mem_map_entries k as False num f l (Suc n) pte vaddr paddr count st =
          (if \<not> pte_valid ?P (mm_pte st pte) then obind (mem_alloc_pt k as pte l vaddr st) (\<lambda>(_, st). Inr (vaddr, paddr, count, st))
           else Inr (vaddr, paddr, count, st))"
          using True g pg(3) False p0 by (auto simp: pg(1) gp obind_def split: sum.splits)
        show ?thesis
        proof (cases "pte_valid ?P (mm_pte st pte)")
          case val: True
          have nend: "l < l0" if e: "as_end k as (mm_pte st) vaddr l0 q" for l0 q
          proof -
            have "\<not> l0 < l" using walk_prefix [OF w, of l0] e by (auto simp: pt_end_def)
            moreover have "l0 \<noteq> l" using maps_None_end [OF e] Suc.prems(7) c e w val by (auto simp: pt_end_def)
            ultimately show ?thesis by simp
          qed
          have "mem_map_entries k as False num f l (Suc n) pte vaddr paddr count st = Inr (vaddr, paddr, count, st)"
            using body val by simp
          then show ?thesis using nend Suc.prems(2) ok
            by (intro disjI2 exI [of _ 0] exI [of _ paddr] exI [of _ st] exI [of _ "{}"]) (simp add: backed_step_same)
        next
          case inv: False
          have e: "as_end k as (mm_pte st) vaddr l pte" using w l inv by (simp add: pt_end_def)
          show ?thesis
          proof (rule alloc_pt_empty [OF ok e sl inv])
            assume "pt_refused k as (mm_pools st)"
            then have "exhausted k as True vaddr (num - count) st" using exhausted_here [OF ok e sl] c by simp
            then show ?thesis by blast
          next
            fix A st1 q
            assume r: "mem_alloc_pt k as pte l vaddr st = Inr (A, st1)" "sp_ok k bits as st1" "sp_step k as st st1"
              "\<And>va' r. as_maps k as (mm_pte st1) va' r \<longleftrightarrow> as_maps k as (mm_pte st) va' r"
              and e1: "as_end k as (mm_pte st1) vaddr (Suc l) q"
              and tb: "as_tabs k as (mm_pte st1) = insert (l, as_blk as l vaddr) (as_tabs k as (mm_pte st))"
                "(l, as_blk as l vaddr) \<notin> as_tabs k as (mm_pte st)" and g1: "card (grown st st1) = 1"
            have "spent k as True vaddr (num - count) vaddr (num - count) st st1"
              using spent_table [OF _ sl tb(2,1) g1] c by simp
            moreover have "mem_map_entries k as False num f l (Suc n) pte vaddr paddr count st = Inr (vaddr, paddr, count, st1)"
              using body inv r(1) by simp
            moreover have "l < l0" if "as_end k as (mm_pte st1) vaddr l0 q'" for l0 q' using end_unique [OF e1 that] by simp
            ultimately show ?thesis using Suc.prems(2) r(2-4)
              by (intro disjI2 exI [of _ 0] exI [of _ paddr] exI [of _ st1] exI [of _ "{}"]) (simp add: backed_step_same)
          qed
        qed
      qed
    next
      fix g ps a
      assume g: "mem_alloc_ppages (pp_alloc_clr_mmu (mmk_color_num k) (mmk_color_size k)) (mmk_color_num k)
          (mm_pools st) (sp_colors as) sz True = Inr (ps, g)" "pa_num g = sz" and ps: "pools_ok k bits ps"
        "pools_frames ps = pools_frames (mm_pools st)" "pools_used ps = pools_used (mm_pools st) \<union> {a ..< a + sz}"
        "{a ..< a + sz} \<subseteq> pools_frames (mm_pools st) - pools_used (mm_pools st)" and ga: "unat (pa_base g) = a * 4096" "sz dvd a"
        and ex: "pools_exact (mm_pools st) \<longrightarrow> pools_exact ps"
      define st1 where "st1 = st\<lparr>mm_pools := ps, mm_pte := (mm_pte st)(pte := pte_set ?P (pa_base g) (pt_page_type ?P ?d l) f)\<rparr>"
      let ?va = "vaddr + of_nat sz * PAGE_SIZE" and ?pa = "pa_base g + pt_lvlsize ?d l"
      note bl = back_leaf [OF ok l w f Suc.prems(4), folded sz_def, OF ps ga ex, folded st1_def]
      have ok1: "sp_ok k bits as st1" using bl(1) by (simp add: backed_step_def)
      have nb: "Suc n + as_blk as l vaddr mod 512 \<le> 512" if "0 < l" using Suc.prems(6) that c by simp
      have szm: "lvl_pages ?d l \<le> num - count" using True by (simp add: sz_def)
      note es = entry_step [OF d l Suc.prems(3) szm Suc.prems(4) w nb, folded sz_def]
        and vr = va_room_step [OF d Suc.prems(3) szm, folded sz_def]
      have un: "as_maps k as (mm_pte st1) va' None" if i: "in_pages as ?va (num - (count + sz)) va'" for va'
      proof -
        have lt: "sz < num - count" using i by (cases "num - (count + sz)") auto
        with i vr(2) cs have "in_pages as vaddr (num - count) va'" "\<not> in_pages as vaddr sz va'" by (auto simp: in_pages_def)
        then show ?thesis using Suc.prems(8) backed_outside [of k as vaddr sz _ "mm_pte st" "mm_pte st1"] bl(1)
          unfolding backed_step_def by blast
      qed
      have sp1: "spent k as True vaddr (num - count) ?va (num - (count + sz)) st st1"
        using spent_entry [OF d l Suc.prems(3) szm Suc.prems(4) bl(3)] bl(4) by (simp add: sz_def)
      have "exhausted k as True ?va (num - (count + sz)) st1 \<or>
        (\<exists>c pa st' F. mem_map_entries k as False num f l n (pte + 8) ?va ?pa (count + sz) st1 =
          Inr (?va + of_nat c * PAGE_SIZE, pa, count + sz + c, st') \<and>
        count + sz + c \<le> num \<and> backed_step k bits as ?va c F st1 st' \<and>
        spent k as True ?va (num - (count + sz)) (?va + of_nat c * PAGE_SIZE) (num - (count + sz + c)) st1 st' \<and>
        (0 < n \<longrightarrow> count + sz + sz \<le> num \<longrightarrow> 0 < c \<or> (\<forall>l0 q. as_end k as (mm_pte st') ?va l0 q \<longrightarrow> l < l0)))"
      proof (rule Suc.IH [OF ok1 cs _ es(1)])
        show "va_room as ?va (num - (count + sz))" using vr(1) by simp
        show "as_walk k as (mm_pte st1) l ?va = Some (pte + 8)" if "0 < n" "count + sz < num"
          using es(2) that bl(2) [of ?va] by simp
        show "n + as_blk as l ?va mod 512 \<le> 512" if "0 < l" "count + sz < num" using es(3) that by simp
        show "as_maps k as (mm_pte st1) ?va None" if "count + sz < num"
          using that by (intro un) (simp add: in_pages_def)
      qed (assumption | rule un)+
      then show ?thesis
      proof
        assume "exhausted k as True ?va (num - (count + sz)) st1"
        moreover have "sp_step k as st st1" using bl(1) by (simp add: backed_step_def)
        ultimately show ?thesis using exhausted_step sp1 by blast
      next
        assume "\<exists>c pa st' F. mem_map_entries k as False num f l n (pte + 8) ?va ?pa (count + sz) st1 =
            Inr (?va + of_nat c * PAGE_SIZE, pa, count + sz + c, st') \<and>
          count + sz + c \<le> num \<and> backed_step k bits as ?va c F st1 st' \<and>
          spent k as True ?va (num - (count + sz)) (?va + of_nat c * PAGE_SIZE) (num - (count + sz + c)) st1 st' \<and>
          (0 < n \<longrightarrow> count + sz + sz \<le> num \<longrightarrow> 0 < c \<or> (\<forall>l0 q. as_end k as (mm_pte st') ?va l0 q \<longrightarrow> l < l0))"
        then obtain e pa st' F where r: "mem_map_entries k as False num f l n (pte + 8) ?va ?pa (count + sz) st1 =
            Inr (?va + of_nat e * PAGE_SIZE, pa, count + sz + e, st')"
          and le: "count + sz + e \<le> num" and bs: "backed_step k bits as ?va e F st1 st'"
          and sp: "spent k as True ?va (num - (count + sz)) (?va + of_nat e * PAGE_SIZE) (num - (count + sz + e)) st1 st'" by blast
        have "sp_step k as st st1" "sp_step k as st1 st'" using bl(1) bs by (simp_all add: backed_step_def)
        from spent_trans [OF this sp1 sp] have sp2: "spent k as True vaddr (num - count) (vaddr + of_nat (sz + e) * PAGE_SIZE) (num - (count + (sz + e))) st st'"
          by (simp add: distrib_right add.assoc)
        have "mem_map_entries k as False num f l (Suc n) pte vaddr paddr count st =
            mem_map_entries k as False num f l n (pte + 8) ?va ?pa (count + sz) st1"
          using True g by (simp add: pg(1) st1_def Let_def flip: pg(4))
        with r have "mem_map_entries k as False num f l (Suc n) pte vaddr paddr count st =
            Inr (vaddr + of_nat (sz + e) * PAGE_SIZE, pa, count + (sz + e), st')"
          by (simp add: distrib_right add.assoc)
        moreover have "backed_step k bits as vaddr (sz + e) ({a ..< a + sz} \<union> F) st st'"
          by (rule backed_step_trans [OF bl(1) bs]) (use vr(2) le in simp)
        ultimately show ?thesis using le pg(3) sp2
          by (intro disjI2 exI [of _ "sz + e"] exI [of _ pa] exI [of _ st'] exI [of _ "{a ..< a + sz} \<union> F"]) simp
      qed
    qed
  qed
qed

text \<open>One round of the outer loop: it maps pages, or a table was added for the next address.\<close>

lemma back_round:
  assumes terminal: "\<forall>l < lvls (pt_dscr (sp_pt as)). lvl_term (pt_dscr (sp_pt as)) ! l" and f: "flags_ok f"
    and ok: "sp_ok k bits as st" and c: "count < num" and room: "va_room as vaddr (num - count)" and va: "4096 dvd unat vaddr"
    and un: "\<And>va'. in_pages as vaddr (num - count) va' \<Longrightarrow> as_maps k as (mm_pte st) va' None"
    and e: "as_end k as (mm_pte st) vaddr e q"
  shows "exhausted k as True vaddr (num - count) st \<or>
    (\<exists>n pa st' F. mem_map_loop k as False num f vaddr paddr count st =
        mem_map_loop k as False num f (vaddr + of_nat n * PAGE_SIZE) pa (count + n) st' \<and>
      count + n \<le> num \<and> backed_step k bits as vaddr n F st st' \<and>
      spent k as True vaddr (num - count) (vaddr + of_nat n * PAGE_SIZE) (num - (count + n)) st st' \<and>
      (0 < n \<or> (\<forall>e' q. as_end k as (mm_pte st') vaddr e' q \<longrightarrow> e < e')))"
proof -
  let ?d = "pt_dscr (sp_pt as)"
  note d = sp_okD(1) [OF ok]
  have "in_pages as vaddr (num - count) vaddr" using c by (simp add: in_pages_def)
  with un have unv: "as_maps k as (mm_pte st) vaddr None" by simp
  have lz: "0 < lvls ?d" by (rule sp_okD(5) [OF ok])
  have w0: "as_walk k as (mm_pte st) 0 vaddr = Some (pt_root (sp_pt as) + 8 * pt_getpteindex_by_va ?d vaddr 0)" by simp
  have left: "0 < num - count" using c by simp
  from map_descend [OF terminal left va_room_bound [OF d room] va _ ok w0 lz _ unv, where given = False and paddr = paddr]
  consider (exhausted) "exhausted k as False vaddr (num - count) st"
    | (found) p l st1 where "mem_map_descend k as False (num - count) vaddr paddr (lvls ?d) 0 st = Inr (p, l, st1)" "l < lvls ?d"
      "as_end k as (mm_pte st1) vaddr l p" "sp_ok k bits as st1" "sp_step k as st st1"
      "\<forall>va' r. as_maps k as (mm_pte st1) va' r \<longleftrightarrow> as_maps k as (mm_pte st) va' r"
      "lvl_pages ?d l \<le> num - count" "2 ^ (lvl_off ?d ! l) dvd unat vaddr" "\<forall>l0 q. as_end k as (mm_pte st) vaddr l0 q \<longrightarrow> l0 \<le> l"
      "spent k as False vaddr (num - count) vaddr (num - count) st st1"
    by auto
  then show ?thesis
  proof cases
    case exhausted
    then show ?thesis using exhausted_data by blast
  next
    case found
    note l = found(2)
    let ?n = "unat (pt_nentries ?d l) - unat (pt_getpteindex ?d p l)"
    have w: "as_walk k as (mm_pte st1) l vaddr = Some p" using found(3) by (simp add: pt_end_def)
    have n: "0 < ?n" using pteindex_less [OF d l, of p] by simp
    have "exhausted k as True vaddr (num - count) st1 \<or>
      (\<exists>n pa st' F. mem_map_entries k as False num f l ?n p vaddr paddr count st1 =
          Inr (vaddr + of_nat n * PAGE_SIZE, pa, count + n, st') \<and>
        count + n \<le> num \<and> backed_step k bits as vaddr n F st1 st' \<and>
        spent k as True vaddr (num - count) (vaddr + of_nat n * PAGE_SIZE) (num - (count + n)) st1 st' \<and>
        (0 < ?n \<longrightarrow> count + lvl_pages ?d l \<le> num \<longrightarrow> 0 < n \<or> (\<forall>l0 q. as_end k as (mm_pte st') vaddr l0 q \<longrightarrow> l < l0)))"
    proof (rule entries_back [OF l f found(4) _ room found(8) w entries_left [OF d l w]])
      show "as_maps k as (mm_pte st1) vaddr None" using unv found(6) by simp
      show "as_maps k as (mm_pte st1) va' None" if "in_pages as vaddr (num - count) va'" for va' using un [OF that] found(6) by simp
    qed (use c in auto)
    then show ?thesis
    proof
      assume "exhausted k as True vaddr (num - count) st1"
      then show ?thesis using exhausted_step [OF found(5) spent_same [OF found(10)]] by blast
    next
      assume "\<exists>n pa st' F. mem_map_entries k as False num f l ?n p vaddr paddr count st1 =
          Inr (vaddr + of_nat n * PAGE_SIZE, pa, count + n, st') \<and>
        count + n \<le> num \<and> backed_step k bits as vaddr n F st1 st' \<and>
        spent k as True vaddr (num - count) (vaddr + of_nat n * PAGE_SIZE) (num - (count + n)) st1 st' \<and>
        (0 < ?n \<longrightarrow> count + lvl_pages ?d l \<le> num \<longrightarrow> 0 < n \<or> (\<forall>l0 q. as_end k as (mm_pte st') vaddr l0 q \<longrightarrow> l < l0))"
      then obtain m pa st' F where r: "mem_map_entries k as False num f l ?n p vaddr paddr count st1 =
          Inr (vaddr + of_nat m * PAGE_SIZE, pa, count + m, st')"
        and le: "count + m \<le> num" and bs: "backed_step k bits as vaddr m F st1 st'"
        and sp: "spent k as True vaddr (num - count) (vaddr + of_nat m * PAGE_SIZE) (num - (count + m)) st1 st'"
        and prog: "0 < m \<or> (\<forall>l0 q. as_end k as (mm_pte st') vaddr l0 q \<longrightarrow> l < l0)"
        using n found(7) c by auto
      have "mem_map_loop k as False num f vaddr paddr count st =
          mem_map_loop k as False num f (vaddr + of_nat m * PAGE_SIZE) pa (count + m) st'"
        using c found(1) r by (subst mem_map_loop.simps) simp
      moreover have "backed_step k bits as vaddr m F st st'"
      proof -
        have "backed_step k bits as vaddr 0 {} st st1" using found(4-6) by (intro backed_step_same) auto
        from backed_step_trans [OF this, of m F st'] bs show ?thesis by simp
      qed
      moreover have "spent k as True vaddr (num - count) (vaddr + of_nat m * PAGE_SIZE) (num - (count + m)) st st'"
        using spent_trans [OF found(5) _ spent_same [OF found(10)] sp] bs by (simp add: backed_step_def)
      moreover have "e \<le> l" using found(9) e by blast
      ultimately show ?thesis using le prog
        by (intro disjI2 exI [of _ m] exI [of _ pa] exI [of _ st'] exI [of _ F]) (auto intro: le_less_trans)
    qed
  qed
qed

lemma loop_back:
  assumes terminal: "\<forall>l < lvls (pt_dscr (sp_pt as)). lvl_term (pt_dscr (sp_pt as)) ! l" and f: "flags_ok f"
  shows "sp_ok k bits as st \<Longrightarrow> count \<le> num \<Longrightarrow> va_room as vaddr (num - count) \<Longrightarrow> 4096 dvd unat vaddr \<Longrightarrow>
    \<forall>va'. in_pages as vaddr (num - count) va' \<longrightarrow> as_maps k as (mm_pte st) va' None \<Longrightarrow> as_end k as (mm_pte st) vaddr e q \<Longrightarrow>
    exhausted k as True vaddr (num - count) st \<or>
    (\<exists>st' F. mem_map_loop k as False num f vaddr paddr count st = Some (Inr st') \<and> backed_step k bits as vaddr (num - count) F st st')"
proof (induction "(num - count) * 5 + (lvls (pt_dscr (sp_pt as)) - e)" arbitrary: count vaddr paddr st e q rule: less_induct)
  case less
  let ?d = "pt_dscr (sp_pt as)"
  note ok = less.prems(1) and d = sp_okD(1) [OF less.prems(1)]
  show ?case
  proof (cases "count < num")
    case False
    then have "mem_map_loop k as False num f vaddr paddr count st = Some (Inr st)" by (subst mem_map_loop.simps) simp
    with False ok show ?thesis by (intro disjI2 exI [of _ st] exI [of _ "{}"]) (simp add: backed_step_same)
  next
    case True
    from back_round [OF terminal f ok True less.prems(3,4) _ less.prems(6), of paddr] less.prems(5)
    consider "exhausted k as True vaddr (num - count) st" | n pa st1 F where "mem_map_loop k as False num f vaddr paddr count st =
        mem_map_loop k as False num f (vaddr + of_nat n * PAGE_SIZE) pa (count + n) st1"
      "count + n \<le> num" "backed_step k bits as vaddr n F st st1" "0 < n \<or> (\<forall>e' q. as_end k as (mm_pte st1) vaddr e' q \<longrightarrow> e < e')"
      "spent k as True vaddr (num - count) (vaddr + of_nat n * PAGE_SIZE) (num - (count + n)) st st1"
      by blast
    then show ?thesis
    proof cases
      case 2
      let ?va = "vaddr + of_nat n * PAGE_SIZE"
      have ok1: "sp_ok k bits as st1" and step: "sp_step k as st st1" using 2(3) by (simp_all add: backed_step_def)
      have nl: "n \<le> num - count" using 2(2) by simp
      note vr = va_room_step [OF d less.prems(3) nl]
      obtain e1 q1 where e1: "as_end k as (mm_pte st1) ?va e1 q1" by (rule end_exists [OF sp_okD(1,2) [OF ok1]])
      have lt: "(num - (count + n)) * 5 + (lvls ?d - e1) < (num - count) * 5 + (lvls ?d - e)"
      proof (cases "n = 0")
        case True
        with 2(4) e1 have "e < e1" by auto
        moreover have "e1 < lvls ?d" using e1 by (simp add: pt_end_def)
        ultimately show ?thesis using True by simp
      next
        case False
        moreover have "lvls ?d \<le> 4" using d by (simp add: dscr_ok_def)
        moreover have "(num - (count + n)) + n = num - count" using nl by simp
        ultimately show ?thesis by linarith
      qed
      have "va_room as ?va (num - (count + n))" using vr(1) by simp
      moreover have "4096 dvd unat ?va"
        unfolding unat_word_ariths(1) using less.prems(4) vr(3) by (simp add: dvd_mod_iff)
      moreover have "\<forall>va'. in_pages as ?va (num - (count + n)) va' \<longrightarrow> as_maps k as (mm_pte st1) va' None"
      proof (intro allI impI)
        fix va' assume i: "in_pages as ?va (num - (count + n)) va'"
        then have "n < num - count" by (cases "num - (count + n)") auto
        with i vr(2) 2(2) have "in_pages as vaddr (num - count) va'" "\<not> in_pages as vaddr n va'" by (auto simp: in_pages_def)
        with less.prems(5) 2(3) show "as_maps k as (mm_pte st1) va' None"
          using backed_outside unfolding backed_step_def by blast
      qed
      ultimately have IH: "exhausted k as True ?va (num - (count + n)) st1 \<or> (\<exists>st' F. mem_map_loop k as False num f ?va pa (count + n) st1 = Some (Inr st') \<and>
          backed_step k bits as ?va (num - (count + n)) F st1 st')"
        by (rule less.hyps [OF lt ok1 2(2) _ _ _ e1])
      then show ?thesis
      proof
        assume "exhausted k as True ?va (num - (count + n)) st1"
        then show ?thesis using exhausted_step [OF step 2(5)] by blast
      next
        assume "\<exists>st' F. mem_map_loop k as False num f ?va pa (count + n) st1 = Some (Inr st') \<and>
          backed_step k bits as ?va (num - (count + n)) F st1 st'"
        then obtain st' F' where r: "mem_map_loop k as False num f ?va pa (count + n) st1 = Some (Inr st')"
          "backed_step k bits as ?va (num - (count + n)) F' st1 st'" by blast
        have "backed_step k bits as vaddr (n + (num - (count + n))) (F \<union> F') st st'"
          by (rule backed_step_trans [OF 2(3) r(2)]) (use vr(2) in simp)
        moreover have "n + (num - (count + n)) = num - count" using nl by simp
        ultimately show ?thesis using r(1) 2(1) by auto
      qed
    qed simp
  qed
qed

lemma mem_map_backed:
  assumes terminal: "\<forall>l < lvls (pt_dscr (sp_pt as)). lvl_term (pt_dscr (sp_pt as)) ! l" and f: "flags_ok f"
    and ok: "sp_ok k bits as st" and va: "vaddr = va AND NOT (PAGE_SIZE - 1)"
    and sec: "mem_find_sec k as vaddr = Some s" "mem_find_sec k as (vaddr + of_nat n * PAGE_SIZE - 1) = Some s"
    and clr: "all_clrs (mmk_color_num k) (sp_colors as)" and room: "va_room as vaddr n"
    and un: "\<And>va'. in_pages as vaddr n va' \<Longrightarrow> as_maps k as (mm_pte st) va' None"
  shows "exhausted k as True vaddr n st \<or>
    (\<exists>st' F. mem_map_mmu k as va None n f st = Inr (True, st') \<and> backed_step k bits as vaddr n F st st')"
proof -
  have ps: "PAGE_SIZE - 1 = 4095" by (simp add: PAGE_SIZE_def)
  have "unat vaddr = unat va div 4096 * 4096" unfolding va ps unat_page_down ..
  then have al: "4096 dvd unat vaddr" by simp
  obtain e q where e: "as_end k as (mm_pte st) vaddr e q" by (rule end_exists [OF sp_okD(1,2) [OF ok]])
  from loop_back [OF terminal f ok le0 _ al _ e, of n 0] room un
  have "exhausted k as True vaddr n st \<or>
    (\<exists>st' F. mem_map_loop k as False n f vaddr 0 0 st = Some (Inr st') \<and> backed_step k bits as vaddr n F st st')" by simp
  moreover have "mem_map_mmu k as va None n f st =
    obind (returned (mem_map_loop k as False n f vaddr 0 0 st)) (\<lambda>st. Inr (True, st))"
    using sec clr by (simp add: mem_map_mmu_def va [symmetric] Let_def)
  ultimately show ?thesis by (auto simp: returned_def)
qed

end

end
