(* ===== verification/Mmu_Vpage.thy ===== *)
theory Mmu_Vpage
  imports Mmu_Back
begin

text \<open>
  Allocating virtual pages at a given address, \<open>mem_alloc_vpage\<close>: the search only adds tables, so no
  translation changes; when it succeeds none of the pages was mapped or reserved before and all of them
  are reserved after. \<open>mem_alloc_map\<close> then maps them.
\<close>

section \<open>Ranges made of whole entries\<close>

text \<open>The pages found so far are whole blocks of the entries at which their walks end.\<close>

definition tiled :: "mmu_params \<Rightarrow> mmu_space \<Rightarrow> (u64 \<Rightarrow> u64) \<Rightarrow> u64 \<Rightarrow> nat \<Rightarrow> bool" where
  "tiled k as m va n \<longleftrightarrow>
     (\<forall>va' l p va''. in_pages as va n va' \<longrightarrow> as_end k as m va' l p \<longrightarrow> as_blk as l va'' = as_blk as l va' \<longrightarrow> in_pages as va n va'')"

definition same_space :: "mmu_params \<Rightarrow> mmu_space \<Rightarrow> mmu \<Rightarrow> mmu \<Rightarrow> bool" where
  "same_space k as st st' \<longleftrightarrow> sp_step k as st st' \<and>
     (\<forall>va r. as_maps k as (mm_pte st') va r \<longleftrightarrow> as_maps k as (mm_pte st) va r) \<and>
     (\<forall>va. as_taken k as (mm_pte st') va \<longleftrightarrow> as_taken k as (mm_pte st) va)"

lemma same_space_refl [simp]: "same_space k as st st"
  by (simp add: same_space_def)

lemma same_space_trans: "same_space k as st st' \<Longrightarrow> same_space k as st' st'' \<Longrightarrow> same_space k as st st''"
  unfolding same_space_def using sp_step_trans by blast

definition found :: "mmu_params \<Rightarrow> nat \<Rightarrow> mmu_space \<Rightarrow> u64 \<Rightarrow> nat \<Rightarrow> mmu \<Rightarrow> bool" where
  "found k bits as va n st \<longleftrightarrow> sp_ok k bits as st \<and> tiled k as (mm_pte st) va n \<and>
     (\<forall>va'. in_pages as va n va' \<longrightarrow> \<not> as_taken k as (mm_pte st) va')"

lemma tiled_extend:
  assumes t: "tiled k as m va n" and low: "as_low as (va + of_nat n * PAGE_SIZE) = as_low as va + n * 4096"
    and d: "dscr_ok (pt_dscr (sp_pt as))" and e: "as_end k as m (va + of_nat n * PAGE_SIZE) l p"
    and al: "2 ^ (lvl_off (pt_dscr (sp_pt as)) ! l) dvd unat (va + of_nat n * PAGE_SIZE)"
  shows "tiled k as m va (n + lvl_pages (pt_dscr (sp_pt as)) l)"
  unfolding tiled_def
proof (intro allI impI)
  fix va' l' p' va''
  let ?a = "va + of_nat n * PAGE_SIZE" and ?d = "pt_dscr (sp_pt as)"
  let ?sz = "lvl_pages ?d l"
  have l: "l < lvls ?d" using e by (simp add: pt_end_def)
  have al': "2 ^ (lvl_off ?d ! l) dvd as_low as ?a" using al by (simp add: low_dvd [OF d l])
  note bl = in_pages_blk(1) [OF d l al'] and sp = in_pages_split [of ?sz as va n, OF low]
  assume i: "in_pages as va (n + ?sz) va'" and e': "as_end k as m va' l' p'" and b: "as_blk as l' va'' = as_blk as l' va'"
  from i consider "in_pages as va n va'" | "in_pages as ?a ?sz va'" unfolding sp by blast
  then show "in_pages as va (n + ?sz) va''"
  proof cases
    case 1
    with t e' b have "in_pages as va n va''" unfolding tiled_def by blast
    then show ?thesis unfolding sp by blast
  next
    case 2
    then have eq: "as_blk as l va' = as_blk as l ?a" using bl by simp
    have "as_end k as m va' l p" using e walk_cong [OF d l eq] by (simp add: pt_end_def)
    then have "l' = l" using end_unique [OF e'] by simp
    with b eq have "in_pages as ?a ?sz va''" using bl by simp
    then show ?thesis unfolding sp by blast
  qed
qed

lemma tiled_apart:
  assumes t: "tiled k as m va n" and d: "dscr_ok (pt_dscr (sp_pt as))" and e: "as_end k as m a l p"
    and a: "\<not> in_pages as va n a" and i: "in_pages as va n va'"
  shows "as_blk as l va' \<noteq> as_blk as l a"
proof
  assume b: "as_blk as l va' = as_blk as l a"
  have l: "l < lvls (pt_dscr (sp_pt as))" using e by (simp add: pt_end_def)
  have "as_end k as m va' l p" using e walk_cong [OF d l b] by (simp add: pt_end_def)
  with t i b a show False unfolding tiled_def by metis
qed

lemma tiled_same_ends:
  assumes "tiled k as m va n" and "\<And>va' l p. in_pages as va n va' \<Longrightarrow> as_end k as m' va' l p \<Longrightarrow> as_end k as m va' l p"
  shows "tiled k as m' va n"
  using assms unfolding tiled_def by blast

lemma allocable_iff:
  assumes "dscr_ok (pt_dscr (sp_pt as))" and "l < lvls (pt_dscr (sp_pt as))" and "left * 4096 < 2 ^ 64" and "0 < left"
    and "lvl_term (pt_dscr (sp_pt as)) ! l" and "4096 dvd unat addr" and "\<not> pte_valid (mmk_pte k) v"
  shows "pte_allocable k as v l left addr \<longleftrightarrow>
    lvl_pages (pt_dscr (sp_pt as)) l \<le> left \<and> 2 ^ (lvl_off (pt_dscr (sp_pt as)) ! l) dvd unat addr"
proof -
  have "pt_lvlsize (pt_dscr (sp_pt as)) l \<le> of_nat left * PAGE_SIZE \<longleftrightarrow> lvl_pages (pt_dscr (sp_pt as)) l * 4096 \<le> left * 4096"
    unfolding word_le_nat_alt unat_lvlsize [OF assms(1,2)] unat_pages [OF assms(3)] lvl_pages(2) [OF assms(1,2)] ..
  moreover have "lvl_pages (pt_dscr (sp_pt as)) l = 1 \<and> lvl_off (pt_dscr (sp_pt as)) ! l = 12" if "l = lvls (pt_dscr (sp_pt as)) - 1"
    using off_last [OF assms(1)] that by (simp add: lvl_pages_def)
  ultimately show ?thesis
    using assms(4-7) by (auto simp: pte_allocable_def Let_def word_mod_lvlsize [OF assms(1,2)] pt_lvl_terminal_def)
qed

end
