(* ===== verification/Mmu_Unmap.thy ===== *)
theory Mmu_Unmap
  imports Mmu_Map
begin

text \<open>
  Unmapping, \<open>mem_unmap\<close> and \<open>mem_expand_pte\<close>. Expanding a superpage into a table of smaller pages does
  not change what any address is translated to. A range of mapped addresses inside one entry of the
  root table is unmapped exactly, superpages that it covers in part being expanded first; the loop
  ends and fails only when there is no page for such a table.
\<close>

section \<open>Expanding a superpage\<close>

lemma entry_index_inj:
  assumes "i < 512" and "j < 512"
  shows "(A :: u64) + 8 * of_nat i = A + 8 * of_nat j \<longleftrightarrow> i = j"
proof -
  have "unat (8 * of_nat i :: u64) = 8 * i" if "i < 512" for i using that by (simp add: unat_word_ariths unat_of_nat)
  with assms show ?thesis by (metis add_left_cancel mult_left_cancel zero_neq_numeral)
qed

lemma expand_fill_other:
  "(\<And>i. i < n \<Longrightarrow> q \<noteq> pte + 8 * of_nat i) \<Longrightarrow> expand_fill P vld type flags lvlsz n pte paddr m q = m q"
proof (induction n arbitrary: pte paddr m)
  case (Suc n)
  have "q \<noteq> pte + 8 + 8 * of_nat i" if "i < n" for i using Suc.prems [of "Suc i"] that by (simp add: distrib_left add.assoc)
  moreover have "q \<noteq> pte" using Suc.prems [of 0] by simp
  ultimately show ?case by (simp add: Suc.IH)
qed simp

lemma expand_fill_entry:
  "n \<le> 512 \<Longrightarrow> i < n \<Longrightarrow> expand_fill P True type flags lvlsz n pte paddr m (pte + 8 * of_nat i) =
     pte_set P (paddr + of_nat i * lvlsz) type flags"
proof (induction n arbitrary: pte paddr m i)
  case (Suc n)
  show ?case
  proof (cases i)
    case 0
    have "pte \<noteq> pte + 8 + 8 * of_nat j" if "j < n" for j
    proof -
      have "pte + 8 * of_nat 0 \<noteq> pte + 8 * of_nat (Suc j)" using entry_index_inj [of 0 "Suc j" pte] that Suc.prems by simp
      then show ?thesis by (simp add: distrib_left add.assoc)
    qed
    then show ?thesis using 0 by (simp add: expand_fill_other)
  next
    case (Suc j)
    with Suc.prems Suc.IH [of j "pte + 8" "paddr + lvlsz"] show ?thesis
      by (simp add: distrib_left distrib_right add.assoc)
  qed
qed simp

lemma pteindex_page:
  assumes "dscr_ok d" and "Suc l < lvls d" and "unat A mod 4096 = 0"
  shows "pt_getpteindex d A (Suc l) = 0"
proof -
  have m: "(4095 :: u64) = mask 12" by (simp add: mask_eq_exp_minus_1)
  have "unat (A AND 4095) = unat A mod 4096"
    unfolding m by (simp add: take_bit_eq_mask [symmetric] unsigned_take_bit_eq take_bit_eq_mod [where 'a = nat])
  then have "A AND 4095 = 0" using assms(3) by (simp add: word_unat_eq_iff)
  then show ?thesis by (simp add: pt_getpteindex_def pt_size_Suc(2) [OF assms(1,2)])
qed

context mmu_format
begin

text \<open>The pieces of a superpage are pages at its addresses.\<close>

lemma piece_phys:
  assumes d: "dscr_ok d" and l: "Suc l < lvls d" and a: "2 ^ (lvl_off d ! l) dvd unat a" "unat a < 2 ^ bits" and i: "i < 512"
  shows "unat (a + of_nat i * pt_lvlsize d (Suc l)) = unat a + i * 2 ^ (lvl_off d ! Suc l)"
    and "pte_phys bits (a + of_nat i * pt_lvlsize d (Suc l))"
    and "2 ^ (lvl_off d ! Suc l) dvd unat (a + of_nat i * pt_lvlsize d (Suc l))"
proof -
  let ?o = "lvl_off d ! Suc l"
  have o: "lvl_off d ! l = ?o + 9" by (rule off_Suc [OF d l])
  have "lvl_off d ! l \<le> 39" using dscr_okD(1,7) [OF d, of l] l by simp
  then have ob: "?o + 9 \<le> bits" using o bits_ge by simp
  obtain b where b: "unat a = 2 ^ (?o + 9) * b" using a(1) unfolding o by (elim dvdE)
  have e: "(2 :: nat) ^ bits = 2 ^ (?o + 9) * 2 ^ (bits - (?o + 9))" using ob by (simp flip: power_add)
  have "b < 2 ^ (bits - (?o + 9))" using a(2) unfolding b e by simp
  then have "2 ^ (?o + 9) * (b + 1) \<le> 2 ^ bits" unfolding e by (intro mult_le_mono2) simp
  then have "unat a + 512 * 2 ^ ?o \<le> 2 ^ bits" by (simp add: b power_add distrib_left)
  moreover have "i * 2 ^ ?o < 512 * 2 ^ ?o" using i by simp
  ultimately have lt: "unat a + i * 2 ^ ?o < 2 ^ bits" by linarith
  have "(2 :: nat) ^ bits \<le> 2 ^ 56" using bits_le by (rule power_increasing) simp
  then have "unat a + i * 2 ^ ?o < 2 ^ 64" using lt by simp
  then show u: "unat (a + of_nat i * pt_lvlsize d (Suc l)) = unat a + i * 2 ^ ?o"
    using i by (simp add: unat_word_ariths unat_of_nat unat_lvlsize [OF d l])
  have "?o = 12 + 9 * (lvls d - 1 - Suc l)" by (rule dscr_okD(1) [OF d l])
  then have "(2 :: nat) ^ 12 dvd 2 ^ ?o" by (intro le_imp_power_dvd) simp
  then have 4: "4096 dvd (2 :: nat) ^ ?o" by simp
  show dv: "2 ^ ?o dvd unat (a + of_nat i * pt_lvlsize d (Suc l))" unfolding u b by (simp add: power_add mult.assoc)
  then show "pte_phys bits (a + of_nat i * pt_lvlsize d (Suc l))"
    using lt 4 dvd_trans unfolding pte_phys_def u by blast
qed

lemma piece_pa:
  assumes d: "dscr_ok d" and l: "Suc l < lvls d" and a: "2 ^ (lvl_off d ! l) dvd unat (pte_addr P v)" "unat (pte_addr P v) < 2 ^ bits"
    and v': "pte_addr P v' = pte_addr P v + of_nat (unat (pt_getpteindex_by_va d va (Suc l))) * pt_lvlsize d (Suc l)"
  shows "pt_pa P d v' (Suc l) va = pt_pa P d v l va"
proof -
  let ?o = "lvl_off d ! Suc l" and ?i = "unat (pt_getpteindex_by_va d va (Suc l))"
  have i: "?i < 512" by (rule index_less_512 [OF d l])
  note pp = piece_phys [OF d l a i]
  have al': "2 ^ ?o dvd unat (pte_addr P v')" unfolding v' by (rule pp(3))
  have "va_low d va mod 2 ^ (?o + 9) = 2 ^ ?o * (va_low d va div 2 ^ ?o mod 512) + va_low d va mod 2 ^ ?o"
    by (simp add: power_add mod_mult2_eq)
  also have "va_low d va div 2 ^ ?o mod 512 = ?i" using index_Suc [OF d l, of va] by (simp add: blk_def)
  finally have "unat (pt_pa P d v' (Suc l) va) = unat (pt_pa P d v l va)"
    using unat_pt_pa [OF d l al', of va] unat_pt_pa [OF d Suc_lessD [OF l] a(1), of va] pp(1)
    by (simp add: v' off_Suc [OF d l] mult.commute)
  then show ?thesis by (simp add: word_unat_eq_iff)
qed

lemma expand_pte:
  assumes ok: "sp_ok k bits as st" and e: "as_end k as (mm_pte st) va l p" and l: "Suc l < lvls (pt_dscr (sp_pt as))"
    and v: "pte_valid (mmk_pte k) (mm_pte st p)"
  obtains (refused) "mem_expand_pte k as va l st = Inl NULL_DEREF" "pt_refused k as (mm_pools st)"
  | (expanded) st' q where "mem_expand_pte k as va l st = Inr st'" "sp_ok k bits as st'" "sp_step k as st st'"
      "\<And>va' r. as_maps k as (mm_pte st') va' r \<longleftrightarrow> as_maps k as (mm_pte st) va' r"
      "as_walk k as (mm_pte st') (Suc l) va = Some q"
      "as_tabs k as (mm_pte st') = insert (l, as_blk as l va) (as_tabs k as (mm_pte st))" "(l, as_blk as l va) \<notin> as_tabs k as (mm_pte st)"
      "card (grown st st') = 1"
proof -
  let ?P = "mmk_pte k" and ?d = "pt_dscr (sp_pt as)" and ?m = "mm_pte st" and ?v = "mm_pte st p"
  note d = sp_okD(1) [OF ok] and t = sp_okD(2) [OF ok]
  have l': "l < lvls ?d" and w: "as_walk k as ?m l va = Some p" and nt: "\<not> pte_table ?P ?d ?v l"
    using e v by (simp_all add: pt_end_def)
  have p0: "p \<noteq> 0" by (rule pt_treeD(2) [OF t l' w])
  have gp: "pt_get_pte ?P ?m (sp_pt as) l va = p" by (rule as_get_pte [OF ok l' w])
  have lv: "\<not> lvls ?d - 1 \<le> l" using l by simp
  have a: "2 ^ (lvl_off ?d ! l) dvd unat (pte_addr ?P ?v)" "unat (pte_addr ?P ?v) < 2 ^ bits"
    using pt_treeD(3) [OF t l' w] v nt addr_phys [of ?v] by (auto simp: entry_ok_def pte_phys_def)
  define fl where "fl = (if sp_type as = AS_HYP then PTE_HYP_FLAGS ?P else PTE_VM_FLAGS ?P)"
  have fl: "flags_ok fl" using flags_hyp flags_vm by (simp add: fl_def)
  have body: "mem_expand_pte k as va l st =
    obind (mem_alloc_pt k as p l va st) (\<lambda>(pte, st).
      let n = unat (pt_nentries ?d (Suc l)) - unat (pt_getpteindex ?d pte (Suc l))
      in if pte = 0 \<and> 0 < n then Inl NULL_DEREF
         else Inr (st\<lparr>mm_pte := expand_fill ?P True (pt_page_type ?P ?d (Suc l)) fl (pt_lvlsize ?d (Suc l)) n pte (pte_addr ?P ?v) (mm_pte st)\<rparr>))"
    unfolding mem_expand_pte_def Let_def gp fl_def [symmetric] using p0 nt v lv by (simp add: Let_def cong: if_cong)
  show thesis
  proof (rule alloc_pt [OF ok e l])
    assume r: "mem_alloc_pt k as p l va st = Inr (0, st)" "pt_refused k as (mm_pools st)"
    have "pt_getpteindex ?d 0 (Suc l) = 0" by (simp add: pt_getpteindex_def)
    then show thesis using r by (intro refused) (simp_all add: body pt_size_Suc(1) [OF d l])
  next
    fix A pools
    define m1 where "m1 = pt_fill (?m(p := table_of A)) A 512 (0 OR (?m p AND PTE_RSW_MSK ?P))"
    define m' where "m' = expand_fill ?P True (pt_page_type ?P ?d (Suc l)) fl (pt_lvlsize ?d (Suc l)) 512 A (pte_addr ?P ?v) m1"
    let ?st' = "st\<lparr>mm_pools := pools, mm_pte := m'\<rparr>"
    assume "mem_alloc_pt k as p l va st = Inr (A, st\<lparr>mm_pools := pools,
         mm_pte := pt_fill (?m(p := table_of A)) A 512 (0 OR (?m p AND PTE_RSW_MSK ?P))\<rparr>)"
      and pools: "pools_ok k bits pools" "pools_frames pools = pools_frames (mm_pools st)"
        "pools_used pools = insert (unat A div 4096) (pools_used (mm_pools st))"
        "unat A div 4096 \<in> pools_frames (mm_pools st) - pools_used (mm_pools st)"
      and A: "unat A mod 4096 = 0" "0 < unat A" "pte_phys bits A"
      and ex: "all_clrs (mmk_color_num k) (sp_colors as) \<and> pools_exact (mm_pools st) \<longrightarrow> pools_exact pools"
    then have "mem_alloc_pt k as p l va st = Inr (A, st\<lparr>mm_pools := pools, mm_pte := m1\<rparr>)" by (simp only: m1_def)
    moreover have "A \<noteq> 0" using A(2) by auto
    ultimately have r: "mem_expand_pte k as va l st = Inr ?st'"
      by (simp add: body pteindex_page [OF d l A(1)] pt_size_Suc(1) [OF d l] m'_def)
    have page: "unat (A + 8 * of_nat i) div 4096 = unat A div 4096" if "i < 512" for i by (rule page_index(2) [OF A(1) that])
    have pf: "unat p div 4096 \<noteq> unat A div 4096" using walk_frames [OF l' w] sp_okD(4) [OF ok] pools(4) by auto
    have out1: "m1 q = (?m(p := table_of A)) q" if "unat q div 4096 \<noteq> unat A div 4096" for q
      using page that unfolding m1_def pt_fill_eq by auto
    have out: "m' q = (?m(p := table_of A)) q" if "unat q div 4096 \<noteq> unat A div 4096" for q
    proof -
      have "m' q = m1 q" unfolding m'_def by (rule expand_fill_other) (use page that in metis)
      then show ?thesis using out1 [OF that] by simp
    qed
    have mp: "m' p = table_of A" using out [OF pf] by simp
    have other: "m' q = ?m q" if "unat q div 4096 \<noteq> unat A div 4096" "q \<noteq> p" for q using out that by simp
    have entry: "m' (A + 8 * of_nat i) = pte_set ?P (pte_addr ?P ?v + of_nat i * pt_lvlsize ?d (Suc l)) (pt_page_type ?P ?d (Suc l)) fl"
      if "i < 512" for i unfolding m'_def using that by (intro expand_fill_entry) simp_all
    have leaf: "pte_valid ?P (m' (A + 8 * of_nat i))" "\<not> pte_table ?P ?d (m' (A + 8 * of_nat i)) (Suc l)"
      "pte_addr ?P (m' (A + 8 * of_nat i)) = pte_addr ?P ?v + of_nat i * pt_lvlsize ?d (Suc l)" if "i < 512" for i
      using leaf_entry [OF piece_phys(2) [OF d l a that] fl, of ?d "Suc l"] entry [OF that] by auto
    have n: "new_table ?P ?d ?m (pt_root (sp_pt as)) l va p A m'"
      by (rule fresh_new_table [OF ok e l pools(4) A mp other]) (use leaf(2) in auto)
    have leafi: "pte_valid ?P (m' (A + 8 * i))" "\<not> pte_table ?P ?d (m' (A + 8 * i)) (Suc l)"
      "pte_addr ?P (m' (A + 8 * i)) = pte_addr ?P ?v + of_nat (unat i) * pt_lvlsize ?d (Suc l)" if "unat i < 512" for i
      using leaf [OF that] by simp_all
    have eo: "entry_ok ?P ?d (m' (A + 8 * i)) (Suc l)" if "unat i < 512" for i
      unfolding entry_ok_def using leafi [OF that] piece_phys(3) [OF d l a that] by metis
    note h = hang_table [OF ok pools ex n eo]
    show thesis
    proof (rule expanded [OF r])
      show "as_tabs k as (mm_pte ?st') = insert (l, as_blk as l va) (as_tabs k as ?m)" using h(5) by simp
      show "(l, as_blk as l va) \<notin> as_tabs k as ?m" by (rule h(6))
      show "card (grown st ?st') = 1" by (rule h(7))
      show "sp_ok k bits as ?st'" by (rule h(1))
      show "sp_step k as st ?st'" by (rule h(2))
      show "as_walk k as (mm_pte ?st') (Suc l) va = Some (A + 8 * pt_getpteindex_by_va ?d va (Suc l))" using h(4) by simp
      show "as_maps k as (mm_pte ?st') va' r \<longleftrightarrow> as_maps k as ?m va' r" for va' r
      proof (cases "as_blk as l va' = as_blk as l va")
        case True
        let ?q = "A + 8 * pt_getpteindex_by_va ?d va' (Suc l)"
        have i: "unat (pt_getpteindex_by_va ?d va' (Suc l)) < 512" by (rule index_less_512 [OF d l])
        have "as_end k as ?m va' l p" using e walk_cong [OF d l' True] by (simp add: pt_end_def)
        then have "as_maps k as ?m va' r \<longleftrightarrow> r = Some (pt_pa ?P ?d ?v l va')" using v by (simp add: maps_end)
        moreover have "pt_pa ?P ?d (m' ?q) (Suc l) va' = pt_pa ?P ?d ?v l va'" by (rule piece_pa [OF d l a leafi(3) [OF i]])
        ultimately show ?thesis using h(3) [of va' r] True leafi(1) [OF i] by (simp add: Let_def)
      next
        case False
        then show ?thesis using h(3) [of va' r] by simp
      qed
    qed
  qed
qed

end

section \<open>Ranges inside one entry of the root\<close>

text \<open>
  The range is whole pages, lies in one entry of the root table, and that entry does not end at the top
  of the address space.
\<close>

definition root_block :: "mmu_space \<Rightarrow> nat" where
  "root_block as = 2 ^ (lvl_off (pt_dscr (sp_pt as)) ! 0)"

definition in_root_entry :: "mmu_space \<Rightarrow> u64 \<Rightarrow> nat \<Rightarrow> bool" where
  "in_root_entry as va n \<longleftrightarrow> 4096 dvd unat va \<and>
     unat va + n * 4096 \<le> (unat va div root_block as + 1) * root_block as \<and> (unat va div root_block as + 1) * root_block as < 2 ^ 64"

definition unmapped :: "mmu_params \<Rightarrow> mmu_space \<Rightarrow> u64 \<Rightarrow> nat \<Rightarrow> (u64 \<Rightarrow> u64) \<Rightarrow> (u64 \<Rightarrow> u64) \<Rightarrow> bool" where
  "unmapped k as va n m m' \<longleftrightarrow>
     (\<forall>va' r. as_maps k as m' va' r \<longleftrightarrow> (if in_pages as va n va' then r = None else as_maps k as m va' r))"

lemma unmapped_0 [simp]: "unmapped k as va 0 m m' \<longleftrightarrow> (\<forall>va' r. as_maps k as m' va' r \<longleftrightarrow> as_maps k as m va' r)"
  by (simp add: unmapped_def)

lemma unmapped_trans:
  assumes a: "unmapped k as va n m m'" and b: "unmapped k as (va + of_nat n * PAGE_SIZE) n' m' m''"
    and low: "0 < n' \<Longrightarrow> as_low as (va + of_nat n * PAGE_SIZE) = as_low as va + n * 4096"
  shows "unmapped k as va (n + n') m m''"
proof (cases "n' = 0")
  case True
  with a b show ?thesis by (simp add: unmapped_def)
next
  case False
  then have "in_pages as va (n + n') va' \<longleftrightarrow> in_pages as va n va' \<or> in_pages as (va + of_nat n * PAGE_SIZE) n' va'" for va'
    using low by (auto simp: in_pages_def distrib_right)
  with a b show ?thesis by (simp add: unmapped_def)
qed

lemma root_entry_step:
  assumes d: "dscr_ok (pt_dscr (sp_pt as))" and r: "in_root_entry as va n"
  shows "va_room as va n"
    and "s < n \<Longrightarrow> in_root_entry as (va + of_nat s * PAGE_SIZE) (n - s)"
    and "s < n \<Longrightarrow> as_blk as 0 (va + of_nat s * PAGE_SIZE) = as_blk as 0 va"
    and "s \<le> n \<Longrightarrow> unat (va + of_nat s * PAGE_SIZE) = unat va + s * 4096"
proof -
  let ?d = "pt_dscr (sp_pt as)"
  let ?o = "lvl_off ?d ! 0" and ?w = "lvl_wdt ?d ! 0"
  let ?B = "2 ^ ?o :: nat"
  have lz: "0 < lvls ?d" using d by (simp add: dscr_ok_def)
  have ow: "?o < ?w" "?w < 64" using dscr_okD(2,3) [OF d lz] by simp_all
  have B: "root_block as = ?B" by (simp add: root_block_def)
  have W: "(2 :: nat) ^ ?w = ?B * 2 ^ (?w - ?o)" using ow by (simp flip: power_add)
  have al: "4096 dvd unat va" and e: "unat va + n * 4096 \<le> (unat va div ?B + 1) * ?B" and b: "(unat va div ?B + 1) * ?B < 2 ^ 64"
    using r by (simp_all add: in_root_entry_def B)
  have va: "unat va = unat va div ?B * ?B + unat va mod ?B" by (rule div_mult_mod_eq [symmetric])
  have m: "unat va mod ?B + n * 4096 \<le> ?B" using e va by (simp add: distrib_right)
  have low: "as_low as va = unat va div ?B mod 2 ^ (?w - ?o) * ?B + unat va mod ?B"
    unfolding va_low_def W by (simp add: mod_mult2_eq mult.commute)
  have "unat va div ?B mod 2 ^ (?w - ?o) + 1 \<le> 2 ^ (?w - ?o)" by (simp add: Suc_le_eq)
  then have "(unat va div ?B mod 2 ^ (?w - ?o) + 1) * ?B \<le> 2 ^ (?w - ?o) * ?B" by (rule mult_le_mono1)
  then have "(unat va div ?B mod 2 ^ (?w - ?o) + 1) * ?B \<le> 2 ^ ?w" unfolding W by (simp only: mult.commute)
  then show room: "va_room as va n" using m low by (simp add: va_room_def distrib_right)
  have u: "unat (va + of_nat s * PAGE_SIZE) = unat va + s * 4096" if "s \<le> n" for s
  proof -
    have "unat va + s * 4096 < 2 ^ 64" using e b mult_le_mono1 [OF that, of 4096] by linarith
    then show ?thesis using va_room_step(3) [OF d room that] by (simp add: unat_word_ariths(1))
  qed
  then show "s \<le> n \<Longrightarrow> unat (va + of_nat s * PAGE_SIZE) = unat va + s * 4096" .
  have dv: "unat (va + of_nat s * PAGE_SIZE) div ?B = unat va div ?B" if "s < n"
  proof -
    have "unat va mod ?B + s * 4096 < ?B" using m that by simp
    moreover have "unat (va + of_nat s * PAGE_SIZE) = unat va + s * 4096" using u that by simp
    moreover have "?B * (unat va div ?B) + unat va mod ?B = unat va" by (rule mult_div_mod_eq)
    ultimately have "?B * (unat va div ?B) \<le> unat (va + of_nat s * PAGE_SIZE) \<and>
        unat (va + of_nat s * PAGE_SIZE) < ?B * (unat va div ?B) + ?B" by linarith
    then show ?thesis by (simp add: div_block)
  qed
  show "in_root_entry as (va + of_nat s * PAGE_SIZE) (n - s)" if "s < n"
  proof -
    have "s * 4096 + (n - s) * 4096 = n * 4096" using that by (simp flip: distrib_right)
    then show ?thesis using al e b that unfolding in_root_entry_def B dv [OF that] by (simp add: u)
  qed
  show "as_blk as 0 (va + of_nat s * PAGE_SIZE) = as_blk as 0 va" if "s < n"
  proof -
    have "blk ?d 0 x = unat x div ?B mod 2 ^ (?w - ?o)" for x
      using unat_index [OF d lz, of x] index_0 [OF d, of x] by simp
    then show ?thesis using dv [OF that] by simp
  qed
qed

lemma unat_block_down: "n < 64 \<Longrightarrow> unat (w AND NOT (2 ^ n - 1)) = unat w div 2 ^ n * 2 ^ n" for w :: u64
proof -
  assume n: "n < 64"
  have m: "(2 ^ n - 1 :: u64) = mask n" by (simp add: mask_eq_exp_minus_1)
  have e: "w AND NOT (mask n) = push_bit n (drop_bit n w)"
    by (rule bit_word_eqI) (auto simp: bit_and_iff bit_not_iff bit_mask_iff bit_push_bit_iff bit_drop_bit_eq)
  have "unat w div 2 ^ n * 2 ^ n < 2 ^ 64" using word_unat_lt [of w] by (simp add: le_less_trans [OF div_times_less_eq_dividend])
  then show ?thesis unfolding m e using n by (simp add: push_bit_eq_mult unat_word_ariths unat_exp unsigned_drop_bit_eq) (simp add: drop_bit_eq_div take_bit_eq_mod word_unat_lt)
qed

section \<open>The loops\<close>

lemma word_less_unat: "a < b \<longleftrightarrow> unat a < unat b" for a b :: u64
  by (rule word_less_nat_alt)

context mmu_format
begin

lemma clear_entry:
  assumes ok: "sp_ok k bits as st" and l: "l < lvls (pt_dscr (sp_pt as))" and w: "as_walk k as (mm_pte st) l va = Some p"
    and va: "2 ^ (lvl_off (pt_dscr (sp_pt as)) ! l) dvd unat va"
  defines "st' \<equiv> st\<lparr>mm_pte := (mm_pte st)(p := 0)\<rparr>"
  shows "sp_ok k bits as st'" and "sp_step k as st st'"
    and "unmapped k as va (lvl_pages (pt_dscr (sp_pt as)) l) (mm_pte st) (mm_pte st')"
    and "as_walk k as (mm_pte st') l va' = as_walk k as (mm_pte st) l va'"
    and "Suc l' < lvls (pt_dscr (sp_pt as)) \<Longrightarrow> as_blk as l va' \<noteq> as_blk as l va \<Longrightarrow>
      (l', as_blk as l' va') \<in> as_tabs k as (mm_pte st') \<longleftrightarrow> (l', as_blk as l' va') \<in> as_tabs k as (mm_pte st)"
proof -
  let ?P = "mmk_pte k" and ?d = "pt_dscr (sp_pt as)"
  note d = sp_okD(1) [OF ok]
  have nv: "\<not> pte_valid ?P 0" using invalid_entry [of 0] by simp
  have nt: "\<not> (pte_valid ?P 0 \<and> pte_table ?P ?d 0 l)" and e: "entry_ok ?P ?d 0 l" using nv by (simp_all add: entry_ok_def)
  note se = set_entry [OF ok l w nt e, folded st'_def]
  show "sp_ok k bits as st'" "sp_step k as st st'" by (rule se(1), rule se(2))
  show "as_walk k as (mm_pte st') l va' = as_walk k as (mm_pte st) l va'" by (rule se(4))
  show "(l', as_blk as l' va') \<in> as_tabs k as (mm_pte st') \<longleftrightarrow> (l', as_blk as l' va') \<in> as_tabs k as (mm_pte st)"
    if "Suc l' < lvls ?d" "as_blk as l va' \<noteq> as_blk as l va" using that by (rule se(5))
  have va': "2 ^ (lvl_off ?d ! l) dvd as_low as va" using va by (simp add: low_dvd [OF d l])
  show "unmapped k as va (lvl_pages ?d l) (mm_pte st) (mm_pte st')"
    unfolding unmapped_def in_pages_blk(1) [OF d l va'] using se(3) nv by simp
qed

lemma partial_iff:
  assumes d: "dscr_ok (pt_dscr (sp_pt as))" and l: "l < lvls (pt_dscr (sp_pt as))" and r: "in_root_entry as vaddr r" "0 < r"
  defines "base \<equiv> vaddr AND NOT (pt_lvlsize (pt_dscr (sp_pt as)) l - 1)"
  shows "\<not> (vaddr > base \<or> vaddr + of_nat r * PAGE_SIZE < base + pt_lvlsize (pt_dscr (sp_pt as)) l) \<longleftrightarrow>
    2 ^ (lvl_off (pt_dscr (sp_pt as)) ! l) dvd unat vaddr \<and> lvl_pages (pt_dscr (sp_pt as)) l \<le> r"
proof -
  let ?d = "pt_dscr (sp_pt as)"
  let ?s = "2 ^ (lvl_off ?d ! l) :: nat"
  have lz: "0 < lvls ?d" using d by (simp add: dscr_ok_def)
  have o: "lvl_off ?d ! l < 64" using dscr_okD(2,3) [OF d l] by simp
  have sz: "pt_lvlsize ?d l = 2 ^ (lvl_off ?d ! l)" using unat_lvlsize [OF d l] o by (simp add: word_unat_eq_iff unat_exp)
  have base: "unat base = unat vaddr div ?s * ?s" unfolding base_def sz by (rule unat_block_down [OF o])
  have "lvl_off ?d ! l \<le> lvl_off ?d ! 0" using dscr_okD(1) [OF d l] dscr_okD(1) [OF d lz] by simp
  then have "?s dvd root_block as" unfolding root_block_def by (rule le_imp_power_dvd)
  then obtain q where q: "root_block as = ?s * q" by (elim dvdE)
  have B: "0 < root_block as" by (simp add: root_block_def)
  let ?e = "(unat vaddr div root_block as + 1) * root_block as"
  have "unat vaddr < ?e" using B by (metis Suc_eq_plus1 div_mult_mod_eq mod_less_divisor mult_Suc add.commute add_less_cancel_left)
  moreover have "?s dvd ?e" using \<open>?s dvd root_block as\<close> by simp
  ultimately have "unat vaddr div ?s * ?s + ?s \<le> ?e"
  proof -
    assume lt: "unat vaddr < ?e" and dv: "?s dvd ?e"
    obtain j where j: "?e = ?s * j" using dv by (elim dvdE)
    have "unat vaddr div ?s < j" using lt unfolding j by (simp add: div_less_iff_less_mult mult.commute)
    then have "(unat vaddr div ?s + 1) * ?s \<le> j * ?s" by (intro mult_le_mono1) simp
    then show ?thesis unfolding j by (simp add: distrib_right mult.commute)
  qed
  then have fit: "unat base + ?s < 2 ^ 64" using r(1) unfolding base in_root_entry_def by linarith
  have u1: "unat (base + pt_lvlsize ?d l) = unat base + ?s" using fit by (simp add: unat_word_ariths(1) unat_lvlsize [OF d l])
  have u2: "unat (vaddr + of_nat r * PAGE_SIZE) = unat vaddr + r * 4096" by (rule root_entry_step(4) [OF d r(1)]) simp
  have al: "\<not> unat base < unat vaddr \<longleftrightarrow> ?s dvd unat vaddr"
  proof -
    have "unat vaddr = unat base + unat vaddr mod ?s" unfolding base by (rule div_mult_mod_eq [symmetric])
    then show ?thesis unfolding dvd_eq_mod_eq_0 by linarith
  qed
  have "lvl_pages ?d l \<le> r \<longleftrightarrow> ?s \<le> r * 4096" unfolding lvl_pages(2) [OF d l, symmetric] by simp
  moreover have "unat base = unat vaddr" if "?s dvd unat vaddr" using that unfolding base by simp
  ultimately show ?thesis unfolding word_less_unat u1 u2 using al by auto
qed

lemma whole_root:
  assumes d: "dscr_ok (pt_dscr (sp_pt as))" and l: "l < lvls (pt_dscr (sp_pt as))" and r: "in_root_entry as vaddr r"
    and al: "2 ^ (lvl_off (pt_dscr (sp_pt as)) ! l) dvd unat vaddr" and lt: "lvl_pages (pt_dscr (sp_pt as)) l < r"
  shows "0 < l"
proof (rule ccontr)
  assume "\<not> 0 < l"
  then have z: "l = 0" by simp
  then have "lvl_pages (pt_dscr (sp_pt as)) l * 4096 = root_block as" using lvl_pages(2) [OF d l] by (simp add: root_block_def)
  moreover have "root_block as dvd unat vaddr" using al z by (simp add: root_block_def)
  then have "(unat vaddr div root_block as + 1) * root_block as = unat vaddr + root_block as" by simp
  ultimately have "r * 4096 \<le> lvl_pages (pt_dscr (sp_pt as)) l * 4096" using r by (simp add: in_root_entry_def)
  with lt show False by simp
qed

text \<open>What one run of the inner loop leaves: \<open>c\<close> pages are unmapped and the outer loop can go on.\<close>

definition unmap_result :: "mmu_space \<Rightarrow> nat \<Rightarrow> nat \<Rightarrow> u64 \<Rightarrow> mmu \<Rightarrow> nat \<Rightarrow> nat \<Rightarrow> nat \<Rightarrow> mmu \<Rightarrow> bool" where
  "unmap_result as l r vaddr st n' l' c st' \<longleftrightarrow>
     c \<le> r \<and> sp_ok k bits as st' \<and> sp_step k as st st' \<and> unmapped k as vaddr c (mm_pte st) (mm_pte st') \<and>
     spent k as False vaddr r (vaddr + of_nat c * PAGE_SIZE) (r - c) st st' \<and>
     (c < r \<longrightarrow> (if n' = 0 then l' = l \<and> 0 < l \<and> as_walk k as (mm_pte st') l vaddr \<noteq> None
        else l' < lvls (pt_dscr (sp_pt as)) \<and> as_walk k as (mm_pte st') l' (vaddr + of_nat c * PAGE_SIZE) \<noteq> None))"

lemma unmap_entries:
  assumes l: "l < lvls (pt_dscr (sp_pt as))"
  shows "sp_ok k bits as st \<Longrightarrow> in_root_entry as vaddr r \<Longrightarrow> 0 < r \<Longrightarrow>
    \<forall>va'. in_pages as vaddr r va' \<longrightarrow> \<not> as_maps k as (mm_pte st) va' None \<Longrightarrow>
    as_walk k as (mm_pte st) l vaddr = Some pte \<Longrightarrow> 0 < n \<Longrightarrow> (0 < l \<Longrightarrow> n + as_blk as l vaddr mod 512 \<le> 512) \<Longrightarrow>
    mem_unmap_entries k as False (vaddr + of_nat r * PAGE_SIZE) l n pte vaddr st = Inl NULL_DEREF \<and> exhausted k as False vaddr r st \<or>
    (\<exists>n' l' c st'. mem_unmap_entries k as False (vaddr + of_nat r * PAGE_SIZE) l n pte vaddr st =
        Inr (n', l', vaddr + of_nat c * PAGE_SIZE, st') \<and> unmap_result as l r vaddr st n' l' c st' \<and>
      (\<not> pte_table (mmk_pte k) (pt_dscr (sp_pt as)) (mm_pte st pte) l \<longrightarrow> 0 < c \<or> l' = Suc l))"
proof (induction n arbitrary: pte vaddr r st)
  case 0
  then show ?case by simp
next
  case (Suc n)
  let ?P = "mmk_pte k" and ?d = "pt_dscr (sp_pt as)" and ?tp = "vaddr + of_nat r * PAGE_SIZE" and ?v = "mm_pte st pte"
  note ok = Suc.prems(1) and re = Suc.prems(2) and r0 = Suc.prems(3) and w = Suc.prems(5)
  note d = sp_okD(1) [OF ok] and t = sp_okD(2) [OF ok]
  note rs = root_entry_step [OF d re]
  have lt: "vaddr < ?tp" unfolding word_less_unat rs(4) [OF le_refl] using r0 by simp
  have val: "pte_valid ?P ?v"
  proof (rule ccontr)
    assume inv: "\<not> pte_valid ?P ?v"
    then have "as_end k as (mm_pte st) vaddr l pte" using w l by (simp add: pt_end_def)
    then have "as_maps k as (mm_pte st) vaddr None" using inv by (simp add: maps_end)
    moreover have "in_pages as vaddr r vaddr" using r0 by (simp add: in_pages_def)
    ultimately show False using Suc.prems(4) by blast
  qed
  show ?case
  proof (cases "pte_table ?P ?d ?v l")
    case True
    then have "mem_unmap_entries k as False ?tp l (Suc n) pte vaddr st = Inr (Suc n, l, vaddr, st)" by simp
    then show ?thesis using True ok r0 w l
      by (intro disjI2 exI [of _ "Suc n"] exI [of _ l] exI [of _ 0] exI [of _ st]) (simp add: unmap_result_def)
  next
    case leaf: False
    have e: "as_end k as (mm_pte st) vaddr l pte" using w l leaf by (simp add: pt_end_def)
    note pi = partial_iff [OF d l re r0]
    show ?thesis
    proof (cases "2 ^ (lvl_off ?d ! l) dvd unat vaddr \<and> lvl_pages ?d l \<le> r")
      case False
      have sl: "Suc l < lvls ?d"
      proof (rule ccontr)
        assume "\<not> Suc l < lvls ?d"
        then have "l = lvls ?d - 1" using l by simp
        then have "lvl_off ?d ! l = 12" using off_last [OF d] by simp
        then show False using False re r0 by (simp add: lvl_pages_def in_root_entry_def)
      qed
      have body: "mem_unmap_entries k as False ?tp l (Suc n) pte vaddr st =
          obind (mem_expand_pte k as vaddr l st) (\<lambda>st. Inr (Suc n, l + 1, vaddr, st))"
        using lt leaf pi False by (simp add: Let_def)
      show ?thesis
      proof (rule expand_pte [OF ok e sl val])
        assume "mem_expand_pte k as vaddr l st = Inl NULL_DEREF" "pt_refused k as (mm_pools st)"
        moreover from this(2) have "exhausted k as False vaddr r st" by (rule exhausted_here [OF ok e sl r0])
        ultimately show ?thesis unfolding body by simp
      next
        fix st' q
        assume x: "mem_expand_pte k as vaddr l st = Inr st'" "sp_ok k bits as st'" "sp_step k as st st'"
          "\<And>va' r. as_maps k as (mm_pte st') va' r \<longleftrightarrow> as_maps k as (mm_pte st) va' r"
          "as_walk k as (mm_pte st') (Suc l) vaddr = Some q"
          and tb: "as_tabs k as (mm_pte st') = insert (l, as_blk as l vaddr) (as_tabs k as (mm_pte st))"
            "(l, as_blk as l vaddr) \<notin> as_tabs k as (mm_pte st)" and g1: "card (grown st st') = 1"
        have "unmap_result as l r vaddr st (Suc n) (Suc l) 0 st'"
          unfolding unmap_result_def using x(2-5) sl spent_table [OF r0 sl tb(2,1) g1] by (simp del: pt_walk.simps)
        then show ?thesis unfolding body x(1)
          by (intro disjI2 exI [of _ "Suc n"] exI [of _ "Suc l"] exI [of _ 0] exI [of _ st']) simp
      qed
    next
      case whole: True
      let ?sz = "lvl_pages ?d l"
      let ?va = "vaddr + of_nat ?sz * PAGE_SIZE"
      define st1 where "st1 = st\<lparr>mm_pte := (mm_pte st)(pte := 0)\<rparr>"
      note pg = lvl_pages [OF d l]
      have al: "2 ^ (lvl_off ?d ! l) dvd unat vaddr" and szr: "?sz \<le> r" using whole by auto
      note ce = clear_entry [OF ok l w al, folded st1_def]
      have body: "mem_unmap_entries k as False ?tp l (Suc n) pte vaddr st =
          mem_unmap_entries k as False ?tp l n (pte + 8) ?va st1"
        using lt leaf pi whole by (simp add: Let_def st1_def pg(4))
      have sp1: "spent k as False vaddr r ?va (r - ?sz) st st1"
        by (rule spent_entry [OF d l rs(1) szr al ce(5)]) (simp_all add: st1_def grown_def)
      show ?thesis
      proof (cases "?sz < r \<and> 0 < n")
        case more: True
        then have lts: "?sz < r" by simp
        have nb: "Suc n + as_blk as l vaddr mod 512 \<le> 512" if "0 < l" using Suc.prems(7) that by simp
        have l0: "0 < l" by (rule whole_root [OF d l re al lts])
        note es = entry_step [OF d l rs(1) szr al w nb]
        have w1: "as_walk k as (mm_pte st1) l ?va = Some (pte + 8)" using es(2) more ce(4) [of ?va] by simp
        have nb1: "n + as_blk as l ?va mod 512 \<le> 512" if "0 < l" using es(3) lts that by simp
        have tp: "?va + of_nat (r - ?sz) * PAGE_SIZE = ?tp"
        proof -
          have "(of_nat ?sz :: u64) + of_nat (r - ?sz) = of_nat r" using szr by (metis le_add_diff_inverse of_nat_add)
          then show ?thesis by (metis add.assoc distrib_right)
        qed
        have low: "as_low as ?va = as_low as vaddr + ?sz * 4096" by (rule va_room_step(2) [OF d rs(1) szr lts])
        have mapped: "\<forall>va'. in_pages as ?va (r - ?sz) va' \<longrightarrow> \<not> as_maps k as (mm_pte st1) va' None"
        proof (intro allI impI)
          fix va' assume "in_pages as ?va (r - ?sz) va'"
          with low szr have "in_pages as vaddr r va'" "\<not> in_pages as vaddr ?sz va'" by (auto simp: in_pages_def)
          then show "\<not> as_maps k as (mm_pte st1) va' None" using Suc.prems(4) ce(3) by (simp add: unmapped_def)
        qed
        have IH: "mem_unmap_entries k as False ?tp l n (pte + 8) ?va st1 = Inl NULL_DEREF \<and> exhausted k as False ?va (r - ?sz) st1 \<or>
          (\<exists>n' l' c st'. mem_unmap_entries k as False ?tp l n (pte + 8) ?va st1 = Inr (n', l', ?va + of_nat c * PAGE_SIZE, st') \<and>
             unmap_result as l (r - ?sz) ?va st1 n' l' c st' \<and>
             (\<not> pte_table ?P ?d (mm_pte st1 (pte + 8)) l \<longrightarrow> 0 < c \<or> l' = Suc l))"
          using Suc.IH [OF ce(1) rs(2) [OF lts] _ mapped w1 _ nb1] more unfolding tp by simp
        then show ?thesis
        proof
          assume "mem_unmap_entries k as False ?tp l n (pte + 8) ?va st1 = Inl NULL_DEREF \<and> exhausted k as False ?va (r - ?sz) st1"
          then show ?thesis unfolding body using exhausted_step [OF ce(2) sp1] by blast
        next
          assume "\<exists>n' l' c st'. mem_unmap_entries k as False ?tp l n (pte + 8) ?va st1 = Inr (n', l', ?va + of_nat c * PAGE_SIZE, st') \<and>
             unmap_result as l (r - ?sz) ?va st1 n' l' c st' \<and>
             (\<not> pte_table ?P ?d (mm_pte st1 (pte + 8)) l \<longrightarrow> 0 < c \<or> l' = Suc l)"
          then obtain n' l' c st' where x: "mem_unmap_entries k as False ?tp l n (pte + 8) ?va st1 = Inr (n', l', ?va + of_nat c * PAGE_SIZE, st')"
            and u: "unmap_result as l (r - ?sz) ?va st1 n' l' c st'" by blast
          have c: "?va + of_nat c * PAGE_SIZE = vaddr + of_nat (?sz + c) * PAGE_SIZE" by (simp add: distrib_right add.assoc)
          have "unmapped k as vaddr (?sz + c) (mm_pte st) (mm_pte st')"
            using u by (intro unmapped_trans [OF ce(3)] low) (simp_all add: unmap_result_def)
          moreover have "sp_step k as st st'" using sp_step_trans [OF ce(2)] u by (simp add: unmap_result_def)
          moreover have wn: "as_walk k as (mm_pte st') l vaddr \<noteq> None" if "as_walk k as (mm_pte st') l ?va \<noteq> None"
          proof -
            obtain j where j: "l = Suc j" using l0 by (cases l) auto
            have "as_blk as j ?va = as_blk as j vaddr"
            proof -
              have l': "Suc j < lvls ?d" using l j by simp
              have "as_blk as l ?va = as_blk as l vaddr + 1" using low pg(2) by (simp add: blk_def div_add_self2)
              moreover have "as_blk as l vaddr mod 512 + 1 < 512" using nb [OF l0] more by simp
              ultimately show ?thesis unfolding blk_Suc_div [OF d l'] j by (simp add: div_Suc mod_Suc)
            qed
            then have "as_walk k as (mm_pte st') j ?va = as_walk k as (mm_pte st') j vaddr" using l j by (intro walk_cong [OF d]) simp_all
            then show ?thesis using that j by (auto split: option.splits if_splits)
          qed
          moreover have "spent k as False vaddr r (?va + of_nat c * PAGE_SIZE) (r - (?sz + c)) st st'"
            using spent_trans [OF ce(2) _ sp1] u by (simp add: unmap_result_def)
          ultimately have "unmap_result as l r vaddr st n' l' (?sz + c) st'"
            using u szr wn unfolding unmap_result_def c [symmetric] by (auto simp del: pt_walk.simps)
          then show ?thesis unfolding body x c using pg(3)
            by (intro disjI2 exI [of _ n'] exI [of _ l'] exI [of _ "?sz + c"] exI [of _ st']) simp
        qed
      next
        case False
        have x: "mem_unmap_entries k as False ?tp l n (pte + 8) ?va st1 = Inr (n, l, ?va, st1)"
        proof (cases n)
          case (Suc n')
          with False szr have "r = ?sz" by simp
          then show ?thesis using Suc by simp
        qed simp
        have "as_walk k as (mm_pte st1) l vaddr \<noteq> None" using ce(4) w by simp
        moreover have "0 < l" if "?sz < r" by (rule whole_root [OF d l re al that])
        ultimately have "unmap_result as l r vaddr st n l ?sz st1"
          unfolding unmap_result_def using ce(1-3) szr sp1 False by (auto simp del: pt_walk.simps)
        then show ?thesis unfolding body x using pg(3)
          by (intro disjI2 exI [of _ n] exI [of _ l] exI [of _ ?sz] exI [of _ st1]) simp
      qed
    qed
  qed
qed

text \<open>On three levels the level above the one just left can be walked to inside the entry of the root.\<close>

lemma walk_up:
  assumes d: "dscr_ok (pt_dscr (sp_pt as))" and l: "l < lvls (pt_dscr (sp_pt as))" "lvls (pt_dscr (sp_pt as)) = 3" "0 < l"
    and w: "as_walk k as m l va \<noteq> None" and b: "as_blk as 0 va' = as_blk as 0 va"
  shows "as_walk k as m (l - 1) va' \<noteq> None"
proof (cases "l = 1")
  case False
  then have l2: "l = Suc (Suc 0)" using l by simp
  then obtain p where "as_walk k as m l va = Some p" using w by auto
  from walk_prefix [OF this l(3)] obtain q where q: "as_walk k as m 0 va = Some q" "pte_valid (mmk_pte k) (m q)"
    "pte_table (mmk_pte k) (pt_dscr (sp_pt as)) (m q) 0" by blast
  moreover have "as_walk k as m 0 va' = as_walk k as m 0 va" by (rule walk_cong [OF d]) (use l b in simp_all)
  ultimately have "as_walk k as m (Suc 0) va' \<noteq> None" by (simp only: pt_walk.simps(2)) simp
  with l2 show ?thesis by simp
qed simp

lemma unmap_loop:
  assumes l3: "lvls (pt_dscr (sp_pt as)) = 3"
  shows "sp_ok k bits as st \<Longrightarrow> (0 < r \<Longrightarrow> in_root_entry as vaddr r) \<Longrightarrow>
    \<forall>va'. in_pages as vaddr r va' \<longrightarrow> \<not> as_maps k as (mm_pte st) va' None \<Longrightarrow>
    (0 < r \<Longrightarrow> l < 3 \<and> as_walk k as (mm_pte st) l vaddr \<noteq> None) \<Longrightarrow>
    mem_unmap_loop k as False (vaddr + of_nat r * PAGE_SIZE) vaddr l st = Some (Inl NULL_DEREF) \<and> exhausted k as False vaddr r st \<or>
    (\<exists>st'. mem_unmap_loop k as False (vaddr + of_nat r * PAGE_SIZE) vaddr l st = Some (Inr st') \<and>
       sp_ok k bits as st' \<and> sp_step k as st st' \<and> unmapped k as vaddr r (mm_pte st) (mm_pte st'))"
proof (induction "r * 4 + (3 - l)" arbitrary: r vaddr l st rule: less_induct)
  case less
  let ?P = "mmk_pte k" and ?d = "pt_dscr (sp_pt as)" and ?tp = "vaddr + of_nat r * PAGE_SIZE"
  note ok = less.prems(1) and d = sp_okD(1) [OF less.prems(1)] and t = sp_okD(2) [OF less.prems(1)]
  show ?case
  proof (cases "r = 0")
    case True
    then have "mem_unmap_loop k as False ?tp vaddr l st = Some (Inr st)" by (subst mem_unmap_loop.simps) simp
    with True ok show ?thesis by simp
  next
    case False
    then have r0: "0 < r" by simp
    note re = less.prems(2) [OF r0]
    note rs = root_entry_step [OF d re]
    have lt: "vaddr < ?tp" unfolding word_less_unat rs(4) [OF le_refl] using r0 by simp
    from less.prems(4) [OF r0] obtain p where l: "l < lvls ?d" and w: "as_walk k as (mm_pte st) l vaddr = Some p" using l3 by auto
    have p0: "p \<noteq> 0" by (rule pt_treeD(2) [OF t l w])
    have gp: "pt_get_pte ?P (mm_pte st) (sp_pt as) l vaddr = p" by (rule as_get_pte [OF ok l w])
    have val: "pte_valid ?P (mm_pte st p)"
    proof (rule ccontr)
      assume inv: "\<not> pte_valid ?P (mm_pte st p)"
      then have "as_end k as (mm_pte st) vaddr l p" using w l by (simp add: pt_end_def)
      then have "as_maps k as (mm_pte st) vaddr None" using inv by (simp add: maps_end)
      moreover have "in_pages as vaddr r vaddr" using r0 by (simp add: in_pages_def)
      ultimately show False using less.prems(3) by blast
    qed
    let ?n = "unat (pt_nentries ?d l) - unat (pt_getpteindex ?d p l)"
    have body: "mem_unmap_loop k as False ?tp vaddr l st =
      (if pte_table ?P ?d (mm_pte st p) l then mem_unmap_loop k as False ?tp vaddr (l + 1) st
       else (case mem_unmap_entries k as False ?tp l ?n p vaddr st of Inl e \<Rightarrow> Some (Inl e)
         | Inr (n, l, vaddr, st) \<Rightarrow> mem_unmap_loop k as False ?tp vaddr (if n = 0 then pred64 l else l) st))"
      using lt l p0 val by (subst mem_unmap_loop.simps) (simp add: gp Let_def)
    show ?thesis
    proof (cases "pte_table ?P ?d (mm_pte st p) l")
      case True
      have "l \<noteq> lvls ?d - 1" using pt_treeD(3) [OF t l w] val True unfolding entry_ok_def by blast
      then have sl: "Suc l < 3" using l l3 by simp
      have w1: "as_walk k as (mm_pte st) (Suc l) vaddr \<noteq> None" using w val True by simp
      have "r * 4 + (3 - Suc l) < r * 4 + (3 - l)" using sl by simp
      from less.hyps [OF this ok re less.prems(3)] sl w1 show ?thesis unfolding body using True by simp
    next
      case False
      have n: "0 < ?n" using pteindex_less [OF d l, of p] by simp
      from unmap_entries [OF l ok re r0 less.prems(3) w n entries_left [OF d l w]] False
      consider (exhausted) "mem_unmap_entries k as False ?tp l ?n p vaddr st = Inl NULL_DEREF" "exhausted k as False vaddr r st"
        | (more) n' l' c st' where "mem_unmap_entries k as False ?tp l ?n p vaddr st = Inr (n', l', vaddr + of_nat c * PAGE_SIZE, st')"
          "unmap_result as l r vaddr st n' l' c st'" "0 < c \<or> l' = Suc l" by blast
      then show ?thesis
      proof cases
        case exhausted
        then show ?thesis unfolding body using False by simp
      next
        case more
        let ?va = "vaddr + of_nat c * PAGE_SIZE" and ?l = "if n' = 0 then pred64 l' else l'"
        have sp: "spent k as False vaddr r ?va (r - c) st st'" using more(2) by (simp add: unmap_result_def)
        have u: "c \<le> r" "sp_ok k bits as st'" "sp_step k as st st'" "unmapped k as vaddr c (mm_pte st) (mm_pte st')"
          using more(2) by (simp_all add: unmap_result_def)
        have next_l: "?l < 3 \<and> as_walk k as (mm_pte st') ?l ?va \<noteq> None" if cr: "c < r"
        proof (cases "n' = 0")
          case True
          then have z: "l' = l" "0 < l" "as_walk k as (mm_pte st') l vaddr \<noteq> None" using more(2) cr by (simp_all add: unmap_result_def)
          have "pred64 l = l - 1" using z(2) l l3 by simp
          with walk_up [OF d l l3 z(2,3) rs(3) [OF cr]] z True l l3 show ?thesis by simp
        next
          case False
          then show ?thesis using more(2) cr l3 by (simp add: unmap_result_def)
        qed
        have tp: "?va + of_nat (r - c) * PAGE_SIZE = ?tp"
        proof -
          have "(of_nat c :: u64) + of_nat (r - c) = of_nat r" using u(1) by (metis le_add_diff_inverse of_nat_add)
          then show ?thesis by (metis add.assoc distrib_right)
        qed
        have low: "as_low as ?va = as_low as vaddr + c * 4096" if "0 < r - c"
          by (rule va_room_step(2) [OF d rs(1) u(1)]) (use that in simp)
        have meas: "(r - c) * 4 + (3 - ?l) < r * 4 + (3 - l)"
        proof (cases "0 < c")
          case True
          moreover have "(r - c) + c = r" using u(1) by simp
          ultimately show ?thesis using l l3 by linarith
        next
          case c0: False
          with more(3) have l': "l' = Suc l" by simp
          have "n' \<noteq> 0"
          proof
            assume "n' = 0"
            then have "l' = l" using more(2) c0 r0 by (simp add: unmap_result_def)
            with l' show False by simp
          qed
          with c0 l' l l3 show ?thesis by simp
        qed
        have mapped: "\<forall>va'. in_pages as ?va (r - c) va' \<longrightarrow> \<not> as_maps k as (mm_pte st') va' None"
        proof (intro allI impI)
          fix va' assume i: "in_pages as ?va (r - c) va'"
          then have "0 < r - c" by (cases "r - c") auto
          with i low u(1) have "in_pages as vaddr r va'" "\<not> in_pages as vaddr c va'" by (auto simp: in_pages_def)
          then show "\<not> as_maps k as (mm_pte st') va' None" using less.prems(3) u(4) by (simp add: unmapped_def)
        qed
        have "mem_unmap_loop k as False ?tp ?va ?l st' = Some (Inl NULL_DEREF) \<and> exhausted k as False ?va (r - c) st' \<or>
          (\<exists>st''. mem_unmap_loop k as False ?tp ?va ?l st' = Some (Inr st'') \<and>
             sp_ok k bits as st'' \<and> sp_step k as st' st'' \<and> unmapped k as ?va (r - c) (mm_pte st') (mm_pte st''))"
          using less.hyps [OF meas u(2) _ mapped] rs(2) next_l unfolding tp by (metis zero_less_diff)
        then show ?thesis
        proof
          assume "mem_unmap_loop k as False ?tp ?va ?l st' = Some (Inl NULL_DEREF) \<and> exhausted k as False ?va (r - c) st'"
          then show ?thesis unfolding body more(1) using False exhausted_step [OF u(3) sp] by simp
        next
          assume "\<exists>st''. mem_unmap_loop k as False ?tp ?va ?l st' = Some (Inr st'') \<and>
             sp_ok k bits as st'' \<and> sp_step k as st' st'' \<and> unmapped k as ?va (r - c) (mm_pte st') (mm_pte st'')"
          then obtain st'' where x: "mem_unmap_loop k as False ?tp ?va ?l st' = Some (Inr st'')" "sp_ok k bits as st''"
            "sp_step k as st' st''" "unmapped k as ?va (r - c) (mm_pte st') (mm_pte st'')" by blast
          have "unmapped k as vaddr (c + (r - c)) (mm_pte st) (mm_pte st'')" by (rule unmapped_trans [OF u(4) x(4) low])
          moreover have "c + (r - c) = r" using u(1) by simp
          ultimately show ?thesis unfolding body more(1) using False x sp_step_trans [OF u(3) x(3)] by simp
        qed
      qed
    qed
  qed
qed

lemma mem_unmap_range:
  assumes l3: "lvls (pt_dscr (sp_pt as)) = 3" and ok: "sp_ok k bits as st" and r: "in_root_entry as va n"
    and sec: "mem_find_sec k as va = Some s" and m: "\<And>va'. in_pages as va n va' \<Longrightarrow> \<not> as_maps k as (mm_pte st) va' None"
  shows "mem_unmap_mmu k as va n False st = Inl NULL_DEREF \<and> exhausted k as False va n st \<or>
    (\<exists>st'. mem_unmap_mmu k as va n False st = Inr st' \<and>
       sp_ok k bits as st' \<and> sp_step k as st st' \<and> unmapped k as va n (mm_pte st) (mm_pte st'))"
  using unmap_loop [OF l3 ok r, of 0] m sec by (auto simp: mem_unmap_mmu_def returned_def)

end

end
