(* ===== verification/Mmu_Init.thy ===== *)
theory Mmu_Init
  imports Mmu
begin

text \<open>
  Creating address spaces, \<open>as_init\<close> of \<open>src/src/core/mmu/mem.c\<close> with \<open>as_arch_init\<close> of
  \<open>src/src/arch/riscv/mem.c\<close>, and the operations that combine two address spaces: allocating
  pages in the hypervisor's space, \<open>mem_alloc_page\<close>, and copying a mapping, \<open>mem_map_cpy\<close>.
  A failed allocation is the pointer \<open>INVALID_VA\<close>, which is not an address of any object.
\<close>

section \<open>Allocating pages of the hypervisor\<close>

definition mem_alloc_page_mmu :: "mmu_params \<Rightarrow> mmu_space \<Rightarrow> nat \<Rightarrow> nat \<Rightarrow> bool \<Rightarrow> mmu \<Rightarrow> (u64 \<times> mmu) outcome" where
  "mem_alloc_page_mmu k cpu_as num_pages sec phys_aligned st =
     obind (mem_alloc_ppages (pp_alloc_clr_mmu (mmk_color_num k) (mmk_color_size k)) (mmk_color_num k)
              (mm_pools st) (sp_colors cpu_as) num_pages phys_aligned)
       (\<lambda>(pools, ppages).
          let st = st\<lparr>mm_pools := pools\<rparr>
          in if pa_num ppages = num_pages then
               mem_alloc_map_mmu k cpu_as sec (Some ppages) INVALID_VA num_pages (PTE_HYP_FLAGS (mmk_pte k)) st
             else Inr (INVALID_VA, st))"

section \<open>Initialising an address space\<close>

definition as_id_alloc_mmu :: "AS_TYPE \<Rightarrow> mmu \<Rightarrow> u64 \<times> mmu" where
  "as_id_alloc_mmu type st = (if type \<noteq> AS_HYP then (mm_asid st, st\<lparr>mm_asid := mm_asid st + 1\<rparr>) else (0, st))"

text \<open>The loop over the entries of a region, \<open>n\<close> of them.\<close>

fun identity_entries :: "pte_ops \<Rightarrow> page_table_dscr \<Rightarrow> u64 \<Rightarrow> nat \<Rightarrow> u64 \<Rightarrow> (u64 \<Rightarrow> u64) \<Rightarrow> (u64 \<Rightarrow> u64)" where
  "identity_entries P d pt 0 addr m = m"
| "identity_entries P d pt (Suc n) addr m =
     identity_entries P d pt n (addr + pt_lvlsize d 0)
       (m(pt + 8 * pt_getpteindex_by_va d addr 0 := pte_set P addr (PTE_SUPERPAGE P) (PTE_HYP_FLAGS P)))"

text \<open>The platform's regions are pairs of a base and a size.\<close>

definition as_map_physical_identity :: "pte_ops \<Rightarrow> (u64 \<times> u64) list \<Rightarrow> mmu_space \<Rightarrow> (u64 \<Rightarrow> u64) \<Rightarrow> (u64 \<Rightarrow> u64)" where
  "as_map_physical_identity P regions as =
     fold (\<lambda>(reg_base, reg_size) m.
        let d = pt_dscr (sp_pt as); lvl_size = pt_lvlsize d 0; lvl_mask = NOT (lvl_size - 1);
            base = reg_base AND lvl_mask; tp = ALIGN (reg_base + reg_size) lvl_size AND lvl_mask;
            num_entries = (tp - base - 1) div lvl_size + 1
        in identity_entries P d (pt_root (sp_pt as)) (unat num_entries) base m) regions"

definition as_arch_init :: "pte_ops \<Rightarrow> (u64 \<times> u64) list \<Rightarrow> mmu_space \<Rightarrow> (u64 \<Rightarrow> u64) \<Rightarrow> (u64 \<Rightarrow> u64)" where
  "as_arch_init P regions as m = (if sp_type as = AS_HYP then as_map_physical_identity P regions as m else m)"

text \<open>
  \<open>root_pt\<close> is 0 when the root table is to be allocated, in the space \<open>cpu_as\<close> of the processor and the
  section \<open>hyp_private\<close> or \<open>hyp_vm\<close>.
\<close>

definition as_init_mmu :: "mmu_params \<Rightarrow> (u64 \<times> u64) list \<Rightarrow> nat \<Rightarrow> nat \<Rightarrow> mmu_space \<Rightarrow> AS_TYPE \<Rightarrow> u64 \<Rightarrow> u64 \<Rightarrow> mmu \<Rightarrow>
    (mmu_space \<times> mmu) outcome" where
  "as_init_mmu k regions hyp_private hyp_vm cpu_as type root_pt colors st =
     (let hyp = (type = AS_HYP \<or> type = AS_HYP_CPY); d = (if hyp then mmk_hyp_dscr k else mmk_vm_dscr k);
          (i, st) = as_id_alloc_mmu type st; n = unat (NUM_PAGES (pt_size d 0))
      in obind
           (if root_pt = 0 then
              obind (mem_alloc_page_mmu k cpu_as n (if hyp then hyp_private else hyp_vm) True st)
                (\<lambda>(root, st). if root = INVALID_VA then Inl OUT_OF_BOUNDS
                   else Inr (root, st\<lparr>mm_pte := pt_fill (mm_pte st) root (n * 512) 0\<rparr>))
            else Inr (root_pt, st))
           (\<lambda>(root, st).
              let as = \<lparr>sp_pt = \<lparr>pt_root = root, pt_dscr = d\<rparr>, sp_type = type, sp_colors = colors, sp_id = i\<rparr>
              in Inr (as, st\<lparr>mm_pte := as_arch_init (mmk_pte k) regions as (mm_pte st)\<rparr>)))"

definition vm_mem_prot_init :: "mmu_params \<Rightarrow> (u64 \<times> u64) list \<Rightarrow> nat \<Rightarrow> nat \<Rightarrow> mmu_space \<Rightarrow> u64 \<Rightarrow> mmu \<Rightarrow> (mmu_space \<times> mmu) outcome" where
  "vm_mem_prot_init k regions hyp_private hyp_vm cpu_as colors st =
     as_init_mmu k regions hyp_private hyp_vm cpu_as AS_VM 0 colors st"

section \<open>Copying a mapping\<close>

text \<open>The descent to the page that maps \<open>vas\<close>; \<open>n\<close> levels are left.\<close>

fun cpy_page :: "mmu_params \<Rightarrow> mmu_space \<Rightarrow> u64 \<Rightarrow> nat \<Rightarrow> nat \<Rightarrow> mmu \<Rightarrow> (u64 \<times> nat) outcome" where
  "cpy_page k ass vas 0 lvl st = Inl OUT_OF_BOUNDS"
| "cpy_page k ass vas (Suc n) lvl st =
     (let pte = pt_get_pte (mmk_pte k) (mm_pte st) (sp_pt ass) lvl vas
      in if pte = 0 then Inl NULL_DEREF
         else if pte_page (mmk_pte k) (pt_dscr (sp_pt ass)) (mm_pte st pte) lvl then Inr (pte, lvl)
         else cpy_page k ass vas n (lvl + 1) st)"

partial_function (option) cpy_loop :: "mmu_params \<Rightarrow> mmu_space \<Rightarrow> mmu_space \<Rightarrow> nat \<Rightarrow> u64 \<Rightarrow> u64 \<Rightarrow> nat \<Rightarrow> u64 \<Rightarrow> mmu \<Rightarrow> mmu outcome option" where
  "cpy_loop k ass asd num_pages vas vad count to_map st =
     (if count < num_pages then
        (case cpy_page k ass vas (lvls (pt_dscr (sp_pt ass))) 0 st of
           Inl e \<Rightarrow> Some (Inl e)
         | Inr (pte, lvl) \<Rightarrow>
             (let lvl_size = pt_lvlsize (pt_dscr (sp_pt ass)) lvl; sz = (if to_map < lvl_size then to_map else lvl_size);
                  npages = unat (NUM_PAGES sz);
                  pa = pte_addr (mmk_pte k) (mm_pte st pte) + (vas - ALIGN_FLOOR vas lvl_size)
              in case mem_map_mmu k asd vad (Some (mem_ppages_get pa npages)) npages (PTE_HYP_FLAGS (mmk_pte k)) st of
                   Inl e \<Rightarrow> Some (Inl e)
                 | Inr (_, st) \<Rightarrow> cpy_loop k ass asd num_pages (vas + sz) (vad + sz) (count + npages) (to_map - sz) st))
      else Some (Inr st))"

definition mem_map_cpy_mmu :: "mmu_params \<Rightarrow> mmu_space \<Rightarrow> mmu_space \<Rightarrow> nat \<Rightarrow> u64 \<Rightarrow> u64 \<Rightarrow> nat \<Rightarrow> mmu \<Rightarrow> (u64 \<times> mmu) outcome" where
  "mem_map_cpy_mmu k ass asd asd_section vas vad num_pages st =
     obind (mem_alloc_vpage k asd asd_section vad num_pages st)
       (\<lambda>(base_vad, st).
          if base_vad \<noteq> INVALID_VA then
            obind (returned (cpy_loop k ass asd num_pages vas base_vad 0 (of_nat num_pages * PAGE_SIZE) st))
              (\<lambda>st. Inr (base_vad, st))
          else Inr (base_vad, st))"

end
