(* ===== verification/Mmu_Spaces.thy ===== *)
theory Mmu_Spaces
  imports Mmu_Vpage Mmu_Unmap Mmu_Init
begin

text \<open>
  What the address spaces of a RISC-V system guarantee: the operations of \<open>core/mmu/mem.c\<close> on
  Sv39 and Sv39x4 page tables, through the interpretation \<open>riscv_mmu\<close> of the contract of the entries.
  Each property also says that the other address spaces keep their translations.
\<close>

section \<open>Address spaces of RISC-V\<close>

definition riscv_space :: "mmu_params \<Rightarrow> mmu_space \<Rightarrow> mmu \<Rightarrow> bool" where
  "riscv_space k as st \<longleftrightarrow> mmk_pte k = riscv_pte_ops \<and> pt_dscr (sp_pt as) \<in> {sv39_pt_dscr, sv39x4_pt_dscr} \<and> sp_ok k 56 as st"

text \<open>The tables of the other address space are neither tables of this one nor free pages.\<close>

definition apart :: "mmu_params \<Rightarrow> mmu_space \<Rightarrow> mmu \<Rightarrow> mmu_space \<Rightarrow> bool" where
  "apart k as st as2 \<longleftrightarrow> riscv_space k as2 st \<and>
     as_frames k as2 (mm_pte st) \<inter> (as_frames k as (mm_pte st) \<union> (pools_frames (mm_pools st) - pools_used (mm_pools st))) = {}"

text \<open>Every other address space translates as before.\<close>

definition others_kept :: "mmu_params \<Rightarrow> mmu_space \<Rightarrow> mmu \<Rightarrow> mmu \<Rightarrow> bool" where
  "others_kept k as st st' \<longleftrightarrow> (\<forall>as2. apart k as st as2 \<longrightarrow> riscv_space k as2 st' \<and>
     (\<forall>va. mem_translate_mmu k as2 va st' = mem_translate_mmu k as2 va st))"

text \<open>
  The address space has no colors, the free counters of the pools are exact and there is a free page for
  every table that is missing on the way to the range and, with \<open>data\<close>, for every page of the range.
\<close>

definition enough_pages :: "mmu_params \<Rightarrow> mmu_space \<Rightarrow> bool \<Rightarrow> u64 \<Rightarrow> nat \<Rightarrow> mmu \<Rightarrow> bool" where
  "enough_pages k as data va n st \<longleftrightarrow> all_clrs (mmk_color_num k) (sp_colors as) \<and> pools_exact (mm_pools st) \<and>
     need k as data va n st \<le> card (pools_frames (mm_pools st) - pools_used (mm_pools st))"

lemma exhausted_not_enough: "exhausted k as data va n st \<Longrightarrow> \<not> enough_pages k as data va n st"
proof
  assume "exhausted k as data va n st" and en: "enough_pages k as data va n st"
  then obtain st' where step: "sp_step k as st st'" and lt: "card (grown st st') < need k as data va n st"
    and wf: "pools_wf (mmk_color_num k) (mmk_color_size k) (mm_pools st')"
    and r: "pt_refused k as (mm_pools st') \<or>
      data \<and> fst (pools_alloc (mmk_color_num k) (mmk_color_size k) (mm_pools st') (1, sp_colors as, True)) = None"
    unfolding exhausted_def by blast
  have c: "all_clrs (mmk_color_num k) (sp_colors as)" and ex: "pools_exact (mm_pools st')"
    using en step by (auto simp: enough_pages_def sp_step_def)
  have "pools_frames (mm_pools st') \<subseteq> pools_used (mm_pools st')"
    using r pools_refused_full [OF wf _ _ ex] c unfolding pt_refused_def by blast
  then have "pools_frames (mm_pools st) - pools_used (mm_pools st) \<subseteq> grown st st'"
    using step by (auto simp: grown_def sp_step_def)
  moreover have "finite (grown st st')" by (simp add: grown_def pools_used_def)
  ultimately have "card (pools_frames (mm_pools st) - pools_used (mm_pools st)) \<le> card (grown st st')" by (rule card_mono [rotated])
  with lt en show False by (simp add: enough_pages_def)
qed

lemma riscv_spaceD:
  assumes "riscv_space k as st"
  shows "riscv_mmu k = k" and "sp_ok k 56 as st" and "dscr_ok (pt_dscr (sp_pt as))"
    and "\<forall>l < lvls (pt_dscr (sp_pt as)). lvl_term (pt_dscr (sp_pt as)) ! l" and "lvls (pt_dscr (sp_pt as)) = 3"
proof -
  have a: "mmk_pte k = riscv_pte_ops" "pt_dscr (sp_pt as) \<in> {sv39_pt_dscr, sv39x4_pt_dscr}" "sp_ok k 56 as st"
    using assms by (simp_all add: riscv_space_def)
  show "riscv_mmu k = k" using a(1) by (cases k) (simp add: riscv_mmu_def)
  show "sp_ok k 56 as st" by (rule a(3))
  show "dscr_ok (pt_dscr (sp_pt as))" "\<forall>l < lvls (pt_dscr (sp_pt as)). lvl_term (pt_dscr (sp_pt as)) ! l"
    "lvls (pt_dscr (sp_pt as)) = 3" by (fact sv39_dscr [OF a(2)])+
qed

lemma translate_total: "sp_ok k bits as st \<Longrightarrow> \<exists>r. mem_translate_mmu k as va st = Inr r"
  using end_exists [OF sp_okD(1,2)] by (metis maps_end sp_ok_translate)

lemma translate_eqI:
  assumes ok: "sp_ok k bits as st" and ok': "sp_ok k bits2 as' st'"
    and m: "\<And>r. as_maps k as' (mm_pte st') va' r \<longleftrightarrow> as_maps k as (mm_pte st) va r"
  shows "mem_translate_mmu k as' va' st' = mem_translate_mmu k as va st"
proof -
  obtain r where r: "mem_translate_mmu k as va st = Inr r" using translate_total [OF ok] by blast
  with sp_ok_translate [OF ok] m sp_ok_translate [OF ok'] show ?thesis by metis
qed

text \<open>Whether an address is mapped depends on its bits in the range of the descriptor only.\<close>

lemma translate_none_low:
  assumes "riscv_space k as st" and "as_low as va = as_low as va'"
  shows "mem_translate_mmu k as va st = Inr None \<longleftrightarrow> mem_translate_mmu k as va' st = Inr None"
proof -
  note r = riscv_spaceD [OF assms(1)]
  have "as_end k as (mm_pte st) va l p \<longleftrightarrow> as_end k as (mm_pte st) va' l p" for l p
    using walk_cong [OF r(3), of l va va' "mmk_pte k" "mm_pte st" "pt_root (sp_pt as)"] assms(2) by (auto simp: pt_end_def blk_def)
  then show ?thesis unfolding sp_ok_translate [OF r(2)] pt_maps_def by (simp cong: conj_cong)
qed

lemma step_riscv_space:
  assumes "riscv_space k as st" and "sp_ok k 56 as st'"
  shows "riscv_space k as st'"
  using assms by (simp add: riscv_space_def)

lemma step_others:
  assumes ok': "sp_ok k 56 as st'" and step: "sp_step k as st st'"
  shows "others_kept k as st st'"
  unfolding others_kept_def
proof (intro allI impI conjI)
  fix as2 va assume a: "apart k as st as2"
  then have o: "sp_ok k 56 as2 st" "mmk_pte k = riscv_pte_ops" "pt_dscr (sp_pt as2) \<in> {sv39_pt_dscr, sv39x4_pt_dscr}"
    and d: "as_frames k as2 (mm_pte st) \<inter> (as_frames k as (mm_pte st) \<union> (pools_frames (mm_pools st) - pools_used (mm_pools st))) = {}"
    unfolding apart_def riscv_space_def by blast+
  note other = sp_ok_other [OF step sp_okD(3) [OF ok'] o(1) d]
  show "riscv_space k as2 st'" using o other(1) by (simp add: riscv_space_def)
  show "mem_translate_mmu k as2 va st' = mem_translate_mmu k as2 va st" by (rule translate_eqI [OF o(1) other])
qed

section \<open>Mapping\<close>

text \<open>C34: mapping pages onto a range of addresses that is not mapped, in one section: the call returns
  \<open>true\<close>, every address of the range is then translated to its place in the pages, every other address
  as before, the tables stay well formed, and no other address space changes. The only failure is the null
  pointer of a missing table, and it does not occur when the free pages are as many as the missing tables.\<close>

theorem mem_map_installs_pages:
  assumes "riscv_space k as st" and "vaddr = va AND NOT (PAGE_SIZE - 1)"
    and "mem_find_sec k as vaddr = Some s" and "mem_find_sec k as (vaddr + of_nat n * PAGE_SIZE - 1) = Some s"
    and "all_clrs (mmk_color_num k) (pa_colors pg)" and "4096 dvd unat (pa_base pg)"
    and "va_room as vaddr n" and "unat (pa_base pg) + n * 4096 \<le> 2 ^ 56"
    and "\<forall>va'. in_pages as vaddr n va' \<longrightarrow> mem_translate_mmu k as va' st = Inr None"
  shows "case mem_map_mmu k as va (Some pg) n flags st of
      Inl e \<Rightarrow> e = NULL_DEREF \<and> \<not> enough_pages k as False vaddr n st
    | Inr (ok, st') \<Rightarrow> ok \<and> riscv_space k as st' \<and> others_kept k as st st' \<and>
        (\<forall>va'. mem_translate_mmu k as va' st' =
           (if in_pages as vaddr n va' then Inr (Some (pa_base pg + of_nat (as_low as va' - as_low as vaddr)))
            else mem_translate_mmu k as va' st))"
proof -
  note r = riscv_spaceD [OF assms(1)]
  have un: "as_maps k as (mm_pte st) va' None" if "in_pages as vaddr n va'" for va'
    using assms(9) that sp_ok_translate [OF r(2)] by blast
  have room: "riscv_mmu.room as vaddr (pa_base pg) n" using assms(7,8) by (simp add: riscv_mmu.room_def)
  from riscv_mmu.mem_map_given [where k = k and f = flags and va = va, unfolded r(1), OF r(4) TrueI r(2) assms(2-6) room un]
  consider "mem_map_mmu k as va (Some pg) n flags st = Inl NULL_DEREF" "exhausted k as False vaddr n st"
    | st' where "mem_map_mmu k as va (Some pg) n flags st = Inr (True, st')" "sp_ok k 56 as st'" "sp_step k as st st'"
      "remapped k as vaddr (pa_base pg) n (mm_pte st) (mm_pte st')" by blast
  then show ?thesis
  proof cases
    case 2
    have "mem_translate_mmu k as va' st' = (if in_pages as vaddr n va' then Inr (Some (pa_base pg + of_nat (as_low as va' - as_low as vaddr)))
        else mem_translate_mmu k as va' st)" for va'
      using 2(4) sp_ok_translate [OF 2(2), of va'] translate_eqI [OF r(2) 2(2), of va' va'] by (simp add: remapped_def)
    then show ?thesis using 2(1) step_riscv_space [OF assms(1) 2(2)] step_others [OF 2(2,3)] by simp
  qed (use exhausted_not_enough in simp)
qed

text \<open>C35: mapping without pages backs a range that is not mapped, in one section of an address space
  without colors, with pages that were free: one page of the pools for each page of the range, no two the same,
  and none of them a table; the rest is as for given pages. It succeeds whenever there is a free page for every
  page of the range and every missing table.\<close>

theorem mem_map_backs_with_fresh_pages:
  assumes "riscv_space k as st" and "vaddr = va AND NOT (PAGE_SIZE - 1)"
    and "mem_find_sec k as vaddr = Some s" and "mem_find_sec k as (vaddr + of_nat n * PAGE_SIZE - 1) = Some s"
    and "all_clrs (mmk_color_num k) (sp_colors as)" and "va_room as vaddr n" and "enough_pages k as True vaddr n st"
    and "\<forall>va'. in_pages as vaddr n va' \<longrightarrow> mem_translate_mmu k as va' st = Inr None"
  shows "\<exists>st' g. mem_map_mmu k as va None n flags st = Inr (True, st') \<and> riscv_space k as st' \<and> others_kept k as st st' \<and>
    inj_on g {..<n} \<and> g ` {..<n} \<subseteq> pools_used (mm_pools st') - pools_used (mm_pools st) \<and>
    g ` {..<n} \<inter> as_frames k as (mm_pte st') = {} \<and>
    (\<forall>va'. mem_translate_mmu k as va' st' =
       (if in_pages as vaddr n va' then
          (let off = as_low as va' - as_low as vaddr in Inr (Some (of_nat (g (off div 4096) * 4096 + off mod 4096))))
        else mem_translate_mmu k as va' st))"
proof -
  note r = riscv_spaceD [OF assms(1)]
  have un: "as_maps k as (mm_pte st) va' None" if "in_pages as vaddr n va'" for va'
    using assms(8) that sp_ok_translate [OF r(2)] by blast
  from riscv_mmu.mem_map_backed [where k = k and f = flags and va = va, unfolded r(1), OF r(4) TrueI r(2) assms(2-6) un]
    exhausted_not_enough assms(7)
  obtain st' F where m: "mem_map_mmu k as va None n flags st = Inr (True, st')" and b: "backed_step k 56 as vaddr n F st st'"
    by blast
  have ok': "sp_ok k 56 as st'" and step: "sp_step k as st st'" and bk: "backed k as vaddr n F (mm_pte st) (mm_pte st')"
    and F: "F \<subseteq> grown st st'" "F \<inter> as_frames k as (mm_pte st') = {}" using b unfolding backed_step_def by blast+
  obtain g where g: "inj_on g {..<n}" "g ` {..<n} = F"
    and gm: "\<And>va'. in_pages as vaddr n va' \<Longrightarrow>
      as_maps k as (mm_pte st') va' (Some (of_nat (g ((as_low as va' - as_low as vaddr) div 4096) * 4096 + (as_low as va' - as_low as vaddr) mod 4096)))"
    using bk unfolding backed_def by blast
  have "mem_translate_mmu k as va' st' =
       (if in_pages as vaddr n va' then
          (let off = as_low as va' - as_low as vaddr in Inr (Some (of_nat (g (off div 4096) * 4096 + off mod 4096))))
        else mem_translate_mmu k as va' st)" for va'
    using gm [of va'] backed_outside [OF bk] sp_ok_translate [OF ok'] translate_eqI [OF r(2) ok'] by (simp add: Let_def)
  then show ?thesis using m g F step_riscv_space [OF assms(1) ok'] step_others [OF ok' step] by (auto simp: grown_def)
qed

section \<open>Unmapping\<close>

text \<open>C36: unmapping a mapped range of whole pages that lies in one entry of the root table, keeping the pages:
  the call returns, exactly the range is unmapped, also where it is part of a superpage, every other
  address is translated as before, the tables stay well formed and no other address space changes.
  The only failure is that no page is left for the table by which a superpage is replaced; it does not occur
  when the free pages are as many as the missing tables.\<close>

theorem mem_unmap_unmaps_exactly:
  assumes "riscv_space k as st" and "in_root_entry as va n" and "mem_find_sec k as va \<noteq> None"
    and "\<forall>va'. in_pages as va n va' \<longrightarrow> mem_translate_mmu k as va' st \<noteq> Inr None"
  shows "case mem_unmap_mmu k as va n False st of
      Inl e \<Rightarrow> e = NULL_DEREF \<and> \<not> enough_pages k as False va n st
    | Inr st' \<Rightarrow> riscv_space k as st' \<and> others_kept k as st st' \<and>
        (\<forall>va'. mem_translate_mmu k as va' st' = (if in_pages as va n va' then Inr None else mem_translate_mmu k as va' st))"
proof -
  note r = riscv_spaceD [OF assms(1)]
  obtain s where s: "mem_find_sec k as va = Some s" using assms(3) by blast
  have mp: "\<not> as_maps k as (mm_pte st) va' None" if "in_pages as va n va'" for va'
    using assms(4) that sp_ok_translate [OF r(2)] by blast
  from riscv_mmu.mem_unmap_range [where k = k, unfolded r(1), OF r(5) r(2) assms(2) s mp]
  consider "mem_unmap_mmu k as va n False st = Inl NULL_DEREF" "exhausted k as False va n st"
    | st' where "mem_unmap_mmu k as va n False st = Inr st'" "sp_ok k 56 as st'" "sp_step k as st st'"
      "unmapped k as va n (mm_pte st) (mm_pte st')" by blast
  then show ?thesis
  proof cases
    case 2
    have "mem_translate_mmu k as va' st' = (if in_pages as va n va' then Inr None else mem_translate_mmu k as va' st)" for va'
      using 2(4) sp_ok_translate [OF 2(2), of va'] translate_eqI [OF r(2) 2(2), of va' va'] by (simp add: unmapped_def)
    then show ?thesis using 2(1) step_riscv_space [OF assms(1) 2(2)] step_others [OF 2(2,3)] by simp
  qed (use exhausted_not_enough in simp)
qed

end
