(* ===== verification/Mmu_Empty.thy ===== *)
theory Mmu_Empty
  imports Mmu_Spaces
begin

text \<open>
  Address spaces at their creation, \<open>as_init\<close>: a root table of zeros translates nothing, and the
  hypervisor's space starts with its physical memory mapped one to one, which is why the address in an
  entry can serve as the pointer to the next table.
\<close>

section \<open>A root table without valid entries\<close>

definition root_entries :: "page_table_dscr \<Rightarrow> nat" where
  "root_entries d = 2 ^ (lvl_wdt d ! 0 - lvl_off d ! 0)"

lemma root_index:
  assumes "dscr_ok d"
  shows "unat (pt_getpteindex_by_va d va 0) < root_entries d"
  using unat_index [OF assms, of 0 va] assms by (simp add: root_entries_def dscr_ok_def)

lemma root_entry_addr:
  assumes d: "dscr_ok d" and r: "unat root + 8 * root_entries d \<le> 2 ^ 64"
  shows "unat (root + 8 * pt_getpteindex_by_va d va 0) = unat root + 8 * blk d 0 va"
proof -
  have "unat root + 8 * unat (pt_getpteindex_by_va d va 0) < 2 ^ 64" using root_index [OF d, of va] r by linarith
  then show ?thesis unfolding index_0 [OF d, symmetric] by (simp add: unat_word_ariths)
qed

definition zero_root :: "pte_ops \<Rightarrow> page_table_dscr \<Rightarrow> (u64 \<Rightarrow> u64) \<Rightarrow> u64 \<Rightarrow> bool" where
  "zero_root P d m root \<longleftrightarrow> 0 < unat root \<and> unat root + 8 * root_entries d \<le> 2 ^ 64 \<and>
     (\<forall>i < root_entries d. \<not> pte_valid P (m (root + 8 * of_nat i)))"

lemma zero_root_empty:
  assumes d: "dscr_ok d" and z: "zero_root P d m root"
  shows "pt_tree P d m root" and "pt_maps P d m root va r \<longleftrightarrow> r = None"
    and "pt_frames P d m root \<subseteq> {unat root div 4096 .. (unat root + 8 * root_entries d - 1) div 4096}"
proof -
  have r: "0 < unat root" "unat root + 8 * root_entries d \<le> 2 ^ 64" using z by (simp_all add: zero_root_def)
  have inv: "\<not> pte_valid P (m (root + 8 * pt_getpteindex_by_va d va 0))" for va
  proof -
    have "pt_getpteindex_by_va d va 0 = of_nat (unat (pt_getpteindex_by_va d va 0))" by simp
    with z root_index [OF d, of va] show ?thesis unfolding zero_root_def by metis
  qed
  have walk: "l = 0 \<and> p = root + 8 * pt_getpteindex_by_va d va 0" if "pt_walk P d m root l va = Some p" for l p va
  proof (cases l)
    case (Suc j)
    from that have "pt_walk P d m root (Suc j) va = Some p" by (simp only: Suc)
    from walk_prefix [OF this, of 0] inv [of va] show ?thesis by simp
  qed (use that in simp)
  have l0: "0 < lvls d" using d by (simp add: dscr_ok_def)
  note ad = root_entry_addr [OF d r(2)]
  show "pt_tree P d m root"
    unfolding pt_tree_def
  proof (intro conjI allI impI, goal_cases)
    case (1 l l' va va' p)
    with walk [of l va p] walk [of l' va' p] show ?case by simp
  next
    case (2 l l' va va' p)
    with walk [of l va p] walk [of l' va' p] have "l = 0" "unat root + 8 * blk d 0 va = unat root + 8 * blk d 0 va'"
      using ad [of va] ad [of va'] by simp_all
    then show ?case by simp
  next
    case (3 l va p)
    with walk [of l va p] have "unat p = unat root + 8 * blk d 0 va" using ad [of va] by simp
    then show ?case using r(1) by auto
  next
    case (4 l va p)
    with walk [of l va p] inv [of va] show ?case by (simp add: entry_ok_def)
  qed
  have "pt_end P d m root va 0 (root + 8 * pt_getpteindex_by_va d va 0)" using l0 inv [of va] by (simp add: pt_end_def)
  then show "pt_maps P d m root va r \<longleftrightarrow> r = None" using inv [of va] by (simp add: maps_end)
  show "pt_frames P d m root \<subseteq> {unat root div 4096 .. (unat root + 8 * root_entries d - 1) div 4096}"
  proof
    fix f assume "f \<in> pt_frames P d m root"
    then obtain p l va where f: "f = unat p div 4096" "pt_walk P d m root l va = Some p" by (auto simp: pt_frames_def)
    from walk [OF f(2)] have p: "unat p = unat root + 8 * blk d 0 va" using ad [of va] by simp
    have "blk d 0 va < root_entries d" using root_index [OF d, of va] index_0 [OF d, of va] by simp
    then have "unat p \<le> unat root + 8 * root_entries d - 1" using p by linarith
    then show "f \<in> {unat root div 4096 .. (unat root + 8 * root_entries d - 1) div 4096}"
      unfolding f(1) using p by (simp add: div_le_mono)
  qed
qed

text \<open>The pages of the root table are not free.\<close>

definition root_apart :: "page_table_dscr \<Rightarrow> u64 \<Rightarrow> page_pool list \<Rightarrow> bool" where
  "root_apart d root ps \<longleftrightarrow>
     {unat root div 4096 .. (unat root + 8 * root_entries d - 1) div 4096} \<inter> pools_frames ps \<subseteq> pools_used ps"

lemma zero_root_space:
  assumes d: "dscr_ok (pt_dscr (sp_pt as))" and z: "zero_root (mmk_pte k) (pt_dscr (sp_pt as)) (mm_pte st) (pt_root (sp_pt as))"
    and ps: "pools_ok k bits (mm_pools st)" "root_apart (pt_dscr (sp_pt as)) (pt_root (sp_pt as)) (mm_pools st)"
  shows "sp_ok k bits as st" and "as_maps k as (mm_pte st) va r \<longleftrightarrow> r = None"
proof -
  note e = zero_root_empty [OF d z]
  have "as_frames k as (mm_pte st) \<inter> pools_frames (mm_pools st) \<subseteq> pools_used (mm_pools st)"
    using e(3) ps(2) unfolding root_apart_def by blast
  then show "sp_ok k bits as st" using d e(1) ps(1) by (simp add: sp_ok_def)
  show "as_maps k as (mm_pte st) va r \<longleftrightarrow> r = None" by (rule e(2))
qed

section \<open>The identity mapping\<close>

text \<open>\<open>x\<close> is in one of the \<open>n\<close> blocks of 1 GiB from \<open>base\<close> on.\<close>

definition gib_range :: "nat \<Rightarrow> nat \<Rightarrow> nat \<Rightarrow> bool" where
  "gib_range base n x \<longleftrightarrow> base div 2 ^ 30 \<le> x div 2 ^ 30 \<and> x div 2 ^ 30 < base div 2 ^ 30 + n"

text \<open>Low addresses are translated to themselves when they are in \<open>S\<close>, and not at all otherwise.\<close>

definition identity_on :: "mmu_params \<Rightarrow> mmu_space \<Rightarrow> (u64 \<Rightarrow> u64) \<Rightarrow> nat set \<Rightarrow> bool" where
  "identity_on k as m S \<longleftrightarrow>
     (\<forall>va r. unat va < 2 ^ 39 \<longrightarrow> (as_maps k as m va r \<longleftrightarrow> r = (if unat va \<in> S then Some va else None)))"

lemma sv39_root:
  assumes "pt_dscr (sp_pt as) = sv39_pt_dscr"
  shows "lvl_off (pt_dscr (sp_pt as)) ! 0 = 30" and "lvls (pt_dscr (sp_pt as)) = 3" and "dscr_ok (pt_dscr (sp_pt as))"
    and "unat (va :: u64) < 2 ^ 39 \<Longrightarrow> as_low as va = unat va" and "unat (va :: u64) < 2 ^ 39 \<Longrightarrow> as_blk as 0 va = unat va div 2 ^ 30"
    and "pt_lvlsize (pt_dscr (sp_pt as)) 0 = 2 ^ 30"
  using assms sv39_dscr(1) [of sv39_pt_dscr]
  by (simp_all add: sv39_pt_dscr_def va_low_def blk_def pt_lvlsize_def shl_def)

lemma identity_entry:
  assumes k: "mmk_pte k = riscv_pte_ops" and dd: "pt_dscr (sp_pt as) = sv39_pt_dscr" and ok: "sp_ok k 56 as st"
    and a: "2 ^ 30 dvd unat addr" "unat addr < 2 ^ 39" and S: "identity_on k as (mm_pte st) S"
  defines "st' \<equiv> st\<lparr>mm_pte := (mm_pte st)(pt_root (sp_pt as) + 8 * pt_getpteindex_by_va (pt_dscr (sp_pt as)) addr 0 :=
    pte_set (mmk_pte k) addr (PTE_SUPERPAGE (mmk_pte k)) (PTE_HYP_FLAGS (mmk_pte k)))\<rparr>"
  shows "sp_ok k 56 as st'" and "identity_on k as (mm_pte st') (S \<union> {x. gib_range (unat addr) 1 x})"
proof -
  let ?d = "pt_dscr (sp_pt as)" and ?P = "mmk_pte k"
  let ?v = "pte_set ?P addr (PTE_SUPERPAGE ?P) (PTE_HYP_FLAGS ?P)"
  note s = sv39_root [OF dd]
  have l: "0 < lvls ?d" using s(2) by simp
  have ty: "pt_page_type ?P ?d 0 = PTE_SUPERPAGE ?P" using s(2) by (simp add: pt_page_type_def)
  have phys: "pte_phys 56 addr" using a by (auto simp: pte_phys_def elim: dvd_trans [rotated])
  have v: "pte_valid ?P ?v" "\<not> pte_table ?P ?d ?v 0" "pte_addr ?P ?v = addr"
    using riscv.leaf_entry [OF phys TrueI, of ?d 0 "PTE_HYP_FLAGS ?P"] unfolding k [symmetric] ty by auto
  have e: "entry_ok ?P ?d ?v 0" using v a(1) s(1) by (simp add: entry_ok_def)
  have nt: "\<not> (pte_valid ?P ?v \<and> pte_table ?P ?d ?v 0)" using v by simp
  have w: "as_walk k as (mm_pte st) 0 addr = Some (pt_root (sp_pt as) + 8 * pt_getpteindex_by_va ?d addr 0)" by simp
  note se = set_entry [OF ok l w nt e, folded st'_def]
  show "sp_ok k 56 as st'" by (rule se(1))
  show "identity_on k as (mm_pte st') (S \<union> {x. gib_range (unat addr) 1 x})"
    unfolding identity_on_def
  proof (intro allI impI)
    fix va r assume va: "unat (va :: u64) < 2 ^ 39"
    have g: "gib_range (unat addr) 1 (unat va) \<longleftrightarrow> as_blk as 0 va = as_blk as 0 addr"
      unfolding s(5) [OF va] s(5) [OF a(2)] by (auto simp: gib_range_def)
    have "pt_pa ?P ?d ?v 0 va = va" if "as_blk as 0 va = as_blk as 0 addr"
    proof -
      have b: "unat va div 2 ^ 30 = unat addr div 2 ^ 30" using that by (simp only: s(5) [OF va] s(5) [OF a(2)])
      have "unat (pt_pa ?P ?d ?v 0 va) = unat addr + unat va mod 2 ^ 30"
        using unat_pt_pa [OF s(3) l, of ?P ?v va] v(3) a(1) s(4) [OF va] by (simp add: s(1))
      also have "unat addr = unat addr div 2 ^ 30 * 2 ^ 30" using a(1) by simp
      also have "unat addr div 2 ^ 30 * 2 ^ 30 + unat va mod 2 ^ 30 = unat va" unfolding b [symmetric] by (rule div_mult_mod_eq)
      finally show ?thesis by (simp add: word_unat_eq_iff)
    qed
    then show "as_maps k as (mm_pte st') va r \<longleftrightarrow> r = (if unat va \<in> S \<union> {x. gib_range (unat addr) 1 x} then Some va else None)"
      using se(3) [of va r] v(1) S va g by (auto simp: identity_on_def)
  qed
qed

lemma identity_entries_map:
  assumes k: "mmk_pte k = riscv_pte_ops" and dd: "pt_dscr (sp_pt as) = sv39_pt_dscr"
  shows "sp_ok k 56 as st \<Longrightarrow> 2 ^ 30 dvd unat addr \<Longrightarrow> unat addr + n * 2 ^ 30 \<le> 2 ^ 39 \<Longrightarrow> identity_on k as (mm_pte st) S \<Longrightarrow>
    sp_ok k 56 as (st\<lparr>mm_pte := identity_entries (mmk_pte k) (pt_dscr (sp_pt as)) (pt_root (sp_pt as)) n addr (mm_pte st)\<rparr>) \<and>
    identity_on k as (identity_entries (mmk_pte k) (pt_dscr (sp_pt as)) (pt_root (sp_pt as)) n addr (mm_pte st))
      (S \<union> {x. gib_range (unat addr) n x})"
proof (induction n arbitrary: addr st S)
  case 0
  have "{x. gib_range (unat addr) 0 x} = {}" by (auto simp: gib_range_def)
  with 0 show ?case by simp
next
  case (Suc n)
  let ?d = "pt_dscr (sp_pt as)" and ?P = "mmk_pte k"
  note s = sv39_root [OF dd]
  have lt: "unat addr < 2 ^ 39" using Suc.prems(3) by simp
  define st1 where "st1 = st\<lparr>mm_pte := (mm_pte st)(pt_root (sp_pt as) + 8 * pt_getpteindex_by_va ?d addr 0 :=
    pte_set ?P addr (PTE_SUPERPAGE ?P) (PTE_HYP_FLAGS ?P))\<rparr>"
  note ie = identity_entry [OF k dd Suc.prems(1,2) lt Suc.prems(4), folded st1_def]
  have next_addr: "unat (addr + pt_lvlsize ?d 0) = unat addr + 2 ^ 30"
    using Suc.prems(3) unfolding s(6) by (simp add: unat_word_ariths)
  have "2 ^ 30 dvd unat (addr + pt_lvlsize ?d 0)" unfolding next_addr using Suc.prems(2) by simp
  moreover have "unat (addr + pt_lvlsize ?d 0) + n * 2 ^ 30 \<le> 2 ^ 39" unfolding next_addr using Suc.prems(3) by simp
  moreover have "S \<union> {x. gib_range (unat addr) 1 x} \<union> {x. gib_range (unat addr + 2 ^ 30) n x} = S \<union> {x. gib_range (unat addr) (Suc n) x}"
    by (auto simp: gib_range_def)
  moreover have "identity_entries ?P ?d (pt_root (sp_pt as)) (Suc n) addr (mm_pte st) =
      identity_entries ?P ?d (pt_root (sp_pt as)) n (addr + pt_lvlsize ?d 0) (mm_pte st1)"
    by (simp add: st1_def)
  moreover have "st\<lparr>mm_pte := x\<rparr> = st1\<lparr>mm_pte := x\<rparr>" for x by (simp add: st1_def)
  ultimately show ?case using Suc.IH [OF ie(1) _ _ ie(2), of "addr + pt_lvlsize ?d 0"] unfolding next_addr by (simp only:)
qed

text \<open>The low addresses in the blocks of 1 GiB that the platform's regions meet.\<close>

definition region_gibs :: "(u64 \<times> u64) list \<Rightarrow> nat set" where
  "region_gibs regions = {x. \<exists>(b, s) \<in> set regions. unat b div 2 ^ 30 \<le> x div 2 ^ 30 \<and> x div 2 ^ 30 \<le> (unat b + unat s - 1) div 2 ^ 30}"

lemma region_covered:
  assumes "(b, s) \<in> set regions" and "unat b \<le> x" and "x < unat b + unat s"
  shows "x \<in> region_gibs regions"
  using assms by (auto simp: region_gibs_def intro!: bexI [of _ "(b, s)"] div_le_mono)

definition region_low :: "u64 \<times> u64 \<Rightarrow> bool" where
  "region_low reg \<longleftrightarrow> 0 < unat (snd reg) \<and> unat (fst reg) + unat (snd reg) \<le> 2 ^ 39"

lemma region_blocks:
  fixes b s :: u64
  assumes r: "region_low (b, s)"
  defines "base \<equiv> b AND NOT (2 ^ 30 - 1)" and "tp \<equiv> ALIGN (b + s) (2 ^ 30) AND NOT (2 ^ 30 - 1)"
  shows "2 ^ 30 dvd unat base" and "unat base + unat ((tp - base - 1) div 2 ^ 30 + 1) * 2 ^ 30 \<le> 2 ^ 39"
    and "gib_range (unat base) (unat ((tp - base - 1) div 2 ^ 30 + 1)) x \<longleftrightarrow> x \<in> region_gibs [(b, s)]"
proof -
  let ?B = "unat b div 2 ^ 30" and ?T = "(unat b + unat s - 1) div 2 ^ 30 + 1"
  have s: "0 < unat s" "unat b + unat s \<le> 2 ^ 39" using r by (simp_all add: region_low_def)
  have base: "unat base = ?B * 2 ^ 30" unfolding base_def by (rule unat_block_down) simp
  have sum: "unat (b + s) = unat b + unat s" using s by (simp add: unat_word_ariths)
  have "unat (ALIGN (b + s) (2 ^ 30)) = (unat (b + s) + 2 ^ 30 - 1) div 2 ^ 30 * 2 ^ 30"
    using unat_ALIGN [of "2 ^ 30" "b + s"] s sum by simp
  also have "(unat (b + s) + 2 ^ 30 - 1) div 2 ^ 30 = ?T" using s unfolding sum by simp
  finally have "unat (ALIGN (b + s) (2 ^ 30)) = ?T * 2 ^ 30" .
  then have tp: "unat tp = ?T * 2 ^ 30" unfolding tp_def by (subst unat_block_down) simp_all
  have le: "?B < ?T" using s div_le_mono [of "unat b" "unat b + unat s - 1" "2 ^ 30"] by simp
  have T: "?T \<le> 2 ^ 9"
  proof -
    have "unat b + unat s - 1 < 2 ^ 9 * 2 ^ 30" using s by simp
    then have "(unat b + unat s - 1) div 2 ^ 30 < 2 ^ 9" by (rule less_mult_imp_div_less)
    then show ?thesis by simp
  qed
  obtain q where q: "?T = ?B + Suc q" using le by (metis less_imp_Suc_add add_Suc_right)
  have "unat (tp - base) = unat tp - unat base" by (rule unat_sub) (simp add: word_le_nat_alt tp base q)
  then have d: "unat (tp - base) = Suc q * 2 ^ 30" unfolding tp base q by simp
  then have "tp - base \<noteq> 0" by auto
  then have "unat (tp - base - 1) = Suc q * 2 ^ 30 - 1" using d by (simp add: unat_minus_one)
  then have "unat ((tp - base - 1) div 2 ^ 30) = q" by (simp add: unat_div)
  moreover have "q < 2 ^ 9" using q T by linarith
  ultimately have n: "unat ((tp - base - 1) div 2 ^ 30 + 1) = Suc q" by (simp add: unat_word_ariths)
  show "2 ^ 30 dvd unat base" by (simp add: base)
  have "(?B + Suc q) * 2 ^ 30 \<le> 2 ^ 9 * 2 ^ 30" using T unfolding q by (rule mult_le_mono1)
  then show "unat base + unat ((tp - base - 1) div 2 ^ 30 + 1) * 2 ^ 30 \<le> 2 ^ 39" unfolding n base by (simp add: distrib_right)
  have "?B * 2 ^ 30 div 2 ^ 30 = ?B" by simp
  then show "gib_range (unat base) (unat ((tp - base - 1) div 2 ^ 30 + 1)) x \<longleftrightarrow> x \<in> region_gibs [(b, s)]"
    unfolding gib_range_def region_gibs_def n base using q by auto
qed

lemma map_physical_identity:
  assumes k: "mmk_pte k = riscv_pte_ops" and dd: "pt_dscr (sp_pt as) = sv39_pt_dscr"
  shows "sp_ok k 56 as st \<Longrightarrow> \<forall>reg \<in> set regions. region_low reg \<Longrightarrow> identity_on k as (mm_pte st) S \<Longrightarrow>
    sp_ok k 56 as (st\<lparr>mm_pte := as_map_physical_identity (mmk_pte k) regions as (mm_pte st)\<rparr>) \<and>
    identity_on k as (as_map_physical_identity (mmk_pte k) regions as (mm_pte st)) (S \<union> region_gibs regions)"
proof (induction regions arbitrary: st S)
  case Nil
  then show ?case by (simp add: as_map_physical_identity_def region_gibs_def)
next
  case (Cons reg regions)
  obtain b s where reg: "reg = (b, s)" by (cases reg)
  let ?d = "pt_dscr (sp_pt as)"
  define base where "base = b AND NOT (2 ^ 30 - 1)"
  define tp where "tp = ALIGN (b + s) (2 ^ 30) AND NOT (2 ^ 30 - 1)"
  let ?n = "unat ((tp - base - 1) div 2 ^ 30 + 1)"
  have "region_low (b, s)" using Cons.prems(2) reg by simp
  note rb = region_blocks [OF this, folded base_def tp_def]
  define m1 where "m1 = identity_entries (mmk_pte k) ?d (pt_root (sp_pt as)) ?n base (mm_pte st)"
  from identity_entries_map [OF k dd Cons.prems(1) rb(1,2) Cons.prems(3), folded m1_def]
  have ok1: "sp_ok k 56 as (st\<lparr>mm_pte := m1\<rparr>)" and id1: "identity_on k as (mm_pte (st\<lparr>mm_pte := m1\<rparr>)) (S \<union> region_gibs [reg])"
    using rb(3) by (simp_all add: reg)
  have "as_map_physical_identity (mmk_pte k) (reg # regions) as (mm_pte st) = as_map_physical_identity (mmk_pte k) regions as m1"
    by (simp add: as_map_physical_identity_def reg m1_def base_def tp_def sv39_root(6) [OF dd] Let_def)
  moreover have "S \<union> region_gibs (reg # regions) = S \<union> region_gibs [reg] \<union> region_gibs regions"
    by (auto simp: region_gibs_def)
  ultimately show ?case using Cons.IH [OF ok1 _ id1] Cons.prems(2) by simp
qed


end
