(* ===== verification/Mmu_Demo.thy ===== *)
theory Mmu_Demo
  imports Mmu_Empty
begin

text \<open>
  The properties of address spaces on concrete data: an Sv39 table of zeros, one pool of 64 free pages,
  and the same table with one superpage.
\<close>

definition demo_mmu_params :: mmu_params where
  "demo_mmu_params = \<lparr>mmk_pte = riscv_pte_ops, mmk_secs = (\<lambda>_. [\<lparr>sec_beg = 0, sec_end = MAX_VA, sec_shared = False\<rparr>]),
     mmk_hyp_dscr = sv39_pt_dscr, mmk_vm_dscr = sv39x4_pt_dscr, mmk_color_num = 4, mmk_color_size = 1\<rparr>"

definition demo_as :: mmu_space where
  "demo_as = \<lparr>sp_pt = \<lparr>pt_root = 0x100000, pt_dscr = sv39_pt_dscr\<rparr>, sp_type = AS_VM, sp_colors = 0, sp_id = 1\<rparr>"

definition demo_mmu :: mmu where
  "demo_mmu = \<lparr>mm_pte = (\<lambda>_. 0), mm_pools = [demo_pool], mm_asid = 2\<rparr>"

lemma demo_mmu_simps [simp]:
  "mmk_pte demo_mmu_params = riscv_pte_ops" "mmk_hyp_dscr demo_mmu_params = sv39_pt_dscr"
  "mmk_color_num demo_mmu_params = 4" "mmk_color_size demo_mmu_params = 1"
  "sp_pt demo_as = \<lparr>pt_root = 0x100000, pt_dscr = sv39_pt_dscr\<rparr>" "sp_colors demo_as = 0"
  "mm_pte demo_mmu = (\<lambda>_. 0)" "mm_pools demo_mmu = [demo_pool]"
  by (simp_all add: demo_mmu_params_def demo_as_def demo_mmu_def)

lemma demo_find_sec [simp]: "mem_find_sec demo_mmu_params as va = Some 0"
  by (simp add: mem_find_sec_def demo_mmu_params_def MAX_VA_def word_coorder.extremum_uniqueI)

lemma demo_pools_ok: "pools_ok demo_mmu_params 56 [demo_pool]"
  using demo_pool_facts(4,5) by (simp add: pools_ok_def pools_frames_def)

lemma demo_root:
  "zero_root riscv_pte_ops sv39_pt_dscr (mm_pte demo_mmu) 0x100000" "root_apart sv39_pt_dscr 0x100000 [demo_pool]"
proof -
  have n: "root_entries sv39_pt_dscr = 512" by (simp add: root_entries_def sv39_pt_dscr_def)
  show "zero_root riscv_pte_ops sv39_pt_dscr (mm_pte demo_mmu) 0x100000"
    by (simp add: zero_root_def n riscv_pte_ops_def rv_pte_valid_def)
  show "root_apart sv39_pt_dscr 0x100000 [demo_pool]"
    using demo_pool_facts(4) by (simp add: root_apart_def n pools_frames_def)
qed

lemma demo_space: "riscv_space demo_mmu_params demo_as demo_mmu" "mem_translate_mmu demo_mmu_params demo_as va demo_mmu = Inr None"
proof -
  have z: "zero_root (mmk_pte demo_mmu_params) (pt_dscr (sp_pt demo_as)) (mm_pte demo_mmu) (pt_root (sp_pt demo_as))"
    and a: "root_apart (pt_dscr (sp_pt demo_as)) (pt_root (sp_pt demo_as)) (mm_pools demo_mmu)"
    and p: "pools_ok demo_mmu_params 56 (mm_pools demo_mmu)"
    using demo_root demo_pools_ok by simp_all
  have d: "dscr_ok (pt_dscr (sp_pt demo_as))" using sv39_dscr(1) [of sv39_pt_dscr] by simp
  note s = zero_root_space [OF d z p a]
  show "riscv_space demo_mmu_params demo_as demo_mmu" using s(1) by (simp add: riscv_space_def)
  show "mem_translate_mmu demo_mmu_params demo_as va demo_mmu = Inr None" using sp_ok_translate [OF s(1)] s(2) by simp
qed

lemma demo_low: "va_low sv39_pt_dscr va = unat va mod 2 ^ 39"
  by (simp add: va_low_def sv39_pt_dscr_def)

lemma demo_va_room: "va_room demo_as 0x1000 1"
  by (simp add: va_room_def demo_low) (simp add: sv39_pt_dscr_def)

text \<open>Two tables at most are missing for one page.\<close>

lemma demo_enough: "enough_pages demo_mmu_params demo_as data 0x1000 1 \<lparr>mm_pte = m, mm_pools = [demo_pool], mm_asid = a\<rparr>"
proof -
  let ?st = "\<lparr>mm_pte = m, mm_pools = [demo_pool], mm_asid = a\<rparr>"
  have "range_tabs demo_as 0x1000 1 \<subseteq> {(0, 0), (1, 0)}"
  proof
    fix x assume "x \<in> range_tabs demo_as 0x1000 1"
    then obtain l va where x: "x = (l, as_blk demo_as l va)" "Suc l < 3" "in_pages demo_as 0x1000 1 va"
      by (auto simp: range_tabs_def sv39_pt_dscr_def)
    then have low: "as_low demo_as va < 2 ^ 21" by (simp add: in_pages_def demo_low)
    consider "l = 0" | "l = 1" using x(2) by linarith
    then show "x \<in> {(0, 0), (1, 0)}"
    proof cases
      case 1
      have "as_low demo_as va div 2 ^ 30 = 0" using low by simp
      then show ?thesis using 1 x(1) by (simp add: blk_def sv39_pt_dscr_def)
    next
      case 2
      have "as_low demo_as va div 2 ^ 21 = 0" using low by simp
      then show ?thesis using 2 x(1) by (simp add: blk_def sv39_pt_dscr_def)
    qed
  qed
  then have "card (range_tabs demo_as 0x1000 1 - as_tabs demo_mmu_params demo_as m) \<le> card {(0 :: nat, 0 :: nat), (1, 0)}"
    by (intro card_mono) auto
  then have "need demo_mmu_params demo_as data 0x1000 1 ?st \<le> 3" by (simp add: need_def)
  moreover have "pools_frames [demo_pool] - pools_used [demo_pool] = {0x80000 ..< 0x80040}"
    using demo_pool_facts(2,4) by (simp add: pools_frames_def pools_used_def)
  ultimately show ?thesis using demo_pool_facts(3) by (simp add: enough_pages_def pools_exact_def all_clrs_def)
qed

theorem mem_map_installs_pages_witness:
  "\<exists>st'. mem_map_mmu demo_mmu_params demo_as 0x1000 (Some (mem_ppages_get 0x40000000 1)) 1 0 demo_mmu = Inr (True, st') \<and>
     mem_translate_mmu demo_mmu_params demo_as 0x1234 st' = Inr (Some 0x40000234) \<and>
     mem_translate_mmu demo_mmu_params demo_as 0x2234 st' = Inr None"
proof -
  have "case mem_map_mmu demo_mmu_params demo_as 0x1000 (Some (mem_ppages_get 0x40000000 1)) 1 0 demo_mmu of
      Inl e \<Rightarrow> e = NULL_DEREF \<and> \<not> enough_pages demo_mmu_params demo_as False 0x1000 1 demo_mmu
    | Inr (ok, st') \<Rightarrow> ok \<and> riscv_space demo_mmu_params demo_as st' \<and> others_kept demo_mmu_params demo_as demo_mmu st' \<and>
        (\<forall>va'. mem_translate_mmu demo_mmu_params demo_as va' st' =
           (if in_pages demo_as 0x1000 1 va' then Inr (Some (pa_base (mem_ppages_get 0x40000000 1) + of_nat (as_low demo_as va' - as_low demo_as 0x1000)))
            else mem_translate_mmu demo_mmu_params demo_as va' demo_mmu))"
    using demo_space demo_va_room by (intro mem_map_installs_pages [where s = 0]) (simp_all add: PAGE_SIZE_def mem_ppages_get_def all_clrs_def)
  moreover have "enough_pages demo_mmu_params demo_as False 0x1000 1 demo_mmu" using demo_enough by (simp add: demo_mmu_def)
  moreover have "in_pages demo_as 0x1000 1 0x1234" "\<not> in_pages demo_as 0x1000 1 0x2234" by (simp_all add: in_pages_def demo_low)
  ultimately show ?thesis using demo_space(2) by (auto simp: demo_low mem_ppages_get_def split: sum.splits)
qed

theorem mem_map_backs_with_fresh_pages_witness:
  "\<exists>st' f. mem_map_mmu demo_mmu_params demo_as 0x1000 None 1 0 demo_mmu = Inr (True, st') \<and>
     mem_translate_mmu demo_mmu_params demo_as 0x1234 st' = Inr (Some (of_nat (f * 4096 + 0x234))) \<and> f \<in> pools_used (mm_pools st')"
proof -
  have en: "enough_pages demo_mmu_params demo_as True 0x1000 1 demo_mmu" using demo_enough by (simp add: demo_mmu_def)
  have "\<exists>st' g. mem_map_mmu demo_mmu_params demo_as 0x1000 None 1 0 demo_mmu = Inr (True, st') \<and>
      riscv_space demo_mmu_params demo_as st' \<and> others_kept demo_mmu_params demo_as demo_mmu st' \<and>
      inj_on g {..<1} \<and> g ` {..<1} \<subseteq> pools_used (mm_pools st') - pools_used (mm_pools demo_mmu) \<and>
      g ` {..<1} \<inter> as_frames demo_mmu_params demo_as (mm_pte st') = {} \<and>
      (\<forall>va'. mem_translate_mmu demo_mmu_params demo_as va' st' =
         (if in_pages demo_as 0x1000 1 va' then
            (let off = as_low demo_as va' - as_low demo_as 0x1000 in Inr (Some (of_nat (g (off div 4096) * 4096 + off mod 4096))))
          else mem_translate_mmu demo_mmu_params demo_as va' demo_mmu))"
    using demo_space demo_va_room en by (intro mem_map_backs_with_fresh_pages [where s = 0]) (simp_all add: PAGE_SIZE_def all_clrs_def)
  moreover have "in_pages demo_as 0x1000 1 0x1234" by (simp add: in_pages_def demo_low)
  ultimately obtain st' g where "mem_map_mmu demo_mmu_params demo_as 0x1000 None 1 0 demo_mmu = Inr (True, st')"
      "mem_translate_mmu demo_mmu_params demo_as 0x1234 st' = Inr (Some (of_nat (g 0 * 4096 + 0x234)))" "g 0 \<in> pools_used (mm_pools st')"
    by (auto simp: demo_low Let_def)
  then show ?thesis by blast
qed

text \<open>The first GiB is mapped to itself by a superpage; one of its pages is unmapped.\<close>

definition demo_mapped :: mmu where
  "demo_mapped = demo_mmu\<lparr>mm_pte := as_map_physical_identity riscv_pte_ops [(0, 0x40000000)] demo_as (\<lambda>_. 0)\<rparr>"

lemma demo_mapped:
  "riscv_space demo_mmu_params demo_as demo_mapped"
  "unat va < 0x40000000 \<Longrightarrow> mem_translate_mmu demo_mmu_params demo_as va demo_mapped = Inr (Some va)"
proof -
  have ok: "sp_ok demo_mmu_params 56 demo_as demo_mmu" using demo_space(1) by (simp add: riscv_space_def)
  have i: "identity_on demo_mmu_params demo_as (mm_pte demo_mmu) {}"
    unfolding identity_on_def sp_ok_translate [OF ok, symmetric] demo_space(2) by auto
  have "region_low (0, 0x40000000)" by (simp add: region_low_def)
  from map_physical_identity [where regions = "[(0, 0x40000000)]", OF _ _ ok _ i] this
  have m: "sp_ok demo_mmu_params 56 demo_as demo_mapped" "identity_on demo_mmu_params demo_as (mm_pte demo_mapped) (region_gibs [(0, 0x40000000)])"
    by (simp_all add: demo_mapped_def)
  show "riscv_space demo_mmu_params demo_as demo_mapped" using m(1) demo_space(1) by (simp add: riscv_space_def)
  show "mem_translate_mmu demo_mmu_params demo_as va demo_mapped = Inr (Some va)" if "unat va < 0x40000000"
    using m(2) that region_covered [where b = 0 and s = "0x40000000" and regions = "[(0, 0x40000000)]" and x = "unat va"] sp_ok_translate [OF m(1)]
    by (simp add: identity_on_def)
qed

theorem mem_unmap_unmaps_exactly_witness:
  "\<exists>st'. mem_unmap_mmu demo_mmu_params demo_as 0x1000 1 False demo_mapped = Inr st' \<and>
     mem_translate_mmu demo_mmu_params demo_as 0xfff st' = Inr (Some 0xfff) \<and>
     mem_translate_mmu demo_mmu_params demo_as 0x1234 st' = Inr None \<and>
     mem_translate_mmu demo_mmu_params demo_as 0x2000 st' = Inr (Some 0x2000)"
proof -
  have en: "enough_pages demo_mmu_params demo_as False 0x1000 1 demo_mapped" using demo_enough by (simp add: demo_mapped_def demo_mmu_def)
  have mp: "mem_translate_mmu demo_mmu_params demo_as va demo_mapped \<noteq> Inr None" if "in_pages demo_as 0x1000 1 va" for va
  proof -
    have "unat va mod 2 ^ 39 < 0x2000" using that by (simp add: in_pages_def demo_low)
    then have "unat (of_nat (unat va mod 2 ^ 39) :: u64) = unat va mod 2 ^ 39" by (simp add: unat_of_nat)
    then have "as_low demo_as va = as_low demo_as (of_nat (unat va mod 2 ^ 39))" by (simp add: demo_low)
    moreover have "mem_translate_mmu demo_mmu_params demo_as (of_nat (unat va mod 2 ^ 39)) demo_mapped \<noteq> Inr None"
      using \<open>unat va mod 2 ^ 39 < 0x2000\<close> \<open>unat (of_nat (unat va mod 2 ^ 39) :: u64) = unat va mod 2 ^ 39\<close>
      by (subst demo_mapped(2)) simp_all
    ultimately show ?thesis using translate_none_low [OF demo_mapped(1)] by blast
  qed
  have blocks: "root_block demo_as = 0x40000000" by (simp add: root_block_def sv39_pt_dscr_def)
  have "case mem_unmap_mmu demo_mmu_params demo_as 0x1000 1 False demo_mapped of
      Inl e \<Rightarrow> e = NULL_DEREF \<and> \<not> enough_pages demo_mmu_params demo_as False 0x1000 1 demo_mapped
    | Inr st' \<Rightarrow> riscv_space demo_mmu_params demo_as st' \<and> others_kept demo_mmu_params demo_as demo_mapped st' \<and>
        (\<forall>va'. mem_translate_mmu demo_mmu_params demo_as va' st' =
           (if in_pages demo_as 0x1000 1 va' then Inr None else mem_translate_mmu demo_mmu_params demo_as va' demo_mapped))"
    using demo_mapped(1) mp by (intro mem_unmap_unmaps_exactly) (simp_all add: in_root_entry_def blocks)
  moreover have "in_pages demo_as 0x1000 1 0x1234" "\<not> in_pages demo_as 0x1000 1 0xfff" "\<not> in_pages demo_as 0x1000 1 0x2000"
    by (simp_all add: in_pages_def demo_low)
  ultimately show ?thesis using en demo_mapped(2) by (auto split: sum.splits)
qed


end
