(* ===== verification/Strings.thy ===== *)
theory Strings
  imports Bit_Utils
begin

text \<open>
  The memory and string routines of \<open>src/src/lib/string.c\<close> over a byte memory. Addresses are
  naturals: no object wraps around the address space. \<open>memcpy\<close> copies word by word when both
  addresses are aligned; a word store writes the eight bytes that the word load read. A search
  for a terminator that is not there does not end, so the string loops return an option.
\<close>

type_synonym memory = "nat \<Rightarrow> u8"

abbreviation WORD_SIZE :: nat where "WORD_SIZE \<equiv> 8"

section \<open>The routines\<close>

text \<open>\<open>*(unsigned long* )dst = *(const unsigned long* )src\<close>.\<close>

definition copy_word :: "memory \<Rightarrow> nat \<Rightarrow> nat \<Rightarrow> memory" where
  "copy_word m dst src = (\<lambda>a. if dst \<le> a \<and> a < dst + WORD_SIZE then m (src + (a - dst)) else m a)"

function memcpy_words :: "memory \<Rightarrow> nat \<Rightarrow> nat \<Rightarrow> nat \<Rightarrow> nat \<Rightarrow> memory \<times> nat" where
  "memcpy_words m dst src count i =
     (if i < count then
        (if i + (WORD_SIZE - 1) > count - 1 then (m, i)
         else memcpy_words (copy_word m (dst + i) (src + i)) dst src count (i + WORD_SIZE))
      else (m, i))"
  by pat_completeness auto
termination
  by (relation "measure (\<lambda>(m, dst, src, count, i). count - i)") auto

function memcpy_bytes :: "memory \<Rightarrow> nat \<Rightarrow> nat \<Rightarrow> nat \<Rightarrow> nat \<Rightarrow> memory" where
  "memcpy_bytes m dst src count i =
     (if i < count then memcpy_bytes (m(dst + i := m (src + i))) dst src count (i + 1) else m)"
  by pat_completeness auto
termination
  by (relation "measure (\<lambda>(m, dst, src, count, i). count - i)") auto

declare memcpy_words.simps [simp del] memcpy_bytes.simps [simp del]

definition memcpy :: "memory \<Rightarrow> nat \<Rightarrow> nat \<Rightarrow> nat \<Rightarrow> memory" where
  "memcpy m dst src count =
     (if src mod WORD_SIZE = 0 \<and> dst mod WORD_SIZE = 0 then
        (let (m, i) = memcpy_words m dst src count 0
         in if i \<le> pred64 count then memcpy_bytes m dst src count i else m)
      else memcpy_bytes m dst src count 0)"

fun memset :: "memory \<Rightarrow> nat \<Rightarrow> u8 \<Rightarrow> nat \<Rightarrow> memory" where
  "memset m d c 0 = m"
| "memset m d c (Suc count) = memset (m(d := c)) (d + 1) c count"

text \<open>The scan to the terminator, and the loop \<open>while ((*dest++ = *src++) != 0)\<close>.\<close>

partial_function (option) str_end :: "memory \<Rightarrow> nat \<Rightarrow> nat option" where
  "str_end m s = (if m s \<noteq> 0 then str_end m (s + 1) else Some s)"

partial_function (option) str_copy :: "memory \<Rightarrow> nat \<Rightarrow> nat \<Rightarrow> memory option" where
  "str_copy m dest src =
     (let m' = m(dest := m src) in if m' dest \<noteq> 0 then str_copy m' (dest + 1) (src + 1) else Some m')"

definition strlen :: "memory \<Rightarrow> nat \<Rightarrow> nat option" where
  "strlen m s = Option.bind (str_end m s) (\<lambda>sc. Some (sc - s))"

fun strnlen_loop :: "memory \<Rightarrow> nat \<Rightarrow> nat \<Rightarrow> nat" where
  "strnlen_loop m str 0 = str"
| "strnlen_loop m str (Suc n) = (if m str \<noteq> 0 then strnlen_loop m (str + 1) n else str)"

definition strnlen :: "memory \<Rightarrow> nat \<Rightarrow> nat \<Rightarrow> nat" where
  "strnlen m s n = strnlen_loop m s n - s"

definition strcpy :: "memory \<Rightarrow> nat \<Rightarrow> nat \<Rightarrow> memory option" where
  "strcpy m dest src = str_copy m dest src"

definition strcat :: "memory \<Rightarrow> nat \<Rightarrow> nat \<Rightarrow> memory option" where
  "strcat m dest src = Option.bind (str_end m dest) (\<lambda>dest. str_copy m dest src)"

text \<open>\<open>strcmp\<close> returns the difference of the two pointers at the end of the loop.\<close>

partial_function (option) strcmp_loop :: "memory \<Rightarrow> nat \<Rightarrow> nat \<Rightarrow> (nat \<times> nat) option" where
  "strcmp_loop m tmp0 tmp1 =
     (if m tmp0 = m tmp1 \<and> m tmp0 \<noteq> 0 \<and> m tmp1 \<noteq> 0 then strcmp_loop m (tmp0 + 1) (tmp1 + 1)
      else Some (tmp0, tmp1))"

definition strcmp :: "memory \<Rightarrow> nat \<Rightarrow> nat \<Rightarrow> int option" where
  "strcmp m str0 str1 =
     Option.bind (strcmp_loop m str0 str1)
       (\<lambda>(tmp0, tmp1). Some (signed_take_bit 31 (int tmp0 - int tmp1)))"

section \<open>Copying\<close>

text \<open>The memory after the first \<open>i\<close> bytes are copied.\<close>

definition copied :: "memory \<Rightarrow> nat \<Rightarrow> nat \<Rightarrow> nat \<Rightarrow> memory" where
  "copied m dst src i = (\<lambda>a. if dst \<le> a \<and> a < dst + i then m (src + (a - dst)) else m a)"

lemma copied_0 [simp]: "copied m dst src 0 = m"
  by (rule ext) (auto simp: copied_def)

definition apart :: "nat \<Rightarrow> nat \<Rightarrow> nat \<Rightarrow> bool" where
  "apart dst src count \<longleftrightarrow> dst + count \<le> src \<or> src + count \<le> dst"

lemma copied_byte:
  "apart dst src count \<Longrightarrow> i < count \<Longrightarrow>
     (copied m dst src i)(dst + i := copied m dst src i (src + i)) = copied m dst src (i + 1)"
  by (rule ext) (auto simp: copied_def apart_def)

lemma copied_word:
  "apart dst src count \<Longrightarrow> i + 8 \<le> count \<Longrightarrow>
     copy_word (copied m dst src i) (dst + i) (src + i) = copied m dst src (i + 8)"
  by (rule ext) (auto simp: copied_def copy_word_def apart_def)

lemma memcpy_bytes_copied:
  assumes "apart dst src count" and "i \<le> count"
  shows "memcpy_bytes (copied m dst src i) dst src count i = copied m dst src count"
  using assms(2)
proof (induction "count - i" arbitrary: i)
  case 0
  then show ?case by (simp add: memcpy_bytes.simps)
next
  case (Suc d)
  then have i: "i < count" by simp
  then have "memcpy_bytes (copied m dst src i) dst src count i =
      memcpy_bytes (copied m dst src (i + 1)) dst src count (i + 1)"
    using copied_byte [OF assms(1) i, of m] by (simp add: memcpy_bytes.simps [of _ dst src count i])
  with Suc i show ?case by simp
qed

lemma memcpy_words_copied:
  assumes "apart dst src count" and "i \<le> count"
  shows "\<exists>j. memcpy_words (copied m dst src i) dst src count i = (copied m dst src j, j) \<and> j \<le> count"
  using assms(2)
proof (induction "count - i" arbitrary: i rule: less_induct)
  case less
  show ?case
  proof (cases "i < count \<and> \<not> i + 7 > count - 1")
    case True
    then have i: "count - (i + 8) < count - i" "i + 8 \<le> count" by auto
    have "memcpy_words (copied m dst src i) dst src count i =
        memcpy_words (copied m dst src (i + 8)) dst src count (i + 8)"
      using True copied_word [OF assms(1) i(2), of m]
      by (simp add: memcpy_words.simps [of _ dst src count i])
    moreover note i
    ultimately show ?thesis using less.hyps [of "i + 8"] by simp
  next
    case False
    then show ?thesis using less.prems by (auto simp: memcpy_words.simps [of _ dst src count i])
  qed
qed

lemma memcpy_copied:
  assumes "apart dst src count" and "count < 2 ^ 64"
  shows "memcpy m dst src count = copied m dst src count"
proof (cases "src mod 8 = 0 \<and> dst mod 8 = 0")
  case True
  obtain j where j: "memcpy_words m dst src count 0 = (copied m dst src j, j)" "j \<le> count"
    using memcpy_words_copied [OF assms(1), of 0 m] by auto
  show ?thesis
  proof (cases "j \<le> pred64 count")
    case True
    with \<open>src mod 8 = 0 \<and> dst mod 8 = 0\<close> j memcpy_bytes_copied [OF assms(1) j(2)] show ?thesis
      by (simp add: memcpy_def)
  next
    case False
    have "j = count"
    proof (cases "count = 0")
      case True
      then show ?thesis using j(2) by simp
    next
      case c: False
      then have "pred64 count = count - 1" using assms(2) by simp
      with False j(2) show ?thesis by simp
    qed
    with True False j show ?thesis by (simp add: memcpy_def)
  qed
next
  case False
  with memcpy_bytes_copied [OF assms(1), of 0 m] show ?thesis by (auto simp: memcpy_def)
qed

lemma memset_eq: "memset m d c count = (\<lambda>a. if d \<le> a \<and> a < d + count then c else m a)"
proof (induction count arbitrary: m d)
  case 0
  show ?case by (rule ext) auto
next
  case (Suc count)
  show ?case by (rule ext) (auto simp: Suc.IH)
qed

section \<open>Strings\<close>

text \<open>At \<open>s\<close> stand the non-zero bytes \<open>xs\<close> and then the terminator.\<close>

fun str_at :: "memory \<Rightarrow> nat \<Rightarrow> u8 list \<Rightarrow> bool" where
  "str_at m s [] \<longleftrightarrow> m s = 0"
| "str_at m s (x # xs) \<longleftrightarrow> m s = x \<and> x \<noteq> 0 \<and> str_at m (s + 1) xs"

lemma str_at_cong:
  "(\<And>a. s \<le> a \<Longrightarrow> a \<le> s + length xs \<Longrightarrow> m' a = m a) \<Longrightarrow> str_at m' s xs = str_at m s xs"
  by (induction xs arbitrary: s) auto

lemma str_end_at: "str_at m s xs \<Longrightarrow> str_end m s = Some (s + length xs)"
  by (induction xs arbitrary: s) (simp_all add: str_end.simps)

lemma strnlen_loop_at: "str_at m s xs \<Longrightarrow> strnlen_loop m s n = s + min n (length xs)"
proof (induction n arbitrary: s xs)
  case 0
  show ?case by simp
next
  case (Suc n)
  show ?case
  proof (cases xs)
    case Nil
    then show ?thesis using Suc.prems by simp
  next
    case (Cons x ys)
    then show ?thesis using Suc.prems Suc.IH [of "s + 1" ys] by simp
  qed
qed

lemma str_copy_step:
  "m src = 0 \<Longrightarrow> str_copy m dest src = Some (m(dest := 0))"
  "m src \<noteq> 0 \<Longrightarrow> str_copy m dest src = str_copy (m(dest := m src)) (dest + 1) (src + 1)"
  by (simp_all add: str_copy.simps [of m dest src] Let_def)

text \<open>The copy of a string and its terminator is the copy of that many bytes.\<close>

lemma str_copy_at:
  assumes "str_at m src xs" and "apart dest src (length xs + 1)"
  shows "str_copy m dest src = Some (copied m dest src (length xs + 1))"
  using assms
proof (induction xs arbitrary: m dest src)
  case Nil
  have "m(dest := 0) = copied m dest src 1"
    using Nil.prems by (intro ext) (auto simp: copied_def)
  then show ?case using Nil.prems str_copy_step(1) by simp
next
  case (Cons x xs)
  let ?m = "m(dest := x)"
  have "str_at ?m (src + 1) xs = str_at m (src + 1) xs"
    using Cons.prems(2) by (intro str_at_cong) (auto simp: apart_def)
  then have "str_at ?m (src + 1) xs" using Cons.prems(1) by simp
  moreover have "apart (dest + 1) (src + 1) (length xs + 1)" using Cons.prems(2) by (auto simp: apart_def)
  ultimately have "str_copy ?m (dest + 1) (src + 1) = Some (copied ?m (dest + 1) (src + 1) (length xs + 1))"
    by (rule Cons.IH)
  moreover have "copied ?m (dest + 1) (src + 1) (length xs + 1) = copied m dest src (length (x # xs) + 1)"
  proof
    fix a
    have "dest + 1 \<le> a \<Longrightarrow> src + 1 + (a - (dest + 1)) = src + (a - dest)" by simp
    then show "copied ?m (dest + 1) (src + 1) (length xs + 1) a = copied m dest src (length (x # xs) + 1) a"
      using Cons.prems by (cases "a = dest") (auto simp: copied_def apart_def)
  qed
  ultimately show ?case using Cons.prems str_copy_step(2) [of m src dest] by simp
qed

text \<open>The loop of \<open>strcmp\<close> moves both pointers in step, and ends.\<close>

lemma strcmp_loop_at:
  "str_at m a xs \<Longrightarrow> \<exists>k \<le> length xs. strcmp_loop m a b = Some (a + k, b + k)"
proof (induction xs arbitrary: a b)
  case Nil
  then show ?case by (simp add: strcmp_loop.simps [of m a b])
next
  case (Cons x xs)
  show ?case
  proof (cases "m a = m b")
    case True
    with Cons.prems have "strcmp_loop m a b = strcmp_loop m (a + 1) (b + 1)"
      by (simp add: strcmp_loop.simps [of m a b])
    with Cons.IH [of "a + 1" "b + 1"] Cons.prems obtain k where
      "k \<le> length xs" "strcmp_loop m a b = Some (a + 1 + k, b + 1 + k)" by auto
    then show ?thesis by (intro exI [of _ "k + 1"]) simp
  next
    case False
    then show ?thesis by (intro exI [of _ 0]) (simp add: strcmp_loop.simps [of m a b])
  qed
qed

lemma strcmp_at:
  assumes "str_at m a xs"
  shows "strcmp m a b = Some (signed_take_bit 31 (int a - int b))"
proof -
  obtain k where "strcmp_loop m a b = Some (a + k, b + k)" using strcmp_loop_at [OF assms] by blast
  then show ?thesis by (simp add: strcmp_def)
qed

section \<open>Properties\<close>



end
