(* ===== verification/Printk.thy ===== *)
theory Printk
  imports Bit_Utils
begin

text \<open>
  The formatter of \<open>src/src/lib/printk.c\<close> and the loop of \<open>console_printk\<close>
  (\<open>src/src/core/console.c\<close>) that prints a format piece by piece through one buffer. A format is
  the list of its characters before the terminator; the variadic arguments are a list of the
  values the caller passed. Reading an argument that was not passed, or passed with another
  type, is undefined: the result is \<open>None\<close>. The buffer is the list of the characters written.
\<close>

datatype va = VInt u64 | VStr string

section \<open>The formatter\<close>

definition F_LONG :: u32 where "F_LONG = shl 1 0"
definition F_UNSIGNED :: u32 where "F_UNSIGNED = shl 1 1"
definition F_BASE16 :: u32 where "F_BASE16 = shl 1 2"

definition digit_to_char :: "u64 \<Rightarrow> u64 \<Rightarrow> char" where
  "digit_to_char i base =
     (let digit = i mod base
      in if i < 10 then char_of (unat (48 + digit)) else char_of (unat (97 + (digit - 10))))"

definition prints :: "string \<Rightarrow> string" where
  "prints str = str"

definition printsn :: "string \<Rightarrow> nat \<Rightarrow> string" where
  "printsn str n = take n str"

definition is_digit :: "char \<Rightarrow> bool" where
  "is_digit c \<longleftrightarrow> of_char c \<ge> (48 :: nat) \<and> of_char c \<le> (57 :: nat)"

definition base_of :: "u32 \<Rightarrow> u64" where
  "base_of flags = (if flags AND F_BASE16 \<noteq> 0 then 16 else 10)"

lemma base_of_unat: "unat (base_of flags) = 16 \<or> unat (base_of flags) = 10"
  by (simp add: base_of_def)

lemma word_div_unat: "unat (a div b) = unat a div unat (b :: u64)"
  by (simp add: unat_div)

function divisor_loop :: "u32 \<Rightarrow> u64 \<Rightarrow> u64 \<Rightarrow> u64" where
  "divisor_loop flags divisor tmp =
     (let base = base_of flags
      in if tmp \<ge> base then divisor_loop flags (divisor * base) (tmp div base) else divisor)"
  by pat_completeness auto
termination
proof (relation "measure (\<lambda>(flags, divisor, tmp). unat tmp)", simp)
  fix flags :: u32 and tmp base :: u64
  assume "base = base_of flags" and "base \<le> tmp"
  then have "unat base = 16 \<or> unat base = 10" "unat base \<le> unat tmp"
    using base_of_unat by (simp_all add: word_le_nat_alt)
  then have "unat tmp div unat base < unat tmp" by auto
  then show "\<And>divisor divisor'. ((flags, divisor, tmp div base), flags, divisor', tmp)
      \<in> measure (\<lambda>(flags, divisor, tmp). unat tmp)"
    by (simp add: word_div_unat)
qed

function digits_loop :: "u32 \<Rightarrow> u64 \<Rightarrow> u64 \<Rightarrow> string" where
  "digits_loop flags divisor u =
     (let base = base_of flags
      in if divisor > 0 then
           (let digit = u div divisor
            in digit_to_char digit base # digits_loop flags (divisor div base) (u - digit * divisor))
         else [])"
  by pat_completeness auto
termination
proof (relation "measure (\<lambda>(flags, divisor, u). unat divisor)", simp)
  fix flags :: u32 and divisor base :: u64
  assume "base = base_of flags" and "0 < divisor"
  then have "unat base = 16 \<or> unat base = 10" "0 < unat divisor"
    using base_of_unat by (simp_all add: word_less_nat_alt)
  then have "unat divisor div unat base < unat divisor" by auto
  then show "\<And>digit u u'. ((flags, divisor div base, u'), flags, divisor, u)
      \<in> measure (\<lambda>(flags, divisor, u). unat divisor)"
    by (simp add: word_div_unat)
qed

declare divisor_loop.simps [simp del] digits_loop.simps [simp del]

text \<open>\<open>va_arg\<close> at the four integer types, widened to 64 bits.\<close>

definition va_arg_unsigned :: "bool \<Rightarrow> u64 \<Rightarrow> u64" where
  "va_arg_unsigned is_long v = (if is_long then v else ucast (ucast v :: u32))"

definition va_arg_signed :: "bool \<Rightarrow> u64 \<Rightarrow> u64" where
  "va_arg_signed is_long v = (if is_long then v else scast (ucast v :: u32))"

fun vprintd :: "u32 \<Rightarrow> va list \<Rightarrow> (string \<times> va list) option" where
  "vprintd flags (VInt v # args) =
     (let is_long = flags AND F_LONG \<noteq> 0;
          is_unsigned = flags AND F_UNSIGNED \<noteq> 0 \<or> base_of flags \<noteq> 10;
          s = va_arg_signed is_long v;
          (sign, u) =
            (if is_unsigned then ([], va_arg_unsigned is_long v)
             else if sint s < 0 then (''-'', 0 - s) else ([], s))
      in Some (sign @ digits_loop flags (divisor_loop flags 1 u) u, args))"
| "vprintd flags _ = None"

text \<open>The flags, the width, the precision and the length between the \<open>%\<close> and the conversion.\<close>

definition skip_flags :: "string \<Rightarrow> string" where
  "skip_flags = dropWhile (\<lambda>c. is_digit c \<or> c \<in> {CHR ''-'', CHR ''+'', CHR '' '', CHR ''#'', CHR ''.''})"

definition stands_at :: "string \<Rightarrow> char \<Rightarrow> bool" where
  "stands_at fmt c \<longleftrightarrow> fmt \<noteq> [] \<and> hd fmt = c"

definition length_flags :: "string \<Rightarrow> u32 \<times> string" where
  "length_flags fmt =
     (if stands_at fmt (CHR ''l'') then
        (let fmt = tl fmt in (F_LONG, if stands_at fmt (CHR ''l'') then tl fmt else fmt))
      else if stands_at fmt (CHR ''z'') then (F_LONG, tl fmt)
      else (0, fmt))"

text \<open>
  The switch: the number of characters of the argument, the characters written, the arguments
  left and whether the conversion character is consumed.
\<close>

definition convert :: "nat \<Rightarrow> nat \<Rightarrow> u32 \<Rightarrow> string \<Rightarrow> va list \<Rightarrow> (nat \<times> string \<times> va list \<times> bool) option" where
  "convert buf_size buf_left flags fmt args =
     (let number = (\<lambda>flags. Option.bind (vprintd flags args) (\<lambda>(text, args').
            let n = length text
            in if n \<le> buf_left then Some (n, text, args', True) else Some (n, [], args, True)))
      in case fmt of
           [] \<Rightarrow> Some (0, [], args, False)
         | c # _ \<Rightarrow>
             if c \<in> {CHR ''x'', CHR ''X''} then number (flags OR F_BASE16 OR F_UNSIGNED)
             else if c = CHR ''u'' then number (flags OR F_UNSIGNED)
             else if c \<in> {CHR ''d'', CHR ''i''} then number flags
             else if c = CHR ''s'' then
               (case args of
                  VStr str # args' \<Rightarrow>
                    (let n = length (prints str)
                     in if n \<le> buf_left then Some (n, prints str, args', True)
                        else if buf_left = buf_size then
                          (let text = printsn str buf_left in Some (length text, text, args', True))
                        else Some (n, [], args, True))
                | _ \<Rightarrow> None)
             else if c = CHR ''c'' then
               (case args of
                  VInt v # args' \<Rightarrow>
                    (if 1 \<le> buf_left then Some (1, [char_of (unat v)], args', True)
                     else Some (1, [], args, True))
                | _ \<Rightarrow> None)
             else if c = CHR ''%'' then
               (if 1 \<le> buf_left then Some (1, ''%'', args, True) else Some (1, [], args, True))
             else Some (0, [], args, False))"

lemma skip_flags_length: "length (skip_flags fmt) \<le> length fmt"
  by (simp add: skip_flags_def length_dropWhile_le)

lemma length_flags_length: "length (snd (length_flags fmt)) \<le> length fmt"
  by (simp add: length_flags_def Let_def)

lemma length_flags_skip: "length_flags (skip_flags fmt) = (flags, fmt') \<Longrightarrow> length fmt' \<le> length fmt"
  by (metis length_flags_length skip_flags_length order_trans snd_conv)

function vsnprintk_loop :: "nat \<Rightarrow> nat \<Rightarrow> string \<Rightarrow> va list \<Rightarrow> (string \<times> string \<times> va list) option" where
  "vsnprintk_loop buf_size buf_left fmt args =
     (case fmt of
        [] \<Rightarrow> Some ([], fmt, args)
      | c # fmt1 \<Rightarrow>
          if \<not> buf_left > 0 then Some ([], fmt, args)
          else if c \<noteq> CHR ''%'' then
            Option.bind (vsnprintk_loop buf_size (buf_left - 1) fmt1 args)
              (\<lambda>(out, rest). Some (c # out, rest))
          else
            (let (flags, fmt2) = length_flags (skip_flags fmt1)
             in case convert buf_size buf_left flags fmt2 args of
                  None \<Rightarrow> None
                | Some (arg_char_count, text, args', consume) \<Rightarrow>
                    if arg_char_count > buf_left then Some (text, fmt, args')
                    else Option.bind
                      (vsnprintk_loop buf_size (buf_left - arg_char_count)
                        (if consume then tl fmt2 else fmt2) args')
                      (\<lambda>(out, rest). Some (text @ out, rest))))"
  by pat_completeness auto
termination
  by (relation "measure (\<lambda>(_, _, fmt, _). length fmt)")
    (auto dest!: length_flags_skip [OF sym] simp: less_Suc_eq_le)

declare vsnprintk_loop.simps [simp del]

text \<open>The characters written (their number is the value returned), the format left and the arguments left.\<close>

definition vsnprintk :: "nat \<Rightarrow> string \<Rightarrow> va list \<Rightarrow> (string \<times> string \<times> va list) option" where
  "vsnprintk buf_size fmt args = vsnprintk_loop buf_size buf_size fmt args"

section \<open>The console\<close>

definition PRINTF_BUFFER_LEN :: nat where
  "PRINTF_BUFFER_LEN = 256"

fun console_write :: "string \<Rightarrow> nat \<Rightarrow> string" where
  "console_write buf 0 = []"
| "console_write [] (Suc n) = []"
| "console_write (c # buf) (Suc n) =
     (if c = CHR 0x0A then [CHR 0x0D] else []) @ c # console_write buf n"

partial_function (option) console_loop :: "string \<Rightarrow> va list \<Rightarrow> string option" where
  "console_loop fmt args =
     (if fmt \<noteq> [] then
        Option.bind (vsnprintk PRINTF_BUFFER_LEN fmt args) (\<lambda>(buf, fmt', args').
          Option.bind (console_loop fmt' args') (\<lambda>uart.
            Some (console_write buf (min PRINTF_BUFFER_LEN (length buf)) @ uart)))
      else Some [])"

definition console_printk :: "string \<Rightarrow> va list \<Rightarrow> string option" where
  "console_printk fmt args = console_loop fmt args"

section \<open>Numbers\<close>

text \<open>The reference: the digits of a number in a base, without leading zeros.\<close>

function show_base :: "nat \<Rightarrow> nat \<Rightarrow> string" where
  "show_base b n =
     (if n < b \<or> b < 2 then [''0123456789abcdef'' ! n]
      else show_base b (n div b) @ [''0123456789abcdef'' ! (n mod b)])"
  by pat_completeness auto
termination
  by (relation "measure snd") auto

declare show_base.simps [simp del]

lemma digit_nth:
  "(i :: nat) < 16 \<Longrightarrow> (if i < 10 then char_of (48 + i) else char_of (97 + (i - 10))) = ''0123456789abcdef'' ! i"
proof -
  assume "i < 16"
  then have "i = 0 \<or> i = 1 \<or> i = 2 \<or> i = 3 \<or> i = 4 \<or> i = 5 \<or> i = 6 \<or> i = 7 \<or> i = 8 \<or> i = 9 \<or>
    i = 10 \<or> i = 11 \<or> i = 12 \<or> i = 13 \<or> i = 14 \<or> i = 15" by presburger
  then show ?thesis by (elim disjE) (simp_all add: char_of_def bit_iff_odd)
qed

lemma digit_to_char_nth:
  assumes "unat i < unat (base_of flags)"
  shows "digit_to_char i (base_of flags) = ''0123456789abcdef'' ! unat i"
proof -
  have i: "unat i < 16" using assms base_of_unat [of flags] by auto
  have "i mod base_of flags = i" using assms by (simp add: word_arith_nat_mod)
  moreover have "unat (48 + i) = 48 + unat i" using i by (simp add: unat_word_ariths)
  moreover have "\<not> i < 10 \<Longrightarrow> unat (97 + (i - 10)) = 97 + (unat i - 10)"
    using i by (simp add: unat_word_ariths unat_sub word_less_nat_alt)
  ultimately show ?thesis
    using digit_nth [OF i] by (auto simp: digit_to_char_def Let_def word_less_nat_alt)
qed

text \<open>The first loop finds the power of the base of the leading digit.\<close>

lemma divisor_loop_power:
  assumes "unat divisor = unat (base_of flags) ^ j" and "unat tmp = u div unat (base_of flags) ^ j"
    and "u < 2 ^ 64" and "j = 0 \<or> unat (base_of flags) ^ j \<le> u"
  shows "\<exists>k. unat (divisor_loop flags divisor tmp) = unat (base_of flags) ^ k \<and>
    u < unat (base_of flags) ^ Suc k \<and> (k = 0 \<or> unat (base_of flags) ^ k \<le> u)"
  using assms
proof (induction flags divisor tmp arbitrary: j rule: divisor_loop.induct)
  case (1 flags divisor tmp)
  let ?b = "unat (base_of flags)"
  have b: "0 < ?b" using base_of_unat [of flags] by auto
  show ?case
  proof (cases "base_of flags \<le> tmp")
    case True
    then have "?b \<le> u div ?b ^ j" using 1(3) by (simp add: word_le_nat_alt)
    then have le: "?b ^ Suc j \<le> u" using b by (simp add: less_eq_div_iff_mult_less_eq)
    then have "unat (divisor * base_of flags) = ?b ^ Suc j"
      using 1(2,4) by (simp add: unat_mult_no_wrap mult.commute)
    moreover have "unat (tmp div base_of flags) = u div ?b ^ Suc j"
      using 1(3) by (simp add: word_div_unat div_mult2_eq [symmetric] mult.commute)
    ultimately show ?thesis
      using 1(1) [OF refl True, of "Suc j"] 1(4) le True
      by (simp add: divisor_loop.simps [of flags divisor tmp] Let_def)
  next
    case False
    then have "u div ?b ^ j < ?b" using 1(3) by (simp add: word_le_nat_alt)
    then have "u < ?b ^ Suc j" using b by (simp add: div_less_iff_less_mult mult.commute)
    then show ?thesis using 1(2,5) False by (auto simp: divisor_loop.simps [of flags divisor tmp])
  qed
qed

text \<open>The second loop writes the digits down to the unit.\<close>

lemma mod_power_digit:
  assumes "i \<le> (k :: nat)" and "0 < b"
  shows "n mod b ^ Suc k div b ^ i mod b = n div b ^ i mod (b :: nat)"
proof -
  have e: "b ^ Suc k = b ^ i * b ^ (Suc k - i)"
    using assms by (metis le_SucI le_add_diff_inverse power_add)
  have "n mod b ^ Suc k div b ^ i = n div b ^ i mod b ^ (Suc k - i)"
    unfolding e mod_mult2_eq using assms(2) by simp
  moreover have "b dvd b ^ (Suc k - i)" using assms(1) by simp
  ultimately show ?thesis by (simp add: mod_mod_cancel)
qed

lemma digits_loop_eq:
  assumes "unat divisor = unat (base_of flags) ^ k" and "unat u < unat (base_of flags) ^ Suc k"
  shows "digits_loop flags divisor u =
    map (\<lambda>i. ''0123456789abcdef'' ! (unat u div unat (base_of flags) ^ i mod unat (base_of flags))) (rev [0..<Suc k])"
  using assms
proof (induction k arbitrary: divisor u)
  case 0
  let ?b = "unat (base_of flags)"
  have d: "divisor = 1" using 0(1) by (simp add: word_unat_eq_iff)
  have "base_of flags \<noteq> 1" by (simp add: base_of_def)
  then have "digits_loop flags (divisor div base_of flags) (u - u div divisor * divisor) = []"
    using d by (simp add: digits_loop.simps [of flags 0])
  moreover have "digit_to_char u (base_of flags) = ''0123456789abcdef'' ! (unat u mod ?b)"
    using 0(2) by (simp add: digit_to_char_nth)
  moreover have "digits_loop flags divisor u = digit_to_char (u div divisor) (base_of flags) #
      digits_loop flags (divisor div base_of flags) (u - u div divisor * divisor)"
    unfolding d by (subst digits_loop.simps) (simp add: Let_def)
  ultimately show ?case using d 0(2) by simp
next
  case (Suc k)
  let ?b = "unat (base_of flags)"
  have b: "0 < ?b" "1 < ?b" using base_of_unat [of flags] by auto
  define v where "v = u - u div divisor * divisor"
  have v: "unat v = unat u mod ?b ^ Suc k"
    unfolding v_def Suc(2) [symmetric] by (metis minus_div_mult_eq_mod unat_mod)
  have d: "unat (divisor div base_of flags) = ?b ^ k"
    using b Suc(2) by (simp add: word_div_unat)
  have "unat (u div divisor) = unat u div ?b ^ Suc k" using Suc(2) by (simp add: word_div_unat)
  moreover have lt: "unat u div ?b ^ Suc k < ?b"
    using Suc(3) b by (simp add: div_less_iff_less_mult mult.commute mult.left_commute)
  ultimately have hd: "digit_to_char (u div divisor) (base_of flags)
      = ''0123456789abcdef'' ! (unat u div ?b ^ Suc k mod ?b)"
    by (simp add: digit_to_char_nth)
  have "digits_loop flags (divisor div base_of flags) v =
      map (\<lambda>i. ''0123456789abcdef'' ! (unat v div ?b ^ i mod ?b)) (rev [0..<Suc k])"
    using v b by (intro Suc.IH d) simp
  also have "\<dots> = map (\<lambda>i. ''0123456789abcdef'' ! (unat u div ?b ^ i mod ?b)) (rev [0..<Suc k])"
    unfolding v by (rule map_cong [OF refl]) (simp only: set_rev set_upt, rule arg_cong, rule mod_power_digit, use b in auto)
  finally have tl: "digits_loop flags (divisor div base_of flags) v =
      map (\<lambda>i. ''0123456789abcdef'' ! (unat u div ?b ^ i mod ?b)) (rev [0..<Suc k])" .
  have "0 < divisor" using Suc(2) b by (simp add: word_less_nat_alt)
  then have "digits_loop flags divisor u =
      digit_to_char (u div divisor) (base_of flags) # digits_loop flags (divisor div base_of flags) v"
    by (simp add: digits_loop.simps [of flags divisor u] Let_def v_def)
  then show ?case unfolding hd tl by simp
qed

lemma show_base_eq:
  assumes "1 < b" and "n < b ^ Suc k" and "k = 0 \<or> b ^ k \<le> n"
  shows "show_base b n = map (\<lambda>i. ''0123456789abcdef'' ! (n div b ^ i mod b)) (rev [0..<Suc k])"
  using assms
proof (induction k arbitrary: n)
  case 0
  then show ?case by (simp add: show_base.simps [of b n])
next
  case (Suc k)
  have "b \<le> n" using Suc.prems by (metis One_nat_def less_numeral_extra(1) nat.distinct(1) order_trans power_Suc self_le_power Suc_leI le_trans zero_less_Suc order.strict_trans)
  moreover have "n div b < b ^ Suc k"
    using Suc.prems by (simp add: div_less_iff_less_mult mult.commute mult.left_commute)
  moreover have "k = 0 \<or> b ^ k \<le> n div b"
    using Suc.prems by (simp add: less_eq_div_iff_mult_less_eq mult.commute)
  ultimately have "show_base b n =
      map (\<lambda>i. ''0123456789abcdef'' ! (n div b div b ^ i mod b)) (rev [0..<Suc k]) @ [''0123456789abcdef'' ! (n mod b)]"
    using Suc.IH [of "n div b"] Suc.prems(1) by (simp add: show_base.simps [of b n])
  also have "map (\<lambda>i. ''0123456789abcdef'' ! (n div b div b ^ i mod b)) (rev [0..<Suc k]) =
      map (\<lambda>i. ''0123456789abcdef'' ! (n div b ^ i mod b)) (map Suc (rev [0..<Suc k]))"
    by (simp add: div_mult2_eq)
  also have "\<dots> @ [''0123456789abcdef'' ! (n mod b)] =
      map (\<lambda>i. ''0123456789abcdef'' ! (n div b ^ i mod b)) (map Suc (rev [0..<Suc k]) @ [0])"
    by simp
  also have "map Suc (rev [0..<Suc k]) @ [0] = rev [0..<Suc (Suc k)]"
    by (metis map_Suc_upt rev.simps(2) rev_map upt_conv_Cons zero_less_Suc)
  finally show ?case .
qed

lemma number_text:
  "digits_loop flags (divisor_loop flags 1 u) u = show_base (unat (base_of flags)) (unat u)"
proof -
  have b: "1 < unat (base_of flags)" using base_of_unat [of flags] by auto
  have "unat u < 2 ^ 64" using unsigned_less [of u] by simp
  then obtain k where "unat (divisor_loop flags 1 u) = unat (base_of flags) ^ k"
    "unat u < unat (base_of flags) ^ Suc k" "k = 0 \<or> unat (base_of flags) ^ k \<le> unat u"
    using divisor_loop_power [of 1 flags 0 u "unat u"] by auto
  with digits_loop_eq show_base_eq [OF b] show ?thesis by simp
qed


section \<open>The text of a format\<close>

text \<open>
  What a format prints, whatever the buffers are: the reference for the formatter. A string
  argument counts with at most \<open>width\<close> characters, the size of the buffers.
\<close>

definition number_of :: "u32 \<Rightarrow> u64 \<Rightarrow> string" where
  "number_of flags v =
     (let is_long = flags AND F_LONG \<noteq> 0; s = va_arg_signed is_long v; u = va_arg_unsigned is_long v
      in if flags AND F_BASE16 \<noteq> 0 then show_base 16 (unat u)
         else if flags AND F_UNSIGNED \<noteq> 0 then show_base 10 (unat u)
         else if sint s < 0 then CHR ''-'' # show_base 10 (nat (- sint s))
         else show_base 10 (nat (sint s)))"

fun converted :: "nat \<Rightarrow> u32 \<Rightarrow> string \<Rightarrow> va list \<Rightarrow> (string \<times> string \<times> va list) option" where
  "converted width flags [] args = Some ([], [], args)"
| "converted width flags (c # fmt) args =
     (if c \<in> {CHR ''x'', CHR ''X''} then
        (case args of VInt v # args' \<Rightarrow> Some (number_of (flags OR F_BASE16) v, fmt, args') | _ \<Rightarrow> None)
      else if c = CHR ''u'' then
        (case args of VInt v # args' \<Rightarrow> Some (number_of (flags OR F_UNSIGNED) v, fmt, args') | _ \<Rightarrow> None)
      else if c \<in> {CHR ''d'', CHR ''i''} then
        (case args of VInt v # args' \<Rightarrow> Some (number_of flags v, fmt, args') | _ \<Rightarrow> None)
      else if c = CHR ''s'' then
        (case args of VStr str # args' \<Rightarrow> Some (take width str, fmt, args') | _ \<Rightarrow> None)
      else if c = CHR ''c'' then
        (case args of VInt v # args' \<Rightarrow> Some ([char_of (unat v)], fmt, args') | _ \<Rightarrow> None)
      else if c = CHR ''%'' then Some (''%'', fmt, args)
      else Some ([], c # fmt, args))"

lemma converted_length: "converted width flags fmt args = Some (text, fmt', args') \<Longrightarrow> length fmt' \<le> length fmt"
  by (cases fmt) (auto split: if_splits list.splits va.splits)

function format_text :: "nat \<Rightarrow> string \<Rightarrow> va list \<Rightarrow> string option" where
  "format_text width fmt args =
     (case fmt of
        [] \<Rightarrow> Some []
      | c # fmt1 \<Rightarrow>
          if c \<noteq> CHR ''%'' then map_option ((#) c) (format_text width fmt1 args)
          else
            (let (flags, fmt2) = length_flags (skip_flags fmt1)
             in case converted width flags fmt2 args of
                  None \<Rightarrow> None
                | Some (text, fmt3, args') \<Rightarrow> map_option ((@) text) (format_text width fmt3 args')))"
  by pat_completeness auto
termination
proof (relation "measure (\<lambda>(_, fmt, _). length fmt)", simp, simp)
  fix width :: nat and fmt fmt1 fmt2 str fmt3 :: string and args args' :: "va list" and c flags x y z
  assume "fmt = c # fmt1" "x = length_flags (skip_flags fmt1)" "(flags, fmt2) = x"
    "converted width flags fmt2 args = Some y" "(str, z) = y" "(fmt3, args') = z"
  then have "length fmt2 \<le> length fmt1" "length fmt3 \<le> length fmt2"
    using length_flags_skip [of fmt1 flags fmt2] converted_length by auto
  then show "((width, fmt3, args'), width, fmt, args) \<in> measure (\<lambda>(_, fmt, _). length fmt)"
    using \<open>fmt = c # fmt1\<close> by simp
qed

declare format_text.simps [simp del]

lemma sint_cases_u64:
  "0 \<le> sint s \<Longrightarrow> unat s = nat (sint (s :: u64))"
  "sint s < 0 \<Longrightarrow> unat (0 - s) = nat (- sint s)"
proof -
  have m: "uint s = sint s mod 2 ^ 64" by (simp add: uint_sint take_bit_eq_mod)
  have r: "- (2 ^ 63) \<le> sint s" "sint s < 2 ^ 63" using sint_ge [of s] sint_lt [of s] by simp_all
  show "0 \<le> sint s \<Longrightarrow> unat s = nat (sint s)"
    using m r by (simp add: unat_eq_nat_uint)
  assume n: "sint s < 0"
  have "uint (0 - s) = (- uint s) mod 2 ^ 64" by (simp add: uint_word_ariths)
  also have "\<dots> = (- sint s) mod 2 ^ 64" unfolding m by (simp add: mod_minus_eq)
  also have "\<dots> = - sint s" using n r by simp
  finally show "unat (0 - s) = nat (- sint s)" by (simp add: unat_eq_nat_uint)
qed

lemma vprintd_number:
  assumes "flags = 0 \<or> flags = F_LONG"
  shows "vprintd flags (VInt v # args) = Some (number_of flags v, args)"
    and "vprintd (flags OR F_UNSIGNED) (VInt v # args) = Some (number_of (flags OR F_UNSIGNED) v, args)"
    and "vprintd (flags OR F_BASE16 OR F_UNSIGNED) (VInt v # args) = Some (number_of (flags OR F_BASE16) v, args)"
  using assms sint_cases_u64
  by (auto simp: number_text number_of_def base_of_def F_LONG_def F_UNSIGNED_def F_BASE16_def shl_def Let_def)

lemma show_base_length: "1 < b \<Longrightarrow> n < b ^ Suc k \<Longrightarrow> length (show_base b n) \<le> Suc k"
proof (induction k arbitrary: n)
  case 0
  then show ?case by (simp add: show_base.simps [of b n])
next
  case (Suc k)
  then have "n div b < b ^ Suc k"
    by (simp add: div_less_iff_less_mult mult.commute mult.left_commute)
  with Suc show ?case by (auto simp: show_base.simps [of b n])
qed

lemma number_of_length: "length (number_of flags v) \<le> 21"
proof -
  have *: "length (show_base b n) \<le> 20" if "n < 2 ^ 64" "b = 10 \<or> b = 16" for b n
    using that show_base_length [of b n 19] by auto
  have u: "unat (u :: u64) < 2 ^ 64" for u using unsigned_less [of u] by simp
  have s: "nat (sint (s :: u64)) < 2 ^ 64" "nat (- sint s) < 2 ^ 64" for s
    using sint_ge [of s] sint_lt [of s] by simp_all
  show ?thesis
    unfolding number_of_def Let_def using *[OF u] *[OF s(1)] *[OF s(2)]
    by (auto intro: le_SucI simp: numeral_eq_Suc)
qed

lemma length_flags_values: "length_flags fmt = (flags, fmt') \<Longrightarrow> flags = 0 \<or> flags = F_LONG"
  by (auto simp: length_flags_def Let_def split: if_splits)

text \<open>A conversion writes the reference's text, or does not fit and leaves everything as it was.\<close>

definition conversion_ok :: "nat \<Rightarrow> nat \<Rightarrow> u32 \<Rightarrow> string \<Rightarrow> va list \<Rightarrow> nat \<Rightarrow> string \<Rightarrow> va list \<Rightarrow> bool \<Rightarrow> bool" where
  "conversion_ok buf_size buf_left flags fmt args n text args' consume \<longleftrightarrow>
     (\<exists>text' fmt' args''. converted buf_size flags fmt args = Some (text', fmt', args'') \<and>
        (if n > buf_left then text = [] \<and> args' = args \<and> (buf_left = buf_size \<longrightarrow> n \<le> 21)
         else n = length text \<and> text = text' \<and> args' = args'' \<and> fmt' = (if consume then tl fmt else fmt)))"

lemma convert_ok:
  assumes "flags = 0 \<or> flags = F_LONG" and "buf_left \<le> buf_size"
  shows "case convert buf_size buf_left flags fmt args of
      None \<Rightarrow> converted buf_size flags fmt args = None
    | Some (n, text, args', consume) \<Rightarrow>
        conversion_ok buf_size buf_left flags fmt args n text args' consume"
proof (cases fmt)
  case Nil
  then show ?thesis by (simp add: convert_def conversion_ok_def)
next
  case (Cons c fmt')
  note number = vprintd_number [OF assms(1)]
  consider (x) "c = CHR ''x'' \<or> c = CHR ''X''" | (u) "c = CHR ''u''" | (d) "c = CHR ''d'' \<or> c = CHR ''i''"
    | (s) "c = CHR ''s''" | (c) "c = CHR ''c''" | (p) "c = CHR ''%''"
    | (other) "c \<notin> {CHR ''x'', CHR ''X'', CHR ''u'', CHR ''d'', CHR ''i'', CHR ''s'', CHR ''c'', CHR ''%''}"
    by blast
  then show ?thesis
  proof cases
    case x
    then show ?thesis using Cons number(3) number_of_length
      by (cases args; cases "hd args") (auto simp: convert_def conversion_ok_def Let_def simp del: vprintd.simps(1))
  next
    case u
    then show ?thesis using Cons number(2) number_of_length
      by (cases args; cases "hd args") (auto simp: convert_def conversion_ok_def Let_def simp del: vprintd.simps(1))
  next
    case d
    then show ?thesis using Cons number(1) number_of_length
      by (cases args; cases "hd args") (auto simp: convert_def conversion_ok_def Let_def simp del: vprintd.simps(1))
  next
    case s
    then show ?thesis using Cons assms(2)
      by (cases args; cases "hd args") (auto simp: convert_def conversion_ok_def prints_def printsn_def Let_def)
  next
    case c
    then show ?thesis using Cons
      by (cases args; cases "hd args") (auto simp: convert_def conversion_ok_def)
  next
    case p
    then show ?thesis using Cons by (auto simp: convert_def conversion_ok_def)
  next
    case other
    then show ?thesis using Cons by (simp add: convert_def conversion_ok_def)
  qed
qed

text \<open>One call writes a prefix of the text and returns the format that prints the rest.\<close>

definition prefix_written ::
    "nat \<Rightarrow> nat \<Rightarrow> string \<Rightarrow> va list \<Rightarrow> string \<Rightarrow> string \<Rightarrow> va list \<Rightarrow> bool" where
  "prefix_written buf_size buf_left fmt args out fmt' args' \<longleftrightarrow>
     format_text buf_size fmt args = map_option ((@) out) (format_text buf_size fmt' args') \<and>
     length out \<le> buf_left \<and> length fmt' \<le> length fmt \<and>
     (fmt \<noteq> [] \<and> buf_left = buf_size \<and> 21 \<le> buf_size \<longrightarrow> length fmt' < length fmt)"

lemma map_option_append: "map_option ((@) xs) (map_option ((@) ys) t) = map_option ((@) (xs @ ys)) t"
  by (cases t) auto

lemma map_option_Cons: "map_option ((#) x) (map_option ((@) ys) t) = map_option ((@) (x # ys)) t"
  by (cases t) auto

lemma prefix_written_stop: "buf_left = 0 \<or> fmt = [] \<Longrightarrow> prefix_written buf_size buf_left fmt args [] fmt args"
  by (cases "format_text buf_size fmt args") (auto simp: prefix_written_def)

lemma vsnprintk_loop_writes:
  assumes "buf_left \<le> buf_size"
  shows "case vsnprintk_loop buf_size buf_left fmt args of
      None \<Rightarrow> format_text buf_size fmt args = None
    | Some (out, fmt', args') \<Rightarrow> prefix_written buf_size buf_left fmt args out fmt' args'"
  using assms
proof (induction buf_size buf_left fmt args rule: vsnprintk_loop.induct)
  case (1 buf_size buf_left fmt args)
  note unfold_loop = vsnprintk_loop.simps [of buf_size buf_left fmt args]
    and unfold_text = format_text.simps [of buf_size fmt args]
  show ?case
  proof (cases "fmt = [] \<or> buf_left = 0")
    case True
    then have "vsnprintk_loop buf_size buf_left fmt args = Some ([], fmt, args)"
      by (auto simp: unfold_loop split: list.split)
    then show ?thesis using prefix_written_stop True by auto
  next
    case False
    then obtain c fmt1 where fmt: "fmt = c # fmt1" and left: "0 < buf_left" by (cases fmt) auto
    show ?thesis
    proof (cases "c = CHR ''%''")
      case c: False
      have IH: "case vsnprintk_loop buf_size (buf_left - 1) fmt1 args of
          None \<Rightarrow> format_text buf_size fmt1 args = None
        | Some (out, fmt', args') \<Rightarrow> prefix_written buf_size (buf_left - 1) fmt1 args out fmt' args'"
        using 1(1) [OF fmt _ c] 1(3) left by simp
      have "vsnprintk_loop buf_size buf_left fmt args =
          Option.bind (vsnprintk_loop buf_size (buf_left - 1) fmt1 args) (\<lambda>(out, rest). Some (c # out, rest))"
        and "format_text buf_size fmt args = map_option ((#) c) (format_text buf_size fmt1 args)"
        using fmt left c unfold_loop unfold_text by simp_all
      with IH left show ?thesis
        by (cases "vsnprintk_loop buf_size (buf_left - 1) fmt1 args")
          (auto simp: prefix_written_def fmt map_option_Cons)
    next
      case c: True
      obtain flags fmt2 where f: "length_flags (skip_flags fmt1) = (flags, fmt2)" by fastforce
      have len: "length fmt2 \<le> length fmt1" using length_flags_skip [OF f] .
      have cv: "case convert buf_size buf_left flags fmt2 args of
          None \<Rightarrow> converted buf_size flags fmt2 args = None
        | Some (n, text, args', consume) \<Rightarrow>
            conversion_ok buf_size buf_left flags fmt2 args n text args' consume"
        using convert_ok [OF length_flags_values [OF f] 1(3)] .
      have ft: "format_text buf_size fmt args =
          (case converted buf_size flags fmt2 args of None \<Rightarrow> None
           | Some (text, fmt3, args') \<Rightarrow> map_option ((@) text) (format_text buf_size fmt3 args'))"
        using fmt c f unfold_text by simp
      show ?thesis
      proof (cases "convert buf_size buf_left flags fmt2 args")
        case None
        then have "vsnprintk_loop buf_size buf_left fmt args = None" using fmt left c f unfold_loop by simp
        with None cv ft show ?thesis by simp
      next
        case (Some r)
        obtain n str args' consume where r: "r = (n, str, args', consume)" by (cases r)
        let ?fmt3 = "if consume then tl fmt2 else fmt2"
        have ok: "conversion_ok buf_size buf_left flags fmt2 args n str args' consume" using cv Some r by simp
        show ?thesis
        proof (cases "n > buf_left")
          case True
          then have "vsnprintk_loop buf_size buf_left fmt args = Some (str, fmt, args')"
            using fmt left c f Some r unfold_loop by simp
          moreover have "str = []" "args' = args" "buf_left = buf_size \<Longrightarrow> n \<le> 21"
            using ok True by (auto simp: conversion_ok_def)
          ultimately show ?thesis using True
            by (cases "format_text buf_size fmt args") (auto simp: prefix_written_def)
        next
          case False
          with ok have ok': "converted buf_size flags fmt2 args = Some (str, ?fmt3, args')" "n = length str"
            by (auto simp: conversion_ok_def)
          have IH: "case vsnprintk_loop buf_size (buf_left - n) ?fmt3 args' of
              None \<Rightarrow> format_text buf_size ?fmt3 args' = None
            | Some (out, fmt', args'') \<Rightarrow> prefix_written buf_size (buf_left - n) ?fmt3 args' out fmt' args''"
            using 1(2) [OF fmt _ _ refl f [symmetric] Some r [symmetric] refl refl False] c left 1(3) by simp
          have "vsnprintk_loop buf_size buf_left fmt args =
              Option.bind (vsnprintk_loop buf_size (buf_left - n) ?fmt3 args') (\<lambda>(out, rest). Some (str @ out, rest))"
            using fmt left c f Some r False unfold_loop by simp
          moreover have "format_text buf_size fmt args = map_option ((@) str) (format_text buf_size ?fmt3 args')"
            using ft ok' by simp
          moreover have "length ?fmt3 < length fmt" using len fmt by auto
          ultimately show ?thesis using IH False ok'(2)
            by (cases "vsnprintk_loop buf_size (buf_left - n) ?fmt3 args'")
              (auto simp: prefix_written_def map_option_append simp del: length_tl split del: if_split)
        qed
      qed
    qed
  qed
qed

definition crlf :: "string \<Rightarrow> string" where
  "crlf str = concat (map (\<lambda>c. if c = CHR 0x0A then [CHR 0x0D, c] else [c]) str)"

lemma console_write_crlf: "console_write buf n = crlf (take n buf)"
  by (induction buf n rule: console_write.induct) (auto simp: crlf_def)

lemma console_loop_prints:
  "format_text PRINTF_BUFFER_LEN fmt args = Some t \<Longrightarrow> console_loop fmt args = Some (crlf t)"
proof (induction "length fmt" arbitrary: fmt args t rule: less_induct)
  case less
  show ?case
  proof (cases "fmt = []")
    case True
    then show ?thesis using less.prems
      by (simp add: console_loop.simps [of "[]" args] format_text.simps crlf_def)
  next
    case False
    have w: "case vsnprintk PRINTF_BUFFER_LEN fmt args of
        None \<Rightarrow> format_text PRINTF_BUFFER_LEN fmt args = None
      | Some (out, fmt', args') \<Rightarrow> prefix_written PRINTF_BUFFER_LEN PRINTF_BUFFER_LEN fmt args out fmt' args'"
      unfolding vsnprintk_def by (rule vsnprintk_loop_writes) simp
    then obtain out fmt' args' where v: "vsnprintk PRINTF_BUFFER_LEN fmt args = Some (out, fmt', args')"
      and p: "prefix_written PRINTF_BUFFER_LEN PRINTF_BUFFER_LEN fmt args out fmt' args'"
      using less.prems by (auto split: option.splits)
    then have "map_option ((@) out) (format_text PRINTF_BUFFER_LEN fmt' args') = Some t"
      using less.prems by (simp add: prefix_written_def)
    then obtain t' where t': "format_text PRINTF_BUFFER_LEN fmt' args' = Some t'" "t = out @ t'" by auto
    have "length fmt' < length fmt" "length out \<le> PRINTF_BUFFER_LEN"
      using p False by (simp_all add: prefix_written_def PRINTF_BUFFER_LEN_def)
    with less.hyps [OF this(1) t'(1)] v t'(2) False show ?thesis
      by (simp add: console_loop.simps [of fmt args] console_write_crlf min_absorb2 crlf_def)
  qed
qed

section \<open>Property\<close>

text \<open>C18: for every format whose arguments are there, \<open>vsnprintk\<close> never writes more than the buffer
  holds, writes the beginning of the format's text and leaves a format that prints exactly the rest;
  hence \<open>console_printk\<close> ends and sends the whole text, every number in full without leading zeros
  (the most negative one included) and every string up to the size of its buffer.\<close>
theorem console_prints_whole_text:
  assumes "format_text n fmt args = Some t" and "format_text PRINTF_BUFFER_LEN fmt args = Some t'"
  shows "(\<exists>out fmt' args' rest. vsnprintk n fmt args = Some (out, fmt', args') \<and> length out \<le> n \<and>
      format_text n fmt' args' = Some rest \<and> t = out @ rest) \<and>
    console_printk fmt args = Some (crlf t')"
proof -
  have "case vsnprintk n fmt args of None \<Rightarrow> format_text n fmt args = None
    | Some (out, fmt', args') \<Rightarrow> prefix_written n n fmt args out fmt' args'"
    unfolding vsnprintk_def by (rule vsnprintk_loop_writes) simp
  then obtain out fmt' args' where v: "vsnprintk n fmt args = Some (out, fmt', args')"
    and p: "prefix_written n n fmt args out fmt' args'"
    using assms(1) by (auto split: option.splits)
  then have "map_option ((@) out) (format_text n fmt' args') = Some t" and l: "length out \<le> n"
    using assms(1) by (simp_all add: prefix_written_def)
  then obtain rest where "format_text n fmt' args' = Some rest" "t = out @ rest" by auto
  with v l console_loop_prints [OF assms(2)] show ?thesis unfolding console_printk_def by auto
qed

theorem console_prints_whole_text_witness:
  "\<exists>out fmt' args'. vsnprintk 4 ''v=%d!'' [VInt 12] = Some (out, fmt', args') \<and> length out \<le> 4 \<and>
     console_printk ''v=%d!'' [VInt 12] = Some ''v=12!''"
proof -
  have "number_of 0 12 = ''12''"
    by (simp add: number_of_def va_arg_signed_def show_base.simps)
  then have "format_text n ''v=%d!'' [VInt 12] = Some ''v=12!''" for n
    by (simp add: format_text.simps length_flags_def skip_flags_def stands_at_def is_digit_def)
  from console_prints_whole_text [OF this [of 4] this] show ?thesis
    by (auto simp: crlf_def)
qed

end
