(* ===== verification/Linked_List.thy ===== *)
theory Linked_List
  imports Fifo_Interface
begin

text \<open>
  The intrusive lists of \<open>src/src/lib/inc/list.h\<close>: a list is a head and a tail pointer, and the
  first word of every node holds the pointer to the next one. The nodes' first words are a heap
  from node addresses to pointers, with \<open>None\<close> for NULL, so aliasing is that of the code: two
  lists that share a node share its link.

  The lemmas show that on a well-formed list every operation does what its name says to the
  sequence of nodes: \<open>list_push\<close> appends, \<open>list_pop\<close> takes the first, \<open>list_rm\<close> deletes a node,
  \<open>list_insert_ordered\<close> inserts before the first greater node, and \<open>list_foreach\<close> visits the
  nodes in order. The two loops that walk the links may run forever on an ill-formed list: they
  are partial functions, and on a well-formed list they are proved to return.
\<close>

type_synonym 'a heap = "'a \<Rightarrow> 'a option"

record 'a llist =
  head :: "'a option"
  tail :: "'a option"

section \<open>The operations\<close>

definition list_init :: "'a llist option \<Rightarrow> 'a llist option" where
  "list_init lst = (case lst of None \<Rightarrow> None | Some l \<Rightarrow> Some (l\<lparr>head := None, tail := None\<rparr>))"

definition list_push :: "'a llist option \<Rightarrow> 'a option \<Rightarrow> 'a heap \<Rightarrow> 'a llist option \<times> 'a heap" where
  "list_push lst node h =
     (case (lst, node) of
        (Some l, Some n) \<Rightarrow>
          (let h = h(n := None);
               h = (case tail l of Some t \<Rightarrow> h(t := Some n) | None \<Rightarrow> h);
               l = l\<lparr>tail := Some n\<rparr>;
               l = (if head l = None then l\<lparr>head := Some n\<rparr> else l)
           in (Some l, h))
      | _ \<Rightarrow> (lst, h))"

definition list_pop :: "'a llist option \<Rightarrow> 'a heap \<Rightarrow> 'a option \<times> 'a llist option \<times> 'a heap" where
  "list_pop lst h =
     (case lst of
        None \<Rightarrow> (None, lst, h)
      | Some l \<Rightarrow>
          (case head l of
             None \<Rightarrow> (None, Some l, h)
           | Some temp \<Rightarrow>
               (let l = l\<lparr>head := h temp\<rparr>;
                    l = (if head l = None then l\<lparr>tail := None\<rparr> else l);
                    h = h(temp := None)
                in (Some temp, Some l, h))))"

definition list_peek :: "'a llist option \<Rightarrow> 'a option" where
  "list_peek lst = (case lst of None \<Rightarrow> None | Some l \<Rightarrow> head l)"

definition list_empty :: "'a llist \<Rightarrow> bool" where
  "list_empty l \<longleftrightarrow> head l = None"

partial_function (option) list_rm_loop ::
    "'a heap \<Rightarrow> 'a \<Rightarrow> 'a option \<Rightarrow> 'a option \<Rightarrow> ('a option \<times> 'a option) option" where
  "list_rm_loop h node temp temp_prev =
     (case temp of
        None \<Rightarrow> Some (temp, temp_prev)
      | Some t \<Rightarrow> if t \<noteq> node then list_rm_loop h node (h t) temp else Some (temp, temp_prev))"

definition list_rm ::
    "'a llist option \<Rightarrow> 'a option \<Rightarrow> 'a heap \<Rightarrow> (bool \<times> 'a llist option \<times> 'a heap) option" where
  "list_rm lst node h =
     (case (lst, node) of
        (Some l, Some n) \<Rightarrow>
          (case list_rm_loop h n (head l) None of
             None \<Rightarrow> None
           | Some (temp, temp_prev) \<Rightarrow>
               (if temp = Some n then
                  (let (l, h) = (case temp_prev of
                         Some p \<Rightarrow> (l, h(p := h n))
                       | None \<Rightarrow> (l\<lparr>head := h n\<rparr>, h));
                       l = (if tail l = Some n then l\<lparr>tail := temp_prev\<rparr> else l)
                   in Some (True, Some l, h))
                else Some (True, Some l, h)))
      | _ \<Rightarrow> Some (True, lst, h))"

partial_function (option) list_insert_loop ::
    "('a \<Rightarrow> 'a \<Rightarrow> int) \<Rightarrow> 'a heap \<Rightarrow> 'a \<Rightarrow> 'a option \<Rightarrow> 'a option \<Rightarrow> ('a option \<times> 'a option) option" where
  "list_insert_loop cmp h node cur lst_tail =
     (case cur of
        None \<Rightarrow> Some (cur, lst_tail)
      | Some c \<Rightarrow> if cmp c node > 0 then Some (cur, lst_tail) else list_insert_loop cmp h node (h c) cur)"

definition list_insert_ordered ::
    "'a llist option \<Rightarrow> 'a option \<Rightarrow> ('a \<Rightarrow> 'a \<Rightarrow> int) \<Rightarrow> 'a heap \<Rightarrow> ('a llist option \<times> 'a heap) option" where
  "list_insert_ordered lst node cmp h =
     (case (lst, node) of
        (Some l, Some n) \<Rightarrow>
          (let h = h(n := None)
           in (case list_insert_loop cmp h n (head l) None of
                 None \<Rightarrow> None
               | Some (cur, lst_tail) \<Rightarrow>
                   (let (l, h) = (case cur of
                          Some c \<Rightarrow> (l, h(n := Some c))
                        | None \<Rightarrow> (l\<lparr>tail := Some n\<rparr>, h));
                        (l, h) = (case lst_tail of
                          Some t \<Rightarrow> (l, h(t := Some n))
                        | None \<Rightarrow> (l\<lparr>head := Some n\<rparr>, h))
                    in Some (Some l, h))))
      | _ \<Rightarrow> Some (lst, h))"

text \<open>The nodes that \<open>list_foreach\<close> visits, in order.\<close>

partial_function (option) list_foreach :: "'a heap \<Rightarrow> 'a option \<Rightarrow> 'a list option" where
  "list_foreach h nodeptr =
     (case nodeptr of
        None \<Rightarrow> Some []
      | Some n \<Rightarrow> Option.bind (list_foreach h (h n)) (\<lambda>ns. Some (n # ns)))"

section \<open>Well-formed lists\<close>

fun path :: "'a heap \<Rightarrow> 'a option \<Rightarrow> 'a list \<Rightarrow> 'a option \<Rightarrow> bool" where
  "path h p [] q \<longleftrightarrow> p = q"
| "path h p (x # xs) q \<longleftrightarrow> p = Some x \<and> path h (h x) xs q"

text \<open>The list \<open>l\<close> over the heap \<open>h\<close> holds the nodes \<open>xs\<close>, in this order.\<close>

definition list_rep :: "'a heap \<Rightarrow> 'a llist \<Rightarrow> 'a list \<Rightarrow> bool" where
  "list_rep h l xs \<longleftrightarrow> path h (head l) xs None \<and> distinct xs \<and>
     tail l = (if xs = [] then None else Some (last xs))"

lemma path_append: "path h p (xs @ ys) q \<longleftrightarrow> (\<exists>r. path h p xs r \<and> path h r ys q)"
  by (induction xs arbitrary: p) auto

lemma path_upd [simp]: "a \<notin> set xs \<Longrightarrow> path (h(a := v)) p xs q = path h p xs q"
  by (induction xs arbitrary: p) auto

lemma path_None [simp]: "path h None xs q \<longleftrightarrow> xs = [] \<and> q = None"
  by (cases xs) auto

lemma list_rep_head: "list_rep h l xs \<Longrightarrow> head l = (case xs of [] \<Rightarrow> None | x # _ \<Rightarrow> Some x)"
  by (cases xs) (auto simp: list_rep_def)

lemma list_rep_unique: "list_rep h l xs \<Longrightarrow> list_rep h l ys \<Longrightarrow> xs = ys"
proof -
  have "path h p xs None \<Longrightarrow> path h p ys None \<Longrightarrow> xs = ys" for p
    by (induction xs arbitrary: p ys) (case_tac ys; auto)+
  then show "list_rep h l xs \<Longrightarrow> list_rep h l ys \<Longrightarrow> xs = ys" by (auto simp: list_rep_def)
qed

lemma list_rep_upd:
  "list_rep h l xs \<Longrightarrow> a \<notin> set xs \<Longrightarrow> list_rep (h(a := v)) l xs"
  by (simp add: list_rep_def)

lemma list_rep_init: "list_rep h (the (list_init (Some l))) []"
  by (simp add: list_rep_def list_init_def)

lemma list_rep_snoc_iff:
  "list_rep h l (xs @ [x]) \<longleftrightarrow>
     path h (head l) xs (Some x) \<and> h x = None \<and> distinct xs \<and> x \<notin> set xs \<and> tail l = Some x"
  by (auto simp: list_rep_def path_append)

lemma list_push_rep:
  assumes "list_rep h l xs" and "n \<notin> set xs"
  shows "\<exists>l' h'. list_push (Some l) (Some n) h = (Some l', h') \<and> list_rep h' l' (xs @ [n])"
proof (cases xs rule: rev_cases)
  case Nil
  then show ?thesis using assms by (simp add: list_push_def list_rep_def Let_def)
next
  case (snoc ys t)
  with assms have r: "path h (head l) ys (Some t)" "h t = None" "distinct ys" "t \<notin> set ys"
      "tail l = Some t" "n \<noteq> t" "n \<notin> set ys"
    by (auto simp: list_rep_snoc_iff)
  from r(1) obtain y where "head l = Some y" by (cases "head l") auto
  with r snoc show ?thesis
    by (simp add: list_push_def Let_def list_rep_def path_append)
qed

lemma list_pop_rep:
  assumes "list_rep h l xs"
  shows "\<exists>l' h'. list_pop (Some l) h = (case xs of [] \<Rightarrow> None | x # _ \<Rightarrow> Some x, Some l', h') \<and>
    list_rep h' l' (tl xs) \<and> (\<forall>x \<in> set (take 1 xs). h' x = None)"
proof (cases xs)
  case Nil
  with assms show ?thesis by (auto simp: list_pop_def list_rep_def)
next
  case (Cons x ys)
  with assms show ?thesis
    by (cases ys) (auto simp: list_pop_def list_rep_def Let_def)
qed

lemma list_foreach_path: "path h p xs None \<Longrightarrow> list_foreach h p = Some xs"
  by (induction xs arbitrary: p) (auto simp: list_foreach.simps)

lemma list_foreach_rep: "list_rep h l xs \<Longrightarrow> list_foreach h (head l) = Some xs"
  by (simp add: list_rep_def list_foreach_path)

subsection \<open>Removal\<close>

lemma list_rm_loop_notin:
  "path h p xs None \<Longrightarrow> n \<notin> set xs \<Longrightarrow> \<exists>q. list_rm_loop h n p prv = Some (None, q)"
proof (induction xs arbitrary: p prv)
  case Nil
  then show ?case by (simp add: list_rm_loop.simps)
next
  case (Cons x xs)
  then have "\<exists>q. list_rm_loop h n (h x) (Some x) = Some (None, q)" by auto
  with Cons.prems show ?case by (auto simp: list_rm_loop.simps [of h n "Some _"])
qed

lemma list_rm_loop_found:
  assumes "path h p (ys @ n # zs) None" and "n \<notin> set ys"
  shows "list_rm_loop h n p prv = Some (Some n, if ys = [] then prv else Some (last ys))"
  using assms
proof (induction ys arbitrary: p prv)
  case Nil
  then show ?case by (simp add: list_rm_loop.simps)
next
  case (Cons y ys)
  then have "list_rm_loop h n (h y) (Some y) = Some (Some n, if ys = [] then Some y else Some (last ys))"
    by auto
  with Cons.prems show ?case by (auto simp: list_rm_loop.simps [of h n "Some _"])
qed

lemma list_rm_rep:
  assumes "list_rep h l xs"
  shows "\<exists>l' h'. list_rm (Some l) (Some n) h = Some (True, Some l', h') \<and> list_rep h' l' (remove1 n xs)"
proof (cases "n \<in> set xs")
  case False
  with assms obtain q where "list_rm_loop h n (head l) None = Some (None, q)"
    using list_rm_loop_notin [of h "head l" xs n None] by (auto simp: list_rep_def)
  with assms False show ?thesis by (simp add: list_rm_def remove1_idem)
next
  case True
  then obtain ys zs where xs: "xs = ys @ n # zs" "n \<notin> set ys" by (meson split_list_first)
  with assms have dis: "distinct (ys @ zs)" "n \<notin> set zs" and p: "path h (head l) (ys @ n # zs) None"
    and t: "tail l = Some (last (n # zs))" by (auto simp: list_rep_def)
  have loop: "list_rm_loop h n (head l) None = Some (Some n, if ys = [] then None else Some (last ys))"
    using p xs(2) by (rule list_rm_loop_found)
  have rm: "remove1 n xs = ys @ zs" using xs by (simp add: remove1_append)
  have last: "zs \<noteq> [] \<Longrightarrow> last zs \<noteq> n" using dis(2) by auto
  show ?thesis
  proof (cases ys rule: rev_cases)
    case Nil
    with p have pn: "head l = Some n" "path h (h n) zs None" by auto
    have "list_rm (Some l) (Some n) h = Some (True, Some (l\<lparr>head := h n,
        tail := if zs = [] then None else Some (last zs)\<rparr>), h)"
      using loop t last Nil by (auto simp: list_rm_def Let_def)
    with pn rm dis Nil show ?thesis by (simp add: list_rep_def)
  next
    case (snoc us u)
    with p have pu: "path h (head l) us (Some u)" "h u = Some n" "path h (h n) zs None"
      by (auto simp: path_append)
    have u: "u \<notin> set us" "u \<notin> set zs" "distinct us" using dis snoc by auto
    have "list_rm (Some l) (Some n) h = Some (True, Some (l\<lparr>tail :=
        if zs = [] then Some u else Some (last zs)\<rparr>), h(u := h n))"
      using loop t last snoc by (auto simp: list_rm_def Let_def)
    with pu rm dis snoc u show ?thesis by (simp add: list_rep_def path_append)
  qed
qed

subsection \<open>Ordered insertion\<close>

definition insert_before_greater :: "('a \<Rightarrow> 'a \<Rightarrow> int) \<Rightarrow> 'a \<Rightarrow> 'a list \<Rightarrow> 'a list" where
  "insert_before_greater cmp n xs =
     takeWhile (\<lambda>x. cmp x n \<le> 0) xs @ n # dropWhile (\<lambda>x. cmp x n \<le> 0) xs"

lemma list_insert_loop_path:
  assumes "path h p xs None"
  shows "list_insert_loop cmp h n p prv =
    Some (case dropWhile (\<lambda>x. cmp x n \<le> 0) xs of [] \<Rightarrow> None | x # _ \<Rightarrow> Some x,
          if takeWhile (\<lambda>x. cmp x n \<le> 0) xs = [] then prv
          else Some (last (takeWhile (\<lambda>x. cmp x n \<le> 0) xs)))"
  using assms
proof (induction xs arbitrary: p prv)
  case Nil
  then show ?case by (simp add: list_insert_loop.simps)
next
  case (Cons x xs)
  then show ?case by (auto simp: list_insert_loop.simps [of cmp h n "Some _"])
qed

lemma list_insert_ordered_rep:
  assumes "list_rep h l xs" and "n \<notin> set xs"
  shows "\<exists>l' h'. list_insert_ordered (Some l) (Some n) cmp h = Some (Some l', h') \<and>
    list_rep h' l' (insert_before_greater cmp n xs)"
proof -
  define us where "us = takeWhile (\<lambda>x. cmp x n \<le> 0) xs"
  define vs where "vs = dropWhile (\<lambda>x. cmp x n \<le> 0) xs"
  have xs: "xs = us @ vs" by (simp add: us_def vs_def)
  have p: "path (h(n := None)) (head l) xs None" using assms by (simp add: list_rep_def)
  have loop: "list_insert_loop cmp (h(n := None)) n (head l) None =
      Some (case vs of [] \<Rightarrow> None | x # _ \<Rightarrow> Some x, if us = [] then None else Some (last us))"
    using list_insert_loop_path [OF p] by (simp add: us_def vs_def)
  have d: "distinct us" "distinct vs" "set us \<inter> set vs = {}" "n \<notin> set us" "n \<notin> set vs"
    using assms xs by (auto simp: list_rep_def)
  define h0 where "h0 = h(n := None)"
  define h1 where "h1 = h(n := (case vs of [] \<Rightarrow> None | v # _ \<Rightarrow> Some v))"
  define tl' where "tl' = (if vs = [] then Some n else Some (last vs))"
  have t: "vs \<noteq> [] \<Longrightarrow> tail l = Some (last vs)"
    using assms(1) by (simp add: list_rep_def xs)
  have vs: "path h1 (h1 n) vs None"
  proof -
    from p obtain r where "path h0 r vs None" by (auto simp: xs path_append h0_def)
    moreover from this have "r = h1 n" by (cases vs) (auto simp: h1_def)
    moreover have "h1 = h0(n := h1 n)" by (simp add: h0_def h1_def)
    ultimately show ?thesis using d(5) by (metis path_upd)
  qed
  show ?thesis
  proof (cases us rule: rev_cases)
    case Nil
    have "list_insert_ordered (Some l) (Some n) cmp h = Some (Some (l\<lparr>head := Some n, tail := tl'\<rparr>), h1)"
      using loop Nil t
      by (cases vs) (auto simp: list_insert_ordered_def Let_def h1_def tl'_def)
    with Nil vs d show ?thesis
      by (simp add: list_rep_def insert_before_greater_def us_def [symmetric] vs_def [symmetric] tl'_def)
  next
    case (snoc ws w)
    have "list_insert_ordered (Some l) (Some n) cmp h =
        Some (Some (l\<lparr>tail := tl'\<rparr>), h1(w := Some n))"
      using loop snoc t
      by (cases vs) (auto simp: list_insert_ordered_def Let_def h1_def tl'_def)
    moreover have "path h1 (head l) ws (Some w)" "w \<noteq> n" "w \<notin> set vs" "w \<notin> set ws"
      using p d snoc by (auto simp: xs path_append h1_def)
    ultimately show ?thesis using vs d snoc
      by (simp add: list_rep_def insert_before_greater_def us_def [symmetric] vs_def [symmetric]
        tl'_def path_append)
  qed
qed

section \<open>The intrusive list is a list of nodes\<close>

lemma insert_before_greater_sorted:
  assumes "sorted_wrt (\<lambda>x y. cmp x y \<le> 0) xs"
    and "\<And>x y. cmp x y > 0 \<Longrightarrow> cmp y x \<le> 0"
    and "\<And>x y z. cmp x y \<le> 0 \<Longrightarrow> cmp y z \<le> 0 \<Longrightarrow> cmp x z \<le> 0"
  shows "sorted_wrt (\<lambda>x y. cmp x y \<le> 0) (insert_before_greater cmp n xs)"
  using assms(1)
proof (induction xs)
  case Nil
  then show ?case by (simp add: insert_before_greater_def)
next
  case (Cons x xs)
  show ?case
  proof (cases "cmp x n \<le> 0")
    case True
    have "set (insert_before_greater cmp n xs) = insert n (set xs)"
      unfolding insert_before_greater_def
      by (metis (no_types, lifting) Un_insert_right list.simps(15) set_append takeWhile_dropWhile_id)
    with True Cons show ?thesis by (auto simp: insert_before_greater_def)
  next
    case False
    then have "cmp n x \<le> 0" using assms(2) by simp
    with False Cons show ?thesis by (auto simp: insert_before_greater_def intro: assms(3))
  qed
qed

subsection \<open>A first-in first-out queue of nodes\<close>

definition list_enq :: "'a heap \<times> 'a llist \<Rightarrow> 'a \<Rightarrow> bool \<times> 'a heap \<times> 'a llist" where
  "list_enq s n = (case list_push (Some (snd s)) (Some n) (fst s) of
     (Some l, h) \<Rightarrow> (True, h, l) | (None, h) \<Rightarrow> (False, h, snd s))"

definition list_deq :: "'a heap \<times> 'a llist \<Rightarrow> 'a option \<times> 'a heap \<times> 'a llist" where
  "list_deq s = (case list_pop (Some (snd s)) (fst s) of
     (r, Some l, h) \<Rightarrow> (r, h, l) | (r, None, h) \<Rightarrow> (r, h, snd s))"

definition list_nodes :: "'a heap \<times> 'a llist \<Rightarrow> 'a list" where
  "list_nodes s = the (list_foreach (fst s) (head (snd s)))"

definition list_invar :: "'a heap \<times> 'a llist \<Rightarrow> bool" where
  "list_invar s \<longleftrightarrow> (\<exists>xs. list_rep (fst s) (snd s) xs)"

definition list_unlinked :: "'a heap \<times> 'a llist \<Rightarrow> 'a \<Rightarrow> bool" where
  "list_unlinked s n \<longleftrightarrow> n \<notin> set (list_nodes s)"

lemma list_nodes_rep: "list_rep h l xs \<Longrightarrow> list_nodes (h, l) = xs"
  by (simp add: list_nodes_def list_foreach_rep)

interpretation linked: fifo list_invar list_nodes list_unlinked list_enq list_deq
proof unfold_locales
  fix s :: "'a heap \<times> 'a llist" and n
  assume inv: "list_invar s" and un: "list_unlinked s n"
  obtain h l xs where s: "s = (h, l)" "list_rep h l xs" using inv by (cases s) (auto simp: list_invar_def)
  with un have "n \<notin> set xs" by (simp add: list_unlinked_def list_nodes_rep)
  with list_push_rep [OF s(2)] obtain l' h' where
    "list_push (Some l) (Some n) h = (Some l', h')" "list_rep h' l' (xs @ [n])" by blast
  with s show "fst (list_enq s n) \<and> list_invar (snd (list_enq s n)) \<and>
      list_nodes (snd (list_enq s n)) = list_nodes s @ [n]"
    by (auto simp: list_enq_def list_invar_def list_nodes_rep)
next
  fix s :: "'a heap \<times> 'a llist"
  assume inv: "list_invar s"
  obtain h l xs where s: "s = (h, l)" "list_rep h l xs" using inv by (cases s) (auto simp: list_invar_def)
  from list_pop_rep [OF s(2)] obtain l' h' where
    p: "list_pop (Some l) h = (case xs of [] \<Rightarrow> None | x # _ \<Rightarrow> Some x, Some l', h')" "list_rep h' l' (tl xs)"
    by blast
  then have "list_deq s = (case xs of [] \<Rightarrow> None | x # _ \<Rightarrow> Some x, h', l')" by (simp add: list_deq_def s(1))
  with s p(2) show "fst (list_deq s) = (case list_nodes s of [] \<Rightarrow> None | x # _ \<Rightarrow> Some x)"
    and "list_invar (snd (list_deq s)) \<and> list_nodes (snd (list_deq s)) = tl (list_nodes s)"
    by (auto simp: list_invar_def list_nodes_rep)
qed

text \<open>C5: the operations on the linked nodes refine the operations on the sequence of nodes: a
  push appends, a pop takes the first, a removal takes out the node wherever it is linked and
  does nothing when it is not, and an ordered insertion puts the node before the first greater
  one. Each loop ends, and head, tail and links stay consistent.\<close>
theorem list_operations_refine:
  assumes "list_rep h l xs"
  shows "(n \<notin> set xs \<longrightarrow>
      (\<exists>l' h'. list_push (Some l) (Some n) h = (Some l', h') \<and> list_rep h' l' (xs @ [n]))) \<and>
    (\<exists>l' h'. list_pop (Some l) h = (case xs of [] \<Rightarrow> None | x # _ \<Rightarrow> Some x, Some l', h') \<and>
      list_rep h' l' (tl xs)) \<and>
    (\<exists>l' h'. list_rm (Some l) (Some n) h = Some (True, Some l', h') \<and> list_rep h' l' (remove1 n xs)) \<and>
    (n \<notin> set xs \<longrightarrow> (\<exists>l' h'. list_insert_ordered (Some l) (Some n) cmp h = Some (Some l', h') \<and>
      list_rep h' l' (insert_before_greater cmp n xs))) \<and>
    list_foreach h (head l) = Some xs"
  using list_push_rep [OF assms] list_pop_rep [OF assms] list_rm_rep [OF assms]
    list_insert_ordered_rep [OF assms] list_foreach_rep [OF assms]
  by (intro conjI impI) blast+

definition demo_heap :: "nat heap" where
  "demo_heap = (\<lambda>a. if a = 3 then Some 7 else None)"

theorem list_operations_refine_witness:
  "\<exists>l' h'. list_rm (Some \<lparr>head = Some 3, tail = Some 7\<rparr>) (Some 7) demo_heap = Some (True, Some l', h') \<and>
     list_rep h' l' [3]"
  using list_operations_refine [of demo_heap "\<lparr>head = Some 3, tail = Some 7\<rparr>" "[3, 7]" 7]
  by (simp add: list_rep_def demo_heap_def)

end
