(* ===== verification/Cpu_Sync.thy ===== *)
theory Cpu_Sync
  imports Prelude
begin

text \<open>
  The barrier of \<open>src/src/core/inc/cpu.h\<close>: a token counts the arrivals, and a processor waits until
  the count reaches the next multiple of the number of participants. The token is shared, so the
  barrier is a step relation over the interleavings of the processors: one step for the locked
  increment, one for leaving the wait loop. The count of a token is a \<open>size_t\<close> that only grows; it
  is a natural number. The same token serves barrier after barrier.
\<close>

section \<open>The token\<close>

record cpu_synctoken =
  tok_n :: nat
  tok_ready :: bool
  tok_count :: nat

definition cpu_sync_init :: "nat \<Rightarrow> cpu_synctoken" where
  "cpu_sync_init n = \<lparr>tok_n = n, tok_ready = True, tok_count = 0\<rparr>"

text \<open>\<open>ALIGN\<close> of the count.\<close>

definition next_multiple :: "nat \<Rightarrow> nat \<Rightarrow> nat" where
  "next_multiple v n = ((v + n - 1) div n) * n"

text \<open>The locked part: the count to wait for, and the token.\<close>

definition cpu_sync_arrive :: "cpu_synctoken \<Rightarrow> nat \<times> cpu_synctoken" where
  "cpu_sync_arrive t =
     (let t = t\<lparr>tok_count := tok_count t + 1\<rparr> in (next_multiple (tok_count t) (tok_n t), t))"

definition cpu_sync_waits :: "cpu_synctoken \<Rightarrow> nat \<Rightarrow> bool" where
  "cpu_sync_waits t next_count \<longleftrightarrow> tok_count t < next_count"

section \<open>The processors\<close>

text \<open>
  A processor is outside the barrier or waits in it for a count. Two counters per processor, that
  the code does not have, record how often it has entered and left the barrier.
\<close>

datatype sync_pc = Outside | Waiting nat

record sync_state =
  token :: cpu_synctoken
  pc :: "nat \<Rightarrow> sync_pc"
  entered :: "nat \<Rightarrow> nat"
  passed :: "nat \<Rightarrow> nat"

definition sync_start :: "nat \<Rightarrow> sync_state" where
  "sync_start n = \<lparr>token = cpu_sync_init n, pc = (\<lambda>_. Outside), entered = (\<lambda>_. 0), passed = (\<lambda>_. 0)\<rparr>"

inductive cpu_sync_barrier :: "nat \<Rightarrow> sync_state \<Rightarrow> sync_state \<Rightarrow> bool" for c :: nat where
  arrive: "pc s c = Outside \<Longrightarrow> tok_ready (token s) \<Longrightarrow> cpu_sync_arrive (token s) = (next_count, t) \<Longrightarrow>
    cpu_sync_barrier c s (s\<lparr>token := t, pc := (pc s)(c := Waiting next_count),
      entered := (entered s)(c := entered s c + 1)\<rparr>)"
| leave: "pc s c = Waiting next_count \<Longrightarrow> \<not> cpu_sync_waits (token s) next_count \<Longrightarrow>
    cpu_sync_barrier c s (s\<lparr>pc := (pc s)(c := Outside), passed := (passed s)(c := passed s c + 1)\<rparr>)"

inductive_cases cpu_sync_barrierE: "cpu_sync_barrier c s s'"

inductive sync_reachable :: "nat \<Rightarrow> sync_state \<Rightarrow> bool" for n :: nat where
  start: "sync_reachable n (sync_start n)"
| step: "sync_reachable n s \<Longrightarrow> c < n \<Longrightarrow> cpu_sync_barrier c s s' \<Longrightarrow> sync_reachable n s'"

section \<open>The invariant\<close>

text \<open>
  The processors are within one arrival of each other: all have entered the barrier \<open>q\<close> or \<open>q + 1\<close>
  times, where \<open>q\<close> is the number of full rounds counted, and one that waits in its \<open>k\<close>-th barrier
  waits for \<open>k\<close> full rounds.
\<close>

definition sync_inv :: "nat \<Rightarrow> sync_state \<Rightarrow> bool" where
  "sync_inv n s \<longleftrightarrow>
     tok_n (token s) = n \<and> tok_ready (token s) \<and>
     tok_count (token s) = (\<Sum>c<n. entered s c) \<and>
     (\<forall>c<n. tok_count (token s) div n \<le> entered s c \<and> entered s c \<le> tok_count (token s) div n + 1) \<and>
     (\<forall>c<n. case pc s c of
        Outside \<Rightarrow> passed s c = entered s c \<and> entered s c * n \<le> tok_count (token s)
      | Waiting k \<Rightarrow> k = entered s c * n \<and> entered s c = passed s c + 1)"

lemma sync_invD:
  assumes "sync_inv n s"
  shows "tok_n (token s) = n" "tok_ready (token s)" "tok_count (token s) = (\<Sum>c<n. entered s c)"
    and "c < n \<Longrightarrow> tok_count (token s) div n \<le> entered s c \<and> entered s c \<le> tok_count (token s) div n + 1"
    and "c < n \<Longrightarrow> pc s c = Outside \<Longrightarrow> passed s c = entered s c \<and> entered s c * n \<le> tok_count (token s)"
    and "c < n \<Longrightarrow> pc s c = Waiting k \<Longrightarrow> k = entered s c * n \<and> entered s c = passed s c + 1"
proof -
  have "\<forall>c<n. case pc s c of
        Outside \<Rightarrow> passed s c = entered s c \<and> entered s c * n \<le> tok_count (token s)
      | Waiting k \<Rightarrow> k = entered s c * n \<and> entered s c = passed s c + 1"
    and "\<forall>c<n. tok_count (token s) div n \<le> entered s c \<and> entered s c \<le> tok_count (token s) div n + 1"
    using assms unfolding sync_inv_def by blast+
  then show "c < n \<Longrightarrow> pc s c = Outside \<Longrightarrow> passed s c = entered s c \<and> entered s c * n \<le> tok_count (token s)"
    and "c < n \<Longrightarrow> pc s c = Waiting k \<Longrightarrow> k = entered s c * n \<and> entered s c = passed s c + 1"
    and "c < n \<Longrightarrow> tok_count (token s) div n \<le> entered s c \<and> entered s c \<le> tok_count (token s) div n + 1"
    by fastforce+
  show "tok_n (token s) = n" "tok_ready (token s)" "tok_count (token s) = (\<Sum>c<n. entered s c)"
    using assms unfolding sync_inv_def by blast+
qed

lemma sync_inv_start: "0 < n \<Longrightarrow> sync_inv n (sync_start n)"
  by (simp add: sync_inv_def sync_start_def cpu_sync_init_def)

lemma next_multiple_Suc:
  assumes "0 < n"
  shows "next_multiple (v + 1) n = (v div n + 1) * n"
proof -
  have "v + 1 + n - 1 = v + n" by simp
  then have "(v + 1 + n - 1) div n = v div n + 1" using assms div_add_self2 [of n v] by simp
  then show ?thesis by (simp add: next_multiple_def)
qed

lemma sum_update_Suc:
  assumes "c < (n :: nat)"
  shows "(\<Sum>i<n. (f(c := f c + 1)) i) = (\<Sum>i<n. f i) + (1 :: nat)"
proof -
  let ?g = "f(c := f c + 1)" and ?R = "{..<n} - {c}"
  have c: "finite {..<n}" "c \<in> {..<n}" using assms by simp_all
  have "sum ?g ?R = sum f ?R" by (rule sum.cong) auto
  then show ?thesis using sum.remove [OF c, of ?g] sum.remove [OF c, of f] by (simp only: fun_upd_same)
qed

text \<open>When the round is complete, everybody has arrived.\<close>

lemma full_round:
  assumes "\<And>c. c < n \<Longrightarrow> f c \<le> (q :: nat)" and "(\<Sum>c<n. f c) = q * n" and "c < n"
  shows "f c = q"
proof (rule ccontr)
  assume "f c \<noteq> q"
  then have "f c < q" using assms(1) [OF assms(3)] by simp
  then have "(\<Sum>i<n. f i) < (\<Sum>i<n. q)"
    using assms by (intro sum_strict_mono_ex1) auto
  then show False using assms(2) by (simp add: mult.commute)
qed

lemma arrive_rounds:
  assumes n: "0 < n" and c: "c < n"
    and sum: "v = (\<Sum>i<n. e i)" and within: "\<And>i. i < n \<Longrightarrow> v div n \<le> e i \<and> e i \<le> v div n + 1"
    and low: "e c * n \<le> (v :: nat)"
  shows "e c = v div n"
    and "\<And>i. i < n \<Longrightarrow> (v + 1) div n \<le> (e(c := e c + 1)) i \<and> (e(c := e c + 1)) i \<le> (v + 1) div n + 1"
proof -
  have "e c \<le> v div n" using low n by (simp add: less_eq_div_iff_mult_less_eq)
  then show ec: "e c = v div n" using within [OF c] by simp
  fix i assume i: "i < n"
  let ?f = "e(c := e c + 1)"
  have le: "?f j \<le> v div n + 1" if "j < n" for j using within [OF that] ec by auto
  have total: "(\<Sum>i<n. ?f i) = v + 1" using sum_update_Suc [OF c, of e] sum by simp
  show "(v + 1) div n \<le> ?f i \<and> ?f i \<le> (v + 1) div n + 1"
  proof (cases "(v + 1) mod n = 0")
    case True
    then have q: "(v + 1) div n = v div n + 1" by (simp add: div_Suc)
    have "v + 1 = (v div n + 1) * n" using True q by (metis div_mult_mod_eq add.right_neutral)
    then have "?f i = v div n + 1" using full_round [of n ?f "v div n + 1" i] le total i by simp
    then show ?thesis using q by simp
  next
    case False
    then have "(v + 1) div n = v div n" by (simp add: div_Suc)
    then show ?thesis using le [OF i] within [OF i] ec by auto
  qed
qed

lemma sync_inv_step:
  assumes n: "0 < n" and inv: "sync_inv n s" and c: "c < n" and step: "cpu_sync_barrier c s s'"
  shows "sync_inv n s'"
  using step
proof (cases rule: cpu_sync_barrier.cases)
  case (arrive next_count t)
  let ?v = "tok_count (token s)"
  have t: "tok_n t = n" "tok_ready t" "tok_count t = ?v + 1" "next_count = (?v div n + 1) * n"
    using arrive(3,4) sync_invD(1) [OF inv] next_multiple_Suc [OF n, of ?v]
    by (auto simp: cpu_sync_arrive_def Let_def)
  have out: "passed s c = entered s c" "entered s c * n \<le> ?v"
    using sync_invD(5) [OF inv c arrive(2)] by simp_all
  have sum: "?v = (\<Sum>i<n. entered s i)"
    and within: "\<And>i. i < n \<Longrightarrow> ?v div n \<le> entered s i \<and> entered s i \<le> ?v div n + 1"
    using sync_invD(3,4) [OF inv] by blast+
  note rounds = arrive_rounds [OF n c sum within out(2)]
  have pcs: "\<forall>i<n. case pc s' i of
      Outside \<Rightarrow> passed s' i = entered s' i \<and> entered s' i * n \<le> tok_count (token s')
    | Waiting k \<Rightarrow> k = entered s' i * n \<and> entered s' i = passed s' i + 1"
  proof (intro allI impI)
    fix i assume i: "i < n"
    show "case pc s' i of
        Outside \<Rightarrow> passed s' i = entered s' i \<and> entered s' i * n \<le> tok_count (token s')
      | Waiting k \<Rightarrow> k = entered s' i * n \<and> entered s' i = passed s' i + 1"
    proof (cases "i = c")
      case True
      then show ?thesis using arrive(1) t rounds(1) out by simp
    next
      case False
      then show ?thesis using sync_invD(5,6) [OF inv i] arrive(1) t(3)
        by (cases "pc s i") simp_all
    qed
  qed
  have "tok_count (token s') = (\<Sum>i<n. entered s' i)"
    using arrive(1) t(3) sum sum_update_Suc [OF c, of "entered s"] by simp
  moreover have "\<forall>i<n. tok_count (token s') div n \<le> entered s' i \<and> entered s' i \<le> tok_count (token s') div n + 1"
    using rounds(2) arrive(1) t(3) by simp
  moreover have "tok_n (token s') = n" "tok_ready (token s')" using arrive(1) t by simp_all
  ultimately show ?thesis using pcs unfolding sync_inv_def by (intro conjI)
next
  case (leave next_count)
  have w: "next_count = entered s c * n" "entered s c = passed s c + 1" "next_count \<le> tok_count (token s)"
    using sync_invD(6) [OF inv c leave(2)] leave(3) by (simp_all add: cpu_sync_waits_def)
  have "case pc s' i of
      Outside \<Rightarrow> passed s' i = entered s' i \<and> entered s' i * n \<le> tok_count (token s')
    | Waiting k \<Rightarrow> k = entered s' i * n \<and> entered s' i = passed s' i + 1" if i: "i < n" for i
  proof (cases "i = c")
    case True
    then show ?thesis using w leave(1) by simp
  next
    case False
    then have "pc s' i = pc s i" "entered s' i = entered s i" "passed s' i = passed s i" "token s' = token s"
      using leave(1) by simp_all
    then show ?thesis using sync_invD(5) [OF inv i] sync_invD(6) [OF inv i] by (cases "pc s i") auto
  qed
  then have pcs: "\<forall>i<n. case pc s' i of
      Outside \<Rightarrow> passed s' i = entered s' i \<and> entered s' i * n \<le> tok_count (token s')
    | Waiting k \<Rightarrow> k = entered s' i * n \<and> entered s' i = passed s' i + 1" by blast
  have eq: "token s' = token s" "entered s' = entered s" using leave(1) by simp_all
  have "\<forall>i<n. tok_count (token s) div n \<le> entered s i \<and> entered s i \<le> tok_count (token s) div n + 1"
    using sync_invD(4) [OF inv] by blast
  with sync_invD(1-3) [OF inv] pcs show ?thesis unfolding sync_inv_def eq by (intro conjI)
qed

lemma sync_reachable_inv: "sync_reachable n s \<Longrightarrow> 0 < n \<Longrightarrow> sync_inv n s"
  by (induction rule: sync_reachable.induct) (auto intro: sync_inv_start sync_inv_step)

text \<open>Whoever passed its \<open>k\<close>-th barrier did so after everybody entered it.\<close>

lemma passed_after_all_entered:
  assumes inv: "sync_inv n s" and n: "0 < n" and c: "c < n" and d: "d < n"
  shows "passed s c \<le> entered s d"
proof -
  have "passed s c \<le> tok_count (token s) div n"
  proof (cases "pc s c")
    case Outside
    then show ?thesis using sync_invD(5) [OF inv c] n by (simp add: less_eq_div_iff_mult_less_eq)
  next
    case (Waiting k)
    then show ?thesis using sync_invD(6) [OF inv c Waiting] sync_invD(4) [OF inv c] by simp
  qed
  also have "\<dots> \<le> entered s d" using sync_invD(4) [OF inv d] by simp
  finally show ?thesis .
qed

text \<open>The barrier does not block: when all have arrived, every waiting processor can leave.\<close>

lemma all_waiting_can_leave:
  assumes inv: "sync_inv n s" and n: "0 < n" and all: "\<And>d. d < n \<Longrightarrow> entered s d \<ge> entered s c" and c: "c < n"
    and w: "pc s c = Waiting k"
  shows "\<not> cpu_sync_waits (token s) k"
proof -
  have "entered s c * n \<le> (\<Sum>d<n. entered s d)"
  proof -
    have "(\<Sum>d<n. entered s c) \<le> (\<Sum>d<n. entered s d)" using all by (intro sum_mono) simp
    then show ?thesis by (simp add: mult.commute)
  qed
  then show ?thesis using sync_invD(3) [OF inv] sync_invD(6) [OF inv c w] by (simp add: cpu_sync_waits_def)
qed

section \<open>Properties\<close>

text \<open>C19: in every interleaving of the processors and over any number of barriers on one token, no
  processor leaves its k-th barrier before every participant has entered it; and no state blocks:
  a waiting processor can leave as soon as every participant has entered as often as it has.\<close>
theorem barrier_synchronises:
  assumes "sync_reachable n s" and "c < n" and "d < n"
  shows "passed s c \<le> entered s d \<and> entered s c \<le> passed s d + 2 \<and>
    (\<forall>k. pc s c = Waiting k \<and> (\<forall>e<n. entered s c \<le> entered s e) \<longrightarrow>
      (\<exists>s'. cpu_sync_barrier c s s' \<and> passed s' c = passed s c + 1))"
proof -
  have n: "0 < n" using assms(2) by simp
  have inv: "sync_inv n s" using sync_reachable_inv [OF assms(1) n] .
  let ?q = "tok_count (token s) div n"
  have ce: "entered s c \<le> ?q + 1" "?q \<le> entered s d"
    using sync_invD(4) [OF inv assms(2)] sync_invD(4) [OF inv assms(3)] by blast+
  have "entered s d \<le> passed s d + 1"
    using sync_invD(5,6) [OF inv assms(3)] by (cases "pc s d") simp_all
  then have "entered s c \<le> passed s d + 2" using ce by simp
  moreover have "\<exists>s'. cpu_sync_barrier c s s' \<and> passed s' c = passed s c + 1"
    if "pc s c = Waiting k" "\<forall>e<n. entered s c \<le> entered s e" for k
    using leave [OF that(1) all_waiting_can_leave [OF inv n _ assms(2) that(1)]] that(2) by (intro exI conjI) auto
  ultimately show ?thesis using passed_after_all_entered [OF inv n assms(2,3)] by blast
qed

theorem barrier_synchronises_witness:
  "\<exists>s. sync_reachable 2 s \<and> pc s 1 = Waiting 2 \<and> passed s 0 = 1 \<and> passed s 0 \<le> entered s 1"
proof -
  let ?s1 = "\<lparr>token = \<lparr>tok_n = 2, tok_ready = True, tok_count = 1\<rparr>, pc = (\<lambda>_. Outside)(0 := Waiting 2),
    entered = (\<lambda>_. 0)(0 := 1), passed = (\<lambda>_. 0)\<rparr>"
  let ?s2 = "\<lparr>token = \<lparr>tok_n = 2, tok_ready = True, tok_count = 2\<rparr>,
    pc = (\<lambda>_. Outside)(0 := Waiting 2, 1 := Waiting 2), entered = (\<lambda>_. 0)(0 := 1, 1 := 1), passed = (\<lambda>_. 0)\<rparr>"
  let ?s3 = "\<lparr>token = \<lparr>tok_n = 2, tok_ready = True, tok_count = 2\<rparr>,
    pc = (\<lambda>_. Outside)(0 := Waiting 2, 1 := Waiting 2, 0 := Outside), entered = (\<lambda>_. 0)(0 := 1, 1 := 1),
    passed = (\<lambda>_. 0)(0 := 1)\<rparr>"
  have a: "cpu_sync_barrier 0 (sync_start 2) ?s1"
    using arrive [of "sync_start 2" 0 2 "\<lparr>tok_n = 2, tok_ready = True, tok_count = 1\<rparr>"]
    by (simp add: sync_start_def cpu_sync_init_def cpu_sync_arrive_def next_multiple_def)
  have b: "cpu_sync_barrier 1 ?s1 ?s2"
    using arrive [of ?s1 1 2 "\<lparr>tok_n = 2, tok_ready = True, tok_count = 2\<rparr>"]
    by (simp add: cpu_sync_arrive_def next_multiple_def)
  have c: "cpu_sync_barrier 0 ?s2 ?s3" using leave [of ?s2 0 2] by (simp add: cpu_sync_waits_def)
  have r: "sync_reachable 2 ?s3"
    by (rule step [OF step [OF step [OF start _ a] _ b] _ c]) simp_all
  from barrier_synchronises [OF r, of 0 1] show ?thesis by (intro exI [of _ ?s3] conjI r) simp_all
qed

end
