(* ===== verification/Vmm.thy ===== *)
theory Vmm
  imports Config
begin

text \<open>
  The assignment of processors to virtual machines at boot, \<open>src/src/core/vmm.c\<close>. All processors run
  \<open>vmm_assign_vcpu\<close> at the same time: first each tries the machines whose affinity names it, then,
  behind a barrier, those left over take any machine that still lacks processors. An iteration of
  either loop runs under the lock of one machine's assignment, so the function is a step relation
  over the interleavings of the iterations of all processors. The barrier lets a processor pass
  when all have reached it, which is what the theory \<open>Cpu_Sync\<close> proves of \<open>cpu_sync_barrier\<close>.
\<close>

section \<open>The assignment\<close>

record vm_assignment =
  va_master :: bool
  va_ncpus :: nat
  va_cpus :: u64

datatype assign_pc =
    Affinity nat     \<comment> \<open>at the head of the first loop\<close>
  | Barrier
  | Remaining nat    \<comment> \<open>at the head of the second loop\<close>
  | Assigned_done

text \<open>The assignments of the machines and, per processor, where it is and what it got.\<close>

record assign_state =
  vm_assign :: "nat \<Rightarrow> vm_assignment"
  pc_of :: "nat \<Rightarrow> assign_pc"
  vm_of :: "nat \<Rightarrow> nat option"
  master_of :: "nat \<Rightarrow> bool"

definition assign_init :: assign_state where
  "assign_init = \<lparr>vm_assign = (\<lambda>_. \<lparr>va_master = False, va_ncpus = 0, va_cpus = 0\<rparr>),
     pc_of = (\<lambda>_. Affinity 0), vm_of = (\<lambda>_. None), master_of = (\<lambda>_. False)\<rparr>"

text \<open>What a processor does when it takes a place in a machine, as its master or not.\<close>

definition join_vm :: "nat \<Rightarrow> nat \<Rightarrow> bool \<Rightarrow> assign_state \<Rightarrow> assign_state" where
  "join_vm c i master s =
     (let a = vm_assign s i;
          a = (if master then a\<lparr>va_master := True\<rparr> else a);
          a = a\<lparr>va_ncpus := va_ncpus a + 1, va_cpus := va_cpus a OR shl 1 c\<rparr>
      in s\<lparr>vm_assign := (vm_assign s)(i := a), vm_of := (vm_of s)(c := Some i),
           master_of := (master_of s)(c := master)\<rparr>)"

definition affinity_iteration :: "vm_config list \<Rightarrow> nat \<Rightarrow> nat \<Rightarrow> assign_state \<Rightarrow> assign_state" where
  "affinity_iteration vms c i s =
     (if vmc_cpu_affinity (vms ! i) AND shl 1 c \<noteq> 0 then
        (if \<not> va_master (vm_assign s i) then join_vm c i True s
         else if va_ncpus (vm_assign s i) < plat_cpu_num (vmc_platform (vms ! i)) then join_vm c i False s
         else s)
      else s)"

definition remaining_iteration :: "vm_config list \<Rightarrow> nat \<Rightarrow> nat \<Rightarrow> assign_state \<Rightarrow> assign_state" where
  "remaining_iteration vms c i s =
     (if va_ncpus (vm_assign s i) < plat_cpu_num (vmc_platform (vms ! i)) then
        (if \<not> va_master (vm_assign s i) then join_vm c i True s else join_vm c i False s)
      else s)"

definition goto_pc :: "nat \<Rightarrow> assign_pc \<Rightarrow> assign_state \<Rightarrow> assign_state" where
  "goto_pc c p s = s\<lparr>pc_of := (pc_of s)(c := p)\<rparr>"

inductive vmm_assign_vcpu :: "nat \<Rightarrow> vm_config list \<Rightarrow> nat \<Rightarrow> assign_state \<Rightarrow> assign_state \<Rightarrow> bool"
  for N :: nat and vms :: "vm_config list" and c :: nat where
  affinity: "pc_of s c = Affinity i \<Longrightarrow> i < length vms \<Longrightarrow> vm_of s c = None \<Longrightarrow>
    vmm_assign_vcpu N vms c s (goto_pc c (Affinity (i + 1)) (affinity_iteration vms c i s))"
| affinity_end: "pc_of s c = Affinity i \<Longrightarrow> \<not> (i < length vms \<and> vm_of s c = None) \<Longrightarrow>
    vmm_assign_vcpu N vms c s (goto_pc c Barrier s)"
| barrier: "pc_of s c = Barrier \<Longrightarrow> \<forall>d<N. \<forall>i. pc_of s d \<noteq> Affinity i \<Longrightarrow>
    vmm_assign_vcpu N vms c s (goto_pc c (if vm_of s c = None then Remaining 0 else Assigned_done) s)"
| remaining: "pc_of s c = Remaining i \<Longrightarrow> i < length vms \<Longrightarrow> vm_of s c = None \<Longrightarrow>
    vmm_assign_vcpu N vms c s (goto_pc c (Remaining (i + 1)) (remaining_iteration vms c i s))"
| remaining_end: "pc_of s c = Remaining i \<Longrightarrow> \<not> (i < length vms \<and> vm_of s c = None) \<Longrightarrow>
    vmm_assign_vcpu N vms c s (goto_pc c Assigned_done s)"

inductive assign_reachable :: "nat \<Rightarrow> vm_config list \<Rightarrow> assign_state \<Rightarrow> bool"
  for N :: nat and vms :: "vm_config list" where
  start: "assign_reachable N vms assign_init"
| step: "assign_reachable N vms s \<Longrightarrow> c < N \<Longrightarrow> vmm_assign_vcpu N vms c s s' \<Longrightarrow> assign_reachable N vms s'"

section \<open>The invariant\<close>

abbreviation places :: "vm_config list \<Rightarrow> nat \<Rightarrow> nat" where
  "places vms i \<equiv> plat_cpu_num (vmc_platform (vms ! i))"

definition members :: "nat \<Rightarrow> assign_state \<Rightarrow> nat \<Rightarrow> nat set" where
  "members N s i = {c. c < N \<and> vm_of s c = Some i}"

definition masters :: "nat \<Rightarrow> assign_state \<Rightarrow> nat \<Rightarrow> nat set" where
  "masters N s i = {c \<in> members N s i. master_of s c}"

text \<open>What a machine's assignment says agrees with what the processors got.\<close>

definition vm_assign_ok :: "nat \<Rightarrow> vm_config list \<Rightarrow> assign_state \<Rightarrow> nat \<Rightarrow> bool" where
  "vm_assign_ok N vms s i \<longleftrightarrow>
     va_ncpus (vm_assign s i) = card (members N s i) \<and> va_ncpus (vm_assign s i) \<le> places vms i \<and>
     (\<forall>c<64. bit (va_cpus (vm_assign s i)) c \<longleftrightarrow> c \<in> members N s i) \<and>
     (va_master (vm_assign s i) \<longleftrightarrow> members N s i \<noteq> {}) \<and>
     card (masters N s i) = (if va_master (vm_assign s i) then 1 else 0)"

definition full_upto :: "vm_config list \<Rightarrow> assign_state \<Rightarrow> nat \<Rightarrow> bool" where
  "full_upto vms s k \<longleftrightarrow> (\<forall>i < length vms. i < k \<longrightarrow> va_ncpus (vm_assign s i) = places vms i)"

definition assign_inv :: "nat \<Rightarrow> vm_config list \<Rightarrow> assign_state \<Rightarrow> bool" where
  "assign_inv N vms s \<longleftrightarrow>
     (\<forall>i < length vms. vm_assign_ok N vms s i) \<and>
     (\<forall>c < N. \<forall>i. vm_of s c = Some i \<longrightarrow> i < length vms) \<and>
     (\<forall>c < N. vm_of s c = None \<longrightarrow>
       (case pc_of s c of Remaining k \<Rightarrow> full_upto vms s k | Assigned_done \<Rightarrow> full_upto vms s (length vms)
        | _ \<Rightarrow> True))"

lemma finite_members [simp]: "finite (members N s i)"
  by (simp add: members_def)

lemma members_goto [simp]: "members N (goto_pc c p s) = members N s"
  by (simp add: fun_eq_iff members_def goto_pc_def)

lemma masters_goto [simp]: "masters N (goto_pc c p s) = masters N s"
  by (simp add: fun_eq_iff masters_def) (simp add: goto_pc_def)

lemma vm_assign_ok_goto [simp]: "vm_assign_ok N vms (goto_pc c p s) i = vm_assign_ok N vms s i"
  by (simp add: vm_assign_ok_def) (simp add: goto_pc_def)

lemma full_upto_goto [simp]: "full_upto vms (goto_pc c p s) k = full_upto vms s k"
  by (simp add: full_upto_def goto_pc_def)

lemma join_vm_simps:
  "vm_assign (join_vm c i m s) = (vm_assign s)(i := \<lparr>va_master = va_master (vm_assign s i) \<or> m,
     va_ncpus = va_ncpus (vm_assign s i) + 1, va_cpus = va_cpus (vm_assign s i) OR shl 1 c\<rparr>)"
  "vm_of (join_vm c i m s) = (vm_of s)(c := Some i)"
  "master_of (join_vm c i m s) = (master_of s)(c := m)"
  "pc_of (join_vm c i m s) = pc_of s"
  by (simp_all add: join_vm_def Let_def) (cases "vm_assign s i"; simp)

lemma members_join:
  "vm_of s c = None \<Longrightarrow> c < N \<Longrightarrow>
     members N (join_vm c i m s) j = (if j = i then insert c (members N s i) else members N s j)"
  by (auto simp: members_def join_vm_simps)

lemma masters_join:
  "vm_of s c = None \<Longrightarrow> c < N \<Longrightarrow>
     masters N (join_vm c i m s) j = (if j = i \<and> m then insert c (masters N s i) else masters N s j)"
  by (auto simp: masters_def members_def join_vm_simps)

lemma bit_shl_one: "c < 64 \<Longrightarrow> bit (shl (1 :: u64) c) d \<longleftrightarrow> d = c"
  by (auto simp: shl_def bit_simps)

text \<open>A free processor joins a machine that has a place: as its master exactly when it is the first.\<close>

lemma join_vm_ok:
  assumes ok: "vm_assign_ok N vms s j" and c: "vm_of s c = None" "c < N" "N \<le> 64"
    and room: "va_ncpus (vm_assign s i) < places vms i"
    and m: "m \<longleftrightarrow> \<not> va_master (vm_assign s i)"
  shows "vm_assign_ok N vms (join_vm c i m s) j"
proof (cases "j = i")
  case False
  then show ?thesis using ok members_join [OF c(1,2)] masters_join [OF c(1,2)]
    by (simp add: vm_assign_ok_def join_vm_simps)
next
  case True
  have new: "c \<notin> members N s i" "c \<notin> masters N s i" using c by (auto simp: members_def masters_def)
  have fin: "finite (masters N s i)" by (simp add: masters_def)
  have bits: "bit (va_cpus (vm_assign s i) OR shl 1 c) d \<longleftrightarrow> d \<in> insert c (members N s i)" if "d < 64" for d
    using ok True that c bit_shl_one [of c d] by (auto simp: vm_assign_ok_def bit_or_iff)
  then show ?thesis using ok True room m new fin
    by (simp add: vm_assign_ok_def join_vm_simps members_join [OF c(1,2)] masters_join [OF c(1,2)])
qed

text \<open>Full machines stay full, and nobody who is through loses what it knows.\<close>

lemma full_upto_join:
  "full_upto vms s k \<Longrightarrow> va_ncpus (vm_assign s i) < places vms i \<Longrightarrow> i < length vms \<Longrightarrow>
     full_upto vms (join_vm c i m s) k"
  by (auto simp: full_upto_def join_vm_simps)

lemma assign_inv_join:
  assumes inv: "assign_inv N vms s" and c: "vm_of s c = None" "c < N" "N \<le> 64" and i: "i < length vms"
    and room: "va_ncpus (vm_assign s i) < places vms i" and m: "m \<longleftrightarrow> \<not> va_master (vm_assign s i)"
  shows "assign_inv N vms (join_vm c i m s)"
proof -
  have "\<forall>j < length vms. vm_assign_ok N vms (join_vm c i m s) j"
    using inv join_vm_ok [OF _ c room m] by (simp add: assign_inv_def)
  moreover have "\<forall>d < N. \<forall>j. vm_of (join_vm c i m s) d = Some j \<longrightarrow> j < length vms"
    using inv i by (auto simp: assign_inv_def join_vm_simps)
  moreover have "\<forall>d < N. vm_of (join_vm c i m s) d = None \<longrightarrow>
      (case pc_of (join_vm c i m s) d of Remaining k \<Rightarrow> full_upto vms (join_vm c i m s) k
       | Assigned_done \<Rightarrow> full_upto vms (join_vm c i m s) (length vms) | _ \<Rightarrow> True)"
    using inv full_upto_join [OF _ room i]
    by (auto simp: assign_inv_def join_vm_simps split: assign_pc.splits if_splits)
  ultimately show ?thesis unfolding assign_inv_def by blast
qed

lemma assign_inv_goto:
  assumes "assign_inv N vms s"
    and "c < N \<Longrightarrow> vm_of s c = None \<Longrightarrow> (case p of Remaining k \<Rightarrow> full_upto vms s k
      | Assigned_done \<Rightarrow> full_upto vms s (length vms) | _ \<Rightarrow> True)"
  shows "assign_inv N vms (goto_pc c p s)"
proof -
  have pcs: "vm_of (goto_pc c p s) = vm_of s" "pc_of (goto_pc c p s) d = (if d = c then p else pc_of s d)" for d
    by (simp_all add: goto_pc_def)
  show ?thesis unfolding assign_inv_def pcs
  proof (intro conjI allI impI)
    fix d assume "d < N" and "vm_of s d = None"
    with assms show "case if d = c then p else pc_of s d of Remaining k \<Rightarrow> full_upto vms (goto_pc c p s) k
       | Assigned_done \<Rightarrow> full_upto vms (goto_pc c p s) (length vms) | _ \<Rightarrow> True"
      by (auto simp: assign_inv_def split: assign_pc.splits)
  qed (use assms(1) in \<open>auto simp: assign_inv_def\<close>)
qed

lemma assign_invD:
  assumes "assign_inv N vms s"
  shows "i < length vms \<Longrightarrow> vm_assign_ok N vms s i"
    and "c < N \<Longrightarrow> vm_of s c = Some i \<Longrightarrow> i < length vms"
    and "c < N \<Longrightarrow> vm_of s c = None \<Longrightarrow> pc_of s c = Remaining k \<Longrightarrow> full_upto vms s k"
    and "c < N \<Longrightarrow> vm_of s c = None \<Longrightarrow> pc_of s c = Assigned_done \<Longrightarrow> full_upto vms s (length vms)"
proof -
  have pcs: "\<forall>c < N. vm_of s c = None \<longrightarrow>
       (case pc_of s c of Remaining k \<Rightarrow> full_upto vms s k | Assigned_done \<Rightarrow> full_upto vms s (length vms)
        | _ \<Rightarrow> True)"
    and "\<forall>i < length vms. vm_assign_ok N vms s i" and "\<forall>c < N. \<forall>i. vm_of s c = Some i \<longrightarrow> i < length vms"
    using assms unfolding assign_inv_def by blast+
  then show "i < length vms \<Longrightarrow> vm_assign_ok N vms s i"
    and "c < N \<Longrightarrow> vm_of s c = Some i \<Longrightarrow> i < length vms" by blast+
  show "c < N \<Longrightarrow> vm_of s c = None \<Longrightarrow> pc_of s c = Remaining k \<Longrightarrow> full_upto vms s k"
    and "c < N \<Longrightarrow> vm_of s c = None \<Longrightarrow> pc_of s c = Assigned_done \<Longrightarrow> full_upto vms s (length vms)"
    using spec [OF pcs, of c] by simp_all
qed

lemma no_master_room:
  "vm_assign_ok N vms s i \<Longrightarrow> \<not> va_master (vm_assign s i) \<Longrightarrow> 0 < places vms i \<Longrightarrow>
     va_ncpus (vm_assign s i) < places vms i"
  by (simp add: vm_assign_ok_def)

lemma assign_inv_step:
  assumes inv: "assign_inv N vms s" and c: "c < N" "N \<le> 64"
    and pos: "\<forall>i < length vms. 0 < places vms i" and step: "vmm_assign_vcpu N vms c s s'"
  shows "assign_inv N vms s'"
  using step
proof (cases rule: vmm_assign_vcpu.cases)
  case (affinity i)
  note ok = assign_invD(1) [OF inv affinity(3)]
  have join: "assign_inv N vms (join_vm c i m s)"
    if "va_ncpus (vm_assign s i) < places vms i" "m \<longleftrightarrow> \<not> va_master (vm_assign s i)" for m
    using assign_inv_join [OF inv affinity(4) c affinity(3) that] .
  have "assign_inv N vms (affinity_iteration vms c i s)"
    using join no_master_room [OF ok] pos affinity(3) inv by (auto simp: affinity_iteration_def)
  then show ?thesis unfolding affinity(1) by (rule assign_inv_goto) simp
next
  case (affinity_end i)
  show ?thesis unfolding affinity_end(1) using inv by (rule assign_inv_goto) simp
next
  case barrier
  show ?thesis unfolding barrier(1) using inv
    by (rule assign_inv_goto) (simp add: full_upto_def split: assign_pc.split)
next
  case (remaining i)
  show ?thesis
  proof (cases "va_ncpus (vm_assign s i) < places vms i")
    case True
    have "assign_inv N vms (join_vm c i (\<not> va_master (vm_assign s i)) s)"
      using assign_inv_join [OF inv remaining(4) c remaining(3) True] by simp
    moreover have "remaining_iteration vms c i s = join_vm c i (\<not> va_master (vm_assign s i)) s"
      using True by (simp add: remaining_iteration_def)
    moreover have "vm_of (join_vm c i (\<not> va_master (vm_assign s i)) s) c \<noteq> None" by (simp add: join_vm_simps)
    ultimately show ?thesis unfolding remaining(1) by (metis assign_inv_goto)
  next
    case False
    then have "va_ncpus (vm_assign s i) = places vms i"
      using assign_invD(1) [OF inv remaining(3)] by (simp add: vm_assign_ok_def)
    then have "full_upto vms s (i + 1)"
      using assign_invD(3) [OF inv c(1) remaining(4,2)] by (auto simp: full_upto_def less_Suc_eq)
    moreover have "remaining_iteration vms c i s = s" using False by (simp add: remaining_iteration_def)
    ultimately show ?thesis unfolding remaining(1) using inv by (simp add: assign_inv_goto)
  qed
next
  case (remaining_end i)
  have "full_upto vms s (length vms)" if "vm_of s c = None"
    using assign_invD(3) [OF inv c(1) that remaining_end(2)] remaining_end(3) that by (simp add: full_upto_def)
  then show ?thesis unfolding remaining_end(1) using inv by (intro assign_inv_goto) simp_all
qed

lemma assign_inv_init: "\<forall>i < length vms. 0 < places vms i \<Longrightarrow> assign_inv N vms assign_init"
  by (simp add: assign_inv_def assign_init_def vm_assign_ok_def members_def masters_def)

lemma assign_reachable_inv:
  assumes "assign_reachable N vms s" and "N \<le> 64" and "\<forall>i < length vms. 0 < places vms i"
  shows "assign_inv N vms s"
  using assms by (induction rule: assign_reachable.induct) (auto intro: assign_inv_init assign_inv_step)

section \<open>Progress\<close>

definition pc_work :: "nat \<Rightarrow> assign_pc \<Rightarrow> nat" where
  "pc_work n p = (case p of Affinity i \<Rightarrow> (n - i) + n + 4 | Barrier \<Rightarrow> n + 3 | Remaining i \<Rightarrow> (n - i) + 1
     | Assigned_done \<Rightarrow> 0)"

definition assign_work :: "nat \<Rightarrow> vm_config list \<Rightarrow> assign_state \<Rightarrow> nat" where
  "assign_work N vms s = (\<Sum>c<N. pc_work (length vms) (pc_of s c))"

lemma pc_of_iterations [simp]:
  "pc_of (affinity_iteration vms c i s) = pc_of s" "pc_of (remaining_iteration vms c i s) = pc_of s"
  by (simp_all add: affinity_iteration_def remaining_iteration_def join_vm_simps)

lemma step_pc:
  assumes "vmm_assign_vcpu N vms c s s'"
  shows "\<exists>p. pc_of s' = (pc_of s)(c := p) \<and> pc_work (length vms) p < pc_work (length vms) (pc_of s c)"
  using assms by (cases rule: vmm_assign_vcpu.cases) (auto simp: goto_pc_def pc_work_def)

lemma assign_work_step:
  assumes "vmm_assign_vcpu N vms c s s'" and "c < N"
  shows "assign_work N vms s' < assign_work N vms s"
proof -
  obtain p where p: "pc_of s' = (pc_of s)(c := p)" "pc_work (length vms) p < pc_work (length vms) (pc_of s c)"
    using step_pc [OF assms(1)] by blast
  show ?thesis unfolding assign_work_def
    by (rule sum_strict_mono_ex1) (use p assms(2) in auto)
qed

lemma assign_can_step:
  assumes "\<exists>c<N. pc_of s c \<noteq> Assigned_done"
  shows "\<exists>c<N. \<exists>s'. vmm_assign_vcpu N vms c s s'"
proof (cases "\<exists>c<N. \<exists>i. pc_of s c = Affinity i")
  case True
  then show ?thesis by (meson vmm_assign_vcpu.affinity vmm_assign_vcpu.affinity_end)
next
  case False
  then have pass: "\<forall>d<N. \<forall>i. pc_of s d \<noteq> Affinity i" by blast
  obtain c where c: "c < N" "pc_of s c \<noteq> Assigned_done" using assms by blast
  show ?thesis
  proof (cases "pc_of s c")
    case Barrier
    then show ?thesis using vmm_assign_vcpu.barrier [OF _ pass] c(1) by blast
  next
    case (Remaining i)
    then show ?thesis using c(1) by (meson vmm_assign_vcpu.remaining vmm_assign_vcpu.remaining_end)
  qed (use pass c in auto)
qed

section \<open>The outcome\<close>

lemma members_partition:
  assumes "assign_inv N vms s"
  shows "(\<Sum>i < length vms. card (members N s i)) \<le> N"
    and "\<forall>c<N. vm_of s c \<noteq> None \<Longrightarrow> (\<Sum>i < length vms. card (members N s i)) = N"
proof -
  have "(\<Sum>i < length vms. card (members N s i)) = card (\<Union>i \<in> {..<length vms}. members N s i)"
    by (rule card_UN_disjoint [symmetric]) (auto simp: members_def)
  moreover have "(\<Union>i \<in> {..<length vms}. members N s i) = {c. c < N \<and> vm_of s c \<noteq> None}"
    using assign_invD(2) [OF assms] by (auto simp: members_def)
  ultimately have eq: "(\<Sum>i < length vms. card (members N s i)) = card {c. c < N \<and> vm_of s c \<noteq> None}" by simp
  have "card {c. c < N \<and> vm_of s c \<noteq> None} \<le> card {..<N}" by (intro card_mono) auto
  then show "(\<Sum>i < length vms. card (members N s i)) \<le> N" using eq by simp
  assume "\<forall>c<N. vm_of s c \<noteq> None"
  then have "{c. c < N \<and> vm_of s c \<noteq> None} = {..<N}" by auto
  then show "(\<Sum>i < length vms. card (members N s i)) = N" using eq by simp
qed

text \<open>When everybody is through and the processors suffice, every machine has all of its places.\<close>

lemma assigned_all_full:
  assumes inv: "assign_inv N vms s" and fin: "\<forall>c<N. pc_of s c = Assigned_done"
    and enough: "(\<Sum>i < length vms. places vms i) \<le> N"
  shows "\<forall>i < length vms. card (members N s i) = places vms i"
proof (cases "\<forall>c<N. vm_of s c \<noteq> None")
  case False
  then obtain c where "c < N" "vm_of s c = None" by auto
  then have "full_upto vms s (length vms)" using assign_invD(4) [OF inv] fin by simp
  then show ?thesis using assign_invD(1) [OF inv] by (simp add: full_upto_def vm_assign_ok_def)
next
  case True
  have le: "card (members N s i) \<le> places vms i" if "i < length vms" for i
    using assign_invD(1) [OF inv that] by (simp add: vm_assign_ok_def)
  have "(\<Sum>i < length vms. places vms i) \<le> (\<Sum>i < length vms. card (members N s i))"
    using members_partition(2) [OF inv True] enough by simp
  then have "\<not> (\<exists>i < length vms. card (members N s i) < places vms i)"
    using sum_strict_mono_ex1 [of "{..<length vms}" "\<lambda>i. card (members N s i)" "places vms"] le by fastforce
  then show ?thesis using le by (meson le_neq_implies_less)
qed

section \<open>Properties\<close>


definition demo_vm :: vm_config where
  "demo_vm = \<lparr>img_base_addr = 0, img_load_addr = 0, img_size = 0, img_separately_loaded = False,
     img_inplace = False, img_reserved = False, vmc_entry = 0, vmc_cpu_affinity = 1, vmc_colors = 0,
     vmc_platform = \<lparr>plat_cpu_num = 1, plat_regions = [], plat_ipcs = [], plat_devs = [], plat_remio_devs = []\<rparr>\<rparr>"


end
