(* ===== verification/Shmem.thy ===== *)
theory Shmem
  imports Hv_State Page_Alloc
begin

text \<open>
  Shared memories, \<open>src/src/core/shmem.c\<close>: the table that the master core takes from the
  configuration, and the allocation of those that the configuration does not place. The pages
  come from the page pools, so that the allocator's contract gives their separation.
\<close>

definition shmem_get :: "shmem list \<Rightarrow> nat \<Rightarrow> shmem option" where
  "shmem_get tab shmem_id = (if shmem_id < length tab then Some (tab ! shmem_id) else None)"

fun shmem_alloc ::
    "(page_pool \<Rightarrow> nat \<Rightarrow> u64 \<Rightarrow> ppages \<Rightarrow> (bool \<times> page_pool \<times> ppages) outcome) \<Rightarrow> nat \<Rightarrow>
     page_pool list \<Rightarrow> shmem list \<Rightarrow> (page_pool list \<times> shmem list) outcome" where
  "shmem_alloc clr cn pools [] = Inr (pools, [])"
| "shmem_alloc clr cn pools (s # tab) =
     obind (if \<not> sh_place_phys s then
              (let n_pg = unat (NUM_PAGES (sh_size s))
               in obind (mem_alloc_ppages clr cn pools (sh_colors s) n_pg False)
                    (\<lambda>(pools, ppages).
                       if pa_num ppages < n_pg then Inl (ERROR ''failed to allocate shared memory'')
                       else Inr (pools, s\<lparr>sh_phys := pa_base ppages\<rparr>)))
            else Inr (pools, s))
       (\<lambda>(pools, s). obind (shmem_alloc clr cn pools tab) (\<lambda>(pools, tab). Inr (pools, s # tab)))"

definition shmem_init ::
    "(page_pool \<Rightarrow> nat \<Rightarrow> u64 \<Rightarrow> ppages \<Rightarrow> (bool \<times> page_pool \<times> ppages) outcome) \<Rightarrow> nat \<Rightarrow> bool \<Rightarrow>
     page_pool list \<Rightarrow> config \<Rightarrow> (page_pool list \<times> shmem list) outcome" where
  "shmem_init clr cn is_master pools cfg =
     (if is_master then shmem_alloc clr cn pools (map (\<lambda>s. s\<lparr>sh_cpu_masters := 0\<rparr>) (shmemlist cfg))
      else Inr (pools, shmemlist cfg))"

section \<open>The pages of the shared memories\<close>

text \<open>The frames that the grant of a shared memory's pages stands for.\<close>

definition shmem_grant :: "shmem \<Rightarrow> ppages \<Rightarrow> bool" where
  "shmem_grant s g \<longleftrightarrow> pa_base g = sh_phys s \<and> pa_num g = unat (NUM_PAGES (sh_size s))"

abbreviation unplaced :: "shmem list \<Rightarrow> shmem list" where
  "unplaced tab \<equiv> filter (\<lambda>s. \<not> sh_place_phys s) tab"

lemma mem_alloc_ppages_num:
  assumes "pools_wf cn cs ps" and "mem_alloc_ppages (pp_alloc_clr_mmu cn cs) cn ps colors n aligned = Inr (ps', g)"
  shows "pa_num g = 0 \<or> pa_num g = n"
proof -
  have cs: "0 < cs" "\<forall>p \<in> set ps. pp_wf p" using assms(1) by (auto simp: pools_wf_def)
  have "pa_num \<lparr>pa_base = 0, pa_num = 0, pa_colors = 0\<rparr> = 0" by simp
  from mem_alloc_loop_result [OF cs this, of cn colors n aligned] assms(2)
  have "ps' = ps \<and> pa_num g = 0 \<or>
     (\<exists>us p p' vs. ps = us @ p # vs \<and> ps' = us @ p' # vs \<and> pool_granted cn cs p p' n g)"
    unfolding mem_alloc_ppages_def by force
  then show ?thesis by (auto simp: pool_granted_def)
qed

lemma pools_alloc_Some:
  "pools_alloc cn cs ps (n, colors, aligned) = (Some g, ps') \<Longrightarrow>
     mem_alloc_ppages (pp_alloc_clr_mmu cn cs) cn ps colors n aligned = Inr (ps', g) \<and> pa_num g = n"
  by (auto simp: pools_alloc_def split: sum.splits if_splits)

text \<open>The allocation is a run of the allocator, one request per shared memory that is not placed.\<close>

lemma shmem_alloc_run:
  assumes "pools_wf cn cs pools" and "shmem_alloc (pp_alloc_clr_mmu cn cs) cn pools tab = Inr (pools', tab')"
  shows "\<exists>ops gs. alloc_run (pools_alloc cn cs) (pools_release cn cs) ops (pools, live) = (pools', live @ gs) \<and>
    list_all2 shmem_grant (unplaced tab') gs \<and>
    map (\<lambda>s. s\<lparr>sh_phys := 0\<rparr>) tab' = map (\<lambda>s. s\<lparr>sh_phys := 0\<rparr>) tab \<and>
    filter sh_place_phys tab' = filter sh_place_phys tab"
  using assms
proof (induction tab arbitrary: pools tab' live)
  case Nil
  then show ?case by (intro exI [of _ "[]"]) auto
next
  case (Cons s tab)
  show ?case
  proof (cases "sh_place_phys s")
    case True
    then obtain tab2 where t: "shmem_alloc (pp_alloc_clr_mmu cn cs) cn pools tab = Inr (pools', tab2)" "tab' = s # tab2"
      using Cons.prems(2) by (auto simp: obind_eq_Inr split: prod.splits)
    from Cons.IH [OF Cons.prems(1) t(1), of live] True t(2) show ?thesis by auto
  next
    case False
    let ?n = "unat (NUM_PAGES (sh_size s))"
    let ?r = "(?n, sh_colors s, False)"
    obtain pools1 g tab2 where a: "mem_alloc_ppages (pp_alloc_clr_mmu cn cs) cn pools (sh_colors s) ?n False = Inr (pools1, g)"
      and n: "\<not> pa_num g < ?n"
      and t: "shmem_alloc (pp_alloc_clr_mmu cn cs) cn pools1 tab = Inr (pools', tab2)" "tab' = s\<lparr>sh_phys := pa_base g\<rparr> # tab2"
      using Cons.prems(2) False by (auto simp: obind_eq_Inr Let_def split: prod.splits if_splits)
    have "pa_num g = 0 \<or> pa_num g = ?n" using mem_alloc_ppages_num [OF Cons.prems(1) a] .
    then have num: "pa_num g = ?n" using n by auto
    then have p: "pools_alloc cn cs pools ?r = (Some g, pools1)" by (simp add: pools_alloc_def a)
    have wf: "pools_wf cn cs pools1" using pools.alloc_granted [OF Cons.prems(1) p] by blast
    obtain ops gs where IH: "alloc_run (pools_alloc cn cs) (pools_release cn cs) ops (pools1, live @ [g]) = (pools', (live @ [g]) @ gs)"
        "list_all2 shmem_grant (unplaced tab2) gs"
        "map (\<lambda>s. s\<lparr>sh_phys := 0\<rparr>) tab2 = map (\<lambda>s. s\<lparr>sh_phys := 0\<rparr>) tab"
        "filter sh_place_phys tab2 = filter sh_place_phys tab"
      using Cons.IH [OF wf t(1), of "live @ [g]"] by blast
    have "alloc_run (pools_alloc cn cs) (pools_release cn cs) (Alloc ?r # ops) (pools, live) = (pools', live @ (g # gs))"
      using p IH(1) by simp
    moreover have "list_all2 shmem_grant (unplaced tab') (g # gs)"
      using t(2) False IH(2) num by (simp add: shmem_grant_def)
    ultimately show ?thesis using t(2) IH(3,4) False by (intro exI conjI) (assumption, assumption, simp_all)
  qed
qed

lemma shmem_alloc_apart:
  assumes wf: "pools_wf cn cs pools" and a: "shmem_alloc (pp_alloc_clr_mmu cn cs) cn pools tab = Inr (pools', tab')"
  shows "\<exists>gs. list_all2 shmem_grant (unplaced tab') gs \<and> disjoint_list (map (grant_frames cn cs) gs) \<and>
    (\<forall>g \<in> set gs. grant_frames cn cs g \<inter> pools_used pools = {} \<and> grant_frames cn cs g \<subseteq> pools_used pools')"
proof -
  obtain ops gs where run: "alloc_run (pools_alloc cn cs) (pools_release cn cs) ops (pools, []) = (pools', gs)"
    and g: "list_all2 shmem_grant (unplaced tab') gs"
    using shmem_alloc_run [OF wf a, of "[]"] by auto
  have "pools.owned cn cs (pools, [])" using wf by (simp add: pools.owned_def)
  from pools.run_owned [OF this run] have own: "disjoint_list (map (grant_frames cn cs) gs)"
    "\<forall>g \<in> set gs. grant_frames cn cs g \<subseteq> pools_used pools'" by (simp_all add: pools.owned_def)
  moreover have "\<forall>g \<in> set gs. grant_frames cn cs g \<inter> pools_used pools = {}"
    using pools.grants_avoid(1) [OF wf run] by blast
  ultimately show ?thesis using g by blast
qed

definition shmem_same :: "shmem \<Rightarrow> shmem \<Rightarrow> bool" where
  "shmem_same s' s \<longleftrightarrow> sh_cpu_masters s' = sh_cpu_masters s \<and> sh_size s' = sh_size s \<and>
     (sh_place_phys s' \<longrightarrow> sh_phys s' = sh_phys s)"

lemma shmem_alloc_same:
  "shmem_alloc clr cn pools tab = Inr (pools', tab') \<Longrightarrow> list_all2 shmem_same tab' tab"
proof (induction tab arbitrary: pools tab')
  case (Cons s tab)
  then obtain pools1 s1 tab1 where "shmem_alloc clr cn pools1 tab = Inr (pools', tab1)" "tab' = s1 # tab1"
      "shmem_same s1 s"
    by (auto simp: obind_eq_Inr Let_def shmem_same_def split: prod.splits if_splits)
  with Cons.IH show ?case by simp
qed simp

section \<open>Property\<close>


definition demo_shmem :: shmem where
  "demo_shmem = \<lparr>sh_size = 4096, sh_colors = 0, sh_place_phys = False, sh_phys = 0, sh_reserved = False,
     sh_cpu_masters = 7\<rparr>"


end
