(* ===== verification/Ipc.thy ===== *)
theory Ipc
  imports Shmem
begin

text \<open>
  Notifications between virtual machines over shared memories, \<open>src/src/core/ipc.c\<close>: a hypercall
  sends a message to the master processor of every other machine that is registered with the
  shared memory, and the handler there injects the interrupt that its own machine configured for
  the event.
\<close>

section \<open>The message\<close>

definition IPC_NOTIFY :: u32 where
  "IPC_NOTIFY = 0"

text \<open>The union \<open>ipc_msg_data\<close>: the first field is the low half of the raw word (little endian).\<close>

definition ipc_msg_raw :: "u32 \<Rightarrow> u32 \<Rightarrow> u64" where
  "ipc_msg_raw shmem_id event_id = ucast shmem_id OR push_bit 32 (ucast event_id)"

definition ipc_msg_shmem_id :: "u64 \<Rightarrow> u32" where
  "ipc_msg_shmem_id raw = ucast raw"

definition ipc_msg_event_id :: "u64 \<Rightarrow> u32" where
  "ipc_msg_event_id raw = ucast (drop_bit 32 raw)"

lemma ipc_msg_fields [simp]:
  "ipc_msg_shmem_id (ipc_msg_raw s e) = s" "ipc_msg_event_id (ipc_msg_raw s e) = e"
  by (rule bit_word_eqI, auto simp: ipc_msg_shmem_id_def ipc_msg_event_id_def ipc_msg_raw_def
      bit_simps dest: bit_imp_le_length)+

section \<open>The operations\<close>

fun ipc_find_by_shmemid :: "ipc list \<Rightarrow> nat \<Rightarrow> ipc option" where
  "ipc_find_by_shmemid [] shmem_id = None"
| "ipc_find_by_shmemid (i # ipcs) shmem_id =
     (if ipc_shmem_id i = shmem_id then Some i else ipc_find_by_shmemid ipcs shmem_id)"

definition ipc_notify :: "nat \<Rightarrow> nat \<Rightarrow> nat \<Rightarrow> 'a hv_scheme \<Rightarrow> 'a hv_scheme outcome" where
  "ipc_notify c shmem_id event_id st =
     (case cpu_vm c st of
        None \<Rightarrow> Inl NULL_DEREF
      | Some vm \<Rightarrow>
          (case ipc_find_by_shmemid (vm_ipcs vm) shmem_id of
             None \<Rightarrow> Inr st
           | Some ipc_obj \<Rightarrow>
               if event_id < length (ipc_interrupts ipc_obj)
               then cpu_vcpu_update c (vcpu_inject_irq (ipc_interrupts ipc_obj ! event_id)) st
               else Inr st))"

definition ipc_handler :: "nat \<Rightarrow> ('a hv_scheme) msg_handler" where
  "ipc_handler c event data st =
     (if event = IPC_NOTIFY
      then ipc_notify c (unat (ipc_msg_shmem_id data)) (unat (ipc_msg_event_id data)) st
      else Inr st)"

fun ipc_send_loop :: "u64 \<Rightarrow> cpu_msg \<Rightarrow> nat list \<Rightarrow> 'a machine_scheme \<Rightarrow> 'a machine_scheme" where
  "ipc_send_loop masters msg [] st = st"
| "ipc_send_loop masters msg (i # is') st =
     ipc_send_loop masters msg is' (if masters AND shl 1 i \<noteq> 0 then cpu_send_msg i msg st else st)"

text \<open>\<open>IPC_CPUMSG_ID\<close> is the number the linker gave the handler, \<open>cpu_num\<close> that of the platform.\<close>

definition ipc_hypercall :: "hypercall_regs \<Rightarrow> u32 \<Rightarrow> nat \<Rightarrow> nat \<Rightarrow> 'a hv_scheme \<Rightarrow> (int \<times> 'a hv_scheme) outcome" where
  "ipc_hypercall R IPC_CPUMSG_ID cpu_num c st =
     (case (cpu_vcpu c st, cpu_vm c st) of
        (Some vcpu, Some vm) \<Rightarrow>
          (let ipc_id = hypercall_get_arg R vcpu 0;
               ipc_event = hypercall_get_arg R vcpu 1;
               valid_ipc_obj = unat ipc_id < length (vm_ipcs vm);
               shmem = (if valid_ipc_obj then shmem_get (hv_shmem st) (ipc_shmem_id (vm_ipcs vm ! unat ipc_id))
                        else None)
           in case shmem of
                Some sh \<Rightarrow>
                  (let ipc_cpu_masters = sh_cpu_masters sh AND NOT (vm_cpus vm);
                       data = ipc_msg_raw (of_nat (ipc_shmem_id (vm_ipcs vm ! unat ipc_id))) (ucast ipc_event);
                       msg = \<lparr>msg_handler = IPC_CPUMSG_ID, msg_event = IPC_NOTIFY, msg_data = data\<rparr>
                   in Inr (- HC_E_SUCCESS, ipc_send_loop ipc_cpu_masters msg [0..<cpu_num] st))
              | None \<Rightarrow> Inr (- HC_E_INVAL_ARGS, st))
      | _ \<Rightarrow> Inl NULL_DEREF)"

section \<open>Sending\<close>

lemma ipc_send_loop_fold:
  "(\<forall>i \<in> set is'. i < 64) \<Longrightarrow>
     ipc_send_loop masters msg is' st = fold (\<lambda>t. cpu_send_msg t msg) (filter (bit masters) is') st"
  by (induction is' arbitrary: st) (auto simp: shl_one_u64)

text \<open>Who is notified: the other machines registered with the shared memory.\<close>

definition ipc_targets :: "shmem \<Rightarrow> vm \<Rightarrow> nat \<Rightarrow> nat list" where
  "ipc_targets sh vm cpu_num = filter (bit (sh_cpu_masters sh AND NOT (vm_cpus vm))) [0..<cpu_num]"

lemma ipc_hypercall_sends:
  assumes "cpu_vcpu c st = Some vcpu" and "cpu_vm c st = Some vm" and "cpu_num \<le> 64"
    and "unat (hypercall_get_arg R vcpu 0) < length (vm_ipcs vm)"
    and "shmem_get (hv_shmem st) (ipc_shmem_id (vm_ipcs vm ! unat (hypercall_get_arg R vcpu 0))) = Some sh"
  shows "ipc_hypercall R h cpu_num c st = Inr (0, fold (\<lambda>t. cpu_send_msg t
      \<lparr>msg_handler = h, msg_event = IPC_NOTIFY,
       msg_data = ipc_msg_raw (of_nat (ipc_shmem_id (vm_ipcs vm ! unat (hypercall_get_arg R vcpu 0))))
         (ucast (hypercall_get_arg R vcpu 1))\<rparr>) (ipc_targets sh vm cpu_num) st)"
  using assms ipc_send_loop_fold [of "[0..<cpu_num]"]
  by (simp add: ipc_hypercall_def ipc_targets_def HC_E_SUCCESS_def Let_def)

section \<open>Handling\<close>

lemma ipc_find_by_shmemid_some:
  "ipc_find_by_shmemid ipcs s = Some i \<Longrightarrow> i \<in> set ipcs \<and> ipc_shmem_id i = s"
  by (induction ipcs) (auto split: if_splits)

text \<open>The handler changes at most the virtual processor of its own core, by one interrupt.\<close>

lemma ipc_handler_keeps:
  assumes "ipc_handler c ev d st = Inr st'"
  shows "cpu_interfaces st' = cpu_interfaces st" and "hv_vcpu st' = hv_vcpu st"
    and "hv_shmem st' = hv_shmem st" and "hv.more st' = hv.more st"
  using assms cpu_vcpu_update_fields [of c _ st st']
  by (auto simp: ipc_handler_def ipc_notify_def split: if_splits option.splits)

lemma ipc_notify_injects:
  assumes "cpu_vm c st = Some vm" and "ipc_find_by_shmemid (vm_ipcs vm) s = Some i" and "e < length (ipc_interrupts i)"
  shows "\<exists>st'. ipc_notify c s e st = Inr st' \<and>
    cpu_vcpu c st' = map_option (vcpu_inject_irq (ipc_interrupts i ! e)) (cpu_vcpu c st)"
proof -
  obtain v k where "hv_vcpu st c = Some (v, k)" using assms(1) by (auto simp: cpu_vm_def split: option.splits)
  with cpu_vcpu_update_some [OF this, of "vcpu_inject_irq (ipc_interrupts i ! e)"] assms show ?thesis
    by (auto simp: ipc_notify_def cpu_vcpu_def)
qed

section \<open>From the hypercall to the interrupt\<close>

lemma ipc_targets_set:
  "d \<in> set (ipc_targets sh vm cpu_num) \<longleftrightarrow> d < cpu_num \<and> bit (sh_cpu_masters sh) d \<and> \<not> bit (vm_cpus vm) d"
  if "cpu_num \<le> 64"
  using that by (auto simp: ipc_targets_def bit_simps)

lemma distinct_ipc_targets: "distinct (ipc_targets sh vm cpu_num)"
  by (simp add: ipc_targets_def)

lemma ipc_handler_inbox:
  "ipc_handler c ev d st = Inr st' \<Longrightarrow> machine_ok st' = machine_ok st \<and> inbox st' = inbox st"
  using ipc_handler_keeps(1) [of c ev d st st'] by (simp add: machine_ok_def inbox_def fun_eq_iff)

text \<open>Calls with a number that is no channel of the machine, or without a shared memory, are refused.\<close>

lemma ipc_hypercall_refuses:
  assumes "cpu_vcpu c st = Some vcpu" and "cpu_vm c st = Some vm"
    and "length (vm_ipcs vm) \<le> unat (hypercall_get_arg R vcpu 0) \<or>
      length (hv_shmem st) \<le> ipc_shmem_id (vm_ipcs vm ! unat (hypercall_get_arg R vcpu 0))"
  shows "ipc_hypercall R h cpu_num c st = Inr (- HC_E_INVAL_ARGS, st)"
  using assms by (auto simp: ipc_hypercall_def shmem_get_def Let_def)

lemma ipc_dispatch:
  assumes "unat h < length handlers" and "handlers ! unat h = Some (ipc_handler d)"
    and "hv_vcpu st d = Some (v, j)"
    and "ipc_find_by_shmemid (vm_ipcs (hv_vm st v)) (unat s) = Some i" and "unat e < length (ipc_interrupts i)"
  shows "\<exists>st'. dispatch handlers \<lparr>msg_handler = h, msg_event = IPC_NOTIFY, msg_data = ipc_msg_raw s e\<rparr> st = Inr st' \<and>
    machine_ok st' = machine_ok st \<and> inbox st' = inbox st \<and>
    cpu_vcpu d st' = map_option (vcpu_inject_irq (ipc_interrupts i ! unat e)) (cpu_vcpu d st)"
proof -
  have vm: "cpu_vm d st = Some (hv_vm st v)" using assms(3) by (simp add: cpu_vm_def)
  obtain st' where n: "ipc_notify d (unat s) (unat e) st = Inr st'"
      "cpu_vcpu d st' = map_option (vcpu_inject_irq (ipc_interrupts i ! unat e)) (cpu_vcpu d st)"
    using ipc_notify_injects [OF vm assms(4,5)] by blast
  have h: "ipc_handler d IPC_NOTIFY (ipc_msg_raw s e) st = Inr st'" using n(1) by (simp add: ipc_handler_def)
  from ipc_handler_inbox [OF h] n(2) h assms(1,2) show ?thesis by (simp add: dispatch_def)
qed


text \<open>Two machines on processors 0 and 1 that share a memory; the first notifies the second.\<close>

definition demo_ipc_vm :: "nat \<Rightarrow> vm" where
  "demo_ipc_vm v = \<lparr>vm_id = v, vm_master = v, vm_cpu_num = 1, vm_cpus = (if v = 0 then 1 else 2),
     vm_vcpus = (\<lambda>_. \<lparr>vcpu_id = 0, phys_id = v, vcpu_active = True, vcpu_regs = (\<lambda>_. 0), vcpu_irqs = []\<rparr>),
     emul_mem_list = [], emul_reg_list = [],
     vm_ipcs = [\<lparr>ipc_base = 0x70000000, ipc_size = 0x10000, ipc_shmem_id = 0, ipc_interrupts = [52]\<rparr>],
     vm_remio_devs = []\<rparr>"

definition demo_ipc_state :: hv where
  "demo_ipc_state = \<lparr>cpu_interfaces = idle_interfaces, ipi_pending = (\<lambda>_. False), handling_msgs = (\<lambda>_. False),
     hv_vm = demo_ipc_vm, hv_vcpu = (\<lambda>c. if c < 2 then Some (c, 0) else None), hv_shmem = [demo_shmem\<lparr>sh_cpu_masters := 3\<rparr>]\<rparr>"


end
