(* ===== verification/Remio.thy ===== *)
theory Remio
  imports Ipc Object_Pool
begin

text \<open>
  Remote I/O, \<open>src/src/core/remio.c\<close>: a load or store of a frontend machine to an emulated device
  becomes a request that waits at the device; a backend machine fetches it with the hypercall
  \<open>REMIO_HYP_ASK\<close>, answers it with \<open>REMIO_HYP_READ\<close> or \<open>REMIO_HYP_WRITE\<close>, and a message to the
  processor that made the access completes it there.

  A device is its position in the list of devices, a request is its address in the request pool
  and \<open>remio_requests\<close> gives the contents; the two kinds of intrusive lists are sequences, in the
  order of \<open>list_foreach\<close> (\<open>Linked_List\<close>). Each handler is one step: the locks of the lists and
  pools make their operations atomic, the code between them is not protected.
\<close>

section \<open>Data\<close>

definition REMIO_HYP_WRITE :: u64 where "REMIO_HYP_WRITE = 0"
definition REMIO_HYP_READ :: u64 where "REMIO_HYP_READ = 1"
definition REMIO_HYP_ASK :: u64 where "REMIO_HYP_ASK = 2"
definition REMIO_HYP_NOTIFY :: u64 where "REMIO_HYP_NOTIFY = 3"

definition REMIO_CPU_MSG_WRITE :: u32 where "REMIO_CPU_MSG_WRITE = 0"
definition REMIO_CPU_MSG_READ :: u32 where "REMIO_CPU_MSG_READ = 1"
definition REMIO_CPU_MSG_NOTIFY :: u32 where "REMIO_CPU_MSG_NOTIFY = 2"

lemmas remio_consts = REMIO_HYP_WRITE_def REMIO_HYP_READ_def REMIO_HYP_ASK_def REMIO_HYP_NOTIFY_def
  REMIO_CPU_MSG_WRITE_def REMIO_CPU_MSG_READ_def REMIO_CPU_MSG_NOTIFY_def

definition REMIO_NEXT_PENDING_REQUEST :: u64 where
  "REMIO_NEXT_PENDING_REQUEST = - 1"

datatype REMIO_STATE =
  REMIO_STATE_FREE | REMIO_STATE_PENDING | REMIO_STATE_PROCESSING | REMIO_STATE_COMPLETE

text \<open>The union \<open>remio_cpu_msg_data\<close>: two bytes, two bytes of padding, and the interrupt.\<close>

definition remio_msg_raw :: "u8 \<Rightarrow> u8 \<Rightarrow> u32 \<Rightarrow> u64" where
  "remio_msg_raw key i irq = ucast key OR push_bit 8 (ucast i) OR push_bit 32 (ucast irq)"

definition remio_msg_bind_key :: "u64 \<Rightarrow> u8" where
  "remio_msg_bind_key raw = ucast raw"

definition remio_msg_request_id :: "u64 \<Rightarrow> u8" where
  "remio_msg_request_id raw = ucast (drop_bit 8 raw)"

definition remio_msg_interrupt :: "u64 \<Rightarrow> u32" where
  "remio_msg_interrupt raw = ucast (drop_bit 32 raw)"

record remio_request =
  rq_id :: u64
  rq_bind_key :: u64
  rq_addr :: u64
  rq_access_width :: u64
  rq_op :: u64
  rq_value :: u64
  rq_reg :: nat
  rq_cpu_id :: nat
  rq_state :: REMIO_STATE

text \<open>The \<open>backend\<close> and the \<open>frontend\<close> of \<open>struct remio_device_config\<close> have the same fields.\<close>

record remio_end =
  re_bind_key :: u64
  re_cpu_id :: u64
  re_vm_id :: nat
  re_interrupt :: u32
  re_shmem_base :: u64
  re_shmem_size :: u64
  re_shmem_id :: nat
  re_ready :: bool

record remio_device =
  rdv_ready :: bool
  rdv_bind_key :: u64
  rdv_backend :: remio_end
  rdv_frontend :: remio_end
  rdv_pending :: "u64 list"

record remio = hv +
  remio_device_list :: "remio_device list"
  remio_request_pool :: objpool
  remio_requests :: "u64 \<Rightarrow> remio_request"

record emul_access =
  acc_addr :: u64
  acc_write :: bool
  acc_width :: u64
  acc_reg :: nat

definition remio_device_update :: "nat \<Rightarrow> (remio_device \<Rightarrow> remio_device) \<Rightarrow> 'a remio_scheme \<Rightarrow> 'a remio_scheme" where
  "remio_device_update k f st =
     st\<lparr>remio_device_list := (remio_device_list st)[k := f (remio_device_list st ! k)]\<rparr>"

definition remio_request_update :: "u64 \<Rightarrow> (remio_request \<Rightarrow> remio_request) \<Rightarrow> 'a remio_scheme \<Rightarrow> 'a remio_scheme" where
  "remio_request_update a f st = st\<lparr>remio_requests := (remio_requests st)(a := f (remio_requests st a))\<rparr>"

section \<open>Requests\<close>

definition remio_create_request :: "nat \<Rightarrow> nat \<Rightarrow> emul_access \<Rightarrow> 'a remio_scheme \<Rightarrow> (bool \<times> 'a remio_scheme) outcome" where
  "remio_create_request c device acc st =
     (let (request, i, p) = objpool_alloc_with_id (remio_request_pool st);
          st = st\<lparr>remio_request_pool := p\<rparr>
      in case request of
           None \<Rightarrow> Inr (False, st)
         | Some a \<Rightarrow>
             (let st = remio_request_update a (\<lambda>r. r
                  \<lparr>rq_id := i, rq_addr := acc_addr acc, rq_reg := acc_reg acc, rq_access_width := acc_width acc,
                   rq_state := REMIO_STATE_PENDING, rq_cpu_id := c,
                   rq_bind_key := rdv_bind_key (remio_device_list st ! device)\<rparr>) st
              in obind (if acc_write acc then
                          (case cpu_vcpu c st of
                             None \<Rightarrow> Inl NULL_DEREF
                           | Some vcpu \<Rightarrow>
                               Inr (remio_request_update a
                                 (\<lambda>r. r\<lparr>rq_op := REMIO_HYP_WRITE, rq_value := vcpu_readreg (acc_reg acc) vcpu\<rparr>) st))
                        else Inr (remio_request_update a (\<lambda>r. r\<lparr>rq_op := REMIO_HYP_READ, rq_value := 0\<rparr>) st))
                   (\<lambda>st. Inr (True, remio_device_update device (\<lambda>d. d\<lparr>rdv_pending := rdv_pending d @ [a]\<rparr>) st))))"

text \<open>The second result is the state: asking for the next pending request takes it from the list.\<close>

definition remio_get_request :: "nat \<Rightarrow> u64 \<Rightarrow> 'a remio_scheme \<Rightarrow> u64 option \<times> 'a remio_scheme" where
  "remio_get_request device i st =
     (let (request, st) =
            (if i = REMIO_NEXT_PENDING_REQUEST then
               (case rdv_pending (remio_device_list st ! device) of
                  [] \<Rightarrow> (None, st)
                | a # as \<Rightarrow> (Some a, remio_device_update device (\<lambda>d. d\<lparr>rdv_pending := as\<rparr>) st))
             else if sint i \<ge> 0 then (objpool_get_by_id (remio_request_pool st) i, st)
             else (None, st))
      in case request of
           None \<Rightarrow> (None, st)
         | Some a \<Rightarrow>
             if rq_bind_key (remio_requests st a) \<noteq> rdv_bind_key (remio_device_list st ! device) then (None, st)
             else (Some a, st))"

definition remio_has_pending_request :: "nat \<Rightarrow> 'a remio_scheme \<Rightarrow> bool" where
  "remio_has_pending_request device st \<longleftrightarrow> rdv_pending (remio_device_list st ! device) \<noteq> []"

section \<open>Finding devices\<close>

fun remio_find_dev_by_bind_key :: "remio_device list \<Rightarrow> u64 \<Rightarrow> nat option" where
  "remio_find_dev_by_bind_key [] bind_key = None"
| "remio_find_dev_by_bind_key (dev # devs) bind_key =
     (if bind_key = rdv_bind_key dev then Some 0
      else map_option Suc (remio_find_dev_by_bind_key devs bind_key))"

text \<open>The loop leaves \<open>dev\<close> at the last entry when none has the key.\<close>

fun remio_vm_dev_loop :: "remio_dev option \<Rightarrow> remio_dev list \<Rightarrow> u64 \<Rightarrow> remio_dev option" where
  "remio_vm_dev_loop dev [] bind_key = dev"
| "remio_vm_dev_loop dev (d # ds) bind_key =
     (if rd_bind_key d = bind_key then Some d else remio_vm_dev_loop (Some d) ds bind_key)"

definition remio_find_vm_dev_by_bind_key :: "vm \<Rightarrow> u64 \<Rightarrow> remio_device list \<Rightarrow> nat option" where
  "remio_find_vm_dev_by_bind_key vm bind_key devices =
     (case remio_vm_dev_loop None (vm_remio_devs vm) bind_key of
        None \<Rightarrow> None
      | Some dev \<Rightarrow>
          (case remio_find_dev_by_bind_key devices bind_key of
             None \<Rightarrow> None
           | Some k \<Rightarrow>
               if rd_type dev = REMIO_DEV_BACKEND \<and> vm_id vm = re_vm_id (rdv_backend (devices ! k)) \<or>
                  rd_type dev = REMIO_DEV_FRONTEND \<and> vm_id vm = re_vm_id (rdv_frontend (devices ! k))
               then Some k else None))"

fun remio_vm_dev_at :: "remio_dev list \<Rightarrow> u64 \<Rightarrow> remio_dev option" where
  "remio_vm_dev_at [] addr = None"
| "remio_vm_dev_at (d # ds) addr =
     (if in_range addr (rd_va d) (rd_size d) then Some d else remio_vm_dev_at ds addr)"

definition remio_find_vm_dev_by_addr :: "vm \<Rightarrow> u64 \<Rightarrow> remio_device list \<Rightarrow> nat option" where
  "remio_find_vm_dev_by_addr vm addr devices =
     (case remio_vm_dev_at (vm_remio_devs vm) addr of
        None \<Rightarrow> None
      | Some dev \<Rightarrow> remio_find_vm_dev_by_bind_key vm (rd_bind_key dev) devices)"

section \<open>Messages\<close>

text \<open>
  \<open>cpus\<close> is the number of elements of the array \<open>cpu_interfaces\<close>, \<open>REMIO_CPUMSG_ID\<close> the number of
  the handler. The key and the number of the request are cut to a byte.
\<close>

record remio_params =
  cpu_interfaces_num :: nat
  REMIO_CPUMSG_ID :: u32
  remio_regs :: hypercall_regs

definition remio_cpu_send_msg ::
    "remio_params \<Rightarrow> u32 \<Rightarrow> u64 \<Rightarrow> u64 \<Rightarrow> u64 \<Rightarrow> u64 \<Rightarrow> 'a remio_scheme \<Rightarrow> 'a remio_scheme outcome" where
  "remio_cpu_send_msg K event target_cpu remio_bind_key request_id interrupt st =
     (let data = remio_msg_raw (ucast remio_bind_key) (ucast request_id) (ucast interrupt);
          msg = \<lparr>msg_handler = REMIO_CPUMSG_ID K, msg_event = event, msg_data = data\<rparr>
      in if unat target_cpu < cpu_interfaces_num K then Inr (cpu_send_msg (unat target_cpu) msg st)
         else Inl OUT_OF_BOUNDS)"

section \<open>The backend\<close>

definition remio_handle_ask ::
    "remio_params \<Rightarrow> nat \<Rightarrow> u64 \<Rightarrow> u64 \<Rightarrow> nat \<Rightarrow> 'a remio_scheme \<Rightarrow> (int \<times> 'a remio_scheme) outcome" where
  "remio_handle_ask K c addr value device st =
     (if addr \<noteq> 0 \<or> value \<noteq> 0 then Inr (HC_E_FAILURE, st)
      else
        (let (request, st) = remio_get_request device REMIO_NEXT_PENDING_REQUEST st
         in case request of
              None \<Rightarrow> Inr (HC_E_FAILURE, st)
            | Some a \<Rightarrow>
                if rq_state (remio_requests st a) \<noteq> REMIO_STATE_PENDING then Inr (HC_E_FAILURE, st)
                else
                  (let has_pending_requests = remio_has_pending_request device st;
                       st = remio_request_update a (\<lambda>r. r\<lparr>rq_state := REMIO_STATE_PROCESSING\<rparr>) st;
                       r = remio_requests st a;
                       ret = hypercall_set_ret (remio_regs K)
                   in obind (cpu_vcpu_update c
                          (ret 5 (of_bool has_pending_requests) \<circ> ret 4 (rq_id r) \<circ> ret 3 (rq_access_width r) \<circ>
                           ret 2 (rq_value r) \<circ> ret 1 (rq_op r) \<circ> ret 0 (rq_addr r)) st)
                        (\<lambda>st. Inr (- HC_E_SUCCESS, st)))))"

definition remio_handle_rw :: "u64 \<Rightarrow> u64 \<Rightarrow> nat \<Rightarrow> 'a remio_scheme \<Rightarrow> bool \<times> 'a remio_scheme" where
  "remio_handle_rw value request_id device st =
     (let (request, st) = remio_get_request device request_id st
      in case request of
           None \<Rightarrow> (False, st)
         | Some a \<Rightarrow>
             if rq_state (remio_requests st a) \<noteq> REMIO_STATE_PROCESSING then (False, st)
             else (True, remio_request_update a (\<lambda>r. r\<lparr>rq_value := value, rq_state := REMIO_STATE_COMPLETE\<rparr>) st))"

definition remio_hypercall :: "remio_params \<Rightarrow> nat \<Rightarrow> 'a remio_scheme \<Rightarrow> (int \<times> 'a remio_scheme) outcome" where
  "remio_hypercall K c st =
     (case (cpu_vcpu c st, cpu_vm c st) of
        (Some vcpu, Some vm) \<Rightarrow>
          (let dm_id = hypercall_get_arg (remio_regs K) vcpu 0;
               addr = hypercall_get_arg (remio_regs K) vcpu 1;
               opn = hypercall_get_arg (remio_regs K) vcpu 2;
               value = hypercall_get_arg (remio_regs K) vcpu 3;
               request_id = hypercall_get_arg (remio_regs K) vcpu 4
           in if unat dm_id \<ge> length (vm_remio_devs vm) then Inr (- HC_E_INVAL_ARGS, st)
              else
                (let remio_dev_bind_key = rd_bind_key (vm_remio_devs vm ! unat dm_id)
                 in case remio_find_vm_dev_by_bind_key vm remio_dev_bind_key (remio_device_list st) of
                      None \<Rightarrow> Inr (- HC_E_FAILURE, st)
                    | Some device \<Rightarrow>
                        if opn = REMIO_HYP_WRITE \<or> opn = REMIO_HYP_READ then
                          (let (ok, st) = remio_handle_rw value request_id device st
                           in if ok then
                                (let (request, st) = remio_get_request device request_id st
                                 in case request of
                                      None \<Rightarrow> Inr (- HC_E_FAILURE, st)
                                    | Some a \<Rightarrow>
                                        obind (remio_cpu_send_msg K
                                            (if opn = REMIO_HYP_WRITE then REMIO_CPU_MSG_WRITE else REMIO_CPU_MSG_READ)
                                            (of_nat (rq_cpu_id (remio_requests st a))) remio_dev_bind_key request_id 0 st)
                                          (\<lambda>st. Inr (- HC_E_SUCCESS, st)))
                              else Inr (- HC_E_FAILURE, st))
                        else if opn = REMIO_HYP_ASK then remio_handle_ask K c addr value device st
                        else if opn = REMIO_HYP_NOTIFY then
                          obind (remio_cpu_send_msg K REMIO_CPU_MSG_NOTIFY
                              (re_cpu_id (rdv_frontend (remio_device_list st ! device))) 0 0
                              (ucast (re_interrupt (rdv_frontend (remio_device_list st ! device)))) st)
                            (\<lambda>st. Inr (- HC_E_SUCCESS, st))
                        else Inr (- HC_E_INVAL_ARGS, st)))
      | _ \<Rightarrow> Inl NULL_DEREF)"

section \<open>The frontend\<close>

text \<open>
  The result is \<open>None\<close> while the processor spins on the device's \<open>ready\<close> flag, which only other
  processors set.
\<close>

definition remio_mmio_emul_handler ::
    "remio_params \<Rightarrow> nat \<Rightarrow> emul_access \<Rightarrow> 'a remio_scheme \<Rightarrow> (bool \<times> 'a remio_scheme) outcome option" where
  "remio_mmio_emul_handler K c acc st =
     (case cpu_vm c st of
        None \<Rightarrow> Some (Inl NULL_DEREF)
      | Some vm \<Rightarrow>
          (case remio_find_vm_dev_by_addr vm (acc_addr acc) (remio_device_list st) of
             None \<Rightarrow> Some (Inr (False, st))
           | Some device \<Rightarrow>
               if \<not> rdv_ready (remio_device_list st ! device) then None
               else Some
                 (obind (remio_create_request c device acc st)
                    (\<lambda>(ok, st).
                       if \<not> ok then Inr (False, st)
                       else
                         obind (remio_cpu_send_msg K REMIO_CPU_MSG_NOTIFY
                             (re_cpu_id (rdv_backend (remio_device_list st ! device))) 0 0
                             (ucast (re_interrupt (rdv_backend (remio_device_list st ! device)))) st)
                           (\<lambda>st. obind (cpu_vcpu_update c (\<lambda>v. v\<lparr>vcpu_active := False\<rparr>) st)
                             (\<lambda>st. Inr (True, st)))))))"

definition remio_cpu_post_work ::
    "nat \<Rightarrow> u32 \<Rightarrow> u8 \<Rightarrow> u8 \<Rightarrow> 'a remio_scheme \<Rightarrow> (bool \<times> 'a remio_scheme) outcome" where
  "remio_cpu_post_work c event remio_bind_key request_id st =
     (case remio_find_dev_by_bind_key (remio_device_list st) (ucast remio_bind_key) of
        None \<Rightarrow> Inr (False, st)
      | Some device \<Rightarrow>
          (let (request, st) = remio_get_request device (ucast request_id) st
           in case request of
                None \<Rightarrow> Inr (False, st)
              | Some a \<Rightarrow>
                  obind (if event = REMIO_CPU_MSG_READ then
                           cpu_vcpu_update c (vcpu_writereg (rq_reg (remio_requests st a)) (rq_value (remio_requests st a))) st
                         else Inr st)
                    (\<lambda>st.
                      (let st = remio_request_update a (\<lambda>r. r\<lparr>rq_state := REMIO_STATE_FREE\<rparr>) st;
                           st = st\<lparr>remio_request_pool := objpool_free (remio_request_pool st) a\<rparr>
                       in obind (cpu_vcpu_update c (\<lambda>v. v\<lparr>vcpu_active := True\<rparr>) st) (\<lambda>st. Inr (True, st))))))"

definition remio_cpu_msg_handler :: "nat \<Rightarrow> ('a remio_scheme) msg_handler" where
  "remio_cpu_msg_handler c event data st =
     (if event = REMIO_CPU_MSG_WRITE \<or> event = REMIO_CPU_MSG_READ then
        obind (remio_cpu_post_work c event (remio_msg_bind_key data) (remio_msg_request_id data) st)
          (\<lambda>(ok, st).
             if \<not> ok then
               Inl (ERROR ''Failed to perform the post work after the completion of the I/O request'')
             else Inr st)
      else if event = REMIO_CPU_MSG_NOTIFY then cpu_vcpu_update c (vcpu_inject_irq (remio_msg_interrupt data)) st
      else Inr st)"

section \<open>The processors of the machines\<close>

definition remio_assign_end :: "nat \<Rightarrow> remio_end \<Rightarrow> remio_end" where
  "remio_assign_end c e = e\<lparr>re_cpu_id := min (re_cpu_id e) (of_nat c), re_ready := True\<rparr>"

definition remio_assign_dev :: "nat \<Rightarrow> nat \<Rightarrow> remio_device \<Rightarrow> remio_device" where
  "remio_assign_dev c i dev =
     (let dev = (if i = re_vm_id (rdv_backend dev) then dev\<lparr>rdv_backend := remio_assign_end c (rdv_backend dev)\<rparr>
                 else if i = re_vm_id (rdv_frontend dev) then dev\<lparr>rdv_frontend := remio_assign_end c (rdv_frontend dev)\<rparr>
                 else dev)
      in dev\<lparr>rdv_ready := re_ready (rdv_backend dev) \<and> re_ready (rdv_frontend dev)\<rparr>)"

definition remio_assign_vm_cpus :: "nat \<Rightarrow> vm \<Rightarrow> 'a remio_scheme \<Rightarrow> 'a remio_scheme" where
  "remio_assign_vm_cpus c vm st =
     st\<lparr>remio_device_list := map (remio_assign_dev c (vm_id vm)) (remio_device_list st)\<rparr>"

section \<open>Facts\<close>

lemma remio_msg_fields [simp]:
  "remio_msg_bind_key (remio_msg_raw k i q) = k"
  "remio_msg_request_id (remio_msg_raw k i q) = i"
  "remio_msg_interrupt (remio_msg_raw k i q) = q"
  by (rule bit_word_eqI, auto simp: remio_msg_bind_key_def remio_msg_request_id_def remio_msg_interrupt_def
      remio_msg_raw_def bit_simps dest: bit_imp_le_length)+

lemma remio_find_dev_some:
  "remio_find_dev_by_bind_key devs key = Some k \<Longrightarrow> k < length devs \<and> rdv_bind_key (devs ! k) = key"
  by (induction devs arbitrary: k) (auto split: if_splits)

lemma remio_find_dev_distinct:
  "distinct (map rdv_bind_key devs) \<Longrightarrow> k < length devs \<Longrightarrow> remio_find_dev_by_bind_key devs (rdv_bind_key (devs ! k)) = Some k"
proof (induction devs arbitrary: k)
  case (Cons d devs)
  then show ?case by (cases k) (auto, metis image_eqI nth_mem)
qed simp

lemma remio_find_vm_dev_some:
  "remio_find_vm_dev_by_bind_key vm key devs = Some k \<Longrightarrow> k < length devs \<and> rdv_bind_key (devs ! k) = key"
  by (auto simp: remio_find_vm_dev_by_bind_key_def split: option.splits if_splits dest: remio_find_dev_some)

lemma remio_find_vm_dev_by_addr_some:
  "remio_find_vm_dev_by_addr vm addr devs = Some k \<Longrightarrow> k < length devs"
  by (auto simp: remio_find_vm_dev_by_addr_def split: option.splits dest: remio_find_vm_dev_some)

end
