(* ===== verification/Remio_Inv.thy ===== *)
theory Remio_Inv
  imports Remio
begin

text \<open>
  The protocol of Remote I/O over all interleavings of its handlers. The steps are an access of a
  running virtual processor, any hypercall, the handling of a message, the registration of a
  machine's processors, and whatever else the system does to the parts the protocol does not own.
  The invariant is stated over the pool, the requests, the devices, the processors that run, and
  the completions that wait for each processor; every handler is then one of four changes of
  these.
\<close>

section \<open>The invariant\<close>

definition pend :: "remio_device list \<Rightarrow> u64 list" where
  "pend devs = concat (map rdv_pending devs)"

definition keys_ok :: "remio_device list \<Rightarrow> bool" where
  "keys_ok devs \<longleftrightarrow> distinct (map rdv_bind_key devs) \<and> (\<forall>d \<in> set devs. unat (rdv_bind_key d) < 256)"

definition end_ok :: "nat \<Rightarrow> (nat \<Rightarrow> bool) \<Rightarrow> remio_end \<Rightarrow> bool" where
  "end_ok N hasv e \<longleftrightarrow> (if re_ready e then unat (re_cpu_id e) < N \<and> hasv (unat (re_cpu_id e)) else re_cpu_id e = - 1)"

definition devs_ok :: "nat \<Rightarrow> (nat \<Rightarrow> bool) \<Rightarrow> remio_device list \<Rightarrow> bool" where
  "devs_ok N hasv devs \<longleftrightarrow> keys_ok devs \<and> (\<forall>d \<in> set devs. end_ok N hasv (rdv_backend d) \<and> end_ok N hasv (rdv_frontend d) \<and>
     (rdv_ready d \<longrightarrow> re_ready (rdv_backend d) \<and> re_ready (rdv_frontend d)))"

definition pending_ok :: "objpool \<Rightarrow> (u64 \<Rightarrow> remio_request) \<Rightarrow> remio_device list \<Rightarrow> bool" where
  "pending_ok p S devs \<longleftrightarrow> distinct (pend devs) \<and>
     (\<forall>d \<in> set devs. \<forall>a \<in> set (rdv_pending d). a \<in> objpool_used p \<and> rq_state (S a) = REMIO_STATE_PENDING \<and>
        rq_bind_key (S a) = rdv_bind_key d)"

text \<open>
  Requests in use belong to processors that wait, one each; the number of a request is its
  position in the pool; what is not in use is free.
\<close>

definition used_ok :: "nat \<Rightarrow> objpool \<Rightarrow> (u64 \<Rightarrow> remio_request) \<Rightarrow> (nat \<Rightarrow> bool) \<Rightarrow> (nat \<Rightarrow> bool) \<Rightarrow> bool" where
  "used_ok N p S hasv act \<longleftrightarrow> objpool_ok p \<and> num p \<le> 256 \<and> N \<le> num p \<and>
     (\<forall>a \<in> objpool_used p. rq_state (S a) \<noteq> REMIO_STATE_FREE \<and> unat (rq_id (S a)) < num p \<and>
        a = objpool_obj p (unat (rq_id (S a))) \<and> rq_cpu_id (S a) < N \<and> hasv (rq_cpu_id (S a)) \<and> \<not> act (rq_cpu_id (S a))) \<and>
     inj_on (\<lambda>a. rq_cpu_id (S a)) (objpool_used p) \<and>
     (\<forall>a \<in> objpool_objects p - objpool_used p. rq_state (S a) = REMIO_STATE_FREE)"

text \<open>A processor waits for at most one completion, of a request of its own that is complete.\<close>

definition answers_ok :: "objpool \<Rightarrow> (u64 \<Rightarrow> remio_request) \<Rightarrow> remio_device list \<Rightarrow> (nat \<Rightarrow> (u8 \<times> u8) list) \<Rightarrow> bool" where
  "answers_ok p S devs box \<longleftrightarrow> (\<forall>c. length (box c) \<le> 1 \<and> (\<forall>(k, i) \<in> set (box c).
     \<exists>a \<in> objpool_used p. rq_state (S a) = REMIO_STATE_COMPLETE \<and> rq_cpu_id (S a) = c \<and>
       rq_bind_key (S a) = ucast k \<and> rq_id (S a) = ucast i \<and> ucast k \<in> rdv_bind_key ` set devs))"

lemmas protocol_defs = pending_ok_def used_ok_def answers_ok_def

section \<open>The four changes\<close>

lemma set_pend: "set (pend devs) = (\<Union>d \<in> set devs. set (rdv_pending d))"
  by (simp add: pend_def)

lemma pend_update:
  assumes "k < length devs"
  shows "\<exists>us vs. pend devs = us @ rdv_pending (devs ! k) @ vs \<and>
    (\<forall>d. pend (devs[k := d]) = us @ rdv_pending d @ vs)"
proof -
  have "pend devs = pend (take k devs @ devs ! k # drop (Suc k) devs)" using id_take_nth_drop [OF assms] by simp
  moreover have "pend (devs[k := d]) = pend (take k devs @ d # drop (Suc k) devs)" for d
    using assms by (simp add: upd_conv_take_nth_drop)
  ultimately show ?thesis
    by (intro exI [of _ "pend (take k devs)"] exI [of _ "pend (drop (Suc k) devs)"]) (simp add: pend_def)
qed

lemma set_update_cases: "d \<in> set (devs[k := e]) \<Longrightarrow> d = e \<or> d \<in> set devs"
  using set_update_subset_insert [of devs k e] by auto

lemma used_card:
  assumes "used_ok N p S hasv act" and "act c" and "c < N"
  shows "objpool_used p \<noteq> objpool_objects p"
proof
  assume all: "objpool_used p = objpool_objects p"
  have ok: "objpool_ok p" "N \<le> num p" and inj: "inj_on (\<lambda>a. rq_cpu_id (S a)) (objpool_used p)"
    and cpu: "\<forall>a \<in> objpool_used p. rq_cpu_id (S a) < N \<and> \<not> act (rq_cpu_id (S a))"
    using assms(1) by (auto simp: used_ok_def)
  have "(\<lambda>a. rq_cpu_id (S a)) ` objpool_used p \<subseteq> {..<N} - {c}" using cpu assms(2) by auto
  then have "card (objpool_used p) \<le> card ({..<N} - {c})"
    using inj by (metis card_image card_mono finite_Diff finite_lessThan)
  also have "\<dots> < N" using assms(3) by simp
  finally have "card (objpool_objects p) < num p" using ok(2) all by simp
  moreover have "card (objpool_objects p) = num p"
    unfolding objpool_objects_def using objpool_obj_inj [OF ok(1)] by (subst card_image) (auto intro!: inj_onI)
  ultimately show False by simp
qed

lemma created_ok:
  assumes "pending_ok p S devs" and "used_ok N p S hasv act" and "answers_ok p S devs box"
    and k: "k < length devs" and n: "n < num p" "objpool_obj p n \<notin> objpool_used p"
    and c: "c < N" "hasv c" "act c"
    and r: "rq_state r = REMIO_STATE_PENDING" "rq_id r = of_nat n" "rq_cpu_id r = c"
      "rq_bind_key r = rdv_bind_key (devs ! k)"
  defines "p' \<equiv> p\<lparr>op_bitmap := bitmap_set (op_bitmap p) n\<rparr>" and "S' \<equiv> S(objpool_obj p n := r)"
    and "devs' \<equiv> devs[k := (devs ! k)\<lparr>rdv_pending := rdv_pending (devs ! k) @ [objpool_obj p n]\<rparr>]"
  shows "pending_ok p' S' devs'" and "used_ok N p' S' hasv (act(c := False))" and "answers_ok p' S' devs' box"
proof -
  let ?a = "objpool_obj p n"
  have ok: "objpool_ok p" "num p \<le> 256" using assms(2) by (auto simp: used_ok_def)
  have used: "objpool_used p' = insert ?a (objpool_used p)"
    unfolding p'_def by (rule objpool_used_set(1) [OF ok(1) n(1)])
  obtain us vs where pd: "pend devs = us @ rdv_pending (devs ! k) @ vs" "pend devs' = us @ (rdv_pending (devs ! k) @ [?a]) @ vs"
    using pend_update [OF k] unfolding devs'_def by fastforce
  have old: "set (pend devs) \<subseteq> objpool_used p" using assms(1) by (auto simp: pending_ok_def set_pend)
  have dk: "devs ! k \<in> set devs" using k by simp
  have "distinct (pend devs')" using assms(1) old n(2) unfolding pending_ok_def pd by auto
  moreover have "a \<in> objpool_used p' \<and> rq_state (S' a) = REMIO_STATE_PENDING \<and> rq_bind_key (S' a) = rdv_bind_key d"
    if "d \<in> set devs'" "a \<in> set (rdv_pending d)" for d a
  proof (cases "a = ?a")
    case True
    have "rdv_bind_key d = rdv_bind_key (devs ! k)"
      using set_update_cases [OF that(1) [unfolded devs'_def]]
    proof
      assume "d \<in> set devs"
      with True that(2) n(2) assms(1) show ?thesis by (auto simp: pending_ok_def)
    qed simp
    with True r used show ?thesis by (simp add: S'_def)
  next
    case False
    have "\<exists>d0 \<in> set devs. a \<in> set (rdv_pending d0) \<and> rdv_bind_key d = rdv_bind_key d0"
      using set_update_cases [OF that(1) [unfolded devs'_def]]
    proof
      assume "d = (devs ! k)\<lparr>rdv_pending := rdv_pending (devs ! k) @ [?a]\<rparr>"
      with that(2) False dk show ?thesis by (intro bexI [of _ "devs ! k"]) auto
    qed (use that(2) in blast)
    then obtain d0 where "d0 \<in> set devs" "a \<in> set (rdv_pending d0)" "rdv_bind_key d = rdv_bind_key d0" by blast
    with False assms(1) used show ?thesis by (auto simp: S'_def pending_ok_def)
  qed
  ultimately show "pending_ok p' S' devs'" by (simp add: pending_ok_def)
  have id: "unat (of_nat n :: u64) = n" using n(1) ok(2) by (simp add: unat_of_nat)
  have fresh: "\<forall>a \<in> objpool_used p. rq_cpu_id (S a) \<noteq> c" using assms(2) c(3) by (auto simp: used_ok_def)
  have "inj_on (\<lambda>a. rq_cpu_id (S' a)) (objpool_used p')"
    using assms(2) fresh n(2) r(3) unfolding used S'_def used_ok_def by (auto simp: inj_on_def)
  moreover have "\<forall>a \<in> objpool_used p'. rq_state (S' a) \<noteq> REMIO_STATE_FREE \<and> unat (rq_id (S' a)) < num p' \<and>
      a = objpool_obj p' (unat (rq_id (S' a))) \<and> rq_cpu_id (S' a) < N \<and> hasv (rq_cpu_id (S' a)) \<and>
      \<not> (act(c := False)) (rq_cpu_id (S' a))"
    using assms(2) r c n id unfolding used S'_def used_ok_def by (auto simp: p'_def)
  moreover have "\<forall>a \<in> objpool_objects p' - objpool_used p'. rq_state (S' a) = REMIO_STATE_FREE"
    using assms(2) unfolding used S'_def used_ok_def by (auto simp: p'_def)
  ultimately show "used_ok N p' S' hasv (act(c := False))"
    using assms(2) by (simp add: used_ok_def) (simp add: p'_def)
  have keys: "rdv_bind_key ` set devs' = rdv_bind_key ` set devs"
    unfolding devs'_def using k by (simp flip: set_map add: map_update)
       (metis length_map list_update_id nth_map)
  show "answers_ok p' S' devs' box"
    using assms(3) n(2) unfolding answers_ok_def used keys S'_def by fastforce
qed

lemma used_ok_states:
  assumes "used_ok N p S hasv act"
    and "\<And>b. rq_id (S' b) = rq_id (S b)" and "\<And>b. rq_cpu_id (S' b) = rq_cpu_id (S b)"
    and "\<And>b. b \<in> objpool_used p \<Longrightarrow> rq_state (S' b) \<noteq> REMIO_STATE_FREE"
    and "\<And>b. b \<notin> objpool_used p \<Longrightarrow> rq_state (S' b) = rq_state (S b)"
  shows "used_ok N p S' hasv act"
  using assms(1,4,5) unfolding used_ok_def assms(2,3) by auto

lemma answers_transfer:
  assumes "answers_ok p S devs box" and keys: "rdv_bind_key ` set devs' = rdv_bind_key ` set devs"
    and "\<And>c. (box' c = box c \<and> (\<forall>a \<in> objpool_used p. rq_state (S a) = REMIO_STATE_COMPLETE \<longrightarrow> rq_cpu_id (S a) = c \<longrightarrow>
        a \<in> objpool_used p' \<and> rq_state (S' a) = REMIO_STATE_COMPLETE \<and> rq_cpu_id (S' a) = c \<and>
        rq_bind_key (S' a) = rq_bind_key (S a) \<and> rq_id (S' a) = rq_id (S a))) \<or>
      box' c = [] \<or>
      (\<exists>k i. box' c = [(k, i)] \<and> (\<exists>a \<in> objpool_used p'. rq_state (S' a) = REMIO_STATE_COMPLETE \<and> rq_cpu_id (S' a) = c \<and>
       rq_bind_key (S' a) = ucast k \<and> rq_id (S' a) = ucast i \<and> ucast k \<in> rdv_bind_key ` set devs))"
  shows "answers_ok p' S' devs' box'"
  unfolding answers_ok_def keys
proof (intro allI)
  fix c
  have old: "length (box c) \<le> 1" "\<And>k i. (k, i) \<in> set (box c) \<Longrightarrow> \<exists>a \<in> objpool_used p. rq_state (S a) = REMIO_STATE_COMPLETE \<and>
      rq_cpu_id (S a) = c \<and> rq_bind_key (S a) = ucast k \<and> rq_id (S a) = ucast i \<and> ucast k \<in> rdv_bind_key ` set devs"
    using assms(1) unfolding answers_ok_def by auto
  show "length (box' c) \<le> 1 \<and> (\<forall>(k, i) \<in> set (box' c).
     \<exists>a \<in> objpool_used p'. rq_state (S' a) = REMIO_STATE_COMPLETE \<and> rq_cpu_id (S' a) = c \<and>
       rq_bind_key (S' a) = ucast k \<and> rq_id (S' a) = ucast i \<and> ucast k \<in> rdv_bind_key ` set devs)"
    using assms(3) [of c]
  proof (elim disjE)
    assume c: "box' c = box c \<and> (\<forall>a \<in> objpool_used p. rq_state (S a) = REMIO_STATE_COMPLETE \<longrightarrow> rq_cpu_id (S a) = c \<longrightarrow>
        a \<in> objpool_used p' \<and> rq_state (S' a) = REMIO_STATE_COMPLETE \<and> rq_cpu_id (S' a) = c \<and>
        rq_bind_key (S' a) = rq_bind_key (S a) \<and> rq_id (S' a) = rq_id (S a))"
    have "\<exists>a \<in> objpool_used p'. rq_state (S' a) = REMIO_STATE_COMPLETE \<and> rq_cpu_id (S' a) = c \<and>
       rq_bind_key (S' a) = ucast k \<and> rq_id (S' a) = ucast i \<and> ucast k \<in> rdv_bind_key ` set devs"
      if ki: "(k, i) \<in> set (box' c)" for k i
    proof -
      obtain a where a: "a \<in> objpool_used p" "rq_state (S a) = REMIO_STATE_COMPLETE" "rq_cpu_id (S a) = c"
        "rq_bind_key (S a) = ucast k" "rq_id (S a) = ucast i" "ucast k \<in> rdv_bind_key ` set devs"
        using old(2) [of k i] ki c by auto
      with c show ?thesis by (intro bexI [of _ a]) auto
    qed
    with old(1) c show ?thesis by auto
  qed auto
qed

text \<open>Fetching: the first request of a device leaves its list, and is processed or lost.\<close>

lemma popped_ok:
  assumes "pending_ok p S devs" and "used_ok N p S hasv act" and "answers_ok p S devs box"
    and k: "k < length devs" and hd: "rdv_pending (devs ! k) = a # as"
    and S': "S' = S \<or> S' = S(a := (S a)\<lparr>rq_state := REMIO_STATE_PROCESSING\<rparr>)"
  defines "devs' \<equiv> devs[k := (devs ! k)\<lparr>rdv_pending := as\<rparr>]"
  shows "pending_ok p S' devs'" and "used_ok N p S' hasv act" and "answers_ok p S' devs' box"
proof -
  have dk: "devs ! k \<in> set devs" using k by simp
  have a: "a \<in> objpool_used p" "rq_state (S a) = REMIO_STATE_PENDING" using assms(1) dk hd by (auto simp: pending_ok_def)
  obtain us vs where pd: "pend devs = us @ (a # as) @ vs" "pend devs' = us @ as @ vs"
    using pend_update [OF k] hd unfolding devs'_def by fastforce
  have d: "distinct (pend devs)" using assms(1) by (simp add: pending_ok_def)
  have out: "a \<notin> set (pend devs')" using d unfolding pd by auto
  have "distinct (pend devs')" using d unfolding pd by auto
  moreover have "b \<in> objpool_used p \<and> rq_state (S' b) = REMIO_STATE_PENDING \<and> rq_bind_key (S' b) = rdv_bind_key d"
    if "d \<in> set devs'" "b \<in> set (rdv_pending d)" for d b
  proof -
    have "b \<noteq> a" using out that by (auto simp: set_pend)
    moreover have "\<exists>d0 \<in> set devs. b \<in> set (rdv_pending d0) \<and> rdv_bind_key d = rdv_bind_key d0"
      using set_update_cases [OF that(1) [unfolded devs'_def]]
    proof
      assume "d = (devs ! k)\<lparr>rdv_pending := as\<rparr>"
      with that(2) hd dk show ?thesis by (intro bexI [of _ "devs ! k"]) auto
    qed (use that(2) in blast)
    ultimately show ?thesis using assms(1) S' by (auto simp: pending_ok_def)
  qed
  ultimately show "pending_ok p S' devs'" by (simp add: pending_ok_def)
  have same: "rq_id (S' b) = rq_id (S b)" "rq_cpu_id (S' b) = rq_cpu_id (S b)" "rq_bind_key (S' b) = rq_bind_key (S b)" for b
    using S' by auto
  have state: "rq_state (S' b) = rq_state (S b) \<or> b = a" "rq_state (S' a) \<noteq> REMIO_STATE_FREE" for b
    using S' a(2) by auto
  have "rq_state (S' b) \<noteq> REMIO_STATE_FREE" if "b \<in> objpool_used p" for b
    using that state(1) [of b] state(2) assms(2) by (cases "b = a") (auto simp: used_ok_def)
  moreover have "rq_state (S' b) = rq_state (S b)" if "b \<notin> objpool_used p" for b
    using that state(1) [of b] a(1) by auto
  ultimately show "used_ok N p S' hasv act" by (intro used_ok_states [OF assms(2)] same)
  have keys: "rdv_bind_key ` set devs' = rdv_bind_key ` set devs"
    unfolding devs'_def using k by (simp flip: set_map add: map_update)
       (metis length_map list_update_id nth_map)
  have "rq_state (S' b) = REMIO_STATE_COMPLETE" if "rq_state (S b) = REMIO_STATE_COMPLETE" for b
    using that state(1) [of b] a(2) by auto
  then show "answers_ok p S' devs' box"
    by (intro answers_transfer [OF assms(3) keys] disjI1) (simp add: same)
qed

text \<open>Answering: the request is complete, and its processor gets a message or is full.\<close>

lemma completed_ok:
  fixes v :: u64
  assumes "pending_ok p S devs" and "used_ok N p S hasv act" and "answers_ok p S devs box"
    and a: "a \<in> objpool_used p" "rq_state (S a) = REMIO_STATE_PROCESSING"
    and ans: "ucast key = rq_bind_key (S a)" "ucast i = rq_id (S a)" "rq_bind_key (S a) \<in> rdv_bind_key ` set devs"
    and box': "box' = box \<or> box' = box(rq_cpu_id (S a) := box (rq_cpu_id (S a)) @ [(key, i)])"
  defines "S' \<equiv> S(a := (S a)\<lparr>rq_value := v, rq_state := REMIO_STATE_COMPLETE\<rparr>)"
  shows "pending_ok p S' devs" and "used_ok N p S' hasv act" and "answers_ok p S' devs box'"
proof -
  have "a \<notin> set (rdv_pending d)" if "d \<in> set devs" for d using assms(1) that a(2) by (auto simp: pending_ok_def)
  then show "pending_ok p S' devs" using assms(1) unfolding pending_ok_def S'_def by auto
  have same: "rq_id (S' b) = rq_id (S b)" "rq_cpu_id (S' b) = rq_cpu_id (S b)" "rq_bind_key (S' b) = rq_bind_key (S b)" for b
    by (simp_all add: S'_def)
  have state: "rq_state (S' b) = (if b = a then REMIO_STATE_COMPLETE else rq_state (S b))" for b
    by (simp add: S'_def)
  show "used_ok N p S' hasv act"
    using assms(2) a(1) unfolding used_ok_def same state by auto
  have "box (rq_cpu_id (S a)) = []"
  proof (rule ccontr)
    assume "box (rq_cpu_id (S a)) \<noteq> []"
    then obtain k j where "(k, j) \<in> set (box (rq_cpu_id (S a)))" by (cases "box (rq_cpu_id (S a))") auto
    then obtain b where "b \<in> objpool_used p" "rq_state (S b) = REMIO_STATE_COMPLETE" "rq_cpu_id (S b) = rq_cpu_id (S a)"
      using assms(3) unfolding answers_ok_def by blast
    with assms(2) a show False by (auto simp: used_ok_def dest: inj_onD)
  qed
  show "answers_ok p S' devs box'"
  proof (rule answers_transfer [OF assms(3) refl])
    fix c
    show "(box' c = box c \<and> (\<forall>b \<in> objpool_used p. rq_state (S b) = REMIO_STATE_COMPLETE \<longrightarrow> rq_cpu_id (S b) = c \<longrightarrow>
        b \<in> objpool_used p \<and> rq_state (S' b) = REMIO_STATE_COMPLETE \<and> rq_cpu_id (S' b) = c \<and>
        rq_bind_key (S' b) = rq_bind_key (S b) \<and> rq_id (S' b) = rq_id (S b))) \<or>
      box' c = [] \<or>
      (\<exists>k i. box' c = [(k, i)] \<and> (\<exists>b \<in> objpool_used p. rq_state (S' b) = REMIO_STATE_COMPLETE \<and> rq_cpu_id (S' b) = c \<and>
       rq_bind_key (S' b) = ucast k \<and> rq_id (S' b) = ucast i \<and> ucast k \<in> rdv_bind_key ` set devs))"
    proof (cases "box' c = box c")
      case True
      then show ?thesis by (simp add: same state)
    next
      case False
      with box' have c: "c = rq_cpu_id (S a)" "box' c = [(key, i)]"
        using \<open>box (rq_cpu_id (S a)) = []\<close> by (auto split: if_splits)
      have "\<exists>b \<in> objpool_used p. rq_state (S' b) = REMIO_STATE_COMPLETE \<and> rq_cpu_id (S' b) = c \<and>
         rq_bind_key (S' b) = ucast key \<and> rq_id (S' b) = ucast i \<and> ucast key \<in> rdv_bind_key ` set devs"
        using a(1) c(1) ans by (intro bexI [of _ a]) (simp_all add: same state)
      with c(2) show ?thesis by blast
    qed
  qed
qed

text \<open>Completing on the processor of the access: the request is free again.\<close>

lemma freed_ok:
  assumes "pending_ok p S devs" and "used_ok N p S hasv act" and "answers_ok p S devs box"
    and a: "a \<in> objpool_used p" "rq_state (S a) = REMIO_STATE_COMPLETE"
  defines "S' \<equiv> S(a := (S a)\<lparr>rq_state := REMIO_STATE_FREE\<rparr>)" and "p' \<equiv> objpool_free p a"
  shows "pending_ok p' S' devs" and "used_ok N p' S' hasv (act(rq_cpu_id (S a) := True))"
    and "answers_ok p' S' devs (box(rq_cpu_id (S a) := []))"
proof -
  have ok: "objpool_ok p" using assms(2) by (simp add: used_ok_def)
  obtain n where n: "n < num p" "a = objpool_obj p n" using a(1) by (auto simp: objpool_used_def)
  have p': "p' = p\<lparr>op_bitmap := bitmap_clear (op_bitmap p) n\<rparr>"
    unfolding p'_def n(2) by (rule objpool_free_obj [OF ok n(1)])
  have used: "objpool_used p' = objpool_used p - {a}" unfolding p' n(2) by (rule objpool_used_set(2) [OF ok n(1)])
  have "a \<notin> set (rdv_pending d)" if "d \<in> set devs" for d using assms(1) that a(2) by (auto simp: pending_ok_def)
  then show "pending_ok p' S' devs" using assms(1) unfolding pending_ok_def S'_def used by auto
  have same: "rq_id (S' b) = rq_id (S b)" "rq_cpu_id (S' b) = rq_cpu_id (S b)" "rq_bind_key (S' b) = rq_bind_key (S b)" for b
    by (simp_all add: S'_def)
  have state: "rq_state (S' b) = (if b = a then REMIO_STATE_FREE else rq_state (S b))" for b
    by (simp add: S'_def)
  have inj: "inj_on (\<lambda>a. rq_cpu_id (S a)) (objpool_used p)" using assms(2) by (simp add: used_ok_def)
  then have others: "rq_cpu_id (S b) \<noteq> rq_cpu_id (S a)" if "b \<in> objpool_used p" "b \<noteq> a" for b
    using that a(1) by (auto dest: inj_onD)
  have "inj_on (\<lambda>a. rq_cpu_id (S' a)) (objpool_used p')"
    using inj unfolding used same by (auto intro: inj_on_diff)
  moreover have "\<forall>b \<in> objpool_used p'. rq_state (S' b) \<noteq> REMIO_STATE_FREE \<and> unat (rq_id (S' b)) < num p' \<and>
      b = objpool_obj p' (unat (rq_id (S' b))) \<and> rq_cpu_id (S' b) < N \<and> hasv (rq_cpu_id (S' b)) \<and>
      \<not> (act(rq_cpu_id (S a) := True)) (rq_cpu_id (S' b))"
    using assms(2) others unfolding used same state used_ok_def by (auto simp: p')
  moreover have "\<forall>b \<in> objpool_objects p' - objpool_used p'. rq_state (S' b) = REMIO_STATE_FREE"
    using assms(2) unfolding used state used_ok_def by (auto simp: p')
  ultimately show "used_ok N p' S' hasv (act(rq_cpu_id (S a) := True))"
    using assms(2) by (simp add: used_ok_def) (simp add: p')
  have "b \<in> objpool_used p' \<and> rq_state (S' b) = REMIO_STATE_COMPLETE"
    if "b \<in> objpool_used p" "rq_state (S b) = REMIO_STATE_COMPLETE" "rq_cpu_id (S b) \<noteq> rq_cpu_id (S a)" for b
    using that by (auto simp: used state)
  then show "answers_ok p' S' devs (box(rq_cpu_id (S a) := []))"
    by (intro answers_transfer [OF assms(3) refl]) (auto simp: same)
qed

section \<open>The state\<close>

definition acts :: "'a hv_scheme \<Rightarrow> nat \<Rightarrow> bool" where
  "acts st c \<longleftrightarrow> (case cpu_vcpu c st of None \<Rightarrow> False | Some v \<Rightarrow> vcpu_active v)"

definition runs :: "'a hv_scheme \<Rightarrow> nat \<Rightarrow> bool" where
  "runs st c \<longleftrightarrow> hv_vcpu st c \<noteq> None"

lemma vcpu_update_runs: "runs st c \<Longrightarrow> \<exists>st'. cpu_vcpu_update c f st = Inr st'"
  by (auto simp: cpu_vcpu_update_def runs_def split: option.splits)

definition is_answer :: "remio_params \<Rightarrow> cpu_msg \<Rightarrow> bool" where
  "is_answer K m \<longleftrightarrow> msg_handler m = REMIO_CPUMSG_ID K \<and> (msg_event m = REMIO_CPU_MSG_WRITE \<or> msg_event m = REMIO_CPU_MSG_READ)"

definition answers :: "remio_params \<Rightarrow> 'a machine_scheme \<Rightarrow> nat \<Rightarrow> (u8 \<times> u8) list" where
  "answers K st c = map (\<lambda>m. (remio_msg_bind_key (msg_data m), remio_msg_request_id (msg_data m)))
     (filter (is_answer K) (inbox st c))"

definition base_ok :: "remio_params \<Rightarrow> 'a hv_scheme \<Rightarrow> bool" where
  "base_ok K st \<longleftrightarrow> machine_ok st \<and> vcpus_apart st \<and> (\<forall>c. runs st c \<longrightarrow> c < cpu_interfaces_num K) \<and>
     (\<forall>c. \<forall>m \<in> set (inbox st c). msg_handler m = REMIO_CPUMSG_ID K \<longrightarrow> runs st c)"

definition remio_inv :: "remio_params \<Rightarrow> 'a remio_scheme \<Rightarrow> bool" where
  "remio_inv K st \<longleftrightarrow> base_ok K st \<and> cpu_interfaces_num K < 2 ^ 64 - 1 \<and>
     devs_ok (cpu_interfaces_num K) (runs st) (remio_device_list st) \<and>
     pending_ok (remio_request_pool st) (remio_requests st) (remio_device_list st) \<and>
     used_ok (cpu_interfaces_num K) (remio_request_pool st) (remio_requests st) (runs st) (acts st) \<and>
     answers_ok (remio_request_pool st) (remio_requests st) (remio_device_list st) (answers K st)"

text \<open>The components the protocol owns, as functions of the extension of the record.\<close>

lemma remio_more_cong:
  fixes a b :: "'a remio_scheme"
  assumes "hv.more a = hv.more b"
  shows "remio_device_list a = remio_device_list b" and "remio_request_pool a = remio_request_pool b"
    and "remio_requests a = remio_requests b"
proof -
  have "remio_device_list a = remio_device_list b \<and> remio_request_pool a = remio_request_pool b \<and>
    remio_requests a = remio_requests b"
    using assms by (cases a, cases b) simp
  then show "remio_device_list a = remio_device_list b" and "remio_request_pool a = remio_request_pool b"
    and "remio_requests a = remio_requests b" by blast+
qed

lemma inbox_interfaces: "cpu_interfaces a = cpu_interfaces b \<Longrightarrow> inbox a = inbox b \<and> machine_ok a = machine_ok b"
  by (simp add: inbox_def machine_ok_def fun_eq_iff)

lemma vcpu_update_view:
  fixes st st' :: "'a remio_scheme"
  assumes u: "cpu_vcpu_update c f st = Inr st'" and "base_ok K st"
  shows "base_ok K st'" and "runs st' = runs st" and "answers K st' = answers K st"
    and "remio_device_list st' = remio_device_list st" and "remio_request_pool st' = remio_request_pool st"
    and "remio_requests st' = remio_requests st" and "inbox st' = inbox st"
    and "(\<And>v. vcpu_active (f v) = vcpu_active v) \<Longrightarrow> acts st' = acts st"
    and "(\<And>v. vcpu_active (f v) = act) \<Longrightarrow> acts st' = (acts st)(c := act)"
proof -
  note fields = cpu_vcpu_update_fields [OF u]
  show box: "inbox st' = inbox st" and runs: "runs st' = runs st"
    using fields(1,4) inbox_interfaces [of st' st] by (auto simp: runs_def fun_eq_iff)
  then show "answers K st' = answers K st" by (simp add: answers_def fun_eq_iff)
  show "base_ok K st'"
    using assms(2) box runs fields(4) inbox_interfaces [OF fields(1)] by (simp add: base_ok_def vcpus_apart_def)
  show "remio_device_list st' = remio_device_list st" "remio_request_pool st' = remio_request_pool st"
    "remio_requests st' = remio_requests st"
    using remio_more_cong [OF fields(6)] by simp_all
  have own: "cpu_vcpu c st' = map_option f (cpu_vcpu c st)" and some: "cpu_vcpu c st \<noteq> None"
    using cpu_vcpu_update_own [OF u] u by (auto simp: cpu_vcpu_def cpu_vcpu_update_def split: option.splits)
  have other: "acts st' d = acts st d" if "d \<noteq> c" for d
    using cpu_vcpu_update_other [OF u _ that] assms(2) by (simp add: acts_def base_ok_def)
  show "acts st' = acts st" if "\<And>v. vcpu_active (f v) = vcpu_active v"
  proof
    fix d show "acts st' d = acts st d" using other that own by (cases "d = c") (auto simp: acts_def split: option.splits)
  qed
  show "acts st' = (acts st)(c := act)" if "\<And>v. vcpu_active (f v) = act"
  proof
    fix d show "acts st' d = ((acts st)(c := act)) d"
      using other that own some by (cases "d = c") (auto simp: acts_def split: option.splits)
  qed
qed

lemma send_view:
  fixes st st' :: "'a remio_scheme"
  assumes send: "remio_cpu_send_msg K ev t key i irq st = Inr st'" and base: "base_ok K st" and "runs st (unat t)"
  shows "base_ok K st'" and "runs st' = runs st" and "acts st' = acts st"
    and "remio_device_list st' = remio_device_list st" and "remio_request_pool st' = remio_request_pool st"
    and "remio_requests st' = remio_requests st"
    and "answers K st' = answers K st \<or> (ev = REMIO_CPU_MSG_WRITE \<or> ev = REMIO_CPU_MSG_READ) \<and>
       answers K st' = (answers K st)(unat t := answers K st (unat t) @ [(ucast key, ucast i)])"
proof -
  let ?m = "\<lparr>msg_handler = REMIO_CPUMSG_ID K, msg_event = ev, msg_data = remio_msg_raw (ucast key) (ucast i) (ucast irq)\<rparr>"
  have st': "st' = cpu_send_msg (unat t) ?m st"
    using send by (auto simp: remio_cpu_send_msg_def Let_def split: if_splits)
  have more: "machine.more st' = machine.more st" unfolding st' by (rule cpu_send_msg_more)
  note cong = hv_more_cong [OF more]
  show runs: "runs st' = runs st" and "acts st' = acts st"
    using cong by (simp_all add: runs_def acts_def fun_eq_iff)
  show "remio_device_list st' = remio_device_list st" "remio_request_pool st' = remio_request_pool st"
    "remio_requests st' = remio_requests st"
    using remio_more_cong [OF cong(4)] by simp_all
  have ok: "machine_ok st" using base by (simp add: base_ok_def)
  have box: "inbox st' = (if has_room st (unat t) then (inbox st)(unat t := inbox st (unat t) @ [?m]) else inbox st)"
    unfolding st' by (rule inbox_cpu_send_msg [OF ok])
  show "base_ok K st'"
    using base box runs cong(2) cpu_send_msg_ok [OF ok, of "unat t" ?m] assms(3)
    by (auto simp: base_ok_def vcpus_apart_def st' split: if_splits)
  show "answers K st' = answers K st \<or> (ev = REMIO_CPU_MSG_WRITE \<or> ev = REMIO_CPU_MSG_READ) \<and>
       answers K st' = (answers K st)(unat t := answers K st (unat t) @ [(ucast key, ucast i)])"
    by (auto simp: answers_def box is_answer_def fun_eq_iff)
qed

lemma cpu_remio_update [simp]:
  "cpu_vcpu c (st\<lparr>remio_requests := S\<rparr>) = cpu_vcpu c st" "cpu_vm c (st\<lparr>remio_requests := S\<rparr>) = cpu_vm c st"
  "cpu_vcpu c (st\<lparr>remio_request_pool := p\<rparr>) = cpu_vcpu c st" "cpu_vm c (st\<lparr>remio_request_pool := p\<rparr>) = cpu_vm c st"
  "cpu_vcpu c (st\<lparr>remio_device_list := ds\<rparr>) = cpu_vcpu c st" "cpu_vm c (st\<lparr>remio_device_list := ds\<rparr>) = cpu_vm c st"
  by (auto simp: cpu_vcpu_def cpu_vm_def split: option.splits)

lemma request_update_view [simp]:
  "runs (remio_request_update a f st) = runs st" "acts (remio_request_update a f st) = acts st"
  "answers K (remio_request_update a f st) = answers K st" "base_ok K (remio_request_update a f st) = base_ok K st"
  "remio_device_list (remio_request_update a f st) = remio_device_list st"
  "remio_request_pool (remio_request_update a f st) = remio_request_pool st"
  "remio_requests (remio_request_update a f st) = (remio_requests st)(a := f (remio_requests st a))"
  by (auto simp: remio_request_update_def runs_def acts_def answers_def base_ok_def inbox_def machine_ok_def
      vcpus_apart_def fun_eq_iff)

lemma device_update_view [simp]:
  "runs (remio_device_update k g st) = runs st" "acts (remio_device_update k g st) = acts st"
  "answers K (remio_device_update k g st) = answers K st" "base_ok K (remio_device_update k g st) = base_ok K st"
  "remio_device_list (remio_device_update k g st) = (remio_device_list st)[k := g (remio_device_list st ! k)]"
  "remio_request_pool (remio_device_update k g st) = remio_request_pool st"
  "remio_requests (remio_device_update k g st) = remio_requests st"
  by (auto simp: remio_device_update_def runs_def acts_def answers_def base_ok_def inbox_def machine_ok_def
      vcpus_apart_def fun_eq_iff)

lemma requests_update_view [simp]:
  "runs (st\<lparr>remio_requests := S\<rparr>) = runs st" "acts (st\<lparr>remio_requests := S\<rparr>) = acts st"
  "answers K (st\<lparr>remio_requests := S\<rparr>) = answers K st" "base_ok K (st\<lparr>remio_requests := S\<rparr>) = base_ok K st"
  by (auto simp: runs_def acts_def answers_def base_ok_def inbox_def machine_ok_def
      vcpus_apart_def fun_eq_iff)

lemma pool_update_view [simp]:
  "runs (st\<lparr>remio_request_pool := p\<rparr>) = runs st" "acts (st\<lparr>remio_request_pool := p\<rparr>) = acts st"
  "answers K (st\<lparr>remio_request_pool := p\<rparr>) = answers K st" "base_ok K (st\<lparr>remio_request_pool := p\<rparr>) = base_ok K st"
  by (auto simp: runs_def acts_def answers_def base_ok_def inbox_def machine_ok_def
      vcpus_apart_def fun_eq_iff)

section \<open>The handlers keep the invariant\<close>

lemma sint_small: "unat (i :: u64) < 256 \<Longrightarrow> 0 \<le> sint i"
proof -
  assume "unat i < 256"
  then have "uint i < 256" unfolding uint_nat by linarith
  moreover have "- (2 ^ 63) \<le> uint i" by (rule order_trans [of _ 0]) simp_all
  ultimately have "- (2 ^ 63) \<le> uint i \<and> uint i < 2 ^ 63" by simp
  then have "sint i = uint i" unfolding sint_uint by (intro signed_take_bit_int_eq_self) simp_all
  then show ?thesis by simp
qed

lemma ucast_byte: "unat (x :: u64) < 256 \<Longrightarrow> ucast (ucast x :: u8) = x"
proof -
  assume "unat x < 256"
  then have "unat (ucast (ucast x :: u8) :: u64) = unat x"
    by (simp add: unsigned_ucast_eq unsigned_take_bit_eq take_bit_nat_def)
  then show ?thesis by (rule word_unat_eq_iff [THEN iffD2])
qed

lemma devs_pending_keys:
  "k < length devs \<Longrightarrow> map rdv_bind_key (devs[k := (devs ! k)\<lparr>rdv_pending := as\<rparr>]) = map rdv_bind_key devs"
  by (simp add: map_update) (metis length_map list_update_id nth_map)

lemma devs_ok_pending:
  assumes "devs_ok N r devs" and "k < length devs"
  shows "devs_ok N r (devs[k := (devs ! k)\<lparr>rdv_pending := as\<rparr>])"
proof -
  let ?devs = "devs[k := (devs ! k)\<lparr>rdv_pending := as\<rparr>]"
  have keys: "distinct (map rdv_bind_key ?devs)"
    unfolding devs_pending_keys [OF assms(2)] using assms(1) by (simp add: devs_ok_def keys_ok_def)
  have dk: "devs ! k \<in> set devs" using assms(2) by simp
  have "\<exists>d0 \<in> set devs. rdv_bind_key d = rdv_bind_key d0 \<and> rdv_backend d = rdv_backend d0 \<and>
      rdv_frontend d = rdv_frontend d0 \<and> rdv_ready d = rdv_ready d0" if "d \<in> set ?devs" for d
    using set_update_cases [OF that] dk by (elim disjE) (auto intro: bexI [of _ "devs ! k"])
  with keys assms(1) show ?thesis unfolding devs_ok_def keys_ok_def by metis
qed

lemma remio_get_by_id:
  assumes "remio_inv K st" and "i \<noteq> REMIO_NEXT_PENDING_REQUEST"
  shows "remio_get_request k i st =
    (if unat i < num (remio_request_pool st) \<and>
        rq_bind_key (remio_requests st (objpool_obj (remio_request_pool st) (unat i))) = rdv_bind_key (remio_device_list st ! k)
     then Some (objpool_obj (remio_request_pool st) (unat i)) else None, st)"
proof -
  have p: "objpool_ok (remio_request_pool st)" "num (remio_request_pool st) \<le> 256"
    using assms(1) by (auto simp: remio_inv_def used_ok_def)
  have "0 \<le> sint i" if "unat i < num (remio_request_pool st)" using that p(2) sint_small by simp
  then show ?thesis using assms(2) objpool_get_by_id_obj [OF p(1)] by (auto simp: remio_get_request_def Let_def)
qed

lemma remio_get_next:
  assumes "remio_inv K st" and "k < length (remio_device_list st)"
  obtains (none) "remio_get_request k REMIO_NEXT_PENDING_REQUEST st = (None, st)"
  | (some) a as where "rdv_pending (remio_device_list st ! k) = a # as"
      "remio_get_request k REMIO_NEXT_PENDING_REQUEST st = (Some a, remio_device_update k (\<lambda>d. d\<lparr>rdv_pending := as\<rparr>) st)"
      "rq_state (remio_requests st a) = REMIO_STATE_PENDING"
      "remio_inv K (remio_device_update k (\<lambda>d. d\<lparr>rdv_pending := as\<rparr>) st)"
      "remio_inv K (remio_request_update a (\<lambda>r. r\<lparr>rq_state := REMIO_STATE_PROCESSING\<rparr>)
         (remio_device_update k (\<lambda>d. d\<lparr>rdv_pending := as\<rparr>) st))"
proof (cases "rdv_pending (remio_device_list st ! k)")
  case Nil
  then show ?thesis by (intro none) (simp add: remio_get_request_def)
next
  case (Cons a as)
  have pending: "pending_ok (remio_request_pool st) (remio_requests st) (remio_device_list st)"
    using assms(1) by (simp add: remio_inv_def)
  have "remio_device_list st ! k \<in> set (remio_device_list st)" using assms(2) by simp
  with pending Cons have a: "rq_state (remio_requests st a) = REMIO_STATE_PENDING"
    "rq_bind_key (remio_requests st a) = rdv_bind_key (remio_device_list st ! k)" by (auto simp: pending_ok_def)
  have eq: "remio_get_request k REMIO_NEXT_PENDING_REQUEST st = (Some a, remio_device_update k (\<lambda>d. d\<lparr>rdv_pending := as\<rparr>) st)"
    using Cons a(2) assms(2) by (simp add: remio_get_request_def)
  have used: "used_ok (cpu_interfaces_num K) (remio_request_pool st) (remio_requests st) (runs st) (acts st)"
    and answer: "answers_ok (remio_request_pool st) (remio_requests st) (remio_device_list st) (answers K st)"
    using assms(1) by (simp_all add: remio_inv_def)
  note pop = popped_ok [OF pending used answer assms(2) Cons]
  have "remio_inv K (remio_device_update k (\<lambda>d. d\<lparr>rdv_pending := as\<rparr>) st)"
    using assms(1) pop [OF disjI1 [OF refl]] devs_ok_pending [OF _ assms(2)] by (simp add: remio_inv_def)
  moreover have "remio_inv K (remio_request_update a (\<lambda>r. r\<lparr>rq_state := REMIO_STATE_PROCESSING\<rparr>)
      (remio_device_update k (\<lambda>d. d\<lparr>rdv_pending := as\<rparr>) st))"
    using assms(1) pop [OF disjI2 [OF refl]] devs_ok_pending [OF _ assms(2)] by (simp add: remio_inv_def)
  ultimately show ?thesis by (rule some [OF Cons eq a(1)])
qed

lemma vcpu_update_inv:
  assumes u: "cpu_vcpu_update c f st = Inr st'" and "remio_inv K st" and "\<And>v. vcpu_active (f v) = vcpu_active v"
  shows "remio_inv K st'"
proof -
  have "base_ok K st" using assms(2) by (simp add: remio_inv_def)
  note view = vcpu_update_view [OF u this]
  with assms(2,3) show ?thesis by (simp add: remio_inv_def)
qed

lemma remio_handle_ask_inv:
  assumes "remio_inv K st" and "k < length (remio_device_list st)" and ask: "remio_handle_ask K c addr v k st = Inr (ret, st')"
  shows "remio_inv K st'"
proof (cases "addr \<noteq> 0 \<or> v \<noteq> 0")
  case True
  with ask assms(1) show ?thesis by (simp add: remio_handle_ask_def)
next
  case False
  show ?thesis
    using assms(1,2)
  proof (cases rule: remio_get_next)
    case none
    with ask assms(1) False show ?thesis by (simp add: remio_handle_ask_def)
  next
    case (some a as)
    let ?st = "remio_request_update a (\<lambda>r. r\<lparr>rq_state := REMIO_STATE_PROCESSING\<rparr>)
      (remio_device_update k (\<lambda>d. d\<lparr>rdv_pending := as\<rparr>) st)"
    from ask False some(2,3) obtain f where "cpu_vcpu_update c f ?st = Inr st'" "\<And>v. vcpu_active (f v) = vcpu_active v"
      by (auto simp: remio_handle_ask_def obind_eq_Inr Let_def hypercall_set_ret_def o_def)
    with vcpu_update_inv [OF _ some(5)] show ?thesis by blast
  qed
qed

lemma remio_handle_rw_cases:
  assumes "remio_inv K st" and "k < length (remio_device_list st)"
  obtains (refused) st' where "remio_handle_rw v i k st = (False, st')" "remio_inv K st'"
  | (answered) a where "a = objpool_obj (remio_request_pool st) (unat i)" "i \<noteq> REMIO_NEXT_PENDING_REQUEST"
      "unat i < num (remio_request_pool st)" "rq_state (remio_requests st a) = REMIO_STATE_PROCESSING"
      "rq_bind_key (remio_requests st a) = rdv_bind_key (remio_device_list st ! k)"
      "remio_handle_rw v i k st =
        (True, remio_request_update a (\<lambda>r. r\<lparr>rq_value := v, rq_state := REMIO_STATE_COMPLETE\<rparr>) st)"
proof (cases "i = REMIO_NEXT_PENDING_REQUEST")
  case True
  show ?thesis
    using assms
  proof (cases rule: remio_get_next)
    case none
    with True assms(1) show ?thesis by (intro refused [of st]) (simp_all add: remio_handle_rw_def)
  next
    case (some a as)
    with True show ?thesis by (intro refused) (simp_all add: remio_handle_rw_def)
  qed
next
  case False
  note get = remio_get_by_id [OF assms(1) False, of k]
  let ?a = "objpool_obj (remio_request_pool st) (unat i)"
  show ?thesis
  proof (cases "unat i < num (remio_request_pool st) \<and> rq_bind_key (remio_requests st ?a) = rdv_bind_key (remio_device_list st ! k)
      \<and> rq_state (remio_requests st ?a) = REMIO_STATE_PROCESSING")
    case True
    with False get show ?thesis by (intro answered [of ?a]) (simp_all add: remio_handle_rw_def)
  next
    case f: False
    with get assms(1) show ?thesis by (intro refused [of st]) (auto simp: remio_handle_rw_def)
  qed
qed

text \<open>A request that is processed is in use, and its number is its position.\<close>

lemma remio_processing:
  assumes "remio_inv K st" and "a = objpool_obj (remio_request_pool st) n" and "n < num (remio_request_pool st)"
    and "rq_state (remio_requests st a) \<noteq> REMIO_STATE_FREE"
  shows "a \<in> objpool_used (remio_request_pool st)" and "unat (rq_id (remio_requests st a)) = n"
    and "rq_cpu_id (remio_requests st a) < cpu_interfaces_num K" and "runs st (rq_cpu_id (remio_requests st a))"
proof -
  let ?p = "remio_request_pool st" and ?r = "remio_requests st a"
  have used: "used_ok (cpu_interfaces_num K) ?p (remio_requests st) (runs st) (acts st)"
    using assms(1) by (simp add: remio_inv_def)
  have "a \<in> objpool_objects ?p" using assms(2,3) by (auto simp: objpool_objects_def)
  with used assms(4) show a: "a \<in> objpool_used ?p" by (auto simp: used_ok_def)
  with used have r: "objpool_ok ?p" "unat (rq_id ?r) < num ?p" "a = objpool_obj ?p (unat (rq_id ?r))"
    and c: "rq_cpu_id ?r < cpu_interfaces_num K" "runs st (rq_cpu_id ?r)"
    by (auto simp: used_ok_def)
  show "unat (rq_id ?r) = n" using objpool_obj_inj [OF r(1,2) assms(3)] r(3) assms(2) by simp
  show "rq_cpu_id ?r < cpu_interfaces_num K" "runs st (rq_cpu_id ?r)" by (rule c)+
qed

lemma remio_answer_inv:
  assumes inv: "remio_inv K st" and k: "k < length (remio_device_list st)"
    and a: "a = objpool_obj (remio_request_pool st) (unat i)" "unat i < num (remio_request_pool st)"
      "rq_state (remio_requests st a) = REMIO_STATE_PROCESSING"
      "rq_bind_key (remio_requests st a) = rdv_bind_key (remio_device_list st ! k)"
    and send: "remio_cpu_send_msg K ev (of_nat (rq_cpu_id (remio_requests st a))) (rdv_bind_key (remio_device_list st ! k)) i 0
       (remio_request_update a (\<lambda>r. r\<lparr>rq_value := v, rq_state := REMIO_STATE_COMPLETE\<rparr>) st) = Inr st'"
  shows "remio_inv K st'"
proof -
  let ?st = "remio_request_update a (\<lambda>r. r\<lparr>rq_value := v, rq_state := REMIO_STATE_COMPLETE\<rparr>) st"
  have "rq_state (remio_requests st a) \<noteq> REMIO_STATE_FREE" using a(3) by simp
  note proc = remio_processing [OF inv a(1,2) this]
  have parts: "base_ok K st" "cpu_interfaces_num K < 2 ^ 64 - 1" "devs_ok (cpu_interfaces_num K) (runs st) (remio_device_list st)"
    "pending_ok (remio_request_pool st) (remio_requests st) (remio_device_list st)"
    "used_ok (cpu_interfaces_num K) (remio_request_pool st) (remio_requests st) (runs st) (acts st)"
    "answers_ok (remio_request_pool st) (remio_requests st) (remio_device_list st) (answers K st)"
    using inv by (simp_all add: remio_inv_def)
  have cpu: "unat (of_nat (rq_cpu_id (remio_requests st a)) :: u64) = rq_cpu_id (remio_requests st a)"
    using proc(3) parts(2) by (simp add: unat_of_nat)
  have base: "base_ok K ?st" using parts(1) by simp
  have run: "runs ?st (unat (of_nat (rq_cpu_id (remio_requests st a)) :: u64))" using proc(4) cpu by simp
  note view = send_view [OF send base run, unfolded cpu request_update_view]
  have dk: "remio_device_list st ! k \<in> set (remio_device_list st)" using k by simp
  then have "unat (rdv_bind_key (remio_device_list st ! k)) < 256" using parts(3) by (auto simp: devs_ok_def keys_ok_def)
  then have key: "ucast (ucast (rdv_bind_key (remio_device_list st ! k)) :: u8) = rq_bind_key (remio_requests st a)"
    using ucast_byte a(4) by simp
  have "num (remio_request_pool st) \<le> 256" using parts(5) by (simp add: used_ok_def)
  then have "ucast (ucast i :: u8) = i" using ucast_byte a(2) by simp
  moreover have "rq_id (remio_requests st a) = i" using proc(2) by (simp add: word_unat_eq_iff)
  ultimately have id: "ucast (ucast i :: u8) = rq_id (remio_requests st a)" by simp
  have mem: "rq_bind_key (remio_requests st a) \<in> rdv_bind_key ` set (remio_device_list st)" using a(4) dk by simp
  have box: "answers K st' = answers K st \<or> answers K st' = (answers K st)
      (rq_cpu_id (remio_requests st a) := answers K st (rq_cpu_id (remio_requests st a)) @
        [(ucast (rdv_bind_key (remio_device_list st ! k)), ucast i)])"
    using view(7) by blast
  note compl = completed_ok [OF parts(4,5,6) proc(1) a(3) key id mem box, of v]
  show ?thesis using view parts(2,3) compl by (simp add: remio_inv_def)
qed

lemma remio_notify_inv:
  assumes inv: "remio_inv K st" and send: "remio_cpu_send_msg K REMIO_CPU_MSG_NOTIFY t key i irq st = Inr st'"
    and "runs st (unat t)"
  shows "remio_inv K st'"
proof -
  have base: "base_ok K st" using inv by (simp add: remio_inv_def)
  note view = send_view [OF send base assms(3)]
  have "answers K st' = answers K st" using view(7) by (simp add: remio_consts)
  with view inv show ?thesis by (simp add: remio_inv_def)
qed

lemma remio_end_target:
  assumes "end_ok N r e" and "N < 2 ^ 64 - 1" and "unat (re_cpu_id e) < N"
  shows "r (unat (re_cpu_id e))"
  using assms by (auto simp: end_ok_def unsigned_minus_1_eq_mask mask_eq_exp_minus_1 split: if_splits)

lemma remio_hypercall_inv:
  assumes inv: "remio_inv K st" and call: "remio_hypercall K c st = Inr (ret, st')"
  shows "remio_inv K st'"
proof -
  obtain vcpu vm where c: "cpu_vcpu c st = Some vcpu" "cpu_vm c st = Some vm"
    using call by (auto simp: remio_hypercall_def split: option.splits)
  define arg where "arg = hypercall_get_arg (remio_regs K) vcpu"
  define key where "key = rd_bind_key (vm_remio_devs vm ! unat (arg 0))"
  note unfold_call = remio_hypercall_def c option.case prod.case Let_def arg_def [symmetric] key_def [symmetric]
  show ?thesis
  proof (cases "length (vm_remio_devs vm) \<le> unat (arg 0) \<or>
      remio_find_vm_dev_by_bind_key vm key (remio_device_list st) = None")
    case True
    then have "st' = st" using call unfolding unfold_call by (auto split: if_splits)
    with inv show ?thesis by simp
  next
    case False
    then obtain k where find: "remio_find_vm_dev_by_bind_key vm key (remio_device_list st) = Some k" by auto
    note k = remio_find_vm_dev_some [OF find]
    have body: "remio_hypercall K c st =
      (if arg 2 = REMIO_HYP_WRITE \<or> arg 2 = REMIO_HYP_READ then
         (let (ok, st) = remio_handle_rw (arg 3) (arg 4) k st
          in if ok then
               (let (request, st) = remio_get_request k (arg 4) st
                in case request of
                     None \<Rightarrow> Inr (- HC_E_FAILURE, st)
                   | Some a \<Rightarrow>
                       obind (remio_cpu_send_msg K
                           (if arg 2 = REMIO_HYP_WRITE then REMIO_CPU_MSG_WRITE else REMIO_CPU_MSG_READ)
                           (of_nat (rq_cpu_id (remio_requests st a))) key (arg 4) 0 st)
                         (\<lambda>st. Inr (- HC_E_SUCCESS, st)))
             else Inr (- HC_E_FAILURE, st))
       else if arg 2 = REMIO_HYP_ASK then remio_handle_ask K c (arg 1) (arg 3) k st
       else if arg 2 = REMIO_HYP_NOTIFY then
         obind (remio_cpu_send_msg K REMIO_CPU_MSG_NOTIFY (re_cpu_id (rdv_frontend (remio_device_list st ! k))) 0 0
             (ucast (re_interrupt (rdv_frontend (remio_device_list st ! k)))) st)
           (\<lambda>st. Inr (- HC_E_SUCCESS, st))
       else Inr (- HC_E_INVAL_ARGS, st))"
      using False find unfolding unfold_call by simp
    consider (rw) "arg 2 = REMIO_HYP_WRITE \<or> arg 2 = REMIO_HYP_READ"
      | (ask) "\<not> (arg 2 = REMIO_HYP_WRITE \<or> arg 2 = REMIO_HYP_READ)" "arg 2 = REMIO_HYP_ASK"
      | (notify) "\<not> (arg 2 = REMIO_HYP_WRITE \<or> arg 2 = REMIO_HYP_READ)" "arg 2 \<noteq> REMIO_HYP_ASK" "arg 2 = REMIO_HYP_NOTIFY"
      | (bad) "\<not> (arg 2 = REMIO_HYP_WRITE \<or> arg 2 = REMIO_HYP_READ)" "arg 2 \<noteq> REMIO_HYP_ASK" "arg 2 \<noteq> REMIO_HYP_NOTIFY"
      by blast
    then show ?thesis
    proof cases
      case rw
      have klen: "k < length (remio_device_list st)" using k by simp
      show ?thesis
        using inv klen
      proof (cases rule: remio_handle_rw_cases [where v = "arg 3" and i = "arg 4"])
        case (refused st1)
        with call rw show ?thesis unfolding body by simp
      next
        case (answered a)
        let ?st = "remio_request_update a (\<lambda>r. r\<lparr>rq_value := arg 3, rq_state := REMIO_STATE_COMPLETE\<rparr>) st"
        have "0 \<le> sint (arg 4)"
          using answered(3) inv sint_small by (simp add: remio_inv_def used_ok_def)
        then have "remio_get_request k (arg 4) ?st = (Some a, ?st)"
          using answered(1-3,5) objpool_get_by_id_obj [of "remio_request_pool st" "arg 4"] inv
          by (simp add: remio_get_request_def remio_inv_def used_ok_def)
        with call rw answered(6) have "remio_cpu_send_msg K
            (if arg 2 = REMIO_HYP_WRITE then REMIO_CPU_MSG_WRITE else REMIO_CPU_MSG_READ)
            (of_nat (rq_cpu_id (remio_requests st a))) (rdv_bind_key (remio_device_list st ! k)) (arg 4) 0 ?st = Inr st'"
          unfolding body k [THEN conjunct2] by (auto simp: obind_eq_Inr)
        from remio_answer_inv [OF inv klen answered(1,3,4,5) this] show ?thesis .
      qed
    next
      case ask
      with call have "remio_handle_ask K c (arg 1) (arg 3) k st = Inr (ret, st')" unfolding body by simp
      from remio_handle_ask_inv [OF inv _ this] k show ?thesis by simp
    next
      case notify
      let ?e = "rdv_frontend (remio_device_list st ! k)"
      from call notify have send: "remio_cpu_send_msg K REMIO_CPU_MSG_NOTIFY (re_cpu_id ?e) 0 0 (ucast (re_interrupt ?e)) st = Inr st'"
        unfolding body by (auto simp: obind_eq_Inr)
      then have lt: "unat (re_cpu_id ?e) < cpu_interfaces_num K"
        by (auto simp: remio_cpu_send_msg_def Let_def split: if_splits)
      have "end_ok (cpu_interfaces_num K) (runs st) ?e"
        using inv k by (auto simp: remio_inv_def devs_ok_def)
      from remio_end_target [OF this _ lt] inv have "runs st (unat (re_cpu_id ?e))" by (simp add: remio_inv_def)
      from remio_notify_inv [OF inv send this] show ?thesis .
    next
      case bad
      with call inv show ?thesis unfolding body by auto
    qed
  qed
qed

text \<open>An access by a running virtual processor always finds a free request.\<close>

lemma remio_create_request_inv:
  assumes inv: "remio_inv K st" and k: "k < length (remio_device_list st)" and act: "acts st c"
  obtains a r p where
    "remio_create_request c k acc st = Inr (True, remio_device_update k (\<lambda>d. d\<lparr>rdv_pending := rdv_pending d @ [a]\<rparr>)
       ((st\<lparr>remio_request_pool := p\<rparr>)\<lparr>remio_requests := (remio_requests st)(a := r)\<rparr>))"
    "rq_addr r = acc_addr acc" "rq_access_width r = acc_width acc" "rq_reg r = acc_reg acc" "rq_cpu_id r = c"
    "rq_state r = REMIO_STATE_PENDING" "rq_bind_key r = rdv_bind_key (remio_device_list st ! k)"
    "rq_op r = (if acc_write acc then REMIO_HYP_WRITE else REMIO_HYP_READ)"
    "rq_value r = (if acc_write acc then vcpu_readreg (acc_reg acc) (the (cpu_vcpu c st)) else 0)"
    "pending_ok p ((remio_requests st)(a := r)) ((remio_device_list st)[k := (remio_device_list st ! k)
       \<lparr>rdv_pending := rdv_pending (remio_device_list st ! k) @ [a]\<rparr>])"
    "used_ok (cpu_interfaces_num K) p ((remio_requests st)(a := r)) (runs st) ((acts st)(c := False))"
    "answers_ok p ((remio_requests st)(a := r)) ((remio_device_list st)[k := (remio_device_list st ! k)
       \<lparr>rdv_pending := rdv_pending (remio_device_list st ! k) @ [a]\<rparr>]) (answers K st)"
    "\<exists>n < num (remio_request_pool st). a = objpool_obj (remio_request_pool st) n \<and> a \<notin> objpool_used (remio_request_pool st) \<and>
       rq_id r = of_nat n \<and> p = (remio_request_pool st)\<lparr>op_bitmap := bitmap_set (op_bitmap (remio_request_pool st)) n\<rparr>"
proof -
  let ?p = "remio_request_pool st" and ?S = "remio_requests st"
  have parts: "base_ok K st" "pending_ok ?p ?S (remio_device_list st)"
    "used_ok (cpu_interfaces_num K) ?p ?S (runs st) (acts st)" "answers_ok ?p ?S (remio_device_list st) (answers K st)"
    using inv by (simp_all add: remio_inv_def)
  obtain v where v: "cpu_vcpu c st = Some v" using act by (auto simp: acts_def split: option.splits)
  then have run: "runs st c" by (auto simp: runs_def cpu_vcpu_def split: option.splits)
  then have lt: "c < cpu_interfaces_num K" using parts(1) by (simp add: base_ok_def)
  have ok: "objpool_ok ?p" using parts(3) by (simp add: used_ok_def)
  from ok show ?thesis
  proof (cases rule: objpool_alloc_with_id_cases)
    case none
    with used_card [of "cpu_interfaces_num K" ?p ?S "runs st" "acts st" c] parts(3) act lt show ?thesis by simp
  next
    case (some n)
    define r where "r = (?S (objpool_obj ?p n))
      \<lparr>rq_id := of_nat n, rq_addr := acc_addr acc, rq_reg := acc_reg acc, rq_access_width := acc_width acc,
       rq_state := REMIO_STATE_PENDING, rq_cpu_id := c, rq_bind_key := rdv_bind_key (remio_device_list st ! k),
       rq_op := (if acc_write acc then REMIO_HYP_WRITE else REMIO_HYP_READ),
       rq_value := (if acc_write acc then vcpu_readreg (acc_reg acc) v else 0)\<rparr>"
    have eq: "remio_create_request c k acc st = Inr (True, remio_device_update k
        (\<lambda>d. d\<lparr>rdv_pending := rdv_pending d @ [objpool_obj ?p n]\<rparr>)
        ((st\<lparr>remio_request_pool := ?p\<lparr>op_bitmap := bitmap_set (op_bitmap ?p) n\<rparr>\<rparr>)
          \<lparr>remio_requests := ?S(objpool_obj ?p n := r)\<rparr>))"
      unfolding remio_create_request_def some(3) using v
      by (simp add: remio_request_update_def r_def)
    have f: "rq_state r = REMIO_STATE_PENDING" "rq_id r = of_nat n" "rq_cpu_id r = c"
      "rq_bind_key r = rdv_bind_key (remio_device_list st ! k)" "rq_addr r = acc_addr acc"
      "rq_access_width r = acc_width acc" "rq_reg r = acc_reg acc"
      "rq_op r = (if acc_write acc then REMIO_HYP_WRITE else REMIO_HYP_READ)"
      "rq_value r = (if acc_write acc then vcpu_readreg (acc_reg acc) (the (cpu_vcpu c st)) else 0)"
      using v by (simp_all add: r_def)
    note created = created_ok [OF parts(2,3,4) k some(1,2) lt run act f(1-4)]
    show ?thesis
      by (rule that [OF eq f(5,6,7,3,1,4,8,9) created]) (use some f(2) in blast)
  qed
qed

lemma remio_mmio_inv:
  assumes inv: "remio_inv K st" and act: "acts st c" and vm: "cpu_vm c st = Some vm"
    and find: "remio_find_vm_dev_by_addr vm (acc_addr acc) (remio_device_list st) = Some k"
    and ready: "rdv_ready (remio_device_list st ! k)"
  shows "\<exists>st'. remio_mmio_emul_handler K c acc st = Some (Inr (True, st')) \<and> remio_inv K st' \<and> \<not> acts st' c"
proof -
  have k: "k < length (remio_device_list st)" by (rule remio_find_vm_dev_by_addr_some [OF find])
  have parts: "base_ok K st" "cpu_interfaces_num K < 2 ^ 64 - 1"
    "devs_ok (cpu_interfaces_num K) (runs st) (remio_device_list st)"
    using inv by (simp_all add: remio_inv_def)
  from inv k act obtain a r p where
    new: "remio_create_request c k acc st = Inr (True, remio_device_update k (\<lambda>d. d\<lparr>rdv_pending := rdv_pending d @ [a]\<rparr>)
       ((st\<lparr>remio_request_pool := p\<rparr>)\<lparr>remio_requests := (remio_requests st)(a := r)\<rparr>))"
    and ok: "pending_ok p ((remio_requests st)(a := r)) ((remio_device_list st)[k := (remio_device_list st ! k)
       \<lparr>rdv_pending := rdv_pending (remio_device_list st ! k) @ [a]\<rparr>])"
    "used_ok (cpu_interfaces_num K) p ((remio_requests st)(a := r)) (runs st) ((acts st)(c := False))"
    "answers_ok p ((remio_requests st)(a := r)) ((remio_device_list st)[k := (remio_device_list st ! k)
       \<lparr>rdv_pending := rdv_pending (remio_device_list st ! k) @ [a]\<rparr>]) (answers K st)"
    by (rule remio_create_request_inv [where acc = acc])
  let ?st1 = "remio_device_update k (\<lambda>d. d\<lparr>rdv_pending := rdv_pending d @ [a]\<rparr>)
       ((st\<lparr>remio_request_pool := p\<rparr>)\<lparr>remio_requests := (remio_requests st)(a := r)\<rparr>)"
  have view1: "runs ?st1 = runs st" "acts ?st1 = acts st" "answers K ?st1 = answers K st" "base_ok K ?st1"
    using parts(1) by simp_all
  let ?e = "rdv_backend (remio_device_list st ! k)"
  have dk: "remio_device_list st ! k \<in> set (remio_device_list st)" using k by simp
  with parts(3) ready have e: "unat (re_cpu_id ?e) < cpu_interfaces_num K" "runs st (unat (re_cpu_id ?e))"
    by (auto simp: devs_ok_def end_ok_def split: if_splits)
  obtain st2 where send: "remio_cpu_send_msg K REMIO_CPU_MSG_NOTIFY (re_cpu_id ?e) 0 0 (ucast (re_interrupt ?e)) ?st1 = Inr st2"
    using e(1) by (simp add: remio_cpu_send_msg_def)
  have "runs ?st1 (unat (re_cpu_id ?e))" using e(2) view1(1) by simp
  note view2 = send_view [OF send view1(4) this]
  obtain v i where "hv_vcpu st c = Some (v, i)" using vm by (auto simp: cpu_vm_def split: option.splits)
  then have "hv_vcpu st2 c \<noteq> None" using view2(2) view1(1) by (simp add: runs_def fun_eq_iff)
  then obtain st3 where off: "cpu_vcpu_update c (\<lambda>v. v\<lparr>vcpu_active := False\<rparr>) st2 = Inr st3"
    by (auto simp: cpu_vcpu_update_def)
  note view3 = vcpu_update_view [OF off view2(1)]
  have acts3: "acts st3 = (acts st)(c := False)" using view3(9) [of False] view2(3) view1(2) by simp
  have "answers K st3 = answers K st" using view3(3) view2(7) view1(3) by (simp add: remio_consts)
  then have "remio_inv K st3"
    using view3 view2 view1 parts ok devs_ok_pending [OF parts(3) k] acts3 by (simp add: remio_inv_def)
  moreover have "remio_mmio_emul_handler K c acc st = Some (Inr (True, st3))"
    using vm find ready new send off k by (simp add: remio_mmio_emul_handler_def)
  ultimately show ?thesis using acts3 by auto
qed

text \<open>Taking a message from the queue, whatever it says.\<close>

lemma remio_take_inv:
  fixes st :: "'a remio_scheme"
  assumes inv: "remio_inv K st" and box: "inbox st c = m # ms"
  shows "remio_inv K (snd (cpu_get_msg c st))" and "machine.more (snd (cpu_get_msg c st)) = machine.more st"
    and "is_answer K m \<Longrightarrow> \<exists>a \<in> objpool_used (remio_request_pool st). rq_state (remio_requests st a) = REMIO_STATE_COMPLETE \<and>
      rq_cpu_id (remio_requests st a) = c \<and> rq_bind_key (remio_requests st a) = ucast (remio_msg_bind_key (msg_data m)) \<and>
      rq_id (remio_requests st a) = ucast (remio_msg_request_id (msg_data m)) \<and>
      ucast (remio_msg_bind_key (msg_data m)) \<in> rdv_bind_key ` set (remio_device_list st)"
    and "is_answer K m \<Longrightarrow> answers K (snd (cpu_get_msg c st)) = (answers K st)(c := [])"
    and "msg_handler m = REMIO_CPUMSG_ID K \<Longrightarrow> runs st c"
proof -
  let ?st = "snd (cpu_get_msg c st)"
  have parts: "base_ok K st" "answers_ok (remio_request_pool st) (remio_requests st) (remio_device_list st) (answers K st)"
    using inv by (simp_all add: remio_inv_def)
  have "machine_ok st" using parts(1) by (simp add: base_ok_def)
  note get = cpu_get_msg_cases [OF this, of c]
  show more: "machine.more ?st = machine.more st" by (rule get(4))
  note cong = hv_more_cong [OF more] and rcong = remio_more_cong [OF hv_more_cong(4) [OF more]]
  have same: "runs ?st = runs st" "acts ?st = acts st" using cong by (simp_all add: runs_def acts_def fun_eq_iff)
  have base: "base_ok K ?st"
    using parts(1) get(2,3) same(1) cong(2) box by (auto simp: base_ok_def vcpus_apart_def split: if_splits)
  have ans: "answers K ?st d = (if d = c \<and> is_answer K m then tl (answers K st c) else answers K st d)" for d
    using box get(3) by (simp add: answers_def)
  have len: "length (answers K st c) \<le> 1" using parts(2) by (simp add: answers_ok_def)
  have head: "answers K st c = (remio_msg_bind_key (msg_data m), remio_msg_request_id (msg_data m)) # tl (answers K st c)"
    if "is_answer K m"
    using that box by (simp add: answers_def)
  have nil: "tl (answers K st c) = []" using len by (cases "answers K st c") auto
  show eq: "answers K ?st = (answers K st)(c := [])" if "is_answer K m"
    using that ans nil by (auto simp: fun_eq_iff)
  have "answers K ?st = answers K st" if "\<not> is_answer K m" using that ans by (simp add: fun_eq_iff)
  then have "answers_ok (remio_request_pool st) (remio_requests st) (remio_device_list st) (answers K ?st)"
    using parts(2) eq by (cases "is_answer K m") (auto simp: answers_ok_def)
  then show "remio_inv K ?st"
    using inv base by (simp add: remio_inv_def same rcong)
  show "\<exists>a \<in> objpool_used (remio_request_pool st). rq_state (remio_requests st a) = REMIO_STATE_COMPLETE \<and>
      rq_cpu_id (remio_requests st a) = c \<and> rq_bind_key (remio_requests st a) = ucast (remio_msg_bind_key (msg_data m)) \<and>
      rq_id (remio_requests st a) = ucast (remio_msg_request_id (msg_data m)) \<and>
      ucast (remio_msg_bind_key (msg_data m)) \<in> rdv_bind_key ` set (remio_device_list st)" if "is_answer K m"
  proof -
    have "(remio_msg_bind_key (msg_data m), remio_msg_request_id (msg_data m)) \<in> set (answers K st c)"
      using head [OF that] by (metis list.set_intros(1))
    with parts(2) show ?thesis unfolding answers_ok_def by blast
  qed
  show "runs st c" if "msg_handler m = REMIO_CPUMSG_ID K"
    using that parts(1) box by (auto simp: base_ok_def)
qed

lemma remio_post_work:
  fixes st :: "'a remio_scheme"
  assumes inv: "remio_inv K st" and run: "runs st c" and empty: "answers K st c = []"
    and a: "a \<in> objpool_used (remio_request_pool st)" "rq_state (remio_requests st a) = REMIO_STATE_COMPLETE"
      "rq_cpu_id (remio_requests st a) = c" "rq_bind_key (remio_requests st a) = ucast k"
      "rq_id (remio_requests st a) = ucast i" "ucast k \<in> rdv_bind_key ` set (remio_device_list st)"
  shows "\<exists>st'. remio_cpu_post_work c ev k i st = Inr (True, st') \<and> remio_inv K st' \<and>
    cpu_vcpu c st' = map_option (\<lambda>v. (if ev = REMIO_CPU_MSG_READ
      then vcpu_writereg (rq_reg (remio_requests st a)) (rq_value (remio_requests st a)) v else v)\<lparr>vcpu_active := True\<rparr>)
      (cpu_vcpu c st) \<and>
    remio_request_pool st' = objpool_free (remio_request_pool st) a"
proof -
  let ?r = "remio_requests st a"
  have parts: "base_ok K st" "cpu_interfaces_num K < 2 ^ 64 - 1"
    "devs_ok (cpu_interfaces_num K) (runs st) (remio_device_list st)"
    "pending_ok (remio_request_pool st) (remio_requests st) (remio_device_list st)"
    "used_ok (cpu_interfaces_num K) (remio_request_pool st) (remio_requests st) (runs st) (acts st)"
    "answers_ok (remio_request_pool st) (remio_requests st) (remio_device_list st) (answers K st)"
    using inv by (simp_all add: remio_inv_def)
  obtain d where d: "d < length (remio_device_list st)" "rdv_bind_key (remio_device_list st ! d) = ucast k"
    using a(6) by (auto simp: in_set_conv_nth)
  have find: "remio_find_dev_by_bind_key (remio_device_list st) (ucast k) = Some d"
    using remio_find_dev_distinct [OF _ d(1)] d(2) parts(3) by (simp add: devs_ok_def keys_ok_def)
  have "unat (rq_id ?r) < num (remio_request_pool st)" "a = objpool_obj (remio_request_pool st) (unat (rq_id ?r))"
    using parts(5) a(1) by (simp_all add: used_ok_def)
  moreover have "(ucast i :: u64) \<noteq> REMIO_NEXT_PENDING_REQUEST"
  proof
    assume "(ucast i :: u64) = REMIO_NEXT_PENDING_REQUEST"
    then have "bit (ucast i :: u64) 63" by (simp add: REMIO_NEXT_PENDING_REQUEST_def)
    then show False by (auto simp: bit_ucast_iff dest: bit_imp_le_length)
  qed
  ultimately have get: "remio_get_request d (ucast i) st = (Some a, st)"
    using remio_get_by_id [OF inv, of "ucast i" d] a(4,5) d(2) by simp
  define f where "f = (if ev = REMIO_CPU_MSG_READ then vcpu_writereg (rq_reg ?r) (rq_value ?r) else (\<lambda>v. v))"
  have act_f: "vcpu_active (f v) = vcpu_active v" for v by (simp add: f_def)
  have idup: "cpu_vcpu_update c (\<lambda>v. v) st = Inr st" using run
    by (auto simp: cpu_vcpu_update_def runs_def split: option.splits)
  obtain st1 where st1: "cpu_vcpu_update c f st = Inr st1"
    using run by (auto simp: cpu_vcpu_update_def runs_def split: option.splits)
  note view1 = vcpu_update_view [OF st1 parts(1)]
  define st2 where "st2 = (remio_request_update a (\<lambda>r. r\<lparr>rq_state := REMIO_STATE_FREE\<rparr>) st1)
    \<lparr>remio_request_pool := objpool_free (remio_request_pool st1) a\<rparr>"
  have view2: "base_ok K st2" "runs st2 = runs st" "acts st2 = acts st" "answers K st2 = answers K st"
    "remio_device_list st2 = remio_device_list st" "remio_request_pool st2 = objpool_free (remio_request_pool st) a"
    "remio_requests st2 = (remio_requests st)(a := ?r\<lparr>rq_state := REMIO_STATE_FREE\<rparr>)"
    using view1 view1(8) [OF act_f] by (simp_all add: st2_def remio_request_update_def)
  have cv2: "cpu_vcpu c st2 = cpu_vcpu c st1" by (simp add: st2_def remio_request_update_def)
  have "runs st2 c" using run view2(2) by simp
  then obtain st3 where st3: "cpu_vcpu_update c (\<lambda>v. v\<lparr>vcpu_active := True\<rparr>) st2 = Inr st3"
    by (auto simp: cpu_vcpu_update_def runs_def split: option.splits)
  note view3 = vcpu_update_view [OF st3 view2(1)]
  have cv: "cpu_vcpu c st3 = map_option (\<lambda>v. (f v)\<lparr>vcpu_active := True\<rparr>) (cpu_vcpu c st)"
    using cpu_vcpu_update_own [OF st3] cpu_vcpu_update_own [OF st1] cv2 by (simp add: option.map_comp o_def)
  have "(if ev = REMIO_CPU_MSG_READ then cpu_vcpu_update c (vcpu_writereg (rq_reg ?r) (rq_value ?r)) st else Inr st) = Inr st1"
    using st1 idup by (simp add: f_def split: if_splits)
  then have "remio_cpu_post_work c ev k i st = Inr (True, st3)"
    unfolding remio_cpu_post_work_def find option.case get Let_def prod.case
    using st3 by (simp add: st2_def Let_def)
  moreover have "answers K st = (answers K st)(c := [])" using empty by auto
  then have "remio_inv K st3"
    using view3 view2 view3(9) [of True] parts(2,3) freed_ok [OF parts(4,5,6) a(1,2)] a(3) by (simp add: remio_inv_def)
  ultimately show ?thesis using cv view3(5) view2(6) unfolding f_def by (intro exI [of _ st3]) (simp add: if_distrib [of "\<lambda>g. g _"] cong: if_cong)
qed

lemma remio_message:
  fixes st :: "'a remio_scheme"
  assumes inv: "remio_inv K st" and box: "inbox st c = m # ms" and id: "msg_handler m = REMIO_CPUMSG_ID K"
  shows "\<exists>st'. remio_cpu_msg_handler c (msg_event m) (msg_data m) (snd (cpu_get_msg c st)) = Inr st' \<and> remio_inv K st'"
proof -
  note take = remio_take_inv [OF inv box]
  let ?st = "snd (cpu_get_msg c st)"
  note cong = hv_more_cong [OF take(2)] and rcong = remio_more_cong [OF hv_more_cong(4) [OF take(2)]]
  have run: "runs ?st c" using take(5) [OF id] cong(2) by (simp add: runs_def)
  consider (answer) "is_answer K m" | (notify) "\<not> is_answer K m" "msg_event m = REMIO_CPU_MSG_NOTIFY"
    | (other) "\<not> is_answer K m" "msg_event m \<noteq> REMIO_CPU_MSG_NOTIFY" by blast
  then show ?thesis
  proof cases
    case answer
    obtain a where a: "a \<in> objpool_used (remio_request_pool ?st)" "rq_state (remio_requests ?st a) = REMIO_STATE_COMPLETE"
      "rq_cpu_id (remio_requests ?st a) = c" "rq_bind_key (remio_requests ?st a) = ucast (remio_msg_bind_key (msg_data m))"
      "rq_id (remio_requests ?st a) = ucast (remio_msg_request_id (msg_data m))"
      "ucast (remio_msg_bind_key (msg_data m)) \<in> rdv_bind_key ` set (remio_device_list ?st)"
      using take(3) [OF answer] rcong by auto
    have "answers K ?st c = []" using take(4) [OF answer] by simp
    from remio_post_work [OF take(1) run this a, of "msg_event m"] answer show ?thesis
      by (auto simp: remio_cpu_msg_handler_def is_answer_def)
  next
    case notify
    obtain st' where "cpu_vcpu_update c (vcpu_inject_irq (remio_msg_interrupt (msg_data m))) ?st = Inr st'"
      using run by (auto simp: cpu_vcpu_update_def runs_def split: option.splits)
    moreover from vcpu_update_inv [OF this take(1)] have "remio_inv K st'" by (simp add: vcpu_inject_irq_def)
    ultimately show ?thesis using notify by (simp add: remio_cpu_msg_handler_def remio_consts)
  next
    case other
    with id take(1) show ?thesis by (auto simp: remio_cpu_msg_handler_def is_answer_def)
  qed
qed

lemma remio_assign_inv:
  assumes inv: "remio_inv K st" and vm: "cpu_vm c st = Some vm"
  shows "remio_inv K (remio_assign_vm_cpus c vm st)"
proof -
  let ?N = "cpu_interfaces_num K" and ?devs = "map (remio_assign_dev c (vm_id vm)) (remio_device_list st)"
  have devs: "devs_ok ?N (runs st) (remio_device_list st)" and base: "base_ok K st" and N: "?N < 2 ^ 64 - 1"
    using inv by (simp_all add: remio_inv_def)
  have run: "runs st c" using vm by (auto simp: cpu_vm_def runs_def split: option.splits)
  then have c: "c < ?N" using base by (simp add: base_ok_def)
  then have uc: "unat (of_nat c :: u64) = c" using N by (simp add: unat_of_nat)
  have e: "end_ok ?N (runs st) (remio_assign_end c e)" if "end_ok ?N (runs st) e" for e
  proof (cases "re_ready e")
    case True
    with that run c uc show ?thesis by (auto simp: end_ok_def remio_assign_end_def min_def)
  next
    case False
    then have "re_cpu_id e = - 1" using that by (simp add: end_ok_def)
    then have "min (re_cpu_id e) (of_nat c) = of_nat c" by (simp add: min.absorb2)
    with run c uc show ?thesis by (simp add: end_ok_def remio_assign_end_def)
  qed
  have same: "rdv_bind_key (remio_assign_dev c v d) = rdv_bind_key d" "rdv_pending (remio_assign_dev c v d) = rdv_pending d" for v d
    by (simp_all add: remio_assign_dev_def Let_def)
  have "keys_ok ?devs" using devs by (auto simp: devs_ok_def keys_ok_def same o_def)
  moreover have "end_ok ?N (runs st) (rdv_backend (remio_assign_dev c (vm_id vm) d)) \<and>
      end_ok ?N (runs st) (rdv_frontend (remio_assign_dev c (vm_id vm) d)) \<and>
      (rdv_ready (remio_assign_dev c (vm_id vm) d) \<longrightarrow> re_ready (rdv_backend (remio_assign_dev c (vm_id vm) d)) \<and>
        re_ready (rdv_frontend (remio_assign_dev c (vm_id vm) d)))"
    if "d \<in> set (remio_device_list st)" for d
    using that devs e by (auto simp: devs_ok_def remio_assign_dev_def Let_def)
  ultimately have "devs_ok ?N (runs st) ?devs" by (simp add: devs_ok_def)
  moreover have "pend ?devs = pend (remio_device_list st)" by (simp add: pend_def o_def same)
  then have "pending_ok (remio_request_pool st) (remio_requests st) ?devs"
    using inv by (simp add: remio_inv_def pending_ok_def same)
  moreover have keys: "rdv_bind_key ` set ?devs = rdv_bind_key ` set (remio_device_list st)" by (simp add: image_image same)
  have "answers_ok (remio_request_pool st) (remio_requests st) ?devs (answers K st)"
    using inv unfolding remio_inv_def answers_ok_def keys by blast
  moreover have "runs (st\<lparr>remio_device_list := ?devs\<rparr>) = runs st" "acts (st\<lparr>remio_device_list := ?devs\<rparr>) = acts st"
    "answers K (st\<lparr>remio_device_list := ?devs\<rparr>) = answers K st" "base_ok K (st\<lparr>remio_device_list := ?devs\<rparr>) = base_ok K st"
    by (auto simp: runs_def acts_def answers_def base_ok_def inbox_def machine_ok_def vcpus_apart_def fun_eq_iff)
  ultimately show ?thesis using inv by (simp add: remio_assign_vm_cpus_def remio_inv_def)
qed

section \<open>All interleavings\<close>

text \<open>
  What else happens (guests that run, other hypercalls and handlers) leaves the protocol's part of
  the state, the virtual processors that wait, and the messages of the protocol as they are.
\<close>

definition remio_frame :: "remio_params \<Rightarrow> 'a remio_scheme \<Rightarrow> 'a remio_scheme \<Rightarrow> bool" where
  "remio_frame K st st' \<longleftrightarrow> machine_ok st' \<and> hv_vcpu st' = hv_vcpu st \<and> acts st' = acts st \<and>
     (\<forall>c. filter (\<lambda>m. msg_handler m = REMIO_CPUMSG_ID K) (inbox st' c) = filter (\<lambda>m. msg_handler m = REMIO_CPUMSG_ID K) (inbox st c)) \<and>
     remio_device_list st' = remio_device_list st \<and> remio_request_pool st' = remio_request_pool st \<and>
     remio_requests st' = remio_requests st"

inductive remio_step :: "remio_params \<Rightarrow> 'a remio_scheme \<Rightarrow> 'a remio_scheme \<Rightarrow> bool" for K where
  access: "acts st c \<Longrightarrow> remio_mmio_emul_handler K c acc st = Some (Inr (ok, st')) \<Longrightarrow> remio_step K st st'"
| call: "acts st c \<Longrightarrow> remio_hypercall K c st = Inr (ret, st') \<Longrightarrow> remio_step K st st'"
| message: "inbox st c = m # ms \<Longrightarrow> msg_handler m = REMIO_CPUMSG_ID K \<Longrightarrow>
    remio_cpu_msg_handler c (msg_event m) (msg_data m) (snd (cpu_get_msg c st)) = Inr st' \<Longrightarrow> remio_step K st st'"
| assign: "cpu_vm c st = Some vm \<Longrightarrow> remio_step K st (remio_assign_vm_cpus c vm st)"
| other: "remio_frame K st st' \<Longrightarrow> remio_step K st st'"

lemma remio_frame_inv:
  assumes "remio_inv K st" and f: "remio_frame K st st'"
  shows "remio_inv K st'"
proof -
  have run: "runs st' = runs st" using f by (simp add: remio_frame_def runs_def fun_eq_iff)
  have msgs: "filter (\<lambda>m. msg_handler m = REMIO_CPUMSG_ID K) (inbox st' c) = filter (\<lambda>m. msg_handler m = REMIO_CPUMSG_ID K) (inbox st c)" for c
    using f by (simp add: remio_frame_def)
  have split: "filter (is_answer K) xs = filter (\<lambda>m. msg_event m = REMIO_CPU_MSG_WRITE \<or> msg_event m = REMIO_CPU_MSG_READ)
      (filter (\<lambda>m. msg_handler m = REMIO_CPUMSG_ID K) xs)" for xs
    by (induction xs) (auto simp: is_answer_def)
  have ans: "answers K st' = answers K st" unfolding answers_def split msgs ..
  have "\<forall>m \<in> set (inbox st' c). msg_handler m = REMIO_CPUMSG_ID K \<longrightarrow> runs st c" for c
  proof -
    have "\<forall>m \<in> set (filter (\<lambda>m. msg_handler m = REMIO_CPUMSG_ID K) (inbox st c)). runs st c"
      using assms(1) by (auto simp: remio_inv_def base_ok_def)
    then show ?thesis unfolding msgs [symmetric] by auto
  qed
  then have "base_ok K st'"
    using assms(1) f run by (auto simp: remio_inv_def base_ok_def remio_frame_def vcpus_apart_def)
  with assms(1) f run ans show ?thesis by (simp add: remio_inv_def remio_frame_def)
qed

lemma remio_access_cases:
  assumes inv: "remio_inv K st" and act: "acts st c"
  shows "remio_mmio_emul_handler K c acc st = Some (Inr (False, st)) \<or> remio_mmio_emul_handler K c acc st = None \<or>
    (\<exists>st'. remio_mmio_emul_handler K c acc st = Some (Inr (True, st')) \<and> remio_inv K st' \<and> \<not> acts st' c)"
proof -
  obtain vm where vm: "cpu_vm c st = Some vm"
    using act by (auto simp: acts_def cpu_vcpu_def cpu_vm_def split: option.splits)
  show ?thesis
  proof (cases "remio_find_vm_dev_by_addr vm (acc_addr acc) (remio_device_list st)")
    case None
    with vm show ?thesis by (simp add: remio_mmio_emul_handler_def)
  next
    case (Some k)
    with vm remio_mmio_inv [OF inv act vm Some] show ?thesis
      by (cases "rdv_ready (remio_device_list st ! k)") (simp_all add: remio_mmio_emul_handler_def)
  qed
qed

lemma remio_step_inv:
  assumes "remio_step K st st'" and "remio_inv K st"
  shows "remio_inv K st'"
  using assms
proof cases
  case (access c acc ok)
  with remio_access_cases [OF assms(2), of c acc] assms(2) show ?thesis by auto
next
  case (call c ret)
  with remio_hypercall_inv [OF assms(2)] show ?thesis by simp
next
  case (message c m ms)
  with remio_message [OF assms(2), of c m ms] show ?thesis by auto
next
  case (assign c vm)
  with remio_assign_inv [OF assms(2)] show ?thesis by simp
next
  case other
  with remio_frame_inv [OF assms(2)] show ?thesis by simp
qed

text \<open>The state that \<open>remio_init\<close> leaves: no request, and nobody is registered yet.\<close>

definition remio_start :: "remio_params \<Rightarrow> 'a remio_scheme \<Rightarrow> bool" where
  "remio_start K st \<longleftrightarrow> machine_ok st \<and> vcpus_apart st \<and> (\<forall>c. inbox st c = []) \<and>
     (\<forall>c. runs st c \<longrightarrow> c < cpu_interfaces_num K) \<and> cpu_interfaces_num K \<le> num (remio_request_pool st) \<and>
     num (remio_request_pool st) \<le> 256 \<and> objpool_ok (remio_request_pool st) \<and> objpool_used (remio_request_pool st) = {} \<and>
     (\<forall>a \<in> objpool_objects (remio_request_pool st). rq_state (remio_requests st a) = REMIO_STATE_FREE) \<and>
     keys_ok (remio_device_list st) \<and> (\<forall>d \<in> set (remio_device_list st). \<not> rdv_ready d \<and> rdv_pending d = [] \<and>
       \<not> re_ready (rdv_backend d) \<and> \<not> re_ready (rdv_frontend d) \<and>
       re_cpu_id (rdv_backend d) = - 1 \<and> re_cpu_id (rdv_frontend d) = - 1)"

lemma pend_none: "\<forall>d \<in> set devs. rdv_pending d = [] \<Longrightarrow> pend devs = []"
  by (induction devs) (auto simp: pend_def)

lemma remio_start_inv: "remio_start K st \<Longrightarrow> cpu_interfaces_num K < 2 ^ 64 - 1 \<Longrightarrow> remio_inv K st"
  using pend_none [of "remio_device_list st"]
  by (auto simp: remio_start_def remio_inv_def base_ok_def devs_ok_def end_ok_def pending_ok_def used_ok_def
      answers_ok_def answers_def)

lemma remio_reach_inv:
  assumes "remio_start K st0" and "cpu_interfaces_num K < 2 ^ 64 - 1" and "(remio_step K)\<^sup>*\<^sup>* st0 st"
  shows "remio_inv K st"
  using assms(3) by (induction rule: rtranclp_induct) (auto simp: remio_start_inv [OF assms(1,2)] remio_step_inv)

section \<open>Properties\<close>


end
