(* ===== verification/Remio_Trip.thy ===== *)
theory Remio_Trip
  imports Remio_Inv
begin

text \<open>
  One access from the frontend to the backend and back: what each handler does on the state when
  nothing is in its way, and their composition. The backend's registers are set by its guest.
\<close>

section \<open>What the handlers leave alone\<close>

definition vm_same :: "'a hv_scheme \<Rightarrow> 'a hv_scheme \<Rightarrow> bool" where
  "vm_same st st' \<longleftrightarrow> hv_vcpu st' = hv_vcpu st \<and>
     (\<forall>v. vm_id (hv_vm st' v) = vm_id (hv_vm st v) \<and> vm_remio_devs (hv_vm st' v) = vm_remio_devs (hv_vm st v))"

lemma vm_same_trans: "vm_same a b \<Longrightarrow> vm_same b c \<Longrightarrow> vm_same a c"
  by (simp add: vm_same_def)

lemma vm_same_more: "machine.more a = machine.more b \<Longrightarrow> vm_same a b"
  using hv_more_cong [of a b] by (simp add: vm_same_def)

lemma vm_same_update: "cpu_vcpu_update c f st = Inr st' \<Longrightarrow> vm_same st st'"
  using cpu_vcpu_update_fields [of c f st st'] by (simp add: vm_same_def)

lemma remio_find_vm_dev_cong:
  "vm_id vm' = vm_id vm \<Longrightarrow> vm_remio_devs vm' = vm_remio_devs vm \<Longrightarrow>
     remio_find_vm_dev_by_bind_key vm' key devs = remio_find_vm_dev_by_bind_key vm key devs"
  by (simp add: remio_find_vm_dev_by_bind_key_def cong: option.case_cong)

text \<open>The search for a device looks only at keys and at the machines of the two ends.\<close>

lemma remio_find_dev_update:
  "k < length devs \<Longrightarrow> rdv_bind_key d = rdv_bind_key (devs ! k) \<Longrightarrow>
     remio_find_dev_by_bind_key (devs[k := d]) key = remio_find_dev_by_bind_key devs key"
proof (induction devs arbitrary: k)
  case (Cons x xs)
  then show ?case by (cases k) auto
qed simp

lemma remio_find_vm_dev_pending:
  assumes "k < length devs"
  shows "remio_find_vm_dev_by_bind_key vm key (devs[k := (devs ! k)\<lparr>rdv_pending := as\<rparr>]) =
    remio_find_vm_dev_by_bind_key vm key devs"
proof -
  have "remio_find_dev_by_bind_key (devs[k := (devs ! k)\<lparr>rdv_pending := as\<rparr>]) key = remio_find_dev_by_bind_key devs key"
    using assms by (simp add: remio_find_dev_update)
  moreover have "rdv_backend (devs[k := (devs ! k)\<lparr>rdv_pending := as\<rparr>] ! j) = rdv_backend (devs ! j)"
    "rdv_frontend (devs[k := (devs ! k)\<lparr>rdv_pending := as\<rparr>] ! j) = rdv_frontend (devs ! j)" for j
    using assms by (cases "j = k"; simp)+
  ultimately show ?thesis by (simp add: remio_find_vm_dev_by_bind_key_def cong: option.case_cong)
qed

section \<open>The guest of the backend\<close>

definition guest_sets :: "nat \<Rightarrow> (nat \<Rightarrow> u64) \<Rightarrow> 'a hv_scheme \<Rightarrow> 'a hv_scheme" where
  "guest_sets b regs st =
     (case cpu_vcpu_update b (\<lambda>v. v\<lparr>vcpu_regs := regs\<rparr>) st of Inl e \<Rightarrow> st | Inr st' \<Rightarrow> st')"

lemma guest_sets_view:
  fixes st :: "'a remio_scheme"
  assumes inv: "remio_inv K st" and run: "runs st b"
  shows "remio_inv K (guest_sets b regs st)" and "vm_same st (guest_sets b regs st)"
    and "c \<noteq> b \<Longrightarrow> cpu_vcpu c (guest_sets b regs st) = cpu_vcpu c st"
    and "cpu_vcpu b (guest_sets b regs st) = map_option (\<lambda>v. v\<lparr>vcpu_regs := regs\<rparr>) (cpu_vcpu b st)"
    and "inbox (guest_sets b regs st) = inbox st"
    and "remio_device_list (guest_sets b regs st) = remio_device_list st"
    and "remio_request_pool (guest_sets b regs st) = remio_request_pool st"
    and "remio_requests (guest_sets b regs st) = remio_requests st"
proof -
  obtain st' where u: "cpu_vcpu_update b (\<lambda>v. v\<lparr>vcpu_regs := regs\<rparr>) st = Inr st'"
    using run by (auto simp: cpu_vcpu_update_def runs_def split: option.splits)
  then have eq: "guest_sets b regs st = st'" by (simp add: guest_sets_def)
  have base: "base_ok K st" "vcpus_apart st" using inv by (auto simp: remio_inv_def base_ok_def)
  note view = vcpu_update_view [OF u base(1)]
  show "remio_inv K (guest_sets b regs st)" unfolding eq using vcpu_update_inv [OF u inv] by simp
  show "vm_same st (guest_sets b regs st)" unfolding eq by (rule vm_same_update [OF u])
  show "cpu_vcpu c (guest_sets b regs st) = cpu_vcpu c st" if "c \<noteq> b"
    unfolding eq by (rule cpu_vcpu_update_other [OF u base(2) that])
  show "cpu_vcpu b (guest_sets b regs st) = map_option (\<lambda>v. v\<lparr>vcpu_regs := regs\<rparr>) (cpu_vcpu b st)"
    unfolding eq by (rule cpu_vcpu_update_own [OF u])
  show "inbox (guest_sets b regs st) = inbox st" "remio_device_list (guest_sets b regs st) = remio_device_list st"
    "remio_request_pool (guest_sets b regs st) = remio_request_pool st"
    "remio_requests (guest_sets b regs st) = remio_requests st"
    unfolding eq using view by simp_all
qed

section \<open>The four handlers\<close>

lemma remio_access_effect:
  fixes st :: "'a remio_scheme"
  assumes inv: "remio_inv K st" and c: "cpu_vcpu c st = Some v" "vcpu_active v" and vm: "cpu_vm c st = Some vm"
    and find: "remio_find_vm_dev_by_addr vm (acc_addr acc) (remio_device_list st) = Some k"
    and ready: "rdv_ready (remio_device_list st ! k)"
    and away: "unat (re_cpu_id (rdv_backend (remio_device_list st ! k))) \<noteq> c"
  shows "\<exists>st' a. remio_mmio_emul_handler K c acc st = Some (Inr (True, st')) \<and> remio_inv K st' \<and> vm_same st st' \<and>
    cpu_vcpu c st' = Some (v\<lparr>vcpu_active := False\<rparr>) \<and> (\<forall>d. d \<noteq> c \<longrightarrow> cpu_vcpu d st' = cpu_vcpu d st) \<and>
    inbox st' c = inbox st c \<and>
    remio_device_list st' = (remio_device_list st)[k := (remio_device_list st ! k)
      \<lparr>rdv_pending := rdv_pending (remio_device_list st ! k) @ [a]\<rparr>] \<and>
    objpool_used (remio_request_pool st') = insert a (objpool_used (remio_request_pool st)) \<and>
    a \<notin> objpool_used (remio_request_pool st) \<and>
    (\<exists>n r. n < num (remio_request_pool st') \<and> a = objpool_obj (remio_request_pool st') n \<and>
      remio_requests st' = (remio_requests st)(a := r) \<and> rq_id r = of_nat n \<and>
      rq_addr r = acc_addr acc \<and> rq_access_width r = acc_width acc \<and> rq_reg r = acc_reg acc \<and> rq_cpu_id r = c \<and>
      rq_op r = (if acc_write acc then REMIO_HYP_WRITE else REMIO_HYP_READ) \<and>
      rq_value r = (if acc_write acc then vcpu_readreg (acc_reg acc) v else 0))"
proof -
  have k: "k < length (remio_device_list st)" by (rule remio_find_vm_dev_by_addr_some [OF find])
  have act: "acts st c" using c by (simp add: acts_def)
  have base: "base_ok K st" and devs: "devs_ok (cpu_interfaces_num K) (runs st) (remio_device_list st)"
    and pool: "objpool_ok (remio_request_pool st)"
    using inv by (simp_all add: remio_inv_def used_ok_def)
  from remio_mmio_inv [OF inv act vm find ready] obtain st3 where
    handler: "remio_mmio_emul_handler K c acc st = Some (Inr (True, st3))" and inv3: "remio_inv K st3" by blast
  from inv k act obtain a r p where
    new: "remio_create_request c k acc st = Inr (True, remio_device_update k (\<lambda>d. d\<lparr>rdv_pending := rdv_pending d @ [a]\<rparr>)
       ((st\<lparr>remio_request_pool := p\<rparr>)\<lparr>remio_requests := (remio_requests st)(a := r)\<rparr>))"
    and r: "rq_addr r = acc_addr acc" "rq_access_width r = acc_width acc" "rq_reg r = acc_reg acc" "rq_cpu_id r = c"
      "rq_op r = (if acc_write acc then REMIO_HYP_WRITE else REMIO_HYP_READ)"
      "rq_value r = (if acc_write acc then vcpu_readreg (acc_reg acc) (the (cpu_vcpu c st)) else 0)"
    and p: "\<exists>n < num (remio_request_pool st). a = objpool_obj (remio_request_pool st) n \<and> a \<notin> objpool_used (remio_request_pool st) \<and>
       rq_id r = of_nat n \<and> p = (remio_request_pool st)\<lparr>op_bitmap := bitmap_set (op_bitmap (remio_request_pool st)) n\<rparr>"
    by (rule remio_create_request_inv [where acc = acc])
  let ?st1 = "remio_device_update k (\<lambda>d. d\<lparr>rdv_pending := rdv_pending d @ [a]\<rparr>)
       ((st\<lparr>remio_request_pool := p\<rparr>)\<lparr>remio_requests := (remio_requests st)(a := r)\<rparr>)"
  let ?e = "rdv_backend (remio_device_list st ! k)"
  from handler vm find ready new k obtain st2 where
    send: "remio_cpu_send_msg K REMIO_CPU_MSG_NOTIFY (re_cpu_id ?e) 0 0 (ucast (re_interrupt ?e)) ?st1 = Inr st2"
    and off: "cpu_vcpu_update c (\<lambda>v. v\<lparr>vcpu_active := False\<rparr>) st2 = Inr st3"
    by (auto simp: remio_mmio_emul_handler_def obind_eq_Inr)
  let ?m = "\<lparr>msg_handler = REMIO_CPUMSG_ID K, msg_event = REMIO_CPU_MSG_NOTIFY,
     msg_data = remio_msg_raw (ucast (0 :: u64)) (ucast (0 :: u64)) (ucast (ucast (re_interrupt ?e) :: u64))\<rparr>"
  have st2: "st2 = cpu_send_msg (unat (re_cpu_id ?e)) ?m ?st1"
    using send by (auto simp: remio_cpu_send_msg_def Let_def split: if_splits)
  have base1: "base_ok K ?st1" using base by simp
  have more: "machine.more st2 = machine.more ?st1" unfolding st2 by (rule cpu_send_msg_more)
  note cong = hv_more_cong [OF more] and rcong = remio_more_cong [OF hv_more_cong(4) [OF more]]
  have "vm_same st ?st1" by (simp add: vm_same_def remio_device_update_def)
  with vm_same_more [OF more [symmetric]] vm_same_update [OF off] have same: "vm_same st st3" by (blast intro: vm_same_trans)
  have same1: "cpu_vcpu d ?st1 = cpu_vcpu d st" for d by (simp add: remio_device_update_def)
  have own: "cpu_vcpu c st3 = Some (v\<lparr>vcpu_active := False\<rparr>)"
    using cpu_vcpu_update_own [OF off] cong(5) same1 c(1) by simp
  have "vcpus_apart st2" using base cong(2) by (simp add: base_ok_def vcpus_apart_def remio_device_update_def)
  then have other: "cpu_vcpu d st3 = cpu_vcpu d st" if "d \<noteq> c" for d
    using cpu_vcpu_update_other [OF off _ that] cong(5) same1 by simp
  have "inbox st3 = inbox st2" using cpu_vcpu_update_fields(1) [OF off] inbox_interfaces by blast
  moreover have "inbox st2 c = inbox ?st1 c"
    unfolding st2 using base1 away by (subst inbox_cpu_send_msg) (auto simp: base_ok_def)
  moreover have "inbox ?st1 c = inbox st c" by (simp add: inbox_def remio_device_update_def)
  ultimately have box: "inbox st3 c = inbox st c" by simp
  note fields = remio_more_cong [OF cpu_vcpu_update_fields(6) [OF off]]
  have "remio_device_list st3 = (remio_device_list st)[k := (remio_device_list st ! k)
      \<lparr>rdv_pending := rdv_pending (remio_device_list st ! k) @ [a]\<rparr>]"
    and pool3: "remio_request_pool st3 = p" and reqs: "remio_requests st3 = (remio_requests st)(a := r)"
    using fields rcong by simp_all
  moreover obtain n where n: "n < num (remio_request_pool st)" "a = objpool_obj (remio_request_pool st) n"
    "a \<notin> objpool_used (remio_request_pool st)" "rq_id r = of_nat n"
    "p = (remio_request_pool st)\<lparr>op_bitmap := bitmap_set (op_bitmap (remio_request_pool st)) n\<rparr>" using p by blast
  moreover have "objpool_used p = insert a (objpool_used (remio_request_pool st))"
    unfolding n(2,5) by (rule objpool_used_set(1) [OF pool n(1)])
  moreover have "\<exists>n r. n < num p \<and> a = objpool_obj p n \<and> remio_requests st3 = (remio_requests st)(a := r) \<and> rq_id r = of_nat n \<and>
      rq_addr r = acc_addr acc \<and> rq_access_width r = acc_width acc \<and> rq_reg r = acc_reg acc \<and> rq_cpu_id r = c \<and>
      rq_op r = (if acc_write acc then REMIO_HYP_WRITE else REMIO_HYP_READ) \<and>
      rq_value r = (if acc_write acc then vcpu_readreg (acc_reg acc) v else 0)"
    using n(1,2,4,5) r c(1) reqs by (intro exI [of _ n] exI [of _ r]) simp
  ultimately show ?thesis using handler inv3 same own other box by (intro exI [of _ st3] exI [of _ a]) simp
qed

text \<open>The registers in which the backend finds the request.\<close>

definition regs_apart :: "hypercall_regs \<Rightarrow> bool" where
  "regs_apart R \<longleftrightarrow> inj_on (HYPCALL_OUT_ARG_REG R) {0..5} \<and>
     (\<forall>i \<le> 5. HYPCALL_IN_ARG_REG R i \<le> 30 \<and> HYPCALL_OUT_ARG_REG R i \<le> 30)"

lemma regs_apart_archs: "regs_apart hypercall_regs_armv8" "regs_apart hypercall_regs_riscv"
  by (auto simp: regs_apart_def hypercall_regs_armv8_def hypercall_regs_riscv_def inj_on_def)

lemma remio_ask_effect:
  fixes st :: "'a remio_scheme"
  assumes inv: "remio_inv K st" and b: "cpu_vcpu b st = Some vb" "cpu_vm b st = Some vm"
    and dm: "unat (hypercall_get_arg (remio_regs K) vb 0) < length (vm_remio_devs vm)"
      "remio_find_vm_dev_by_bind_key vm (rd_bind_key (vm_remio_devs vm ! unat (hypercall_get_arg (remio_regs K) vb 0)))
         (remio_device_list st) = Some k"
    and args: "hypercall_get_arg (remio_regs K) vb 1 = 0" "hypercall_get_arg (remio_regs K) vb 2 = REMIO_HYP_ASK"
      "hypercall_get_arg (remio_regs K) vb 3 = 0"
    and pending: "rdv_pending (remio_device_list st ! k) = a # as" and apart: "regs_apart (remio_regs K)"
  defines "r \<equiv> remio_requests st a" and "out \<equiv> HYPCALL_OUT_ARG_REG (remio_regs K)"
  shows "\<exists>st' regs. remio_hypercall K b st = Inr (0, st') \<and> remio_inv K st' \<and> vm_same st st' \<and>
    (\<forall>c. c \<noteq> b \<longrightarrow> cpu_vcpu c st' = cpu_vcpu c st) \<and> inbox st' = inbox st \<and>
    remio_device_list st' = (remio_device_list st)[k := (remio_device_list st ! k)\<lparr>rdv_pending := as\<rparr>] \<and>
    remio_request_pool st' = remio_request_pool st \<and>
    remio_requests st' = (remio_requests st)(a := r\<lparr>rq_state := REMIO_STATE_PROCESSING\<rparr>) \<and>
    cpu_vcpu b st' = Some (vb\<lparr>vcpu_regs := regs\<rparr>) \<and> regs (out 0) = rq_addr r \<and> regs (out 1) = rq_op r \<and>
    regs (out 2) = rq_value r \<and> regs (out 3) = rq_access_width r \<and> regs (out 4) = rq_id r \<and>
    regs (out 5) = of_bool (as \<noteq> [])"
proof -
  have k: "k < length (remio_device_list st)" using remio_find_vm_dev_some [OF dm(2)] by simp
  let ?st1 = "remio_request_update a (\<lambda>r. r\<lparr>rq_state := REMIO_STATE_PROCESSING\<rparr>)
    (remio_device_update k (\<lambda>d. d\<lparr>rdv_pending := as\<rparr>) st)"
  have nxt: "remio_get_request k REMIO_NEXT_PENDING_REQUEST st =
      (Some a, remio_device_update k (\<lambda>d. d\<lparr>rdv_pending := as\<rparr>) st) \<and>
    rq_state r = REMIO_STATE_PENDING \<and> remio_inv K ?st1"
    using inv k
  proof (cases rule: remio_get_next)
    case none
    have "rq_bind_key (remio_requests st a) = rdv_bind_key (remio_device_list st ! k)"
      using inv k pending by (auto simp: remio_inv_def pending_ok_def)
    with none pending k show ?thesis by (simp add: remio_get_request_def)
  next
    case (some a' as')
    then have "a' = a" "as' = as" using pending by simp_all
    with some(2,3,5) show ?thesis by (simp add: r_def)
  qed
  then have get: "remio_get_request k REMIO_NEXT_PENDING_REQUEST st =
      (Some a, remio_device_update k (\<lambda>d. d\<lparr>rdv_pending := as\<rparr>) st)"
    and state: "rq_state r = REMIO_STATE_PENDING" and inv1: "remio_inv K ?st1" by blast+
  define f where "f = (hypercall_set_ret (remio_regs K) 5 (of_bool (as \<noteq> [])) \<circ> hypercall_set_ret (remio_regs K) 4 (rq_id r) \<circ>
    hypercall_set_ret (remio_regs K) 3 (rq_access_width r) \<circ> hypercall_set_ret (remio_regs K) 2 (rq_value r) \<circ>
    hypercall_set_ret (remio_regs K) 1 (rq_op r) \<circ> hypercall_set_ret (remio_regs K) 0 (rq_addr r))"
  have "runs st b" using b(1) by (auto simp: runs_def cpu_vcpu_def split: option.splits)
  then have "runs ?st1 b" by simp
  from vcpu_update_runs [OF this, of f] obtain st' where u: "cpu_vcpu_update b f ?st1 = Inr st'" by blast
  have more: "remio_has_pending_request k (remio_device_update k (\<lambda>d. d\<lparr>rdv_pending := as\<rparr>) st) = (as \<noteq> [])"
    using k by (simp add: remio_has_pending_request_def)
  have "remio_handle_ask K b 0 0 k st = Inr (0, st')"
    unfolding remio_handle_ask_def get prod.case option.case Let_def more
    using state u by (simp add: r_def f_def HC_E_SUCCESS_def)
  then have call: "remio_hypercall K b st = Inr (0, st')"
    using b dm args by (simp add: remio_hypercall_def remio_consts)
  have act: "vcpu_active (f v) = vcpu_active v" for v by (simp add: f_def hypercall_set_ret_def)
  have parts: "base_ok K ?st1" "vcpus_apart ?st1" using inv1 by (auto simp: remio_inv_def base_ok_def)
  note view = vcpu_update_view [OF u parts(1)]
  have same1: "cpu_vcpu c ?st1 = cpu_vcpu c st" for c by (simp add: remio_request_update_def remio_device_update_def)
  have "vm_same st ?st1" by (simp add: vm_same_def remio_request_update_def remio_device_update_def)
  then have same: "vm_same st st'" using vm_same_update [OF u] by (blast intro: vm_same_trans)
  have other: "cpu_vcpu c st' = cpu_vcpu c st" if "c \<noteq> b" for c
    using cpu_vcpu_update_other [OF u parts(2) that] same1 by simp
  have box: "inbox st' = inbox st" using view(7) by (simp add: inbox_def remio_request_update_def remio_device_update_def fun_eq_iff)
  have own: "cpu_vcpu b st' = Some (f vb)" using cpu_vcpu_update_own [OF u] same1 b(1) by simp
  have neq: "out i = out j \<longleftrightarrow> i = j" if "i \<le> 5" "j \<le> 5" for i j
    using apart that unfolding regs_apart_def out_def by (auto dest: inj_onD)
  have lim: "\<not> out i > 30" if "i \<le> 5" for i using apart that unfolding regs_apart_def out_def by (simp add: not_less)
  have regs: "vcpu_regs (f vb) (out 0) = rq_addr r" "vcpu_regs (f vb) (out 1) = rq_op r" "vcpu_regs (f vb) (out 2) = rq_value r"
    "vcpu_regs (f vb) (out 3) = rq_access_width r" "vcpu_regs (f vb) (out 4) = rq_id r"
    "vcpu_regs (f vb) (out 5) = of_bool (as \<noteq> [])"
    unfolding f_def hypercall_set_ret_def vcpu_writereg_def out_def [symmetric] by (simp_all add: neq lim)
  have "f vb = vb\<lparr>vcpu_regs := vcpu_regs (f vb)\<rparr>" by (simp add: f_def hypercall_set_ret_def vcpu_writereg_def out_def [symmetric] lim)
  then show ?thesis
    using call vcpu_update_inv [OF u inv1 act] same other box view(4-6) own regs
    by (intro exI [of _ st'] exI [of _ "vcpu_regs (f vb)"]) (simp add: r_def)
qed

lemma remio_answer_effect:
  fixes st :: "'a remio_scheme"
  assumes inv: "remio_inv K st" and b: "cpu_vcpu b st = Some vb" "cpu_vm b st = Some vm"
    and dm: "unat (hypercall_get_arg (remio_regs K) vb 0) < length (vm_remio_devs vm)"
      "remio_find_vm_dev_by_bind_key vm (rd_bind_key (vm_remio_devs vm ! unat (hypercall_get_arg (remio_regs K) vb 0)))
         (remio_device_list st) = Some k"
    and opn: "hypercall_get_arg (remio_regs K) vb 2 = op0" "op0 = REMIO_HYP_READ \<or> op0 = REMIO_HYP_WRITE"
    and a: "a = objpool_obj (remio_request_pool st) n" "n < num (remio_request_pool st)"
      "rq_state (remio_requests st a) = REMIO_STATE_PROCESSING"
      "rq_bind_key (remio_requests st a) = rdv_bind_key (remio_device_list st ! k)"
    and id: "hypercall_get_arg (remio_regs K) vb 4 = of_nat n"
    and c: "rq_cpu_id (remio_requests st a) = c" "inbox st c = []"
  defines "val \<equiv> hypercall_get_arg (remio_regs K) vb 3"
  shows "\<exists>st' m. remio_hypercall K b st = Inr (0, st') \<and> remio_inv K st' \<and> vm_same st st' \<and>
    (\<forall>d. cpu_vcpu d st' = cpu_vcpu d st) \<and> inbox st' c = [m] \<and> is_answer K m \<and>
    (msg_event m = REMIO_CPU_MSG_READ \<longleftrightarrow> op0 = REMIO_HYP_READ) \<and>
    remio_request_pool st' = remio_request_pool st \<and>
    remio_requests st' = (remio_requests st)(a := (remio_requests st a)\<lparr>rq_value := val, rq_state := REMIO_STATE_COMPLETE\<rparr>)"
proof -
  have k: "k < length (remio_device_list st)"
    and key: "rd_bind_key (vm_remio_devs vm ! unat (hypercall_get_arg (remio_regs K) vb 0)) = rdv_bind_key (remio_device_list st ! k)"
    using remio_find_vm_dev_some [OF dm(2)] by simp_all
  have small: "num (remio_request_pool st) \<le> 256" and pool: "objpool_ok (remio_request_pool st)"
    and N: "cpu_interfaces_num K < 2 ^ 64 - 1" and mok: "machine_ok st"
    using inv by (simp_all add: remio_inv_def used_ok_def base_ok_def)
  have un: "unat (of_nat n :: u64) = n" using a(2) small by (simp add: unat_of_nat)
  have "rq_state (remio_requests st a) \<noteq> REMIO_STATE_FREE" using a(3) by simp
  from remio_processing [OF inv a(1,2) this] have cpu: "c < cpu_interfaces_num K" using c(1) by simp
  have uc: "unat (of_nat c :: u64) = c" using cpu N by (simp add: unat_of_nat)
  have sgn: "0 \<le> sint (of_nat n :: u64)" using sint_small [of "of_nat n"] un a(2) small by simp
  have next_id: "(of_nat n :: u64) \<noteq> REMIO_NEXT_PENDING_REQUEST" using sgn by (auto simp: REMIO_NEXT_PENDING_REQUEST_def)
  let ?st1 = "remio_request_update a (\<lambda>r. r\<lparr>rq_value := val, rq_state := REMIO_STATE_COMPLETE\<rparr>) st"
  have get: "remio_get_request k (of_nat n) st = (Some a, st)" "remio_get_request k (of_nat n) ?st1 = (Some a, ?st1)"
    using next_id sgn objpool_get_by_id_obj [OF pool, of "of_nat n"] un a(1,2,4) by (simp_all add: remio_get_request_def)
  define ev where "ev = (if op0 = REMIO_HYP_WRITE then REMIO_CPU_MSG_WRITE else REMIO_CPU_MSG_READ)"
  define m where "m = \<lparr>msg_handler = REMIO_CPUMSG_ID K, msg_event = ev,
    msg_data = remio_msg_raw (ucast (rdv_bind_key (remio_device_list st ! k))) (ucast (of_nat n :: u64)) (ucast (0 :: u64))\<rparr>"
  define st' where "st' = cpu_send_msg c m ?st1"
  have send: "remio_cpu_send_msg K ev (of_nat (rq_cpu_id (remio_requests st a))) (rdv_bind_key (remio_device_list st ! k)) (of_nat n) 0 ?st1
      = Inr st'"
    using cpu uc c(1) by (simp add: remio_cpu_send_msg_def st'_def m_def)
  have "remio_handle_rw val (of_nat n) k st = (True, ?st1)"
    using get(1) a(3) by (simp add: remio_handle_rw_def)
  then have call: "remio_hypercall K b st = Inr (0, st')"
    using b dm opn id send get(2) key
    by (auto simp: remio_hypercall_def val_def ev_def HC_E_SUCCESS_def)
  have inv': "remio_inv K st'"
    using remio_answer_inv [OF inv k, of a "of_nat n" ev val st'] a send un by simp
  have mok1: "machine_ok ?st1" using mok by (simp add: machine_ok_def remio_request_update_def)
  have box1: "inbox ?st1 = inbox st" by (simp add: inbox_def remio_request_update_def fun_eq_iff)
  have "cq_invar (cpu_interfaces ?st1 c)" using mok1 by (simp add: machine_ok_def)
  then have "0 < capacity (cpu_interfaces ?st1 c)" by (simp add: cq_invar_def)
  then have "has_room ?st1 c" using c(2) box1 by (simp add: has_room_def)
  then have box: "inbox st' c = [m]"
    unfolding st'_def using inbox_cpu_send_msg [OF mok1, of c m] box1 c(2) by simp
  have more: "machine.more st' = machine.more ?st1" unfolding st'_def by (rule cpu_send_msg_more)
  note cong = hv_more_cong [OF more] and rcong = remio_more_cong [OF hv_more_cong(4) [OF more]]
  have "vm_same st ?st1" by (simp add: vm_same_def remio_request_update_def)
  then have same: "vm_same st st'" using vm_same_more [OF more [symmetric]] by (blast intro: vm_same_trans)
  have vcpus: "cpu_vcpu d st' = cpu_vcpu d st" for d using cong(5) by (simp add: remio_request_update_def)
  have "is_answer K m" "msg_event m = REMIO_CPU_MSG_READ \<longleftrightarrow> op0 = REMIO_HYP_READ"
    using opn(2) by (auto simp: is_answer_def m_def ev_def remio_consts)
  then show ?thesis
    using call inv' same vcpus box rcong by (intro exI [of _ st'] exI [of _ m]) simp
qed

lemma remio_complete_effect:
  fixes st :: "'a remio_scheme"
  assumes inv: "remio_inv K st" and box: "inbox st c = [m]" and ans: "is_answer K m"
    and a: "a \<in> objpool_used (remio_request_pool st)" "rq_cpu_id (remio_requests st a) = c"
  shows "\<exists>st'. remio_cpu_msg_handler c (msg_event m) (msg_data m) (snd (cpu_get_msg c st)) = Inr st' \<and> remio_inv K st' \<and>
    cpu_vcpu c st' = map_option (\<lambda>v. (if msg_event m = REMIO_CPU_MSG_READ
      then vcpu_writereg (rq_reg (remio_requests st a)) (rq_value (remio_requests st a)) v else v)\<lparr>vcpu_active := True\<rparr>)
      (cpu_vcpu c st) \<and>
    objpool_used (remio_request_pool st') = objpool_used (remio_request_pool st) - {a}"
proof -
  note take = remio_take_inv [OF inv box]
  let ?st = "snd (cpu_get_msg c st)"
  note cong = hv_more_cong [OF take(2)] and rcong = remio_more_cong [OF hv_more_cong(4) [OF take(2)]]
  have id: "msg_handler m = REMIO_CPUMSG_ID K" using ans by (simp add: is_answer_def)
  have run: "runs ?st c" using take(5) [OF id] cong(2) by (simp add: runs_def)
  obtain a' where a': "a' \<in> objpool_used (remio_request_pool ?st)" "rq_state (remio_requests ?st a') = REMIO_STATE_COMPLETE"
    "rq_cpu_id (remio_requests ?st a') = c" "rq_bind_key (remio_requests ?st a') = ucast (remio_msg_bind_key (msg_data m))"
    "rq_id (remio_requests ?st a') = ucast (remio_msg_request_id (msg_data m))"
    "ucast (remio_msg_bind_key (msg_data m)) \<in> rdv_bind_key ` set (remio_device_list ?st)"
    using take(3) [OF ans] rcong by auto
  have inj: "inj_on (\<lambda>a. rq_cpu_id (remio_requests st a)) (objpool_used (remio_request_pool st))"
    and pool: "objpool_ok (remio_request_pool st)"
    using inv by (simp_all add: remio_inv_def used_ok_def)
  have eq: "a' = a" by (rule inj_onD [OF inj]) (use a a'(1,3) rcong in simp_all)
  have "answers K ?st c = []" using take(4) [OF ans] by simp
  from remio_post_work [OF take(1) run this a', of "msg_event m"] obtain st' where
    post: "remio_cpu_post_work c (msg_event m) (remio_msg_bind_key (msg_data m)) (remio_msg_request_id (msg_data m)) ?st = Inr (True, st')"
    and r: "remio_inv K st'" "remio_request_pool st' = objpool_free (remio_request_pool st) a"
    "cpu_vcpu c st' = map_option (\<lambda>v. (if msg_event m = REMIO_CPU_MSG_READ
      then vcpu_writereg (rq_reg (remio_requests st a)) (rq_value (remio_requests st a)) v else v)\<lparr>vcpu_active := True\<rparr>)
      (cpu_vcpu c st)"
    unfolding eq rcong cong by blast
  have "objpool_used (remio_request_pool st') = objpool_used (remio_request_pool st) - {a}"
    unfolding r(2) using objects.release_used [OF pool a(1)] by simp
  then show ?thesis using post r ans by (auto simp: remio_cpu_msg_handler_def is_answer_def)
qed

section \<open>The round trip\<close>

text \<open>
  C28: An access of a frontend to a remote device comes back with the backend's answer. On any
  reachable state in which the device is ready and idle, the access creates a request and stops
  the processor; the next \<open>ASK\<close> of the backend gets the address, the operation, the stored value (for a
  store), the width and the number of exactly this access and hears that no other is pending; its answer with
  that number puts one message into the queue of the processor of the access; and handling the
  message there makes the virtual processor run again, with the backend's value in the register
  of a load and otherwise unchanged, and gives the request back to the pool.
\<close>
theorem remote_io_round_trip:
  fixes st :: "'a remio_scheme"
  assumes start: "remio_start K st0" "cpu_interfaces_num K < 2 ^ 64 - 1" "(remio_step K)\<^sup>*\<^sup>* st0 st"
    and c: "cpu_vcpu c st = Some v" "vcpu_active v" "cpu_vm c st = Some vm" "inbox st c = []"
    and dev: "remio_find_vm_dev_by_addr vm (acc_addr acc) (remio_device_list st) = Some k"
      "rdv_ready (remio_device_list st ! k)" "rdv_pending (remio_device_list st ! k) = []"
      "unat (re_cpu_id (rdv_backend (remio_device_list st ! k))) \<noteq> c"
    and b: "cpu_vcpu b st = Some vb" "cpu_vm b st = Some vmb" "b \<noteq> c"
    and dm: "unat dm < length (vm_remio_devs vmb)"
      "remio_find_vm_dev_by_bind_key vmb (rd_bind_key (vm_remio_devs vmb ! unat dm)) (remio_device_list st) = Some k"
    and apart: "regs_apart (remio_regs K)"
    and ask: "ask (HYPCALL_IN_ARG_REG (remio_regs K) 0) = dm" "ask (HYPCALL_IN_ARG_REG (remio_regs K) 1) = 0"
      "ask (HYPCALL_IN_ARG_REG (remio_regs K) 2) = REMIO_HYP_ASK" "ask (HYPCALL_IN_ARG_REG (remio_regs K) 3) = 0"
    and op0: "op0 = (if acc_write acc then REMIO_HYP_WRITE else REMIO_HYP_READ)"
  shows "\<exists>st1 st2 i got. remio_mmio_emul_handler K c acc st = Some (Inr (True, st1)) \<and> \<not> acts st1 c \<and>
    remio_hypercall K b (guest_sets b ask st1) = Inr (0, st2) \<and> cpu_vcpu b st2 = Some (vb\<lparr>vcpu_regs := got\<rparr>) \<and>
    map (\<lambda>n. got (HYPCALL_OUT_ARG_REG (remio_regs K) n)) [0, 1, 2, 3, 4, 5] =
      [acc_addr acc, op0, if acc_write acc then vcpu_readreg (acc_reg acc) v else 0, acc_width acc, i, 0] \<and>
    (\<forall>ans. ans (HYPCALL_IN_ARG_REG (remio_regs K) 0) = dm \<and> ans (HYPCALL_IN_ARG_REG (remio_regs K) 2) = op0 \<and>
        ans (HYPCALL_IN_ARG_REG (remio_regs K) 4) = i \<longrightarrow>
      (\<exists>st3 m st4. remio_hypercall K b (guest_sets b ans st2) = Inr (0, st3) \<and> inbox st3 c = [m] \<and>
        remio_cpu_msg_handler c (msg_event m) (msg_data m) (snd (cpu_get_msg c st3)) = Inr st4 \<and>
        cpu_vcpu c st4 = Some (if acc_write acc then v
          else vcpu_writereg (acc_reg acc) (ans (HYPCALL_IN_ARG_REG (remio_regs K) 3)) v) \<and>
        objpool_used (remio_request_pool st4) = objpool_used (remio_request_pool st)))"
proof -
  let ?in = "HYPCALL_IN_ARG_REG (remio_regs K)" and ?out = "HYPCALL_OUT_ARG_REG (remio_regs K)"
  have k: "k < length (remio_device_list st)" by (rule remio_find_vm_dev_by_addr_some [OF dev(1)])
  have inv: "remio_inv K st" by (rule remio_reach_inv [OF start])
  obtain wb ib where hb: "hv_vcpu st b = Some (wb, ib)" "vmb = hv_vm st wb"
    using b(2) by (auto simp: cpu_vm_def split: option.splits)
  have vmb: "\<exists>vm'. cpu_vm b st' = Some vm' \<and> vm_id vm' = vm_id vmb \<and> vm_remio_devs vm' = vm_remio_devs vmb"
    if "vm_same st st'" for st' :: "'a remio_scheme"
    using that hb by (simp add: vm_same_def cpu_vm_def)
  have runs_b: "runs st' b" if "vm_same st st'" for st' :: "'a remio_scheme"
    using that hb by (simp add: vm_same_def runs_def)
  from remio_access_effect [OF inv c(1,2,3) dev(1,2,4)] obtain st1 a n r where
    s1: "remio_mmio_emul_handler K c acc st = Some (Inr (True, st1))" "remio_inv K st1" "vm_same st st1"
      "cpu_vcpu c st1 = Some (v\<lparr>vcpu_active := False\<rparr>)" "\<forall>d. d \<noteq> c \<longrightarrow> cpu_vcpu d st1 = cpu_vcpu d st"
      "inbox st1 c = inbox st c"
      "remio_device_list st1 = (remio_device_list st)[k := (remio_device_list st ! k)\<lparr>rdv_pending := [a]\<rparr>]"
      "objpool_used (remio_request_pool st1) = insert a (objpool_used (remio_request_pool st))"
      "a \<notin> objpool_used (remio_request_pool st)" "n < num (remio_request_pool st1)"
      "a = objpool_obj (remio_request_pool st1) n"
    and r: "remio_requests st1 = (remio_requests st)(a := r)" "rq_id r = of_nat n"
      "rq_addr r = acc_addr acc" "rq_access_width r = acc_width acc" "rq_reg r = acc_reg acc" "rq_cpu_id r = c"
      "rq_op r = op0" "rq_value r = (if acc_write acc then vcpu_readreg (acc_reg acc) v else 0)"
    unfolding op0 dev(3) append_Nil by blast
  define sa where "sa = guest_sets b ask st1"
  note ga = guest_sets_view [OF s1(2) runs_b [OF s1(3)], where regs = ask, folded sa_def]
  have same_a: "vm_same st sa" using vm_same_trans [OF s1(3) ga(2)] .
  have arg: "hypercall_get_arg (remio_regs K) (vb\<lparr>vcpu_regs := x\<rparr>) i = x (?in i)" if "i \<le> 5" for x i
    using apart that by (simp add: hypercall_get_arg_def vcpu_readreg_def regs_apart_def not_less [symmetric])
  have vb_a: "cpu_vcpu b sa = Some (vb\<lparr>vcpu_regs := ask\<rparr>)" using ga(4) s1(5) b(1,3) by simp
  obtain vma where vma: "cpu_vm b sa = Some vma" "vm_id vma = vm_id vmb" "vm_remio_devs vma = vm_remio_devs vmb"
    using vmb [OF same_a] by blast
  have find1: "remio_find_vm_dev_by_bind_key w key (remio_device_list st1) = remio_find_vm_dev_by_bind_key w key (remio_device_list st)" for w key
    unfolding s1(7) by (rule remio_find_vm_dev_pending [OF k])
  have dm_a: "unat (hypercall_get_arg (remio_regs K) (vb\<lparr>vcpu_regs := ask\<rparr>) 0) < length (vm_remio_devs vma)"
    "remio_find_vm_dev_by_bind_key vma (rd_bind_key (vm_remio_devs vma !
       unat (hypercall_get_arg (remio_regs K) (vb\<lparr>vcpu_regs := ask\<rparr>) 0))) (remio_device_list sa) = Some k"
    using dm ask(1) vma(3) remio_find_vm_dev_cong [OF vma(2,3)] find1 ga(6) by (simp_all add: arg)
  have args_a: "hypercall_get_arg (remio_regs K) (vb\<lparr>vcpu_regs := ask\<rparr>) 1 = 0"
    "hypercall_get_arg (remio_regs K) (vb\<lparr>vcpu_regs := ask\<rparr>) 2 = REMIO_HYP_ASK"
    "hypercall_get_arg (remio_regs K) (vb\<lparr>vcpu_regs := ask\<rparr>) 3 = 0"
    using ask by (simp_all add: arg)
  have pend_a: "rdv_pending (remio_device_list sa ! k) = a # []" using ga(6) s1(7) k by simp
  from remio_ask_effect [OF ga(1) vb_a vma(1) dm_a args_a pend_a apart] obtain st2 got where
    s2: "remio_hypercall K b sa = Inr (0, st2)" "remio_inv K st2" "vm_same sa st2"
      "\<forall>d. d \<noteq> b \<longrightarrow> cpu_vcpu d st2 = cpu_vcpu d sa" "inbox st2 = inbox sa"
      "remio_device_list st2 = (remio_device_list sa)[k := (remio_device_list sa ! k)\<lparr>rdv_pending := []\<rparr>]"
      "remio_request_pool st2 = remio_request_pool sa"
      "remio_requests st2 = (remio_requests sa)(a := (remio_requests sa a)\<lparr>rq_state := REMIO_STATE_PROCESSING\<rparr>)"
    and got: "cpu_vcpu b st2 = Some (vb\<lparr>vcpu_regs := ask, vcpu_regs := got\<rparr>)" "got (?out 0) = rq_addr (remio_requests sa a)"
      "got (?out 1) = rq_op (remio_requests sa a)" "got (?out 2) = rq_value (remio_requests sa a)"
      "got (?out 3) = rq_access_width (remio_requests sa a)" "got (?out 4) = rq_id (remio_requests sa a)"
      "got (?out 5) = 0" by auto
  have ra: "remio_requests sa a = r" using ga(8) r(1) by simp
  have got_map: "map (\<lambda>n. got (?out n)) [0, 1, 2, 3, 4, 5] =
      [acc_addr acc, op0, if acc_write acc then vcpu_readreg (acc_reg acc) v else 0, acc_width acc, of_nat n, 0]"
    using got(2-7) unfolding ra r(2-8) by simp
  have trip: "\<exists>st3 m st4. remio_hypercall K b (guest_sets b ans st2) = Inr (0, st3) \<and> inbox st3 c = [m] \<and>
        remio_cpu_msg_handler c (msg_event m) (msg_data m) (snd (cpu_get_msg c st3)) = Inr st4 \<and>
        cpu_vcpu c st4 = Some (if acc_write acc then v else vcpu_writereg (acc_reg acc) (ans (?in 3)) v) \<and>
        objpool_used (remio_request_pool st4) = objpool_used (remio_request_pool st)"
    if ans: "ans (?in 0) = dm" "ans (?in 2) = op0" "ans (?in 4) = of_nat n" for ans
  proof -
    have same_2: "vm_same st st2" using vm_same_trans [OF same_a s2(3)] .
    define sb where "sb = guest_sets b ans st2"
    note gb = guest_sets_view [OF s2(2) runs_b [OF same_2], where regs = ans, folded sb_def]
    have same_b: "vm_same st sb" using vm_same_trans [OF same_2 gb(2)] .
    have vb_b: "cpu_vcpu b sb = Some (vb\<lparr>vcpu_regs := ans\<rparr>)" using gb(4) got(1) by simp
    obtain vmb' where vmb': "cpu_vm b sb = Some vmb'" "vm_id vmb' = vm_id vmb" "vm_remio_devs vmb' = vm_remio_devs vmb"
      using vmb [OF same_b] by blast
    have find2: "remio_find_vm_dev_by_bind_key w key (remio_device_list sb) = remio_find_vm_dev_by_bind_key w key (remio_device_list st)" for w key
      unfolding gb(6) s2(6) using remio_find_vm_dev_pending [of k "remio_device_list sa"] ga(6) s1(7) k find1 by simp
    have dm_b: "unat (hypercall_get_arg (remio_regs K) (vb\<lparr>vcpu_regs := ans\<rparr>) 0) < length (vm_remio_devs vmb')"
      "remio_find_vm_dev_by_bind_key vmb' (rd_bind_key (vm_remio_devs vmb' !
         unat (hypercall_get_arg (remio_regs K) (vb\<lparr>vcpu_regs := ans\<rparr>) 0))) (remio_device_list sb) = Some k"
      using dm ans(1) vmb'(3) remio_find_vm_dev_cong [OF vmb'(2,3)] find2 by (simp_all add: arg)
    have op_b: "hypercall_get_arg (remio_regs K) (vb\<lparr>vcpu_regs := ans\<rparr>) 2 = op0" "op0 = REMIO_HYP_READ \<or> op0 = REMIO_HYP_WRITE"
      "hypercall_get_arg (remio_regs K) (vb\<lparr>vcpu_regs := ans\<rparr>) 4 = of_nat n"
      using ans op0 by (simp_all add: arg)
    have pool_b: "remio_request_pool sb = remio_request_pool st1" using gb(7) s2(7) ga(7) by simp
    have req_b: "remio_requests sb a = r\<lparr>rq_state := REMIO_STATE_PROCESSING\<rparr>" using gb(8) s2(8) ra by simp
    have "rq_bind_key r = rdv_bind_key (remio_device_list st ! k)"
      using s1(2) s1(7) k r(1) by (auto simp: remio_inv_def pending_ok_def dest!: set_update_memI [of k _ "(remio_device_list st ! k)\<lparr>rdv_pending := [a]\<rparr>"])
    then have a_b: "a = objpool_obj (remio_request_pool sb) n" "n < num (remio_request_pool sb)"
      "rq_state (remio_requests sb a) = REMIO_STATE_PROCESSING"
      "rq_bind_key (remio_requests sb a) = rdv_bind_key (remio_device_list sb ! k)"
      using s1(10,11) req_b pool_b gb(6) s2(6) ga(6) s1(7) k by simp_all
    have c_b: "rq_cpu_id (remio_requests sb a) = c" "inbox sb c = []"
      using req_b r(6) gb(5) s2(5) ga(5) s1(6) c(4) by simp_all
    from remio_answer_effect [OF gb(1) vb_b vmb'(1) dm_b op_b(1,2) a_b op_b(3) c_b] obtain st3 m where
      s3: "remio_hypercall K b sb = Inr (0, st3)" "remio_inv K st3" "\<forall>d. cpu_vcpu d st3 = cpu_vcpu d sb"
        "inbox st3 c = [m]" "is_answer K m" "msg_event m = REMIO_CPU_MSG_READ \<longleftrightarrow> op0 = REMIO_HYP_READ"
        "remio_request_pool st3 = remio_request_pool sb"
        "remio_requests st3 = (remio_requests sb)(a := (remio_requests sb a)\<lparr>rq_value := ans (?in 3), rq_state := REMIO_STATE_COMPLETE\<rparr>)"
      by (auto simp: arg)
    have a3: "a \<in> objpool_used (remio_request_pool st3)" "rq_cpu_id (remio_requests st3 a) = c"
      using s3(7,8) pool_b s1(8) c_b(1) by simp_all
    from remio_complete_effect [OF s3(2,4,5) a3] obtain st4 where
      s4: "remio_cpu_msg_handler c (msg_event m) (msg_data m) (snd (cpu_get_msg c st3)) = Inr st4"
        "cpu_vcpu c st4 = map_option (\<lambda>v. (if msg_event m = REMIO_CPU_MSG_READ
          then vcpu_writereg (rq_reg (remio_requests st3 a)) (rq_value (remio_requests st3 a)) v else v)\<lparr>vcpu_active := True\<rparr>)
          (cpu_vcpu c st3)"
        "objpool_used (remio_request_pool st4) = objpool_used (remio_request_pool st3) - {a}" by blast
    have c3: "cpu_vcpu c st3 = Some (v\<lparr>vcpu_active := False\<rparr>)"
      using s3(3) gb(3) s2(4) ga(3) s1(4) b(3) by simp
    have "cpu_vcpu c st4 = Some (if acc_write acc then v else vcpu_writereg (acc_reg acc) (ans (?in 3)) v)"
      using s4(2) c3 s3(6,8) req_b r(5) c(2) op0 by (simp add: vcpu_writereg_def remio_consts)
    moreover have "objpool_used (remio_request_pool st4) = objpool_used (remio_request_pool st)"
      using s4(3) s3(7) pool_b s1(8,9) by simp
    ultimately show ?thesis using s3(1,4) s4(1) unfolding sb_def by blast
  qed
  have facts: "\<not> acts st1 c" "cpu_vcpu b st2 = Some (vb\<lparr>vcpu_regs := got\<rparr>)"
    using s1(4) got(1) by (simp_all add: acts_def)
  show ?thesis
    by (rule exI [of _ st1], rule exI [of _ st2], rule exI [of _ "of_nat n"], rule exI [of _ got], intro conjI allI impI)
      (fact s1(1) facts(1) s2(1) [unfolded sa_def] facts(2) got_map | elim conjE, rule trip, assumption+)+
qed

section \<open>An answer without a number\<close>

text \<open>
  The number \<open>REMIO_NEXT_PENDING_REQUEST\<close> is meant for \<open>ASK\<close>, but a backend can give it in an
  answer. The call then fails, and the first pending request is gone from its device: it stays in
  use and pending, on no list and with no message sent, so that the processor which made the access
  waits for an answer that cannot be given.
\<close>
theorem answer_with_next_loses_request:
  fixes st :: "'a remio_scheme"
  assumes start: "remio_start K st0" "cpu_interfaces_num K < 2 ^ 64 - 1" "(remio_step K)\<^sup>*\<^sup>* st0 st"
    and b: "cpu_vcpu b st = Some vb" "cpu_vm b st = Some vm"
    and dm: "unat (hypercall_get_arg (remio_regs K) vb 0) < length (vm_remio_devs vm)"
      "remio_find_vm_dev_by_bind_key vm (rd_bind_key (vm_remio_devs vm ! unat (hypercall_get_arg (remio_regs K) vb 0)))
         (remio_device_list st) = Some k"
    and args: "hypercall_get_arg (remio_regs K) vb 2 = REMIO_HYP_READ \<or> hypercall_get_arg (remio_regs K) vb 2 = REMIO_HYP_WRITE"
      "hypercall_get_arg (remio_regs K) vb 4 = - 1"
    and pending: "rdv_pending (remio_device_list st ! k) = a # as"
  shows "\<exists>st'. remio_hypercall K b st = Inr (- HC_E_FAILURE, st') \<and>
    rdv_pending (remio_device_list st' ! k) = as \<and> a \<notin> set (pend (remio_device_list st')) \<and>
    a \<in> objpool_used (remio_request_pool st') \<and> rq_state (remio_requests st' a) = REMIO_STATE_PENDING \<and>
    \<not> acts st' (rq_cpu_id (remio_requests st' a)) \<and> inbox st' = inbox st"
proof -
  have inv: "remio_inv K st" by (rule remio_reach_inv [OF start])
  have k: "k < length (remio_device_list st)" using remio_find_vm_dev_some [OF dm(2)] by simp
  let ?st = "remio_device_update k (\<lambda>d. d\<lparr>rdv_pending := as\<rparr>) st"
  have dk: "remio_device_list st ! k \<in> set (remio_device_list st)" using k by simp
  then have a: "a \<in> objpool_used (remio_request_pool st)" "rq_state (remio_requests st a) = REMIO_STATE_PENDING"
    "rq_bind_key (remio_requests st a) = rdv_bind_key (remio_device_list st ! k)"
    using inv pending by (auto simp: remio_inv_def pending_ok_def)
  have get: "remio_get_request k (- 1) st = (Some a, ?st)"
    using pending a(3) k by (simp add: remio_get_request_def REMIO_NEXT_PENDING_REQUEST_def)
  have "remio_handle_rw v (- 1) k st = (False, ?st)" for v
    using get a(2) by (simp add: remio_handle_rw_def)
  then have call: "remio_hypercall K b st = Inr (- HC_E_FAILURE, ?st)"
    using b dm args by (auto simp: remio_hypercall_def)
  have stop: "\<not> acts st (rq_cpu_id (remio_requests st a))" using inv a(1) by (auto simp: remio_inv_def used_ok_def)
  obtain us vs where pd: "pend (remio_device_list st) = us @ (a # as) @ vs" "pend (remio_device_list ?st) = us @ as @ vs"
    using pend_update [OF k] pending by fastforce
  have "distinct (pend (remio_device_list st))" using inv by (simp add: remio_inv_def pending_ok_def)
  then have "a \<notin> set (pend (remio_device_list ?st))" unfolding pd by auto
  moreover have "inbox ?st = inbox st" by (simp add: inbox_def remio_device_update_def fun_eq_iff)
  ultimately show ?thesis using call k a stop by (intro exI [of _ ?st]) simp
qed

end
