(* ===== verification/Remio_Init.thy ===== *)
theory Remio_Init
  imports Remio_Inv
begin

text \<open>
  The creation of the Remote I/O devices from the configuration, \<open>remio_init\<close>, and the dispatch of
  the hypercalls, \<open>src/src/core/hypercall.c\<close>. The type of a device has only its two values, so that
  the branches for an unknown type do not occur.
\<close>

section \<open>Data that \<open>objpool_init\<close> set to zero\<close>

definition zero_end :: remio_end where
  "zero_end = \<lparr>re_bind_key = 0, re_cpu_id = 0, re_vm_id = 0, re_interrupt = 0, re_shmem_base = 0, re_shmem_size = 0,
     re_shmem_id = 0, re_ready = False\<rparr>"

definition zero_request :: remio_request where
  "zero_request = \<lparr>rq_id = 0, rq_bind_key = 0, rq_addr = 0, rq_access_width = 0, rq_op = 0, rq_value = 0,
     rq_reg = 0, rq_cpu_id = 0, rq_state = REMIO_STATE_FREE\<rparr>"

section \<open>Linking backends to frontends\<close>

record remio_links =
  ri_devices :: "remio_device list"
  ri_pool :: objpool
  ri_backends :: nat
  ri_frontends :: nat

fun remio_link_search :: "remio_device list \<Rightarrow> remio_dev \<Rightarrow> nat option outcome" where
  "remio_link_search [] dev = Inr None"
| "remio_link_search (d # ds) dev =
     (if rd_bind_key dev = re_bind_key (rdv_backend d) \<and> rd_type dev = REMIO_DEV_BACKEND \<or>
         rd_bind_key dev = re_bind_key (rdv_frontend d) \<and> rd_type dev = REMIO_DEV_FRONTEND
      then Inl (ERROR ''Failed to link backend to the frontend, more than one was atributed to the Remote I/O device'')
      else if rd_type dev = REMIO_DEV_BACKEND \<and> rd_bind_key dev = re_bind_key (rdv_frontend d) \<or>
              rd_type dev = REMIO_DEV_FRONTEND \<and> rd_bind_key dev = re_bind_key (rdv_backend d)
      then Inr (Some 0)
      else obind (remio_link_search ds dev) (\<lambda>k. Inr (map_option Suc k)))"

definition remio_new_device :: "u64 \<Rightarrow> remio_device" where
  "remio_new_device key = \<lparr>rdv_ready = False, rdv_bind_key = key, rdv_backend = zero_end\<lparr>re_bind_key := - 1\<rparr>,
     rdv_frontend = zero_end\<lparr>re_bind_key := - 1\<rparr>, rdv_pending = []\<rparr>"

definition remio_link_end :: "remio_dev \<Rightarrow> remio_end \<Rightarrow> remio_end" where
  "remio_link_end dev e = e\<lparr>re_bind_key := rd_bind_key dev, re_shmem_base := rd_shmem_base dev,
     re_shmem_size := rd_shmem_size dev, re_shmem_id := rd_shmem_id dev, re_ready := False\<rparr>"

definition remio_link_dev :: "remio_dev \<Rightarrow> remio_links \<Rightarrow> remio_links outcome" where
  "remio_link_dev dev s =
     obind (remio_link_search (ri_devices s) dev) (\<lambda>found.
     obind (case found of
              Some k \<Rightarrow> Inr (k, s)
            | None \<Rightarrow>
                (case objpool_alloc (ri_pool s) of
                   (None, p) \<Rightarrow> Inl (ERROR ''Failed creating Remote I/O device'')
                 | (Some device, p) \<Rightarrow>
                     Inr (length (ri_devices s),
                       s\<lparr>ri_pool := p, ri_devices := ri_devices s @ [remio_new_device (rd_bind_key dev)]\<rparr>))) (\<lambda>(k, s).
     let d = ri_devices s ! k
     in case rd_type dev of
          REMIO_DEV_BACKEND \<Rightarrow>
            Inr (s\<lparr>ri_devices := (ri_devices s)[k := d\<lparr>rdv_backend := remio_link_end dev (rdv_backend d)\<rparr>],
                   ri_backends := ri_backends s + 1\<rparr>)
        | REMIO_DEV_FRONTEND \<Rightarrow>
            Inr (s\<lparr>ri_devices := (ri_devices s)[k := d\<lparr>rdv_frontend := remio_link_end dev (rdv_frontend d)\<rparr>],
                   ri_frontends := ri_frontends s + 1\<rparr>)))"

section \<open>Checks and the machines of the ends\<close>

fun remio_check_shmems :: "remio_device list \<Rightarrow> unit outcome" where
  "remio_check_shmems [] = Inr ()"
| "remio_check_shmems (d # ds) =
     (if re_shmem_base (rdv_backend d) \<noteq> re_shmem_base (rdv_frontend d) \<or>
         re_shmem_size (rdv_backend d) \<noteq> re_shmem_size (rdv_frontend d) \<or>
         re_shmem_id (rdv_backend d) \<noteq> re_shmem_id (rdv_frontend d)
      then Inl (ERROR ''Invalid shared memory region configuration for Remote I/O device'')
      else remio_check_shmems ds)"

definition remio_bind_end :: "nat \<Rightarrow> remio_dev \<Rightarrow> remio_end \<Rightarrow> remio_end" where
  "remio_bind_end i dev e = e\<lparr>re_vm_id := i, re_interrupt := rd_interrupt dev, re_cpu_id := - 1\<rparr>"

definition remio_bind_dev :: "nat \<times> remio_dev \<Rightarrow> remio_device list \<Rightarrow> remio_device list outcome" where
  "remio_bind_dev idev devs =
     (let (i, dev) = idev
      in case remio_find_dev_by_bind_key devs (rd_bind_key dev) of
           None \<Rightarrow> Inl (ERROR ''Failed to find Remote I/O device'')
         | Some k \<Rightarrow>
             (case rd_type dev of
                REMIO_DEV_BACKEND \<Rightarrow> Inr (devs[k := (devs ! k)\<lparr>rdv_backend := remio_bind_end i dev (rdv_backend (devs ! k))\<rparr>])
              | REMIO_DEV_FRONTEND \<Rightarrow> Inr (devs[k := (devs ! k)\<lparr>rdv_frontend := remio_bind_end i dev (rdv_frontend (devs ! k))\<rparr>])))"

text \<open>The devices of all machines, with the number of the machine, in the order of the two loops.\<close>

definition remio_config_devs :: "config \<Rightarrow> (nat \<times> remio_dev) list" where
  "remio_config_devs cfg =
     concat (map (\<lambda>(i, vm). map (Pair i) (plat_remio_devs (vmc_platform vm))) (enumerate 0 (vmlist cfg)))"

definition remio_init :: "bool \<Rightarrow> config \<Rightarrow> objpool \<Rightarrow> 'a remio_scheme \<Rightarrow> (objpool \<times> 'a remio_scheme) outcome" where
  "remio_init is_master cfg device_pool st =
     (if \<not> is_master then Inr (device_pool, st)
      else
        (let device_pool = objpool_init device_pool;
             st = st\<lparr>remio_request_pool := objpool_init (remio_request_pool st),
               remio_requests := (\<lambda>a. if a \<in> objpool_objects (remio_request_pool st) then zero_request else remio_requests st a)\<rparr>
         in obind (ofold remio_link_dev (map snd (remio_config_devs cfg))
                     \<lparr>ri_devices = [], ri_pool = device_pool, ri_backends = 0, ri_frontends = 0\<rparr>) (\<lambda>s.
            if ri_frontends s \<noteq> ri_backends s then
              Inl (ERROR ''There is no 1-to-1 mapping between a Remote I/O backend and Remote I/O frontend'')
            else obind (remio_check_shmems (ri_devices s)) (\<lambda>_.
                 obind (ofold remio_bind_dev (remio_config_devs cfg) (ri_devices s)) (\<lambda>devs.
                 Inr (ri_pool s, st\<lparr>remio_device_list := devs\<rparr>))))))"

section \<open>Hypercalls\<close>

definition HC_IPC :: u64 where "HC_IPC = 1"
definition HC_REMIO :: u64 where "HC_REMIO = 2"

definition hypercall ::
    "remio_params \<Rightarrow> u32 \<Rightarrow> nat \<Rightarrow> u64 \<Rightarrow> nat \<Rightarrow> 'a remio_scheme \<Rightarrow> (int \<times> 'a remio_scheme) outcome" where
  "hypercall K IPC_CPUMSG_ID cpu_num i c st =
     (if i = HC_IPC then ipc_hypercall (remio_regs K) IPC_CPUMSG_ID cpu_num c st
      else if i = HC_REMIO then remio_hypercall K c st
      else Inr (- HC_E_INVAL_ID, st))"

section \<open>The first loop\<close>

definition of_end :: "REMIO_DEV_TYPE \<Rightarrow> u64 \<Rightarrow> remio_dev \<Rightarrow> bool" where
  "of_end t key dev \<longleftrightarrow> rd_type dev = t \<and> rd_bind_key dev = key"

text \<open>What a device knows of one end after the devices in \<open>L\<close>: nothing, or the only one of its key.\<close>

definition linked_end :: "REMIO_DEV_TYPE \<Rightarrow> remio_dev list \<Rightarrow> u64 \<Rightarrow> remio_end \<Rightarrow> bool" where
  "linked_end t L key e \<longleftrightarrow>
     filter (of_end t key) L = [] \<and> e = zero_end\<lparr>re_bind_key := - 1\<rparr> \<or>
     (\<exists>dev. filter (of_end t key) L = [dev] \<and> e = remio_link_end dev (zero_end\<lparr>re_bind_key := - 1\<rparr>))"

definition linked :: "remio_dev list \<Rightarrow> remio_device list \<Rightarrow> bool" where
  "linked L devs \<longleftrightarrow> distinct (map rdv_bind_key devs) \<and> rdv_bind_key ` set devs = rd_bind_key ` set L \<and>
     (\<forall>d \<in> set devs. linked_end REMIO_DEV_BACKEND L (rdv_bind_key d) (rdv_backend d) \<and>
        linked_end REMIO_DEV_FRONTEND L (rdv_bind_key d) (rdv_frontend d) \<and> \<not> rdv_ready d \<and> rdv_pending d = [])"

lemma linked_end_key:
  assumes "linked_end t L key e"
  shows "re_bind_key e = (if filter (of_end t key) L = [] then - 1 else key)"
proof -
  have "rd_bind_key dev = key" if "filter (of_end t key) L = [dev]" for dev
  proof -
    have "dev \<in> set (filter (of_end t key) L)" using that by simp
    then show ?thesis by (simp add: of_end_def)
  qed
  with assms show ?thesis by (auto simp: linked_end_def remio_link_end_def)
qed

lemma linked_end_other:
  assumes "linked_end t L key e" and "\<not> of_end t key dev"
  shows "linked_end t (L @ [dev]) key e"
  using assms by (simp add: linked_end_def)

text \<open>The search finds the device of the key, if there is one and its end is free.\<close>

lemma remio_link_search_result:
  assumes "distinct (map rdv_bind_key devs)"
    and "\<forall>d \<in> set devs. linked_end REMIO_DEV_BACKEND L (rdv_bind_key d) (rdv_backend d) \<and>
       linked_end REMIO_DEV_FRONTEND L (rdv_bind_key d) (rdv_frontend d) \<and> rdv_bind_key d \<in> rd_bind_key ` set L"
    and key: "rd_bind_key dev \<noteq> - 1" and r: "remio_link_search devs dev = Inr r"
  shows "case r of None \<Rightarrow> rd_bind_key dev \<notin> rdv_bind_key ` set devs
    | Some k \<Rightarrow> k < length devs \<and> rdv_bind_key (devs ! k) = rd_bind_key dev \<and> filter (of_end (rd_type dev) (rd_bind_key dev)) L = []"
  using assms(1,2) r
proof (induction devs arbitrary: r)
  case Nil
  then show ?case by simp
next
  case (Cons d ds)
  let ?b = "filter (of_end REMIO_DEV_BACKEND (rdv_bind_key d)) L" and ?f = "filter (of_end REMIO_DEV_FRONTEND (rdv_bind_key d)) L"
  have keys: "re_bind_key (rdv_backend d) = (if ?b = [] then - 1 else rdv_bind_key d)"
    "re_bind_key (rdv_frontend d) = (if ?f = [] then - 1 else rdv_bind_key d)"
    using Cons.prems(2) linked_end_key by simp_all
  have some: "?b \<noteq> [] \<or> ?f \<noteq> []"
  proof -
    obtain x where "x \<in> set L" "rd_bind_key x = rdv_bind_key d" using Cons.prems(2) by force
    then show ?thesis by (cases "rd_type x") (auto simp: filter_empty_conv of_end_def)
  qed
  show ?case
  proof (cases "rd_bind_key dev = rdv_bind_key d")
    case True
    have "r = Some 0 \<and> filter (of_end (rd_type dev) (rd_bind_key dev)) L = []"
      using Cons.prems(3) keys some key True by (cases "rd_type dev") (auto split: if_splits)
    with True show ?thesis by simp
  next
    case False
    then obtain r' where "remio_link_search ds dev = Inr r'" "r = map_option Suc r'"
      using Cons.prems(3) keys key by (auto simp: obind_eq_Inr split: if_splits)
    with Cons.IH [of r'] Cons.prems False show ?thesis by (auto split: option.splits)
  qed
qed

definition remio_link_in :: "remio_dev \<Rightarrow> remio_device \<Rightarrow> remio_device" where
  "remio_link_in dev d =
     (case rd_type dev of
        REMIO_DEV_BACKEND \<Rightarrow> d\<lparr>rdv_backend := remio_link_end dev (rdv_backend d)\<rparr>
      | REMIO_DEV_FRONTEND \<Rightarrow> d\<lparr>rdv_frontend := remio_link_end dev (rdv_frontend d)\<rparr>)"

lemma remio_link_in_simps [simp]:
  "rdv_bind_key (remio_link_in dev d) = rdv_bind_key d" "rdv_ready (remio_link_in dev d) = rdv_ready d"
  "rdv_pending (remio_link_in dev d) = rdv_pending d"
  by (simp_all add: remio_link_in_def split: REMIO_DEV_TYPE.splits)

lemma remio_link_in_linked:
  assumes "linked_end REMIO_DEV_BACKEND L key (rdv_backend d)" and "linked_end REMIO_DEV_FRONTEND L key (rdv_frontend d)"
    and "filter (of_end (rd_type dev) key) L = []" and "rd_bind_key dev = key"
  shows "linked_end REMIO_DEV_BACKEND (L @ [dev]) key (rdv_backend (remio_link_in dev d))"
    and "linked_end REMIO_DEV_FRONTEND (L @ [dev]) key (rdv_frontend (remio_link_in dev d))"
  using assms by (cases "rd_type dev"; simp add: remio_link_in_def linked_end_def of_end_def)+

lemma remio_link_dev_linked:
  assumes l: "linked L (ri_devices s)" and key: "rd_bind_key dev \<noteq> - 1" and r: "remio_link_dev dev s = Inr s'"
  shows "linked (L @ [dev]) (ri_devices s')"
proof -
  let ?devs = "ri_devices s" and ?key = "rd_bind_key dev"
  obtain found where search: "remio_link_search ?devs dev = Inr found"
    using r by (auto simp: remio_link_dev_def obind_eq_Inr)
  have ends: "linked_end REMIO_DEV_BACKEND L (rdv_bind_key d) (rdv_backend d)"
    "linked_end REMIO_DEV_FRONTEND L (rdv_bind_key d) (rdv_frontend d)" "\<not> rdv_ready d" "rdv_pending d = []"
    "rdv_bind_key d \<in> rd_bind_key ` set L" if "d \<in> set ?devs" for d
    using l that by (auto simp: linked_def)
  have dist: "distinct (map rdv_bind_key ?devs)" using l by (simp add: linked_def)
  note res = remio_link_search_result [OF dist _ key search, of L]
  have others: "linked_end REMIO_DEV_BACKEND (L @ [dev]) (rdv_bind_key d) (rdv_backend d)"
    "linked_end REMIO_DEV_FRONTEND (L @ [dev]) (rdv_bind_key d) (rdv_frontend d)"
    if "d \<in> set ?devs" "rdv_bind_key d \<noteq> ?key" for d
    using ends [OF that(1)] that(2) by (simp_all add: linked_end_other of_end_def)
  show ?thesis
  proof (cases found)
    case None
    with res ends have new: "?key \<notin> rdv_bind_key ` set ?devs" by simp
    have devs': "ri_devices s' = ?devs @ [remio_link_in dev (remio_new_device ?key)]"
      using r search None
      by (auto simp: remio_link_dev_def obind_eq_Inr Let_def remio_link_in_def split: option.splits prod.splits REMIO_DEV_TYPE.splits)
    have "?key \<notin> rd_bind_key ` set L" using new l by (simp add: linked_def)
    then have none: "filter (of_end t ?key) L = []" for t
      by (simp add: filter_empty_conv of_end_def) (metis image_eqI)
    have "linked_end t L ?key (zero_end\<lparr>re_bind_key := - 1\<rparr>)" for t using none by (simp add: linked_end_def)
    then have "linked_end REMIO_DEV_BACKEND (L @ [dev]) ?key (rdv_backend (remio_link_in dev (remio_new_device ?key)))"
      "linked_end REMIO_DEV_FRONTEND (L @ [dev]) ?key (rdv_frontend (remio_link_in dev (remio_new_device ?key)))"
      using none by (auto intro!: remio_link_in_linked simp: remio_new_device_def)
    moreover have "rdv_bind_key (remio_link_in dev (remio_new_device ?key)) = ?key"
      "\<not> rdv_ready (remio_link_in dev (remio_new_device ?key))" "rdv_pending (remio_link_in dev (remio_new_device ?key)) = []"
      by (simp_all add: remio_new_device_def)
    moreover have "rdv_bind_key d \<noteq> ?key" if "d \<in> set ?devs" for d using that new by (metis image_eqI)
    ultimately show ?thesis
      using l new others ends(3,4) unfolding linked_def devs' by auto
  next
    case (Some k)
    with res ends have k: "k < length ?devs" "rdv_bind_key (?devs ! k) = ?key" "filter (of_end (rd_type dev) ?key) L = []"
      by simp_all
    have devs': "ri_devices s' = ?devs[k := remio_link_in dev (?devs ! k)]"
      using r search Some
      by (auto simp: remio_link_dev_def obind_eq_Inr Let_def remio_link_in_def split: REMIO_DEV_TYPE.splits)
    have dk: "?devs ! k \<in> set ?devs" using k(1) by simp
    have keys: "map rdv_bind_key (ri_devices s') = map rdv_bind_key ?devs"
      unfolding devs' using k(1) by (simp add: map_update) (metis length_map list_update_id nth_map)
    have new: "linked_end REMIO_DEV_BACKEND (L @ [dev]) ?key (rdv_backend (remio_link_in dev (?devs ! k)))"
      "linked_end REMIO_DEV_FRONTEND (L @ [dev]) ?key (rdv_frontend (remio_link_in dev (?devs ! k)))"
      using ends [OF dk] k by (auto intro!: remio_link_in_linked)
    have "linked_end REMIO_DEV_BACKEND (L @ [dev]) (rdv_bind_key d) (rdv_backend d) \<and>
        linked_end REMIO_DEV_FRONTEND (L @ [dev]) (rdv_bind_key d) (rdv_frontend d) \<and> \<not> rdv_ready d \<and> rdv_pending d = []"
      if d: "d \<in> set (ri_devices s')" for d
    proof -
      from d obtain j where j: "j < length ?devs" "d = ri_devices s' ! j" unfolding devs' by (auto simp: in_set_conv_nth)
      show ?thesis
      proof (cases "j = k")
        case True
        with j new ends(3,4) [OF dk] k show ?thesis by (simp add: devs')
      next
        case False
        with j have d': "d = ?devs ! j" by (simp add: devs')
        have "map rdv_bind_key ?devs ! j \<noteq> map rdv_bind_key ?devs ! k"
          using dist False j(1) k(1) nth_eq_iff_index_eq [of "map rdv_bind_key ?devs" j k] by simp
        then have "rdv_bind_key d \<noteq> ?key" using d' j(1) k by simp
        with others [of d] ends(3,4) [of d] d' j(1) show ?thesis by simp
      qed
    qed
    moreover have "rdv_bind_key ` set (ri_devices s') = rdv_bind_key ` set ?devs" using keys by (metis set_map)
    moreover have "?key \<in> rd_bind_key ` set L" using ends(5) [OF dk] k(2) by simp
    ultimately show ?thesis using l keys unfolding linked_def by auto
  qed
qed

lemma remio_link_all:
  "linked L (ri_devices s) \<Longrightarrow> \<forall>dev \<in> set M. rd_bind_key dev \<noteq> - 1 \<Longrightarrow> ofold remio_link_dev M s = Inr s' \<Longrightarrow>
     linked (L @ M) (ri_devices s')"
proof (induction M arbitrary: L s)
  case (Cons dev M)
  then obtain s1 where s1: "remio_link_dev dev s = Inr s1" "ofold remio_link_dev M s1 = Inr s'"
    by (auto simp: obind_eq_Inr)
  have "linked (L @ [dev]) (ri_devices s1)" using remio_link_dev_linked [OF Cons.prems(1) _ s1(1)] Cons.prems(2) by simp
  from Cons.IH [OF this _ s1(2)] Cons.prems(2) show ?case by simp
qed simp

section \<open>The last loop\<close>

definition remio_bind_in :: "nat \<times> remio_dev \<Rightarrow> remio_device \<Rightarrow> remio_device" where
  "remio_bind_in idev d =
     (if rd_bind_key (snd idev) \<noteq> rdv_bind_key d then d
      else case rd_type (snd idev) of
        REMIO_DEV_BACKEND \<Rightarrow> d\<lparr>rdv_backend := remio_bind_end (fst idev) (snd idev) (rdv_backend d)\<rparr>
      | REMIO_DEV_FRONTEND \<Rightarrow> d\<lparr>rdv_frontend := remio_bind_end (fst idev) (snd idev) (rdv_frontend d)\<rparr>)"

lemma remio_bind_in_simps [simp]:
  "rdv_bind_key (remio_bind_in x d) = rdv_bind_key d" "rdv_ready (remio_bind_in x d) = rdv_ready d"
  "rdv_pending (remio_bind_in x d) = rdv_pending d"
  by (simp_all add: remio_bind_in_def split: REMIO_DEV_TYPE.splits)

lemma remio_bind_dev_map:
  assumes "distinct (map rdv_bind_key devs)" and "remio_bind_dev idev devs = Inr devs'"
  shows "devs' = map (remio_bind_in idev) devs"
proof -
  obtain i dev where x: "idev = (i, dev)" by (cases idev)
  obtain k where find: "remio_find_dev_by_bind_key devs (rd_bind_key dev) = Some k"
    using assms(2) x by (auto simp: remio_bind_dev_def split: option.splits)
  note k = remio_find_dev_some [OF find]
  have devs': "devs' = devs[k := remio_bind_in idev (devs ! k)]"
    using assms(2) x find k by (auto simp: remio_bind_dev_def remio_bind_in_def split: REMIO_DEV_TYPE.splits)
  show ?thesis
  proof (rule nth_equalityI)
    show "length devs' = length (map (remio_bind_in idev) devs)" by (simp add: devs')
    fix j assume j: "j < length devs'"
    show "devs' ! j = map (remio_bind_in idev) devs ! j"
    proof (cases "j = k")
      case True
      with j show ?thesis by (simp add: devs')
    next
      case False
      have "map rdv_bind_key devs ! j \<noteq> map rdv_bind_key devs ! k"
        using assms(1) False j k nth_eq_iff_index_eq [of "map rdv_bind_key devs" j k] by (simp add: devs')
      then have "rd_bind_key dev \<noteq> rdv_bind_key (devs ! j)" using j k by (simp add: devs')
      with False j x show ?thesis by (simp add: devs' remio_bind_in_def)
    qed
  qed
qed

lemma remio_bind_all:
  "distinct (map rdv_bind_key devs) \<Longrightarrow> ofold remio_bind_dev D devs = Inr devs' \<Longrightarrow>
     devs' = map (fold remio_bind_in D) devs"
proof (induction D arbitrary: devs)
  case (Cons x D)
  then obtain devs1 where d: "remio_bind_dev x devs = Inr devs1" "ofold remio_bind_dev D devs1 = Inr devs'"
    by (auto simp: obind_eq_Inr)
  have devs1: "devs1 = map (remio_bind_in x) devs" by (rule remio_bind_dev_map [OF Cons.prems(1) d(1)])
  then have "distinct (map rdv_bind_key devs1)" using Cons.prems(1) by (simp add: o_def)
  from Cons.IH [OF this d(2)] show ?case by (simp add: devs1)
qed simp

text \<open>Each end of a device sees only the entries of its own type and key.\<close>

definition binds :: "REMIO_DEV_TYPE \<Rightarrow> u64 \<Rightarrow> (nat \<times> remio_dev) list \<Rightarrow> (nat \<times> remio_dev) list" where
  "binds t key D = filter (\<lambda>x. of_end t key (snd x)) D"

lemma remio_bind_fold:
  "rdv_bind_key (fold remio_bind_in D d) = rdv_bind_key d \<and> rdv_ready (fold remio_bind_in D d) = rdv_ready d \<and>
   rdv_pending (fold remio_bind_in D d) = rdv_pending d \<and>
   rdv_backend (fold remio_bind_in D d) =
     fold (\<lambda>x. remio_bind_end (fst x) (snd x)) (binds REMIO_DEV_BACKEND (rdv_bind_key d) D) (rdv_backend d) \<and>
   rdv_frontend (fold remio_bind_in D d) =
     fold (\<lambda>x. remio_bind_end (fst x) (snd x)) (binds REMIO_DEV_FRONTEND (rdv_bind_key d) D) (rdv_frontend d)"
proof (induction D arbitrary: d)
  case (Cons x D)
  show ?case using Cons.IH [of "remio_bind_in x d"]
    by (cases "rd_type (snd x)") (auto simp: binds_def of_end_def remio_bind_in_def)
qed (simp add: binds_def)

section \<open>Property\<close>

text \<open>The end that the configuration describes, as it stands after \<open>remio_init\<close>.\<close>

definition configured_end :: "nat \<times> remio_dev \<Rightarrow> remio_end" where
  "configured_end x = \<lparr>re_bind_key = rd_bind_key (snd x), re_cpu_id = - 1, re_vm_id = fst x,
     re_interrupt = rd_interrupt (snd x), re_shmem_base = rd_shmem_base (snd x), re_shmem_size = rd_shmem_size (snd x),
     re_shmem_id = rd_shmem_id (snd x), re_ready = False\<rparr>"

lemma remio_check_shmems_ok:
  "remio_check_shmems devs = Inr () \<Longrightarrow> d \<in> set devs \<Longrightarrow>
     re_shmem_size (rdv_backend d) = re_shmem_size (rdv_frontend d)"
  by (induction devs) (auto split: if_splits)

lemma filter_snd_binds: "filter (of_end t key) (map snd D) = map snd (binds t key D)"
  by (simp add: binds_def filter_map o_def)

text \<open>
  C29: When the creation of the Remote I/O devices succeeds, on a configuration without the key that stands for
  \<open>none\<close> and with shared memories of nonzero size, the devices are the keys of the configuration, one each; and for each
  device the configuration has exactly one backend and exactly one frontend with its key, which
  the device records with their machines, interrupts and shared memories. No device is ready and
  nothing is pending, which is where the protocol starts. (A device whose only end is missing is
  caught by the comparison of the shared memories, not by the count of the ends.)
\<close>
theorem remio_init_pairs:
  assumes "remio_init True cfg dp st = Inr (dp', st')"
    and "\<forall>x \<in> set (remio_config_devs cfg). rd_bind_key (snd x) \<noteq> - 1 \<and> rd_shmem_size (snd x) \<noteq> 0"
  shows "distinct (map rdv_bind_key (remio_device_list st')) \<and>
    rdv_bind_key ` set (remio_device_list st') = (rd_bind_key \<circ> snd) ` set (remio_config_devs cfg) \<and>
    (\<forall>d \<in> set (remio_device_list st'). \<not> rdv_ready d \<and> rdv_pending d = [] \<and>
      (\<exists>x. binds REMIO_DEV_BACKEND (rdv_bind_key d) (remio_config_devs cfg) = [x] \<and> rdv_backend d = configured_end x) \<and>
      (\<exists>x. binds REMIO_DEV_FRONTEND (rdv_bind_key d) (remio_config_devs cfg) = [x] \<and> rdv_frontend d = configured_end x)) \<and>
    objpool_used (remio_request_pool st') = {} \<and>
    (\<forall>a \<in> objpool_objects (remio_request_pool st'). rq_state (remio_requests st' a) = REMIO_STATE_FREE)"
proof -
  let ?D = "remio_config_devs cfg"
  let ?s0 = "\<lparr>ri_devices = [], ri_pool = objpool_init dp, ri_backends = 0, ri_frontends = 0\<rparr>"
  obtain s where s: "ofold remio_link_dev (map snd ?D) ?s0 = Inr s" "remio_check_shmems (ri_devices s) = Inr ()"
      "ofold remio_bind_dev ?D (ri_devices s) = Inr (remio_device_list st')"
    and pool: "remio_request_pool st' = objpool_init (remio_request_pool st)"
      "remio_requests st' = (\<lambda>a. if a \<in> objpool_objects (remio_request_pool st) then zero_request else remio_requests st a)"
    using assms(1) by (auto simp: remio_init_def Let_def obind_eq_Inr split: if_splits)
  have "linked [] (ri_devices ?s0)" by (simp add: linked_def)
  from remio_link_all [OF this _ s(1)] assms(2) have l: "linked (map snd ?D) (ri_devices s)" by simp
  then have dist: "distinct (map rdv_bind_key (ri_devices s))" by (simp add: linked_def)
  have devs: "remio_device_list st' = map (fold remio_bind_in ?D) (ri_devices s)" by (rule remio_bind_all [OF dist s(3)])
  have keys: "map rdv_bind_key (remio_device_list st') = map rdv_bind_key (ri_devices s)"
    unfolding devs using remio_bind_fold by simp
  have one: "\<not> rdv_ready d \<and> rdv_pending d = [] \<and>
      (\<exists>x. binds REMIO_DEV_BACKEND (rdv_bind_key d) ?D = [x] \<and> rdv_backend d = configured_end x) \<and>
      (\<exists>x. binds REMIO_DEV_FRONTEND (rdv_bind_key d) ?D = [x] \<and> rdv_frontend d = configured_end x)"
    if d: "d \<in> set (remio_device_list st')" for d
  proof -
    obtain d0 where d0: "d0 \<in> set (ri_devices s)" "d = fold remio_bind_in ?D d0" using d unfolding devs by auto
    note bf = remio_bind_fold [of ?D d0, folded d0(2)]
    let ?key = "rdv_bind_key d0"
    have ends: "linked_end REMIO_DEV_BACKEND (map snd ?D) ?key (rdv_backend d0)"
      "linked_end REMIO_DEV_FRONTEND (map snd ?D) ?key (rdv_frontend d0)" "\<not> rdv_ready d0" "rdv_pending d0 = []"
      and mem: "?key \<in> rd_bind_key ` set (map snd ?D)"
      using l d0(1) by (auto simp: linked_def)
    have size: "re_shmem_size e = 0 \<longleftrightarrow> binds t ?key ?D = []" if "linked_end t (map snd ?D) ?key e" for t e
    proof -
      have "rd_shmem_size (snd x) \<noteq> 0" if "binds t ?key ?D = [x]" for x
      proof -
        have "x \<in> set (binds t ?key ?D)" using that by simp
        then show ?thesis using assms(2) by (simp add: binds_def)
      qed
      with that show ?thesis by (auto simp: linked_end_def filter_snd_binds remio_link_end_def zero_end_def)
    qed
    have "binds REMIO_DEV_BACKEND ?key ?D \<noteq> [] \<or> binds REMIO_DEV_FRONTEND ?key ?D \<noteq> []"
    proof -
      obtain x where "x \<in> set ?D" "rd_bind_key (snd x) = ?key" using mem by auto
      then show ?thesis by (cases "rd_type (snd x)") (auto simp: binds_def filter_empty_conv of_end_def)
    qed
    with size [OF ends(1)] size [OF ends(2)] remio_check_shmems_ok [OF s(2) d0(1)]
    have ne: "binds REMIO_DEV_BACKEND ?key ?D \<noteq> []" "binds REMIO_DEV_FRONTEND ?key ?D \<noteq> []" by auto
    have "\<exists>x. binds t ?key ?D = [x] \<and> fold (\<lambda>x. remio_bind_end (fst x) (snd x)) (binds t ?key ?D) e = configured_end x"
      if "linked_end t (map snd ?D) ?key e" "binds t ?key ?D \<noteq> []" for t e
      using that by (auto simp: linked_end_def filter_snd_binds remio_link_end_def zero_end_def configured_end_def
          remio_bind_end_def map_eq_Cons_conv)
    with ends ne bf show ?thesis by simp
  qed
  have "rdv_bind_key ` set (remio_device_list st') = rdv_bind_key ` set (ri_devices s)" using keys by (metis set_map)
  then have "rdv_bind_key ` set (remio_device_list st') = (rd_bind_key \<circ> snd) ` set ?D"
    using l by (simp add: linked_def image_image image_comp)
  moreover have "objpool_used (remio_request_pool st') = {}" unfolding pool(1) by (rule objpool_init_empty)
  moreover have "objpool_objects (objpool_init p) = objpool_objects p" for p by (simp add: objpool_init_def)
  then have "\<forall>a \<in> objpool_objects (remio_request_pool st'). rq_state (remio_requests st' a) = REMIO_STATE_FREE"
    unfolding pool by (simp add: zero_request_def)
  ultimately show ?thesis using keys dist one by simp
qed

end
