(* ===== verification/Remio_Demo.thy ===== *)
theory Remio_Demo
  imports Remio_Trip Remio_Init
begin

text \<open>
  A system of two machines with a remote device between them, on which the properties of
  Remote I/O are applied: machine 0 has the frontend and runs on processor 0, machine 1 has the
  backend and runs on processor 1.
\<close>

definition demo_remio_params :: remio_params where
  "demo_remio_params = \<lparr>cpu_interfaces_num = 2, REMIO_CPUMSG_ID = 1, remio_regs = hypercall_regs_armv8\<rparr>"

definition demo_remio_vm :: "nat \<Rightarrow> vm" where
  "demo_remio_vm v = \<lparr>vm_id = v, vm_master = v, vm_cpu_num = 1, vm_cpus = (if v = 0 then 1 else 2),
     vm_vcpus = (\<lambda>_. \<lparr>vcpu_id = 0, phys_id = v, vcpu_active = True, vcpu_regs = (\<lambda>_. 0), vcpu_irqs = []\<rparr>),
     emul_mem_list = [], emul_reg_list = [], vm_ipcs = [],
     vm_remio_devs = [\<lparr>rd_va = 0x50000000, rd_size = 0x1000, rd_interrupt = 47, rd_bind_key = 3,
       rd_type = (if v = 0 then REMIO_DEV_FRONTEND else REMIO_DEV_BACKEND),
       rd_shmem_base = 0, rd_shmem_size = 0x1000, rd_shmem_id = 0\<rparr>]\<rparr>"

definition demo_remio_end :: "nat \<Rightarrow> remio_end" where
  "demo_remio_end v = \<lparr>re_bind_key = 3, re_cpu_id = - 1, re_vm_id = v, re_interrupt = 47, re_shmem_base = 0,
     re_shmem_size = 0x1000, re_shmem_id = 0, re_ready = False\<rparr>"

definition demo_remio_device :: remio_device where
  "demo_remio_device = \<lparr>rdv_ready = False, rdv_bind_key = 3, rdv_backend = demo_remio_end 1,
     rdv_frontend = demo_remio_end 0, rdv_pending = []\<rparr>"

definition demo_remio_pool :: objpool where
  "demo_remio_pool = \<lparr>pool = 0x1000, op_bitmap = (\<lambda>_. 0), objsize = 80, num = 2\<rparr>"

definition demo_remio_state :: "remio_device \<Rightarrow> remio" where
  "demo_remio_state d = \<lparr>cpu_interfaces = idle_interfaces, ipi_pending = (\<lambda>_. False), handling_msgs = (\<lambda>_. False),
     hv_vm = demo_remio_vm, hv_vcpu = (\<lambda>c. if c < 2 then Some (c, 0) else None), hv_shmem = [],
     remio_device_list = [d], remio_request_pool = demo_remio_pool,
     remio_requests = (\<lambda>_. \<lparr>rq_id = 0, rq_bind_key = 0, rq_addr = 0, rq_access_width = 0, rq_op = 0, rq_value = 0,
       rq_reg = 0, rq_cpu_id = 0, rq_state = REMIO_STATE_FREE\<rparr>)\<rparr>"

definition demo_remio_ready :: remio_device where
  "demo_remio_ready = \<lparr>rdv_ready = True, rdv_bind_key = 3, rdv_backend = (demo_remio_end 1)\<lparr>re_cpu_id := 1, re_ready := True\<rparr>,
     rdv_frontend = (demo_remio_end 0)\<lparr>re_cpu_id := 0, re_ready := True\<rparr>, rdv_pending = []\<rparr>"

lemma demo_start: "remio_start demo_remio_params (demo_remio_state demo_remio_device)"
proof -
  let ?st = "demo_remio_state demo_remio_device"
  have idle: "machine_ok ?st" "inbox ?st c = []" for c
    by (rule idle_machine, simp add: demo_remio_state_def)+
  have "objpool_ok demo_remio_pool" by (simp add: objpool_ok_def demo_remio_pool_def)
  moreover have "objpool_used demo_remio_pool = {}" by (simp add: objpool_used_def demo_remio_pool_def bm_def)
  ultimately show ?thesis
    using idle by (simp add: remio_start_def demo_remio_params_def)
      (simp add: demo_remio_state_def vcpus_apart_def runs_def keys_ok_def demo_remio_device_def demo_remio_end_def
        demo_remio_pool_def)
qed

lemma demo_assigned: "(remio_step demo_remio_params)\<^sup>*\<^sup>* (demo_remio_state demo_remio_device) (demo_remio_state demo_remio_ready)"
proof -
  let ?s0 = "demo_remio_state demo_remio_device"
  let ?s1 = "remio_assign_vm_cpus 0 (demo_remio_vm 0) ?s0"
  let ?s2 = "remio_assign_vm_cpus 1 (demo_remio_vm 1) ?s1"
  have vm: "cpu_vm 0 ?s0 = Some (demo_remio_vm 0)" "cpu_vm 1 ?s1 = Some (demo_remio_vm 1)"
    by (simp_all add: cpu_vm_def demo_remio_state_def remio_assign_vm_cpus_def)
  have "min (- 1) (0 :: u64) = 0" "min (- 1) (1 :: u64) = 1" by (simp_all add: min.absorb2)
  then have "?s2 = demo_remio_state demo_remio_ready"
    by (simp add: remio_assign_vm_cpus_def demo_remio_state_def remio_assign_dev_def remio_assign_end_def
        demo_remio_device_def demo_remio_ready_def demo_remio_end_def demo_remio_vm_def Let_def)
  then show ?thesis
    using remio_step.assign [OF vm(1), of demo_remio_params] remio_step.assign [OF vm(2), of demo_remio_params]
    by (metis converse_rtranclp_into_rtranclp r_into_rtranclp)
qed

definition demo_access :: emul_access where
  "demo_access = \<lparr>acc_addr = 0x50000010, acc_write = False, acc_width = 4, acc_reg = 2\<rparr>"

lemma demo_range: "in_range 0x50000010 0x50000000 (0x1000 :: u64)"
  by (simp add: in_range_def range_in_range_def)

lemma demo_find:
  "remio_find_vm_dev_by_addr (demo_remio_vm 0) (acc_addr demo_access) (remio_device_list (demo_remio_state demo_remio_ready)) = Some 0"
  "remio_find_vm_dev_by_bind_key (demo_remio_vm 1) 3 (remio_device_list (demo_remio_state demo_remio_ready)) = Some 0"
  using demo_range by (simp_all add: remio_find_vm_dev_by_addr_def remio_find_vm_dev_by_bind_key_def demo_access_def
      demo_remio_vm_def demo_remio_state_def demo_remio_ready_def demo_remio_end_def)


definition demo_ask :: "nat \<Rightarrow> u64" where
  "demo_ask = (\<lambda>_. 0)(3 := REMIO_HYP_ASK)"

theorem remote_io_round_trip_witness:
  "\<exists>st1 st2 i. remio_mmio_emul_handler demo_remio_params 0 demo_access (demo_remio_state demo_remio_ready) =
       Some (Inr (True, st1)) \<and>
     remio_hypercall demo_remio_params 1 (guest_sets 1 demo_ask st1) = Inr (0, st2) \<and>
     map_option (\<lambda>v. vcpu_regs v 1) (cpu_vcpu 1 st2) = Some 0x50000010 \<and>
     (\<exists>st3 (m :: cpu_msg) st4. remio_hypercall demo_remio_params 1
         (guest_sets 1 ((\<lambda>_. 0)(3 := REMIO_HYP_READ, 4 := 77, 5 := i)) st2) = Inr (0, st3) \<and>
       remio_cpu_msg_handler 0 (msg_event m) (msg_data m) (snd (cpu_get_msg 0 st3)) = Inr st4 \<and>
       map_option (\<lambda>v. vcpu_regs v 2) (cpu_vcpu 0 st4) = Some 77)"
proof -
  let ?st = "demo_remio_state demo_remio_ready" and ?v = "\<lambda>c. vm_vcpus (demo_remio_vm c) 0"
  let ?in = "HYPCALL_IN_ARG_REG (remio_regs demo_remio_params)"
  have regs: "?in n = n + 1" "HYPCALL_OUT_ARG_REG (remio_regs demo_remio_params) n = n + 1" for n
    by (simp_all add: demo_remio_params_def hypercall_regs_armv8_def)
  have N: "cpu_interfaces_num demo_remio_params < 2 ^ 64 - 1" by (simp add: demo_remio_params_def)
  have c: "cpu_vcpu 0 ?st = Some (?v 0)" "vcpu_active (?v 0)" "cpu_vm 0 ?st = Some (demo_remio_vm 0)"
    and b: "cpu_vcpu 1 ?st = Some (?v 1)" "cpu_vm 1 ?st = Some (demo_remio_vm 1)" "(1 :: nat) \<noteq> 0"
    by (simp_all add: cpu_vcpu_def cpu_vm_def demo_remio_state_def demo_remio_vm_def)
  have box: "inbox ?st 0 = []" by (rule idle_machine) (simp add: demo_remio_state_def)
  have dev: "rdv_ready (remio_device_list ?st ! 0)" "rdv_pending (remio_device_list ?st ! 0) = []"
    "unat (re_cpu_id (rdv_backend (remio_device_list ?st ! 0))) \<noteq> 0"
    by (simp_all add: demo_remio_state_def demo_remio_ready_def)
  have dm: "unat (0 :: u64) < length (vm_remio_devs (demo_remio_vm 1))"
    "remio_find_vm_dev_by_bind_key (demo_remio_vm 1) (rd_bind_key (vm_remio_devs (demo_remio_vm 1) ! unat (0 :: u64)))
       (remio_device_list ?st) = Some 0"
    using demo_find(2) by (simp_all add: demo_remio_vm_def)
  have apart: "regs_apart (remio_regs demo_remio_params)" by (simp add: demo_remio_params_def regs_apart_archs)
  have ask: "demo_ask (?in 0) = 0" "demo_ask (?in 1) = 0" "demo_ask (?in 2) = REMIO_HYP_ASK" "demo_ask (?in 3) = 0"
    by (simp_all add: regs demo_ask_def)
  from remote_io_round_trip [OF demo_start N demo_assigned c box demo_find(1) dev b dm apart ask refl]
  obtain st1 st2 i got where
    1: "remio_mmio_emul_handler demo_remio_params 0 demo_access ?st = Some (Inr (True, st1))"
      "remio_hypercall demo_remio_params 1 (guest_sets 1 demo_ask st1) = Inr (0, st2)"
    and v2: "cpu_vcpu 1 st2 = Some ((?v 1)\<lparr>vcpu_regs := got\<rparr>)"
    and g: "map (\<lambda>n. got (HYPCALL_OUT_ARG_REG (remio_regs demo_remio_params) n)) [0, 1, 2, 3, 4, 5] =
      [acc_addr demo_access, if acc_write demo_access then REMIO_HYP_WRITE else REMIO_HYP_READ,
       if acc_write demo_access then vcpu_readreg (acc_reg demo_access) (?v 0) else 0, acc_width demo_access, i, 0]"
    and t: "\<forall>ans. ans (?in 0) = 0 \<and> ans (?in 2) = (if acc_write demo_access then REMIO_HYP_WRITE else REMIO_HYP_READ) \<and>
        ans (?in 4) = i \<longrightarrow>
      (\<exists>st3 (m :: cpu_msg) st4. remio_hypercall demo_remio_params 1 (guest_sets 1 ans st2) = Inr (0, st3) \<and> inbox st3 0 = [m] \<and>
        remio_cpu_msg_handler 0 (msg_event m) (msg_data m) (snd (cpu_get_msg 0 st3)) = Inr st4 \<and>
        cpu_vcpu 0 st4 = Some (if acc_write demo_access then ?v 0
          else vcpu_writereg (acc_reg demo_access) (ans (?in 3)) (?v 0)) \<and>
        objpool_used (remio_request_pool st4) = objpool_used (remio_request_pool ?st))"
    by (elim exE conjE)
  have got: "map_option (\<lambda>v. vcpu_regs v 1) (cpu_vcpu 1 st2) = Some 0x50000010"
    using g v2 by (simp add: regs demo_access_def)
  have 2: "\<exists>st3 (m :: cpu_msg) st4. remio_hypercall demo_remio_params 1 (guest_sets 1 ans st2) = Inr (0, st3) \<and>
        remio_cpu_msg_handler 0 (msg_event m) (msg_data m) (snd (cpu_get_msg 0 st3)) = Inr st4 \<and>
        cpu_vcpu 0 st4 = Some (vcpu_writereg 2 (ans (?in 3)) (?v 0))"
    if "ans (?in 0) = 0" "ans (?in 2) = REMIO_HYP_READ" "ans (?in 4) = i" for ans
    using spec [OF t, of ans] that by (auto simp: demo_access_def)
  from 2 [of "(\<lambda>_. 0)(3 := REMIO_HYP_READ, 4 := 77, 5 := i)"] obtain st3 and m :: cpu_msg and st4 where
    "remio_hypercall demo_remio_params 1 (guest_sets 1 ((\<lambda>_. 0)(3 := REMIO_HYP_READ, 4 := 77, 5 := i)) st2) = Inr (0, st3)"
    "remio_cpu_msg_handler 0 (msg_event m) (msg_data m) (snd (cpu_get_msg 0 st3)) = Inr st4"
    "cpu_vcpu 0 st4 = Some (vcpu_writereg 2 77 (?v 0))"
    by (auto simp: regs)
  then have "\<exists>st3 (m :: cpu_msg) st4. remio_hypercall demo_remio_params 1
         (guest_sets 1 ((\<lambda>_. 0)(3 := REMIO_HYP_READ, 4 := 77, 5 := i)) st2) = Inr (0, st3) \<and>
       remio_cpu_msg_handler 0 (msg_event m) (msg_data m) (snd (cpu_get_msg 0 st3)) = Inr st4 \<and>
       map_option (\<lambda>v. vcpu_regs v 2) (cpu_vcpu 0 st4) = Some 77"
    by (intro exI conjI) (assumption, assumption, simp add: vcpu_writereg_def)
  with 1 got show ?thesis by blast
qed

text \<open>The state after the access: its request is pending at the device.\<close>

lemma demo_accessed:
  obtains st a where "(remio_step demo_remio_params)\<^sup>*\<^sup>* (demo_remio_state demo_remio_device) st"
    "vm_same (demo_remio_state demo_remio_ready) st" "cpu_vcpu 1 st = cpu_vcpu 1 (demo_remio_state demo_remio_ready)"
    "remio_device_list st = [demo_remio_ready\<lparr>rdv_pending := [a]\<rparr>]"
proof -
  let ?st = "demo_remio_state demo_remio_ready" and ?v = "vm_vcpus (demo_remio_vm 0) 0"
  have N: "cpu_interfaces_num demo_remio_params < 2 ^ 64 - 1" by (simp add: demo_remio_params_def)
  have c: "cpu_vcpu 0 ?st = Some ?v" "vcpu_active ?v" "cpu_vm 0 ?st = Some (demo_remio_vm 0)"
    by (simp_all add: cpu_vcpu_def cpu_vm_def demo_remio_state_def demo_remio_vm_def)
  have dev: "rdv_ready (remio_device_list ?st ! 0)" "unat (re_cpu_id (rdv_backend (remio_device_list ?st ! 0))) \<noteq> 0"
    by (simp_all add: demo_remio_state_def demo_remio_ready_def)
  from remio_access_effect [OF remio_reach_inv [OF demo_start N demo_assigned] c demo_find(1) dev] obtain st a where
    s: "remio_mmio_emul_handler demo_remio_params 0 demo_access ?st = Some (Inr (True, st))" "vm_same ?st st"
      "\<forall>d. d \<noteq> 0 \<longrightarrow> cpu_vcpu d st = cpu_vcpu d ?st"
      "remio_device_list st = (remio_device_list ?st)[0 := (remio_device_list ?st ! 0)
         \<lparr>rdv_pending := rdv_pending (remio_device_list ?st ! 0) @ [a]\<rparr>]"
    by (elim exE conjE) (rule that)
  have "acts ?st 0" using c by (simp add: acts_def)
  from remio_step.access [OF this s(1)] demo_assigned
  have "(remio_step demo_remio_params)\<^sup>*\<^sup>* (demo_remio_state demo_remio_device) st" by (rule rtranclp.rtrancl_into_rtrancl [rotated])
  moreover have "remio_device_list st = [demo_remio_ready\<lparr>rdv_pending := [a]\<rparr>]"
    unfolding s(4) by (simp add: demo_remio_state_def demo_remio_ready_def)
  ultimately show thesis using that s(2,3) by simp
qed

theorem answer_with_next_loses_request_witness:
  "\<exists>(st :: remio) st' a. remio_hypercall demo_remio_params 1 st = Inr (- HC_E_FAILURE, st') \<and>
     rdv_pending (remio_device_list st ! 0) = [a] \<and> rdv_pending (remio_device_list st' ! 0) = [] \<and>
     rq_state (remio_requests st' a) = REMIO_STATE_PENDING"
proof -
  obtain s1 a where r: "(remio_step demo_remio_params)\<^sup>*\<^sup>* (demo_remio_state demo_remio_device) s1"
    and s1: "vm_same (demo_remio_state demo_remio_ready) s1" "cpu_vcpu 1 s1 = cpu_vcpu 1 (demo_remio_state demo_remio_ready)"
    and list1: "remio_device_list s1 = [demo_remio_ready\<lparr>rdv_pending := [a]\<rparr>]" by (rule demo_accessed)
  let ?regs = "(\<lambda>_. 0)(3 := REMIO_HYP_READ, 5 := - 1) :: nat \<Rightarrow> u64" and ?vb = "vm_vcpus (demo_remio_vm 1) 0"
  have N: "cpu_interfaces_num demo_remio_params < 2 ^ 64 - 1" by (simp add: demo_remio_params_def)
  have inv: "remio_inv demo_remio_params s1" by (rule remio_reach_inv [OF demo_start N r])
  have hv: "hv_vcpu s1 1 = Some (1, 0)" using s1(1) by (simp add: vm_same_def demo_remio_state_def)
  then have run: "runs s1 1" by (simp add: runs_def)
  define st where "st = guest_sets 1 ?regs s1"
  note g = guest_sets_view [OF inv run, where regs = ?regs, folded st_def]
  have v: "cpu_vcpu 1 st = Some (?vb\<lparr>vcpu_regs := ?regs\<rparr>)"
    using g(4) s1(2) by (simp add: cpu_vcpu_def demo_remio_state_def)
  obtain st2 where u: "cpu_vcpu_update 1 (\<lambda>v. v\<lparr>vcpu_regs := ?regs\<rparr>) s1 = Inr st2" using vcpu_update_runs [OF run] by blast
  have st2: "st = st2" using u by (simp add: st_def guest_sets_def)
  have "base_ok demo_remio_params s1" using inv by (simp add: remio_inv_def)
  note view = vcpu_update_view [OF u this, folded st2]
  have "remio_frame demo_remio_params s1 st"
    using view cpu_vcpu_update_fields(4) [OF u] by (simp add: remio_frame_def st2 base_ok_def)
  then have r': "(remio_step demo_remio_params)\<^sup>*\<^sup>* (demo_remio_state demo_remio_device) st"
    using r remio_step.other by (metis rtranclp.rtrancl_into_rtrancl)
  have same: "vm_same (demo_remio_state demo_remio_ready) st" using vm_same_trans [OF s1(1) g(2)] .
  obtain w where w: "cpu_vm 1 st = Some w" "vm_id w = vm_id (demo_remio_vm 1)" "vm_remio_devs w = vm_remio_devs (demo_remio_vm 1)"
    using same by (simp add: vm_same_def cpu_vm_def demo_remio_state_def)
  have arg: "hypercall_get_arg (remio_regs demo_remio_params) (?vb\<lparr>vcpu_regs := ?regs\<rparr>) n = ?regs (n + 1)" if "n \<le> 5" for n
    using that by (simp add: hypercall_get_arg_def vcpu_readreg_def demo_remio_params_def hypercall_regs_armv8_def)
  have "remio_find_vm_dev_by_bind_key w 3 (remio_device_list st) = Some 0"
    unfolding remio_find_vm_dev_cong [OF w(2,3)] g(6) list1
    by (simp add: remio_find_vm_dev_by_bind_key_def demo_remio_vm_def demo_remio_ready_def demo_remio_end_def)
  then have dm: "unat (hypercall_get_arg (remio_regs demo_remio_params) (?vb\<lparr>vcpu_regs := ?regs\<rparr>) 0) < length (vm_remio_devs w)"
    "remio_find_vm_dev_by_bind_key w (rd_bind_key (vm_remio_devs w !
       unat (hypercall_get_arg (remio_regs demo_remio_params) (?vb\<lparr>vcpu_regs := ?regs\<rparr>) 0))) (remio_device_list st) = Some 0"
    unfolding w(3) arg [OF le0] by (simp_all add: demo_remio_vm_def)
  have args: "hypercall_get_arg (remio_regs demo_remio_params) (?vb\<lparr>vcpu_regs := ?regs\<rparr>) 2 = REMIO_HYP_READ \<or>
      hypercall_get_arg (remio_regs demo_remio_params) (?vb\<lparr>vcpu_regs := ?regs\<rparr>) 2 = REMIO_HYP_WRITE"
    "hypercall_get_arg (remio_regs demo_remio_params) (?vb\<lparr>vcpu_regs := ?regs\<rparr>) 4 = - 1"
    using arg [of 2] arg [of 4] by simp_all
  have pending: "rdv_pending (remio_device_list st ! 0) = [a]" using g(6) list1 by simp
  from answer_with_next_loses_request [OF demo_start N r' v w(1) dm args pending] pending show ?thesis by blast
qed

text \<open>
  The notification of a frontend does not wait for the device to be ready: before the frontend's
  machine is registered its processor is \<open>-1\<close>, and the message goes beyond the array of interfaces.
\<close>

lemma notify_before_ready:
  assumes "cpu_vcpu b st = Some vb" and "cpu_vm b st = Some vm"
    and "unat (hypercall_get_arg (remio_regs K) vb 0) < length (vm_remio_devs vm)"
    and "remio_find_vm_dev_by_bind_key vm (rd_bind_key (vm_remio_devs vm ! unat (hypercall_get_arg (remio_regs K) vb 0)))
         (remio_device_list st) = Some k"
    and "hypercall_get_arg (remio_regs K) vb 2 = REMIO_HYP_NOTIFY"
    and "re_cpu_id (rdv_frontend (remio_device_list st ! k)) = - 1" and "cpu_interfaces_num K < 2 ^ 64 - 1"
  shows "remio_hypercall K b st = Inl OUT_OF_BOUNDS"
proof -
  have "\<not> unat (- 1 :: u64) < cpu_interfaces_num K" using assms(7) by (simp add: unsigned_minus_1_eq_mask mask_eq_exp_minus_1)
  with assms(1-6) show ?thesis by (simp add: remio_hypercall_def remio_cpu_send_msg_def remio_consts)
qed

definition demo_remio_config :: config where
  "demo_remio_config = \<lparr>hyp_colors = 0, shmemlist = [], vmlist = map (\<lambda>v.
     \<lparr>img_base_addr = 0, img_load_addr = 0, img_size = 0, img_separately_loaded = False, img_inplace = False,
      img_reserved = False, vmc_entry = 0, vmc_cpu_affinity = 0, vmc_colors = 0,
      vmc_platform = \<lparr>plat_cpu_num = 1, plat_regions = [], plat_ipcs = [], plat_devs = [],
        plat_remio_devs = vm_remio_devs (demo_remio_vm v)\<rparr>\<rparr>) [0, 1]\<rparr>"

theorem remio_init_pairs_witness:
  "\<exists>dp' st'. remio_init True demo_remio_config demo_remio_pool (demo_remio_state demo_remio_device) = Inr (dp', st') \<and>
     rdv_bind_key ` set (remio_device_list st') = {3}"
proof -
  have devs: "remio_config_devs demo_remio_config = [(0, hd (vm_remio_devs (demo_remio_vm 0))), (1, hd (vm_remio_devs (demo_remio_vm 1)))]"
    by (simp add: remio_config_devs_def demo_remio_config_def demo_remio_vm_def)
  have ok: "objpool_ok (objpool_init demo_remio_pool)" by (simp add: objpool_ok_def objpool_init_def demo_remio_pool_def)
  have "objpool_used (objpool_init demo_remio_pool) \<noteq> objpool_objects (objpool_init demo_remio_pool)"
    unfolding objpool_init_empty by (simp add: objpool_objects_def objpool_init_def demo_remio_pool_def lessThan_empty_iff)
  with ok obtain a p where alloc: "objpool_alloc (objpool_init demo_remio_pool) = (Some a, p)"
    by (cases rule: objpool_alloc_with_id_cases [OF ok]) (auto simp: objpool_alloc_def)
  obtain dp' st' where run: "remio_init True demo_remio_config demo_remio_pool (demo_remio_state demo_remio_device) = Inr (dp', st')"
    unfolding remio_init_def devs
    by (auto simp: Let_def remio_link_dev_def alloc demo_remio_vm_def remio_new_device_def remio_link_end_def zero_end_def
        remio_bind_dev_def)
  have "\<forall>x \<in> set (remio_config_devs demo_remio_config). rd_bind_key (snd x) \<noteq> - 1 \<and> rd_shmem_size (snd x) \<noteq> 0"
    unfolding devs by (simp add: demo_remio_vm_def)
  from remio_init_pairs [OF run this] have "rdv_bind_key ` set (remio_device_list st') = {3}"
    unfolding devs by (simp add: demo_remio_vm_def)
  with run show ?thesis by blast
qed

end
