(* ===== verification/Mem_Init.thy ===== *)
theory Mem_Init
  imports Page_Alloc Config
begin

text \<open>
  Boot-time memory: the root page pool with the hypervisor's own memory, the reservation of
  everything the configuration places statically, the pools of the other memory regions, and
  \<open>mem_init\<close>, which puts them together (\<open>src/src/core/mem.c\<close>). The linker symbols and platform
  constants are the fields of \<open>layout\<close>. The regions of the platform and their pools are kept
  apart: a pool is created from its region.

  \<open>mem_init\<close> is the master core's part; the other cores only pass the barriers. Coloring of the
  hypervisor's own image is the weak default, which does nothing. Each pool's bitmap is memory of
  its own: for pools of a multiple of 32 pages the allocator of bitmaps gives disjoint granules.
\<close>

record layout =
  mem_non_unified :: bool
  image_start :: u64
  image_load_end :: u64
  image_end :: u64
  vm_image_start :: u64
  vm_image_end :: u64
  data_vma_start :: u64
  img_addr :: u64
  data_addr :: u64
  cpu_boot_alloc_size :: u64
  cpu_num :: u64
  bao_vas_base :: u64
  plat_bitmap_pool_size :: nat

record mem_region =
  mr_base :: u64
  mr_size :: u64

section \<open>The root pool\<close>

definition calc_root_mem_size :: "layout \<Rightarrow> u64" where
  "calc_root_mem_size L =
     (if mem_non_unified L then image_end L - data_vma_start L else image_end L - image_start L)"

definition image_load_ppages :: "layout \<Rightarrow> ppages" where
  "image_load_ppages L =
     (let image_load_size = image_load_end L - image_start L
      in mem_ppages_get (img_addr L) (unat (NUM_PAGES image_load_size)))"

definition image_noload_ppages :: "layout \<Rightarrow> ppages" where
  "image_noload_ppages L =
     (let image_load_size = image_load_end L - image_start L;
          image_noload_size = image_end L - image_load_end L;
          vm_image_size = vm_image_end L - vm_image_start L;
          image_noload_addr = img_addr L + image_load_size + vm_image_size
      in mem_ppages_get image_noload_addr (unat (NUM_PAGES image_noload_size)))"

definition cpu_ppages :: "layout \<Rightarrow> ppages" where
  "cpu_ppages L =
     (let cpu_size = cpu_num L * cpu_boot_alloc_size L;
          cpu_base_addr =
            (if mem_non_unified L then data_vma_start L + (image_end L - data_vma_start L)
             else (let image_load_size = image_load_end L - image_start L;
                       image_noload_size = image_end L - image_load_end L;
                       vm_image_size = vm_image_end L - vm_image_start L
                   in img_addr L + image_load_size + vm_image_size + image_noload_size))
      in mem_ppages_get cpu_base_addr (unat (NUM_PAGES cpu_size)))"

definition data_ppages :: "layout \<Rightarrow> ppages" where
  "data_ppages L = mem_ppages_get (data_vma_start L) (unat (NUM_PAGES (image_end L - data_vma_start L)))"

definition pp_root_reserve_hyp_image_load :: "layout \<Rightarrow> page_pool \<Rightarrow> bool \<times> page_pool" where
  "pp_root_reserve_hyp_image_load L pool = mem_reserve_ppool_ppages pool (image_load_ppages L)"

definition pp_root_reserve_hyp_image_noload :: "layout \<Rightarrow> page_pool \<Rightarrow> bool \<times> page_pool" where
  "pp_root_reserve_hyp_image_noload L pool = mem_reserve_ppool_ppages pool (image_noload_ppages L)"

definition pp_root_reserve_cpus :: "layout \<Rightarrow> page_pool \<Rightarrow> bool \<times> page_pool" where
  "pp_root_reserve_cpus L pool = mem_reserve_ppool_ppages pool (cpu_ppages L)"

definition pp_root_reserve_hyp_data :: "layout \<Rightarrow> page_pool \<Rightarrow> bool \<times> page_pool" where
  "pp_root_reserve_hyp_data L pool = mem_reserve_ppool_ppages pool (data_ppages L)"

definition pp_root_reserve_hyp_mem :: "layout \<Rightarrow> page_pool \<Rightarrow> bool \<times> page_pool" where
  "pp_root_reserve_hyp_mem L pool =
     (if mem_non_unified L then
        (let (hyp_data_mem, pool) = pp_root_reserve_hyp_data L pool;
             (cpus_mem, pool) = pp_root_reserve_cpus L pool
         in (hyp_data_mem \<and> cpus_mem, pool))
      else
        (let (hyp_image_load_mem, pool) = pp_root_reserve_hyp_image_load L pool;
             (hyp_image_noload_mem, pool) = pp_root_reserve_hyp_image_noload L pool;
             (cpus_mem, pool) = pp_root_reserve_cpus L pool
         in (hyp_image_load_mem \<and> hyp_image_noload_mem \<and> cpus_mem, pool)))"

text \<open>
  The initialisation of a pool returns the index of the first free byte of the bitmap array and
  the pool, or nothing when it fails.
\<close>

definition pp_root_init :: "layout \<Rightarrow> nat \<Rightarrow> mem_region \<Rightarrow> (nat \<times> page_pool) option" where
  "pp_root_init L last_index region =
     (let n = unat (mr_size region div PAGE_SIZE);
          root_pool = \<lparr>pp_base = ALIGN (mr_base region) PAGE_SIZE, pp_num_pages = n, pp_free = of_nat n,
            pp_last = 0, pp_bitmap = (\<lambda>g. 0)\<rparr>
      in case pp_bitmap_alloc (plat_bitmap_pool_size L) last_index n of
           (False, _, _) \<Rightarrow> None
         | (True, last_index, _) \<Rightarrow>
             (let (ok, root_pool) = pp_root_reserve_hyp_mem L root_pool
              in if \<not> ok then None else Some (last_index, root_pool\<lparr>pp_last := 0\<rparr>)))"

definition pp_init :: "layout \<Rightarrow> nat \<Rightarrow> u64 \<Rightarrow> u64 \<Rightarrow> (nat \<times> page_pool) option" where
  "pp_init L last_index base sz =
     (let n = unat (NUM_PAGES sz)
      in case pp_bitmap_alloc (plat_bitmap_pool_size L) last_index n of
           (False, _, _) \<Rightarrow> None
         | (True, last_index, _) \<Rightarrow>
             Some (last_index, \<lparr>pp_base = ALIGN base PAGE_SIZE, pp_num_pages = n, pp_free = of_nat n,
               pp_last = 0, pp_bitmap = (\<lambda>g. 0)\<rparr>))"

text \<open>The index of the first region that holds the hypervisor's image.\<close>

definition mem_find_root_region :: "layout \<Rightarrow> mem_region list \<Rightarrow> nat option" where
  "mem_find_root_region L regs =
     (let root_mem_size = calc_root_mem_size L;
          root_base_addr = (if mem_non_unified L then data_addr L else img_addr L)
      in find (\<lambda>i. range_in_range root_base_addr root_mem_size (mr_base (regs ! i)) (mr_size (regs ! i)))
           [0..<length regs])"

definition mem_setup_root_pool :: "layout \<Rightarrow> nat \<Rightarrow> mem_region list \<Rightarrow> (nat \<times> nat \<times> page_pool) option" where
  "mem_setup_root_pool L last_index regs =
     (case mem_find_root_region L regs of
        None \<Rightarrow> None
      | Some i \<Rightarrow>
          (case pp_root_init L last_index (regs ! i) of
             None \<Rightarrow> None
           | Some (last_index, pool) \<Rightarrow> Some (i, last_index, pool)))"

section \<open>Static reservations\<close>

definition mem_vm_img_in_phys_rgn :: "vm_config \<Rightarrow> bool" where
  "mem_vm_img_in_phys_rgn vm \<longleftrightarrow>
     (\<exists>r \<in> set (plat_regions (vmc_platform vm)). rg_place_phys r \<and>
        range_in_range (img_load_addr vm) (img_size vm) (rg_phys r) (rg_size r))"

definition init_region :: "vm_mem_region \<Rightarrow> vm_mem_region" where
  "init_region r = (if rg_place_phys r then r\<lparr>rg_reserved := False\<rparr> else r)"

definition init_shmem :: "shmem \<Rightarrow> shmem" where
  "init_shmem s = (if sh_place_phys s then s\<lparr>sh_reserved := False\<rparr> else s)"

definition mem_init_reserved :: "config \<Rightarrow> config" where
  "mem_init_reserved cfg =
     (let cfg = cfg\<lparr>vmlist := map (\<lambda>vm. vm\<lparr>img_reserved := mem_vm_img_in_phys_rgn vm\<rparr>) (vmlist cfg)\<rparr>;
          cfg = cfg\<lparr>vmlist := map (\<lambda>vm. vm\<lparr>vmc_platform := (vmc_platform vm)
            \<lparr>plat_regions := map init_region (plat_regions (vmc_platform vm))\<rparr>\<rparr>) (vmlist cfg)\<rparr>
      in cfg\<lparr>shmemlist := map init_shmem (shmemlist cfg)\<rparr>)"

definition mem_check_reserved :: "layout \<Rightarrow> bool \<Rightarrow> config \<Rightarrow> bool" where
  "mem_check_reserved L hyp_image_no_load_reserved cfg \<longleftrightarrow>
     (mem_non_unified L \<longrightarrow> hyp_image_no_load_reserved) \<and>
     (\<forall>vm \<in> set (vmlist cfg). img_reserved vm) \<and>
     (\<forall>vm \<in> set (vmlist cfg). \<forall>r \<in> set (plat_regions (vmc_platform vm)). rg_place_phys r \<longrightarrow> rg_reserved r) \<and>
     (\<forall>s \<in> set (shmemlist cfg). sh_place_phys s \<longrightarrow> sh_reserved s)"

text \<open>
  The loop that the three reservation loops of \<open>mem_reserve_physical_memory\<close> have in common: an
  item that is wanted and can be reserved in the pool is marked.
\<close>

fun reserve_items :: "('i \<Rightarrow> bool) \<Rightarrow> ('i \<Rightarrow> ppages) \<Rightarrow> ('i \<Rightarrow> 'i) \<Rightarrow> page_pool \<Rightarrow> 'i list \<Rightarrow> page_pool \<times> 'i list" where
  "reserve_items wanted pages_of mark pool [] = (pool, [])"
| "reserve_items wanted pages_of mark pool (it # rest) =
     (let (r, pool) = (if wanted it then mem_reserve_ppool_ppages pool (pages_of it) else (False, pool));
          (pool, rest) = reserve_items wanted pages_of mark pool rest
      in (pool, (if r then mark it else it) # rest))"

definition img_pages :: "vm_config \<Rightarrow> ppages" where
  "img_pages vm = mem_ppages_get (img_load_addr vm) (unat (NUM_PAGES (img_size vm)))"

definition region_pages :: "vm_mem_region \<Rightarrow> ppages" where
  "region_pages r = mem_ppages_get (rg_phys r) (unat (NUM_PAGES (rg_size r)))"

definition shmem_pages :: "shmem \<Rightarrow> ppages" where
  "shmem_pages s = mem_ppages_get (sh_phys s) (unat (NUM_PAGES (sh_size s)))"

definition reserve_images :: "page_pool \<Rightarrow> vm_config list \<Rightarrow> page_pool \<times> vm_config list" where
  "reserve_images = reserve_items (\<lambda>vm. \<not> img_reserved vm) img_pages (\<lambda>vm. vm\<lparr>img_reserved := True\<rparr>)"

definition reserve_regions :: "page_pool \<Rightarrow> vm_mem_region list \<Rightarrow> page_pool \<times> vm_mem_region list" where
  "reserve_regions = reserve_items (\<lambda>r. rg_place_phys r \<and> \<not> rg_reserved r) region_pages
     (\<lambda>r. r\<lparr>rg_reserved := True\<rparr>)"

fun reserve_vm_regions :: "page_pool \<Rightarrow> vm_config list \<Rightarrow> page_pool \<times> vm_config list" where
  "reserve_vm_regions pool [] = (pool, [])"
| "reserve_vm_regions pool (vm # vms) =
     (let (pool, regs) = reserve_regions pool (plat_regions (vmc_platform vm));
          (pool, vms) = reserve_vm_regions pool vms
      in (pool, vm\<lparr>vmc_platform := (vmc_platform vm)\<lparr>plat_regions := regs\<rparr>\<rparr> # vms))"

definition reserve_shmems :: "page_pool \<Rightarrow> shmem list \<Rightarrow> page_pool \<times> shmem list" where
  "reserve_shmems = reserve_items (\<lambda>s. sh_place_phys s \<and> \<not> sh_reserved s) shmem_pages
     (\<lambda>s. s\<lparr>sh_reserved := True, sh_phys := pa_base (shmem_pages s)\<rparr>)"

text \<open>The state: the pool, the configuration and \<open>mem_hyp_image_no_load_reserved\<close>.\<close>

definition mem_reserve_physical_memory ::
    "layout \<Rightarrow> page_pool \<Rightarrow> config \<Rightarrow> bool \<Rightarrow> page_pool \<times> config \<times> bool" where
  "mem_reserve_physical_memory L pool cfg noload =
     (let (pool, noload) =
            (if mem_non_unified L then
               (let (r, pool) = pp_root_reserve_hyp_image_load L pool in (pool, if r then True else noload))
             else (pool, noload));
          (pool, vms) = reserve_images pool (vmlist cfg);
          (pool, vms) = reserve_vm_regions pool vms;
          (pool, shms) = reserve_shmems pool (shmemlist cfg)
      in (pool, cfg\<lparr>vmlist := vms, shmemlist := shms\<rparr>, noload))"

text \<open>The pools of the other regions, appended to the list of pools in order.\<close>

fun mem_create_ppools_loop :: "layout \<Rightarrow> nat \<Rightarrow> (nat \<times> mem_region) list \<Rightarrow> nat \<Rightarrow> page_pool list \<Rightarrow> config \<Rightarrow> bool \<Rightarrow>
    (page_pool list \<times> config \<times> bool) option" where
  "mem_create_ppools_loop L root [] last_index pools cfg noload = Some (pools, cfg, noload)"
| "mem_create_ppools_loop L root ((i, reg) # regs) last_index pools cfg noload =
     (if i \<noteq> root then
        (case pp_init L last_index (mr_base reg) (mr_size reg) of
           None \<Rightarrow> None
         | Some (last_index, pool) \<Rightarrow>
             (let (pool, cfg, noload) = mem_reserve_physical_memory L pool cfg noload
              in mem_create_ppools_loop L root regs last_index (pools @ [pool]) cfg noload))
      else mem_create_ppools_loop L root regs last_index pools cfg noload)"

definition mem_create_ppools :: "layout \<Rightarrow> nat \<Rightarrow> mem_region list \<Rightarrow> nat \<Rightarrow> page_pool list \<Rightarrow> config \<Rightarrow> bool \<Rightarrow>
    (page_pool list \<times> config \<times> bool) option" where
  "mem_create_ppools L root regs = mem_create_ppools_loop L root (zip [0..<length regs] regs)"

definition mem_init :: "layout \<Rightarrow> (config \<Rightarrow> config outcome) \<Rightarrow> mem_region list \<Rightarrow> config \<Rightarrow>
    (page_pool list \<times> config) outcome" where
  "mem_init L mem_prot_init regs cfg =
     (case mem_setup_root_pool L 0 regs of
        None \<Rightarrow> Inl (ERROR ''couldn't not initialize root pool'')
      | Some (root, last_index, root_pool) \<Rightarrow>
          obind (config_init mem_prot_init (bao_vas_base L) (img_addr L) cfg) (\<lambda>cfg.
            (let cfg = mem_init_reserved cfg;
                 (root_pool, cfg, noload) = mem_reserve_physical_memory L root_pool cfg False
             in case mem_create_ppools L root regs last_index [root_pool] cfg noload of
                  None \<Rightarrow> Inl (ERROR ''couldn't create additional page pools'')
                | Some (pools, cfg, noload) \<Rightarrow>
                    (if \<not> mem_check_reserved L noload cfg
                     then Inl (ERROR ''Failed to reserved static allocated memory'')
                     else Inr (pools, cfg)))))"


section \<open>The reservations as one list of items\<close>

text \<open>
  What a configuration places statically, as items (wanted, reserved, pages): the images that are
  not part of a region of their own VM, the regions and the shared memories with a fixed physical
  address. The three loops of \<open>mem_reserve_physical_memory\<close> are one pass over these items.
\<close>

type_synonym item = "bool \<times> bool \<times> ppages"

definition abs_img :: "vm_config \<Rightarrow> item" where
  "abs_img vm = (\<not> mem_vm_img_in_phys_rgn vm, img_reserved vm, img_pages vm)"

definition abs_region :: "vm_mem_region \<Rightarrow> item" where
  "abs_region r = (rg_place_phys r, rg_reserved r, region_pages r)"

definition abs_shmem :: "shmem \<Rightarrow> item" where
  "abs_shmem s = (sh_place_phys s, sh_reserved s, shmem_pages s)"

definition vm_items :: "vm_config \<Rightarrow> item list" where
  "vm_items vm = map abs_region (plat_regions (vmc_platform vm))"

definition static_items :: "config \<Rightarrow> item list" where
  "static_items cfg =
     map abs_img (vmlist cfg) @ concat (map vm_items (vmlist cfg)) @ map abs_shmem (shmemlist cfg)"

definition item_wanted :: "item \<Rightarrow> bool" where "item_wanted it \<longleftrightarrow> fst it \<and> \<not> fst (snd it)"
definition item_pages :: "item \<Rightarrow> ppages" where "item_pages it = snd (snd it)"
definition item_mark :: "item \<Rightarrow> item" where "item_mark it = (fst it, True, snd (snd it))"

abbreviation reserve_pass :: "page_pool \<Rightarrow> item list \<Rightarrow> page_pool \<times> item list" where
  "reserve_pass \<equiv> reserve_items item_wanted item_pages item_mark"

lemma reserve_items_abs:
  assumes "reserve_items wanted pages_of mark pool its = (pool', its')"
    and "\<And>it. it \<in> set its \<Longrightarrow> wanted it = w (f it) \<and> pages_of it = pg (f it) \<and> f (mark it) = mk (f it)"
  shows "reserve_items w pg mk pool (map f its) = (pool', map f its')"
  using assms
proof (induction its arbitrary: pool its')
  case Nil
  then show ?case by simp
next
  case (Cons it its)
  then show ?case by (auto simp: Let_def split: prod.splits if_splits)
qed

lemma reserve_items_append:
  "reserve_items w pg mk pool (xs @ ys) =
     (let (pool, xs) = reserve_items w pg mk pool xs; (pool, ys) = reserve_items w pg mk pool ys
      in (pool, xs @ ys))"
  by (induction xs arbitrary: pool) (auto simp: Let_def split: prod.splits)

lemma reserve_items_marks:
  assumes "reserve_items w pg mk pool its = (pool', its')" and "\<And>it. key (mk it) = key it"
  shows "map key its' = map key its"
  using assms
  by (induction its arbitrary: pool its') (auto simp: Let_def split: prod.splits if_splits)

text \<open>An image inside a region of its own VM counts as reserved from the start.\<close>

definition deferred_ok :: "config \<Rightarrow> bool" where
  "deferred_ok cfg \<longleftrightarrow> (\<forall>vm \<in> set (vmlist cfg). mem_vm_img_in_phys_rgn vm \<longrightarrow> img_reserved vm)"

lemma img_in_rgn_key:
  assumes "map (\<lambda>r. (rg_place_phys r, rg_phys r, rg_size r)) regs' = map (\<lambda>r. (rg_place_phys r, rg_phys r, rg_size r)) regs"
  shows "(\<exists>r \<in> set regs'. rg_place_phys r \<and> range_in_range a s (rg_phys r) (rg_size r)) \<longleftrightarrow>
    (\<exists>r \<in> set regs. rg_place_phys r \<and> range_in_range a s (rg_phys r) (rg_size r))"
proof -
  have key: "(\<exists>r \<in> set rs. rg_place_phys r \<and> range_in_range a s (rg_phys r) (rg_size r)) \<longleftrightarrow>
      (\<exists>(p, b, z) \<in> set (map (\<lambda>r. (rg_place_phys r, rg_phys r, rg_size r)) rs). p \<and> range_in_range a s b z)" for rs
    by auto
  show ?thesis unfolding key [of regs'] key [of regs] assms ..
qed

lemma reserve_images_abs:
  assumes "reserve_images pool vms = (pool', vms')"
    and "\<And>vm. vm \<in> set vms \<Longrightarrow> mem_vm_img_in_phys_rgn vm \<Longrightarrow> img_reserved vm"
  shows "reserve_pass pool (map abs_img vms) = (pool', map abs_img vms')"
  using assms(1) unfolding reserve_images_def
  by (rule reserve_items_abs)
    (use assms(2) in \<open>auto simp: abs_img_def item_wanted_def item_pages_def item_mark_def img_pages_def
      mem_vm_img_in_phys_rgn_def\<close>)

lemma reserve_images_same:
  assumes "reserve_images pool vms = (pool', vms')"
  shows "map vm_items vms' = map vm_items vms"
    and "list_all2 (\<lambda>vm vm'. mem_vm_img_in_phys_rgn vm' = mem_vm_img_in_phys_rgn vm \<and>
      (img_reserved vm \<longrightarrow> img_reserved vm')) vms vms'"
proof -
  show "map vm_items vms' = map vm_items vms"
    using assms unfolding reserve_images_def by (rule reserve_items_marks) (simp add: vm_items_def)
  show "list_all2 (\<lambda>vm vm'. mem_vm_img_in_phys_rgn vm' = mem_vm_img_in_phys_rgn vm \<and>
      (img_reserved vm \<longrightarrow> img_reserved vm')) vms vms'"
    using assms unfolding reserve_images_def
    by (induction vms arbitrary: pool vms')
      (auto simp: Let_def mem_vm_img_in_phys_rgn_def split: prod.splits if_splits)
qed

lemma reserve_regions_abs:
  assumes "reserve_regions pool regs = (pool', regs')"
  shows "reserve_pass pool (map abs_region regs) = (pool', map abs_region regs')"
    and "map (\<lambda>r. (rg_place_phys r, rg_phys r, rg_size r)) regs' = map (\<lambda>r. (rg_place_phys r, rg_phys r, rg_size r)) regs"
proof -
  show "reserve_pass pool (map abs_region regs) = (pool', map abs_region regs')"
    using assms unfolding reserve_regions_def
    by (rule reserve_items_abs)
      (auto simp: abs_region_def item_wanted_def item_pages_def item_mark_def region_pages_def)
  show "map (\<lambda>r. (rg_place_phys r, rg_phys r, rg_size r)) regs' = map (\<lambda>r. (rg_place_phys r, rg_phys r, rg_size r)) regs"
    using assms unfolding reserve_regions_def by (rule reserve_items_marks) simp
qed

lemma reserve_vm_regions_abs:
  assumes "reserve_vm_regions pool vms = (pool', vms')"
  shows "reserve_pass pool (concat (map vm_items vms)) = (pool', concat (map vm_items vms')) \<and>
    map abs_img vms' = map abs_img vms"
  using assms
proof (induction vms arbitrary: pool pool' vms')
  case Nil
  then show ?case by simp
next
  case (Cons vm vms)
  obtain pool1 regs where r: "reserve_regions pool (plat_regions (vmc_platform vm)) = (pool1, regs)"
    by (metis surj_pair)
  obtain pool2 vs where v: "reserve_vm_regions pool1 vms = (pool2, vs)" by (metis surj_pair)
  have res: "pool' = pool2" "vms' = vm\<lparr>vmc_platform := (vmc_platform vm)\<lparr>plat_regions := regs\<rparr>\<rparr> # vs"
    using Cons.prems by (simp_all add: r v)
  let ?vm = "vm\<lparr>vmc_platform := (vmc_platform vm)\<lparr>plat_regions := regs\<rparr>\<rparr>"
  have "mem_vm_img_in_phys_rgn ?vm = mem_vm_img_in_phys_rgn vm"
    unfolding mem_vm_img_in_phys_rgn_def
    using img_in_rgn_key [OF reserve_regions_abs(2) [OF r]] by simp
  then have img: "abs_img ?vm = abs_img vm" by (simp add: abs_img_def img_pages_def)
  have "vm_items ?vm = map abs_region regs" by (simp add: vm_items_def)
  with Cons.IH [OF v] reserve_regions_abs(1) [OF r] img show ?case
    by (simp add: res reserve_items_append vm_items_def [of vm])
qed

lemma reserve_shmems_abs:
  assumes "reserve_shmems pool shms = (pool', shms')"
  shows "reserve_pass pool (map abs_shmem shms) = (pool', map abs_shmem shms')"
  using assms unfolding reserve_shmems_def
  by (rule reserve_items_abs)
    (auto simp: abs_shmem_def item_wanted_def item_pages_def item_mark_def shmem_pages_def mem_ppages_get_def)

text \<open>The first step of the non-unified configuration, then one pass over all items.\<close>

definition noload_step :: "layout \<Rightarrow> page_pool \<Rightarrow> page_pool" where
  "noload_step L pool = (if mem_non_unified L then snd (pp_root_reserve_hyp_image_load L pool) else pool)"

lemma mem_reserve_physical_memory_abs:
  assumes "mem_reserve_physical_memory L pool cfg noload = (pool', cfg', noload')" and "deferred_ok cfg"
  shows "reserve_pass (noload_step L pool) (static_items cfg) = (pool', static_items cfg') \<and> deferred_ok cfg'"
proof -
  define pool0 where "pool0 = noload_step L pool"
  obtain pool1 vms1 where i: "reserve_images pool0 (vmlist cfg) = (pool1, vms1)" by (metis surj_pair)
  obtain pool2 vms2 where r: "reserve_vm_regions pool1 vms1 = (pool2, vms2)" by (metis surj_pair)
  obtain pool3 shms where s: "reserve_shmems pool2 (shmemlist cfg) = (pool3, shms)" by (metis surj_pair)
  have res: "pool' = pool3" "cfg' = cfg\<lparr>vmlist := vms2, shmemlist := shms\<rparr>"
    using assms(1) i r s
    by (auto simp: mem_reserve_physical_memory_def Let_def pool0_def noload_step_def split: prod.splits if_splits)
  have d: "mem_vm_img_in_phys_rgn vm \<Longrightarrow> img_reserved vm" if "vm \<in> set (vmlist cfg)" for vm
    using assms(2) that by (auto simp: deferred_ok_def)
  note a = reserve_images_abs [OF i d] and same = reserve_images_same [OF i] and
    b = reserve_vm_regions_abs [OF r] and c = reserve_shmems_abs [OF s]
  have "reserve_pass pool0 (static_items cfg) = (pool', static_items cfg')"
    using a b c same(1) by (simp add: static_items_def reserve_items_append res)
  moreover have "deferred_ok cfg'"
  proof -
    have "\<forall>vm \<in> set vms1. mem_vm_img_in_phys_rgn vm \<longrightarrow> img_reserved vm"
      using same(2) d
    proof (induction rule: list_all2_induct)
      case (Cons vm vms vm' vms')
      then show ?case by (metis (no_types, lifting) list.set_intros set_ConsD)
    qed simp
    then have "\<forall>it \<in> set (map abs_img vms1). \<not> fst it \<longrightarrow> fst (snd it)" by (auto simp: abs_img_def)
    then have "\<forall>it \<in> set (map abs_img vms2). \<not> fst it \<longrightarrow> fst (snd it)" using b by simp
    then show ?thesis by (auto simp: deferred_ok_def res abs_img_def)
  qed
  ultimately show ?thesis by (simp add: pool0_def)
qed


section \<open>What is reserved is held once\<close>

text \<open>An item that is wanted and reserved holds its frames.\<close>

definition item_frames :: "item \<Rightarrow> nat set" where
  "item_frames it = ppages_frames (item_pages it)"

definition held_frames :: "item list \<Rightarrow> nat set list" where
  "held_frames items = map item_frames (filter (\<lambda>it. fst it \<and> fst (snd it)) items)"

definition partitioned :: "item list \<Rightarrow> nat set \<Rightarrow> bool" where
  "partitioned items U \<longleftrightarrow> disjoint_list (held_frames items) \<and> \<Union> (set (held_frames items)) \<subseteq> U"

definition items_ok :: "item list \<Rightarrow> bool" where
  "items_ok items \<longleftrightarrow> (\<forall>it \<in> set items. fst it \<longrightarrow> ppages_ok (item_pages it))"

lemma held_frames_append [simp]: "held_frames (xs @ ys) = held_frames xs @ held_frames ys"
  by (simp add: held_frames_def)

lemma held_frames_Cons:
  "held_frames (it # ys) = (if fst it \<and> fst (snd it) then item_frames it # held_frames ys else held_frames ys)"
  by (simp add: held_frames_def)

lemma partitioned_mono: "partitioned items U \<Longrightarrow> U \<subseteq> U' \<Longrightarrow> partitioned items U'"
  by (auto simp: partitioned_def)

lemma partitioned_mark:
  assumes "partitioned (xs @ it # ys) U" and "item_wanted it" and "item_frames it \<inter> U = {}"
  shows "partitioned (xs @ item_mark it # ys) (U \<union> item_frames it)"
proof -
  have h: "held_frames (it # ys) = held_frames ys" "held_frames (item_mark it # ys) = item_frames it # held_frames ys"
    using assms(2) by (simp_all add: held_frames_Cons item_wanted_def item_mark_def item_frames_def item_pages_def)
  from assms(1) have d: "disjoint_list (held_frames xs)" "disjoint_list (held_frames ys)"
    "\<Union> (set (held_frames xs)) \<inter> \<Union> (set (held_frames ys)) = {}"
    and sub: "\<Union> (set (held_frames xs)) \<subseteq> U" "\<Union> (set (held_frames ys)) \<subseteq> U"
    by (auto simp: partitioned_def h disjoint_list_append)
  have "\<Union> (set (held_frames xs)) \<inter> item_frames it = {}" "item_frames it \<inter> \<Union> (set (held_frames ys)) = {}"
    using sub assms(3) by blast+
  then have "disjoint_list (held_frames (xs @ item_mark it # ys))"
    using d by (simp add: h disjoint_list_append Int_Un_distrib)
  moreover have "\<Union> (set (held_frames (xs @ item_mark it # ys))) \<subseteq> U \<union> item_frames it"
    using sub by (simp add: h) blast
  ultimately show ?thesis by (simp add: partitioned_def)
qed

lemma reserve_pass_partitioned:
  assumes "reserve_pass pool items = (pool', items')" and "pp_wf pool" and "items_ok items"
    and "partitioned (gh @ items) (V \<union> pp_used pool)" and "V \<inter> pp_frames pool = {}"
  shows "partitioned (gh @ items') (V \<union> pp_used pool') \<and> pp_wf pool' \<and> pp_frames pool' = pp_frames pool \<and>
    items_ok items' \<and> pp_used pool \<subseteq> pp_used pool' \<and> (pp_exact pool \<longrightarrow> pp_exact pool') \<and>
    map (\<lambda>it. (fst it, item_pages it)) items' = map (\<lambda>it. (fst it, item_pages it)) items"
  using assms
proof (induction items arbitrary: pool pool' gh items')
  case Nil
  then show ?case by (simp add: items_ok_def)
next
  case (Cons it items)
  obtain r pool1 where step: "(if item_wanted it then mem_reserve_ppool_ppages pool (item_pages it) else (False, pool)) = (r, pool1)"
    by (metis surj_pair)
  obtain pool2 rest where rest: "reserve_pass pool1 items = (pool2, rest)" by (metis surj_pair)
  have res: "pool' = pool2" "items' = (if r then item_mark it else it) # rest"
    using Cons.prems(1) by (simp_all add: step rest)
  have ok: "items_ok items" "item_wanted it \<Longrightarrow> ppages_ok (item_pages it)"
    using Cons.prems(3) by (auto simp: items_ok_def item_wanted_def)
  have one: "partitioned (gh @ (if r then item_mark it else it) # items) (V \<union> pp_used pool1) \<and>
      pp_wf pool1 \<and> pp_frames pool1 = pp_frames pool \<and> pp_used pool \<subseteq> pp_used pool1 \<and> (pp_exact pool \<longrightarrow> pp_exact pool1)"
  proof (cases "item_wanted it")
    case False
    with step Cons.prems show ?thesis by simp
  next
    case True
    then have "mem_reserve_ppool_ppages pool (item_pages it) = (r, pool1)" using step by simp
    note m = mem_reserve_result [OF Cons.prems(2) ok(2) [OF True] this]
    show ?thesis
    proof (cases r)
      case False
      with m Cons.prems(4) show ?thesis by simp
    next
      case r: True
      with m have f: "item_frames it \<subseteq> pp_frames pool" "item_frames it \<inter> pp_used pool = {}"
        "pp_used pool1 = pp_used pool \<union> item_frames it" by (simp_all add: item_frames_def)
      then have "item_frames it \<inter> (V \<union> pp_used pool) = {}" using Cons.prems(5) by blast
      from partitioned_mark [OF Cons.prems(4) True this] f(3) r m show ?thesis
        by (simp add: Un_assoc)
    qed
  qed
  then have "partitioned ((gh @ [if r then item_mark it else it]) @ items) (V \<union> pp_used pool1)"
    and "V \<inter> pp_frames pool1 = {}" using Cons.prems(5) by simp_all
  note IH = Cons.IH [OF rest _ ok(1) this]
  have w1: "pp_wf pool1" using one by blast
  have key: "fst (if r then item_mark it else it) = fst it" "item_pages (if r then item_mark it else it) = item_pages it"
    by (simp_all add: item_mark_def item_pages_def)
  have "items_ok items' \<longleftrightarrow> items_ok rest \<and> (fst it \<longrightarrow> ppages_ok (item_pages it))"
    by (auto simp: items_ok_def res key)
  moreover have "fst it \<longrightarrow> ppages_ok (item_pages it)" using Cons.prems(3) by (simp add: items_ok_def)
  ultimately show ?case using IH [OF w1] one unfolding res by (simp add: key) blast
qed

section \<open>The pools of the platform\<close>

text \<open>
  A region of the platform that the pool model covers: page aligned, of a multiple of 32 pages,
  and not reaching the end of the address space.
\<close>

definition region_ok :: "mem_region \<Rightarrow> bool" where
  "region_ok r \<longleftrightarrow> unat (mr_base r) mod 4096 = 0 \<and> unat (mr_size r) mod 131072 = 0 \<and>
     unat (mr_base r) + unat (mr_size r) < 2 ^ 64"

definition region_frames :: "mem_region \<Rightarrow> nat set" where
  "region_frames r = {unat (mr_base r) div 4096 ..< unat (mr_base r) div 4096 + unat (mr_size r) div 4096}"

lemma region_align:
  assumes "region_ok r"
  shows "ALIGN (mr_base r) PAGE_SIZE = mr_base r"
    and "unat (NUM_PAGES (mr_size r)) = unat (mr_size r) div 4096"
    and "unat (mr_size r div PAGE_SIZE) = unat (mr_size r) div 4096"
    and "unat (mr_base r) + 4096 \<le> 2 ^ 64"
proof -
  define f where "f = unat (mr_base r) div 4096"
  have b: "unat (mr_base r) = f * 4096" using assms by (auto simp: f_def region_ok_def)
  then have "f < 2 ^ 52" using word_unat_lt [of "mr_base r"] by simp
  then show lim: "unat (mr_base r) + 4096 \<le> 2 ^ 64" by (simp add: b)
  have "(f * 4096 + 4095) div 4096 = f" by (simp add: div_mult_self3)
  then have "unat (ALIGN (mr_base r) PAGE_SIZE) = unat (mr_base r)"
    using unat_ALIGN [of PAGE_SIZE "mr_base r"] lim by (simp add: b)
  then show "ALIGN (mr_base r) PAGE_SIZE = mr_base r" by (simp add: word_unat_eq_iff)
  define k where "k = unat (mr_size r) div 131072"
  have k: "unat (mr_size r) = k * 131072" using assms by (auto simp: k_def region_ok_def)
  then have "k < 2 ^ 47" using word_unat_lt [of "mr_size r"] by simp
  then show "unat (NUM_PAGES (mr_size r)) = unat (mr_size r) div 4096"
    using NUM_PAGES_unat [of "mr_size r"] by (simp add: k)
  show "unat (mr_size r div PAGE_SIZE) = unat (mr_size r) div 4096" by (simp add: unat_div)
qed

lemma fresh_pool:
  assumes "region_ok r" and "n = unat (mr_size r) div 4096"
    and "pool = \<lparr>pp_base = mr_base r, pp_num_pages = n, pp_free = of_nat n, pp_last = 0, pp_bitmap = (\<lambda>g. 0)\<rparr>"
  shows "pp_wf pool \<and> pp_frames pool = region_frames r \<and> pp_used pool = {} \<and> pp_exact pool"
proof -
  obtain k where k: "unat (mr_size r) = k * 131072" using assms(1) by (auto simp: region_ok_def mod_eq_0_iff_dvd elim: dvdE)
  then have n: "n = 32 * k" "n * 4096 = unat (mr_size r)" using assms(2) by simp_all
  have "n < 2 ^ 64" using n(2) word_unat_lt [of "mr_size r"] by simp
  then have "unat (of_nat n :: u64) = n" by (simp add: unat_of_nat)
  moreover have u: "pp_used pool = {}" by (simp add: assms(3) pp_used_def bm_def)
  ultimately have "pp_exact pool" unfolding pp_exact_def u by (simp add: assms(3))
  moreover have "pp_wf pool" using assms(1) n by (simp add: assms(3) pp_wf_def region_ok_def)
  ultimately show ?thesis using u assms(2) by (simp add: assms(3) pp_frames_def pp_frame0_def region_frames_def)
qed

lemma pp_init_result:
  assumes "pp_init L last_index (mr_base r) (mr_size r) = Some (last', pool)" and "region_ok r"
  shows "pp_wf pool \<and> pp_frames pool = region_frames r \<and> pp_used pool = {} \<and> pp_exact pool"
proof -
  have "pool = \<lparr>pp_base = mr_base r, pp_num_pages = unat (mr_size r) div 4096,
      pp_free = of_nat (unat (mr_size r) div 4096), pp_last = 0, pp_bitmap = (\<lambda>g. 0)\<rparr>"
    using assms(1) region_align [OF assms(2)]
    by (auto simp: pp_init_def Let_def pp_bitmap_alloc_def split: if_splits)
  with fresh_pool [OF assms(2)] show ?thesis by blast
qed


text \<open>The hypervisor's own pages, reserved first, from the root pool.\<close>

definition hyp_pages :: "layout \<Rightarrow> ppages list" where
  "hyp_pages L = (if mem_non_unified L then [data_ppages L, cpu_ppages L]
     else [image_load_ppages L, image_noload_ppages L, cpu_ppages L])"

definition layout_ok :: "layout \<Rightarrow> bool" where
  "layout_ok L \<longleftrightarrow> (\<forall>g \<in> set (hyp_pages L). ppages_ok g) \<and> ppages_ok (image_load_ppages L)"

definition hyp_items :: "layout \<Rightarrow> item list" where
  "hyp_items L = map (\<lambda>g. (True, True, g)) (hyp_pages L)"

lemma held_hyp_items: "held_frames (hyp_items L) = map ppages_frames (hyp_pages L)"
  by (simp add: held_frames_def hyp_items_def item_frames_def item_pages_def)

lemma pp_root_reserve_hyp_mem_pass:
  assumes "pp_root_reserve_hyp_mem L pool = (True, pool')"
  shows "reserve_pass pool (map (\<lambda>g. (True, False, g)) (hyp_pages L)) = (pool', hyp_items L)"
  using assms
  by (auto simp: pp_root_reserve_hyp_mem_def hyp_pages_def hyp_items_def pp_root_reserve_hyp_data_def
    pp_root_reserve_cpus_def pp_root_reserve_hyp_image_load_def pp_root_reserve_hyp_image_noload_def
    item_wanted_def item_pages_def item_mark_def Let_def split: prod.splits if_splits)

lemma pp_last_0 [simp]:
  "pp_used (p\<lparr>pp_last := 0\<rparr>) = pp_used p" "pp_frames (p\<lparr>pp_last := 0\<rparr>) = pp_frames p"
  "pp_wf p \<Longrightarrow> pp_wf (p\<lparr>pp_last := 0\<rparr>)" "pp_exact (p\<lparr>pp_last := 0\<rparr>) = pp_exact p"
  by (simp_all add: pp_used_def pp_frames_def pp_frame0_def pp_wf_def pp_exact_def)

lemma pp_root_init_result:
  assumes "pp_root_init L last_index r = Some (last', pool)" and r: "region_ok r" and L: "layout_ok L"
  shows "pp_wf pool \<and> pp_frames pool = region_frames r \<and> partitioned (hyp_items L) (pp_used pool) \<and> pp_exact pool"
proof -
  define n where "n = unat (mr_size r) div 4096"
  define fresh :: page_pool where
    "fresh = \<lparr>pp_base = mr_base r, pp_num_pages = n, pp_free = of_nat n, pp_last = 0, pp_bitmap = (\<lambda>g. 0)\<rparr>"
  note f = fresh_pool [OF r n_def fresh_def]
  obtain pool1 where p1: "pp_root_reserve_hyp_mem L fresh = (True, pool1)" "pool = pool1\<lparr>pp_last := 0\<rparr>"
    using assms(1) region_align [OF r]
    by (auto simp: pp_root_init_def Let_def pp_bitmap_alloc_def fresh_def n_def split: if_splits prod.splits)
  have "items_ok (map (\<lambda>g. (True, False, g)) (hyp_pages L))"
    using L by (auto simp: items_ok_def layout_ok_def item_pages_def)
  moreover have "partitioned ([] @ map (\<lambda>g. (True, False, g)) (hyp_pages L)) ({} \<union> pp_used fresh)"
    by (simp add: partitioned_def held_frames_def)
  ultimately have "partitioned ([] @ hyp_items L) ({} \<union> pp_used pool1) \<and> pp_wf pool1 \<and>
      pp_frames pool1 = pp_frames fresh \<and> (pp_exact fresh \<longrightarrow> pp_exact pool1)"
    using reserve_pass_partitioned [OF pp_root_reserve_hyp_mem_pass [OF p1(1)], of "[]" "{}"] f by blast
  with f p1(2) show ?thesis by simp
qed

lemma noload_step_result:
  assumes "pp_wf pool" and "layout_ok L"
  shows "pp_wf (noload_step L pool) \<and> pp_frames (noload_step L pool) = pp_frames pool \<and>
    pp_used pool \<subseteq> pp_used (noload_step L pool) \<and> (pp_exact pool \<longrightarrow> pp_exact (noload_step L pool))"
proof -
  obtain r pool' where m: "mem_reserve_ppool_ppages pool (image_load_ppages L) = (r, pool')" by (metis surj_pair)
  have "ppages_ok (image_load_ppages L)" using assms(2) by (simp add: layout_ok_def)
  from mem_reserve_result [OF assms(1) this m] assms(1) show ?thesis
    by (auto simp: noload_step_def pp_root_reserve_hyp_image_load_def m)
qed

lemma mem_reserve_physical_memory_result:
  assumes "mem_reserve_physical_memory L pool cfg noload = (pool', cfg', noload')" and "deferred_ok cfg"
    and "pp_wf pool" and "layout_ok L" and "items_ok (static_items cfg)"
    and "partitioned (gh @ static_items cfg) (V \<union> pp_used pool)" and "V \<inter> pp_frames pool = {}"
  shows "partitioned (gh @ static_items cfg') (V \<union> pp_used pool') \<and> deferred_ok cfg' \<and> pp_wf pool' \<and>
    pp_frames pool' = pp_frames pool \<and> items_ok (static_items cfg') \<and> (pp_exact pool \<longrightarrow> pp_exact pool') \<and>
    map (\<lambda>it. (fst it, item_pages it)) (static_items cfg') = map (\<lambda>it. (fst it, item_pages it)) (static_items cfg)"
proof -
  note a = mem_reserve_physical_memory_abs [OF assms(1,2)] and n = noload_step_result [OF assms(3,4)]
  have "partitioned (gh @ static_items cfg) (V \<union> pp_used (noload_step L pool))"
    using assms(6) by (rule partitioned_mono) (use n in blast)
  with reserve_pass_partitioned [OF conjunct1 [OF a] _ assms(5), of gh V] n assms(7) a show ?thesis by simp
qed

lemma pools_used_subset: "pools_used ps \<subseteq> pools_frames ps"
  using pp_used_subset by (auto simp: pools_used_def pools_frames_def)

lemma pools_used_snoc [simp]: "pools_used (ps @ [p]) = pools_used ps \<union> pp_used p"
  by (auto simp: pools_used_def)

text \<open>What holds of the pools and the configuration while the pools are created.\<close>

definition boot_inv :: "layout \<Rightarrow> page_pool list \<Rightarrow> config \<Rightarrow> bool" where
  "boot_inv L pools cfg \<longleftrightarrow> (\<forall>p \<in> set pools. pp_wf p \<and> pp_exact p) \<and> deferred_ok cfg \<and>
     items_ok (static_items cfg) \<and> partitioned (hyp_items L @ static_items cfg) (pools_used pools)"

lemma mem_create_ppools_loop_result:
  assumes "mem_create_ppools_loop L root xs last_index pools cfg noload = Some (pools', cfg', noload')"
    and "\<forall>(i, r) \<in> set xs. region_ok r"
    and "disjoint_list (map pp_frames pools @ map (\<lambda>(i, r). region_frames r) (filter (\<lambda>(i, r). i \<noteq> root) xs))"
    and "layout_ok L" and "boot_inv L pools cfg"
  shows "boot_inv L pools' cfg' \<and> disjoint_list (map pp_frames pools') \<and>
    map (\<lambda>it. (fst it, item_pages it)) (static_items cfg') = map (\<lambda>it. (fst it, item_pages it)) (static_items cfg)"
  using assms
proof (induction L root xs last_index pools cfg noload rule: mem_create_ppools_loop.induct)
  case (1 L root last_index pools cfg noload)
  then show ?case by simp
next
  case (2 L root i reg regs last_index pools cfg noload)
  show ?case
  proof (cases "i \<noteq> root")
    case False
    with 2 show ?thesis by auto
  next
    case True
    then obtain last1 pool0 where init: "pp_init L last_index (mr_base reg) (mr_size reg) = Some (last1, pool0)"
      using 2(3) by (auto split: option.splits)
    obtain pool cfg1 noload1 where
      res: "mem_reserve_physical_memory L pool0 cfg noload = (pool, cfg1, noload1)" by (metis prod_cases3)
    have rec: "mem_create_ppools_loop L root regs last1 (pools @ [pool]) cfg1 noload1 = Some (pools', cfg', noload')"
      using 2(3) True init res by simp
    have reg: "region_ok reg" using 2(4) by simp
    note p0 = pp_init_result [OF init reg]
    have d: "disjoint_list (map pp_frames pools @ region_frames reg #
        map (\<lambda>(i, r). region_frames r) (filter (\<lambda>(i, r). i \<noteq> root) regs))"
      using 2(5) True by simp
    then have "pools_frames pools \<inter> region_frames reg = {}"
      by (auto simp: disjoint_list_append pools_frames_def)
    then have "pools_used pools \<inter> pp_frames pool0 = {}" using pools_used_subset [of pools] p0 by blast
    moreover have "partitioned (hyp_items L @ static_items cfg) (pools_used pools \<union> pp_used pool0)"
      and "deferred_ok cfg" and "items_ok (static_items cfg)"
      using 2(7) p0 by (auto simp: boot_inv_def)
    ultimately have r: "partitioned (hyp_items L @ static_items cfg1) (pools_used pools \<union> pp_used pool) \<and>
        deferred_ok cfg1 \<and> pp_wf pool \<and> pp_frames pool = pp_frames pool0 \<and> items_ok (static_items cfg1) \<and>
        (pp_exact pool0 \<longrightarrow> pp_exact pool) \<and>
        map (\<lambda>it. (fst it, item_pages it)) (static_items cfg1) = map (\<lambda>it. (fst it, item_pages it)) (static_items cfg)"
      using mem_reserve_physical_memory_result [OF res _ _ 2(6)] p0 by blast
    then have "boot_inv L (pools @ [pool]) cfg1" using 2(7) p0 by (simp add: boot_inv_def)
    moreover have "disjoint_list (map pp_frames (pools @ [pool]) @
        map (\<lambda>(i, r). region_frames r) (filter (\<lambda>(i, r). i \<noteq> root) regs))"
      using d r p0 by simp
    moreover have "\<forall>(i, r) \<in> set regs. region_ok r" using 2(4) by simp
    ultimately show ?thesis
      using 2(1) [OF True init refl res [symmetric] refl refl rec] 2(6) r by simp
  qed
qed


section \<open>The result of the boot\<close>

lemma other_regions:
  assumes "root < length regs"
  shows "map (\<lambda>(i, r). region_frames r) (filter (\<lambda>(i, r). i \<noteq> root) (zip [0..<length regs] regs)) =
    map region_frames (take root regs @ drop (Suc root) regs)"
proof -
  define us vs where "us = take root regs" and "vs = drop (Suc root) regs"
  have regs: "regs = us @ regs ! root # vs" and len: "length us = root"
    using assms by (simp_all add: us_def vs_def id_take_nth_drop)
  have "[0..<length regs] = [0..<root] @ root # [Suc root..<length regs]"
    using assms by (metis le_add1 le_add_same_cancel1 less_imp_le_nat upt_add_eq_append upt_conv_Cons le_Suc_ex)
  then have z: "zip [0..<length regs] regs = zip [0..<root] us @ (root, regs ! root) # zip [Suc root..<length regs] vs"
    by (subst (2) regs) (simp add: len)
  have "filter (\<lambda>(i, r). i \<noteq> root) (zip [0..<root] us) = zip [0..<root] us"
    by (rule filter_True) (auto dest: set_zip_leftD)
  moreover have "filter (\<lambda>(i, r). i \<noteq> root) (zip [Suc root..<length regs] vs) = zip [Suc root..<length regs] vs"
    by (rule filter_True) (auto dest: set_zip_leftD)
  moreover have "map (\<lambda>(i, r). region_frames r) (zip xs ys) = map region_frames ys" if "length xs = length ys" for xs :: "nat list" and ys
    using that by (induction xs ys rule: list_induct2) auto
  moreover have "length vs = length regs - Suc root" by (simp add: vs_def)
  ultimately show ?thesis using len by (simp add: z us_def [symmetric] vs_def [symmetric])
qed

lemma disjoint_list_move:
  "disjoint_list (us @ x # vs) \<Longrightarrow> disjoint_list (x # us @ vs)"
  by (auto simp: disjoint_list_append)

lemma mem_init_reserved_items:
  "deferred_ok (mem_init_reserved cfg)"
  "\<forall>it \<in> set (static_items (mem_init_reserved cfg)). fst it \<longrightarrow> \<not> fst (snd it)"
proof -
  have rgn: "mem_vm_img_in_phys_rgn (vm\<lparr>img_reserved := b, vmc_platform := (vmc_platform vm)
      \<lparr>plat_regions := map init_region (plat_regions (vmc_platform vm))\<rparr>\<rparr>) = mem_vm_img_in_phys_rgn vm" for vm b
    using img_in_rgn_key [of "map init_region (plat_regions (vmc_platform vm))" "plat_regions (vmc_platform vm)"]
    by (simp add: mem_vm_img_in_phys_rgn_def init_region_def del: bex_simps)
  have vms: "vmlist (mem_init_reserved cfg) = map (\<lambda>vm. vm\<lparr>img_reserved := mem_vm_img_in_phys_rgn vm,
      vmc_platform := (vmc_platform vm)\<lparr>plat_regions := map init_region (plat_regions (vmc_platform vm))\<rparr>\<rparr>) (vmlist cfg)"
    by (simp add: mem_init_reserved_def Let_def)
  show "deferred_ok (mem_init_reserved cfg)" by (auto simp: deferred_ok_def vms rgn)
  have "\<forall>it \<in> set (map abs_img (vmlist (mem_init_reserved cfg))). fst it \<longrightarrow> \<not> fst (snd it)"
    by (auto simp: vms abs_img_def rgn)
  moreover have "\<forall>it \<in> set (concat (map vm_items (vmlist (mem_init_reserved cfg)))). fst it \<longrightarrow> \<not> fst (snd it)"
    by (auto simp: vms vm_items_def abs_region_def init_region_def)
  moreover have "\<forall>it \<in> set (map abs_shmem (shmemlist (mem_init_reserved cfg))). fst it \<longrightarrow> \<not> fst (snd it)"
    by (auto simp: mem_init_reserved_def Let_def abs_shmem_def init_shmem_def)
  ultimately show "\<forall>it \<in> set (static_items (mem_init_reserved cfg)). fst it \<longrightarrow> \<not> fst (snd it)"
    unfolding static_items_def set_append by blast
qed

lemma mem_check_reserved_items:
  assumes "mem_check_reserved L noload cfg"
  shows "held_frames (static_items cfg) = map item_frames (filter fst (static_items cfg))"
proof -
  have "\<forall>it \<in> set (static_items cfg). fst it \<longrightarrow> fst (snd it)"
    using assms by (auto simp: mem_check_reserved_def static_items_def abs_img_def vm_items_def
      abs_region_def abs_shmem_def)
  then have "filter (\<lambda>it. fst it \<and> fst (snd it)) (static_items cfg) = filter fst (static_items cfg)"
    by (auto intro: filter_cong)
  then show ?thesis by (simp add: held_frames_def)
qed

text \<open>What is placed where never changes; only the reserved flags do.\<close>

definition item_keys :: "config \<Rightarrow> (bool \<times> ppages) list" where
  "item_keys cfg = map (\<lambda>it. (fst it, item_pages it)) (static_items cfg)"

lemma items_ok_keys: "items_ok (static_items c) \<longleftrightarrow> (\<forall>(a, g) \<in> set (item_keys c). a \<longrightarrow> ppages_ok g)"
  by (auto simp: items_ok_def item_keys_def)

lemma mem_reserve_physical_memory_keys:
  assumes "mem_reserve_physical_memory L pool cfg noload = (pool', cfg', noload')" and "deferred_ok cfg"
  shows "item_keys cfg' = item_keys cfg \<and> deferred_ok cfg'"
proof -
  note abs = mem_reserve_physical_memory_abs [OF assms]
  have "item_keys cfg' = item_keys cfg"
    unfolding item_keys_def using conjunct1 [OF abs]
    by (rule reserve_items_marks) (simp add: item_mark_def item_pages_def)
  with abs show ?thesis by simp
qed

lemma mem_create_ppools_loop_keys:
  assumes "mem_create_ppools_loop L root xs last_index pools cfg noload = Some (pools', cfg', noload')"
    and "deferred_ok cfg"
  shows "item_keys cfg' = item_keys cfg"
  using assms
proof (induction L root xs last_index pools cfg noload rule: mem_create_ppools_loop.induct)
  case (2 L root i reg regs last_index pools cfg noload)
  show ?case
  proof (cases "i = root")
    case True
    with 2 show ?thesis by auto
  next
    case False
    then obtain last1 pool0 where init: "pp_init L last_index (mr_base reg) (mr_size reg) = Some (last1, pool0)"
      using 2(3) by (auto split: option.splits)
    obtain pool cfg1 noload1 where
      res: "mem_reserve_physical_memory L pool0 cfg noload = (pool, cfg1, noload1)" by (metis prod_cases3)
    note keys = mem_reserve_physical_memory_keys [OF res 2(4)]
    have "mem_create_ppools_loop L root regs last1 (pools @ [pool]) cfg1 noload1 = Some (pools', cfg', noload')"
      using 2(3) False init res by simp
    then show ?thesis using 2(1) [OF False init refl res [symmetric] refl refl] keys by simp
  qed
qed simp

text \<open>The stages of a boot that returns.\<close>

lemma mem_init_stages:
  assumes "mem_init L mp regs cfg = Inr (pools, cfg')"
  obtains root last0 last_index root_pool c1 pool0 c3 noload noload' where
    "root < length regs" "pp_root_init L last0 (regs ! root) = Some (last_index, root_pool)"
    "mem_reserve_physical_memory L root_pool (mem_init_reserved c1) False = (pool0, c3, noload)"
    "mem_create_ppools_loop L root (zip [0..<length regs] regs) last_index [pool0] c3 noload = Some (pools, cfg', noload')"
    "mem_check_reserved L noload' cfg'"
proof -
  obtain root last_index root_pool where
    stp: "mem_setup_root_pool L 0 regs = Some (root, last_index, root_pool)"
    using assms by (auto simp: mem_init_def split: option.splits)
  obtain c1 where c1: "config_init mp (bao_vas_base L) (img_addr L) cfg = Inr c1"
    using assms stp by (auto simp: mem_init_def obind_eq_Inr)
  obtain pool0 c3 noload where
    res: "mem_reserve_physical_memory L root_pool (mem_init_reserved c1) False = (pool0, c3, noload)"
    by (metis prod_cases3)
  obtain noload' where
    "mem_create_ppools L root regs last_index [pool0] c3 noload = Some (pools, cfg', noload')"
    "mem_check_reserved L noload' cfg'"
    using assms stp c1 res by (auto simp: mem_init_def Let_def split: option.splits if_splits)
  moreover obtain last0 where
    "root < length regs" "pp_root_init L last0 (regs ! root) = Some (last_index, root_pool)"
    using stp unfolding mem_setup_root_pool_def mem_find_root_region_def Let_def
    by (auto simp: find_upt_eq_Some split: option.splits)
  ultimately show thesis using that res unfolding mem_create_ppools_def by blast
qed

lemma mem_init_result:
  assumes "mem_init L mp regs cfg = Inr (pools, cfg')"
    and regs: "\<forall>r \<in> set regs. region_ok r" "disjoint_list (map region_frames regs)"
    and L: "layout_ok L" and items: "items_ok (static_items cfg')"
  shows "boot_inv L pools cfg' \<and> disjoint_list (map pp_frames pools) \<and>
    held_frames (static_items cfg') = map item_frames (filter fst (static_items cfg'))"
  using assms(1)
proof (rule mem_init_stages)
  fix root last0 last_index root_pool c1 pool0 c3 noload noload'
  assume root: "root < length regs" "pp_root_init L last0 (regs ! root) = Some (last_index, root_pool)"
    and res: "mem_reserve_physical_memory L root_pool (mem_init_reserved c1) False = (pool0, c3, noload)"
    and create: "mem_create_ppools_loop L root (zip [0..<length regs] regs) last_index [pool0] c3 noload =
      Some (pools, cfg', noload')"
    and check: "mem_check_reserved L noload' cfg'"
  have rr: "region_ok (regs ! root)" using regs(1) root(1) by simp
  note p = pp_root_init_result [OF root(2) rr L] and d = mem_init_reserved_items [of c1]
  have "held_frames (static_items (mem_init_reserved c1)) = []" using d(2) by (auto simp: held_frames_def)
  then have part0: "partitioned (hyp_items L @ static_items (mem_init_reserved c1)) ({} \<union> pp_used root_pool)"
    using p by (simp add: partitioned_def)
  have "item_keys cfg' = item_keys (mem_init_reserved c1)"
    using mem_create_ppools_loop_keys [OF create] mem_reserve_physical_memory_keys [OF res d(1)] by simp
  then have "items_ok (static_items (mem_init_reserved c1))" using items unfolding items_ok_keys by simp
  then have b: "boot_inv L [pool0] c3" "pp_frames pool0 = region_frames (regs ! root)"
    using mem_reserve_physical_memory_result [OF res d(1) _ L _ part0] p by (auto simp: boot_inv_def pools_used_def)
  have "map region_frames regs = map region_frames (take root regs) @ region_frames (regs ! root) # map region_frames (drop (Suc root) regs)"
    using root(1) by (metis id_take_nth_drop list.simps(9) map_append)
  then have "disjoint_list (region_frames (regs ! root) # map region_frames (take root regs) @
      map region_frames (drop (Suc root) regs))"
    using regs(2) by (intro disjoint_list_move) simp
  then have "disjoint_list (map pp_frames [pool0] @
      map (\<lambda>(i, r). region_frames r) (filter (\<lambda>(i, r). i \<noteq> root) (zip [0..<length regs] regs)))"
    unfolding other_regions [OF root(1)] using b(2) by simp
  moreover have "\<forall>(i, r) \<in> set (zip [0..<length regs] regs). region_ok r"
    using regs(1) by (auto dest: set_zip_rightD)
  ultimately show ?thesis
    using mem_create_ppools_loop_result [OF create _ _ L b(1)] mem_check_reserved_items [OF check] by simp
qed


section \<open>When the boot succeeds\<close>

lemma reserve_pass_success:
  assumes "reserve_pass pool items = (pool', items')" and "pp_wf pool" and "items_ok items"
    and "disjoint_list (map item_frames (filter item_wanted items))"
    and "\<Union> (item_frames ` set (filter item_wanted items)) \<subseteq> pp_frames pool - pp_used pool"
  shows "items' = map (\<lambda>it. if item_wanted it then item_mark it else it) items \<and> pp_wf pool' \<and>
    pp_frames pool' = pp_frames pool \<and>
    pp_used pool' = pp_used pool \<union> \<Union> (item_frames ` set (filter item_wanted items))"
  using assms
proof (induction items arbitrary: pool pool' items')
  case Nil
  then show ?case by simp
next
  case (Cons it items)
  have ok: "items_ok items" "item_wanted it \<Longrightarrow> ppages_ok (item_pages it)"
    using Cons.prems(3) by (auto simp: items_ok_def item_wanted_def)
  show ?case
  proof (cases "item_wanted it")
    case False
    obtain rest where "reserve_pass pool items = (pool', rest)" "items' = it # rest"
      using Cons.prems(1) False by (auto split: prod.splits)
    with Cons.IH [OF this(1) Cons.prems(2) ok(1)] Cons.prems(4,5) False show ?thesis by simp
  next
    case True
    obtain r pool1 where m: "mem_reserve_ppool_ppages pool (item_pages it) = (r, pool1)" by (metis surj_pair)
    obtain pool2 rest where rest: "reserve_pass pool1 items = (pool2, rest)" by (metis surj_pair)
    have res: "pool' = pool2" "items' = (if r then item_mark it else it) # rest"
      using Cons.prems(1) True by (simp_all add: m rest)
    note mr = mem_reserve_result [OF Cons.prems(2) ok(2) [OF True] m]
    have "item_frames it \<subseteq> pp_frames pool - pp_used pool" using Cons.prems(5) True by simp
    then have r: r using mr unfolding item_frames_def by blast
    then have one: "pp_wf pool1" "pp_frames pool1 = pp_frames pool" "pp_used pool1 = pp_used pool \<union> item_frames it"
      using mr by (simp_all add: item_frames_def)
    have "item_frames it \<inter> \<Union> (item_frames ` set (filter item_wanted items)) = {}"
      using Cons.prems(4) True by simp
    then have "\<Union> (item_frames ` set (filter item_wanted items)) \<subseteq> pp_frames pool1 - pp_used pool1"
      using Cons.prems(5) True one by auto
    from Cons.IH [OF rest one(1) ok(1) _ this] Cons.prems(4) True one r show ?thesis by (auto simp: res)
  qed
qed

lemma pp_root_reserve_hyp_mem_success:
  assumes "reserve_pass pool (map (\<lambda>g. (True, False, g)) (hyp_pages L)) = (pool', hyp_items L)"
  shows "pp_root_reserve_hyp_mem L pool = (True, pool')"
  using assms
  by (auto simp: pp_root_reserve_hyp_mem_def hyp_pages_def hyp_items_def pp_root_reserve_hyp_data_def
    pp_root_reserve_cpus_def pp_root_reserve_hyp_image_load_def pp_root_reserve_hyp_image_noload_def
    item_wanted_def item_pages_def item_mark_def Let_def split: prod.splits if_splits)

text \<open>What the hypervisor and the configuration claim: their frames, in order.\<close>

definition claimed_frames :: "layout \<Rightarrow> config \<Rightarrow> nat set list" where
  "claimed_frames L cfg = map ppages_frames (hyp_pages L) @ map item_frames (filter fst (static_items cfg))"

lemma mem_init_one_region:
  assumes L: "\<not> mem_non_unified L" "layout_ok L" and r: "region_ok r"
    and root: "mem_find_root_region L [r] = Some 0"
    and room: "unat (mr_size r) div 4096 \<le> plat_bitmap_pool_size L * 8"
    and c1: "config_init mp (bao_vas_base L) (img_addr L) cfg = Inr c1"
    and items: "items_ok (static_items (mem_init_reserved c1))"
    and dis: "disjoint_list (claimed_frames L (mem_init_reserved c1))"
    and sub: "\<Union> (set (claimed_frames L (mem_init_reserved c1))) \<subseteq> region_frames r"
  shows "\<exists>pools cfg'. mem_init L mp [r] cfg = Inr (pools, cfg') \<and>
    item_keys cfg' = item_keys (mem_init_reserved c1) \<and> (\<exists>p. pools = [p] \<and> pp_frames p = region_frames r)"
proof -
  let ?c = "mem_init_reserved c1"
  let ?hyp = "map (\<lambda>g. (True, False, g)) (hyp_pages L) :: item list"
  define n where "n = unat (mr_size r) div 4096"
  define fresh :: page_pool where
    "fresh = \<lparr>pp_base = mr_base r, pp_num_pages = n, pp_free = of_nat n, pp_last = 0, pp_bitmap = (\<lambda>g. 0)\<rparr>"
  note f = fresh_pool [OF r n_def fresh_def]
  have wanted: "filter item_wanted ?hyp = ?hyp" by (rule filter_True) (auto simp: item_wanted_def)
  have fr: "map item_frames ?hyp = map ppages_frames (hyp_pages L)"
    "map (\<lambda>it. if item_wanted it then item_mark it else it) ?hyp = hyp_items L"
    by (simp_all add: item_frames_def item_pages_def hyp_items_def item_wanted_def item_mark_def)
  obtain pool1 its where h: "reserve_pass fresh ?hyp = (pool1, its)" by (metis surj_pair)
  have "items_ok ?hyp" using L(2) by (auto simp: items_ok_def layout_ok_def item_pages_def)
  moreover have "\<Union> (item_frames ` set ?hyp) = \<Union> (set (map ppages_frames (hyp_pages L)))"
    unfolding fr(1) [symmetric] by simp
  ultimately have h': "its = hyp_items L" "pp_wf pool1" "pp_frames pool1 = region_frames r"
    "pp_used pool1 = \<Union> (set (map ppages_frames (hyp_pages L)))"
    using reserve_pass_success [OF h] f dis sub unfolding wanted fr claimed_frames_def
    by (auto simp: disjoint_list_append)
  then have hyp: "pp_root_reserve_hyp_mem L fresh = (True, pool1)"
    using h by (intro pp_root_reserve_hyp_mem_success) simp
  define pool2 where "pool2 = pool1\<lparr>pp_last := 0\<rparr>"
  have pi: "pp_root_init L 0 r = Some (BITMAP_SIZE_IN_BYTES n, pool2)"
    using room hyp region_align [OF r]
    by (simp add: pp_root_init_def Let_def pp_bitmap_alloc_def pool2_def n_def fresh_def)
  obtain pool3 c3 noload where res: "mem_reserve_physical_memory L pool2 ?c False = (pool3, c3, noload)"
    by (metis prod_cases3)
  note d = mem_init_reserved_items [of c1]
  note abs = mem_reserve_physical_memory_abs [OF res d(1)]
  have w: "filter item_wanted (static_items ?c) = filter fst (static_items ?c)"
    using d(2) by (intro filter_cong) (auto simp: item_wanted_def)
  have p2: "pp_wf pool2" "pp_frames pool2 = region_frames r" "pp_used pool2 = \<Union> (set (map ppages_frames (hyp_pages L)))"
    using h' by (simp_all add: pool2_def)
  have "\<Union> (item_frames ` set (filter fst (static_items ?c))) \<subseteq> pp_frames pool2 - pp_used pool2"
    using dis sub unfolding p2 claimed_frames_def by (auto simp: disjoint_list_append)
  then have "static_items c3 = map (\<lambda>it. if item_wanted it then item_mark it else it) (static_items ?c) \<and>
      pp_frames pool3 = region_frames r"
    using reserve_pass_success [of pool2 "static_items ?c" pool3 "static_items c3"] abs L(1) items dis p2
    unfolding w claimed_frames_def by (auto simp: disjoint_list_append noload_step_def)
  then have c3: "\<And>it. it \<in> set (static_items c3) \<Longrightarrow> fst it \<longrightarrow> fst (snd it)" and p3: "pp_frames pool3 = region_frames r"
    by (auto simp: item_wanted_def item_mark_def)
  have "img_reserved vm" if "vm \<in> set (vmlist c3)" for vm
  proof -
    have "abs_img vm \<in> set (static_items c3)" using that by (simp add: static_items_def)
    from c3 [OF this] abs that show ?thesis by (auto simp: abs_img_def deferred_ok_def)
  qed
  moreover have "rg_reserved g" if "vm \<in> set (vmlist c3)" "g \<in> set (plat_regions (vmc_platform vm))" "rg_place_phys g" for vm g
  proof -
    have "abs_region g \<in> set (static_items c3)" using that by (auto simp: static_items_def vm_items_def)
    from c3 [OF this] that(3) show ?thesis by (simp add: abs_region_def)
  qed
  moreover have "sh_reserved s" if "s \<in> set (shmemlist c3)" "sh_place_phys s" for s
  proof -
    have "abs_shmem s \<in> set (static_items c3)" using that by (simp add: static_items_def)
    from c3 [OF this] that(2) show ?thesis by (simp add: abs_shmem_def)
  qed
  ultimately have "mem_check_reserved L noload c3"
    using L(1) by (simp add: mem_check_reserved_def)
  then have "mem_init L mp [r] cfg = Inr ([pool3], c3)"
    using root pi res c1
    by (simp add: mem_init_def mem_setup_root_pool_def mem_create_ppools_def Let_def)
  then show ?thesis using mem_reserve_physical_memory_keys [OF res d(1)] p3 by auto
qed


section \<open>What the boot promises\<close>

definition demo_layout :: layout where
  "demo_layout = \<lparr>mem_non_unified = False, image_start = 0, image_load_end = 0x2000, image_end = 0x3000,
     vm_image_start = 0x8000, vm_image_end = 0x9000, data_vma_start = 0, img_addr = 0x80000000, data_addr = 0,
     cpu_boot_alloc_size = 0x1000, cpu_num = 2, bao_vas_base = 0, plat_bitmap_pool_size = 64\<rparr>"

definition demo_region :: mem_region where
  "demo_region = \<lparr>mr_base = 0x80000000, mr_size = 0x40000\<rparr>"

definition demo_vm :: vm_config where
  "demo_vm = \<lparr>img_base_addr = 0x80010000, img_load_addr = 0x80002000, img_size = 0x1000,
     img_separately_loaded = True, img_inplace = False, img_reserved = False, vmc_entry = 0x80010000,
     vmc_cpu_affinity = 0, vmc_colors = 0,
     vmc_platform = \<lparr>plat_cpu_num = 1,
       plat_regions = [\<lparr>rg_base = 0x80010000, rg_size = 0x10000, rg_colors = 0, rg_place_phys = True,
         rg_phys = 0x80010000, rg_reserved = False\<rparr>],
       plat_ipcs = [], plat_devs = [], plat_remio_devs = []\<rparr>\<rparr>"

definition demo_config :: config where
  "demo_config = \<lparr>hyp_colors = 0,
     shmemlist = [\<lparr>sh_size = 0x1000, sh_colors = 0, sh_place_phys = True, sh_phys = 0x80008000,
       sh_reserved = False, sh_cpu_masters = 0\<rparr>],
     vmlist = [demo_vm]\<rparr>"

lemma demo_boot_facts:
  "layout_ok demo_layout" "region_ok demo_region" "mem_find_root_region demo_layout [demo_region] = Some 0"
  "items_ok (static_items (mem_init_reserved demo_config))"
  "map item_frames (filter fst (static_items (mem_init_reserved demo_config))) =
     [{0x80002..<0x80003}, {0x80010..<0x80020}, {0x80008..<0x80009}]"
  "map ppages_frames (hyp_pages demo_layout) = [{0x80000..<0x80002}, {0x80003..<0x80004}, {0x80004..<0x80006}]"
  "region_frames demo_region = {0x80000..<0x80040}"
proof -
  have np: "unat (NUM_PAGES 0x2000) = 2" "unat (NUM_PAGES 0x1000) = 1" "unat (NUM_PAGES 0x10000) = 16"
    by (simp_all add: NUM_PAGES_unat)
  have pages: "hyp_pages demo_layout = [mem_ppages_get 0x80000000 2, mem_ppages_get 0x80003000 1, mem_ppages_get 0x80004000 2]"
    by (simp add: hyp_pages_def demo_layout_def image_load_ppages_def image_noload_ppages_def cpu_ppages_def np)
  show "layout_ok demo_layout"
    unfolding layout_ok_def pages
    by (simp add: ppages_ok_def mem_ppages_get_def image_load_ppages_def demo_layout_def np)
  show "region_ok demo_region" by (simp add: region_ok_def demo_region_def)
  show "mem_find_root_region demo_layout [demo_region] = Some 0"
    by (simp add: mem_find_root_region_def calc_root_mem_size_def demo_layout_def demo_region_def range_in_range_iff)
  have "\<not> mem_vm_img_in_phys_rgn demo_vm"
    by (simp add: mem_vm_img_in_phys_rgn_def demo_vm_def range_in_range_iff)
  then have items: "static_items (mem_init_reserved demo_config) =
      [(True, False, mem_ppages_get 0x80002000 1), (True, False, mem_ppages_get 0x80010000 16), (True, False, mem_ppages_get 0x80008000 1)]"
    by (simp add: static_items_def mem_init_reserved_def demo_config_def Let_def)
      (simp add: demo_vm_def abs_img_def abs_region_def abs_shmem_def vm_items_def img_pages_def region_pages_def
        shmem_pages_def init_region_def init_shmem_def mem_vm_img_in_phys_rgn_def np)
  show "items_ok (static_items (mem_init_reserved demo_config))"
    by (simp add: items_ok_def items item_pages_def ppages_ok_def mem_ppages_get_def)
  show "map item_frames (filter fst (static_items (mem_init_reserved demo_config))) =
     [{0x80002..<0x80003}, {0x80010..<0x80020}, {0x80008..<0x80009}]"
    by (simp add: items item_frames_def item_pages_def ppages_frames_def mem_ppages_get_def)
  show "map ppages_frames (hyp_pages demo_layout) = [{0x80000..<0x80002}, {0x80003..<0x80004}, {0x80004..<0x80006}]"
    by (simp add: pages ppages_frames_def mem_ppages_get_def)
  show "region_frames demo_region = {0x80000..<0x80040}"
    by (simp add: region_frames_def demo_region_def)
qed

lemma demo_config_init:
  "config_init config_mem_prot_init_default (bao_vas_base demo_layout) (img_addr demo_layout) demo_config = Inr demo_config"
  by (simp add: config_init_def config_mem_prot_init_default_def config_adjust_vm_image_addr_def demo_config_def demo_vm_def)

lemma demo_claims:
  "claimed_frames demo_layout (mem_init_reserved demo_config) =
     [{0x80000..<0x80002}, {0x80003..<0x80004}, {0x80004..<0x80006}, {0x80002..<0x80003}, {0x80010..<0x80020},
      {0x80008..<0x80009}]"
  unfolding claimed_frames_def demo_boot_facts by simp


text \<open>C15: on a platform of one region, the boot succeeds whenever the region holds the hypervisor
  image, the bitmap array is large enough and what is placed statically is disjoint and inside
  the region; it never halts then, and nothing is moved.\<close>
theorem boot_succeeds:
  assumes "\<not> mem_non_unified L" and "layout_ok L" and "region_ok r"
    and "mem_find_root_region L [r] = Some 0"
    and "unat (mr_size r) div 4096 \<le> plat_bitmap_pool_size L * 8"
    and "config_init mem_prot_init (bao_vas_base L) (img_addr L) cfg = Inr c1"
    and "items_ok (static_items (mem_init_reserved c1))"
    and "disjoint_list (claimed_frames L (mem_init_reserved c1))"
    and "\<Union> (set (claimed_frames L (mem_init_reserved c1))) \<subseteq> region_frames r"
  shows "\<exists>p cfg'. mem_init L mem_prot_init [r] cfg = Inr ([p], cfg') \<and>
    item_keys cfg' = item_keys (mem_init_reserved c1) \<and> pp_frames p = region_frames r"
  using mem_init_one_region [OF assms] by auto

theorem boot_succeeds_witness:
  "\<exists>p cfg'. mem_init demo_layout config_mem_prot_init_default [demo_region] demo_config = Inr ([p], cfg') \<and>
     pp_frames p = {0x80000..<0x80040}"
proof -
  have u: "\<not> mem_non_unified demo_layout" and room: "unat (mr_size demo_region) div 4096 \<le> plat_bitmap_pool_size demo_layout * 8"
    by (simp_all add: demo_layout_def demo_region_def)
  have "disjoint_list (claimed_frames demo_layout (mem_init_reserved demo_config))"
    and "\<Union> (set (claimed_frames demo_layout (mem_init_reserved demo_config))) \<subseteq> region_frames demo_region"
    unfolding demo_claims demo_boot_facts(7) by auto
  from boot_succeeds [OF u demo_boot_facts(1-3) room demo_config_init demo_boot_facts(4) this]
  show ?thesis by (auto simp: demo_boot_facts(7))
qed


text \<open>The bitmaps carved out for successive pools occupy consecutive, disjoint bytes inside the
  array, large enough for one bit per page; on a refusal nothing is taken.\<close>
theorem pp_bitmap_alloc_disjoint:
  assumes "pp_bitmap_alloc plat last0 n = (ok, last1, off)" and "last0 \<le> plat"
  shows "last1 \<le> plat \<and> (ok \<longrightarrow> off = Some last0 \<and> last0 \<le> last1 \<and> n \<le> 8 * (last1 - last0)) \<and>
    (\<not> ok \<longrightarrow> last1 = last0 \<and> off = None \<and> (plat - last0) * 8 < n)"
  using assms bytes_enough [of n plat last0] bits_in_bytes [of n]
  by (auto simp: pp_bitmap_alloc_def split: if_splits)

theorem pp_bitmap_alloc_disjoint_witness:
  "fst (pp_bitmap_alloc 16 4 96) \<and> fst (snd (pp_bitmap_alloc 16 4 96)) \<le> 16"
  using pp_bitmap_alloc_disjoint [of 16 4 96 "fst (pp_bitmap_alloc 16 4 96)" "fst (snd (pp_bitmap_alloc 16 4 96))"
    "snd (snd (pp_bitmap_alloc 16 4 96))"] by (simp add: pp_bitmap_alloc_def)

end
