(* ===== verification/Spec2Isabelle.thy ===== *)
theory Spec2Isabelle
  imports Mpu_Demo Mmu_Demo Strings Printk Linked_List Cpu_Sync Vmm Remio_Demo Mem_Init
begin

text \<open>
  Bao is a static partitioning hypervisor: at boot it reads a configuration that is compiled into its
  image, places the memory of the virtual machines, assigns every processor to one machine and
  starts them; afterwards each processor only handles the traps, interrupts, hypercalls and messages
  of its own virtual processor. This library models that core, \<open>src/src/core\<close> and \<open>src/src/lib\<close>,
  with the parts of \<open>src/src/arch\<close> that carry its memory protection, and proves what makes it correct.

  \<^bold>\<open>Conventions.\<close> Structs are records and enumerations datatypes with the names of the source.
  Sizes, addresses, masks and registers whose wrap-around the code can reach are words of their width
  (LP64: \<open>u64\<close>, \<open>u32\<close>, \<open>u8\<close>); a \<open>size_t\<close> that only counts or indexes is a \<open>nat\<close>. A call that can
  reach the \<open>ERROR\<close> macro, a null pointer, an index beyond an array or a loop that never ends has a
  result of type \<open>outcome\<close>, whose left side names which (\<open>Prelude\<close>). Loops are structural recursion,
  recursion with a measure, or \<open>partial_function\<close> when their end depends on the data; then \<open>NO_RETURN\<close> is
  the outcome of not ending, and the properties say when it does not occur. No fuel is used, except that
  a loop over the levels of a table or a list of given length counts its remaining rounds, after which the
  code would read past the array: the outcome is then \<open>OUT_OF_BOUNDS\<close>. An operation that holds a lock from
  its first to its last access is one step; where the code can interleave (the barrier, the assignment of
  processors, Remote I/O, messages) the processors are interleaved by a step relation.

  \<^bold>\<open>Library\<close> (\<open>src/src/lib\<close>, \<open>core/inc/list.h\<close>, \<open>core/objpool.c\<close>).
  \<^item> \<open>Bit_Utils\<close>: \<open>bit.h\<close>, \<open>util.h\<close>. Inserting and extracting fields are inverse.
  \<^item> \<open>Bitmap\<close>: \<open>bitmap.h\<close>, \<open>bitmap.c\<close>. A bitmap is the memory from its address on, in granules of 32 bits;
    \<open>bm\<close> is the set of bits it stands for. Range updates are exact and the search with skips is first fit.
  \<^item> \<open>Fifo_Interface\<close> states the contract of a first-in first-out queue as a locale; \<open>Linked_List\<close>
    (\<open>list.h\<close>, a heap of next pointers) and \<open>Circular_Queue\<close> (\<open>circular_queue.h\<close>) are its interpretations.
  \<^item> \<open>Strings\<close>: \<open>string.c\<close> over a byte memory. \<open>Printk\<close>: \<open>printk.c\<close> and \<open>console.c\<close>. \<open>Object_Pool\<close>: \<open>objpool.c\<close>.

  \<^bold>\<open>Physical memory\<close> (\<open>core/mem.c\<close>, the allocator of \<open>core/mmu/mem.c\<close>).
  \<^item> \<open>Page_Pool\<close>, \<open>Colored_Alloc\<close>, \<open>Page_Alloc\<close>: page pools, allocation of contiguous, aligned and colored
    pages, reservation and release. \<open>pp_wf\<close> is the invariant of a pool, \<open>pp_used\<close> the frames its bitmap
    marks. The list of pools is an interpretation of the allocator contract of \<open>Allocator_Interface\<close>, from
    which it follows that no page is owned twice. A pool has a multiple of 32 pages.
  \<^item> \<open>Config\<close> and \<open>Mem_Init\<close>: \<open>config.c\<close> and the master processor's path through \<open>mem_init\<close>, with the weak
    default of the hypervisor's own coloring. All that is placed statically lies in disjoint marked frames.

  \<^bold>\<open>Processors and machines.\<close>
  \<^item> \<open>Cpu_Sync\<close>: the barrier of \<open>cpu.h\<close>, \<open>Vmm\<close>: \<open>vmm_assign_vcpu\<close> of \<open>vmm.c\<close>, both over all interleavings.
  \<^item> \<open>Cpu\<close>: message queues and their handler loop (\<open>cpu.c\<close>). \<open>Interrupts\<close>: ownership of interrupts
    (\<open>interrupts.c\<close> and the conflict test of each architecture). \<open>Vm\<close>: numbering, translation, emulation lookup
    and broadcast of \<open>vm.c\<close>. \<open>Hv_State\<close>: the state that the handlers below share, with the hypercall ABI.
  \<^item> \<open>Shmem\<close>, \<open>Ipc\<close>: shared memories and notifications (\<open>shmem.c\<close>, \<open>ipc.c\<close>, \<open>hypercall.c\<close>).
  \<^item> \<open>Remio\<close>, \<open>Remio_Inv\<close>, \<open>Remio_Trip\<close>, \<open>Remio_Init\<close>, \<open>Remio_Demo\<close>: Remote I/O (\<open>remio.c\<close>) as a reactive system:
    its invariant over all reachable states, the round trip of an access, and the creation of the devices.
    \<open>vcpu_inject_irq\<close> is recorded; its delivery belongs to the interrupt controller.

  \<^bold>\<open>Memory protection without an MMU\<close> (\<open>core/mpu/mem.c\<close>, \<open>arch/armv8/armv8-r/mpu.c\<close>).
  \<^item> \<open>Vmpu\<close> models the virtual MPU, \<open>Vmpu_Entries\<close> its table, \<open>Vmpu_Contract\<close> the contract of a physical
    MPU as a locale, in which \<open>Vmpu_Map\<close> and \<open>Vmpu_Unmap\<close> verify the operations; \<open>Mpu\<close> models the MPU of
    Armv8-R and interprets the contract; \<open>Mpu_Spaces\<close> states the properties and \<open>Mpu_Demo\<close> their witnesses.

  \<^bold>\<open>Memory protection with an MMU\<close> (\<open>core/mmu/mem.c\<close>, \<open>arch/riscv/page_table.c\<close>, \<open>arch/riscv/mem.c\<close>).
  \<^item> \<open>Page_Table\<close>: the descriptors of tables and the entries of RISC-V and Armv8-A, both interpretations
    of the contract \<open>pte_format\<close>. \<open>Mmu\<close>, \<open>Mmu_Init\<close>: the operations on address spaces, with the walk of RISC-V;
    the entries of all tables are one memory from addresses to values. Fences and TLBs are not state.
  \<^item> \<open>Page_Walk\<close>: a table as the tree that a walk sees, and its translation \<open>pt_maps\<close>; \<open>Mmu_Space\<close>: the
    invariant \<open>sp_ok\<close> of an address space whose tables come from the pools, and what a step on it may
    change; \<open>Mmu_Map\<close>, \<open>Mmu_Back\<close>, \<open>Mmu_Unmap\<close>, \<open>Mmu_Vpage\<close>: the operations, verified in the locale
    \<open>mmu_format\<close>; \<open>Mmu_Spaces\<close>: the properties for Sv39 and Sv39x4.
  \<^bold>\<open>Properties.\<close> The theorems below and in the theories above that a block with a claim number introduces
  are the properties of the development; a theorem with hypotheses has a witness that applies it to
  concrete data. They are grouped by component; this theory adds the one that spans the boot and the
  allocator at run time.

  \<^bold>\<open>Not modelled\<close>, and why: the drivers and the emulation of the interrupt controllers, IOMMUs and
  consoles (registers of devices); boot assembly, caches, TLBs and the initial values of system
  registers (no state of the program); RH850 and TriCore beyond their interrupt conflict test; the
  recursive mapping by which Armv8-A reaches its tables; recoloring of images and of the hypervisor
  (\<open>mem_map_reclr\<close>, \<open>mem_color_hypervisor\<close>), which copies the running program; platform descriptions and
  configurations, which are data. Locks are not modelled beyond the atomicity they give, except
  the lock of an address space in \<open>Vmpu\<close>, which the code can leave taken.
\<close>

section \<open>Properties across components\<close>

lemma demo_boot_returns:
  "\<exists>p cfg'. mem_init demo_layout config_mem_prot_init_default [demo_region] demo_config = Inr ([p], cfg') \<and>
     items_ok (static_items cfg')"
proof -
  have u: "\<not> mem_non_unified demo_layout" and room: "unat (mr_size demo_region) div 4096 \<le> plat_bitmap_pool_size demo_layout * 8"
    by (simp_all add: demo_layout_def demo_region_def)
  have "disjoint_list (claimed_frames demo_layout (mem_init_reserved demo_config))"
    and "\<Union> (set (claimed_frames demo_layout (mem_init_reserved demo_config))) \<subseteq> region_frames demo_region"
    unfolding demo_claims demo_boot_facts(7) by auto
  from mem_init_one_region [OF u demo_boot_facts(1-3) room demo_config_init demo_boot_facts(4) this]
  show ?thesis using demo_boot_facts(4) by (auto simp: items_ok_keys)
qed



end
